(* ===== verification/Prelude.thy ===== *)
theory Prelude
  imports Main "HOL-Library.Finite_Map" "HOL-Library.Code_Target_Nat" "HOL-Library.List_Lexorder" "HOL-Library.Char_ord"
begin

text \<open>
  Shared vocabulary of the development: Go strings and byte slices as byte lists, the byte-wise
  functions of Go's standard packages \<open>strings\<close>, \<open>bytes\<close> and \<open>encoding/binary\<close> that the
  modelled code calls, Go's \<open>int64\<close> arithmetic, and the order facts about byte strings that
  every key-range argument uses.
\<close>

section \<open>Collections of rules\<close>

named_theorems key_simps \<open>shape and distinctness of store keys\<close>
named_theorems frame \<open>fields and keys an operation leaves alone\<close>

section \<open>Byte strings\<close>

type_synonym bytes = "char list"

abbreviation byte_val :: "char \<Rightarrow> nat" where
  "byte_val c \<equiv> of_char c"

lemma char_less_val: "(c < d) = (byte_val c < byte_val d)"
  by (simp add: less_char_def)

lemma char_le_val: "(c \<le> d) = (byte_val c \<le> byte_val d)"
  by (simp add: less_eq_char_def)

lemma list_append_less_cancel [simp]: "((q @ x :: bytes) < q @ y) = (x < y)"
  by (induction q) auto

lemma list_append_le_cancel [simp]: "((q @ x :: bytes) \<le> q @ y) = (x \<le> y)"
  by (induction q) auto

text \<open>
  A half-open range whose upper bound is the prefix with its last byte incremented holds exactly
  the strings with that prefix. Every family scan of the two key-value schemas is of this form.
\<close>

lemma prefix_range_cons:
  fixes k :: bytes
  assumes "byte_val d = Suc (byte_val c)"
  shows "([c] \<le> k \<and> k < [d]) = (\<exists>r. k = c # r)"
proof (cases k)
  case Nil
  then show ?thesis by simp
next
  case (Cons a r)
  have "(c < a \<or> c = a) \<and> (a < d) \<longleftrightarrow> a = c"
    using assms by (auto simp: char_less_val)
  then show ?thesis
    using Cons by auto
qed

lemma prefix_range:
  fixes k :: bytes
  assumes d: "byte_val d = Suc (byte_val c)"
  shows "(q @ [c] \<le> k \<and> k < q @ [d]) = (\<exists>r. k = q @ c # r)"
proof (induction q arbitrary: k)
  case Nil
  show ?case using prefix_range_cons [OF d] by simp
next
  case (Cons a q)
  show ?case
  proof (cases k)
    case Nil
    then show ?thesis by simp
  next
    case (Cons b r)
    have "((a # q) @ [c] \<le> k \<and> k < (a # q) @ [d]) = (b = a \<and> q @ [c] \<le> r \<and> r < q @ [d])"
      using Cons by auto
    also have "\<dots> = (b = a \<and> (\<exists>r'. r = q @ c # r'))"
      using Cons.IH [of r] by simp
    also have "\<dots> = (\<exists>r'. k = (a # q) @ c # r')"
      using Cons by auto
    finally show ?thesis .
  qed
qed

section \<open>Go's string functions\<close>

text \<open>\<open>strings.IndexByte\<close>: the first position of a byte, \<open>None\<close> for Go's \<open>-1\<close>.\<close>

fun index_byte :: "char \<Rightarrow> bytes \<Rightarrow> nat option" where
  "index_byte c [] = None"
| "index_byte c (x # xs) = (if x = c then Some 0 else map_option Suc (index_byte c xs))"

definition has_prefix :: "bytes \<Rightarrow> bytes \<Rightarrow> bool" where
  "has_prefix s p = (take (length p) s = p)"

definition has_suffix :: "bytes \<Rightarrow> bytes \<Rightarrow> bool" where
  "has_suffix s p = (length p \<le> length s \<and> drop (length s - length p) s = p)"

text \<open>\<open>strings.Index\<close>: the first position at which \<open>p\<close> occurs in \<open>s\<close>.\<close>

fun index_of :: "bytes \<Rightarrow> bytes \<Rightarrow> nat option" where
  "index_of [] p = (if p = [] then Some 0 else None)"
| "index_of (x # xs) p =
     (if has_prefix (x # xs) p then Some 0 else map_option Suc (index_of xs p))"

definition contains :: "bytes \<Rightarrow> bytes \<Rightarrow> bool" where
  "contains s p = (index_of s p \<noteq> None)"

text \<open>ASCII lower-casing of one byte; Go's \<open>strings.ToLower\<close> on an ASCII string is its map.\<close>

definition lower_byte :: "char \<Rightarrow> char" where
  "lower_byte c = (if CHR ''A'' \<le> c \<and> c \<le> CHR ''Z'' then char_of (byte_val c + 32) else c)"

definition to_lower :: "bytes \<Rightarrow> bytes" where
  "to_lower s = map lower_byte s"

text \<open>\<open>strings.Split\<close> on a one-byte separator: never empty, as in Go.\<close>

fun split_byte :: "char \<Rightarrow> bytes \<Rightarrow> bytes list" where
  "split_byte c [] = [[]]"
| "split_byte c (x # xs) =
     (if x = c then [] # split_byte c xs
      else (case split_byte c xs of [] \<Rightarrow> [[x]] | w # ws \<Rightarrow> (x # w) # ws))"

text \<open>\<open>strings.TrimSpace\<close> on an ASCII string.\<close>

definition ascii_blank :: "char \<Rightarrow> bool" where
  "ascii_blank c = (c \<in> {CHR 0x09, CHR 0x0A, CHR 0x0B, CHR 0x0C, CHR 0x0D, CHR 0x20})"

definition trim_space :: "bytes \<Rightarrow> bytes" where
  "trim_space s = rev (dropWhile ascii_blank (rev (dropWhile ascii_blank s)))"

lemma has_prefix_iff: "has_prefix s p = (\<exists>r. s = p @ r)"
  unfolding has_prefix_def by (metis append_eq_conv_conj append_take_drop_id)

lemma has_prefix_append [simp]: "has_prefix (p @ r) p"
  by (simp add: has_prefix_def)

lemma has_prefix_Nil [simp]: "has_prefix s []"
  by (simp add: has_prefix_def)

lemma has_suffix_iff: "has_suffix s p = (\<exists>r. s = r @ p)"
proof
  assume "has_suffix s p"
  then have "s = take (length s - length p) s @ p"
    unfolding has_suffix_def by (metis append_take_drop_id)
  then show "\<exists>r. s = r @ p" ..
next
  assume "\<exists>r. s = r @ p"
  then show "has_suffix s p" by (auto simp: has_suffix_def)
qed

lemma index_byte_None_iff: "(index_byte c s = None) = (c \<notin> set s)"
  by (induction s) auto

lemma index_byte_Some:
  "index_byte c s = Some i \<Longrightarrow> i < length s \<and> s ! i = c \<and> c \<notin> set (take i s)"
proof (induction s arbitrary: i)
  case Nil
  then show ?case by simp
next
  case (Cons x xs)
  then show ?case by (cases "x = c") (auto split: if_splits)
qed

lemma index_byte_append: "c \<notin> set h \<Longrightarrow> index_byte c (h @ c # r) = Some (length h)"
  by (induction h) auto

lemma index_of_Some:
  "index_of s p = Some i \<Longrightarrow> i + length p \<le> length s \<and> (\<exists>r. s = take i s @ p @ r)"
proof (induction s arbitrary: i)
  case Nil
  then show ?case by (auto split: if_splits)
next
  case (Cons x xs)
  show ?case
  proof (cases "has_prefix (x # xs) p")
    case True
    then obtain r where r: "x # xs = p @ r" by (auto simp: has_prefix_iff)
    then have "length p \<le> length (x # xs)" by (metis le_add1 length_append)
    moreover have "i = 0" using Cons.prems True by simp
    ultimately show ?thesis using r by simp
  next
    case False
    with Cons.prems obtain j where j: "index_of xs p = Some j" "i = Suc j" by auto
    from Cons.IH [OF j(1)] obtain r where "j + length p \<le> length xs" "xs = take j xs @ p @ r"
      by auto
    with j(2) show ?thesis by auto
  qed
qed

lemma index_of_None_iff: "(index_of s p = None) = (\<forall>a r. s \<noteq> a @ p @ r)"
proof (induction s)
  case Nil
  then show ?case by auto
next
  case (Cons x xs)
  show ?case
  proof (cases "has_prefix (x # xs) p")
    case True
    then obtain r where "x # xs = p @ r" by (auto simp: has_prefix_iff)
    then have "\<exists>a r. x # xs = a @ p @ r" by (metis append_Nil)
    with True show ?thesis by simp
  next
    case False
    have "(\<exists>a r. x # xs = a @ p @ r) = (\<exists>a r. xs = a @ p @ r)"
    proof
      assume "\<exists>a r. x # xs = a @ p @ r"
      then obtain a r where a: "x # xs = a @ p @ r" by blast
      with False have "a \<noteq> []" by (auto simp: has_prefix_iff)
      with a show "\<exists>a r. xs = a @ p @ r" by (cases a) auto
    next
      assume "\<exists>a r. xs = a @ p @ r"
      then show "\<exists>a r. x # xs = a @ p @ r" by (metis append_Cons)
    qed
    with False Cons.IH show ?thesis by auto
  qed
qed

lemma contains_iff: "contains s p = (\<exists>a r. s = a @ p @ r)"
  using index_of_None_iff [of s p] by (auto simp: contains_def)

section \<open>Integers at Go's width\<close>

text \<open>\<open>int64\<close> arithmetic wraps: \<open>i64\<close> is the representative in \<open>[-2^63, 2^63)\<close>.\<close>

definition i64 :: "int \<Rightarrow> int" where
  "i64 x = (x + 2 ^ 63) mod 2 ^ 64 - 2 ^ 63"

definition is_i64 :: "int \<Rightarrow> bool" where
  "is_i64 x = (- (2 ^ 63) \<le> x \<and> x < 2 ^ 63)"

lemma is_i64_i64 [simp]: "is_i64 (i64 x)"
  by (simp add: is_i64_def i64_def)

lemma i64_id: "is_i64 x \<Longrightarrow> i64 x = x"
  by (simp add: is_i64_def i64_def)

text \<open>\<open>binary.BigEndian\<close> on eight bytes.\<close>

primrec be_bytes :: "nat \<Rightarrow> nat \<Rightarrow> bytes" where
  "be_bytes 0 n = []"
| "be_bytes (Suc k) n = be_bytes k (n div 256) @ [char_of (n mod 256)]"

definition be64 :: "nat \<Rightarrow> bytes" where
  "be64 n = be_bytes 8 n"

definition be_nat :: "bytes \<Rightarrow> nat" where
  "be_nat b = foldl (\<lambda>a c. a * 256 + byte_val c) 0 b"

lemma length_be_bytes [simp]: "length (be_bytes k n) = k"
  by (induction k arbitrary: n) auto

lemma length_be64 [simp]: "length (be64 n) = 8"
  by (simp add: be64_def)

lemma be_nat_bound: "be_nat b < 256 ^ length b"
proof (induction b rule: rev_induct)
  case Nil
  then show ?case by (simp add: be_nat_def)
next
  case (snoc c b)
  have "byte_val c < 256" by (metis of_char_mod_256 mod_less_divisor zero_less_numeral)
  then have "be_nat b * 256 + byte_val c < (be_nat b + 1) * 256" by (simp add: add_mult_distrib)
  also have "\<dots> \<le> 256 ^ length b * 256" using snoc by (intro mult_right_mono) simp_all
  finally show ?case by (simp add: be_nat_def mult.commute)
qed

lemma be_nat_be_bytes: "n < 256 ^ k \<Longrightarrow> be_nat (be_bytes k n) = n"
proof (induction k arbitrary: n)
  case 0
  then show ?case by (simp add: be_nat_def)
next
  case (Suc k)
  then have "n div 256 < 256 ^ k" by (simp add: less_mult_imp_div_less mult.commute)
  from Suc.IH [OF this] show ?case by (simp add: be_nat_def)
qed

lemma be_nat_be64:
  assumes "n < 2 ^ 64"
  shows "be_nat (be64 n) = n"
proof -
  have "n < 256 ^ 8" using assms by simp
  then show ?thesis unfolding be64_def by (rule be_nat_be_bytes)
qed

lemma be64_inj: "m < 2 ^ 64 \<Longrightarrow> n < 2 ^ 64 \<Longrightarrow> be64 m = be64 n \<Longrightarrow> m = n"
  by (metis be_nat_be64)

section \<open>Finite maps in key order\<close>

lemma set_sorted_list_of_fmdom [simp]: "set (sorted_list_of_fset (fmdom m)) = fset (fmdom m)"
  by simp

lemma distinct_sorted_list_of_fset [simp]: "distinct (sorted_list_of_fset A)"
  by (simp add: sorted_list_of_fset.rep_eq)

lemma sorted_sorted_list_of_fset [simp]: "sorted (sorted_list_of_fset A)"
  by (simp add: sorted_list_of_fset.rep_eq)

lemma fmdom_iff_lookup: "(k |\<in>| fmdom m) = (fmlookup m k \<noteq> None)"
  by (metis fmdom_notI fmdom_notD)

lemma fset_fmdom_iff [simp]: "(k \<in> fset (fmdom m)) = (fmlookup m k \<noteq> None)"
  by (simp add: fmdom_iff_lookup)

end
