(* ===== verification/KV.thy ===== *)
theory KV
  imports Prelude
begin

text \<open>
  The key-value store under the crawl frontier and the article store. Pebble is a library outside
  the repository; what the code relies on is its documented contract, stated here as the locale
  \<open>ordered_kv\<close>: a store maps byte keys to values, a batch is a list of point writes, point
  deletes and range deletes applied in order, and an iterator over \<open>[lo, hi)\<close> yields the live
  keys in byte order. The state of the model is the map itself. The failures Pebble can report
  are inputs of every operation (record \<open>env\<close>), so each error return of the source is a branch.
\<close>

type_synonym 'v kv = "(bytes, 'v) fmap"

datatype 'v bop = BSet bytes 'v | BDel bytes | BDelRange bytes bytes

fun apply_bop :: "'v bop \<Rightarrow> 'v kv \<Rightarrow> 'v kv" where
  "apply_bop (BSet k v) db = fmupd k v db"
| "apply_bop (BDel k) db = fmdrop k db"
| "apply_bop (BDelRange lo hi) db = fmfilter (\<lambda>k. \<not> (lo \<le> k \<and> k < hi)) db"

definition apply_batch :: "'v bop list \<Rightarrow> 'v kv \<Rightarrow> 'v kv" where
  "apply_batch ops db = fold apply_bop ops db"

text \<open>The live keys of an iterator with bounds \<open>lo\<close> (inclusive) and \<open>hi\<close> (exclusive).\<close>

definition kv_keys :: "'v kv \<Rightarrow> bytes \<Rightarrow> bytes \<Rightarrow> bytes list" where
  "kv_keys db lo hi = filter (\<lambda>k. lo \<le> k \<and> k < hi) (sorted_list_of_fset (fmdom db))"

text \<open>\<open>SeekGE\<close> positions an iterator at its first key not below the target.\<close>

definition seek_ge :: "bytes list \<Rightarrow> bytes \<Rightarrow> bytes list" where
  "seek_ge ks c = dropWhile (\<lambda>k. k < c) ks"

text \<open>What the environment decides at one call: cancellation, I/O failures (a read by its key, a new
  iterator by its lower bound, the commit), the wall clock.\<close>

record env =
  ctx_err :: bool
  get_err :: "bytes \<Rightarrow> bool"
  iter_err :: "bytes \<Rightarrow> bool"
  commit_err :: bool
  clock :: int

definition quiet :: "env \<Rightarrow> bool" where
  "quiet e = (\<not> ctx_err e \<and> (\<forall>k. \<not> get_err e k) \<and> (\<forall>k. \<not> iter_err e k) \<and> \<not> commit_err e)"

definition calm_env :: "int \<Rightarrow> env" where
  "calm_env t = \<lparr>ctx_err = False, get_err = (\<lambda>_. False), iter_err = (\<lambda>_. False),
     commit_err = False, clock = t\<rparr>"

lemma quiet_calm_env [simp]: "quiet (calm_env t)"
  by (simp add: quiet_def calm_env_def)

lemma quietD [dest]:
  assumes "quiet e"
  shows "\<not> ctx_err e" and "\<not> get_err e k" and "\<not> iter_err e k" and "\<not> commit_err e"
  using assms by (auto simp: quiet_def)

lemma quiet_simps [simp]:
  assumes "quiet e"
  shows "ctx_err e = False" and "get_err e k = False" and "iter_err e k = False"
    and "commit_err e = False"
  using assms by (auto simp: quiet_def)

text \<open>Whether an operation of a batch can change the value under a key.\<close>

fun touches :: "'v bop \<Rightarrow> bytes \<Rightarrow> bool" where
  "touches (BSet k v) x = (x = k)"
| "touches (BDel k) x = (x = k)"
| "touches (BDelRange lo hi) x = (lo \<le> x \<and> x < hi)"

section \<open>The contract\<close>

locale ordered_kv =
  fixes get :: "'s \<Rightarrow> bytes \<Rightarrow> 'v option"
    and run_op :: "'v bop \<Rightarrow> 's \<Rightarrow> 's"
    and keys :: "'s \<Rightarrow> bytes \<Rightarrow> bytes \<Rightarrow> bytes list"
  assumes get_set: "get (run_op (BSet k v) s) x = (if x = k then Some v else get s x)"
    and get_del: "get (run_op (BDel k) s) x = (if x = k then None else get s x)"
    and get_del_range:
      "get (run_op (BDelRange lo hi) s) x = (if lo \<le> x \<and> x < hi then None else get s x)"
    and set_keys: "set (keys s lo hi) = {k. lo \<le> k \<and> k < hi \<and> get s k \<noteq> None}"
    and sorted_keys: "sorted (keys s lo hi)"
    and distinct_keys: "distinct (keys s lo hi)"
begin

lemma get_run_op_untouched: "\<not> touches b x \<Longrightarrow> get (run_op b s) x = get s x"
  by (cases b) (auto simp: get_set get_del get_del_range)

lemma get_batch_untouched:
  "(\<And>b. b \<in> set bs \<Longrightarrow> \<not> touches b x) \<Longrightarrow> get (fold run_op bs s) x = get s x"
  by (induction bs arbitrary: s) (auto simp: get_run_op_untouched)

text \<open>Two stores with the same live keys in a range are iterated identically over it.\<close>

lemma keys_cong:
  assumes "\<And>k. lo \<le> k \<Longrightarrow> k < hi \<Longrightarrow> (get s k = None) = (get t k = None)"
  shows "keys s lo hi = keys t lo hi"
proof (rule sorted_distinct_set_unique)
  show "set (keys s lo hi) = set (keys t lo hi)"
    unfolding set_keys by (simp add: assms cong: conj_cong del: not_None_eq)
qed (simp_all add: sorted_keys distinct_keys)

lemma keys_set_outside:
  "\<not> (lo \<le> k \<and> k < hi) \<Longrightarrow> keys (run_op (BSet k v) s) lo hi = keys s lo hi"
  by (rule keys_cong) (auto simp: get_set)

lemma keys_del_outside:
  "\<not> (lo \<le> k \<and> k < hi) \<Longrightarrow> keys (run_op (BDel k) s) lo hi = keys s lo hi"
  by (rule keys_cong) (auto simp: get_del)

lemma keys_empty_iff: "keys s lo hi = [] \<longleftrightarrow> (\<forall>k. lo \<le> k \<and> k < hi \<longrightarrow> get s k = None)"
proof -
  have "keys s lo hi = [] \<longleftrightarrow> set (keys s lo hi) = {}" by simp
  also have "\<dots> \<longleftrightarrow> (\<forall>k. lo \<le> k \<and> k < hi \<longrightarrow> get s k = None)"
    unfolding set_keys Collect_empty_eq by auto
  finally show ?thesis .
qed

lemma keys_del_range_empty: "keys (run_op (BDelRange lo hi) s) lo hi = []"
  by (simp add: keys_empty_iff get_del_range)

end

section \<open>The model's store satisfies it\<close>

lemma set_kv_keys: "set (kv_keys db lo hi) = {k. lo \<le> k \<and> k < hi \<and> fmlookup db k \<noteq> None}"
  by (auto simp: kv_keys_def)

interpretation pebble: ordered_kv fmlookup apply_bop kv_keys
  by unfold_locales (auto simp: set_kv_keys, simp_all add: kv_keys_def sorted_wrt_filter)

lemma lookup_apply_bop:
  "fmlookup (apply_bop b db) x =
     (case b of BSet k v \<Rightarrow> if x = k then Some v else fmlookup db x
      | BDel k \<Rightarrow> if x = k then None else fmlookup db x
      | BDelRange lo hi \<Rightarrow> if lo \<le> x \<and> x < hi then None else fmlookup db x)"
  by (cases b) auto

lemma apply_batch_Nil [simp]: "apply_batch [] db = db"
  by (simp add: apply_batch_def)

lemma apply_batch_Cons [simp]: "apply_batch (b # bs) db = apply_batch bs (apply_bop b db)"
  by (simp add: apply_batch_def)

lemma apply_batch_append [simp]: "apply_batch (as @ bs) db = apply_batch bs (apply_batch as db)"
  by (simp add: apply_batch_def)

lemma lookup_batch_untouched [frame]:
  "(\<And>b. b \<in> set bs \<Longrightarrow> \<not> touches b x) \<Longrightarrow> fmlookup (apply_batch bs db) x = fmlookup db x"
  unfolding apply_batch_def by (rule pebble.get_batch_untouched)

lemma set_seek_ge: "sorted ks \<Longrightarrow> set (seek_ge ks c) = {k \<in> set ks. c \<le> k}"
proof (induction ks)
  case Nil
  then show ?case by (simp add: seek_ge_def)
next
  case (Cons k ks)
  then show ?case by (auto simp: seek_ge_def)
qed

lemma seek_ge_subset: "set (seek_ge ks c) \<subseteq> set ks"
  unfolding seek_ge_def by (rule set_dropWhileD [THEN subsetI])

end
