(* ===== verification/FrontierCodec.thy ===== *)
theory FrontierCodec
  imports KV
begin

text \<open>
  The bytes of the crawl frontier: keys and packed entries of \<open>src/internal/store/pebble.go\<close> and
  \<open>extractHost\<close> of \<open>src/internal/store/store.go\<close>. Packed entries use \<open>encoding/binary\<close> varints;
  \<open>Priority\<close>, a \<open>float64\<close> that is stored and copied but never computed with here, is carried as its
  64-bit IEEE pattern, a number below \<open>2 ^ 64\<close>.
\<close>

section \<open>Varints of encoding/binary\<close>

fun put_uvarint :: "nat \<Rightarrow> bytes" where
  "put_uvarint n =
     (if n < 128 then [char_of n] else char_of (n mod 128 + 128) # put_uvarint (n div 128))"

declare put_uvarint.simps [simp del]

text \<open>
  \<open>Uvarint\<close> with the bytes read so far; \<open>None\<close> stands for both of Go's failures (a short buffer and
  a value past 64 bits), which the callers do not tell apart.
\<close>

fun uvarint_from :: "nat \<Rightarrow> nat \<Rightarrow> bytes \<Rightarrow> (nat \<times> bytes) option" where
  "uvarint_from i x [] = None"
| "uvarint_from i x (b # bs) =
     (if i = 10 then None
      else if byte_val b < 128 then
        (if i = 9 \<and> 1 < byte_val b then None else Some (x + byte_val b * 128 ^ i, bs))
      else uvarint_from (Suc i) (x + (byte_val b - 128) * 128 ^ i) bs)"

definition uvarint :: "bytes \<Rightarrow> (nat \<times> bytes) option" where
  "uvarint = uvarint_from 0 0"

definition put_varint :: "int \<Rightarrow> bytes" where
  "put_varint x = put_uvarint (if x < 0 then nat (- 2 * x - 1) else nat (2 * x))"

definition varint :: "bytes \<Rightarrow> (int \<times> bytes) option" where
  "varint buf = (case uvarint buf of None \<Rightarrow> None
     | Some (u, rest) \<Rightarrow>
        Some (if odd u then - int (u div 2) - 1 else int (u div 2), rest))"

lemma uvarint_from_put:
  assumes "i \<le> 9" and "n * 128 ^ i < 2 ^ 64"
  shows "uvarint_from i x (put_uvarint n @ r) = Some (x + n * 128 ^ i, r)"
  using assms
proof (induction n arbitrary: i x rule: put_uvarint.induct)
  case (1 n)
  show ?case
  proof (cases "n < 128")
    case True
    have "\<not> (i = 9 \<and> 1 < n)"
    proof
      assume "i = 9 \<and> 1 < n"
      then have "2 * 128 ^ 9 \<le> n * 128 ^ i" by simp
      with "1.prems"(2) show False by simp
    qed
    with True "1.prems"(1) show ?thesis
      by (subst put_uvarint.simps) auto
  next
    case False
    have "i < 9"
    proof (rule ccontr)
      assume "\<not> i < 9"
      then have "i = 9" using "1.prems"(1) by simp
      then have "128 * 128 ^ 9 \<le> n * 128 ^ i" using False by simp
      with "1.prems"(2) show False by simp
    qed
    have le: "n div 128 * 128 ^ Suc i \<le> n * 128 ^ i"
    proof -
      have "n div 128 * 128 \<le> n" by simp
      then have "n div 128 * 128 * 128 ^ i \<le> n * 128 ^ i" by (rule mult_le_mono1)
      then show ?thesis by (simp add: mult.assoc)
    qed
    have "uvarint_from (Suc i) (x + n mod 128 * 128 ^ i) (put_uvarint (n div 128) @ r)
      = Some (x + n mod 128 * 128 ^ i + n div 128 * 128 ^ Suc i, r)"
    proof (rule "1.IH" [OF False])
      show "Suc i \<le> 9" using \<open>i < 9\<close> by simp
      show "n div 128 * 128 ^ Suc i < 2 ^ 64" using le "1.prems"(2) by (rule le_less_trans)
    qed
    moreover have "n mod 128 * 128 ^ i + n div 128 * 128 ^ Suc i = n * 128 ^ i"
    proof -
      have "(n div 128 * 128 + n mod 128) * 128 ^ i = n * 128 ^ i" by simp
      then show ?thesis by (simp only: distrib_right power_Suc mult.assoc add.commute)
    qed
    moreover have "byte_val (char_of (n mod 128 + 128)) = n mod 128 + 128"
      by (rule of_char_of [THEN trans]) simp
    ultimately show ?thesis
      using False \<open>i < 9\<close> by (subst put_uvarint.simps) (simp add: add.assoc)
  qed
qed

lemma uvarint_put: "n < 2 ^ 64 \<Longrightarrow> uvarint (put_uvarint n @ r) = Some (n, r)"
  using uvarint_from_put [of 0 n 0 r] by (simp add: uvarint_def)

lemma varint_put:
  assumes "is_i64 x"
  shows "varint (put_varint x @ r) = Some (x, r)"
proof (cases "x < 0")
  case True
  define u where "u = nat (- 2 * x - 1)"
  have u: "u < 2 ^ 64" "odd u" "int (u div 2) = - x - 1"
    using assms True by (auto simp: is_i64_def u_def nat_less_iff even_nat_iff zdiv_int)
  have "put_varint x = put_uvarint u"
    using True by (simp add: put_varint_def u_def)
  with u show ?thesis by (simp add: varint_def uvarint_put)
next
  case False
  define u where "u = nat (2 * x)"
  have u: "u < 2 ^ 64" "even u" "int (u div 2) = x"
    using assms False by (auto simp: is_i64_def u_def nat_less_iff even_nat_iff zdiv_int)
  have "put_varint x = put_uvarint u"
    using False by (simp add: put_varint_def u_def)
  with u show ?thesis by (simp add: varint_def uvarint_put)
qed

section \<open>Packed frontier entries\<close>

text \<open>
  \<open>frontierEntry\<close>. \<open>Status\<close> and \<open>Lane\<close> are bytes; the lane is read as a number, since the code
  compares it with \<open>laneCount\<close>.
\<close>

record frontier_entry =
  fe_status :: char
  fe_depth :: int
  fe_priority :: nat
  fe_enqueued :: int
  fe_attempts :: int
  fe_host :: bytes
  fe_error :: bytes
  fe_lane :: nat

abbreviation st_queued :: char where "st_queued \<equiv> CHR ''q''"
abbreviation st_in_flight :: char where "st_in_flight \<equiv> CHR ''i''"
abbreviation st_done :: char where "st_done \<equiv> CHR ''d''"
abbreviation st_error :: char where "st_error \<equiv> CHR ''e''"

definition lane_submitted :: nat where "lane_submitted = 0"
definition lane_refresh :: nat where "lane_refresh = 1"
definition lane_discovered :: nat where "lane_discovered = 2"
definition lane_bulk :: nat where "lane_bulk = 3"
definition lane_count :: nat where "lane_count = 4"

lemmas lane_defs = lane_submitted_def lane_refresh_def lane_discovered_def lane_bulk_def
  lane_count_def

definition pack_frontier_entry :: "frontier_entry \<Rightarrow> bytes" where
  "pack_frontier_entry e =
     [fe_status e] @ put_varint (fe_depth e) @ rev (be64 (fe_priority e))
     @ put_varint (fe_enqueued e) @ put_varint (fe_attempts e)
     @ put_uvarint (length (fe_host e)) @ fe_host e
     @ put_uvarint (length (fe_error e)) @ fe_error e
     @ [char_of (fe_lane e)]"

datatype codec_err = EmptyBuf | BadDepth | ShortPriority | BadEnqueued | BadAttempts
  | BadHostLen | BadErrLen | SlicePanic

text \<open>
  A length-prefixed field. The source compares \<open>int(length)\<close>, a signed value, with the bytes left,
  then slices with the unsigned length: a length of \<open>2 ^ 63\<close> or more passes the comparison and the
  slice expression panics.
\<close>

definition take_field :: "codec_err \<Rightarrow> bytes \<Rightarrow> codec_err + (bytes \<times> bytes)" where
  "take_field err buf = (case uvarint buf of None \<Rightarrow> Inl err
     | Some (n, rest) \<Rightarrow>
        if i64 (int n) > int (length rest) then Inl err
        else if n > length rest then Inl SlicePanic
        else Inr (take n rest, drop n rest))"

definition unpack_frontier_entry :: "bytes \<Rightarrow> codec_err + frontier_entry" where
  "unpack_frontier_entry buf = (case buf of [] \<Rightarrow> Inl EmptyBuf
   | st # b1 \<Rightarrow> (case varint b1 of None \<Rightarrow> Inl BadDepth
   | Some (depth, b2) \<Rightarrow> (if length b2 < 8 then Inl ShortPriority else
     let pri = be_nat (rev (take 8 b2)); b3 = drop 8 b2 in
     (case varint b3 of None \<Rightarrow> Inl BadEnqueued
   | Some (enq, b4) \<Rightarrow> (case varint b4 of None \<Rightarrow> Inl BadAttempts
   | Some (att, b5) \<Rightarrow> (case take_field BadHostLen b5 of Inl err \<Rightarrow> Inl err
   | Inr (host, b6) \<Rightarrow> (case take_field BadErrLen b6 of Inl err \<Rightarrow> Inl err
   | Inr (lerr, b7) \<Rightarrow>
     Inr \<lparr>fe_status = st, fe_depth = depth, fe_priority = pri, fe_enqueued = enq,
          fe_attempts = att, fe_host = host, fe_error = lerr,
          fe_lane = (case b7 of [] \<Rightarrow> lane_discovered | l # _ \<Rightarrow> byte_val l)\<rparr>)))))))"

text \<open>The values a \<open>frontierEntry\<close> of the running program can hold.\<close>

definition entry_ok :: "frontier_entry \<Rightarrow> bool" where
  "entry_ok e = (is_i64 (fe_depth e) \<and> fe_priority e < 2 ^ 64 \<and> is_i64 (fe_enqueued e)
     \<and> is_i64 (fe_attempts e) \<and> length (fe_host e) < 2 ^ 63 \<and> length (fe_error e) < 2 ^ 63
     \<and> fe_lane e < 256)"

lemma take_field_put:
  assumes "length f < 2 ^ 63"
  shows "take_field err (put_uvarint (length f) @ f @ r) = Inr (f, r)"
proof -
  have "length f < 2 ^ 64" using assms by simp
  moreover have "i64 (int (length f)) = int (length f)"
    using assms by (intro i64_id) (simp add: is_i64_def)
  ultimately show ?thesis
    by (simp add: take_field_def uvarint_put)
qed

lemma unpack_pack_lane:
  assumes "entry_ok e"
  shows "unpack_frontier_entry (pack_frontier_entry e) = Inr e"
    and "unpack_frontier_entry (butlast (pack_frontier_entry e)) = Inr (e\<lparr>fe_lane := lane_discovered\<rparr>)"
proof -
  define body where "body = [fe_status e] @ put_varint (fe_depth e) @ rev (be64 (fe_priority e))
     @ put_varint (fe_enqueued e) @ put_varint (fe_attempts e)
     @ put_uvarint (length (fe_host e)) @ fe_host e
     @ put_uvarint (length (fe_error e)) @ fe_error e"
  have body: "unpack_frontier_entry (body @ l) =
    Inr (e\<lparr>fe_lane := (case l of [] \<Rightarrow> lane_discovered | c # _ \<Rightarrow> byte_val c)\<rparr>)" for l
    using assms take_field_put [of "fe_error e" _ l]
    by (simp add: unpack_frontier_entry_def body_def entry_ok_def varint_put take_field_put
        be_nat_be64 Let_def)
  have p: "pack_frontier_entry e = body @ [char_of (fe_lane e)]"
    by (simp add: pack_frontier_entry_def body_def)
  have "byte_val (char_of (fe_lane e)) = fe_lane e"
    using assms by (simp add: entry_ok_def)
  then show "unpack_frontier_entry (pack_frontier_entry e) = Inr e"
    unfolding p body by simp
  show "unpack_frontier_entry (butlast (pack_frontier_entry e)) = Inr (e\<lparr>fe_lane := lane_discovered\<rparr>)"
    unfolding p using body [of "[]"] by simp
qed

end
