(* ===== verification/FrontierKeys.thy ===== *)
theory FrontierKeys
  imports FrontierCodec
begin

text \<open>
  The keys of the frontier family \<open>'f'\<close> (\<open>src/internal/store/pebble.go\<close>): the primary row of a URL,
  the two secondary status indexes (the lane-aware one and the older one without a lane byte), the
  bounds of the scans over them, and \<open>extractHost\<close>. The lemmas show which keys each scan range holds
  and that host and URL can be read back from an index key.
\<close>

definition frontier_key :: "bytes \<Rightarrow> bytes" where
  "frontier_key url = CHR ''f'' # CHR ''u'' # url"

definition frontier_status_index_key :: "char \<Rightarrow> bytes \<Rightarrow> bytes \<Rightarrow> bytes" where
  "frontier_status_index_key sub host url = CHR ''f'' # sub # host @ CHR 0x00 # url"

definition frontier_status_index_host :: "bytes \<Rightarrow> bytes" where
  "frontier_status_index_host key =
     (if length key < 3 \<or> key ! 0 \<noteq> CHR ''f'' then ''''
      else let rest = drop 2 key in
        (case index_byte (CHR 0x00) rest of None \<Rightarrow> '''' | Some i \<Rightarrow> take i rest))"

definition frontier_status_index_key_lane :: "char \<Rightarrow> nat \<Rightarrow> bytes \<Rightarrow> bytes \<Rightarrow> bytes" where
  "frontier_status_index_key_lane sub lane host url =
     CHR ''f'' # sub # char_of lane # host @ CHR 0x00 # url"

definition frontier_status_index_host_lane :: "bytes \<Rightarrow> bytes" where
  "frontier_status_index_host_lane key =
     (if length key < 4 \<or> key ! 0 \<noteq> CHR ''f'' then ''''
      else let rest = drop 3 key in
        (case index_byte (CHR 0x00) rest of None \<Rightarrow> '''' | Some i \<Rightarrow> take i rest))"

definition frontier_lane_prefix :: "char \<Rightarrow> nat \<Rightarrow> bytes" where
  "frontier_lane_prefix sub lane = [CHR ''f'', sub, char_of lane]"

definition frontier_lane_upper_bound :: "char \<Rightarrow> nat \<Rightarrow> bytes" where
  "frontier_lane_upper_bound sub lane = [CHR ''f'', sub, char_of (lane + 1)]"

definition decode_frontier_index_host :: "bytes \<Rightarrow> bytes" where
  "decode_frontier_index_host key =
     (if length key < 3 \<or> key ! 0 \<noteq> CHR ''f'' then ''''
      else if byte_val (key ! 2) < lane_count then frontier_status_index_host_lane key
      else frontier_status_index_host key)"

definition url_key :: "bytes \<Rightarrow> bytes" where
  "url_key url = CHR ''u'' # url"

definition extract_host :: "bytes \<Rightarrow> bytes" where
  "extract_host raw = (case index_of raw ''://'' of None \<Rightarrow> ''''
   | Some i \<Rightarrow>
     let rest = drop (i + 3) raw;
         rest = (case index_byte (CHR ''/'') rest of None \<Rightarrow> rest | Some j \<Rightarrow> take j rest);
         rest = (case index_byte (CHR ''?'') rest of None \<Rightarrow> rest | Some k \<Rightarrow> take k rest)
     in to_lower rest)"

text \<open>
  A URL as the crawler's canonicalizer hands it to the store: it names a host and has no control
  byte and no blank (\<open>net/url\<close> refuses them). A Go string's length is an \<open>int\<close>.
\<close>

definition canonical_url :: "bytes \<Rightarrow> bool" where
  "canonical_url u =
     (extract_host u \<noteq> '''' \<and> (\<forall>c \<in> set u. 32 < byte_val c) \<and> length u < 2 ^ 63)"

text \<open>A host an index key can carry: not empty, no separator byte, first byte above the lanes.\<close>

definition index_host :: "bytes \<Rightarrow> bool" where
  "index_host h = (h \<noteq> [] \<and> (\<forall>c \<in> set h. lane_count \<le> byte_val c))"

lemma lower_byte_val: "32 < byte_val c \<Longrightarrow> 32 < byte_val (lower_byte c)"
proof -
  assume c: "32 < byte_val c"
  have "byte_val (char_of (byte_val c + 32)) = byte_val c + 32" if "byte_val c \<le> 90"
    using that by simp
  with c show ?thesis
    by (auto simp: lower_byte_def char_le_val)
qed

lemma in_set_take_drop: "x \<in> set (take i (drop j s)) \<Longrightarrow> x \<in> set s"
  by (meson in_set_takeD in_set_dropD)

lemma extract_host_bytes:
  "c \<in> set (extract_host u) \<Longrightarrow> \<exists>d \<in> set u. c = lower_byte d"
  by (auto simp: extract_host_def to_lower_def Let_def split: option.splits
      dest: in_set_dropD)
    (blast dest: in_set_take_drop)+

lemma length_extract_host: "length (extract_host u) \<le> length u"
  by (auto simp: extract_host_def to_lower_def Let_def split: option.splits)

lemma extract_host_index_host: "canonical_url u \<Longrightarrow> index_host (extract_host u)"
  unfolding canonical_url_def index_host_def
  using lower_byte_val by (fastforce dest: extract_host_bytes simp: lane_count_def)

lemma index_host_no_nul: "index_host h \<Longrightarrow> CHR 0x00 \<notin> set h"
  by (auto simp: index_host_def lane_count_def)

lemma index_key_host [key_simps]:
  "index_host h \<Longrightarrow> frontier_status_index_host (frontier_status_index_key sub h u) = h"
  by (simp add: frontier_status_index_host_def frontier_status_index_key_def Let_def
      index_byte_append index_host_no_nul)

lemma index_key_lane_host [key_simps]:
  "index_host h \<Longrightarrow> frontier_status_index_host_lane (frontier_status_index_key_lane sub l h u) = h"
  by (auto simp: frontier_status_index_host_lane_def frontier_status_index_key_lane_def Let_def
      index_byte_append index_host_no_nul index_host_def not_less_eq)

lemma decode_index_key [key_simps]:
  assumes "index_host h"
  shows "decode_frontier_index_host (frontier_status_index_key sub h u) = h"
proof -
  from assms obtain c t where h: "h = c # t" and c: "\<not> byte_val c < lane_count"
    by (cases h) (auto simp: index_host_def)
  have "decode_frontier_index_host (frontier_status_index_key sub h u)
    = frontier_status_index_host (frontier_status_index_key sub h u)"
    using c unfolding decode_frontier_index_host_def frontier_status_index_key_def h by simp
  with assms show ?thesis by (simp add: key_simps)
qed

lemma decode_index_key_lane [key_simps]:
  assumes "index_host h" and "l < lane_count"
  shows "decode_frontier_index_host (frontier_status_index_key_lane sub l h u) = h"
proof -
  have "byte_val (char_of l) = l" using assms(2) by (simp add: lane_count_def)
  then have "decode_frontier_index_host (frontier_status_index_key_lane sub l h u)
    = frontier_status_index_host_lane (frontier_status_index_key_lane sub l h u)"
    using assms(2) unfolding decode_frontier_index_host_def frontier_status_index_key_lane_def
    by simp
  with assms show ?thesis by (simp add: key_simps)
qed

section \<open>Distinct keys\<close>

lemma split_at_nul:
  assumes "CHR 0x00 \<notin> set h" and "CHR 0x00 \<notin> set h'"
    and "h @ CHR 0x00 # u = h' @ CHR 0x00 # u'"
  shows "h = h' \<and> u = u'"
  using assms by (metis append_same_eq append_Cons index_byte_append list.inject option.inject
      append_eq_append_conv)

lemma frontier_key_inj [simp]: "(frontier_key u = frontier_key v) = (u = v)"
  by (simp add: frontier_key_def)

lemma index_key_inj:
  assumes "index_host h" and "index_host h'"
  shows "(frontier_status_index_key s h u = frontier_status_index_key s' h' u')
    = (s = s' \<and> h = h' \<and> u = u')"
  using split_at_nul [of h h' u u'] assms
  by (auto simp: frontier_status_index_key_def index_host_no_nul)

lemma index_key_lane_inj:
  assumes "index_host h" and "index_host h'" and "l < lane_count" and "l' < lane_count"
  shows "(frontier_status_index_key_lane s l h u = frontier_status_index_key_lane s' l' h' u')
    = (s = s' \<and> l = l' \<and> h = h' \<and> u = u')"
proof -
  have "(char_of l = (char_of l' :: char)) = (l = l')"
    using assms(3,4) by (metis char_of_eq_iff of_char_of mod_less lane_count_def
        order_less_trans numeral_less_iff semiring_norm(76,78,81))
  then show ?thesis
    using split_at_nul [of h h' u u'] assms(1,2)
    by (auto simp: frontier_status_index_key_lane_def index_host_no_nul)
qed

lemma index_key_formats_differ:
  assumes "index_host h" and "l < lane_count"
  shows "frontier_status_index_key s h u \<noteq> frontier_status_index_key_lane s' l h' u'"
proof
  assume eq: "frontier_status_index_key s h u = frontier_status_index_key_lane s' l h' u'"
  from assms(1) obtain c t where h: "h = c # t" and c: "lane_count \<le> byte_val c"
    by (cases h) (auto simp: index_host_def)
  from eq h have "c = char_of l"
    by (simp add: frontier_status_index_key_def frontier_status_index_key_lane_def)
  with assms(2) c show False by (simp add: lane_count_def)
qed

lemma frontier_key_neq_index [simp]:
  assumes "s \<noteq> CHR ''u''"
  shows "frontier_key u \<noteq> frontier_status_index_key s h v"
    and "frontier_key u \<noteq> frontier_status_index_key_lane s l h v"
    and "frontier_status_index_key s h v \<noteq> frontier_key u"
    and "frontier_status_index_key_lane s l h v \<noteq> frontier_key u"
  using assms
  by (auto simp: frontier_key_def frontier_status_index_key_def frontier_status_index_key_lane_def)

section \<open>Scan ranges\<close>

text \<open>All rows of one index (\<open>'q'\<close> or \<open>'i'\<close>), all rows of one lane, all rows of one host.\<close>

lemma sub_range:
  assumes "byte_val s' = Suc (byte_val s)"
  shows "([CHR ''f'', s] \<le> k \<and> k < [CHR ''f'', s']) = (\<exists>r. k = CHR ''f'' # s # r)"
  using prefix_range [OF assms, of "''f''" k] by simp

lemma lane_range:
  assumes "l < lane_count"
  shows "(frontier_lane_prefix s l \<le> k \<and> k < frontier_lane_upper_bound s l)
    = (\<exists>r. k = CHR ''f'' # s # char_of l # r)"
proof -
  have "byte_val (char_of (l + 1)) = Suc (byte_val (char_of l))"
    using assms by (simp add: lane_count_def)
  from prefix_range [OF this, of "[CHR ''f'', s]" k] show ?thesis
    by (simp add: frontier_lane_prefix_def frontier_lane_upper_bound_def)
qed

lemma legacy_range:
  "([CHR ''f'', CHR ''q'', char_of lane_count] \<le> k \<and> k < [CHR ''f'', CHR ''r''])
    = (\<exists>r. k = CHR ''f'' # CHR ''q'' # r \<and> [char_of lane_count] \<le> r)"
proof -
  have q: "byte_val (CHR ''r'') = Suc (byte_val (CHR ''q''))" by simp
  have "([CHR ''f'', CHR ''q'', char_of lane_count] \<le> k \<and> k < [CHR ''f'', CHR ''r'']) =
    ([CHR ''f'', CHR ''q''] \<le> k \<and> k < [CHR ''f'', CHR ''r'']
      \<and> [CHR ''f'', CHR ''q''] @ [char_of lane_count] \<le> k)"
    by (auto intro: order_trans [of "[CHR ''f'', CHR ''q'']" "[CHR ''f'', CHR ''q'', char_of lane_count]"])
  also have "\<dots> = (\<exists>r. k = CHR ''f'' # CHR ''q'' # r \<and> [char_of lane_count] \<le> r)"
    using sub_range [OF q, of k] by auto
  finally show ?thesis .
qed

definition host_prefix :: "char \<Rightarrow> bytes \<Rightarrow> bytes" where
  "host_prefix sub host = CHR ''f'' # sub # host @ [CHR 0x00]"

definition host_upper :: "char \<Rightarrow> bytes \<Rightarrow> bytes" where
  "host_upper sub host = CHR ''f'' # sub # host @ [CHR 0x01]"

definition host_prefix_lane :: "char \<Rightarrow> nat \<Rightarrow> bytes \<Rightarrow> bytes" where
  "host_prefix_lane sub lane host = CHR ''f'' # sub # char_of lane # host @ [CHR 0x00]"

definition host_upper_lane :: "char \<Rightarrow> nat \<Rightarrow> bytes \<Rightarrow> bytes" where
  "host_upper_lane sub lane host = CHR ''f'' # sub # char_of lane # host @ [CHR 0x01]"

lemma nul_successor: "byte_val (CHR 0x01) = Suc (byte_val (CHR 0x00))"
  by simp

lemma host_range:
  "(host_prefix s h \<le> k \<and> k < host_upper s h) = (\<exists>u. k = frontier_status_index_key s h u)"
  using prefix_range [OF nul_successor, of "CHR ''f'' # s # h" k]
  by (simp add: host_prefix_def host_upper_def frontier_status_index_key_def)

lemma host_range_lane:
  "(host_prefix_lane s l h \<le> k \<and> k < host_upper_lane s l h)
    = (\<exists>u. k = frontier_status_index_key_lane s l h u)"
  using prefix_range [OF nul_successor, of "CHR ''f'' # s # char_of l # h" k]
  by (simp add: host_prefix_lane_def host_upper_lane_def frontier_status_index_key_lane_def)

end
