(* ===== verification/Frontier.thy ===== *)
theory Frontier
  imports FrontierKeys
begin

text \<open>
  The crawl frontier of \<open>PebbleStore\<close> (\<open>src/internal/store/pebble.go\<close>): its state and every
  operation on it. A call takes the environment's decisions (\<open>env\<close>) and the store, and returns its
  result with the store after it. All operations hold the store's mutex from their first read to
  their commit, so each is one atomic step here; only \<open>DemoteHostToLane\<close> releases it between
  batches, and is modelled without calls in between.
\<close>

section \<open>State\<close>

record pebble_store =
  ps_db :: "bytes kv"
  ps_frontier_cursor :: bytes
  ps_lane_cursors :: "bytes list"
  ps_lane_tick :: nat

datatype store_err = CtxErr | IOErr | IterErr | CommitErr | NotFound | BadEntry codec_err
  | LaneOutOfRange nat | EmptyHost

definition empty_store :: pebble_store where
  "empty_store = \<lparr>ps_db = fmempty, ps_frontier_cursor = [],
     ps_lane_cursors = replicate lane_count [], ps_lane_tick = 0\<rparr>"

definition commit :: "env \<Rightarrow> bytes bop list \<Rightarrow> pebble_store \<Rightarrow> store_err + pebble_store" where
  "commit e ops s = (if commit_err e then Inl CommitErr
     else Inr (s\<lparr>ps_db := apply_batch ops (ps_db s)\<rparr>))"

text \<open>\<open>db.Get\<close> of a frontier row followed by \<open>unpackFrontierEntry\<close>.\<close>

definition get_entry :: "env \<Rightarrow> bytes kv \<Rightarrow> bytes \<Rightarrow> store_err + frontier_entry" where
  "get_entry e db url =
     (if get_err e (frontier_key url) then Inl IOErr
      else (case fmlookup db (frontier_key url) of None \<Rightarrow> Inl NotFound
        | Some v \<Rightarrow> (case unpack_frontier_entry v of Inl c \<Rightarrow> Inl (BadEntry c) | Inr en \<Rightarrow> Inr en)))"

section \<open>Pushing\<close>

definition clamp_lane :: "nat \<Rightarrow> nat" where
  "clamp_lane lane = (if lane_count \<le> lane then lane_discovered else lane)"

definition queued_entry :: "int \<Rightarrow> nat \<Rightarrow> int \<Rightarrow> bytes \<Rightarrow> nat \<Rightarrow> frontier_entry" where
  "queued_entry depth pri now host lane =
     \<lparr>fe_status = st_queued, fe_depth = depth, fe_priority = pri, fe_enqueued = now,
      fe_attempts = 0, fe_host = host, fe_error = [], fe_lane = lane\<rparr>"

definition push_ops :: "int \<Rightarrow> bytes \<Rightarrow> int \<Rightarrow> nat \<Rightarrow> nat \<Rightarrow> bytes bop list" where
  "push_ops now url depth pri lane =
     (let host = extract_host url in
      [BSet (frontier_key url) (pack_frontier_entry (queued_entry depth pri now host lane)),
       BSet (frontier_status_index_key_lane st_queued lane host url) []])"

definition push_frontier_lane ::
  "env \<Rightarrow> bytes \<Rightarrow> int \<Rightarrow> nat \<Rightarrow> nat \<Rightarrow> pebble_store \<Rightarrow> (store_err + unit) \<times> pebble_store" where
  "push_frontier_lane e url depth lane pri s =
     (if ctx_err e then (Inl CtxErr, s)
      else let lane = clamp_lane lane in
        if get_err e (frontier_key url) then (Inl IOErr, s)
        else if fmlookup (ps_db s) (frontier_key url) \<noteq> None then (Inr (), s)
        else (case commit e (push_ops (clock e) url depth pri lane) s of
            Inl x \<Rightarrow> (Inl x, s) | Inr s' \<Rightarrow> (Inr (), s')))"

definition push_frontier ::
  "env \<Rightarrow> bytes \<Rightarrow> int \<Rightarrow> nat \<Rightarrow> pebble_store \<Rightarrow> (store_err + unit) \<times> pebble_store" where
  "push_frontier e url depth pri s = push_frontier_lane e url depth lane_discovered pri s"

record frontier_push_item =
  pi_url :: bytes
  pi_depth :: int
  pi_lane :: nat
  pi_priority :: nat

text \<open>
  The loop of \<open>PushFrontierBatch\<close>: the batch so far and the count, or the error with the count at
  that point. The duplicate check reads the store, not the batch.
\<close>

fun push_batch_loop ::
  "env \<Rightarrow> bytes kv \<Rightarrow> frontier_push_item list \<Rightarrow> bytes bop list \<Rightarrow> nat
    \<Rightarrow> (nat \<times> store_err) + (bytes bop list \<times> nat)" where
  "push_batch_loop e db [] ops written = Inr (ops, written)"
| "push_batch_loop e db (it # its) ops written =
     (if pi_url it = [] then push_batch_loop e db its ops written
      else let lane = clamp_lane (pi_lane it) in
        if get_err e (frontier_key (pi_url it)) then Inl (written, IOErr)
        else if fmlookup db (frontier_key (pi_url it)) \<noteq> None
          then push_batch_loop e db its ops written
        else push_batch_loop e db its
          (ops @ push_ops (clock e) (pi_url it) (pi_depth it) (pi_priority it) lane)
          (Suc written))"

definition push_frontier_batch ::
  "env \<Rightarrow> frontier_push_item list \<Rightarrow> pebble_store \<Rightarrow> (nat \<times> store_err option) \<times> pebble_store" where
  "push_frontier_batch e items s =
     (if ctx_err e then ((0, Some CtxErr), s)
      else if items = [] then ((0, None), s)
      else (case push_batch_loop e (ps_db s) items [] 0 of
          Inl (written, x) \<Rightarrow> ((written, Some x), s)
        | Inr (ops, written) \<Rightarrow>
            if written = 0 then ((0, None), s)
            else (case commit e ops s of Inl x \<Rightarrow> ((0, Some x), s)
              | Inr s' \<Rightarrow> ((written, None), s'))))"

section \<open>Claiming\<close>

definition lane_weights :: "nat list" where
  "lane_weights = [50, 30, 15, 5]"

definition lane_order :: "nat list" where
  "lane_order = [lane_submitted, lane_refresh, lane_discovered, lane_bulk]"

text \<open>The loop of \<open>pickLane\<close>: the first lane whose accumulated weight passes \<open>t\<close>.\<close>

fun pick_from :: "nat \<Rightarrow> nat \<Rightarrow> nat \<Rightarrow> nat list \<Rightarrow> nat" where
  "pick_from t acc i [] = lane_discovered"
| "pick_from t acc i (w # ws) =
     (if t < acc + w then i else pick_from t (acc + w) (Suc i) ws)"

text \<open>\<open>pickLane\<close>; \<open>laneTick\<close> is an atomic \<open>uint64\<close>, which wraps.\<close>

definition pick_lane :: "pebble_store \<Rightarrow> nat \<times> pebble_store" where
  "pick_lane s =
     (let total = sum_list lane_weights in
      if total = 0 then (lane_discovered, s)
      else let tick = (ps_lane_tick s + 1) mod 2 ^ 64 in
        (pick_from (tick mod total) 0 0 lane_weights, s\<lparr>ps_lane_tick := tick\<rparr>))"

definition lane_order_without :: "nat \<Rightarrow> nat list" where
  "lane_order_without skip = filter (\<lambda>l. l \<noteq> skip) lane_order"

text \<open>The hosts of the rows indexed as in flight, in either key format.\<close>

definition inflight_hosts :: "bytes kv \<Rightarrow> bytes list" where
  "inflight_hosts db =
     filter (\<lambda>h. h \<noteq> []) (map decode_frontier_index_host (kv_keys db ''fi'' ''fj''))"

text \<open>
  The closure \<open>scan\<close> of the two scanning functions: walks index keys, remembers the first usable
  one as the fallback and stops at the first whose host is not busy. \<open>off\<close> is the length of the
  key's head before the host.
\<close>

fun scan_keys ::
  "(bytes \<Rightarrow> bytes) \<Rightarrow> nat \<Rightarrow> bytes list \<Rightarrow> bytes list \<Rightarrow> (bytes \<times> bytes) option
    \<Rightarrow> (bytes \<times> bytes) option \<times> (bytes \<times> bytes) option" where
  "scan_keys host_of off busy [] fallback = (None, fallback)"
| "scan_keys host_of off busy (k # ks) fallback =
     (let h = host_of k in
      if h = [] then scan_keys host_of off busy ks fallback
      else let url_offset = off + length h + 1 in
        if length k < url_offset then scan_keys host_of off busy ks fallback
        else let u = drop url_offset k;
                 fb = (case fallback of None \<Rightarrow> Some (h, u) | Some p \<Rightarrow> Some p) in
          if h \<notin> set busy then (Some (h, u), fb)
          else scan_keys host_of off busy ks fb)"

definition scan_twice ::
  "(bytes \<Rightarrow> bytes) \<Rightarrow> nat \<Rightarrow> bytes list \<Rightarrow> bytes list \<Rightarrow> bytes list \<Rightarrow> (bytes \<times> bytes) option" where
  "scan_twice host_of off busy from_cursor all =
     (case scan_keys host_of off busy from_cursor None of
        (Some p, _) \<Rightarrow> Some p
      | (None, fb) \<Rightarrow> (case scan_keys host_of off busy all fb of
            (Some p, _) \<Rightarrow> Some p
          | (None, fb') \<Rightarrow> fb'))"

definition scan_lane_for_free_host ::
  "env \<Rightarrow> nat \<Rightarrow> bytes list \<Rightarrow> pebble_store \<Rightarrow> (bytes \<times> bytes) option \<times> pebble_store" where
  "scan_lane_for_free_host e lane busy s =
     (let lo = frontier_lane_prefix st_queued lane; hi = frontier_lane_upper_bound st_queued lane in
      if iter_err e lo then (None, s)
      else let cursor = ps_lane_cursors s ! lane;
               all = kv_keys (ps_db s) lo hi;
               from_cursor = (if cursor \<noteq> [] then seek_ge all cursor else all) in
        (case scan_twice frontier_status_index_host_lane 3 busy from_cursor all of
           None \<Rightarrow> (None, s)
         | Some (host, url) \<Rightarrow>
             (Some (host, url), s\<lparr>ps_lane_cursors := (ps_lane_cursors s)[lane :=
                CHR ''f'' # CHR ''q'' # char_of lane # host @ [CHR 0xFF]]\<rparr>)))"

definition scan_legacy_for_free_host ::
  "env \<Rightarrow> bytes list \<Rightarrow> pebble_store \<Rightarrow> (bytes \<times> bytes) option \<times> pebble_store" where
  "scan_legacy_for_free_host e busy s =
     (let lo = [CHR ''f'', CHR ''q'', char_of lane_count]; hi = [CHR ''f'', CHR ''r''] in
      if iter_err e lo then (None, s)
      else let cursor = ps_frontier_cursor s;
               all = kv_keys (ps_db s) lo hi;
               from_cursor = (if cursor \<noteq> [] \<and> lane_count \<le> byte_val (cursor ! 2)
                 then seek_ge all cursor else all) in
        (case scan_twice frontier_status_index_host 2 busy from_cursor all of
           None \<Rightarrow> (None, s)
         | Some (host, url) \<Rightarrow>
             (Some (host, url), s\<lparr>ps_frontier_cursor :=
                CHR ''f'' # CHR ''q'' # host @ [CHR 0xFF]\<rparr>)))"

text \<open>
  \<open>lookupIDByURL\<close>: \<open>None\<close> inside \<open>Inr\<close> is \<open>ok=false\<close> without an error; an I/O error and a value that
  is not eight bytes long are errors, with \<open>ok=false\<close> as well.
\<close>

definition lookup_id_by_url :: "env \<Rightarrow> bytes kv \<Rightarrow> bytes \<Rightarrow> store_err + int option" where
  "lookup_id_by_url e db url =
     (if get_err e (url_key url) then Inl IOErr
      else (case fmlookup db (url_key url) of None \<Rightarrow> Inr None
        | Some v \<Rightarrow> if length v \<noteq> 8 then Inl IOErr else Inr (Some (i64 (int (be_nat v))))))"

text \<open>The loop of \<open>probeForNovelURL\<close>: at most 32 URLs of the host's bucket are looked up.\<close>

fun probe_keys :: "env \<Rightarrow> bytes kv \<Rightarrow> nat \<Rightarrow> nat \<Rightarrow> bytes list \<Rightarrow> bytes option" where
  "probe_keys e db plen probed [] = None"
| "probe_keys e db plen probed (k # ks) =
     (if 32 \<le> probed then None
      else let url = drop plen k in
        if url = [] then probe_keys e db plen probed ks
        else (case lookup_id_by_url e db url of
            Inr (Some _) \<Rightarrow> probe_keys e db plen (Suc probed) ks
          | _ \<Rightarrow> Some url))"

definition probe_for_novel_url ::
  "env \<Rightarrow> bytes kv \<Rightarrow> bytes \<Rightarrow> nat \<Rightarrow> bool \<Rightarrow> bytes option" where
  "probe_for_novel_url e db host lane legacy =
     (let lo = (if legacy then host_prefix st_queued host else host_prefix_lane st_queued lane host);
          hi = (if legacy then host_upper st_queued host else host_upper_lane st_queued lane host) in
      if iter_err e lo then None
      else probe_keys e db (length lo) 0 (kv_keys db lo hi))"

record frontier_item =
  fi_url :: bytes
  fi_depth :: int
  fi_priority :: nat

text \<open>The lanes tried in order: the first with a usable row, and the store with its moved cursor.\<close>

fun try_lanes ::
  "env \<Rightarrow> bytes list \<Rightarrow> nat list \<Rightarrow> pebble_store \<Rightarrow> (bytes \<times> bytes \<times> nat) option \<times> pebble_store" where
  "try_lanes e busy [] s = (None, s)"
| "try_lanes e busy (l # ls) s =
     (case scan_lane_for_free_host e l busy s of
        (Some (h, u), s') \<Rightarrow> (Some (h, u, l), s')
      | (None, s') \<Rightarrow> try_lanes e busy ls s')"

text \<open>
  Steps 1 and 2 of \<open>ClaimFrontier\<close>: host, URL, lane, and whether the row is in the legacy index.
  The code tests \<open>pickedURL == ""\<close>, so a row with an empty URL counts as not found.
\<close>

definition pick_row ::
  "env \<Rightarrow> pebble_store \<Rightarrow> (bytes \<times> bytes \<times> nat \<times> bool) option \<times> pebble_store" where
  "pick_row e s =
     (let busy = inflight_hosts (ps_db s);
          (chosen, s1) = pick_lane s;
          (lane_pick, s2) = try_lanes e busy (chosen # lane_order_without chosen) s1 in
      case lane_pick of
        Some (h, u, l) \<Rightarrow>
          if u \<noteq> [] then (Some (h, u, l, False), s2)
          else (case scan_legacy_for_free_host e busy s2 of
              (Some (h', u'), s3) \<Rightarrow> (if u' = [] then None else Some (h', u', l, True), s3)
            | (None, s3) \<Rightarrow> (None, s3))
      | None \<Rightarrow> (case scan_legacy_for_free_host e busy s2 of
            (Some (h', u'), s3) \<Rightarrow> (if u' = [] then None else Some (h', u', 0, True), s3)
          | (None, s3) \<Rightarrow> (None, s3)))"

text \<open>Step 3: the queued key of the picked row is replaced by its in-flight key, in its own format.\<close>

definition claim_ops :: "frontier_entry \<Rightarrow> bytes \<Rightarrow> bytes \<Rightarrow> nat \<Rightarrow> bool \<Rightarrow> bytes bop list" where
  "claim_ops en host url lane legacy =
     BSet (frontier_key url) (pack_frontier_entry (en\<lparr>fe_status := st_in_flight\<rparr>)) #
     (if legacy then
        [BDel (frontier_status_index_key st_queued host url),
         BSet (frontier_status_index_key st_in_flight host url) []]
      else
        [BDel (frontier_status_index_key_lane st_queued lane host url),
         BSet (frontier_status_index_key_lane st_in_flight lane host url) []])"

definition claim_frontier ::
  "env \<Rightarrow> pebble_store \<Rightarrow> (store_err + frontier_item option) \<times> pebble_store" where
  "claim_frontier e s =
     (if ctx_err e then (Inl CtxErr, s)
      else if iter_err e ''fi'' then (Inl IterErr, s)
      else (case pick_row e s of
          (None, s1) \<Rightarrow> (Inr None, s1)
        | (Some (host, url0, lane, legacy), s1) \<Rightarrow>
            let url = (if host \<noteq> [] then
                         (case probe_for_novel_url e (ps_db s1) host lane legacy of
                            None \<Rightarrow> url0 | Some u \<Rightarrow> u)
                       else url0) in
            (case get_entry e (ps_db s1) url of
               Inl x \<Rightarrow> (Inl x, s1)
             | Inr en \<Rightarrow>
                 (case commit e (claim_ops en host url lane legacy) s1 of
                    Inl x \<Rightarrow> (Inl x, s1)
                  | Inr s2 \<Rightarrow> (Inr (Some \<lparr>fi_url = url, fi_depth = fe_depth en,
                                fi_priority = fe_priority en\<rparr>), s2)))))"

section \<open>Completing, failing, recrawling\<close>

definition transition_entry :: "char \<Rightarrow> bytes \<Rightarrow> frontier_entry \<Rightarrow> frontier_entry" where
  "transition_entry new_status err_msg en =
     (let en = en\<lparr>fe_status := new_status\<rparr> in
      if new_status = st_error
      then en\<lparr>fe_attempts := i64 (fe_attempts en + 1), fe_error := err_msg\<rparr> else en)"

definition transition_ops :: "char \<Rightarrow> bytes \<Rightarrow> bytes \<Rightarrow> frontier_entry \<Rightarrow> bytes bop list" where
  "transition_ops new_status err_msg url old =
     (let en = transition_entry new_status err_msg old in
      [BSet (frontier_key url) (pack_frontier_entry en)]
      @ (if fe_status old = st_queued \<or> fe_status old = st_in_flight then
           [BDel (frontier_status_index_key (fe_status old) (fe_host en) url),
            BDel (frontier_status_index_key_lane (fe_status old) (fe_lane en) (fe_host en) url)]
         else [])
      @ (if new_status = st_queued \<or> new_status = st_in_flight then
           [BSet (frontier_status_index_key_lane new_status (fe_lane en) (fe_host en) url) []]
         else []))"

definition transition_frontier ::
  "env \<Rightarrow> bytes \<Rightarrow> char \<Rightarrow> bytes \<Rightarrow> pebble_store \<Rightarrow> (store_err + unit) \<times> pebble_store" where
  "transition_frontier e url new_status err_msg s =
     (if ctx_err e then (Inl CtxErr, s)
      else (case get_entry e (ps_db s) url of
          Inl x \<Rightarrow> (Inl x, s)
        | Inr en \<Rightarrow> (case commit e (transition_ops new_status err_msg url en) s of
              Inl x \<Rightarrow> (Inl x, s) | Inr s' \<Rightarrow> (Inr (), s'))))"

definition complete_frontier ::
  "env \<Rightarrow> bytes \<Rightarrow> pebble_store \<Rightarrow> (store_err + unit) \<times> pebble_store" where
  "complete_frontier e url s = transition_frontier e url st_done [] s"

definition fail_frontier ::
  "env \<Rightarrow> bytes \<Rightarrow> bytes \<Rightarrow> pebble_store \<Rightarrow> (store_err + unit) \<times> pebble_store" where
  "fail_frontier e url err_msg s =
     (let err_msg = (if 500 < length err_msg then take (500 - 3) err_msg @ ''...'' else err_msg)
      in transition_frontier e url st_error err_msg s)"

definition recrawl_url ::
  "env \<Rightarrow> bytes \<Rightarrow> pebble_store \<Rightarrow> (store_err + unit) \<times> pebble_store" where
  "recrawl_url e url s = transition_frontier e url st_queued [] s"

section \<open>Recovery and maintenance\<close>

definition recover_ops :: "bytes \<Rightarrow> frontier_entry \<Rightarrow> bytes bop list" where
  "recover_ops key en =
     (let url = drop 2 key in
      [BSet key (pack_frontier_entry (en\<lparr>fe_status := st_queued\<rparr>)),
       BDel (frontier_status_index_key st_in_flight (fe_host en) url),
       BDel (frontier_status_index_key_lane st_in_flight (fe_lane en) (fe_host en) url),
       BSet (frontier_status_index_key_lane st_queued (fe_lane en) (fe_host en) url) []])"

fun recover_loop ::
  "env \<Rightarrow> bytes kv \<Rightarrow> bytes list \<Rightarrow> bytes bop list \<Rightarrow> store_err + bytes bop list" where
  "recover_loop e db [] ops = Inr ops"
| "recover_loop e db (k # ks) ops =
     (if get_err e k then Inl IOErr
      else (case fmlookup db k of None \<Rightarrow> recover_loop e db ks ops
        | Some v \<Rightarrow> (case unpack_frontier_entry v of
            Inl _ \<Rightarrow> recover_loop e db ks ops
          | Inr en \<Rightarrow>
              if fe_status en \<noteq> st_in_flight then recover_loop e db ks ops
              else recover_loop e db ks (ops @ recover_ops k en))))"

definition recover_in_flight ::
  "env \<Rightarrow> pebble_store \<Rightarrow> (store_err + unit) \<times> pebble_store" where
  "recover_in_flight e s =
     (if ctx_err e then (Inl CtxErr, s)
      else if iter_err e ''fu'' then (Inl IterErr, s)
      else (case recover_loop e (ps_db s) (kv_keys (ps_db s) ''fu'' ''fv'') [] of
          Inl x \<Rightarrow> (Inl x, s)
        | Inr ops \<Rightarrow> (case commit e ops s of Inl x \<Rightarrow> (Inl x, s) | Inr s' \<Rightarrow> (Inr (), s'))))"

text \<open>The URL an in-flight index key names; \<open>None\<close> where the key is too short for its host.\<close>

definition stale_key_url :: "bytes \<Rightarrow> bytes option" where
  "stale_key_url k =
     (if length k < 3 then None
      else if byte_val (k ! 2) < lane_count then
        (let off = 3 + length (frontier_status_index_host_lane k) + 1 in
         if length k < off then None else Some (drop off k))
      else
        (let off = 2 + length (frontier_status_index_host k) + 1 in
         if length k < off then None else Some (drop off k)))"

fun purge_stale_loop ::
  "env \<Rightarrow> bytes kv \<Rightarrow> bytes list \<Rightarrow> bytes bop list \<Rightarrow> nat
    \<Rightarrow> (nat \<times> store_err) + (bytes bop list \<times> nat)" where
  "purge_stale_loop e db [] ops purged = Inr (ops, purged)"
| "purge_stale_loop e db (k # ks) ops purged =
     (case stale_key_url k of None \<Rightarrow> purge_stale_loop e db ks ops purged
      | Some url \<Rightarrow>
          if get_err e (frontier_key url) then Inl (purged, IOErr)
          else (case fmlookup db (frontier_key url) of
              None \<Rightarrow> purge_stale_loop e db ks (ops @ [BDel k]) (Suc purged)
            | Some v \<Rightarrow>
                (case unpack_frontier_entry v of
                   Inl _ \<Rightarrow> purge_stale_loop e db ks (ops @ [BDel k]) (Suc purged)
                 | Inr en \<Rightarrow>
                     if fe_status en \<noteq> st_in_flight
                     then purge_stale_loop e db ks (ops @ [BDel k]) (Suc purged)
                     else purge_stale_loop e db ks ops purged)))"

definition purge_stale_in_flight ::
  "env \<Rightarrow> pebble_store \<Rightarrow> (nat \<times> store_err option) \<times> pebble_store" where
  "purge_stale_in_flight e s =
     (if ctx_err e then ((0, Some CtxErr), s)
      else if iter_err e ''fi'' then ((0, Some IterErr), s)
      else (case purge_stale_loop e (ps_db s) (kv_keys (ps_db s) ''fi'' ''fj'') [] 0 of
          Inl (purged, x) \<Rightarrow> ((purged, Some x), s)
        | Inr (ops, purged) \<Rightarrow>
            if 0 < purged then
              (case commit e ops s of Inl x \<Rightarrow> ((purged, Some x), s)
                 | Inr s' \<Rightarrow> ((purged, None), s'))
            else ((purged, None), s)))"

text \<open>
  \<open>purgeRange\<close> of \<open>PurgeFrontierByHost\<close>: deletes each index row with its primary row, committing
  and starting a new batch at every 5000th URL. The iterator sees the rows present when it opened.
\<close>

fun purge_range ::
  "env \<Rightarrow> nat \<Rightarrow> bytes list \<Rightarrow> bytes bop list \<Rightarrow> nat \<Rightarrow> pebble_store
    \<Rightarrow> store_err option \<times> bytes bop list \<times> nat \<times> pebble_store" where
  "purge_range e off [] ops count s = (None, ops, count, s)"
| "purge_range e off (k # ks) ops count s =
     (if length k \<le> off then purge_range e off ks ops count s
      else let ops = ops @ [BDel k, BDel (frontier_key (drop off k))]; count = Suc count in
        if count mod 5000 = 0 then
          (case commit e ops s of Inl x \<Rightarrow> (Some x, ops, count, s)
             | Inr s' \<Rightarrow> purge_range e off ks [] count s')
        else purge_range e off ks ops count s)"

definition purge_prefix ::
  "env \<Rightarrow> bytes \<Rightarrow> bytes \<Rightarrow> bytes bop list \<Rightarrow> nat \<Rightarrow> pebble_store
    \<Rightarrow> store_err option \<times> bytes bop list \<times> nat \<times> pebble_store" where
  "purge_prefix e lo hi ops count s =
     (if iter_err e lo then (Some IterErr, ops, count, s)
      else purge_range e (length lo) (kv_keys (ps_db s) lo hi) ops count s)"

fun purge_lanes ::
  "env \<Rightarrow> bytes \<Rightarrow> nat list \<Rightarrow> bytes bop list \<Rightarrow> nat \<Rightarrow> pebble_store
    \<Rightarrow> store_err option \<times> bytes bop list \<times> nat \<times> pebble_store" where
  "purge_lanes e host [] ops count s = (None, ops, count, s)"
| "purge_lanes e host (l # ls) ops count s =
     (case purge_prefix e (host_prefix_lane st_queued l host) (host_upper_lane st_queued l host)
         ops count s of
        (Some x, r) \<Rightarrow> (Some x, r)
      | (None, ops', count', s') \<Rightarrow> purge_lanes e host ls ops' count' s')"

definition purge_frontier_by_host ::
  "env \<Rightarrow> bytes \<Rightarrow> pebble_store \<Rightarrow> (nat \<times> store_err option) \<times> pebble_store" where
  "purge_frontier_by_host e host s =
     (if ctx_err e then ((0, Some CtxErr), s)
      else if host = [] then ((0, None), s)
      else (case purge_prefix e (host_prefix st_queued host) (host_upper st_queued host) [] 0 s of
          (Some x, ops, count, s1) \<Rightarrow> ((count, Some x), s1)
        | (None, ops, count, s1) \<Rightarrow>
            (case purge_lanes e host [0..<lane_count] ops count s1 of
               (Some x, ops', count', s2) \<Rightarrow> ((count', Some x), s2)
             | (None, ops', count', s2) \<Rightarrow>
                 (case commit e ops' s2 of Inl x \<Rightarrow> ((count', Some x), s2)
                    | Inr s3 \<Rightarrow> ((count', None), s3)))))"

definition clear_frontier ::
  "env \<Rightarrow> bool \<Rightarrow> pebble_store \<Rightarrow> (store_err + unit) \<times> pebble_store" where
  "clear_frontier e compact_ok s =
     (if ctx_err e then (Inl CtxErr, s)
      else (case commit e [BDelRange ''f'' ''g''] s of Inl x \<Rightarrow> (Inl x, s)
        | Inr s' \<Rightarrow> (if compact_ok then Inr () else Inl IOErr, s')))"

section \<open>Demoting a host\<close>

text \<open>
  \<open>rekeyBatch\<close>: moves each still queued URL to the target lane; \<open>src = None\<close> is the legacy index.
  The count is the shared counter \<open>moved\<close>.
\<close>

definition rekey_ops :: "bytes \<Rightarrow> nat \<Rightarrow> nat option \<Rightarrow> bytes \<Rightarrow> frontier_entry \<Rightarrow> bytes bop list" where
  "rekey_ops host lane src u en =
     [BDel (case src of None \<Rightarrow> frontier_status_index_key st_queued host u
        | Some l \<Rightarrow> frontier_status_index_key_lane st_queued l host u),
      BSet (frontier_status_index_key_lane st_queued lane host u) [],
      BSet (frontier_key u) (pack_frontier_entry (en\<lparr>fe_lane := lane\<rparr>))]"

fun rekey_loop ::
  "env \<Rightarrow> bytes kv \<Rightarrow> bytes \<Rightarrow> nat \<Rightarrow> nat option \<Rightarrow> bytes list \<Rightarrow> bytes bop list \<Rightarrow> nat
    \<Rightarrow> (nat \<times> store_err) + (bytes bop list \<times> nat)" where
  "rekey_loop e db host lane src [] ops moved = Inr (ops, moved)"
| "rekey_loop e db host lane src (u # us) ops moved =
     (case get_entry e db u of
        Inl NotFound \<Rightarrow> rekey_loop e db host lane src us ops moved
      | Inl x \<Rightarrow> Inl (moved, x)
      | Inr en \<Rightarrow>
          if fe_status en \<noteq> st_queued then rekey_loop e db host lane src us ops moved
          else if fe_lane en = lane then rekey_loop e db host lane src us ops moved
          else rekey_loop e db host lane src us (ops @ rekey_ops host lane src u en) (Suc moved))"

definition rekey_batch ::
  "env \<Rightarrow> bytes \<Rightarrow> nat \<Rightarrow> nat option \<Rightarrow> bytes list \<Rightarrow> nat \<Rightarrow> pebble_store
    \<Rightarrow> (nat \<times> store_err option) \<times> pebble_store" where
  "rekey_batch e host lane src us moved s =
     (case rekey_loop e (ps_db s) host lane src us [] moved of
        Inl (m, x) \<Rightarrow> ((m, Some x), s)
      | Inr (ops, m) \<Rightarrow> (case commit e ops s of Inl x \<Rightarrow> ((m, Some x), s)
          | Inr s' \<Rightarrow> ((m, None), s')))"

text \<open>The 1024-URL batches of one sweep.\<close>

function rekey_chunks ::
  "env \<Rightarrow> bytes \<Rightarrow> nat \<Rightarrow> nat option \<Rightarrow> bytes list \<Rightarrow> nat \<Rightarrow> pebble_store
    \<Rightarrow> (nat \<times> store_err option) \<times> pebble_store" where
  "rekey_chunks e host lane src us moved s =
     (if us = [] then ((moved, None), s)
      else (case rekey_batch e host lane src (take 1024 us) moved s of
          ((m, Some x), s') \<Rightarrow> ((m, Some x), s')
        | ((m, None), s') \<Rightarrow> rekey_chunks e host lane src (drop 1024 us) m s'))"
  by pat_completeness auto
termination
  by (relation "measure (\<lambda>(e, host, lane, src, us, moved, s). length us)") auto

declare rekey_chunks.simps [simp del]

definition collect_host ::
  "env \<Rightarrow> bytes \<Rightarrow> nat option \<Rightarrow> pebble_store \<Rightarrow> store_err + bytes list" where
  "collect_host e host src s =
     (let lo = (case src of None \<Rightarrow> host_prefix st_queued host
                  | Some l \<Rightarrow> host_prefix_lane st_queued l host);
          hi = (case src of None \<Rightarrow> host_upper st_queued host
                  | Some l \<Rightarrow> host_upper_lane st_queued l host) in
      if iter_err e lo then Inl IterErr
      else Inr (map (drop (length lo))
        (filter (\<lambda>k. length lo < length k) (kv_keys (ps_db s) lo hi))))"

definition demote_sweep ::
  "env \<Rightarrow> bytes \<Rightarrow> nat \<Rightarrow> nat option \<Rightarrow> nat \<Rightarrow> pebble_store
    \<Rightarrow> (nat \<times> store_err option) \<times> pebble_store" where
  "demote_sweep e host lane src moved s =
     (case collect_host e host src s of Inl x \<Rightarrow> ((moved, Some x), s)
      | Inr us \<Rightarrow> rekey_chunks e host lane src us moved s)"

fun demote_lanes ::
  "env \<Rightarrow> bytes \<Rightarrow> nat \<Rightarrow> nat list \<Rightarrow> nat \<Rightarrow> pebble_store
    \<Rightarrow> (nat \<times> store_err option) \<times> pebble_store" where
  "demote_lanes e host lane [] moved s = ((moved, None), s)"
| "demote_lanes e host lane (sl # sls) moved s =
     (if sl = lane then demote_lanes e host lane sls moved s
      else (case demote_sweep e host lane (Some sl) moved s of
          ((m, Some x), s') \<Rightarrow> ((m, Some x), s')
        | ((m, None), s') \<Rightarrow> demote_lanes e host lane sls m s'))"

definition demote_host_to_lane ::
  "env \<Rightarrow> bytes \<Rightarrow> nat \<Rightarrow> pebble_store \<Rightarrow> (nat \<times> store_err option) \<times> pebble_store" where
  "demote_host_to_lane e host lane s =
     (if ctx_err e then ((0, Some CtxErr), s)
      else if lane_count \<le> lane then ((0, Some (LaneOutOfRange lane)), s)
      else if host = [] then ((0, Some EmptyHost), s)
      else (case demote_sweep e host lane None 0 s of
          ((m, Some x), s') \<Rightarrow> ((m, Some x), s')
        | ((m, None), s') \<Rightarrow> demote_lanes e host lane [0..<lane_count] m s'))"

section \<open>Statistics\<close>

record frontier_stats =
  fs_queued :: nat
  fs_in_flight :: nat
  fs_done :: nat
  fs_errored :: nat

fun tally_status :: "bytes option list \<Rightarrow> frontier_stats \<Rightarrow> frontier_stats" where
  "tally_status [] st = st"
| "tally_status (v # vs) st =
     (case v of
        Some (c # _) \<Rightarrow> tally_status vs
          (if c = st_queued then st\<lparr>fs_queued := Suc (fs_queued st)\<rparr>
           else if c = st_in_flight then st\<lparr>fs_in_flight := Suc (fs_in_flight st)\<rparr>
           else if c = st_done then st\<lparr>fs_done := Suc (fs_done st)\<rparr>
           else if c = st_error then st\<lparr>fs_errored := Suc (fs_errored st)\<rparr>
           else st)
      | _ \<Rightarrow> tally_status vs st)"

definition get_frontier_stats :: "env \<Rightarrow> pebble_store \<Rightarrow> store_err + frontier_stats" where
  "get_frontier_stats e s =
     (if ctx_err e then Inl CtxErr
      else if iter_err e ''fu'' then Inl IterErr
      else if list_ex (get_err e) (kv_keys (ps_db s) ''fu'' ''fv'') then Inl IOErr
      else Inr (tally_status (map (fmlookup (ps_db s)) (kv_keys (ps_db s) ''fu'' ''fv''))
        \<lparr>fs_queued = 0, fs_in_flight = 0, fs_done = 0, fs_errored = 0\<rparr>))"

end
