(* ===== verification/FrontierInv.thy ===== *)
theory FrontierInv
  imports Frontier
begin

text \<open>
  The frontier's representation invariant and its preservation. Every operation rewrites the rows
  of single URLs, so the invariant is stated per URL over the keys that belong to it, and a
  whole batch is handled by one lemma about lists of URL-local updates.
\<close>

section \<open>The rows of one URL\<close>

definition index_keys :: "bytes \<Rightarrow> bytes set" where
  "index_keys u =
     {frontier_status_index_key s (extract_host u) u | s. s \<in> {st_queued, st_in_flight}}
     \<union> {frontier_status_index_key_lane s l (extract_host u) u | s l.
          s \<in> {st_queued, st_in_flight} \<and> l < lane_count}"

definition url_keys :: "bytes \<Rightarrow> bytes set" where
  "url_keys u = insert (frontier_key u) (index_keys u)"

definition entry_good :: "bytes \<Rightarrow> frontier_entry \<Rightarrow> bool" where
  "entry_good u en = (entry_ok en \<and> fe_host en = extract_host u \<and> fe_lane en < lane_count
     \<and> fe_status en \<in> {st_queued, st_in_flight, st_done, st_error})"

text \<open>
  The invariant of one URL: its row decodes to a good entry; if the entry is queued or in flight
  exactly one key of the matching index is live, legacy or in the entry's lane; no other is.
\<close>

definition index_ok :: "(bytes \<Rightarrow> bytes option) \<Rightarrow> bytes \<Rightarrow> char \<Rightarrow> frontier_entry option \<Rightarrow> bool" where
  "index_ok get u s en = (case en of
     Some en \<Rightarrow>
       if fe_status en = s then
         ((get (frontier_status_index_key s (extract_host u) u) = None)
           \<noteq> (get (frontier_status_index_key_lane s (fe_lane en) (extract_host u) u) = None))
         \<and> (\<forall>l < lane_count. l \<noteq> fe_lane en \<longrightarrow>
              get (frontier_status_index_key_lane s l (extract_host u) u) = None)
       else get (frontier_status_index_key s (extract_host u) u) = None
         \<and> (\<forall>l < lane_count. get (frontier_status_index_key_lane s l (extract_host u) u) = None)
   | None \<Rightarrow> get (frontier_status_index_key s (extract_host u) u) = None
         \<and> (\<forall>l < lane_count. get (frontier_status_index_key_lane s l (extract_host u) u) = None))"

definition url_inv :: "(bytes \<Rightarrow> bytes option) \<Rightarrow> bytes \<Rightarrow> bool" where
  "url_inv get u = (case get (frontier_key u) of
     None \<Rightarrow> index_ok get u st_queued None \<and> index_ok get u st_in_flight None
   | Some v \<Rightarrow> (case unpack_frontier_entry v of Inl _ \<Rightarrow> False
       | Inr en \<Rightarrow> entry_good u en \<and> index_ok get u st_queued (Some en)
           \<and> index_ok get u st_in_flight (Some en)))"

definition frontier_inv :: "bytes kv \<Rightarrow> bool" where
  "frontier_inv db =
     ((\<forall>u. canonical_url u \<longrightarrow> url_inv (fmlookup db) u)
      \<and> (\<forall>u. fmlookup db (frontier_key u) \<noteq> None \<longrightarrow> canonical_url u)
      \<and> (\<forall>k s r. fmlookup db k \<noteq> None \<longrightarrow> k = CHR ''f'' # s # r \<longrightarrow> s \<in> {st_queued, st_in_flight}
           \<longrightarrow> (\<exists>u. canonical_url u \<and> k \<in> index_keys u)))"

text \<open>The abstract content of a store: the decoded row of every URL.\<close>

definition entry_at :: "bytes kv \<Rightarrow> bytes \<Rightarrow> frontier_entry option" where
  "entry_at db u = (case fmlookup db (frontier_key u) of None \<Rightarrow> None
     | Some v \<Rightarrow> (case unpack_frontier_entry v of Inl _ \<Rightarrow> None | Inr en \<Rightarrow> Some en))"

section \<open>Keys of different URLs\<close>

lemma frontier_key_in_url_keys [simp]: "frontier_key u \<in> url_keys u"
  by (simp add: url_keys_def)

lemma index_key_in [simp]:
  "s \<in> {st_queued, st_in_flight} \<Longrightarrow> h = extract_host u \<Longrightarrow> frontier_status_index_key s h u \<in> index_keys u"
  by (auto simp: index_keys_def)

lemma index_key_lane_in [simp]:
  "s \<in> {st_queued, st_in_flight} \<Longrightarrow> l < lane_count \<Longrightarrow> h = extract_host u
    \<Longrightarrow> frontier_status_index_key_lane s l h u \<in> index_keys u"
  by (auto simp: index_keys_def)

lemma index_keysE:
  assumes "k \<in> index_keys u"
  obtains (legacy) s where "s \<in> {st_queued, st_in_flight}"
      and "k = frontier_status_index_key s (extract_host u) u"
    | (lane) s l where "s \<in> {st_queued, st_in_flight}" and "l < lane_count"
      and "k = frontier_status_index_key_lane s l (extract_host u) u"
proof -
  from assms have "(\<exists>s. k = frontier_status_index_key s (extract_host u) u
        \<and> s \<in> {st_queued, st_in_flight})
      \<or> (\<exists>s l. k = frontier_status_index_key_lane s l (extract_host u) u
        \<and> s \<in> {st_queued, st_in_flight} \<and> l < lane_count)"
    unfolding index_keys_def by (simp only: Un_iff mem_Collect_eq)
  then show thesis
  proof (elim disjE exE conjE)
    fix s
    assume "k = frontier_status_index_key s (extract_host u) u" "s \<in> {st_queued, st_in_flight}"
    then show thesis by (rule legacy [rotated])
  next
    fix s l
    assume "k = frontier_status_index_key_lane s l (extract_host u) u"
      "s \<in> {st_queued, st_in_flight}" "l < lane_count"
    then show thesis by (rule lane [rotated 2])
  qed
qed

lemma stale_key_url_index_key:
  assumes "index_host h"
  shows "stale_key_url (frontier_status_index_key s h u) = Some u"
proof -
  from assms obtain c t where h: "h = c # t" and c: "\<not> byte_val c < lane_count"
    by (cases h) (auto simp: index_host_def)
  have k: "frontier_status_index_host (CHR ''f'' # s # c # t @ CHR 0x00 # u) = h"
    using index_key_host [OF assms, of s u] h by (simp add: frontier_status_index_key_def)
  show ?thesis
    unfolding stale_key_url_def frontier_status_index_key_def h
    using c k h by (simp add: Let_def)
qed

lemma stale_key_url_index_key_lane:
  assumes "index_host h" and "l < lane_count"
  shows "stale_key_url (frontier_status_index_key_lane s l h u) = Some u"
proof -
  have "byte_val (char_of l) = l" using assms(2) by (simp add: lane_count_def)
  moreover have "frontier_status_index_host_lane (CHR ''f'' # s # char_of l # h @ CHR 0x00 # u) = h"
    using index_key_lane_host [OF assms(1), of s l u] by (simp add: frontier_status_index_key_lane_def)
  moreover have "drop (3 + length h + 1) (CHR ''f'' # s # char_of l # h @ CHR 0x00 # u) = u"
    by (simp add: eval_nat_numeral)
  ultimately show ?thesis
    unfolding stale_key_url_def frontier_status_index_key_lane_def
    using assms(2) by (simp add: Let_def)
qed

lemma stale_key_url_index:
  assumes "canonical_url u" and "k \<in> index_keys u"
  shows "stale_key_url k = Some u"
  using assms(2) extract_host_index_host [OF assms(1)]
  by (cases rule: index_keysE) (simp_all add: stale_key_url_index_key stale_key_url_index_key_lane)

lemma index_keys_disjoint:
  assumes "canonical_url u" and "canonical_url v" and "k \<in> index_keys u" and "k \<in> index_keys v"
  shows "u = v"
  using stale_key_url_index [OF assms(1,3)] stale_key_url_index [OF assms(2,4)] by simp

lemma frontier_key_not_index [simp]: "frontier_key v \<notin> index_keys u"
  by (auto simp: index_keys_def frontier_key_def frontier_status_index_key_def
      frontier_status_index_key_lane_def)

lemma url_keys_disjoint:
  assumes "canonical_url u" and "canonical_url v" and "k \<in> url_keys u" and "k \<in> url_keys v"
  shows "u = v"
  using assms index_keys_disjoint by (auto simp: url_keys_def)

lemma index_ok_cong:
  assumes "\<And>k. k \<in> index_keys u \<Longrightarrow> get k = get' k" and "s \<in> {st_queued, st_in_flight}"
    and "\<And>e. en = Some e \<Longrightarrow> fe_lane e < lane_count"
  shows "index_ok get u s en = index_ok get' u s en"
proof -
  have i: "get (frontier_status_index_key s (extract_host u) u)
      = get' (frontier_status_index_key s (extract_host u) u)"
    using assms(2) by (intro assms(1)) simp
  have l: "get (frontier_status_index_key_lane s l (extract_host u) u)
      = get' (frontier_status_index_key_lane s l (extract_host u) u)" if "l < lane_count" for l
    using assms(2) that by (intro assms(1)) simp
  have all: "(\<forall>l < lane_count. P l \<longrightarrow> get (frontier_status_index_key_lane s l (extract_host u) u) = None)
    = (\<forall>l < lane_count. P l \<longrightarrow> get' (frontier_status_index_key_lane s l (extract_host u) u) = None)" for P
    using l by metis
  show ?thesis
  proof (cases en)
    case None
    then show ?thesis using i all [of "\<lambda>_. True"] by (simp add: index_ok_def)
  next
    case (Some e)
    then show ?thesis
      using i all [of "\<lambda>_. True"] all [of "\<lambda>l. l \<noteq> fe_lane e"] l [of "fe_lane e"] assms(3)
      by (simp add: index_ok_def)
  qed
qed

lemma url_inv_cong:
  assumes "\<And>k. k \<in> url_keys u \<Longrightarrow> get k = get' k"
  shows "url_inv get u = url_inv get' u"
proof -
  have k: "get (frontier_key u) = get' (frontier_key u)"
    by (simp add: assms)
  have i: "get k = get' k" if "k \<in> index_keys u" for k
    using that by (intro assms) (simp add: url_keys_def)
  have none: "index_ok get u s None = index_ok get' u s None" if "s \<in> {st_queued, st_in_flight}" for s
    using i that by (rule index_ok_cong) simp_all
  have some: "entry_good u e \<Longrightarrow> index_ok get u s (Some e) = index_ok get' u s (Some e)"
    if "s \<in> {st_queued, st_in_flight}" for s e
    using i that by (rule index_ok_cong) (simp_all add: entry_good_def)
  show ?thesis
  proof (cases "get' (frontier_key u)")
    case None
    then show ?thesis using none by (simp add: url_inv_def k)
  next
    case (Some v)
    then show ?thesis using some
      by (cases "unpack_frontier_entry v") (auto simp: url_inv_def k)
  qed
qed

section \<open>URL-local batches\<close>

text \<open>A batch that only writes rows of \<open>u\<close>.\<close>

definition local_ops :: "bytes \<Rightarrow> 'v bop list \<Rightarrow> bool" where
  "local_ops u ops = (\<forall>b \<in> set ops. \<forall>k. touches b k \<longrightarrow> k \<in> url_keys u)"

lemma local_ops_frame:
  assumes "local_ops u ops" and "k \<notin> url_keys u"
  shows "fmlookup (apply_batch ops db) k = fmlookup db k"
  using assms by (intro lookup_batch_untouched) (auto simp: local_ops_def)

text \<open>Whether a lookup function's effect of a local batch is determined by the rows of \<open>u\<close>.\<close>

lemma lookup_batch_cong:
  assumes "fmlookup db k = fmlookup db' k"
  shows "fmlookup (apply_batch ops db) k = fmlookup (apply_batch ops db') k"
  using assms
proof (induction ops arbitrary: db db')
  case Nil
  then show ?case by simp
next
  case (Cons b ops)
  have "fmlookup (apply_bop b db) k = fmlookup (apply_bop b db') k"
    using Cons.prems by (cases b) simp_all
  from Cons.IH [OF this] show ?case by simp
qed

lemma local_ops_inv:
  assumes inv: "frontier_inv db" and c: "canonical_url u" and loc: "local_ops u ops"
    and after: "url_inv (fmlookup (apply_batch ops db)) u"
  shows "frontier_inv (apply_batch ops db)"
  unfolding frontier_inv_def
proof (intro conjI allI impI)
  fix v assume v: "canonical_url v"
  show "url_inv (fmlookup (apply_batch ops db)) v"
  proof (cases "v = u")
    case True
    with after show ?thesis by simp
  next
    case False
    have "url_inv (fmlookup (apply_batch ops db)) v = url_inv (fmlookup db) v"
    proof (rule url_inv_cong)
      fix k assume "k \<in> url_keys v"
      with False c v have "k \<notin> url_keys u" using url_keys_disjoint by blast
      with loc show "fmlookup (apply_batch ops db) k = fmlookup db k" by (rule local_ops_frame)
    qed
    with inv v show ?thesis by (simp add: frontier_inv_def)
  qed
next
  fix v assume v: "fmlookup (apply_batch ops db) (frontier_key v) \<noteq> None"
  show "canonical_url v"
  proof (cases "frontier_key v \<in> url_keys u")
    case True
    then have "v = u" by (simp add: url_keys_def)
    with c show ?thesis by simp
  next
    case False
    with local_ops_frame [OF loc] v have "fmlookup db (frontier_key v) \<noteq> None" by metis
    with inv show ?thesis by (simp add: frontier_inv_def)
  qed
next
  fix k s r
  assume k: "fmlookup (apply_batch ops db) k \<noteq> None" "k = CHR ''f'' # s # r"
    "s \<in> {st_queued, st_in_flight}"
  show "\<exists>w. canonical_url w \<and> k \<in> index_keys w"
  proof (cases "k \<in> url_keys u")
    case True
    with k have "k \<in> index_keys u" by (auto simp: url_keys_def frontier_key_def)
    with c show ?thesis by blast
  next
    case False
    with local_ops_frame [OF loc] k(1) have "fmlookup db k \<noteq> None" by metis
    with inv k(2,3) show ?thesis unfolding frontier_inv_def by blast
  qed
qed

text \<open>
  A batch assembled from one snapshot: pairs of a URL and its local operations, the URLs distinct.
  Each URL's part takes effect as if it were committed alone.
\<close>

definition snapshot_batch :: "(bytes \<times> bytes bop list) list \<Rightarrow> bool" where
  "snapshot_batch ps = (distinct (map fst ps)
     \<and> (\<forall>(u, ops) \<in> set ps. canonical_url u \<and> local_ops u ops))"

lemma snapshot_batch_frame:
  assumes "snapshot_batch ps" and "canonical_url u" and "u \<notin> fst ` set ps" and "k \<in> url_keys u"
  shows "fmlookup (apply_batch (concat (map snd ps)) db) k = fmlookup db k"
proof (rule lookup_batch_untouched)
  fix b assume "b \<in> set (concat (map snd ps))"
  then obtain v ops where v: "(v, ops) \<in> set ps" "b \<in> set ops" by auto
  with assms(1) have "canonical_url v" "local_ops v ops" by (auto simp: snapshot_batch_def)
  moreover have "u \<noteq> v" using assms(3) v(1) by force
  ultimately show "\<not> touches b k"
    using v(2) assms(2,4) url_keys_disjoint by (auto simp: local_ops_def)
qed

lemma snapshot_batch_part:
  assumes "snapshot_batch ps" and "(u, ops) \<in> set ps" and "k \<in> url_keys u"
  shows "fmlookup (apply_batch (concat (map snd ps)) db) k = fmlookup (apply_batch ops db) k"
  using assms
proof (induction ps arbitrary: db)
  case Nil
  then show ?case by simp
next
  case (Cons p ps)
  obtain v vops where p: "p = (v, vops)" by (cases p)
  from Cons.prems(1) p have tl: "snapshot_batch ps" and v: "canonical_url v" "local_ops v vops"
    and vn: "v \<notin> fst ` set ps"
    by (auto simp: snapshot_batch_def)
  show ?case
  proof (cases "p = (u, ops)")
    case True
    then have "fmlookup (apply_batch (concat (map snd ps)) (apply_batch ops db)) k
        = fmlookup (apply_batch ops db) k"
      using snapshot_batch_frame [OF tl v(1) vn] Cons.prems(3) p by simp
    with True show ?thesis by simp
  next
    case False
    with Cons.prems(2) have u: "(u, ops) \<in> set ps" by simp
    then have uv: "u \<noteq> v" using vn by force
    have cu: "canonical_url u" using tl u by (auto simp: snapshot_batch_def)
    have "k \<notin> url_keys v" using uv cu v(1) Cons.prems(3) url_keys_disjoint by blast
    then have "fmlookup (apply_batch vops db) k = fmlookup db k"
      by (rule local_ops_frame [OF v(2)])
    then have "fmlookup (apply_batch ops (apply_batch vops db)) k = fmlookup (apply_batch ops db) k"
      by (rule lookup_batch_cong)
    with Cons.IH [OF tl u Cons.prems(3), of "apply_batch vops db"] p show ?thesis by simp
  qed
qed

lemma snapshot_batch_inv:
  assumes "frontier_inv db" and "snapshot_batch ps"
    and "\<And>u ops. (u, ops) \<in> set ps \<Longrightarrow> url_inv (fmlookup (apply_batch ops db)) u"
  shows "frontier_inv (apply_batch (concat (map snd ps)) db)"
  using assms
proof (induction ps arbitrary: db)
  case Nil
  then show ?case by simp
next
  case (Cons p ps)
  obtain v vops where p: "p = (v, vops)" by (cases p)
  from Cons.prems(2) p have tl: "snapshot_batch ps" and v: "canonical_url v" "local_ops v vops"
    and vn: "v \<notin> fst ` set ps"
    by (auto simp: snapshot_batch_def)
  have inv: "frontier_inv (apply_batch vops db)"
    using Cons.prems(1,3) v p by (intro local_ops_inv) auto
  have "url_inv (fmlookup (apply_batch ops (apply_batch vops db))) u" if u: "(u, ops) \<in> set ps" for u ops
  proof -
    have cu: "canonical_url u" using tl u by (auto simp: snapshot_batch_def)
    have "u \<noteq> v" using vn u by force
    then have "k \<notin> url_keys v" if "k \<in> url_keys u" for k
      using that cu v(1) url_keys_disjoint by blast
    then have "fmlookup (apply_batch ops (apply_batch vops db)) k = fmlookup (apply_batch ops db) k"
      if "k \<in> url_keys u" for k
      using that by (intro lookup_batch_cong local_ops_frame [OF v(2)])
    then have "url_inv (fmlookup (apply_batch ops (apply_batch vops db))) u
      = url_inv (fmlookup (apply_batch ops db)) u"
      by (rule url_inv_cong)
    with Cons.prems(3) [of u ops] u show ?thesis by simp
  qed
  from Cons.IH [OF inv tl this] p show ?case by simp
qed

end
