(* ===== verification/FrontierOps.thy ===== *)
theory FrontierOps
  imports FrontierInv
begin

text \<open>
  What each frontier operation does to the decoded rows (\<open>entry_at\<close>), and that it keeps
  \<open>frontier_inv\<close>. The batches of the code are shown URL-local first; the operations follow.
\<close>

lemmas key_eqs = index_key_inj index_key_lane_inj index_key_formats_differ
  index_key_formats_differ [symmetric]

lemma entry_at_cong: "fmlookup db (frontier_key u) = fmlookup db' (frontier_key u)
  \<Longrightarrow> entry_at db u = entry_at db' u"
  by (simp add: entry_at_def)

lemma invD:
  assumes "frontier_inv db" and "entry_at db u = Some en"
  shows "canonical_url u" and "entry_good u en"
    and "index_ok (fmlookup db) u st_queued (Some en)"
    and "index_ok (fmlookup db) u st_in_flight (Some en)"
proof -
  from assms(2) obtain v where v: "fmlookup db (frontier_key u) = Some v"
    "unpack_frontier_entry v = Inr en"
    by (auto simp: entry_at_def split: option.splits sum.splits)
  with assms(1) show c: "canonical_url u" by (auto simp: frontier_inv_def)
  with assms(1) have "url_inv (fmlookup db) u" by (simp add: frontier_inv_def)
  with v show "entry_good u en" "index_ok (fmlookup db) u st_queued (Some en)"
    "index_ok (fmlookup db) u st_in_flight (Some en)"
    by (simp_all add: url_inv_def)
qed

lemma inv_entry_None:
  assumes "frontier_inv db" and "canonical_url u"
  shows "entry_at db u = None \<longleftrightarrow> fmlookup db (frontier_key u) = None"
proof -
  from assms have "url_inv (fmlookup db) u" by (simp add: frontier_inv_def)
  then show ?thesis
    by (auto simp: entry_at_def url_inv_def split: option.splits sum.splits)
qed

lemma invD_None:
  assumes "frontier_inv db" and "canonical_url u" and "fmlookup db (frontier_key u) = None"
  shows "index_ok (fmlookup db) u st_queued None" and "index_ok (fmlookup db) u st_in_flight None"
proof -
  from assms have "url_inv (fmlookup db) u" by (simp add: frontier_inv_def)
  with assms(3) show "index_ok (fmlookup db) u st_queued None"
    "index_ok (fmlookup db) u st_in_flight None"
    by (simp_all add: url_inv_def)
qed

lemma url_invI:
  assumes "get (frontier_key u) = Some (pack_frontier_entry en)" and "entry_good u en"
    and "index_ok get u st_queued (Some en)" and "index_ok get u st_in_flight (Some en)"
  shows "url_inv get u"
  using assms unpack_pack_lane(1) [of en] by (simp add: url_inv_def entry_good_def)

lemma entry_at_packed:
  "fmlookup db (frontier_key u) = Some (pack_frontier_entry en) \<Longrightarrow> entry_good u en
    \<Longrightarrow> entry_at db u = Some en"
  using unpack_pack_lane(1) [of en] by (simp add: entry_at_def entry_good_def)

section \<open>The batches, one URL at a time\<close>

lemma local_opsI:
  "(\<And>b. b \<in> set ops \<Longrightarrow> \<exists>k \<in> url_keys u. b = BDel k \<or> (\<exists>v. b = BSet k v)) \<Longrightarrow> local_ops u ops"
  unfolding local_ops_def by fastforce

lemma in_url_keys [simp]:
  "s \<in> {st_queued, st_in_flight} \<Longrightarrow> h = extract_host u \<Longrightarrow> frontier_status_index_key s h u \<in> url_keys u"
  "s \<in> {st_queued, st_in_flight} \<Longrightarrow> l < lane_count \<Longrightarrow> h = extract_host u
    \<Longrightarrow> frontier_status_index_key_lane s l h u \<in> url_keys u"
  by (simp_all add: url_keys_def)

lemma push_ops_local: "lane < lane_count \<Longrightarrow> local_ops u (push_ops now u depth pri lane)"
  by (rule local_opsI) (auto simp: push_ops_def Let_def)

lemma queued_entry_good:
  assumes "canonical_url u" and "lane < lane_count" and "is_i64 depth" and "is_i64 now" and "pri < 2 ^ 64"
  shows "entry_good u (queued_entry depth pri now (extract_host u) lane)"
proof -
  have "length (extract_host u) < 2 ^ 63"
    using assms(1) length_extract_host [of u] by (simp add: canonical_url_def)
  moreover have "is_i64 0" by (simp add: is_i64_def)
  ultimately show ?thesis
    using assms by (simp add: entry_good_def entry_ok_def queued_entry_def lane_count_def)
qed

lemma push_ops_effect:
  assumes inv: "frontier_inv db" and u: "canonical_url u"
    and new: "fmlookup db (frontier_key u) = None"
    and good: "entry_good u (queued_entry depth pri now (extract_host u) lane)"
  shows "url_inv (fmlookup (apply_batch (push_ops now u depth pri lane) db)) u"
    and "entry_at (apply_batch (push_ops now u depth pri lane) db) u
      = Some (queued_entry depth pri now (extract_host u) lane)"
proof -
  let ?db = "apply_batch (push_ops now u depth pri lane) db"
  let ?en = "queued_entry depth pri now (extract_host u) lane"
  have h: "index_host (extract_host u)" by (rule extract_host_index_host [OF u])
  have l: "lane < lane_count" using good by (simp add: entry_good_def queued_entry_def)
  have st: "fe_status ?en = st_queued" "fe_lane ?en = lane" by (simp_all add: queued_entry_def)
  have k: "fmlookup ?db (frontier_key u) = Some (pack_frontier_entry ?en)"
    by (simp add: push_ops_def Let_def)
  show "url_inv (fmlookup ?db) u"
  proof (rule url_invI [where get = "fmlookup ?db", OF k good])
    show "index_ok (fmlookup ?db) u st_queued (Some ?en)"
      using invD_None(1) [OF inv u new] h l
      by (simp add: index_ok_def st push_ops_def Let_def key_eqs)
    show "index_ok (fmlookup ?db) u st_in_flight (Some ?en)"
      using invD_None(2) [OF inv u new] h l
      by (simp add: index_ok_def st push_ops_def Let_def key_eqs)
  qed
  show "entry_at ?db u = Some ?en" by (rule entry_at_packed [OF k good])
qed

text \<open>A status an operation may write.\<close>

abbreviation statuses :: "char set" where
  "statuses \<equiv> {st_queued, st_in_flight, st_done, st_error}"

lemma transition_entry_good:
  assumes "entry_good u en" and "st \<in> statuses" and "length msg < 2 ^ 63"
  shows "entry_good u (transition_entry st msg en)"
  using assms by (auto simp: entry_good_def entry_ok_def transition_entry_def Let_def)

lemma transition_entry_simps [simp]:
  "fe_status (transition_entry st msg en) = st"
  "fe_host (transition_entry st msg en) = fe_host en"
  "fe_lane (transition_entry st msg en) = fe_lane en"
  by (simp_all add: transition_entry_def Let_def)

lemma transition_ops_local:
  "entry_good u en \<Longrightarrow> local_ops u (transition_ops st msg u en)"
  by (rule local_opsI) (auto simp: transition_ops_def Let_def entry_good_def split: if_splits)

lemma transition_ops_effect:
  assumes inv: "frontier_inv db" and en: "entry_at db u = Some en"
    and st: "st \<in> statuses" and msg: "length msg < 2 ^ 63"
  shows "url_inv (fmlookup (apply_batch (transition_ops st msg u en) db)) u"
    and "entry_at (apply_batch (transition_ops st msg u en) db) u = Some (transition_entry st msg en)"
proof -
  let ?db = "apply_batch (transition_ops st msg u en) db"
  let ?en = "transition_entry st msg en"
  note i = invD [OF inv en]
  have h: "index_host (extract_host u)" by (rule extract_host_index_host [OF i(1)])
  have hl: "fe_host en = extract_host u" "fe_lane en < lane_count"
    using i(2) by (simp_all add: entry_good_def)
  have good: "entry_good u ?en" by (rule transition_entry_good [OF i(2) st msg])
  have k: "fmlookup ?db (frontier_key u) = Some (pack_frontier_entry ?en)"
    using hl by (simp add: transition_ops_def Let_def)
  have both: "index_ok (fmlookup ?db) u s (Some ?en)" if "s \<in> {st_queued, st_in_flight}" for s
    using i(3,4) h hl that st
    by (auto simp: index_ok_def transition_ops_def Let_def key_eqs split: if_splits)
  show "url_inv (fmlookup ?db) u"
    by (rule url_invI [where get = "fmlookup ?db", OF k good]) (rule both, simp)+
  show "entry_at ?db u = Some ?en" by (rule entry_at_packed [OF k good])
qed


lemma entry_at_local:
  assumes "local_ops u ops" and "entry_at (apply_batch ops db) u = x"
  shows "entry_at (apply_batch ops db) = (entry_at db)(u := x)"
proof
  fix v
  show "entry_at (apply_batch ops db) v = ((entry_at db)(u := x)) v"
  proof (cases "v = u")
    case True
    with assms(2) show ?thesis by simp
  next
    case False
    then have "frontier_key v \<notin> url_keys u" by (simp add: url_keys_def)
    from local_ops_frame [OF assms(1) this] have "entry_at (apply_batch ops db) v = entry_at db v"
      by (rule entry_at_cong)
    with False show ?thesis by simp
  qed
qed

lemma good_host_length: "entry_good u en \<Longrightarrow> length (extract_host u) < 2 ^ 63"
  unfolding entry_good_def entry_ok_def by metis

lemma entry_good_update:
  assumes "entry_good u en"
  shows "s \<in> {st_queued, st_in_flight, st_done, st_error} \<Longrightarrow> entry_good u (en\<lparr>fe_status := s\<rparr>)"
    and "l < lane_count \<Longrightarrow> entry_good u (en\<lparr>fe_lane := l\<rparr>)"
  using assms good_host_length [OF assms]
  by (auto simp: entry_good_def entry_ok_def lane_count_def)

text \<open>A row an index scan can return: the URL is queued and its queued key is in the given index.\<close>

definition queued_row :: "bytes kv \<Rightarrow> bytes \<Rightarrow> bytes \<Rightarrow> nat \<Rightarrow> bool \<Rightarrow> bool" where
  "queued_row db host url lane legacy =
     (host = extract_host url \<and> (\<exists>en. entry_at db url = Some en \<and> fe_status en = st_queued
        \<and> (if legacy then fmlookup db (frontier_status_index_key st_queued host url) \<noteq> None
           else lane = fe_lane en
             \<and> fmlookup db (frontier_status_index_key_lane st_queued lane host url) \<noteq> None)))"

lemma claim_ops_effect:
  assumes inv: "frontier_inv db" and row: "queued_row db host url lane legacy"
    and en: "entry_at db url = Some en"
  shows "local_ops url (claim_ops en host url lane legacy)"
    and "url_inv (fmlookup (apply_batch (claim_ops en host url lane legacy) db)) url"
    and "entry_at (apply_batch (claim_ops en host url lane legacy) db) url
      = Some (en\<lparr>fe_status := st_in_flight\<rparr>)"
proof -
  let ?db = "apply_batch (claim_ops en host url lane legacy) db"
  let ?en = "en\<lparr>fe_status := st_in_flight\<rparr>"
  note i = invD [OF inv en]
  have h: "index_host (extract_host url)" by (rule extract_host_index_host [OF i(1)])
  from row en have r: "host = extract_host url" "fe_status en = st_queued"
    "if legacy then fmlookup db (frontier_status_index_key st_queued host url) \<noteq> None
     else lane = fe_lane en
       \<and> fmlookup db (frontier_status_index_key_lane st_queued lane host url) \<noteq> None"
    by (auto simp: queued_row_def)
  have l: "fe_lane en < lane_count" using i(2) by (simp add: entry_good_def)
  have good: "entry_good url ?en"
    using i(2) by (simp add: entry_good_update)
  show "local_ops url (claim_ops en host url lane legacy)"
    using r l by (intro local_opsI) (auto simp: claim_ops_def split: if_splits)
  have k: "fmlookup ?db (frontier_key url) = Some (pack_frontier_entry ?en)"
    by (simp add: claim_ops_def)
  have both: "index_ok (fmlookup ?db) url s (Some ?en)" if "s \<in> {st_queued, st_in_flight}" for s
    using i(3,4) h l r that
    by (cases legacy) (auto simp: index_ok_def claim_ops_def key_eqs)
  show "url_inv (fmlookup ?db) url"
    by (rule url_invI [where get = "fmlookup ?db", OF k good]) (rule both, simp)+
  show "entry_at ?db url = Some ?en" by (rule entry_at_packed [OF k good])
qed

lemma drop_frontier_key [simp]: "drop 2 (frontier_key u) = u"
  by (simp add: frontier_key_def)

lemma recover_ops_effect:
  assumes inv: "frontier_inv db" and en: "entry_at db u = Some en"
    and st: "fe_status en = st_in_flight"
  shows "local_ops u (recover_ops (frontier_key u) en)"
    and "url_inv (fmlookup (apply_batch (recover_ops (frontier_key u) en) db)) u"
    and "entry_at (apply_batch (recover_ops (frontier_key u) en) db) u
      = Some (en\<lparr>fe_status := st_queued\<rparr>)"
proof -
  let ?db = "apply_batch (recover_ops (frontier_key u) en) db"
  let ?en = "en\<lparr>fe_status := st_queued\<rparr>"
  note i = invD [OF inv en]
  have h: "index_host (extract_host u)" by (rule extract_host_index_host [OF i(1)])
  have hl: "fe_host en = extract_host u" "fe_lane en < lane_count"
    using i(2) by (simp_all add: entry_good_def)
  have good: "entry_good u ?en"
    using i(2) by (simp add: entry_good_update)
  show "local_ops u (recover_ops (frontier_key u) en)"
    using hl by (intro local_opsI) (auto simp: recover_ops_def Let_def)
  have k: "fmlookup ?db (frontier_key u) = Some (pack_frontier_entry ?en)"
    using hl by (simp add: recover_ops_def Let_def)
  have both: "index_ok (fmlookup ?db) u s (Some ?en)" if "s \<in> {st_queued, st_in_flight}" for s
    using i(3,4) h hl that st
    by (auto simp: index_ok_def recover_ops_def Let_def key_eqs)
  show "url_inv (fmlookup ?db) u"
    by (rule url_invI [where get = "fmlookup ?db", OF k good]) (rule both, simp)+
  show "entry_at ?db u = Some ?en" by (rule entry_at_packed [OF k good])
qed

lemma rekey_ops_effect:
  assumes inv: "frontier_inv db" and row: "queued_row db host u (case src of None \<Rightarrow> 0 | Some l \<Rightarrow> l) (src = None)"
    and en: "entry_at db u = Some en" and lane: "lane < lane_count" "fe_lane en \<noteq> lane"
  shows "local_ops u (rekey_ops host lane src u en)"
    and "url_inv (fmlookup (apply_batch (rekey_ops host lane src u en) db)) u"
    and "entry_at (apply_batch (rekey_ops host lane src u en) db) u = Some (en\<lparr>fe_lane := lane\<rparr>)"
proof -
  let ?db = "apply_batch (rekey_ops host lane src u en) db"
  let ?en = "en\<lparr>fe_lane := lane\<rparr>"
  note i = invD [OF inv en]
  have h: "index_host (extract_host u)" by (rule extract_host_index_host [OF i(1)])
  from row en have r: "host = extract_host u" "fe_status en = st_queued"
    "case src of None \<Rightarrow> fmlookup db (frontier_status_index_key st_queued host u) \<noteq> None
     | Some l \<Rightarrow> l = fe_lane en
       \<and> fmlookup db (frontier_status_index_key_lane st_queued l host u) \<noteq> None"
    by (auto simp: queued_row_def split: option.splits)
  have l: "fe_lane en < lane_count" using i(2) by (simp add: entry_good_def)
  have good: "entry_good u ?en"
    using i(2) lane(1) by (simp add: entry_good_update)
  show "local_ops u (rekey_ops host lane src u en)"
    using r l lane by (intro local_opsI) (auto simp: rekey_ops_def split: option.splits)
  have k: "fmlookup ?db (frontier_key u) = Some (pack_frontier_entry ?en)"
    by (simp add: rekey_ops_def)
  have both: "index_ok (fmlookup ?db) u s (Some ?en)" if "s \<in> {st_queued, st_in_flight}" for s
    using i(3,4) h l r that lane
    by (cases src) (auto simp: index_ok_def rekey_ops_def key_eqs)
  show "url_inv (fmlookup ?db) u"
    by (rule url_invI [where get = "fmlookup ?db", OF k good]) (rule both, simp)+
  show "entry_at ?db u = Some ?en" by (rule entry_at_packed [OF k good])
qed

section \<open>The operations\<close>

text \<open>A commit of a URL-local batch: the invariant and the effect, once for every operation.\<close>

lemma commit_local:
  assumes inv: "frontier_inv (ps_db s)" and c: "canonical_url u" and loc: "local_ops u ops"
    and after: "url_inv (fmlookup (apply_batch ops (ps_db s))) u"
    and eff: "entry_at (apply_batch ops (ps_db s)) u = x"
    and com: "commit e ops s = Inr s'"
  shows "frontier_inv (ps_db s')" and "entry_at (ps_db s') = (entry_at (ps_db s))(u := x)"
    and "ps_lane_cursors s' = ps_lane_cursors s" and "ps_frontier_cursor s' = ps_frontier_cursor s"
    and "ps_lane_tick s' = ps_lane_tick s"
proof -
  have s': "s' = s\<lparr>ps_db := apply_batch ops (ps_db s)\<rparr>"
    using com by (simp add: commit_def split: if_splits)
  show "frontier_inv (ps_db s')" using local_ops_inv [OF inv c loc after] by (simp add: s')
  show "entry_at (ps_db s') = (entry_at (ps_db s))(u := x)"
    using entry_at_local [OF loc eff] by (simp add: s')
qed (use com in \<open>auto simp: commit_def split: if_splits\<close>)

lemma clamp_lane_less [simp]: "clamp_lane l < lane_count"
  by (simp add: clamp_lane_def lane_defs)

lemma push_frontier_lane_effect:
  assumes inv: "frontier_inv (ps_db s)" and u: "canonical_url u"
    and ok: "is_i64 depth" "is_i64 (clock e)" "pri < 2 ^ 64"
    and run: "push_frontier_lane e u depth lane pri s = (r, s')"
  shows "frontier_inv (ps_db s')"
    and "entry_at (ps_db s') = (if r = Inr () \<and> entry_at (ps_db s) u = None
      then (entry_at (ps_db s))(u \<mapsto> queued_entry depth pri (clock e) (extract_host u) (clamp_lane lane))
      else entry_at (ps_db s))"
    and "quiet e \<Longrightarrow> r = Inr ()"
proof -
  let ?ops = "push_ops (clock e) u depth pri (clamp_lane lane)"
  let ?en = "queued_entry depth pri (clock e) (extract_host u) (clamp_lane lane)"
  note new = inv_entry_None [OF inv u]
  have loc: "local_ops u ?ops" by (rule push_ops_local) simp
  have good: "entry_good u ?en" by (rule queued_entry_good) (use u ok in simp_all)
  have *: "frontier_inv (ps_db s')
    \<and> entry_at (ps_db s') = (entry_at (ps_db s))(u \<mapsto> ?en)"
    if "fmlookup (ps_db s) (frontier_key u) = None" "commit e ?ops s = Inr s'"
    using push_ops_effect [OF inv u that(1) good] commit_local [OF inv u loc _ _ that(2)] by blast
  show "frontier_inv (ps_db s')"
    using run inv * by (auto simp: push_frontier_lane_def Let_def split: if_splits sum.splits)
  show "entry_at (ps_db s') = (if r = Inr () \<and> entry_at (ps_db s) u = None
      then (entry_at (ps_db s))(u \<mapsto> ?en) else entry_at (ps_db s))"
    using run * new by (auto simp: push_frontier_lane_def Let_def split: if_splits sum.splits)
  show "quiet e \<Longrightarrow> r = Inr ()"
    using run
    by (auto simp: push_frontier_lane_def Let_def commit_def split: if_splits sum.splits)
qed

lemma get_entry_Inr: "get_entry e db u = Inr en \<Longrightarrow> entry_at db u = Some en"
  by (auto simp: get_entry_def entry_at_def split: if_splits option.splits sum.splits)

lemma get_entry_quiet:
  "quiet e \<Longrightarrow> entry_at db u = Some en \<Longrightarrow> get_entry e db u = Inr en"
  by (auto simp: get_entry_def entry_at_def split: if_splits option.splits sum.splits)

lemma transition_frontier_effect:
  assumes inv: "frontier_inv (ps_db s)" and st: "st \<in> statuses" and msg: "length msg < 2 ^ 63"
    and run: "transition_frontier e u st msg s = (r, s')"
  shows "frontier_inv (ps_db s')"
    and "entry_at (ps_db s') = (case r of Inl _ \<Rightarrow> entry_at (ps_db s)
      | Inr _ \<Rightarrow> (entry_at (ps_db s))(u := map_option (transition_entry st msg) (entry_at (ps_db s) u)))"
    and "r = Inr () \<Longrightarrow> entry_at (ps_db s) u \<noteq> None"
    and "quiet e \<Longrightarrow> entry_at (ps_db s) u \<noteq> None \<Longrightarrow> r = Inr ()"
proof -
  have *: "frontier_inv (ps_db s') \<and> entry_at (ps_db s') =
      (entry_at (ps_db s))(u := map_option (transition_entry st msg) (entry_at (ps_db s) u))"
    if en: "get_entry e (ps_db s) u = Inr en" and com: "commit e (transition_ops st msg u en) s = Inr s'"
    for en
  proof -
    note a = get_entry_Inr [OF en]
    note i = invD [OF inv a]
    have loc: "local_ops u (transition_ops st msg u en)" by (rule transition_ops_local [OF i(2)])
    from transition_ops_effect [OF inv a st msg] commit_local [OF inv i(1) loc _ _ com] a
    show ?thesis by simp
  qed
  show "frontier_inv (ps_db s')"
    using run inv * by (auto simp: transition_frontier_def split: if_splits sum.splits)
  show "entry_at (ps_db s') = (case r of Inl _ \<Rightarrow> entry_at (ps_db s)
      | Inr _ \<Rightarrow> (entry_at (ps_db s))(u := map_option (transition_entry st msg) (entry_at (ps_db s) u)))"
    using run * by (auto simp: transition_frontier_def split: if_splits sum.splits)
  show "r = Inr () \<Longrightarrow> entry_at (ps_db s) u \<noteq> None"
    using run by (auto simp: transition_frontier_def split: if_splits sum.splits dest: get_entry_Inr)
  show "quiet e \<Longrightarrow> entry_at (ps_db s) u \<noteq> None \<Longrightarrow> r = Inr ()"
    using run get_entry_quiet [of e "ps_db s" u]
    by (auto simp: transition_frontier_def commit_def split: if_splits sum.splits)
qed

lemmas complete_frontier_effect = transition_frontier_effect
  [where st = st_done and msg = "[]", folded complete_frontier_def, simplified]

lemmas recrawl_url_effect = transition_frontier_effect
  [where st = st_queued and msg = "[]", folded recrawl_url_def, simplified]

text \<open>The message \<open>FailFrontier\<close> stores: at most 500 bytes.\<close>

definition clip_error :: "bytes \<Rightarrow> bytes" where
  "clip_error m = (if 500 < length m then take (500 - 3) m @ ''...'' else m)"

lemma length_clip_error: "length (clip_error m) \<le> 500"
  by (simp add: clip_error_def)

lemma fail_frontier_clip:
  "fail_frontier e u m s = transition_frontier e u st_error (clip_error m) s"
  by (simp add: fail_frontier_def clip_error_def)

lemma fail_frontier_effect:
  assumes "frontier_inv (ps_db s)" and "fail_frontier e u m s = (r, s')"
  shows "frontier_inv (ps_db s')"
    and "entry_at (ps_db s') = (case r of Inl _ \<Rightarrow> entry_at (ps_db s)
      | Inr _ \<Rightarrow> (entry_at (ps_db s))
          (u := map_option (transition_entry st_error (clip_error m)) (entry_at (ps_db s) u)))"
    and "r = Inr () \<Longrightarrow> entry_at (ps_db s) u \<noteq> None"
    and "quiet e \<Longrightarrow> entry_at (ps_db s) u \<noteq> None \<Longrightarrow> r = Inr ()"
proof -
  have l: "length (clip_error m) < 2 ^ 63" using length_clip_error [of m] by simp
  note t = transition_frontier_effect [OF assms(1) _ l assms(2) [unfolded fail_frontier_clip], simplified]
  show "frontier_inv (ps_db s')"
    and "entry_at (ps_db s') = (case r of Inl _ \<Rightarrow> entry_at (ps_db s)
      | Inr _ \<Rightarrow> (entry_at (ps_db s))
          (u := map_option (transition_entry st_error (clip_error m)) (entry_at (ps_db s) u)))"
    and "r = Inr () \<Longrightarrow> entry_at (ps_db s) u \<noteq> None"
    and "quiet e \<Longrightarrow> entry_at (ps_db s) u \<noteq> None \<Longrightarrow> r = Inr ()"
    using t by simp_all
qed

end
