(* ===== verification/FrontierClaim.thy ===== *)
theory FrontierClaim
  imports FrontierOps
begin

text \<open>
  Claiming: what the two index scans and the probe can return, and that a claim hands out a queued
  URL and only marks it in flight.
\<close>

section \<open>The scans\<close>

text \<open>The host and URL a scan reads from a key, if it does not skip the key.\<close>

definition key_row :: "(bytes \<Rightarrow> bytes) \<Rightarrow> nat \<Rightarrow> bytes \<Rightarrow> (bytes \<times> bytes) option" where
  "key_row host_of off k =
     (if host_of k = [] \<or> length k < off + length (host_of k) + 1 then None
      else Some (host_of k, drop (off + length (host_of k) + 1) k))"

lemma scan_keys_Cons:
  "scan_keys host_of off busy (k # ks) fb = (case key_row host_of off k of
     None \<Rightarrow> scan_keys host_of off busy ks fb
   | Some p \<Rightarrow> if fst p \<notin> set busy then (Some p, case fb of None \<Rightarrow> Some p | Some q \<Rightarrow> Some q)
       else scan_keys host_of off busy ks (case fb of None \<Rightarrow> Some p | Some q \<Rightarrow> Some q))"
  by (simp add: key_row_def Let_def)

declare scan_keys.simps(2) [simp del] scan_keys_Cons [simp]

lemma scan_keys_found:
  "scan_keys host_of off busy ks fb = (Some p, fb')
    \<Longrightarrow> (\<exists>k \<in> set ks. key_row host_of off k = Some p) \<and> fst p \<notin> set busy"
  by (induction ks arbitrary: fb) (auto split: if_splits option.splits)

lemma scan_keys_fallback:
  "scan_keys host_of off busy ks fb = (r, Some p)
    \<Longrightarrow> fb = Some p \<or> (\<exists>k \<in> set ks. key_row host_of off k = Some p)"
  by (induction ks arbitrary: fb) (fastforce split: if_splits option.splits)+

lemma scan_keys_keeps_fallback:
  "scan_keys host_of off busy ks (Some p) = (r, fb) \<Longrightarrow> fb = Some p"
  by (induction ks) (auto split: if_splits option.splits)

lemma scan_keys_complete:
  assumes "scan_keys host_of off busy ks fb = (None, fb')" and "k \<in> set ks"
    and "key_row host_of off k = Some p"
  shows "fst p \<in> set busy \<and> fb' \<noteq> None"
  using assms
proof (induction ks arbitrary: fb)
  case Nil
  then show ?case by simp
next
  case (Cons k' ks)
  show ?case
  proof (cases "k = k'")
    case True
    with Cons.prems show ?thesis
      by (auto split: if_splits option.splits dest: scan_keys_keeps_fallback)
  next
    case False
    then have "k \<in> set ks" using Cons.prems(2) by simp
    with Cons.prems Cons.IH show ?thesis
      by (auto split: if_splits option.splits)
  qed
qed

lemma scan_twice_sound:
  assumes "scan_twice host_of off busy from all = Some p" and "set from \<subseteq> set all"
  shows "\<exists>k \<in> set all. key_row host_of off k = Some p"
proof -
  obtain r fb where 1: "scan_keys host_of off busy from None = (r, fb)" by fastforce
  obtain r' fb' where 2: "scan_keys host_of off busy all fb = (r', fb')" by fastforce
  have "r = Some p \<or> (r' = Some p \<or> fb' = Some p)"
    using assms(1) 1 2 by (auto simp: scan_twice_def split: option.splits)
  then show ?thesis
  proof (elim disjE)
    assume "r = Some p"
    with scan_keys_found 1 assms(2) show ?thesis by blast
  next
    assume "r' = Some p"
    with scan_keys_found 2 show ?thesis by blast
  next
    assume "fb' = Some p"
    with 2 scan_keys_fallback have "fb = Some p \<or> (\<exists>k \<in> set all. key_row host_of off k = Some p)"
      by metis
    then show ?thesis using scan_keys_fallback [of host_of off busy "from" None r p] 1 assms(2) by auto
  qed
qed

lemma scan_twice_fair:
  assumes "scan_twice host_of off busy from all = Some p"
    and "k \<in> set all" and "key_row host_of off k = Some q" and "fst q \<notin> set busy"
  shows "fst p \<notin> set busy"
proof -
  obtain r fb where 1: "scan_keys host_of off busy from None = (r, fb)" by fastforce
  obtain r' fb' where 2: "scan_keys host_of off busy all fb = (r', fb')" by fastforce
  have "r' \<noteq> None"
  proof
    assume "r' = None"
    with 2 have "scan_keys host_of off busy all fb = (None, fb')" by simp
    from scan_keys_complete [OF this assms(2,3)] assms(4) show False by simp
  qed
  then have "r = Some p \<or> r' = Some p"
    using assms(1) 1 2 by (auto simp: scan_twice_def split: option.splits)
  then show ?thesis using scan_keys_found 1 2 by blast
qed

lemma scan_twice_complete:
  assumes "k \<in> set all" and "key_row host_of off k = Some q"
  shows "scan_twice host_of off busy from all \<noteq> None"
  using assms scan_keys_complete [of host_of off busy all _ _ k q]
  by (auto simp: scan_twice_def split: prod.splits option.splits)

section \<open>Which keys the scans see\<close>

lemma queued_index_key [consumes 4, case_names legacy lane]:
  assumes inv: "frontier_inv db" and k: "fmlookup db k \<noteq> None" and s: "k = CHR ''f'' # s # r"
    and st: "s \<in> {st_queued, st_in_flight}"
  obtains (legacy) u en where "canonical_url u" and "entry_at db u = Some en" and "fe_status en = s"
      and "k = frontier_status_index_key s (extract_host u) u"
    | (lane) u en where "canonical_url u" and "entry_at db u = Some en" and "fe_status en = s"
      and "k = frontier_status_index_key_lane s (fe_lane en) (extract_host u) u"
proof -
  from inv k s st obtain u where c: "canonical_url u" and i: "k \<in> index_keys u"
    unfolding frontier_inv_def by blast
  have h: "index_host (extract_host u)" by (rule extract_host_index_host [OF c])
  have none: "index_ok (fmlookup db) u st_queued None \<and> index_ok (fmlookup db) u st_in_flight None
      \<Longrightarrow> False"
    using i k by (cases rule: index_keysE) (auto simp: index_ok_def)
  have "fmlookup db (frontier_key u) \<noteq> None"
    using invD_None [OF inv c] none by blast
  then obtain en where en: "entry_at db u = Some en"
    using inv_entry_None [OF inv c] by fastforce
  note d = invD [OF inv en]
  from i show thesis
  proof (cases rule: index_keysE)
    case (legacy s')
    with s have "s' = s" by (simp add: frontier_status_index_key_def)
    with legacy d(3,4) k have "fe_status en = s"
      by (auto simp: index_ok_def split: if_splits)
    with legacy \<open>s' = s\<close> c en that(1) show thesis by simp
  next
    case (lane s' l)
    with s have "s' = s" by (simp add: frontier_status_index_key_lane_def)
    with lane d(3,4) k have "fe_status en = s" "l = fe_lane en"
      by (auto simp: index_ok_def split: if_splits)
    with lane \<open>s' = s\<close> c en that(2) show thesis by simp
  qed
qed

lemma lane_key_row [simp]:
  assumes "canonical_url u"
  shows "key_row frontier_status_index_host_lane 3
      (frontier_status_index_key_lane s l (extract_host u) u) = Some (extract_host u, u)"
proof -
  have h: "index_host (extract_host u)" by (rule extract_host_index_host [OF assms])
  have "drop (3 + length (extract_host u) + 1) (frontier_status_index_key_lane s l (extract_host u) u) = u"
    by (simp add: frontier_status_index_key_lane_def eval_nat_numeral)
  moreover have "length (frontier_status_index_key_lane s l (extract_host u) u)
      = 4 + length (extract_host u) + length u"
    by (simp add: frontier_status_index_key_lane_def)
  moreover have "extract_host u \<noteq> []" using h by (simp add: index_host_def)
  ultimately show ?thesis
    using index_key_lane_host [OF h, of s l u] by (simp add: key_row_def)
qed

lemma legacy_key_row [simp]:
  assumes "canonical_url u"
  shows "key_row frontier_status_index_host 2
      (frontier_status_index_key s (extract_host u) u) = Some (extract_host u, u)"
proof -
  have h: "index_host (extract_host u)" by (rule extract_host_index_host [OF assms])
  have "drop (2 + length (extract_host u) + 1) (frontier_status_index_key s (extract_host u) u) = u"
    by (simp add: frontier_status_index_key_def eval_nat_numeral)
  moreover have "length (frontier_status_index_key s (extract_host u) u)
      = 3 + length (extract_host u) + length u"
    by (simp add: frontier_status_index_key_def)
  moreover have "extract_host u \<noteq> []" using h by (simp add: index_host_def)
  ultimately show ?thesis
    using index_key_host [OF h, of s u] by (simp add: key_row_def)
qed

text \<open>The rows in a lane's range and in the legacy range, under the invariant.\<close>

lemma lane_scan_keys:
  assumes inv: "frontier_inv db" and l: "l < lane_count"
  shows "k \<in> set (kv_keys db (frontier_lane_prefix st_queued l) (frontier_lane_upper_bound st_queued l))
    \<longleftrightarrow> (\<exists>u. k = frontier_status_index_key_lane st_queued l (extract_host u) u
          \<and> canonical_url u \<and> queued_row db (extract_host u) u l False)"
proof
  assume "k \<in> set (kv_keys db (frontier_lane_prefix st_queued l) (frontier_lane_upper_bound st_queued l))"
  then obtain r where k: "fmlookup db k \<noteq> None" "k = CHR ''f'' # st_queued # char_of l # r"
    unfolding set_kv_keys using lane_range [OF l, of st_queued k] by blast
  have l256: "l < 256" using l by (simp add: lane_count_def)
  have q: "st_queued \<in> {st_queued, st_in_flight}" by simp
  from inv k(1,2) q show "\<exists>u. k = frontier_status_index_key_lane st_queued l (extract_host u) u
          \<and> canonical_url u \<and> queued_row db (extract_host u) u l False"
  proof (cases rule: queued_index_key)
    case (legacy u en)
    then have "index_host (extract_host u)" by (simp add: extract_host_index_host)
    then obtain c t where "extract_host u = c # t" "lane_count \<le> byte_val c"
      by (cases "extract_host u") (auto simp: index_host_def)
    with legacy k(2) have "byte_val (char_of l :: char) \<ge> lane_count"
      by (simp add: frontier_status_index_key_def)
    with l l256 show ?thesis by simp
  next
    case (lane u en)
    with k(2) have "char_of l = (char_of (fe_lane en) :: char)"
      by (simp add: frontier_status_index_key_lane_def)
    moreover have "fe_lane en < 256"
      using invD(2) [OF inv lane(2)] by (simp add: entry_good_def lane_count_def)
    ultimately have "l = fe_lane en"
      using l256 by (metis of_char_of mod_less)
    with lane k(1) show ?thesis by (auto simp: queued_row_def)
  qed
next
  assume "\<exists>u. k = frontier_status_index_key_lane st_queued l (extract_host u) u
          \<and> canonical_url u \<and> queued_row db (extract_host u) u l False"
  then show "k \<in> set (kv_keys db (frontier_lane_prefix st_queued l) (frontier_lane_upper_bound st_queued l))"
    using lane_range [OF l]
    by (auto simp: set_kv_keys queued_row_def frontier_status_index_key_lane_def)
qed

lemma legacy_scan_keys:
  assumes inv: "frontier_inv db"
  shows "k \<in> set (kv_keys db [CHR ''f'', CHR ''q'', char_of lane_count] [CHR ''f'', CHR ''r''])
    \<longleftrightarrow> (\<exists>u. k = frontier_status_index_key st_queued (extract_host u) u
          \<and> canonical_url u \<and> queued_row db (extract_host u) u l True)"
proof
  assume "k \<in> set (kv_keys db [CHR ''f'', CHR ''q'', char_of lane_count] [CHR ''f'', CHR ''r''])"
  then obtain r where k: "fmlookup db k \<noteq> None" "k = CHR ''f'' # st_queued # r"
      "[char_of lane_count] \<le> r"
    unfolding set_kv_keys using legacy_range [of k] by blast
  have q: "st_queued \<in> {st_queued, st_in_flight}" by simp
  from inv k(1,2) q show "\<exists>u. k = frontier_status_index_key st_queued (extract_host u) u
          \<and> canonical_url u \<and> queued_row db (extract_host u) u l True"
  proof (cases rule: queued_index_key)
    case (legacy u en)
    with k(1) show ?thesis by (auto simp: queued_row_def)
  next
    case (lane u en)
    then have r: "r = char_of (fe_lane en) # extract_host u @ CHR 0x00 # u"
      using k(2) by (simp add: frontier_status_index_key_lane_def)
    have "fe_lane en < lane_count"
      using invD(2) [OF inv lane(2)] by (simp add: entry_good_def)
    then have "(char_of (fe_lane en) :: char) < char_of lane_count"
      by (simp add: char_less_val lane_count_def)
    moreover have "a \<le> b" if "([a] :: bytes) \<le> b # w" for a b w
      using that by auto
    ultimately show ?thesis using r k(3) by (metis not_le)
  qed
next
  assume "\<exists>u. k = frontier_status_index_key st_queued (extract_host u) u
          \<and> canonical_url u \<and> queued_row db (extract_host u) u l True"
  then obtain u where u: "k = frontier_status_index_key st_queued (extract_host u) u"
    "canonical_url u" "queued_row db (extract_host u) u l True" by blast
  have "index_host (extract_host u)" by (rule extract_host_index_host [OF u(2)])
  then obtain c t where h: "extract_host u = c # t" "lane_count \<le> byte_val c"
    by (cases "extract_host u") (auto simp: index_host_def)
  then have "char_of lane_count \<le> c" by (simp add: char_le_val lane_count_def)
  then have "[char_of lane_count] \<le> extract_host u @ CHR 0x00 # u"
    using h by (cases "char_of lane_count = c") auto
  moreover have "fmlookup db k \<noteq> None" using u(1,3) by (auto simp: queued_row_def)
  ultimately show "k \<in> set (kv_keys db [CHR ''f'', CHR ''q'', char_of lane_count] [CHR ''f'', CHR ''r''])"
    using legacy_range [of k] u(1) by (simp add: set_kv_keys frontier_status_index_key_def)
qed

section \<open>The scanning functions\<close>

lemma scan_lane_sound:
  assumes inv: "frontier_inv (ps_db s)" and l: "l < lane_count"
    and run: "scan_lane_for_free_host e l busy s = (r, s')"
  shows "ps_db s' = ps_db s"
    and "r = Some (h, u) \<Longrightarrow> canonical_url u \<and> queued_row (ps_db s) h u l False"
    and "r = Some (h, u) \<Longrightarrow> canonical_url v \<Longrightarrow> queued_row (ps_db s) (extract_host v) v l False
      \<Longrightarrow> extract_host v \<notin> set busy \<Longrightarrow> h \<notin> set busy"
    and "quiet e \<Longrightarrow> r = None \<Longrightarrow> canonical_url v \<Longrightarrow> \<not> queued_row (ps_db s) (extract_host v) v l False"
proof -
  let ?lo = "frontier_lane_prefix st_queued l" and ?hi = "frontier_lane_upper_bound st_queued l"
  let ?all = "kv_keys (ps_db s) ?lo ?hi"
  let ?from = "if ps_lane_cursors s ! l \<noteq> [] then seek_ge ?all (ps_lane_cursors s ! l) else ?all"
  have sub: "set ?from \<subseteq> set ?all" using seek_ge_subset by auto
  have r: "r = (if iter_err e ?lo then None
      else scan_twice frontier_status_index_host_lane 3 busy ?from ?all)"
    using run by (auto simp: scan_lane_for_free_host_def Let_def split: if_splits option.splits)
  show "ps_db s' = ps_db s"
    using run by (auto simp: scan_lane_for_free_host_def Let_def split: if_splits option.splits)
  show "canonical_url u \<and> queued_row (ps_db s) h u l False" if "r = Some (h, u)"
  proof -
    from that r have t: "scan_twice frontier_status_index_host_lane 3 busy ?from ?all = Some (h, u)"
      by (cases "iter_err e ?lo") simp_all
    from scan_twice_sound [OF t sub] obtain k where k: "k \<in> set ?all"
      "key_row frontier_status_index_host_lane 3 k = Some (h, u)" by blast
    with lane_scan_keys [OF inv l, of k] show ?thesis by auto
  qed
  show "h \<notin> set busy" if "r = Some (h, u)" "canonical_url v"
    "queued_row (ps_db s) (extract_host v) v l False" "extract_host v \<notin> set busy"
  proof -
    from that r have t: "scan_twice frontier_status_index_host_lane 3 busy ?from ?all = Some (h, u)"
      by (cases "iter_err e ?lo") simp_all
    let ?k = "frontier_status_index_key_lane st_queued l (extract_host v) v"
    have "?k \<in> set ?all" using lane_scan_keys [OF inv l, of ?k] that by blast
    from scan_twice_fair [OF t this] that(2,4) show ?thesis by simp
  qed
  show "\<not> queued_row (ps_db s) (extract_host v) v l False" if "quiet e" "r = None" "canonical_url v"
  proof
    assume q: "queued_row (ps_db s) (extract_host v) v l False"
    let ?k = "frontier_status_index_key_lane st_queued l (extract_host v) v"
    have "?k \<in> set ?all" using lane_scan_keys [OF inv l, of ?k] that q by blast
    from scan_twice_complete [OF this lane_key_row [OF that(3)], of busy ?from] r that(1,2)
    show False by simp
  qed
qed

lemma scan_legacy_sound:
  assumes inv: "frontier_inv (ps_db s)"
    and run: "scan_legacy_for_free_host e busy s = (r, s')"
  shows "ps_db s' = ps_db s"
    and "r = Some (h, u) \<Longrightarrow> canonical_url u \<and> queued_row (ps_db s) h u l True"
    and "quiet e \<Longrightarrow> r = None \<Longrightarrow> canonical_url v \<Longrightarrow> \<not> queued_row (ps_db s) (extract_host v) v l True"
proof -
  let ?lo = "[CHR ''f'', CHR ''q'', char_of lane_count]" and ?hi = "[CHR ''f'', CHR ''r'']"
  let ?all = "kv_keys (ps_db s) ?lo ?hi"
  let ?from = "if ps_frontier_cursor s \<noteq> [] \<and> lane_count \<le> byte_val (ps_frontier_cursor s ! 2)
    then seek_ge ?all (ps_frontier_cursor s) else ?all"
  have sub: "set ?from \<subseteq> set ?all" using seek_ge_subset by auto
  have r: "r = (if iter_err e ?lo then None
      else scan_twice frontier_status_index_host 2 busy ?from ?all)"
    using run by (auto simp: scan_legacy_for_free_host_def Let_def split: if_splits option.splits)
  show "ps_db s' = ps_db s"
    using run by (auto simp: scan_legacy_for_free_host_def Let_def split: if_splits option.splits)
  show "canonical_url u \<and> queued_row (ps_db s) h u l True" if "r = Some (h, u)"
  proof -
    from that r have t: "scan_twice frontier_status_index_host 2 busy ?from ?all = Some (h, u)"
      by (cases "iter_err e ?lo") simp_all
    from scan_twice_sound [OF t sub] obtain k where k: "k \<in> set ?all"
      "key_row frontier_status_index_host 2 k = Some (h, u)" by blast
    with legacy_scan_keys [OF inv, of k l] show ?thesis by auto
  qed
  show "\<not> queued_row (ps_db s) (extract_host v) v l True" if "quiet e" "r = None" "canonical_url v"
  proof
    assume q: "queued_row (ps_db s) (extract_host v) v l True"
    let ?k = "frontier_status_index_key st_queued (extract_host v) v"
    have "?k \<in> set ?all" using legacy_scan_keys [OF inv, of ?k l] that q by blast
    from scan_twice_complete [OF this legacy_key_row [OF that(3)], of busy ?from] r that(1,2)
    show False by simp
  qed
qed

text \<open>The probe only swaps the picked URL for another queued one of the same host and index.\<close>

lemma probe_keys_sound:
  "probe_keys e db n p ks = Some u \<Longrightarrow> u \<noteq> [] \<and> (\<exists>k \<in> set ks. u = drop n k)"
  by (induction ks arbitrary: p)
    (auto simp: Let_def split: if_splits sum.splits option.splits)

lemma queued_key_row:
  assumes inv: "frontier_inv db" and h: "index_host h" and l: "\<not> legacy \<Longrightarrow> l < lane_count"
    and k: "fmlookup db (if legacy then frontier_status_index_key st_queued h u
      else frontier_status_index_key_lane st_queued l h u) \<noteq> None"
  shows "canonical_url u \<and> queued_row db h u l legacy"
proof (cases legacy)
  case True
  have q: "st_queued \<in> {st_queued, st_in_flight}" by simp
  from True k have k': "fmlookup db (frontier_status_index_key st_queued h u) \<noteq> None" by simp
  from inv k' frontier_status_index_key_def q show ?thesis
  proof (cases rule: queued_index_key)
    case (legacy v en)
    then have "h = extract_host v" "u = v"
      using h index_key_inj extract_host_index_host by metis+
    with legacy True k' show ?thesis by (auto simp: queued_row_def)
  next
    case (lane v en)
    have "fe_lane en < lane_count" using invD(2) [OF inv lane(2)] by (simp add: entry_good_def)
    with lane(4) h index_key_formats_differ show ?thesis by blast
  qed
next
  case False
  have q: "st_queued \<in> {st_queued, st_in_flight}" by simp
  from False k have k': "fmlookup db (frontier_status_index_key_lane st_queued l h u) \<noteq> None" by simp
  from inv k' frontier_status_index_key_lane_def q show ?thesis
  proof (cases rule: queued_index_key)
    case (legacy v en)
    with l [OF False] index_key_formats_differ extract_host_index_host show ?thesis by metis
  next
    case (lane v en)
    have "fe_lane en < lane_count" using invD(2) [OF inv lane(2)] by (simp add: entry_good_def)
    with lane(1,4) l [OF False] h have "h = extract_host v" "u = v" "l = fe_lane en"
      by (simp_all add: index_key_lane_inj extract_host_index_host)
    with lane False k' show ?thesis by (auto simp: queued_row_def)
  qed
qed

lemma probe_sound:
  assumes inv: "frontier_inv db" and h: "index_host h" and l: "\<not> legacy \<Longrightarrow> l < lane_count"
    and run: "probe_for_novel_url e db h l legacy = Some u"
  shows "canonical_url u \<and> queued_row db h u l legacy"
proof -
  let ?lo = "if legacy then host_prefix st_queued h else host_prefix_lane st_queued l h"
  let ?hi = "if legacy then host_upper st_queued h else host_upper_lane st_queued l h"
  from run have "probe_keys e db (length ?lo) 0 (kv_keys db ?lo ?hi) = Some u"
    unfolding probe_for_novel_url_def Let_def by (simp split: if_splits)
  from probe_keys_sound [OF this] obtain k where k: "k \<in> set (kv_keys db ?lo ?hi)"
    "u = drop (length ?lo) k" by blast
  then have "?lo \<le> k \<and> k < ?hi" and live: "fmlookup db k \<noteq> None" by (simp_all add: set_kv_keys)
  then obtain v where v: "k = (if legacy then frontier_status_index_key st_queued h v
      else frontier_status_index_key_lane st_queued l h v)"
    using host_range [of st_queued h k] host_range_lane [of st_queued l h k] by (auto split: if_splits)
  then have "u = v" using k(2)
    by (auto simp: host_prefix_def host_prefix_lane_def frontier_status_index_key_def
        frontier_status_index_key_lane_def)
  with queued_key_row [OF inv h l] v live show ?thesis by metis
qed

section \<open>Choosing a row\<close>

lemma pick_from_less:
  "i + length ws \<le> lane_count \<Longrightarrow> pick_from t acc i ws < lane_count"
  by (induction t acc i ws rule: pick_from.induct) (auto simp: lane_defs)

lemma pick_lane_simps:
  assumes "pick_lane s = (l, s')"
  shows "l < lane_count" and "ps_db s' = ps_db s"
  using assms pick_from_less [of 0 lane_weights]
  by (auto simp: pick_lane_def Let_def lane_weights_def lane_count_def split: if_splits)

lemma lanes_tried: "l < lane_count \<Longrightarrow> set (l # lane_order_without l) = {0..<lane_count}"
  by (auto simp: lane_order_without_def lane_order_def lane_defs)

lemma try_lanes_sound:
  assumes "frontier_inv (ps_db s)" and "\<forall>l \<in> set ls. l < lane_count"
    and "try_lanes e busy ls s = (r, s')"
  shows "ps_db s' = ps_db s \<and> (\<forall>h u l. r = Some (h, u, l) \<longrightarrow>
        l \<in> set ls \<and> canonical_url u \<and> queued_row (ps_db s) h u l False)
    \<and> (quiet e \<longrightarrow> r = None \<longrightarrow> (\<forall>l \<in> set ls. \<forall>v. canonical_url v \<longrightarrow>
        \<not> queued_row (ps_db s) (extract_host v) v l False))"
  using assms
proof (induction ls arbitrary: s)
  case Nil
  then show ?case by simp
next
  case (Cons l ls)
  obtain q s1 where q: "scan_lane_for_free_host e l busy s = (q, s1)" by fastforce
  have l: "l < lane_count" using Cons.prems(2) by simp
  note c = scan_lane_sound [OF Cons.prems(1) l q]
  show ?case
  proof (cases q)
    case None
    then have "try_lanes e busy ls s1 = (r, s')" using Cons.prems(3) q by simp
    from Cons.IH [OF _ _ this] Cons.prems(1,2) c(1)
    have ih: "ps_db s' = ps_db s \<and> (\<forall>h u l. r = Some (h, u, l) \<longrightarrow>
        l \<in> set ls \<and> canonical_url u \<and> queued_row (ps_db s) h u l False)
    \<and> (quiet e \<longrightarrow> r = None \<longrightarrow> (\<forall>l \<in> set ls. \<forall>v. canonical_url v \<longrightarrow>
        \<not> queued_row (ps_db s) (extract_host v) v l False))" by simp
    with c(4) None show ?thesis by simp
  next
    case (Some p)
    then obtain h u where "q = Some (h, u)" by (cases p) simp
    with Cons.prems(3) q c(1,2) show ?thesis by auto
  qed
qed

lemma pick_row_sound:
  assumes inv: "frontier_inv (ps_db s)" and run: "pick_row e s = (r, s')"
  shows "ps_db s' = ps_db s"
    and "r = Some (h, u, l, legacy) \<Longrightarrow> canonical_url u \<and> queued_row (ps_db s) h u l legacy
      \<and> (\<not> legacy \<longrightarrow> l < lane_count)"
    and "quiet e \<Longrightarrow> r = None \<Longrightarrow> canonical_url v
      \<Longrightarrow> \<not> queued_row (ps_db s) (extract_host v) v lv lg \<or> \<not> lg \<and> lane_count \<le> lv"
proof -
  let ?busy = "inflight_hosts (ps_db s)"
  obtain c s1 where 1: "pick_lane s = (c, s1)" by fastforce
  obtain q s2 where 2: "try_lanes e ?busy (c # lane_order_without c) s1 = (q, s2)" by fastforce
  obtain q' s3 where 3: "scan_legacy_for_free_host e ?busy s2 = (q', s3)" by fastforce
  note p = pick_lane_simps [OF 1]
  have lt: "\<forall>l \<in> set (c # lane_order_without c). l < lane_count"
    using lanes_tried [OF p(1)] by simp
  have inv1: "frontier_inv (ps_db s1)" using inv p(2) by simp
  note t = try_lanes_sound [OF inv1 lt 2]
  have inv2: "frontier_inv (ps_db s2)" using t inv1 by simp
  note g = scan_legacy_sound [OF inv2 3]
  have db: "ps_db s2 = ps_db s" "ps_db s3 = ps_db s" using t g(1) p(2) by simp_all
  have nonempty: "canonical_url u \<Longrightarrow> u \<noteq> []" for u
    by (auto simp: canonical_url_def extract_host_def)
  have r: "pick_row e s = (case q of Some (h, u, l) \<Rightarrow> (Some (h, u, l, False), s2)
     | None \<Rightarrow> (case q' of Some (h', u') \<Rightarrow> (Some (h', u', 0, True), s3) | None \<Rightarrow> (None, s3)))"
  proof (cases q)
    case None
    then show ?thesis using 1 2 3 g(2) nonempty
      by (auto simp: pick_row_def Let_def split: option.splits)
  next
    case (Some x)
    then obtain h' u' l' where x: "q = Some (h', u', l')" by (cases x) auto
    with t have "u' \<noteq> []" using nonempty by blast
    with x show ?thesis using 1 2 by (simp add: pick_row_def Let_def)
  qed
  show "ps_db s' = ps_db s" using run r db by (auto split: option.splits)
  show "canonical_url u \<and> queued_row (ps_db s) h u l legacy \<and> (\<not> legacy \<longrightarrow> l < lane_count)"
    if "r = Some (h, u, l, legacy)"
  proof (cases q)
    case None
    with r run that have "q' = Some (h, u)" "legacy" by (auto split: option.splits)
    with g(2) [of h u] db have "canonical_url u \<and> queued_row (ps_db s) h u l True"
      unfolding queued_row_def by auto
    with \<open>legacy\<close> show ?thesis by simp
  next
    case (Some x)
    with r run that have "q = Some (h, u, l)" "\<not> legacy" by (auto split: option.splits prod.splits)
    with t lt p(2) show ?thesis by auto
  qed
  show "\<not> queued_row (ps_db s) (extract_host v) v lv lg \<or> \<not> lg \<and> lane_count \<le> lv"
    if "quiet e" "r = None" "canonical_url v"
  proof -
    have n: "q = None" "q' = None" using r run that(2) by (auto split: option.splits)
    with g(3) [of v] that db have a: "\<not> queued_row (ps_db s) (extract_host v) v lv True"
      by (simp add: queued_row_def)
    have "\<not> queued_row (ps_db s) (extract_host v) v lv False" if "lv < lane_count"
    proof -
      have "lv \<in> set (c # lane_order_without c)" using lanes_tried [OF p(1)] that by simp
      with t n \<open>quiet e\<close> \<open>canonical_url v\<close> p(2) show ?thesis by metis
    qed
    with a show ?thesis by (cases lg; cases "lv < lane_count") auto
  qed
qed

section \<open>The claim\<close>

text \<open>Every queued URL has exactly one queued index row, so a scan can see it.\<close>

lemma queued_has_row:
  assumes inv: "frontier_inv db" and en: "entry_at db u = Some en" and st: "fe_status en = st_queued"
  shows "queued_row db (extract_host u) u l True \<or> queued_row db (extract_host u) u (fe_lane en) False"
  using invD [OF inv en] en st by (auto simp: index_ok_def queued_row_def)

lemma queued_rowD:
  "queued_row db h u l legacy \<Longrightarrow> h = extract_host u \<and> (\<exists>en. entry_at db u = Some en
    \<and> fe_status en = st_queued)"
  by (auto simp: queued_row_def)

definition no_queued :: "(bytes \<Rightarrow> frontier_entry option) \<Rightarrow> bool" where
  "no_queued f = (\<forall>u en. f u = Some en \<longrightarrow> fe_status en \<noteq> st_queued)"

lemma claim_frontier_effect:
  assumes inv: "frontier_inv (ps_db s)" and run: "claim_frontier e s = (r, s')"
  shows "frontier_inv (ps_db s')"
    and "r = Inr (Some it) \<Longrightarrow> \<exists>en. entry_at (ps_db s) (fi_url it) = Some en
        \<and> fe_status en = st_queued \<and> fi_depth it = fe_depth en \<and> fi_priority it = fe_priority en
        \<and> entry_at (ps_db s') = (entry_at (ps_db s))(fi_url it \<mapsto> en\<lparr>fe_status := st_in_flight\<rparr>)"
    and "\<not> (\<exists>it. r = Inr (Some it)) \<Longrightarrow> ps_db s' = ps_db s"
    and "quiet e \<Longrightarrow> r \<noteq> Inr None \<longleftrightarrow> (\<exists>it. r = Inr (Some it))"
    and "quiet e \<Longrightarrow> r = Inr None \<longleftrightarrow> no_queued (entry_at (ps_db s))"
proof -
  obtain q s1 where q: "pick_row e s = (q, s1)" by fastforce
  note p = pick_row_sound [OF inv q]
  have "frontier_inv (ps_db s') \<and> (\<forall>it. r = Inr (Some it) \<longrightarrow> (\<exists>en. entry_at (ps_db s) (fi_url it) = Some en
        \<and> fe_status en = st_queued \<and> fi_depth it = fe_depth en \<and> fi_priority it = fe_priority en
        \<and> entry_at (ps_db s') = (entry_at (ps_db s))(fi_url it \<mapsto> en\<lparr>fe_status := st_in_flight\<rparr>)))
    \<and> ((\<forall>it. r \<noteq> Inr (Some it)) \<longrightarrow> ps_db s' = ps_db s)
    \<and> (quiet e \<longrightarrow> (if q = None then r = Inr None else (\<exists>it. r = Inr (Some it))))"
    (is "?A \<and> ?B \<and> ?C \<and> ?D")
  proof (cases "ctx_err e \<or> iter_err e ''fi'' \<or> q = None")
    case True
    then show ?thesis using run q p(1) inv by (auto simp: claim_frontier_def split: if_splits)
  next
    case False
    then obtain h u0 l legacy where qs: "q = Some (h, u0, l, legacy)" by (cases q) auto
    from p(2) [OF qs] have c0: "canonical_url u0" and row0: "queued_row (ps_db s) h u0 l legacy"
      and l: "\<not> legacy \<Longrightarrow> l < lane_count" by auto
    have h: "h = extract_host u0" using queued_rowD [OF row0] by simp
    have ih: "index_host h" using extract_host_index_host [OF c0] h by simp
    then have hn: "h \<noteq> []" by (simp add: index_host_def)
    define u where "u = (case probe_for_novel_url e (ps_db s1) h l legacy of None \<Rightarrow> u0 | Some v \<Rightarrow> v)"
    have uc: "canonical_url u \<and> queued_row (ps_db s) h u l legacy"
      using c0 row0 probe_sound [OF inv ih l] p(1) by (auto simp: u_def split: option.splits)
    then obtain en where en: "entry_at (ps_db s) u = Some en" "fe_status en = st_queued"
      using queued_rowD by blast
    have run': "claim_frontier e s = (case get_entry e (ps_db s) u of
        Inl x \<Rightarrow> (Inl x, s1)
      | Inr en \<Rightarrow> (case commit e (claim_ops en h u l legacy) s1 of
           Inl x \<Rightarrow> (Inl x, s1)
         | Inr s2 \<Rightarrow> (Inr (Some \<lparr>fi_url = u, fi_depth = fe_depth en, fi_priority = fe_priority en\<rparr>), s2)))"
      using False q qs hn by (simp add: claim_frontier_def u_def [symmetric] Let_def p(1) [symmetric]
          split: sum.split)
    show ?thesis
    proof (cases "get_entry e (ps_db s) u")
      case (Inl x)
      then show ?thesis using run run' p(1) inv en get_entry_quiet False by auto
    next
      case (Inr en')
      with en have en': "en' = en" using get_entry_Inr by fastforce
      have inv1: "frontier_inv (ps_db s1)" and row1: "queued_row (ps_db s1) h u l legacy"
        and e1: "entry_at (ps_db s1) u = Some en" using inv uc en p(1) by simp_all
      note k = claim_ops_effect [OF inv1 row1 e1]
      show ?thesis
      proof (cases "commit e (claim_ops en h u l legacy) s1")
        case (Inl x)
        then have "commit_err e" by (simp add: commit_def split: if_splits)
        then show ?thesis using run run' Inl Inr en' p(1) inv by auto
      next
        case (Inr s2)
        from commit_local [OF inv1 _ k Inr] uc
        have "frontier_inv (ps_db s2)"
          "entry_at (ps_db s2) = (entry_at (ps_db s))(u \<mapsto> en\<lparr>fe_status := st_in_flight\<rparr>)"
          using p(1) by simp_all
        then show ?thesis
          using run run' Inr \<open>get_entry e (ps_db s) u = Inr en'\<close> en' en False by auto
      qed
    qed
  qed
  then have A: ?A and B: ?B and C: ?C and D: ?D by blast+
  show "frontier_inv (ps_db s')" by (rule A)
  show "r = Inr (Some it) \<Longrightarrow> \<exists>en. entry_at (ps_db s) (fi_url it) = Some en
        \<and> fe_status en = st_queued \<and> fi_depth it = fe_depth en \<and> fi_priority it = fe_priority en
        \<and> entry_at (ps_db s') = (entry_at (ps_db s))(fi_url it \<mapsto> en\<lparr>fe_status := st_in_flight\<rparr>)"
    using B by blast
  show "\<not> (\<exists>it. r = Inr (Some it)) \<Longrightarrow> ps_db s' = ps_db s" using C by blast
  show "quiet e \<Longrightarrow> r \<noteq> Inr None \<longleftrightarrow> (\<exists>it. r = Inr (Some it))"
    using D by (auto split: if_splits)
  show "r = Inr None \<longleftrightarrow> no_queued (entry_at (ps_db s))" if "quiet e"
  proof
    assume "r = Inr None"
    with D that have n: "q = None" by (auto split: if_splits)
    show "no_queued (entry_at (ps_db s))"
      unfolding no_queued_def
    proof (intro allI impI notI)
      fix u en assume u: "entry_at (ps_db s) u = Some en" "fe_status en = st_queued"
      note i = invD [OF inv u(1)]
      have "fe_lane en < lane_count" using i(2) by (simp add: entry_good_def)
      with queued_has_row [OF inv u, of 0] p(3) [OF that n i(1)] show False by fastforce
    qed
  next
    assume nq: "no_queued (entry_at (ps_db s))"
    show "r = Inr None"
    proof (rule ccontr)
      assume "r \<noteq> Inr None"
      with D that obtain it where "r = Inr (Some it)" by (auto split: if_splits)
      with B nq show False unfolding no_queued_def by blast
    qed
  qed
qed

end
