(* ===== verification/FrontierMaint.thy ===== *)
theory FrontierMaint
  imports FrontierClaim
begin

text \<open>
  The operations of the frontier that rewrite many rows in one batch: batch push, recovery after a
  crash, the stale-index sweep, purging and demoting a host, clearing, and the statistics.
\<close>

section \<open>Batches over many URLs\<close>

lemma snapshot_batch_entry:
  assumes sb: "snapshot_batch ps"
    and part: "\<And>u ops. (u, ops) \<in> set ps \<Longrightarrow> entry_at (apply_batch ops db) u = f u"
  shows "entry_at (apply_batch (concat (map snd ps)) db)
    = (\<lambda>u. if u \<in> fst ` set ps then f u else entry_at db u)"
proof
  fix u
  show "entry_at (apply_batch (concat (map snd ps)) db) u
    = (if u \<in> fst ` set ps then f u else entry_at db u)"
  proof (cases "u \<in> fst ` set ps")
    case True
    then obtain ops where p: "(u, ops) \<in> set ps" by auto
    have "fmlookup (apply_batch (concat (map snd ps)) db) (frontier_key u)
        = fmlookup (apply_batch ops db) (frontier_key u)"
      by (rule snapshot_batch_part [OF sb p]) simp
    then have "entry_at (apply_batch (concat (map snd ps)) db) u = entry_at (apply_batch ops db) u"
      by (rule entry_at_cong)
    with part [OF p] True show ?thesis by simp
  next
    case False
    have "fmlookup (apply_batch (concat (map snd ps)) db) (frontier_key u)
        = fmlookup db (frontier_key u)"
    proof (rule lookup_batch_untouched)
      fix b assume "b \<in> set (concat (map snd ps))"
      then obtain v ops where v: "(v, ops) \<in> set ps" "b \<in> set ops" by auto
      with sb have "local_ops v ops" by (auto simp: snapshot_batch_def)
      moreover have "u \<noteq> v" using False v(1) by force
      then have "frontier_key u \<notin> url_keys v" by (simp add: url_keys_def)
      ultimately show "\<not> touches b (frontier_key u)" using v(2) by (auto simp: local_ops_def)
    qed
    then have "entry_at (apply_batch (concat (map snd ps)) db) u = entry_at db u"
      by (rule entry_at_cong)
    with False show ?thesis by simp
  qed
qed

text \<open>The rows of the frontier family are the keys \<open>fu\<close>.\<close>

lemma frontier_rows: "set (kv_keys db ''fu'' ''fv'') = frontier_key ` {u. fmlookup db (frontier_key u) \<noteq> None}"
proof -
  have "byte_val (CHR ''v'') = Suc (byte_val (CHR ''u''))" by simp
  from sub_range [OF this] have *: "(''fu'' \<le> k \<and> k < ''fv'') = (\<exists>r. k = frontier_key r)" for k
    by (simp add: frontier_key_def)
  have i: "k \<in> set (kv_keys db ''fu'' ''fv'') \<longleftrightarrow> (\<exists>r. k = frontier_key r) \<and> fmlookup db k \<noteq> None" for k
    by (simp only: set_kv_keys mem_Collect_eq conj_assoc [symmetric] *)
  show ?thesis
  proof (intro set_eqI iffI)
    fix k assume "k \<in> set (kv_keys db ''fu'' ''fv'')"
    then obtain r where "k = frontier_key r" "fmlookup db k \<noteq> None" unfolding i by (elim conjE exE)
    then show "k \<in> frontier_key ` {u. fmlookup db (frontier_key u) \<noteq> None}"
      by (intro image_eqI [of _ _ r]) simp_all
  next
    fix k assume "k \<in> frontier_key ` {u. fmlookup db (frontier_key u) \<noteq> None}"
    then obtain r where "k = frontier_key r" "fmlookup db (frontier_key r) \<noteq> None"
      by (elim imageE CollectE)
    then show "k \<in> set (kv_keys db ''fu'' ''fv'')" unfolding i by (intro conjI exI) simp_all
  qed
qed

section \<open>Batch push\<close>

definition new_items :: "bytes kv \<Rightarrow> frontier_push_item list \<Rightarrow> frontier_push_item list" where
  "new_items db its = filter (\<lambda>it. pi_url it \<noteq> [] \<and> fmlookup db (frontier_key (pi_url it)) = None) its"

definition item_ops :: "env \<Rightarrow> frontier_push_item \<Rightarrow> bytes bop list" where
  "item_ops e it = push_ops (clock e) (pi_url it) (pi_depth it) (pi_priority it) (clamp_lane (pi_lane it))"

definition item_entry :: "env \<Rightarrow> frontier_push_item \<Rightarrow> frontier_entry" where
  "item_entry e it = queued_entry (pi_depth it) (pi_priority it) (clock e) (extract_host (pi_url it))
     (clamp_lane (pi_lane it))"

definition item_ok :: "frontier_push_item \<Rightarrow> bool" where
  "item_ok it = ((pi_url it = [] \<or> canonical_url (pi_url it)) \<and> is_i64 (pi_depth it)
     \<and> pi_priority it < 2 ^ 64)"

lemma push_batch_loop_Inr:
  "push_batch_loop e db its ops n = Inr (ops', m)
    \<Longrightarrow> ops' = ops @ concat (map (item_ops e) (new_items db its)) \<and> m = n + length (new_items db its)"
proof (induction its arbitrary: ops n)
  case Nil
  then show ?case by (simp add: new_items_def)
next
  case (Cons it its)
  show ?case
    using Cons.prems Cons.IH [of ops n] Cons.IH [of "ops @ item_ops e it" "Suc n"]
    by (auto simp: new_items_def item_ops_def Let_def split: if_splits)
qed

lemma find_distinct:
  "distinct (map f xs) \<Longrightarrow> x \<in> set xs \<Longrightarrow> find (\<lambda>y. f y = f x) xs = Some x"
  by (induction xs) auto

lemma find_SomeD: "find P xs = Some x \<Longrightarrow> x \<in> set xs \<and> P x"
  by (induction xs) (auto split: if_splits)

lemma push_batch_loop_quiet: "quiet e \<Longrightarrow> \<exists>r. push_batch_loop e db its ops n = Inr r"
  by (induction its arbitrary: ops n) (auto simp: Let_def)

lemma push_frontier_batch_effect:
  assumes inv: "frontier_inv (ps_db s)" and ok: "\<forall>it \<in> set its. item_ok it"
    and dist: "distinct (map pi_url its)" and now: "is_i64 (clock e)"
    and run: "push_frontier_batch e its s = ((n, x), s')"
  shows "frontier_inv (ps_db s')"
    and "x = None \<Longrightarrow> n = length (new_items (ps_db s) its)"
    and "x = None \<Longrightarrow> entry_at (ps_db s') = (\<lambda>u. case find (\<lambda>it. pi_url it = u) (new_items (ps_db s) its) of
        Some it \<Rightarrow> Some (item_entry e it) | None \<Rightarrow> entry_at (ps_db s) u)"
    and "x \<noteq> None \<Longrightarrow> ps_db s' = ps_db s"
    and "quiet e \<Longrightarrow> x = None"
proof -
  let ?new = "new_items (ps_db s) its"
  let ?ps = "map (\<lambda>it. (pi_url it, item_ops e it)) ?new"
  have cat: "concat (map snd ?ps) = concat (map (item_ops e) ?new)" by (simp add: comp_def)
  have newD: "canonical_url (pi_url it) \<and> fmlookup (ps_db s) (frontier_key (pi_url it)) = None
      \<and> entry_good (pi_url it) (item_entry e it)" if "it \<in> set ?new" for it
    using that ok now queued_entry_good [of "pi_url it" "clamp_lane (pi_lane it)"]
    by (auto simp: new_items_def item_ok_def item_entry_def)
  have dn: "distinct (map pi_url ?new)"
    using dist by (simp add: new_items_def distinct_map_filter)
  have sb: "snapshot_batch ?ps"
    unfolding snapshot_batch_def
    using dn newD by (auto simp: comp_def item_ops_def intro!: push_ops_local)
  have part: "url_inv (fmlookup (apply_batch (item_ops e it) (ps_db s))) (pi_url it)
      \<and> entry_at (apply_batch (item_ops e it) (ps_db s)) (pi_url it) = Some (item_entry e it)"
    if "it \<in> set ?new" for it
    using push_ops_effect [OF inv] newD [OF that] by (auto simp: item_ops_def item_entry_def)
  define f where "f u = map_option (item_entry e) (find (\<lambda>it. pi_url it = u) ?new)" for u
  have find: "find (\<lambda>it. pi_url it = pi_url i) ?new = Some i" if "i \<in> set ?new" for i
    using find_distinct [OF dn that] .
  have inv': "frontier_inv (apply_batch (concat (map (item_ops e) ?new)) (ps_db s))"
    using snapshot_batch_inv [OF inv sb] part cat by auto
  have "entry_at (apply_batch (concat (map snd ?ps)) (ps_db s))
      = (\<lambda>u. if u \<in> fst ` set ?ps then f u else entry_at (ps_db s) u)"
    by (rule snapshot_batch_entry [OF sb]) (use part find in \<open>auto simp: f_def\<close>)
  also have "\<dots> = (\<lambda>u. case find (\<lambda>it. pi_url it = u) ?new of
        Some it \<Rightarrow> Some (item_entry e it) | None \<Rightarrow> entry_at (ps_db s) u)"
  proof
    fix u
    show "(if u \<in> fst ` set ?ps then f u else entry_at (ps_db s) u) = (case find (\<lambda>it. pi_url it = u) ?new of
        Some it \<Rightarrow> Some (item_entry e it) | None \<Rightarrow> entry_at (ps_db s) u)"
    proof (cases "find (\<lambda>it. pi_url it = u) ?new")
      case None
      then have "u \<notin> fst ` set ?ps" by (auto simp: find_None_iff)
      with None show ?thesis by simp
    next
      case (Some it)
      with find_SomeD [OF Some] show ?thesis by (force simp: f_def)
    qed
  qed
  finally have eff: "entry_at (apply_batch (concat (map (item_ops e) ?new)) (ps_db s))
     = (\<lambda>u. case find (\<lambda>it. pi_url it = u) ?new of
        Some it \<Rightarrow> Some (item_entry e it) | None \<Rightarrow> entry_at (ps_db s) u)"
    unfolding cat .
  have cases: "(x \<noteq> None \<and> ps_db s' = ps_db s)
     \<or> (x = None \<and> n = length ?new \<and> ps_db s' = apply_batch (concat (map (item_ops e) ?new)) (ps_db s))"
  proof (cases "push_batch_loop e (ps_db s) its [] 0")
    case (Inl a)
    then show ?thesis using run by (cases a) (auto simp: push_frontier_batch_def new_items_def split: if_splits)
  next
    case (Inr a)
    then obtain ops m where a: "push_batch_loop e (ps_db s) its [] 0 = Inr (ops, m)" by (cases a) auto
    from push_batch_loop_Inr [OF this] a show ?thesis using run
      by (auto simp: push_frontier_batch_def commit_def new_items_def split: if_splits sum.splits)
  qed
  show "frontier_inv (ps_db s')" using cases inv inv' by auto
  show "x = None \<Longrightarrow> n = length ?new" using cases by simp
  show "x = None \<Longrightarrow> entry_at (ps_db s') = (\<lambda>u. case find (\<lambda>it. pi_url it = u) ?new of
        Some it \<Rightarrow> Some (item_entry e it) | None \<Rightarrow> entry_at (ps_db s) u)"
    using cases eff by simp
  show "x \<noteq> None \<Longrightarrow> ps_db s' = ps_db s" using cases by blast
  show "quiet e \<Longrightarrow> x = None"
    using run push_batch_loop_quiet [of e "ps_db s" its "[]" 0]
    by (auto simp: push_frontier_batch_def commit_def split: if_splits sum.splits)
qed

section \<open>Recovery\<close>

definition recovered :: "frontier_entry \<Rightarrow> frontier_entry" where
  "recovered en = (if fe_status en = st_in_flight then en\<lparr>fe_status := st_queued\<rparr> else en)"

definition recover_part :: "bytes kv \<Rightarrow> bytes \<Rightarrow> bytes bop list" where
  "recover_part db u = (case entry_at db u of None \<Rightarrow> []
     | Some en \<Rightarrow> if fe_status en = st_in_flight then recover_ops (frontier_key u) en else [])"

lemma recover_loop_Inr:
  "recover_loop e db (map frontier_key us) ops = Inr ops'
    \<Longrightarrow> ops' = ops @ concat (map (recover_part db) us)"
proof (induction us arbitrary: ops)
  case Nil
  then show ?case by simp
next
  case (Cons u us)
  show ?case
  proof (cases "entry_at db u")
    case None
    then show ?thesis using Cons.prems Cons.IH [of ops]
      by (auto simp: recover_part_def entry_at_def split: if_splits option.splits sum.splits)
  next
    case (Some en)
    then show ?thesis
      using Cons.prems Cons.IH [of ops] Cons.IH [of "ops @ recover_ops (frontier_key u) en"]
      by (auto simp: recover_part_def entry_at_def split: if_splits option.splits sum.splits)
  qed
qed

lemma recover_loop_quiet: "quiet e \<Longrightarrow> \<exists>r. recover_loop e db ks ops = Inr r"
  by (induction ks arbitrary: ops) (auto split: option.splits sum.splits)

lemma frontier_row_list:
  obtains us where "kv_keys db ''fu'' ''fv'' = map frontier_key us" and "distinct us"
    and "set us = {u. fmlookup db (frontier_key u) \<noteq> None}"
proof
  let ?us = "map (drop 2) (kv_keys db ''fu'' ''fv'')"
  show eq: "kv_keys db ''fu'' ''fv'' = map frontier_key ?us"
    using frontier_rows [of db] by (auto simp: comp_def intro!: map_idI [symmetric])
  have "distinct (map frontier_key ?us)" using eq pebble.distinct_keys by metis
  then show "distinct ?us" by (rule distinct_map [THEN iffD1, THEN conjunct1])
  have "frontier_key ` set ?us = frontier_key ` {u. fmlookup db (frontier_key u) \<noteq> None}"
    using eq frontier_rows [of db] by (metis set_map)
  then show "set ?us = {u. fmlookup db (frontier_key u) \<noteq> None}"
    by (simp add: inj_image_eq_iff inj_def)
qed

lemma recover_in_flight_effect:
  assumes inv: "frontier_inv (ps_db s)" and run: "recover_in_flight e s = (r, s')"
  shows "frontier_inv (ps_db s')"
    and "r = Inr () \<Longrightarrow> entry_at (ps_db s') = map_option recovered \<circ> entry_at (ps_db s)"
    and "r \<noteq> Inr () \<Longrightarrow> ps_db s' = ps_db s"
    and "quiet e \<Longrightarrow> r = Inr ()"
proof -
  let ?db = "ps_db s"
  obtain us where us: "kv_keys ?db ''fu'' ''fv'' = map frontier_key us" "distinct us"
    "set us = {u. fmlookup ?db (frontier_key u) \<noteq> None}" by (rule frontier_row_list)
  let ?ps = "map (\<lambda>u. (u, recover_part ?db u)) us"
  have cat: "concat (map snd ?ps) = concat (map (recover_part ?db) us)" by (simp add: comp_def)
  have can: "canonical_url u" if "u \<in> set us" for u
    using inv us(3) that by (auto simp: frontier_inv_def)
  have part: "local_ops u (recover_part ?db u)
      \<and> url_inv (fmlookup (apply_batch (recover_part ?db u) ?db)) u
      \<and> entry_at (apply_batch (recover_part ?db u) ?db) u = map_option recovered (entry_at ?db u)"
    if "u \<in> set us" for u
  proof (cases "entry_at ?db u")
    case None
    with inv can [OF that] show ?thesis by (simp add: recover_part_def local_ops_def frontier_inv_def)
  next
    case (Some en)
    with inv can [OF that] recover_ops_effect [OF inv Some] show ?thesis
      by (auto simp: recover_part_def recovered_def local_ops_def frontier_inv_def)
  qed
  have sb: "snapshot_batch ?ps"
    unfolding snapshot_batch_def using us(2) can part by (auto simp: comp_def)
  have inv': "frontier_inv (apply_batch (concat (map (recover_part ?db) us)) ?db)"
    using snapshot_batch_inv [OF inv sb] part cat by auto
  have "entry_at (apply_batch (concat (map snd ?ps)) ?db)
      = (\<lambda>u. if u \<in> fst ` set ?ps then map_option recovered (entry_at ?db u) else entry_at ?db u)"
    by (rule snapshot_batch_entry [OF sb]) (use part in auto)
  also have "\<dots> = map_option recovered \<circ> entry_at ?db"
  proof
    fix u
    have "entry_at ?db u = None" if "u \<notin> set us" using that us(3) by (simp add: entry_at_def)
    then show "(if u \<in> fst ` set ?ps then map_option recovered (entry_at ?db u) else entry_at ?db u)
      = (map_option recovered \<circ> entry_at ?db) u"
      by (auto simp: comp_def image_image)
  qed
  finally have eff: "entry_at (apply_batch (concat (map (recover_part ?db) us)) ?db)
      = map_option recovered \<circ> entry_at ?db" unfolding cat .
  have cases: "(r \<noteq> Inr () \<and> ps_db s' = ?db)
    \<or> (r = Inr () \<and> ps_db s' = apply_batch (concat (map (recover_part ?db) us)) ?db)"
    using run recover_loop_Inr [of e ?db us "[]"]
    by (auto simp: recover_in_flight_def commit_def us(1) split: if_splits sum.splits)
  show "frontier_inv (ps_db s')" using cases inv inv' by auto
  show "r = Inr () \<Longrightarrow> entry_at (ps_db s') = map_option recovered \<circ> entry_at (ps_db s)"
    using cases eff by auto
  show "r \<noteq> Inr () \<Longrightarrow> ps_db s' = ps_db s" using cases by auto
  show "quiet e \<Longrightarrow> r = Inr ()"
    using run recover_loop_quiet [of e ?db "map frontier_key us" "[]"]
    by (auto simp: recover_in_flight_def commit_def us(1) split: if_splits sum.splits)
qed

section \<open>The stale-index sweep\<close>

text \<open>Under the invariant no in-flight index key is stale, so the sweep finds nothing.\<close>

lemma in_flight_range: "(''fi'' \<le> k \<and> k < ''fj'') = (\<exists>r. k = CHR ''f'' # st_in_flight # r)"
proof -
  have "byte_val (CHR ''j'') = Suc (byte_val st_in_flight)" by simp
  from sub_range [OF this] show ?thesis .
qed

lemma in_flight_index_key:
  assumes inv: "frontier_inv db" and k: "k \<in> set (kv_keys db ''fi'' ''fj'')"
  obtains u en where "canonical_url u" and "entry_at db u = Some en" and "fe_status en = st_in_flight"
    and "stale_key_url k = Some u" and "decode_frontier_index_host k = extract_host u"
proof -
  from k have live: "fmlookup db k \<noteq> None" and "''fi'' \<le> k \<and> k < ''fj''" by (simp_all add: set_kv_keys)
  then obtain r where r: "k = CHR ''f'' # st_in_flight # r" unfolding in_flight_range by blast
  have q: "st_in_flight \<in> {st_queued, st_in_flight}" by simp
  from inv live r q show thesis
  proof (cases rule: queued_index_key)
    case (legacy u en)
    moreover have "stale_key_url k = Some u" "decode_frontier_index_host k = extract_host u"
      using legacy extract_host_index_host by (simp_all add: stale_key_url_index_key decode_index_key)
    ultimately show thesis using that by blast
  next
    case (lane u en)
    have "fe_lane en < lane_count" using invD(2) [OF inv lane(2)] by (simp add: entry_good_def)
    then have "stale_key_url k = Some u" "decode_frontier_index_host k = extract_host u"
      using lane extract_host_index_host
      by (simp_all add: stale_key_url_index_key_lane decode_index_key_lane)
    with lane that show thesis by blast
  qed
qed

lemma purge_stale_loop_none:
  assumes inv: "frontier_inv db" and sub: "set ks \<subseteq> set (kv_keys db ''fi'' ''fj'')" and q: "quiet e"
  shows "purge_stale_loop e db ks ops n = Inr (ops, n)"
  using sub
proof (induction ks)
  case Nil
  then show ?case by simp
next
  case (Cons k ks)
  from Cons.prems have "k \<in> set (kv_keys db ''fi'' ''fj'')" by simp
  from in_flight_index_key [OF inv this] obtain u en where u: "entry_at db u = Some en"
    "fe_status en = st_in_flight" "stale_key_url k = Some u" by metis
  then obtain v where "fmlookup db (frontier_key u) = Some v" "unpack_frontier_entry v = Inr en"
    by (auto simp: entry_at_def split: option.splits sum.splits)
  with u Cons q show ?case by simp
qed

lemma purge_stale_noop:
  assumes "frontier_inv (ps_db s)" and "quiet e"
  shows "purge_stale_in_flight e s = ((0, None), s)"
  using purge_stale_loop_none [OF assms(1) subset_refl assms(2)] assms(2)
  by (simp add: purge_stale_in_flight_def)

section \<open>Clearing\<close>

lemma f_range: "(''f'' \<le> k \<and> k < ''g'') = (\<exists>r. k = CHR ''f'' # r)"
proof -
  have "byte_val (CHR ''g'') = Suc (byte_val (CHR ''f''))" by simp
  from prefix_range [OF this, of "[]" k] show ?thesis by simp
qed

lemma empty_family_inv:
  assumes "\<And>r. fmlookup db (CHR ''f'' # r) = None"
  shows "frontier_inv db" and "entry_at db = (\<lambda>_. None)"
proof -
  have n: "fmlookup db (frontier_key u) = None" "fmlookup db (frontier_status_index_key s h u) = None"
    "fmlookup db (frontier_status_index_key_lane s l h u) = None" for s l h u
    by (simp_all add: assms frontier_key_def frontier_status_index_key_def
        frontier_status_index_key_lane_def)
  show "frontier_inv db"
    unfolding frontier_inv_def
  proof (intro conjI allI impI)
    fix k s r assume "fmlookup db k \<noteq> None" "k = CHR ''f'' # s # r"
    with assms [of "s # r"] show "\<exists>u. canonical_url u \<and> k \<in> index_keys u" by simp
  qed (simp_all add: n url_inv_def index_ok_def)
  show "entry_at db = (\<lambda>_. None)" by (rule ext) (simp add: entry_at_def n)
qed

lemma clear_frontier_effect:
  assumes run: "clear_frontier e ok s = (r, s')"
  shows "ps_db s' = ps_db s \<or> (frontier_inv (ps_db s') \<and> entry_at (ps_db s') = (\<lambda>_. None)
      \<and> (\<forall>k. (\<forall>t. k \<noteq> CHR ''f'' # t) \<longrightarrow> fmlookup (ps_db s') k = fmlookup (ps_db s) k))"
    and "r = Inr () \<Longrightarrow> entry_at (ps_db s') = (\<lambda>_. None)"
    and "quiet e \<Longrightarrow> ok \<Longrightarrow> r = Inr ()"
proof -
  let ?db = "apply_batch [BDelRange ''f'' ''g''] (ps_db s)"
  have l: "fmlookup ?db k = (if \<exists>t. k = CHR ''f'' # t then None else fmlookup (ps_db s) k)" for k
    using f_range [of k] by (simp add: lookup_apply_bop del: apply_bop.simps)
  then have n: "fmlookup ?db (CHR ''f'' # t) = None" for t by simp
  note c = empty_family_inv [OF n]
  have "ps_db s' = ps_db s \<and> r \<noteq> Inr () \<or> ps_db s' = ?db"
    using run by (auto simp: clear_frontier_def commit_def split: if_splits)
  with l c show "ps_db s' = ps_db s \<or> (frontier_inv (ps_db s') \<and> entry_at (ps_db s') = (\<lambda>_. None)
      \<and> (\<forall>k. (\<forall>t. k \<noteq> CHR ''f'' # t) \<longrightarrow> fmlookup (ps_db s') k = fmlookup (ps_db s) k))"
    and "r = Inr () \<Longrightarrow> entry_at (ps_db s') = (\<lambda>_. None)" by auto
  show "quiet e \<Longrightarrow> ok \<Longrightarrow> r = Inr ()"
    using run by (auto simp: clear_frontier_def commit_def split: if_splits)
qed

section \<open>Purging a host\<close>

definition purge_part :: "bytes \<Rightarrow> bytes \<Rightarrow> bytes bop list" where
  "purge_part k u = [BDel k, BDel (frontier_key u)]"

text \<open>What the loop commits and what it leaves in its batch, together.\<close>

lemma purge_range_total:
  assumes "purge_range e off ks ops count s = (None, ops', count', s')"
    and "\<forall>k \<in> set ks. off < length k"
  shows "apply_batch ops' (ps_db s') = apply_batch (concat (map (\<lambda>k. purge_part k (drop off k)) ks))
      (apply_batch ops (ps_db s)) \<and> count' = count + length ks"
  using assms
proof (induction ks arbitrary: ops count s)
  case Nil
  then show ?case by simp
next
  case (Cons k ks)
  let ?ops = "ops @ purge_part k (drop off k)"
  show ?case
  proof (cases "Suc count mod 5000 = 0")
    case True
    then obtain s1 where s1: "commit e ?ops s = Inr s1"
      and run: "purge_range e off ks [] (Suc count) s1 = (None, ops', count', s')"
      using Cons.prems by (auto simp: purge_part_def Let_def split: sum.splits)
    have "ps_db s1 = apply_batch ?ops (ps_db s)"
      using s1 by (auto simp: commit_def split: if_splits)
    with Cons.IH [OF run] Cons.prems(2) show ?thesis by simp
  next
    case False
    then have "purge_range e off ks ?ops (Suc count) s = (None, ops', count', s')"
      using Cons.prems by (simp add: purge_part_def Let_def)
    from Cons.IH [OF this] Cons.prems(2) show ?thesis by simp
  qed
qed

lemma purge_range_quiet:
  "quiet e \<Longrightarrow> fst (purge_range e off ks ops count s) = None"
  by (induction e off ks ops count s rule: purge_range.induct)
    (auto simp: Let_def commit_def split: sum.splits)

lemma purge_range_frame:
  assumes "purge_range e off ks ops count s = (x, ops', count', s')"
    and "k \<notin> set ks" and "\<nexists>u. k = frontier_key u" and "\<forall>b \<in> set ops. \<not> touches b k"
  shows "(\<forall>b \<in> set ops'. \<not> touches b k) \<and> fmlookup (ps_db s') k = fmlookup (ps_db s) k"
  using assms
proof (induction ks arbitrary: ops count s)
  case Nil
  then show ?case by simp
next
  case (Cons k' ks)
  let ?ops = "ops @ purge_part k' (drop off k')"
  have t: "\<forall>b \<in> set ?ops. \<not> touches b k" using Cons.prems by (auto simp: purge_part_def)
  show ?case
  proof (cases "off < length k' \<and> Suc count mod 5000 = 0")
    case True
    show ?thesis
    proof (cases "commit e ?ops s")
      case (Inl y)
      with True Cons.prems t show ?thesis by (auto simp: purge_part_def Let_def)
    next
      case (Inr s1)
      with True Cons.prems have run: "purge_range e off ks [] (Suc count) s1 = (x, ops', count', s')"
        by (simp add: purge_part_def Let_def)
      have "ps_db s1 = apply_batch ?ops (ps_db s)"
        using Inr by (auto simp: commit_def split: if_splits)
      moreover have "fmlookup (apply_batch ?ops (ps_db s)) k = fmlookup (ps_db s) k"
        by (rule lookup_batch_untouched) (use t in blast)
      ultimately have "fmlookup (ps_db s1) k = fmlookup (ps_db s) k" by metis
      moreover have "k \<notin> set ks" using Cons.prems(2) by simp
      ultimately show ?thesis using Cons.IH [OF run _ Cons.prems(3)] by simp
    qed
  next
    case False
    have nk: "k \<notin> set ks" using Cons.prems(2) by simp
    show ?thesis
    proof (cases "off < length k'")
      case True
      with False Cons.prems(1) have run: "purge_range e off ks ?ops (Suc count) s = (x, ops', count', s')"
        by (simp add: purge_part_def Let_def)
      show ?thesis by (rule Cons.IH [OF run nk Cons.prems(3) t])
    next
      case False
      with Cons.prems(1) have run: "purge_range e off ks ops count s = (x, ops', count', s')"
        by simp
      show ?thesis by (rule Cons.IH [OF run nk Cons.prems(3,4)])
    qed
  qed
qed

lemma purge_part_effect:
  assumes inv: "frontier_inv db" and row: "queued_row db h u l legacy" and l: "\<not> legacy \<Longrightarrow> l < lane_count"
    and k: "k = (if legacy then frontier_status_index_key st_queued h u
      else frontier_status_index_key_lane st_queued l h u)"
  shows "local_ops u (purge_part k u)"
    and "url_inv (fmlookup (apply_batch (purge_part k u) db)) u"
    and "entry_at (apply_batch (purge_part k u) db) u = None"
proof -
  from queued_rowD [OF row] obtain en where en: "h = extract_host u" "entry_at db u = Some en"
    "fe_status en = st_queued" by blast
  note i = invD [OF inv en(2)]
  have h: "index_host (extract_host u)" by (rule extract_host_index_host [OF i(1)])
  have le: "fe_lane en < lane_count" using i(2) by (simp add: entry_good_def)
  have q: "if legacy then fmlookup db (frontier_status_index_key st_queued h u) \<noteq> None
     else l = fe_lane en \<and> fmlookup db (frontier_status_index_key_lane st_queued l h u) \<noteq> None"
    using row en by (auto simp: queued_row_def)
  show "local_ops u (purge_part k u)"
    using k l en(1) by (intro local_opsI) (auto simp: purge_part_def)
  let ?db = "apply_batch (purge_part k u) db"
  have n: "fmlookup ?db (frontier_key u) = None" by (simp add: purge_part_def)
  have both: "index_ok (fmlookup ?db) u s None" if "s \<in> {st_queued, st_in_flight}" for s
    using i(3,4) h le q that en k l
    by (cases legacy) (auto simp: index_ok_def purge_part_def key_eqs)
  show "url_inv (fmlookup ?db) u" using n both by (simp add: url_inv_def)
  show "entry_at ?db u = None" by (simp add: entry_at_def n)
qed

text \<open>One index of a host (the legacy one or a lane): its range and its rows.\<close>

definition the_prefix :: "bytes \<Rightarrow> nat \<Rightarrow> bool \<Rightarrow> bytes" where
  "the_prefix h l legacy = (if legacy then host_prefix st_queued h else host_prefix_lane st_queued l h)"

definition the_upper :: "bytes \<Rightarrow> nat \<Rightarrow> bool \<Rightarrow> bytes" where
  "the_upper h l legacy = (if legacy then host_upper st_queued h else host_upper_lane st_queued l h)"

definition the_key :: "bytes \<Rightarrow> nat \<Rightarrow> bool \<Rightarrow> bytes \<Rightarrow> bytes" where
  "the_key h l legacy u = (if legacy then frontier_status_index_key st_queued h u
      else frontier_status_index_key_lane st_queued l h u)"

lemma the_key_prefix: "the_key h l legacy u = the_prefix h l legacy @ u"
  by (simp add: the_key_def the_prefix_def host_prefix_def host_prefix_lane_def
      frontier_status_index_key_def frontier_status_index_key_lane_def)

lemma the_range: "(the_prefix h l legacy \<le> k \<and> k < the_upper h l legacy) = (\<exists>u. k = the_key h l legacy u)"
  using host_range [of st_queued h k] host_range_lane [of st_queued l h k]
  by (simp add: the_prefix_def the_upper_def the_key_def)

lemma queued_row_key:
  "canonical_url u \<Longrightarrow> queued_row db h u l legacy \<Longrightarrow> fmlookup db (the_key h l legacy u) \<noteq> None"
  by (auto simp: queued_row_def the_key_def split: if_splits)

lemma host_rows:
  assumes inv: "frontier_inv db" and h: "index_host h" and l: "\<not> legacy \<Longrightarrow> l < lane_count"
  obtains us where "kv_keys db (the_prefix h l legacy) (the_upper h l legacy) = map (the_key h l legacy) us"
    and "distinct us" and "set us = {u. queued_row db h u l legacy}"
    and "\<forall>u \<in> set us. canonical_url u"
proof
  let ?ks = "kv_keys db (the_prefix h l legacy) (the_upper h l legacy)"
  let ?n = "length (the_prefix h l legacy)"
  let ?us = "map (drop ?n) ?ks"
  have key: "\<exists>u. k = the_key h l legacy u" if "k \<in> set ?ks" for k
    using that the_range [of h l legacy k] by (simp add: set_kv_keys)
  have bk: "the_key h l legacy (drop ?n k) = k" if "k \<in> set ?ks" for k
    using key [OF that] by (auto simp: the_key_prefix)
  then show eq: "?ks = map (the_key h l legacy) ?us" by (simp add: comp_def map_idI)
  have "distinct (map (the_key h l legacy) ?us)" using eq pebble.distinct_keys by metis
  then show "distinct ?us" by (rule distinct_map [THEN iffD1, THEN conjunct1])
  have row: "canonical_url u \<and> queued_row db h u l legacy" if "u \<in> set ?us" for u
  proof -
    from that obtain k where k: "k \<in> set ?ks" "u = drop ?n k" by auto
    with bk have "the_key h l legacy u = k" by simp
    moreover have "fmlookup db k \<noteq> None" using k(1) by (simp add: set_kv_keys)
    ultimately show ?thesis using queued_key_row [OF inv h l] by (metis the_key_def)
  qed
  then show "\<forall>u \<in> set ?us. canonical_url u" by blast
  have "u \<in> set ?us" if "queued_row db h u l legacy" for u
  proof -
    from queued_rowD [OF that] obtain en where "entry_at db u = Some en" by blast
    then have c: "canonical_url u" by (rule invD(1) [OF inv])
    have "the_key h l legacy u \<in> set ?ks"
      using queued_row_key [OF c that] the_range [of h l legacy "the_key h l legacy u"]
      by (simp add: set_kv_keys) blast
    then have "drop ?n (the_key h l legacy u) \<in> set ?us" by auto
    then show ?thesis by (simp add: the_key_prefix)
  qed
  with row show "set ?us = {u. queued_row db h u l legacy}" by blast
qed

lemma the_key_distinct:
  assumes "index_host h" and "\<not> lg \<Longrightarrow> l < lane_count" and "\<not> lg' \<Longrightarrow> l' < lane_count"
    and "the_key h l lg u = the_key h l' lg' v"
  shows "lg = lg'" and "\<not> lg \<Longrightarrow> l = l'" and "u = v"
proof -
  have "lg = lg' \<and> (\<not> lg \<longrightarrow> l = l') \<and> u = v"
  proof (cases lg)
    case True
    then show ?thesis using assms
      by (cases lg') (simp_all add: the_key_def key_eqs)
  next
    case False
    then show ?thesis using assms
      by (cases lg') (auto simp: the_key_def key_eqs)
  qed
  then show "lg = lg'" and "\<not> lg \<Longrightarrow> l = l'" and "u = v" by auto
qed

text \<open>The iterator reads the committed store, while the batch holds deletions of other ranges.\<close>

lemma purge_prefix_step:
  assumes inv: "frontier_inv (apply_batch ops (ps_db s))" and h: "index_host h"
    and l: "\<not> legacy \<Longrightarrow> l < lane_count"
    and away: "\<forall>b \<in> set ops. \<forall>u. \<not> touches b (the_key h l legacy u)"
    and run: "purge_prefix e (the_prefix h l legacy) (the_upper h l legacy) ops count s
      = (None, ops', count', s')"
    and V: "V = apply_batch ops (ps_db s)" and V': "V' = apply_batch ops' (ps_db s')"
  shows "frontier_inv V'"
    and "entry_at V' = (\<lambda>u. if queued_row V h u l legacy then None else entry_at V u)"
    and "count' = count + card {u. queued_row V h u l legacy}"
    and "\<And>k. (\<nexists>u. k = frontier_key u) \<Longrightarrow> (\<nexists>u. k = the_key h l legacy u) \<Longrightarrow> fmlookup V' k = fmlookup V k"
    and "\<And>k b. (\<nexists>u. k = frontier_key u) \<Longrightarrow> (\<nexists>u. k = the_key h l legacy u)
        \<Longrightarrow> \<forall>b \<in> set ops. \<not> touches b k \<Longrightarrow> b \<in> set ops' \<Longrightarrow> \<not> touches b k"
proof -
  let ?lo = "the_prefix h l legacy" and ?hi = "the_upper h l legacy"
  have keys: "kv_keys (ps_db s) ?lo ?hi = kv_keys V ?lo ?hi"
  proof (rule pebble.keys_cong)
    fix k assume "?lo \<le> k" "k < ?hi"
    then obtain u where "k = the_key h l legacy u" using the_range [of h l legacy k] by blast
    with lookup_batch_untouched [of ops "the_key h l legacy u" "ps_db s"] away V show "(fmlookup (ps_db s) k = None) = (fmlookup V k = None)" by simp
  qed
  obtain us where us: "kv_keys V ?lo ?hi = map (the_key h l legacy) us" "distinct us"
    "set us = {u. queued_row V h u l legacy}" "\<forall>u \<in> set us. canonical_url u"
    using host_rows [OF _ h l] inv V by metis
  let ?ps = "map (\<lambda>u. (u, purge_part (the_key h l legacy u) u)) us"
  have run': "purge_range e (length ?lo) (map (the_key h l legacy) us) ops count s = (None, ops', count', s')"
    using run us(1) keys by (simp add: purge_prefix_def split: if_splits)
  have len: "\<forall>k \<in> set (map (the_key h l legacy) us). length ?lo < length k"
    using us(4) by (auto simp: the_key_prefix canonical_url_def extract_host_def)
  have cat: "concat (map (\<lambda>k. purge_part k (drop (length ?lo) k)) (map (the_key h l legacy) us))
      = concat (map snd ?ps)"
    by (simp add: the_key_prefix comp_def)
  have tot: "V' = apply_batch (concat (map snd ?ps)) V" and cnt: "count' = count + length us"
    using purge_range_total [OF run' len] V V' cat by simp_all
  have row: "queued_row V h u l legacy" if "u \<in> set us" for u using us(3) that by simp
  have invV: "frontier_inv V" using inv V by simp
  have part: "local_ops u (purge_part (the_key h l legacy u) u)"
    "url_inv (fmlookup (apply_batch (purge_part (the_key h l legacy u) u) V)) u"
    "entry_at (apply_batch (purge_part (the_key h l legacy u) u) V) u = None" if "u \<in> set us" for u
    using purge_part_effect [OF invV row [OF that] l the_key_def] by auto
  have sb: "snapshot_batch ?ps"
    unfolding snapshot_batch_def using us(2,4) part(1) by (auto simp: comp_def)
  show "frontier_inv V'"
    unfolding tot using part(2) by (intro snapshot_batch_inv [OF invV sb]) auto
  have "entry_at V' = (\<lambda>u. if u \<in> fst ` set ?ps then None else entry_at V u)"
    unfolding tot using part(3) by (intro snapshot_batch_entry [OF sb]) auto
  also have "fst ` set ?ps = {u. queued_row V h u l legacy}"
    using us(3) by (simp add: image_image)
  finally show "entry_at V' = (\<lambda>u. if queued_row V h u l legacy then None else entry_at V u)"
    by simp
  show "count' = count + card {u. queued_row V h u l legacy}"
    using cnt us(2,3) distinct_card by metis
  show "fmlookup V' k = fmlookup V k"
    if "\<nexists>u. k = frontier_key u" "\<nexists>u. k = the_key h l legacy u" for k
    unfolding tot
  proof (rule lookup_batch_untouched)
    fix b assume "b \<in> set (concat (map snd ?ps))"
    then show "\<not> touches b k" using that by (auto simp: purge_part_def)
  qed
  show "\<not> touches b k" if "\<nexists>u. k = frontier_key u" "\<nexists>u. k = the_key h l legacy u"
    "\<forall>b \<in> set ops. \<not> touches b k" "b \<in> set ops'" for k b
    using purge_range_frame [OF run', of k] that by auto
qed

lemma purge_prefix_quiet: "quiet e \<Longrightarrow> fst (purge_prefix e lo hi ops count s) = None"
  by (simp add: purge_prefix_def purge_range_quiet)

lemma queued_row_one_lane: "queued_row db h u l False \<Longrightarrow> queued_row db h u l' False \<Longrightarrow> l = l'"
  by (auto simp: queued_row_def)

lemma queued_row_cong:
  assumes "entry_at db u = entry_at db' u"
    and "fmlookup db (frontier_status_index_key_lane st_queued l h u)
      = fmlookup db' (frontier_status_index_key_lane st_queued l h u)"
  shows "queued_row db h u l False = queued_row db' h u l False"
  unfolding queued_row_def if_False assms ..

lemma purge_lanes_step:
  assumes "frontier_inv (apply_batch ops (ps_db s))" and h: "index_host h"
    and "\<forall>l \<in> set ls. l < lane_count" and "distinct ls"
    and "\<And>l u b. l \<in> set ls \<Longrightarrow> b \<in> set ops \<Longrightarrow> \<not> touches b (the_key h l False u)"
    and "purge_lanes e h ls ops count s = (None, ops', count', s')"
    and "V = apply_batch ops (ps_db s)" and "V' = apply_batch ops' (ps_db s')"
  shows "frontier_inv V' \<and> entry_at V' = (\<lambda>u. if \<exists>l \<in> set ls. queued_row V h u l False then None else entry_at V u)
    \<and> count' = count + (\<Sum>l \<leftarrow> ls. card {u. queued_row V h u l False})"
  using assms
proof (induction ls arbitrary: ops count s V)
  case Nil
  then show ?case by simp
next
  case (Cons l ls)
  obtain x ops1 count1 s1 where 1: "purge_prefix e (the_prefix h l False) (the_upper h l False) ops count s
      = (x, ops1, count1, s1)" by (cases "purge_prefix e (the_prefix h l False) (the_upper h l False) ops count s") auto
  have unf: "purge_lanes e h (l # ls) ops count s = (case (x, ops1, count1, s1) of
      (Some x, r) \<Rightarrow> (Some x, r) | (None, ops', count', s') \<Rightarrow> purge_lanes e h ls ops' count' s')"
    using 1 unfolding the_prefix_def the_upper_def by simp
  then have "x = None" using Cons.prems(6) by (cases x) simp_all
  then have rest: "purge_lanes e h ls ops1 count1 s1 = (None, ops', count', s')"
    using unf Cons.prems(6) by simp
  from 1 \<open>x = None\<close> have 1: "purge_prefix e (the_prefix h l False) (the_upper h l False) ops count s
      = (None, ops1, count1, s1)" by simp
  define V1 where "V1 = apply_batch ops1 (ps_db s1)"
  have l: "l < lane_count" using Cons.prems(3) by simp
  have away: "\<forall>b \<in> set ops. \<forall>u. \<not> touches b (the_key h l False u)"
    using Cons.prems(5) by simp
  note st = purge_prefix_step [OF Cons.prems(1) h l away 1 Cons.prems(7) V1_def]
  have other: "(\<nexists>v. the_key h l' False u = frontier_key v) \<and> (\<nexists>v. the_key h l' False u = the_key h l False v)"
    if "l' \<in> set ls" for l' u
  proof -
    have "l' < lane_count" "l' \<noteq> l" using that Cons.prems(3,4) by auto
    then have "the_key h l' False u \<noteq> the_key h l False v" for v
      using the_key_distinct(2) [OF h, of False l' False l u v] l by blast
    moreover have "the_key h l' False u \<noteq> frontier_key v" for v
      by (simp add: the_key_def)
    ultimately show ?thesis by blast
  qed
  have row: "queued_row V1 h u l' False = (queued_row V h u l' False)" if "l' \<in> set ls" for l' u
  proof -
    have ne: "l' \<noteq> l" using that Cons.prems(4) by auto
    have k: "fmlookup V1 (frontier_status_index_key_lane st_queued l' h u)
      = fmlookup V (frontier_status_index_key_lane st_queued l' h u)"
    proof -
      have "fmlookup V1 (the_key h l' False u) = fmlookup V (the_key h l' False u)"
        by (rule st(4)) (use other [OF that] in blast)+
      then show ?thesis by (simp add: the_key_def)
    qed
    show ?thesis
    proof (cases "queued_row V h u l False")
      case True
      then have "\<not> queued_row V h u l' False" using ne queued_row_one_lane by blast
      moreover have "entry_at V1 u = None" using True st(2) by simp
      ultimately show ?thesis using queued_rowD by fastforce
    next
      case False
      then have "entry_at V1 u = entry_at V u" using st(2) by simp
      then show ?thesis using k by (rule queued_row_cong)
    qed
  qed
  have "frontier_inv V' \<and> entry_at V' = (\<lambda>u. if \<exists>l \<in> set ls. queued_row V1 h u l False then None else entry_at V1 u)
    \<and> count' = count1 + (\<Sum>l \<leftarrow> ls. card {u. queued_row V1 h u l False})"
  proof (rule Cons.IH [OF _ h _ _ _ rest V1_def Cons.prems(8)])
    show "frontier_inv (apply_batch ops1 (ps_db s1))" using st(1) V1_def by simp
    show "\<And>l' u b. l' \<in> set ls \<Longrightarrow> b \<in> set ops1 \<Longrightarrow> \<not> touches b (the_key h l' False u)"
    proof -
      fix l' u b assume l': "l' \<in> set ls" and b: "b \<in> set ops1"
      have "\<forall>b \<in> set ops. \<not> touches b (the_key h l' False u)" using Cons.prems(5) l' by simp
      from other [OF l', of u, THEN conjunct1] other [OF l', of u, THEN conjunct2] this b
      show "\<not> touches b (the_key h l' False u)" by (rule st(5))
    qed
    show "\<forall>l \<in> set ls. l < lane_count" using Cons.prems(3) by simp
    show "distinct ls" using Cons.prems(4) by simp
  qed
  moreover have "(\<Sum>l \<leftarrow> ls. card {u. queued_row V1 h u l False}) = (\<Sum>l \<leftarrow> ls. card {u. queued_row V h u l False})"
    using row by (intro arg_cong [where f = sum_list] map_cong refl) auto
  moreover have "(\<lambda>u. if \<exists>l \<in> set ls. queued_row V1 h u l False then None else entry_at V1 u)
    = (\<lambda>u. if \<exists>l' \<in> set (l # ls). queued_row V h u l' False then None else entry_at V u)"
  proof
    fix u
    have "(\<exists>l \<in> set ls. queued_row V1 h u l False) = (\<exists>l \<in> set ls. queued_row V h u l False)"
      using row by blast
    then show "(if \<exists>l \<in> set ls. queued_row V1 h u l False then None else entry_at V1 u)
      = (if \<exists>l' \<in> set (l # ls). queued_row V h u l' False then None else entry_at V u)"
      unfolding st(2) by simp
  qed
  ultimately show ?case using st(3) by simp
qed

text \<open>A purge removes exactly the queued URLs of the host, and counts them.\<close>

definition queued_on :: "bytes kv \<Rightarrow> bytes \<Rightarrow> bytes set" where
  "queued_on db h = {u. extract_host u = h \<and> (\<exists>en. entry_at db u = Some en \<and> fe_status en = st_queued)}"

lemma entry_at_finite: "finite {u. entry_at db u \<noteq> None}"
proof -
  have "{u. entry_at db u \<noteq> None} \<subseteq> drop 2 ` fset (fmdom db)"
  proof
    fix u assume "u \<in> {u. entry_at db u \<noteq> None}"
    then have "fmlookup db (frontier_key u) \<noteq> None" by (auto simp: entry_at_def split: option.splits)
    then have "frontier_key u \<in> fset (fmdom db)" by simp
    then show "u \<in> drop 2 ` fset (fmdom db)" by (rule rev_image_eqI) simp
  qed
  then show ?thesis by (rule finite_subset) simp
qed

lemma queued_rows_finite: "finite {u. queued_row db h u l lg}"
  by (rule finite_subset [OF _ entry_at_finite [of db]]) (auto dest: queued_rowD)

lemma queued_on_rows:
  assumes inv: "frontier_inv db"
  shows "queued_on db h = {u. queued_row db h u 0 True} \<union> (\<Union>l \<in> {0..<lane_count}. {u. queued_row db h u l False})"
    (is "_ = ?R")
proof
  show "queued_on db h \<subseteq> ?R"
  proof
    fix u assume "u \<in> queued_on db h"
    then obtain en where en: "h = extract_host u" "entry_at db u = Some en" "fe_status en = st_queued"
      by (auto simp: queued_on_def)
    have "fe_lane en < lane_count" using invD(2) [OF inv en(2)] by (simp add: entry_good_def)
    with queued_has_row [OF inv en(2,3), of 0] en(1) show "u \<in> ?R" by auto
  qed
  show "?R \<subseteq> queued_on db h" by (auto simp: queued_on_def dest!: queued_rowD)
qed

lemma queued_row_one_index:
  assumes inv: "frontier_inv db" and "queued_row db h u 0 True"
  shows "\<not> queued_row db h u l False"
proof
  assume l: "queued_row db h u l False"
  from queued_rowD [OF assms(2)] obtain en where en: "h = extract_host u" "entry_at db u = Some en"
    "fe_status en = st_queued" by blast
  with invD(3) [OF inv en(2)] assms(2) l show False by (auto simp: queued_row_def index_ok_def)
qed

lemma card_lane_rows:
  "card (\<Union>l \<in> {0..<n}. {u. queued_row db h u l False}) = (\<Sum>l \<leftarrow> [0..<n]. card {u. queued_row db h u l False})"
proof -
  have "card (\<Union>l \<in> {0..<n}. {u. queued_row db h u l False})
      = (\<Sum>l \<in> {0..<n}. card {u. queued_row db h u l False})"
    by (rule card_UN_disjoint) (auto simp: queued_rows_finite dest: queued_row_one_lane)
  then show ?thesis by (simp add: interv_sum_list_conv_sum_set_nat)
qed

lemma purge_lanes_quiet: "quiet e \<Longrightarrow> fst (purge_lanes e h ls ops count s) = None"
proof (induction ls arbitrary: ops count s)
  case Nil
  then show ?case by simp
next
  case (Cons l ls)
  then show ?case
    using purge_prefix_quiet [of e "host_prefix_lane st_queued l h" "host_upper_lane st_queued l h" ops count s]
    by (cases "purge_prefix e (host_prefix_lane st_queued l h) (host_upper_lane st_queued l h) ops count s")
      auto
qed

lemma purge_frontier_by_host_effect:
  assumes inv: "frontier_inv (ps_db s)" and h: "index_host h"
    and run: "purge_frontier_by_host e h s = ((n, None), s')"
  shows "frontier_inv (ps_db s')"
    and "entry_at (ps_db s') = (\<lambda>u. if u \<in> queued_on (ps_db s) h then None else entry_at (ps_db s) u)"
    and "n = card (queued_on (ps_db s) h)"
proof -
  have hn: "h \<noteq> []" using h by (simp add: index_host_def)
  obtain ops count s1 ops2 count2 s2 where
    1: "purge_prefix e (the_prefix h 0 True) (the_upper h 0 True) [] 0 s = (None, ops, count, s1)" and
    2: "purge_lanes e h [0..<lane_count] ops count s1 = (None, ops2, count2, s2)" and
    3: "commit e ops2 s2 = Inr s'" "n = count2"
    using run hn
    by (auto simp: purge_frontier_by_host_def the_prefix_def the_upper_def
        split: if_splits prod.splits option.splits sum.splits)
  define V where "V = apply_batch ops (ps_db s1)"
  have inv0: "frontier_inv (apply_batch [] (ps_db s))" using inv by simp
  have V0: "ps_db s = apply_batch [] (ps_db s)" by simp
  note a = purge_prefix_step [OF inv0 h _ _ 1 V0 V_def, simplified]
  have other: "(\<nexists>v. the_key h l False u = frontier_key v) \<and> (\<nexists>v. the_key h l False u = the_key h 0 True v)"
    if "l < lane_count" for l u
  proof -
    have "the_key h l False u \<noteq> the_key h 0 True v" for v
      using the_key_distinct(1) [OF h, of False l True 0 u v] that by blast
    moreover have "the_key h l False u \<noteq> frontier_key v" for v by (simp add: the_key_def)
    ultimately show ?thesis by blast
  qed
  have row: "queued_row V h u l False = queued_row (ps_db s) h u l False" if "l < lane_count" for l u
  proof (cases "queued_row (ps_db s) h u 0 True")
    case True
    then have "\<not> queued_row (ps_db s) h u l False" by (rule queued_row_one_index [OF inv])
    moreover have "entry_at V u = None" using True a(2) by simp
    ultimately show ?thesis using queued_rowD by fastforce
  next
    case False
    then have e: "entry_at V u = entry_at (ps_db s) u" using a(2) by simp
    have "fmlookup V (the_key h l False u) = fmlookup (ps_db s) (the_key h l False u)"
      using other [OF that, of u] a(4) [of "the_key h l False u"] by blast
    with e show ?thesis by (intro queued_row_cong) (simp_all add: the_key_def)
  qed
  have final: "ps_db s' = apply_batch ops2 (ps_db s2)"
    using 3(1) by (auto simp: commit_def split: if_splits)
  have b: "frontier_inv (ps_db s')
    \<and> entry_at (ps_db s') = (\<lambda>u. if \<exists>l \<in> set [0..<lane_count]. queued_row V h u l False then None else entry_at V u)
    \<and> count2 = count + (\<Sum>l \<leftarrow> [0..<lane_count]. card {u. queued_row V h u l False})"
  proof (rule purge_lanes_step [OF _ h _ _ _ 2 V_def final])
    show "frontier_inv (apply_batch ops (ps_db s1))" using a(1) V_def by simp
    show "\<not> touches b (the_key h l False u)" if "l \<in> set [0..<lane_count]" "b \<in> set ops" for l u b
      using other [of l u] a(5) [of "the_key h l False u" b] that by simp
  qed simp_all
  then show "frontier_inv (ps_db s')" by blast
  have rows: "(\<exists>l \<in> set [0..<lane_count]. queued_row V h u l False)
      = (\<exists>l \<in> {0..<lane_count}. queued_row (ps_db s) h u l False)" for u
    using row by auto
  show "entry_at (ps_db s') = (\<lambda>u. if u \<in> queued_on (ps_db s) h then None else entry_at (ps_db s) u)"
  proof
    fix u
    have "entry_at (ps_db s') u = (if \<exists>l \<in> {0..<lane_count}. queued_row (ps_db s) h u l False then None
        else if queued_row (ps_db s) h u 0 True then None else entry_at (ps_db s) u)"
      using b a(2) rows by simp
    then show "entry_at (ps_db s') u = (if u \<in> queued_on (ps_db s) h then None else entry_at (ps_db s) u)"
      unfolding queued_on_rows [OF inv] by auto
  qed
  have "(\<Sum>l \<leftarrow> [0..<lane_count]. card {u. queued_row V h u l False})
      = (\<Sum>l \<leftarrow> [0..<lane_count]. card {u. queued_row (ps_db s) h u l False})"
    using row by (intro arg_cong [where f = sum_list] map_cong refl) auto
  then have "n = card {u. queued_row (ps_db s) h u 0 True}
      + card (\<Union>l \<in> {0..<lane_count}. {u. queued_row (ps_db s) h u l False})"
    using b a(3) 3(2) by (simp add: card_lane_rows)
  also have "\<dots> = card (queued_on (ps_db s) h)"
    unfolding queued_on_rows [OF inv]
    by (rule card_Un_disjoint [symmetric])
      (auto simp: queued_rows_finite dest: queued_row_one_index [OF inv])
  finally show "n = card (queued_on (ps_db s) h)" .
qed

lemma purge_frontier_by_host_quiet:
  "quiet e \<Longrightarrow> \<exists>n s'. purge_frontier_by_host e h s = ((n, None), s')"
  using purge_prefix_quiet [of e "host_prefix st_queued h" "host_upper st_queued h" "[]" 0 s]
    purge_lanes_quiet [of e h "[0..<lane_count]"]
  by (auto simp: purge_frontier_by_host_def commit_def split: prod.splits option.splits) (metis fst_conv option.distinct(1))+

section \<open>Demoting a host\<close>

definition lane_set :: "nat \<Rightarrow> frontier_entry option \<Rightarrow> frontier_entry option" where
  "lane_set lane = map_option (\<lambda>en. en\<lparr>fe_lane := lane\<rparr>)"

definition other_lane :: "bytes kv \<Rightarrow> nat \<Rightarrow> bytes \<Rightarrow> bool" where
  "other_lane db lane u = (\<exists>en. entry_at db u = Some en \<and> fe_lane en \<noteq> lane)"

definition src_row :: "bytes kv \<Rightarrow> bytes \<Rightarrow> bytes \<Rightarrow> nat option \<Rightarrow> bool" where
  "src_row db h u src = queued_row db h u (case src of None \<Rightarrow> 0 | Some l \<Rightarrow> l) (src = None)"

definition rekey_part :: "bytes kv \<Rightarrow> bytes \<Rightarrow> nat \<Rightarrow> nat option \<Rightarrow> bytes \<Rightarrow> bytes bop list" where
  "rekey_part db h lane src u = (case entry_at db u of None \<Rightarrow> []
     | Some en \<Rightarrow> if fe_status en = st_queued \<and> fe_lane en \<noteq> lane then rekey_ops h lane src u en else [])"

lemma entry_at_get_entry:
  "get_entry e db u = Inl NotFound \<Longrightarrow> entry_at db u = None"
  by (auto simp: get_entry_def entry_at_def split: if_splits option.splits sum.splits)

lemma rekey_loop_Inr:
  assumes "rekey_loop e db h lane src us ops n = Inr (ops', m)" and "\<forall>u \<in> set us. src_row db h u src"
  shows "ops' = ops @ concat (map (rekey_part db h lane src) us)
    \<and> m = n + length (filter (other_lane db lane) us)"
  using assms
proof (induction us arbitrary: ops n)
  case Nil
  then show ?case by simp
next
  case (Cons u us)
  from Cons.prems(2) obtain en where en: "entry_at db u = Some en" "fe_status en = st_queued"
    by (auto simp: src_row_def dest!: queued_rowD)
  have us: "\<forall>u \<in> set us. src_row db h u src" using Cons.prems(2) by simp
  show ?case
  proof (cases "get_entry e db u")
    case (Inl x)
    then show ?thesis using Cons.prems(1) en entry_at_get_entry [of e db u] by (cases x) auto
  next
    case (Inr en')
    then have "en' = en" using get_entry_Inr en by fastforce
    with Inr Cons.prems(1) en us Cons.IH [of ops n] Cons.IH [of "ops @ rekey_ops h lane src u en" "Suc n"]
    show ?thesis by (auto simp: rekey_part_def other_lane_def split: if_splits)
  qed
qed

lemma rekey_loop_quiet:
  "quiet e \<Longrightarrow> \<forall>u \<in> set us. src_row db h u src \<Longrightarrow> \<exists>r. rekey_loop e db h lane src us ops n = Inr r"
proof (induction us arbitrary: ops n)
  case Nil
  then show ?case by simp
next
  case (Cons u us)
  from Cons.prems(2) obtain en where "entry_at db u = Some en"
    by (auto simp: src_row_def dest!: queued_rowD)
  then have "get_entry e db u = Inr en" by (rule get_entry_quiet [OF Cons.prems(1)])
  with Cons show ?case by auto
qed

lemma canonical_src_row: "frontier_inv db \<Longrightarrow> src_row db h u src \<Longrightarrow> canonical_url u"
  unfolding src_row_def using queued_rowD invD(1) by blast

lemma queued_row_local_cong:
  assumes "\<And>k. k \<in> url_keys u \<Longrightarrow> fmlookup db k = fmlookup db' k" and "\<not> lg \<Longrightarrow> l < lane_count"
  shows "queued_row db h u l lg = queued_row db' h u l lg"
proof (cases "h = extract_host u")
  case True
  have "entry_at db u = entry_at db' u" by (rule entry_at_cong) (simp add: assms(1))
  moreover have "lg \<Longrightarrow> fmlookup db (frontier_status_index_key st_queued h u)
      = fmlookup db' (frontier_status_index_key st_queued h u)"
    using True by (intro assms(1)) simp
  moreover have "\<not> lg \<Longrightarrow> fmlookup db (frontier_status_index_key_lane st_queued l h u)
      = fmlookup db' (frontier_status_index_key_lane st_queued l h u)"
    using True assms(2) by (intro assms(1)) simp
  ultimately show ?thesis unfolding queued_row_def by (cases lg) simp_all
next
  case False
  then show ?thesis by (simp add: queued_row_def)
qed

lemma rekey_batch_effect:
  assumes inv: "frontier_inv (ps_db s)" and rows: "\<forall>u \<in> set us. src_row (ps_db s) h u src"
    and dist: "distinct us" and lane: "lane < lane_count"
    and run: "rekey_batch e h lane src us n s = ((m, None), s')"
  shows "frontier_inv (ps_db s')"
    and "entry_at (ps_db s') = (\<lambda>u. if u \<in> set us then lane_set lane (entry_at (ps_db s) u)
      else entry_at (ps_db s) u)"
    and "m = n + length (filter (other_lane (ps_db s) lane) us)"
    and "\<And>u l lg. u \<notin> set us \<Longrightarrow> canonical_url u \<Longrightarrow> (\<not> lg \<Longrightarrow> l < lane_count)
      \<Longrightarrow> queued_row (ps_db s') h u l lg = queued_row (ps_db s) h u l lg"
proof -
  let ?db = "ps_db s"
  let ?ps = "map (\<lambda>u. (u, rekey_part ?db h lane src u)) us"
  obtain ops where ops: "rekey_loop e ?db h lane src us [] n = Inr (ops, m)" "commit e ops s = Inr s'"
    using run by (auto simp: rekey_batch_def split: sum.splits prod.splits)
  have l: "ops = concat (map snd ?ps)" "m = n + length (filter (other_lane ?db lane) us)"
    using rekey_loop_Inr [OF ops(1) rows] by (simp_all add: comp_def)
  have s': "ps_db s' = apply_batch (concat (map snd ?ps)) ?db"
    using ops(2) l by (auto simp: commit_def split: if_splits)
  have can: "canonical_url u" if "u \<in> set us" for u
    using rows that canonical_src_row [OF inv] by blast
  have part: "local_ops u (rekey_part ?db h lane src u)"
    "url_inv (fmlookup (apply_batch (rekey_part ?db h lane src u) ?db)) u"
    "entry_at (apply_batch (rekey_part ?db h lane src u) ?db) u = lane_set lane (entry_at ?db u)"
    if u: "u \<in> set us" for u
  proof -
    have row: "queued_row ?db h u (case src of None \<Rightarrow> 0 | Some l \<Rightarrow> l) (src = None)"
      using rows u by (auto simp: src_row_def)
    from queued_rowD [OF row] obtain en where en: "entry_at ?db u = Some en" "fe_status en = st_queued"
      by blast
    have ui: "url_inv (fmlookup ?db) u" using inv can [OF u] by (simp add: frontier_inv_def)
    have "local_ops u (rekey_part ?db h lane src u)
      \<and> url_inv (fmlookup (apply_batch (rekey_part ?db h lane src u) ?db)) u
      \<and> entry_at (apply_batch (rekey_part ?db h lane src u) ?db) u = lane_set lane (entry_at ?db u)"
    proof (cases "fe_lane en = lane")
      case True
      then have "en\<lparr>fe_lane := lane\<rparr> = en" by simp
      with True en ui show ?thesis by (simp add: rekey_part_def local_ops_def lane_set_def)
    next
      case False
      with en rekey_ops_effect [OF inv row en(1) lane] show ?thesis
        by (simp add: rekey_part_def lane_set_def)
    qed
    then show "local_ops u (rekey_part ?db h lane src u)"
      "url_inv (fmlookup (apply_batch (rekey_part ?db h lane src u) ?db)) u"
      "entry_at (apply_batch (rekey_part ?db h lane src u) ?db) u = lane_set lane (entry_at ?db u)"
      by blast+
  qed
  have sb: "snapshot_batch ?ps"
    unfolding snapshot_batch_def using dist can part(1) by (auto simp: comp_def)
  show "frontier_inv (ps_db s')"
    unfolding s' using part(2) by (intro snapshot_batch_inv [OF inv sb]) auto
  have "entry_at (ps_db s') = (\<lambda>u. if u \<in> fst ` set ?ps then lane_set lane (entry_at ?db u) else entry_at ?db u)"
    unfolding s' using part(3) by (intro snapshot_batch_entry [OF sb]) auto
  then show "entry_at (ps_db s') = (\<lambda>u. if u \<in> set us then lane_set lane (entry_at (ps_db s) u)
      else entry_at (ps_db s) u)" by (simp add: image_image)
  show "m = n + length (filter (other_lane (ps_db s) lane) us)" by (rule l(2))
  show "queued_row (ps_db s') h u l lg = queued_row ?db h u l lg"
    if "u \<notin> set us" "canonical_url u" "\<not> lg \<Longrightarrow> l < lane_count" for u l lg
    using that unfolding s'
    by (intro queued_row_local_cong snapshot_batch_frame [OF sb]) (simp_all add: image_image)
qed

lemma rekey_chunks_effect:
  assumes "frontier_inv (ps_db s)" and "\<forall>u \<in> set us. src_row (ps_db s) h u src"
    and "distinct us" and lane: "lane < lane_count" and src: "\<forall>l. src = Some l \<longrightarrow> l < lane_count"
    and "rekey_chunks e h lane src us n s = ((m, None), s')"
  shows "frontier_inv (ps_db s')
    \<and> entry_at (ps_db s') = (\<lambda>u. if u \<in> set us then lane_set lane (entry_at (ps_db s) u)
      else entry_at (ps_db s) u)
    \<and> m = n + length (filter (other_lane (ps_db s) lane) us)
    \<and> (\<forall>u l lg. u \<notin> set us \<longrightarrow> canonical_url u \<longrightarrow> (\<not> lg \<longrightarrow> l < lane_count)
      \<longrightarrow> queued_row (ps_db s') h u l lg = queued_row (ps_db s) h u l lg)"
  using assms(1-3,6)
proof (induction "length us" arbitrary: us n s rule: less_induct)
  case less
  show ?case
  proof (cases "us = []")
    case True
    with less.prems(4) have "m = n" "s' = s" by (simp_all add: rekey_chunks.simps)
    with True less.prems(1) show ?thesis by simp
  next
    case False
    let ?a = "take 1024 us" and ?b = "drop 1024 us"
    obtain m1 s1 where 1: "rekey_batch e h lane src ?a n s = ((m1, None), s1)"
      and 2: "rekey_chunks e h lane src ?b m1 s1 = ((m, None), s')"
      using less.prems(4) False
      by (subst (asm) (2) rekey_chunks.simps) (auto split: prod.splits option.splits)
    have ab: "set us = set ?a \<union> set ?b" by (metis append_take_drop_id set_append)
    have disj: "set ?a \<inter> set ?b = {}" using less.prems(3)
      by (metis append_take_drop_id distinct_append)
    have da: "distinct ?a" and db: "distinct ?b" using less.prems(3) by simp_all
    have ra: "\<forall>u \<in> set ?a. src_row (ps_db s) h u src" using less.prems(2) ab by blast
    note b = rekey_batch_effect [OF less.prems(1) ra da lane 1]
    have rb: "\<forall>u \<in> set ?b. src_row (ps_db s1) h u src"
    proof
      fix u assume u: "u \<in> set ?b"
      then have "src_row (ps_db s) h u src" "u \<notin> set ?a" using less.prems(2) ab disj by blast+
      moreover have "canonical_url u" using canonical_src_row [OF less.prems(1)] calculation(1) by blast
      ultimately show "src_row (ps_db s1) h u src"
        using b(4) [of u "src = None" "case src of None \<Rightarrow> 0 | Some l \<Rightarrow> l"] src
        by (simp add: src_row_def split: option.splits)
    qed
    have "length ?b < length us" using False by simp
    from less.hyps [OF this b(1) rb db 2] have ih: "frontier_inv (ps_db s')"
      "entry_at (ps_db s') = (\<lambda>u. if u \<in> set ?b then lane_set lane (entry_at (ps_db s1) u) else entry_at (ps_db s1) u)"
      "m = m1 + length (filter (other_lane (ps_db s1) lane) ?b)"
      "\<And>u l lg. u \<notin> set ?b \<Longrightarrow> canonical_url u \<Longrightarrow> (\<not> lg \<Longrightarrow> l < lane_count)
        \<Longrightarrow> queued_row (ps_db s') h u l lg = queued_row (ps_db s1) h u l lg" by blast+
    have fl: "filter (other_lane (ps_db s1) lane) ?b = filter (other_lane (ps_db s) lane) ?b"
    proof (rule filter_cong [OF refl])
      fix u assume "u \<in> set ?b"
      with disj have "u \<notin> set ?a" by blast
      then show "other_lane (ps_db s1) lane u = other_lane (ps_db s) lane u"
        by (simp add: other_lane_def b(2))
    qed
    have m: "m = n + length (filter (other_lane (ps_db s) lane) us)"
    proof -
      have "length (filter (other_lane (ps_db s) lane) us)
        = length (filter (other_lane (ps_db s) lane) ?a) + length (filter (other_lane (ps_db s) lane) ?b)"
        by (simp only: length_append [symmetric] filter_append [symmetric] append_take_drop_id)
      with ih(3) b(3) fl show ?thesis by simp
    qed
    have e: "entry_at (ps_db s') = (\<lambda>u. if u \<in> set us then lane_set lane (entry_at (ps_db s) u)
        else entry_at (ps_db s) u)"
    proof
      fix u
      show "entry_at (ps_db s') u = (if u \<in> set us then lane_set lane (entry_at (ps_db s) u)
        else entry_at (ps_db s) u)"
        using ab disj by (cases "u \<in> set ?a"; cases "u \<in> set ?b") (auto simp only: ih(2) b(2) if_True if_False Un_iff simp_thms)
    qed
    have q: "queued_row (ps_db s') h u l lg = queued_row (ps_db s) h u l lg"
      if "u \<notin> set us" "canonical_url u" "\<not> lg \<longrightarrow> l < lane_count" for u l lg
    proof -
      have "u \<notin> set ?a" "u \<notin> set ?b" using that(1) ab by blast+
      then show ?thesis using ih(4) [of u lg l] b(4) [of u lg l] that(2,3) by simp
    qed
    show ?thesis using ih(1) m e q by blast
  qed
qed

lemma demote_sweep_effect:
  assumes inv: "frontier_inv (ps_db s)" and h: "index_host h" and lane: "lane < lane_count"
    and src: "\<forall>l. src = Some l \<longrightarrow> l < lane_count"
    and run: "demote_sweep e h lane src n s = ((m, None), s')"
  shows "frontier_inv (ps_db s')"
    and "entry_at (ps_db s') = (\<lambda>u. if src_row (ps_db s) h u src then lane_set lane (entry_at (ps_db s) u)
      else entry_at (ps_db s) u)"
    and "m = n + card {u. src_row (ps_db s) h u src \<and> other_lane (ps_db s) lane u}"
    and "\<And>u l lg. \<not> src_row (ps_db s) h u src \<Longrightarrow> canonical_url u \<Longrightarrow> (\<not> lg \<Longrightarrow> l < lane_count)
      \<Longrightarrow> queued_row (ps_db s') h u l lg = queued_row (ps_db s) h u l lg"
proof -
  define l0 where "l0 = (case src of None \<Rightarrow> 0 | Some l \<Rightarrow> l)"
  define lg0 where "lg0 = (src = None)"
  have l0: "\<not> lg0 \<Longrightarrow> l0 < lane_count" using src by (auto simp: l0_def lg0_def split: option.splits)
  obtain us where us: "kv_keys (ps_db s) (the_prefix h l0 lg0) (the_upper h l0 lg0) = map (the_key h l0 lg0) us"
    "distinct us" "set us = {u. queued_row (ps_db s) h u l0 lg0}" "\<forall>u \<in> set us. canonical_url u"
    by (rule host_rows [OF inv h l0])
  have pre: "(case src of None \<Rightarrow> host_prefix st_queued h | Some l \<Rightarrow> host_prefix_lane st_queued l h) = the_prefix h l0 lg0"
    "(case src of None \<Rightarrow> host_upper st_queued h | Some l \<Rightarrow> host_upper_lane st_queued l h) = the_upper h l0 lg0"
    by (auto simp: the_prefix_def the_upper_def l0_def lg0_def split: option.splits)
  have ne: "\<forall>u \<in> set us. u \<noteq> []" using us(4) by (auto simp: canonical_url_def extract_host_def)
  have "map (drop (length (the_prefix h l0 lg0))) (filter (\<lambda>k. length (the_prefix h l0 lg0) < length k)
      (map (the_key h l0 lg0) us)) = us"
    using ne by (induction us) (auto simp: the_key_prefix)
  then have run': "rekey_chunks e h lane src us n s = ((m, None), s')"
    using run by (auto simp: demote_sweep_def collect_host_def Let_def pre us(1) split: if_splits)
  have set: "set us = {u. src_row (ps_db s) h u src}"
    using us(3) by (simp add: src_row_def l0_def lg0_def)
  then have rows: "\<forall>u \<in> set us. src_row (ps_db s) h u src" by simp
  note c = rekey_chunks_effect [OF inv rows us(2) lane src run', unfolded set mem_Collect_eq]
  have fl: "length (filter (other_lane (ps_db s) lane) us) = card {u. src_row (ps_db s) h u src \<and> other_lane (ps_db s) lane u}"
  proof -
    have "set (filter (other_lane (ps_db s) lane) us) = {u. src_row (ps_db s) h u src \<and> other_lane (ps_db s) lane u}"
      unfolding set_filter set by blast
    then show ?thesis using distinct_card [OF distinct_filter [OF us(2)]] by metis
  qed
  show "frontier_inv (ps_db s')" by (rule c [THEN conjunct1])
  show "entry_at (ps_db s') = (\<lambda>u. if src_row (ps_db s) h u src then lane_set lane (entry_at (ps_db s) u)
      else entry_at (ps_db s) u)" by (rule c [THEN conjunct2, THEN conjunct1])
  show "m = n + card {u. src_row (ps_db s) h u src \<and> other_lane (ps_db s) lane u}"
    unfolding fl [symmetric] by (rule c [THEN conjunct2, THEN conjunct2, THEN conjunct1])
  show "queued_row (ps_db s') h u l lg = queued_row (ps_db s) h u l lg"
    if "\<not> src_row (ps_db s) h u src" "canonical_url u" "\<not> lg \<Longrightarrow> l < lane_count" for u l lg
    using c [THEN conjunct2, THEN conjunct2, THEN conjunct2] that by blast
qed

lemma rekey_chunks_stops:
  "quiet e \<Longrightarrow> lane < lane_count \<Longrightarrow> \<forall>l. src = Some l \<longrightarrow> l < lane_count
    \<Longrightarrow> frontier_inv (ps_db s) \<Longrightarrow> distinct us \<Longrightarrow> \<forall>u \<in> set us. src_row (ps_db s) h u src
    \<Longrightarrow> \<exists>m s'. rekey_chunks e h lane src us n s = ((m, None), s')"
proof (induction "length us" arbitrary: us n s rule: less_induct)
  case less
  show ?case
  proof (cases "us = []")
    case True
    then show ?thesis by (simp add: rekey_chunks.simps)
  next
    case False
    let ?a = "take 1024 us" and ?b = "drop 1024 us"
    have ab: "set us = set ?a \<union> set ?b" by (metis append_take_drop_id set_append)
    have disj: "set ?a \<inter> set ?b = {}" using less.prems(5)
      by (metis append_take_drop_id distinct_append)
    have ra: "\<forall>u \<in> set ?a. src_row (ps_db s) h u src" using less.prems(6) ab by blast
    have da: "distinct ?a" and db: "distinct ?b" using less.prems(5) by simp_all
    obtain m1 s1 where 1: "rekey_batch e h lane src ?a n s = ((m1, None), s1)"
      using rekey_loop_quiet [OF less.prems(1) ra, of lane "[]" n] less.prems(1)
      by (auto simp: rekey_batch_def commit_def)
    note b = rekey_batch_effect [OF less.prems(4) ra da less.prems(2) 1]
    have rb: "\<forall>u \<in> set ?b. src_row (ps_db s1) h u src"
    proof
      fix u assume u: "u \<in> set ?b"
      then have "src_row (ps_db s) h u src" "u \<notin> set ?a" using less.prems(6) ab disj by blast+
      moreover have "canonical_url u" using canonical_src_row [OF less.prems(4)] calculation(1) by blast
      ultimately show "src_row (ps_db s1) h u src"
        using b(4) [of u "src = None" "case src of None \<Rightarrow> 0 | Some l \<Rightarrow> l"] less.prems(3)
        by (simp add: src_row_def split: option.splits)
    qed
    have "length ?b < length us" using False by simp
    from less.hyps [OF this less.prems(1,2,3) b(1) db rb] 1 False show ?thesis
      by (subst rekey_chunks.simps) simp
  qed
qed

lemma demote_lanes_effect:
  assumes "frontier_inv (ps_db s)" and h: "index_host h" and lane: "lane < lane_count"
    and "\<forall>l \<in> set ls. l < lane_count" and "distinct ls"
    and "demote_lanes e h lane ls n s = ((m, None), s')"
  shows "frontier_inv (ps_db s')
    \<and> entry_at (ps_db s') = (\<lambda>u. if \<exists>l \<in> set ls. l \<noteq> lane \<and> src_row (ps_db s) h u (Some l)
        then lane_set lane (entry_at (ps_db s) u) else entry_at (ps_db s) u)
    \<and> m = n + (\<Sum>l \<leftarrow> ls. if l = lane then 0 else card {u. src_row (ps_db s) h u (Some l)})"
  using assms(1,4-6)
proof (induction ls arbitrary: n s)
  case Nil
  then show ?case by simp
next
  case (Cons l ls)
  show ?case
  proof (cases "l = lane")
    case True
    with Cons.prems have "demote_lanes e h lane ls n s = ((m, None), s')" by simp
    from Cons.IH [OF Cons.prems(1) _ _ this] Cons.prems(2,3) True show ?thesis by simp
  next
    case False
    obtain m1 s1 where 1: "demote_sweep e h lane (Some l) n s = ((m1, None), s1)"
      and 2: "demote_lanes e h lane ls m1 s1 = ((m, None), s')"
      using Cons.prems(4) False by (auto split: prod.splits option.splits)
    have src: "\<forall>l'. Some l = Some l' \<longrightarrow> l' < lane_count" using Cons.prems(2) by simp
    note c = demote_sweep_effect [OF Cons.prems(1) h lane src 1]
    have row: "src_row (ps_db s1) h u (Some l') = src_row (ps_db s) h u (Some l')"
      if "l' \<in> set ls" "l' \<noteq> lane" for l' u
    proof (cases "src_row (ps_db s) h u (Some l)")
      case True
      have "l' \<noteq> l" using that(1) Cons.prems(3) by auto
      then have a: "\<not> src_row (ps_db s) h u (Some l')"
        using True queued_row_one_lane by (fastforce simp: src_row_def)
      have "entry_at (ps_db s1) u = lane_set lane (entry_at (ps_db s) u)" using c(2) True by simp
      then have "\<not> src_row (ps_db s1) h u (Some l')"
        using that(2) by (auto simp: src_row_def queued_row_def lane_set_def)
      with a show ?thesis by simp
    next
      case F: False
      show ?thesis
      proof (cases "canonical_url u")
        case True
        with c(4) [OF F True, of False l'] that(1) Cons.prems(2) show ?thesis by (simp add: src_row_def)
      next
        case False
        then show ?thesis using canonical_src_row Cons.prems(1) c(1) by blast
      qed
    qed
    have "frontier_inv (ps_db s')
      \<and> entry_at (ps_db s') = (\<lambda>u. if \<exists>l \<in> set ls. l \<noteq> lane \<and> src_row (ps_db s1) h u (Some l)
        then lane_set lane (entry_at (ps_db s1) u) else entry_at (ps_db s1) u)
      \<and> m = m1 + (\<Sum>l \<leftarrow> ls. if l = lane then 0 else card {u. src_row (ps_db s1) h u (Some l)})"
      using Cons.IH [OF c(1) _ _ 2] Cons.prems(2,3) by simp
    note ih = this [THEN conjunct1] this [THEN conjunct2, THEN conjunct1] this [THEN conjunct2, THEN conjunct2]
    have sum: "(\<Sum>l \<leftarrow> ls. if l = lane then 0 else card {u. src_row (ps_db s1) h u (Some l)})
      = (\<Sum>l \<leftarrow> ls. if l = lane then 0 else card {u. src_row (ps_db s) h u (Some l)})"
      using row by (intro arg_cong [where f = sum_list] map_cong refl) auto
    have "{u. src_row (ps_db s) h u (Some l) \<and> other_lane (ps_db s) lane u} = {u. src_row (ps_db s) h u (Some l)}"
      using False by (auto simp: src_row_def queued_row_def other_lane_def)
    with c(3) have m1: "m1 = n + card {u. src_row (ps_db s) h u (Some l)}" by simp
    have ex: "(\<exists>l \<in> set ls. l \<noteq> lane \<and> src_row (ps_db s1) h u (Some l))
        = (\<exists>l \<in> set ls. l \<noteq> lane \<and> src_row (ps_db s) h u (Some l))" for u
      using row by blast
    have idem: "lane_set lane (lane_set lane x) = lane_set lane x" for x
      by (cases x) (simp_all add: lane_set_def)
    have e: "entry_at (ps_db s') = (\<lambda>u. if \<exists>l \<in> set (l # ls). l \<noteq> lane \<and> src_row (ps_db s) h u (Some l)
        then lane_set lane (entry_at (ps_db s) u) else entry_at (ps_db s) u)"
    proof
      fix u
      have "entry_at (ps_db s') u = (if \<exists>l \<in> set ls. l \<noteq> lane \<and> src_row (ps_db s) h u (Some l)
        then lane_set lane (entry_at (ps_db s1) u) else entry_at (ps_db s1) u)"
        by (simp only: ih(2) ex)
      then show "entry_at (ps_db s') u = (if \<exists>l \<in> set (l # ls). l \<noteq> lane \<and> src_row (ps_db s) h u (Some l)
        then lane_set lane (entry_at (ps_db s) u) else entry_at (ps_db s) u)"
        using False by (auto simp: c(2) idem)
    qed
    show ?thesis using ih(1,3) sum m1 False e by simp
  qed
qed

text \<open>After a demotion every queued URL of the host is in the target lane; nothing else changed.\<close>

lemma demote_host_to_lane_effect:
  assumes inv: "frontier_inv (ps_db s)" and h: "index_host h" and lane: "lane < lane_count"
    and run: "demote_host_to_lane e h lane s = ((n, None), s')"
  shows "frontier_inv (ps_db s')"
    and "entry_at (ps_db s') = (\<lambda>u. if u \<in> queued_on (ps_db s) h then lane_set lane (entry_at (ps_db s) u)
      else entry_at (ps_db s) u)"
proof -
  have hn: "h \<noteq> []" using h by (simp add: index_host_def)
  obtain m1 s1 where 1: "demote_sweep e h lane None 0 s = ((m1, None), s1)"
    and 2: "demote_lanes e h lane [0..<lane_count] m1 s1 = ((n, None), s')"
    using run hn lane by (auto simp: demote_host_to_lane_def split: if_splits prod.splits option.splits)
  note c = demote_sweep_effect [OF inv h lane _ 1, simplified]
  note d = demote_lanes_effect [OF c(1) h lane _ _ 2]
  show "frontier_inv (ps_db s')" using d by simp
  have row: "src_row (ps_db s1) h u (Some l) = src_row (ps_db s) h u (Some l)"
    if l: "l < lane_count" "l \<noteq> lane" for l u
  proof (cases "src_row (ps_db s) h u None")
    case True
    then have a: "\<not> src_row (ps_db s) h u (Some l)"
      using queued_row_one_index [OF inv] by (simp add: src_row_def)
    have "entry_at (ps_db s1) u = lane_set lane (entry_at (ps_db s) u)" using c(2) True by simp
    then have "\<not> src_row (ps_db s1) h u (Some l)"
      using l by (auto simp: src_row_def queued_row_def lane_set_def)
    with a show ?thesis by simp
  next
    case F: False
    show ?thesis
    proof (cases "canonical_url u")
      case True
      with c(4) [OF F True, of False l] l show ?thesis by (simp add: src_row_def)
    next
      case False
      then show ?thesis using canonical_src_row inv c(1) by blast
    qed
  qed
  have idem: "lane_set lane (lane_set lane x) = lane_set lane x" for x
    by (cases x) (simp_all add: lane_set_def)
  have e: "entry_at (ps_db s') u = (if (\<exists>l < lane_count. l \<noteq> lane \<and> src_row (ps_db s) h u (Some l))
      \<or> src_row (ps_db s) h u None then lane_set lane (entry_at (ps_db s) u) else entry_at (ps_db s) u)" for u
  proof -
    have "(\<exists>l \<in> set [0..<lane_count]. l \<noteq> lane \<and> src_row (ps_db s1) h u (Some l))
        = (\<exists>l < lane_count. l \<noteq> lane \<and> src_row (ps_db s) h u (Some l))"
      using row by auto
    then have "entry_at (ps_db s') u = (if \<exists>l < lane_count. l \<noteq> lane \<and> src_row (ps_db s) h u (Some l)
        then lane_set lane (entry_at (ps_db s1) u) else entry_at (ps_db s1) u)"
      using d by simp
    then show ?thesis by (auto simp: c(2) idem)
  qed
  have same: "src_row (ps_db s) h u (Some lane) \<Longrightarrow> lane_set lane (entry_at (ps_db s) u) = entry_at (ps_db s) u" for u
    by (auto simp: src_row_def queued_row_def lane_set_def)
  show "entry_at (ps_db s') = (\<lambda>u. if u \<in> queued_on (ps_db s) h then lane_set lane (entry_at (ps_db s) u)
      else entry_at (ps_db s) u)"
  proof
    fix u
    have "u \<in> queued_on (ps_db s) h \<longleftrightarrow> src_row (ps_db s) h u None \<or> (\<exists>l < lane_count. src_row (ps_db s) h u (Some l))"
      unfolding queued_on_rows [OF inv] by (auto simp: src_row_def)
    then show "entry_at (ps_db s') u = (if u \<in> queued_on (ps_db s) h then lane_set lane (entry_at (ps_db s) u)
      else entry_at (ps_db s) u)"
      unfolding e using same by auto
  qed
qed

section \<open>Statistics\<close>

definition with_status :: "bytes kv \<Rightarrow> char \<Rightarrow> bytes set" where
  "with_status db st = {u. \<exists>en. entry_at db u = Some en \<and> fe_status en = st}"

definition has_status :: "char \<Rightarrow> bytes option \<Rightarrow> bool" where
  "has_status st v = (case v of Some (c # _) \<Rightarrow> c = st | _ \<Rightarrow> False)"

lemma tally_status_counts:
  "fs_queued (tally_status vs st) = fs_queued st + length (filter (has_status st_queued) vs)"
  "fs_in_flight (tally_status vs st) = fs_in_flight st + length (filter (has_status st_in_flight) vs)"
  "fs_done (tally_status vs st) = fs_done st + length (filter (has_status st_done) vs)"
  "fs_errored (tally_status vs st) = fs_errored st + length (filter (has_status st_error) vs)"
  by (induction vs st rule: tally_status.induct)
    (auto simp: has_status_def split: option.splits list.splits if_splits)

lemma unpack_status: "unpack_frontier_entry v = Inr en \<Longrightarrow> \<exists>r. v = fe_status en # r"
  by (auto simp: unpack_frontier_entry_def Let_def split: list.splits option.splits sum.splits if_splits)

lemma rows_with_status:
  assumes inv: "frontier_inv db"
  shows "length (filter (has_status st) (map (fmlookup db) (kv_keys db ''fu'' ''fv''))) = card (with_status db st)"
proof -
  obtain us where us: "kv_keys db ''fu'' ''fv'' = map frontier_key us" "distinct us"
    "set us = {u. fmlookup db (frontier_key u) \<noteq> None}" by (rule frontier_row_list)
  have row: "has_status st (fmlookup db (frontier_key u)) = (u \<in> with_status db st)" if "u \<in> set us" for u
  proof -
    have "canonical_url u" using inv us(3) that by (simp add: frontier_inv_def)
    moreover have "fmlookup db (frontier_key u) \<noteq> None" using us(3) that by simp
    ultimately obtain en where en: "entry_at db u = Some en" using inv_entry_None [OF inv] by fastforce
    then obtain v where v: "fmlookup db (frontier_key u) = Some v" "unpack_frontier_entry v = Inr en"
      by (auto simp: entry_at_def split: option.splits sum.splits)
    with unpack_status [OF v(2)] en show ?thesis by (auto simp: has_status_def with_status_def)
  qed
  have "length (filter (has_status st) (map (fmlookup db) (map frontier_key us)))
      = length (filter (\<lambda>u. has_status st (fmlookup db (frontier_key u))) us)"
    by (simp add: filter_map comp_def)
  also have "\<dots> = length (filter (\<lambda>u. u \<in> with_status db st) us)"
    using row by (intro arg_cong [where f = length] filter_cong) auto
  also have "\<dots> = card (set (filter (\<lambda>u. u \<in> with_status db st) us))"
    by (rule distinct_card [symmetric]) (simp add: us(2))
  also have "set (filter (\<lambda>u. u \<in> with_status db st) us) = with_status db st"
    using us(3) by (auto simp: with_status_def entry_at_def split: option.splits)
  finally show ?thesis by (simp add: us(1))
qed

lemma get_frontier_stats_counts:
  assumes inv: "frontier_inv (ps_db s)" and run: "get_frontier_stats e s = Inr st"
  shows "fs_queued st = card (with_status (ps_db s) st_queued)"
    and "fs_in_flight st = card (with_status (ps_db s) st_in_flight)"
    and "fs_done st = card (with_status (ps_db s) st_done)"
    and "fs_errored st = card (with_status (ps_db s) st_error)"
  using run rows_with_status [OF inv]
  by (auto simp: get_frontier_stats_def tally_status_counts split: if_splits)

end
