(* ===== verification/FrontierSpec.thy ===== *)
theory FrontierSpec
  imports FrontierMaint
begin

text \<open>
  What the crawler relies on. The interface \<open>crawl_queue\<close> states the contract of the operations of
  \<open>src/internal/crawler/store_iface.go\<close> over the abstract content of the frontier (a map from URL to
  row) and is interpreted on the \<open>PebbleStore\<close> model. The step relation \<open>frontier_step\<close> orders calls
  of all operations; the run theorems speak of every sequence of calls.
\<close>

section \<open>The interface\<close>

text \<open>A worker claims until the queue reports empty or an error; the claimed items in order.\<close>

fun claims :: "(env \<Rightarrow> 's \<Rightarrow> ('e + frontier_item option) \<times> 's) \<Rightarrow> env list \<Rightarrow> 's \<Rightarrow> frontier_item list \<times> 's" where
  "claims claim [] s = ([], s)"
| "claims claim (e # es) s = (case claim e s of
     (Inr (Some it), s') \<Rightarrow> (case claims claim es s' of (its, s'') \<Rightarrow> (it # its, s''))
   | (_, s') \<Rightarrow> ([], s'))"

definition queued_set :: "(bytes \<Rightarrow> frontier_entry option) \<Rightarrow> bytes set" where
  "queued_set f = {u. \<exists>en. f u = Some en \<and> fe_status en = st_queued}"

locale crawl_queue =
  fixes valid :: "'s \<Rightarrow> bool"
    and rows :: "'s \<Rightarrow> bytes \<Rightarrow> frontier_entry option"
    and claim :: "env \<Rightarrow> 's \<Rightarrow> ('e + frontier_item option) \<times> 's"
    and finish :: "env \<Rightarrow> bytes \<Rightarrow> 's \<Rightarrow> ('e + unit) \<times> 's"
    and recover :: "env \<Rightarrow> 's \<Rightarrow> ('e + unit) \<times> 's"
  assumes claim_valid: "valid s \<Longrightarrow> claim e s = (r, s') \<Longrightarrow> valid s'"
    and claim_some: "valid s \<Longrightarrow> claim e s = (Inr (Some it), s') \<Longrightarrow>
      \<exists>en. rows s (fi_url it) = Some en \<and> fe_status en = st_queued
        \<and> rows s' = (rows s)(fi_url it \<mapsto> en\<lparr>fe_status := st_in_flight\<rparr>)"
    and claim_other: "valid s \<Longrightarrow> claim e s = (r, s') \<Longrightarrow> \<nexists>it. r = Inr (Some it) \<Longrightarrow> rows s' = rows s"
    and claim_quiet: "valid s \<Longrightarrow> quiet e \<Longrightarrow> claim e s = (r, s')
      \<Longrightarrow> (if queued_set (rows s) = {} then r = Inr None else \<exists>it. r = Inr (Some it))"
    and finish_valid: "valid s \<Longrightarrow> finish e u s = (q, s') \<Longrightarrow> valid s'"
    and finish_done: "valid s \<Longrightarrow> finish e u s = (Inr (), s') \<Longrightarrow>
      \<exists>en. rows s u = Some en \<and> rows s' = (rows s)(u \<mapsto> en\<lparr>fe_status := st_done\<rparr>)"
    and recover_valid: "valid s \<Longrightarrow> recover e s = (q, s') \<Longrightarrow> valid s'"
    and recover_all: "valid s \<Longrightarrow> recover e s = (Inr (), s') \<Longrightarrow> rows s' = map_option recovered \<circ> rows s"
    and finitely_many: "valid s \<Longrightarrow> finite {u. rows s u \<noteq> None}"
begin

lemma finite_queued: "valid s \<Longrightarrow> finite (queued_set (rows s))"
  by (rule finite_subset [OF _ finitely_many]) (auto simp: queued_set_def)

lemma claim_removes:
  assumes "valid s" and "claim e s = (Inr (Some it), s')"
  shows "fi_url it \<in> queued_set (rows s)"
    and "queued_set (rows s') = queued_set (rows s) - {fi_url it}"
proof -
  from claim_some [OF assms] obtain en where en: "rows s (fi_url it) = Some en" "fe_status en = st_queued"
    "rows s' = (rows s)(fi_url it \<mapsto> en\<lparr>fe_status := st_in_flight\<rparr>)" by blast
  then show "fi_url it \<in> queued_set (rows s)" by (simp add: queued_set_def)
  show "queued_set (rows s') = queued_set (rows s) - {fi_url it}"
    unfolding en(3) queued_set_def by (auto split: if_splits)
qed

text \<open>Claims hand out every queued URL exactly once, whatever order the scheduler picks.\<close>

lemma claims_sound:
  assumes "valid s" and "claims claim es s = (its, s')"
  shows "valid s' \<and> distinct (map fi_url its) \<and> set (map fi_url its) \<subseteq> queued_set (rows s)
    \<and> queued_set (rows s') = queued_set (rows s) - set (map fi_url its)"
  using assms
proof (induction es arbitrary: s its s')
  case Nil
  then show ?case by simp
next
  case (Cons e es)
  obtain r s1 where c: "claim e s = (r, s1)" by fastforce
  note v = claim_valid [OF Cons.prems(1) c]
  show ?case
  proof (cases "\<exists>it. r = Inr (Some it)")
    case True
    then obtain it where it: "r = Inr (Some it)" ..
    obtain its1 s2 where r: "claims claim es s1 = (its1, s2)" by fastforce
    with Cons.prems(2) c it have eq: "its = it # its1" and s2: "s' = s2" by auto
    note m = claim_removes [OF Cons.prems(1) c [unfolded it]]
    from Cons.IH [OF v r] m show ?thesis by (auto simp: eq s2)
  next
    case False
    then have "its = []" "s' = s1"
      using Cons.prems(2) c by (auto split: sum.splits option.splits)
    with claim_other [OF Cons.prems(1) c False] v show ?thesis by simp
  qed
qed

lemma claims_drain:
  assumes "valid s" and "\<forall>e \<in> set es. quiet e" and "card (queued_set (rows s)) \<le> length es"
    and "claims claim es s = (its, s')"
  shows "set (map fi_url its) = queued_set (rows s) \<and> length its = card (queued_set (rows s))"
  using assms
proof (induction es arbitrary: s its s')
  case Nil
  with finite_queued [OF Nil(1)] show ?case by simp
next
  case (Cons e es)
  obtain r s1 where c: "claim e s = (r, s1)" by fastforce
  have q: "quiet e" using Cons.prems(2) by simp
  note v = claim_valid [OF Cons.prems(1) c]
  show ?case
  proof (cases "queued_set (rows s) = {}")
    case True
    with claim_quiet [OF Cons.prems(1) q c] Cons.prems(4) c show ?thesis by simp
  next
    case False
    with claim_quiet [OF Cons.prems(1) q c] obtain it where it: "r = Inr (Some it)" by auto
    obtain its1 s2 where r: "claims claim es s1 = (its1, s2)" by fastforce
    with Cons.prems(4) c it have eq: "its = it # its1" by auto
    note m = claim_removes [OF Cons.prems(1) c [unfolded it]]
    have k: "card (queued_set (rows s)) = Suc (card (queued_set (rows s1)))"
      using card.remove [OF finite_queued [OF Cons.prems(1)] m(1)] m(2) by simp
    have "set (map fi_url its1) = queued_set (rows s1) \<and> length its1 = card (queued_set (rows s1))"
      by (rule Cons.IH [OF v _ _ r]) (use Cons.prems(2,3) k in simp_all)
    with m k show ?thesis by (auto simp: eq)
  qed
qed

text \<open>After a crash the claimed but unfinished URLs are queued again and nothing else changes status.\<close>

lemma recover_requeues:
  assumes "valid s" and "recover e s = (Inr (), s')"
  shows "queued_set (rows s') = queued_set (rows s) \<union> {u. \<exists>en. rows s u = Some en \<and> fe_status en = st_in_flight}"
proof -
  have "u \<in> queued_set (rows s') \<longleftrightarrow> (\<exists>en. rows s u = Some en \<and> fe_status (recovered en) = st_queued)" for u
    by (auto simp: recover_all [OF assms] queued_set_def)
  then show ?thesis by (auto simp: recovered_def queued_set_def split: if_splits)
qed

end

definition store_valid :: "pebble_store \<Rightarrow> bool" where
  "store_valid s = frontier_inv (ps_db s)"

definition store_rows :: "pebble_store \<Rightarrow> bytes \<Rightarrow> frontier_entry option" where
  "store_rows s = entry_at (ps_db s)"

lemma no_queued_iff: "no_queued f \<longleftrightarrow> queued_set f = {}"
  by (auto simp: no_queued_def queued_set_def)

interpretation frontier: crawl_queue store_valid store_rows claim_frontier complete_frontier recover_in_flight
proof unfold_locales
  fix s s' e r assume v: "store_valid s" and c: "claim_frontier e s = (r, s')"
  note k = claim_frontier_effect [OF v [unfolded store_valid_def] c]
  show "store_valid s'" using k(1) by (simp add: store_valid_def)
  show "\<nexists>it. r = Inr (Some it) \<Longrightarrow> store_rows s' = store_rows s" using k(3) by (simp add: store_rows_def)
  show "quiet e \<Longrightarrow> if queued_set (store_rows s) = {} then r = Inr None else \<exists>it. r = Inr (Some it)"
    using k(4,5) by (auto simp: store_rows_def no_queued_iff)
next
  fix s s' e it assume v: "store_valid s" and c: "claim_frontier e s = (Inr (Some it), s')"
  from claim_frontier_effect(2) [OF v [unfolded store_valid_def] c refl]
  show "\<exists>en. store_rows s (fi_url it) = Some en \<and> fe_status en = st_queued
      \<and> store_rows s' = (store_rows s)(fi_url it \<mapsto> en\<lparr>fe_status := st_in_flight\<rparr>)"
    by (auto simp: store_rows_def)
next
  fix s s' e u and r :: "store_err + unit" assume v: "store_valid s" and c: "complete_frontier e u s = (r, s')"
  from complete_frontier_effect(1) [OF v [unfolded store_valid_def] c] show "store_valid s'"
    by (simp add: store_valid_def)
next
  fix s s' e u assume v: "store_valid s" and c: "complete_frontier e u s = (Inr (), s')"
  note k = complete_frontier_effect(2,3) [OF v [unfolded store_valid_def] c]
  then show "\<exists>en. store_rows s u = Some en \<and> store_rows s' = (store_rows s)(u \<mapsto> en\<lparr>fe_status := st_done\<rparr>)"
    by (auto simp: store_rows_def transition_entry_def)
next
  fix s s' e and r :: "store_err + unit" assume v: "store_valid s" and c: "recover_in_flight e s = (r, s')"
  from recover_in_flight_effect(1) [OF v [unfolded store_valid_def] c] show "store_valid s'"
    by (simp add: store_valid_def)
next
  fix s s' e assume v: "store_valid s" and c: "recover_in_flight e s = (Inr (), s')"
  from recover_in_flight_effect(2) [OF v [unfolded store_valid_def] c refl]
  show "store_rows s' = map_option recovered \<circ> store_rows s" by (simp add: store_rows_def)
next
  fix s assume "store_valid s"
  show "finite {u. store_rows s u \<noteq> None}" unfolding store_rows_def by (rule entry_at_finite)
qed

section \<open>Runs\<close>

datatype frontier_event = EPush bytes | EBatch | EClaim "bytes option" | EComplete bytes | EFail bytes
  | ERecrawl bytes | ERecover | ESweep | EPurge bytes | EDemote bytes | EClear

text \<open>
  One call. Pushed URLs are canonical and depths and clocks are 64-bit values; a failing call is a
  step too, except a host sweep that fails half-way.
\<close>

inductive frontier_step :: "pebble_store \<Rightarrow> frontier_event \<Rightarrow> pebble_store \<Rightarrow> bool" where
  push: "canonical_url u \<Longrightarrow> is_i64 depth \<Longrightarrow> is_i64 (clock e) \<Longrightarrow> pri < 2 ^ 64
    \<Longrightarrow> push_frontier_lane e u depth lane pri s = (r, s') \<Longrightarrow> frontier_step s (EPush u) s'"
| batch: "\<forall>it \<in> set its. item_ok it \<Longrightarrow> distinct (map pi_url its) \<Longrightarrow> is_i64 (clock e)
    \<Longrightarrow> push_frontier_batch e its s = ((n, x), s') \<Longrightarrow> frontier_step s EBatch s'"
| claim: "claim_frontier e s = (r, s')
    \<Longrightarrow> frontier_step s (EClaim (case r of Inr (Some it) \<Rightarrow> Some (fi_url it) | _ \<Rightarrow> None)) s'"
| complete: "complete_frontier e u s = (r, s') \<Longrightarrow> frontier_step s (EComplete u) s'"
| fail: "fail_frontier e u m s = (r, s') \<Longrightarrow> frontier_step s (EFail u) s'"
| recrawl: "recrawl_url e u s = (r, s') \<Longrightarrow> frontier_step s (ERecrawl u) s'"
| recover: "recover_in_flight e s = (r, s') \<Longrightarrow> frontier_step s ERecover s'"
| sweep: "quiet e \<Longrightarrow> purge_stale_in_flight e s = (r, s') \<Longrightarrow> frontier_step s ESweep s'"
| purge: "index_host h \<Longrightarrow> purge_frontier_by_host e h s = ((n, None), s') \<Longrightarrow> frontier_step s (EPurge h) s'"
| demote: "index_host h \<Longrightarrow> lane < lane_count \<Longrightarrow> demote_host_to_lane e h lane s = ((n, None), s')
    \<Longrightarrow> frontier_step s (EDemote h) s'"
| clear: "clear_frontier e ok s = (r, s') \<Longrightarrow> frontier_step s EClear s'"

inductive frontier_run :: "pebble_store \<Rightarrow> frontier_event list \<Rightarrow> pebble_store \<Rightarrow> bool" where
  refl: "frontier_run s [] s"
| step: "frontier_step s ev s1 \<Longrightarrow> frontier_run s1 evs s2 \<Longrightarrow> frontier_run s (ev # evs) s2"

inductive_cases frontier_run_NilE: "frontier_run s [] s'"
inductive_cases frontier_run_ConsE: "frontier_run s (ev # evs) s'"
inductive_simps frontier_step_claim: "frontier_step s (EClaim x) s'"

lemma frontier_step_inv:
  assumes "frontier_step s ev s'" and inv: "frontier_inv (ps_db s)"
  shows "frontier_inv (ps_db s')"
  using assms(1)
proof cases
  case (clear e ok r)
  with clear_frontier_effect(1) inv show ?thesis by metis
next
  case (sweep e r)
  with purge_stale_noop [OF inv] inv show ?thesis by simp
qed (use inv in \<open>blast intro: push_frontier_lane_effect(1) push_frontier_batch_effect(1)
    claim_frontier_effect(1) complete_frontier_effect(1) fail_frontier_effect(1)
    recrawl_url_effect(1) recover_in_flight_effect(1) purge_frontier_by_host_effect(1)
    demote_host_to_lane_effect(1)\<close>)+

lemma frontier_run_inv: "frontier_run s evs s' \<Longrightarrow> frontier_inv (ps_db s) \<Longrightarrow> frontier_inv (ps_db s')"
  by (induction rule: frontier_run.induct) (auto dest: frontier_step_inv)

lemma empty_store_inv [simp]: "frontier_inv (ps_db empty_store)"
  by (rule empty_family_inv) (simp add: empty_store_def)

text \<open>A URL that has been handed out and not queued again since.\<close>

definition handed_out :: "bytes kv \<Rightarrow> bytes \<Rightarrow> bool" where
  "handed_out db u = (\<exists>en. entry_at db u = Some en \<and> fe_status en \<noteq> st_queued)"

definition requeues :: "bytes \<Rightarrow> frontier_event \<Rightarrow> bool" where
  "requeues u ev = (ev = ERecrawl u \<or> ev = ERecover \<or> ev = EClear)"

lemma handed_out_step:
  assumes st: "frontier_step s ev s'" and inv: "frontier_inv (ps_db s)" and h: "handed_out (ps_db s) u"
    and ev: "\<not> requeues u ev"
  shows "handed_out (ps_db s') u"
proof -
  from h obtain en where en: "entry_at (ps_db s) u = Some en" "fe_status en \<noteq> st_queued"
    by (auto simp: handed_out_def)
  from st show ?thesis
  proof cases
    case (push v depth e pri lane r)
    from push_frontier_lane_effect(2) [OF inv push(2-6)] en show ?thesis
      by (auto simp: handed_out_def split: if_splits)
  next
    case (batch its e n x)
    note b = push_frontier_batch_effect [OF inv batch(2-5)]
    show ?thesis
    proof (cases x)
      case None
      have "find (\<lambda>it. pi_url it = u) (new_items (ps_db s) its) = None"
        using en(1) by (auto simp: find_None_iff new_items_def entry_at_def split: option.splits)
      with b(3) [OF None] en show ?thesis by (simp add: handed_out_def)
    next
      case (Some y)
      with b(4) h show ?thesis by simp
    qed
  next
    case (claim e r)
    show ?thesis
    proof (cases "\<exists>it. r = Inr (Some it)")
      case True
      then obtain it where it: "r = Inr (Some it)" ..
      from claim_frontier_effect(2) [OF inv claim(2) it] en show ?thesis
        by (auto simp: handed_out_def)
    next
      case False
      from claim_frontier_effect(3) [OF inv claim(2) False] h show ?thesis by simp
    qed
  next
    case (complete e v r)
    from complete_frontier_effect(2) [OF inv complete(2)] en show ?thesis
      by (auto simp: handed_out_def split: sum.splits)
  next
    case (fail e v m r)
    from fail_frontier_effect(2) [OF inv fail(2)] en show ?thesis
      by (auto simp: handed_out_def split: sum.splits)
  next
    case (recrawl e v r)
    with ev have "v \<noteq> u" by (simp add: requeues_def)
    with recrawl_url_effect(2) [OF inv recrawl(2)] en show ?thesis
      by (auto simp: handed_out_def split: sum.splits)
  next
    case (sweep e r)
    with purge_stale_noop [OF inv] h show ?thesis by simp
  next
    case (purge hst e n)
    have "u \<notin> queued_on (ps_db s) hst" using en by (auto simp: queued_on_def)
    with purge_frontier_by_host_effect(2) [OF inv purge(2,3)] en show ?thesis
      by (simp add: handed_out_def)
  next
    case (demote hst lane e n)
    have "u \<notin> queued_on (ps_db s) hst" using en by (auto simp: queued_on_def)
    with demote_host_to_lane_effect(2) [OF inv demote(2-4)] en show ?thesis
      by (simp add: handed_out_def)
  qed (use ev in \<open>simp_all add: requeues_def\<close>)
qed

lemma handed_out_run:
  "frontier_run s evs s' \<Longrightarrow> frontier_inv (ps_db s) \<Longrightarrow> handed_out (ps_db s) u
    \<Longrightarrow> \<forall>ev \<in> set evs. \<not> requeues u ev \<Longrightarrow> handed_out (ps_db s') u"
proof (induction rule: frontier_run.induct)
  case (refl s)
  then show ?case by simp
next
  case (step s ev s1 evs s2)
  then show ?case by (simp add: frontier_step_inv handed_out_step)
qed

lemma claim_step_handed_out:
  assumes "frontier_step s (EClaim (Some u)) s'" and inv: "frontier_inv (ps_db s)"
  shows "\<not> handed_out (ps_db s) u" and "handed_out (ps_db s') u"
proof -
  from assms(1) obtain e r where c: "claim_frontier e s = (r, s')"
    and r: "Some u = (case r of Inr (Some it) \<Rightarrow> Some (fi_url it) | _ \<Rightarrow> None)"
    by (auto simp: frontier_step_claim)
  from r obtain it where it: "r = Inr (Some it)" "u = fi_url it"
    by (auto split: sum.splits option.splits)
  from claim_frontier_effect(2) [OF inv c it(1)] it(2)
  show "\<not> handed_out (ps_db s) u" and "handed_out (ps_db s') u"
    by (auto simp: handed_out_def)
qed

end
