(* ===== verification/FrontierProps.thy ===== *)
theory FrontierProps
  imports FrontierSpec "HOL-Library.Multiset"
begin

text \<open>The properties of the crawl frontier, each with a concrete instance where it has hypotheses.\<close>

section \<open>Lane schedule\<close>

primrec picks :: "nat \<Rightarrow> pebble_store \<Rightarrow> nat list" where
  "picks 0 s = []"
| "picks (Suc k) s = (case pick_lane s of (l, s') \<Rightarrow> l # picks k s')"

definition lane_at :: "nat \<Rightarrow> nat" where
  "lane_at t = pick_from (t mod 100) 0 0 lane_weights"

lemma picks_ticks:
  "ps_lane_tick s + k < 2 ^ 64
    \<Longrightarrow> picks k s = map lane_at [Suc (ps_lane_tick s)..<Suc (ps_lane_tick s) + k]"
proof (induction k arbitrary: s)
  case 0
  then show ?case by simp
next
  case (Suc k)
  let ?s = "s\<lparr>ps_lane_tick := Suc (ps_lane_tick s)\<rparr>"
  have t: "(ps_lane_tick s + 1) mod 2 ^ 64 = Suc (ps_lane_tick s)" using Suc.prems by simp
  have p: "pick_lane s = (lane_at (Suc (ps_lane_tick s)), ?s)"
    using t by (simp add: pick_lane_def lane_at_def Let_def lane_weights_def)
  have "picks k ?s = map lane_at [Suc (ps_lane_tick ?s)..<Suc (ps_lane_tick ?s) + k]"
    using Suc.prems by (intro Suc.IH) simp
  moreover have "[Suc (ps_lane_tick s)..<Suc (ps_lane_tick s) + Suc k]
      = Suc (ps_lane_tick s) # [Suc (Suc (ps_lane_tick s))..<Suc (Suc (ps_lane_tick s)) + k]"
    by (subst upt_conv_Cons) simp_all
  ultimately show ?case by (simp add: p del: upt_Suc add_Suc_right)
qed

lemma mset_residues: "0 < n \<Longrightarrow> mset (map (\<lambda>i. i mod n) [a..<a + n]) = mset [0..<n]"
proof (induction a)
  case 0
  have "map (\<lambda>i. i mod n) [0..<n] = map (\<lambda>i. i) [0..<n]" by (rule map_cong) auto
  then show ?case by simp
next
  case (Suc a)
  then obtain m where n: "n = Suc m" by (cases n) auto
  have a: "[a..<a + n] = a # [Suc a..<a + n]" by (simp add: n upt_rec)
  have b: "[Suc a..<Suc a + n] = [Suc a..<a + n] @ [a + n]" by (simp add: n)
  have "mset (map (\<lambda>i. i mod n) [Suc a..<Suc a + n])
      = add_mset ((a + n) mod n) (mset (map (\<lambda>i. i mod n) [Suc a..<a + n]))"
    unfolding b by simp
  also have "\<dots> = mset (map (\<lambda>i. i mod n) [a..<a + n])" unfolding a by simp
  also have "\<dots> = mset [0..<n]" using Suc by simp
  finally show ?case .
qed

lemma lane_window: "mset (map lane_at [a..<a + 100]) = mset (map lane_at [0..<100])"
proof -
  have "map lane_at xs = map lane_at (map (\<lambda>i. i mod 100) xs)" for xs
    by (simp add: lane_at_def)
  then have "mset (map lane_at [a..<a + 100]) = image_mset lane_at (mset (map (\<lambda>i. i mod 100) [a..<a + 100]))"
    by (metis mset_map)
  also have "\<dots> = image_mset lane_at (mset [0..<100])" by (subst mset_residues) simp_all
  finally show ?thesis by (metis mset_map)
qed

lemma lane_counts: "l < lane_count \<Longrightarrow> count (mset (map lane_at [0..<100])) l = lane_weights ! l"
proof -
  assume "l < lane_count"
  then have "l \<in> {0, 1, 2, 3}" by (auto simp: lane_count_def)
  moreover have "\<forall>l \<in> set [0, 1, 2, 3]. count_list (map lane_at [0..<100]) l = lane_weights ! l"
    by code_simp
  moreover have "count (mset xs) l = count_list xs l" for xs by (induction xs) auto
  ultimately show ?thesis by (auto simp del: mset_map)
qed

text \<open>any 100 consecutive claims try the four lanes first exactly 50, 30, 15 and 5 times
  (submitted, refresh, discovered, bulk), as the weights say, as long as the 64-bit tick does not wrap.\<close>

lemma lane_schedule_weighted:
  assumes "ps_lane_tick s + 100 < 2 ^ 64" and "l < lane_count"
  shows "count (mset (picks 100 s)) l = lane_weights ! l"
  unfolding picks_ticks [OF assms(1)] lane_window by (rule lane_counts [OF assms(2)])

lemma lane_schedule_weighted_witness:
  "count (mset (picks 100 (empty_store\<lparr>ps_lane_tick := 77\<rparr>))) lane_refresh = 30"
  using lane_schedule_weighted [of "empty_store\<lparr>ps_lane_tick := 77\<rparr>" lane_refresh]
  by (simp add: lane_defs lane_weights_def)

section \<open>Instances\<close>

definition url_a :: bytes where "url_a = ''http://a.co/x''"
definition url_b :: bytes where "url_b = ''http://b.org/y''"
definition url_c :: bytes where "url_c = ''http://a.com/z''"

definition push_all :: "bytes list \<Rightarrow> pebble_store \<Rightarrow> pebble_store" where
  "push_all us s = fold (\<lambda>u s. snd (push_frontier_lane (calm_env 1) u 0 2 1 s)) us s"

definition claim_next :: "pebble_store \<Rightarrow> (store_err + frontier_item option) \<times> pebble_store" where
  "claim_next s = claim_frontier (calm_env 1) s"

definition item_of :: "bytes \<Rightarrow> frontier_item" where
  "item_of u = \<lparr>fi_url = u, fi_depth = 0, fi_priority = 1\<rparr>"

lemma canonical_instances [simp]: "canonical_url url_a" "canonical_url url_b" "canonical_url url_c"
  by code_simp+

lemma push_step: "canonical_url u \<Longrightarrow> frontier_step s (EPush u) (push_all [u] s)"
  by (rule frontier_step.push [where depth = 0 and e = "calm_env 1" and pri = 1 and lane = 2
        and r = "fst (push_frontier_lane (calm_env 1) u 0 2 1 s)"])
    (simp_all add: is_i64_def calm_env_def push_all_def)

lemma claim_step: "fst (claim_next s) = Inr (Some (item_of u))
    \<Longrightarrow> frontier_step s (EClaim (Some u)) (snd (claim_next s))"
proof -
  assume f: "fst (claim_next s) = Inr (Some (item_of u))"
  have "claim_frontier (calm_env 1) s = (fst (claim_next s), snd (claim_next s))"
    by (simp add: claim_next_def)
  from frontier_step.claim [OF this] show ?thesis by (simp add: f item_of_def)
qed

lemma recover_step: "frontier_step s ERecover (snd (recover_in_flight (calm_env 1) s))"
  by (rule frontier_step.recover [where e = "calm_env 1" and r = "fst (recover_in_flight (calm_env 1) s)"]) simp

lemma push_all_inv: "\<forall>u \<in> set us. canonical_url u \<Longrightarrow> frontier_inv (ps_db s) \<Longrightarrow> frontier_inv (ps_db (push_all us s))"
proof (induction us arbitrary: s)
  case Nil
  then show ?case by (simp add: push_all_def)
next
  case (Cons u us)
  have "frontier_inv (ps_db (push_all [u] s))"
    using frontier_step_inv [OF push_step] Cons.prems by simp
  moreover have "push_all (u # us) s = push_all us (push_all [u] s)" by (simp add: push_all_def)
  ultimately show ?case using Cons by simp
qed

definition two_queued :: pebble_store where "two_queued = push_all [url_a, url_b] empty_store"

lemma two_queued_inv [simp]: "frontier_inv (ps_db two_queued)"
  unfolding two_queued_def by (rule push_all_inv) simp_all

section \<open>Invariant and exclusive claims\<close>





section \<open>Claiming\<close>

text \<open>C9: a claim that returns a URL returns one whose row was queued, with the stored depth and
  priority, and changes exactly that row, to in flight; every other outcome leaves the rows alone; in an
  environment without failures it finds a URL whenever one is queued.\<close>

lemma claim_correct:
  assumes "frontier_inv (ps_db s)" and "claim_frontier e s = (r, s')"
  shows "(case r of
      Inr (Some it) \<Rightarrow> (\<exists>en. entry_at (ps_db s) (fi_url it) = Some en \<and> fe_status en = st_queued
        \<and> fi_depth it = fe_depth en \<and> fi_priority it = fe_priority en
        \<and> entry_at (ps_db s') = (entry_at (ps_db s))(fi_url it \<mapsto> en\<lparr>fe_status := st_in_flight\<rparr>))
    | _ \<Rightarrow> ps_db s' = ps_db s)
    \<and> frontier_inv (ps_db s')
    \<and> (quiet e \<longrightarrow> (if queued_set (entry_at (ps_db s)) = {} then r = Inr None else \<exists>it. r = Inr (Some it)))"
  using claim_frontier_effect [OF assms]
  by (auto simp: no_queued_iff split: sum.split option.split)

lemma claim_correct_witness:
  "\<exists>en. entry_at (ps_db two_queued) url_a = Some en
    \<and> entry_at (ps_db (snd (claim_next two_queued)))
      = (entry_at (ps_db two_queued))(url_a \<mapsto> en\<lparr>fe_status := st_in_flight\<rparr>)"
proof -
  have "fst (claim_next two_queued) = Inr (Some (item_of url_a))" by code_simp
  then have "claim_frontier (calm_env 1) two_queued = (Inr (Some (item_of url_a)), snd (claim_next two_queued))"
    unfolding claim_next_def by (metis prod.collapse)
  from claim_correct [OF two_queued_inv this] show ?thesis by (auto simp: item_of_def)
qed

text \<open>C13: draining: from any valid store, as many undisturbed claims as URLs are queued hand out every
  queued URL exactly once, whatever the lanes, cursors and hosts.\<close>

lemma claims_hand_out_all:
  assumes "frontier_inv (ps_db s)" and "\<forall>e \<in> set es. quiet e"
    and "card (queued_set (entry_at (ps_db s))) \<le> length es" and "claims claim_frontier es s = (its, s')"
  shows "distinct (map fi_url its) \<and> set (map fi_url its) = queued_set (entry_at (ps_db s))"
  using frontier.claims_sound [OF _ assms(4)] frontier.claims_drain [OF _ assms(2) _ assms(4)] assms(1,3)
  by (simp add: store_valid_def store_rows_def)

lemma two_queued_set: "queued_set (entry_at (ps_db two_queued)) \<subseteq> {url_a, url_b}"
proof
  fix u assume "u \<in> queued_set (entry_at (ps_db two_queued))"
  then have "frontier_key u \<in> set (kv_keys (ps_db two_queued) ''fu'' ''fv'')"
    unfolding frontier_rows queued_set_def by (auto simp: entry_at_def split: option.splits)
  moreover have "kv_keys (ps_db two_queued) ''fu'' ''fv'' = [frontier_key url_a, frontier_key url_b]"
    by code_simp
  ultimately show "u \<in> {url_a, url_b}" by auto
qed

lemma claims_hand_out_all_witness:
  "set (map fi_url (fst (claims claim_frontier (replicate 2 (calm_env 1)) two_queued)))
    = queued_set (entry_at (ps_db two_queued))"
proof -
  have "card (queued_set (entry_at (ps_db two_queued))) \<le> card {url_a, url_b}"
    by (rule card_mono [OF _ two_queued_set]) simp
  also have "\<dots> \<le> 2" by (simp add: card_insert_if)
  finally have c: "card (queued_set (entry_at (ps_db two_queued))) \<le> length (replicate 2 (calm_env 1))" by simp
  have q: "\<forall>e \<in> set (replicate 2 (calm_env 1)). quiet e" by simp
  from claims_hand_out_all [OF two_queued_inv q c] show ?thesis by (metis prod.collapse)
qed

section \<open>Politeness\<close>

lemma try_lanes_fair:
  assumes "frontier_inv (ps_db s)" and "\<forall>l \<in> set ls. l < lane_count"
    and "try_lanes e busy ls s = (Some (h, u, l), s')" and "canonical_url v"
    and "queued_row (ps_db s) (extract_host v) v l False" and "extract_host v \<notin> set busy"
  shows "h \<notin> set busy"
  using assms
proof (induction ls arbitrary: s)
  case Nil
  then show ?case by simp
next
  case (Cons k ls)
  obtain q s1 where q: "scan_lane_for_free_host e k busy s = (q, s1)" by fastforce
  have k: "k < lane_count" using Cons.prems(2) by simp
  note c = scan_lane_sound [OF Cons.prems(1) k q]
  show ?case
  proof (cases q)
    case None
    then have "try_lanes e busy ls s1 = (Some (h, u, l), s')" using Cons.prems(3) q by simp
    then show ?thesis using Cons.IH [of s1] Cons.prems c(1) by simp
  next
    case (Some p)
    then have "q = Some (h, u)" "k = l" using Cons.prems(3) q by (cases p, auto)+
    then show ?thesis using c(3) Cons.prems(4-6) by blast
  qed
qed

lemma pick_row_fair:
  assumes inv: "frontier_inv (ps_db s)" and run: "pick_row e s = (Some (h, u, l, False), s')"
    and v: "canonical_url v" "queued_row (ps_db s) (extract_host v) v l False"
      "extract_host v \<notin> set (inflight_hosts (ps_db s))"
  shows "h \<notin> set (inflight_hosts (ps_db s))"
proof -
  let ?busy = "inflight_hosts (ps_db s)"
  obtain c s1 where 1: "pick_lane s = (c, s1)" by fastforce
  obtain q s2 where 2: "try_lanes e ?busy (c # lane_order_without c) s1 = (q, s2)" by fastforce
  have "q = Some (h, u, l)"
    using run 1 2 by (auto simp: pick_row_def Let_def split: option.splits prod.splits if_splits)
  moreover have "\<forall>l \<in> set (c # lane_order_without c). l < lane_count"
    using lanes_tried [OF pick_lane_simps(1) [OF 1]] by simp
  ultimately show ?thesis
    using try_lanes_fair [of s1 "c # lane_order_without c" e ?busy h u l s2 v] 2 inv v
      pick_lane_simps(2) [OF 1] by simp
qed

lemma claim_row:
  assumes inv: "frontier_inv (ps_db s)" and run: "claim_frontier e s = (Inr (Some it), s')"
  obtains h u0 l lg s1 where "pick_row e s = (Some (h, u0, l, lg), s1)"
    and "queued_row (ps_db s) h (fi_url it) l lg"
proof -
  obtain q s1 where q: "pick_row e s = (q, s1)" by fastforce
  note p = pick_row_sound [OF inv q]
  from run q have "q \<noteq> None" by (cases q) (auto simp: claim_frontier_def split: if_splits)
  then obtain h u0 l lg where qs: "q = Some (h, u0, l, lg)" by (cases q) auto
  from p(2) [OF qs] have c0: "canonical_url u0" and row0: "queued_row (ps_db s) h u0 l lg"
    and l: "\<not> lg \<Longrightarrow> l < lane_count" by auto
  have h: "index_host h" using queued_rowD [OF row0] extract_host_index_host [OF c0] by simp
  then have hn: "h \<noteq> []" by (simp add: index_host_def)
  have "fi_url it = (case probe_for_novel_url e (ps_db s1) h l lg of None \<Rightarrow> u0 | Some u \<Rightarrow> u)"
    using run q qs hn
    by (auto simp: claim_frontier_def Let_def commit_def split: if_splits sum.splits option.splits)
  then have "queued_row (ps_db s) h (fi_url it) l lg"
    using row0 probe_sound [OF inv h l] p(1) by (auto split: option.splits)
  with q qs show thesis by (intro that) auto
qed

lemma inflight_hosts_set:
  assumes inv: "frontier_inv db"
  shows "set (inflight_hosts db) = extract_host ` with_status db st_in_flight"
proof
  show "set (inflight_hosts db) \<subseteq> extract_host ` with_status db st_in_flight"
  proof
    fix h assume "h \<in> set (inflight_hosts db)"
    then obtain k where k: "k \<in> set (kv_keys db ''fi'' ''fj'')" "h = decode_frontier_index_host k"
      by (auto simp: inflight_hosts_def)
    from in_flight_index_key [OF inv k(1)] k(2) show "h \<in> extract_host ` with_status db st_in_flight"
      unfolding with_status_def by blast
  qed
  show "extract_host ` with_status db st_in_flight \<subseteq> set (inflight_hosts db)"
  proof
    fix h assume "h \<in> extract_host ` with_status db st_in_flight"
    then obtain u en where u: "h = extract_host u" "entry_at db u = Some en" "fe_status en = st_in_flight"
      by (auto simp: with_status_def)
    note i = invD [OF inv u(2)]
    have ih: "index_host h" using extract_host_index_host [OF i(1)] u(1) by simp
    have l: "fe_lane en < lane_count" using i(2) by (simp add: entry_good_def)
    have "fmlookup db (frontier_status_index_key st_in_flight h u) \<noteq> None
        \<or> fmlookup db (frontier_status_index_key_lane st_in_flight (fe_lane en) h u) \<noteq> None"
      using i(4) u by (auto simp: index_ok_def)
    then obtain k where k: "fmlookup db k \<noteq> None" "k = CHR ''f'' # st_in_flight # drop 2 k"
      "decode_frontier_index_host k = h"
    proof (elim disjE)
      assume "fmlookup db (frontier_status_index_key st_in_flight h u) \<noteq> None"
      then show thesis
        by (rule that) (simp_all add: frontier_status_index_key_def decode_index_key [OF ih, unfolded frontier_status_index_key_def])
    next
      assume "fmlookup db (frontier_status_index_key_lane st_in_flight (fe_lane en) h u) \<noteq> None"
      then show thesis
        by (rule that) (simp_all add: frontier_status_index_key_lane_def
            decode_index_key_lane [OF ih l, unfolded frontier_status_index_key_lane_def])
    qed
    from k(2) have "''fi'' \<le> k \<and> k < ''fj''" unfolding in_flight_range by blast
    with k(1) have "k \<in> set (kv_keys db ''fi'' ''fj'')" by (simp add: set_kv_keys)
    moreover have "h \<noteq> []" using ih by (simp add: index_host_def)
    ultimately show "h \<in> set (inflight_hosts db)" using k(3) by (force simp: inflight_hosts_def)
  qed
qed

text \<open>host politeness: a claim from a lane takes a URL of a host with a fetch in flight only when
  every host queued in that lane has one.\<close>

lemma claim_polite:
  assumes inv: "frontier_inv (ps_db s)" and run: "claim_frontier e s = (Inr (Some it), s')"
    and lane: "queued_row (ps_db s) (extract_host (fi_url it)) (fi_url it) l False"
    and v: "queued_row (ps_db s) (extract_host v) v l False"
      "extract_host v \<notin> extract_host ` with_status (ps_db s) st_in_flight"
  shows "extract_host (fi_url it) \<notin> extract_host ` with_status (ps_db s) st_in_flight"
proof -
  obtain h u0 l' lg s1 where p: "pick_row e s = (Some (h, u0, l', lg), s1)"
    "queued_row (ps_db s) h (fi_url it) l' lg" by (rule claim_row [OF inv run])
  have h: "h = extract_host (fi_url it)" using queued_rowD [OF p(2)] by simp
  have lg: "\<not> lg"
  proof
    assume lg
    with p(2) have "queued_row (ps_db s) h (fi_url it) 0 True" unfolding queued_row_def by auto
    from queued_row_one_index [OF inv this] lane h show False by blast
  qed
  with p(2) lane h have "l' = l" using queued_row_one_lane by simp
  moreover have "canonical_url v" using queued_rowD [OF v(1)] invD(1) [OF inv] by blast
  ultimately show ?thesis
    using pick_row_fair [OF inv, of e h u0 l s1 v] p(1) lg v h inflight_hosts_set [OF inv] by simp
qed

lemma claim_polite_witness:
  "extract_host url_a \<notin> extract_host ` with_status (ps_db two_queued) st_in_flight"
proof -
  have c: "fst (claim_next two_queued) = Inr (Some (item_of url_a))" by code_simp
  have run: "claim_frontier (calm_env 1) two_queued = (Inr (Some (item_of url_a)), snd (claim_next two_queued))"
    using c unfolding claim_next_def by (metis prod.collapse)
  have e: "entry_at (ps_db two_queued) u = Some (queued_entry 0 1 1 (extract_host u) 2)"
    if "u \<in> {url_a, url_b}" for u
  proof -
    have "entry_at (ps_db two_queued) url_a = Some (queued_entry 0 1 1 (extract_host url_a) 2)"
      "entry_at (ps_db two_queued) url_b = Some (queued_entry 0 1 1 (extract_host url_b) 2)"
      by code_simp+
    with that show ?thesis by auto
  qed
  have k: "fmlookup (ps_db two_queued) (frontier_status_index_key_lane st_queued 2 (extract_host url_a) url_a) = Some []"
    "fmlookup (ps_db two_queued) (frontier_status_index_key_lane st_queued 2 (extract_host url_b) url_b) = Some []"
    by code_simp+
  have rows: "queued_row (ps_db two_queued) (extract_host (fi_url (item_of url_a))) (fi_url (item_of url_a)) 2 False"
    "queued_row (ps_db two_queued) (extract_host url_b) url_b 2 False"
    using e k by (simp_all add: queued_row_def queued_entry_def item_of_def)
  have "with_status (ps_db two_queued) st_in_flight = {}"
  proof -
    have "length (inflight_hosts (ps_db two_queued)) = 0" by code_simp
    then show ?thesis using inflight_hosts_set [OF two_queued_inv] by simp
  qed
  then have "extract_host url_b \<notin> extract_host ` with_status (ps_db two_queued) st_in_flight" by simp
  from claim_polite [OF two_queued_inv run rows this] show ?thesis by (simp add: item_of_def)
qed

section \<open>The cursor\<close>

text \<open>
  After a pick the cursor is the host followed by byte \<open>0xFF\<close>, while the host's rows end with byte
  \<open>0x00\<close>: the rows of every other host that extends the picked one lie below the cursor too.
\<close>

text \<open>the lane cursor passes over more than the picked host: it also skips every host whose name
  extends it (\<open>a.co\<close> and \<open>a.com\<close>, or the same host with a port), so the next pass does not see them.\<close>

lemma lane_cursor_skips_longer_host:
  assumes "scan_lane_for_free_host e l busy s = (Some (h, u), s')" and "l < length (ps_lane_cursors s)"
    and "t \<noteq> []" and "CHR 0xFF \<notin> set t"
  shows "frontier_status_index_key_lane st_queued l (h @ t) v < ps_lane_cursors s' ! l"
proof -
  have c: "ps_lane_cursors s' ! l = CHR ''f'' # CHR ''q'' # char_of l # h @ [CHR 0xFF]"
    using assms(1,2)
    by (auto simp: scan_lane_for_free_host_def Let_def split: if_splits option.splits)
  obtain x r where t: "t = x # r" using assms(3) by (cases t) auto
  have "x \<noteq> CHR 0xFF" using assms(4) t by auto
  then have "byte_val x \<noteq> 255" using of_char_eq_iff [of x "CHR 0xFF"] by simp
  moreover have "byte_val x < 256" by (metis of_char_mod_256 mod_less_divisor zero_less_numeral)
  ultimately have "byte_val x < 255" by linarith
  then have "x < CHR 0xFF" by (simp add: char_less_val)
  then show ?thesis by (simp add: c frontier_status_index_key_lane_def t)
qed

lemma lane_cursor_skips_longer_host_witness:
  "frontier_status_index_key_lane st_queued 2 (''a.co'' @ ''m'') url_c
    < ps_lane_cursors (snd (scan_lane_for_free_host (calm_env 1) 2 [] two_queued)) ! 2"
proof -
  have "fst (scan_lane_for_free_host (calm_env 1) 2 [] two_queued) = Some (''a.co'', url_a)" by code_simp
  then have "scan_lane_for_free_host (calm_env 1) 2 [] two_queued
      = (Some (''a.co'', url_a), snd (scan_lane_for_free_host (calm_env 1) 2 [] two_queued))"
    by (metis prod.collapse)
  moreover have "2 < length (ps_lane_cursors two_queued)" by code_simp
  ultimately show ?thesis by (rule lane_cursor_skips_longer_host) simp_all
qed

section \<open>Pushing, maintenance, statistics\<close>

text \<open>a batch push of distinct URLs that succeeds adds exactly the URLs the frontier does not know
  yet, queued in their clamped lane, counts them, and changes no known row; a failed one changes
  nothing.\<close>

lemma batch_push_adds_new:
  assumes "frontier_inv (ps_db s)" and "\<forall>it \<in> set its. item_ok it" and "distinct (map pi_url its)"
    and "is_i64 (clock e)" and "push_frontier_batch e its s = ((n, x), s')"
  shows "frontier_inv (ps_db s') \<and> (case x of
      None \<Rightarrow> n = length (new_items (ps_db s) its)
        \<and> entry_at (ps_db s') = (\<lambda>u. case find (\<lambda>it. pi_url it = u) (new_items (ps_db s) its) of
            Some it \<Rightarrow> Some (item_entry e it) | None \<Rightarrow> entry_at (ps_db s) u)
    | Some _ \<Rightarrow> ps_db s' = ps_db s)"
  using push_frontier_batch_effect [OF assms] by (auto split: option.split)

definition batch_of :: "bytes list \<Rightarrow> frontier_push_item list" where
  "batch_of us = map (\<lambda>u. \<lparr>pi_url = u, pi_depth = 0, pi_lane = 9, pi_priority = 1\<rparr>) us"

lemma batch_push_adds_new_witness:
  "fst (push_frontier_batch (calm_env 1) (batch_of [url_a, url_c]) two_queued)
    = (length (new_items (ps_db two_queued) (batch_of [url_a, url_c])), None)"
proof -
  let ?p = "push_frontier_batch (calm_env 1) (batch_of [url_a, url_c]) two_queued"
  have none: "snd (fst ?p) = None" by code_simp
  then have run: "?p = ((fst (fst ?p), None), snd ?p)" by (metis prod.collapse)
  have "\<forall>it \<in> set (batch_of [url_a, url_c]). item_ok it" "distinct (map pi_url (batch_of [url_a, url_c]))"
    "is_i64 (clock (calm_env 1))"
    by (simp_all add: batch_of_def item_ok_def is_i64_def url_a_def url_c_def calm_env_def
        canonical_instances [unfolded url_a_def url_c_def])
  from batch_push_adds_new [OF two_queued_inv this run]
  have "fst (fst ?p) = length (new_items (ps_db two_queued) (batch_of [url_a, url_c]))" by simp
  with none show ?thesis by (intro prod_eqI) simp_all
qed

text \<open>a purge of a host that succeeds removes exactly the queued URLs of that host, from every lane
  and from the older index, and returns their number.\<close>

lemma purge_host_exact:
  assumes "frontier_inv (ps_db s)" and "index_host h"
    and "purge_frontier_by_host e h s = ((n, None), s')"
  shows "frontier_inv (ps_db s')
    \<and> entry_at (ps_db s') = (\<lambda>u. if u \<in> queued_on (ps_db s) h then None else entry_at (ps_db s) u)
    \<and> n = card (queued_on (ps_db s) h)"
  using purge_frontier_by_host_effect [OF assms] by blast

lemma purge_host_exact_witness:
  "card (queued_on (ps_db two_queued) ''a.co'') = 1"
proof -
  have "fst (purge_frontier_by_host (calm_env 1) ''a.co'' two_queued) = (1, None)" by code_simp
  then have run: "purge_frontier_by_host (calm_env 1) ''a.co'' two_queued
      = ((1, None), snd (purge_frontier_by_host (calm_env 1) ''a.co'' two_queued))"
    by (metis prod.collapse)
  have "index_host ''a.co''" by code_simp
  from purge_host_exact [OF two_queued_inv this run] show ?thesis by simp
qed

text \<open>a demotion of a host that succeeds moves every queued URL of the host to the target lane,
  wherever it was indexed, and changes nothing else.\<close>

lemma demote_host_exact:
  assumes "frontier_inv (ps_db s)" and "index_host h" and "lane < lane_count"
    and "demote_host_to_lane e h lane s = ((n, None), s')"
  shows "frontier_inv (ps_db s')
    \<and> entry_at (ps_db s') = (\<lambda>u. if u \<in> queued_on (ps_db s) h
        then map_option (\<lambda>en. en\<lparr>fe_lane := lane\<rparr>) (entry_at (ps_db s) u) else entry_at (ps_db s) u)"
  using demote_host_to_lane_effect [OF assms] unfolding lane_set_def by blast

lemma demote_host_exact_witness:
  "frontier_inv (ps_db (snd (demote_host_to_lane (calm_env 1) ''a.co'' lane_bulk two_queued)))"
proof -
  have "fst (demote_host_to_lane (calm_env 1) ''a.co'' lane_bulk two_queued) = (1, None)" by code_simp
  then have run: "demote_host_to_lane (calm_env 1) ''a.co'' lane_bulk two_queued
      = ((1, None), snd (demote_host_to_lane (calm_env 1) ''a.co'' lane_bulk two_queued))"
    by (metis prod.collapse)
  have "index_host ''a.co''" by code_simp
  from demote_host_exact [OF two_queued_inv this _ run] show ?thesis by (simp add: lane_defs)
qed

text \<open>a packed frontier entry decodes to the entry that was packed, and a row written before lanes
  existed (without the last byte) to the same entry in the discovered lane.\<close>

lemma entry_roundtrip:
  assumes "entry_ok en"
  shows "unpack_frontier_entry (pack_frontier_entry en) = Inr en
    \<and> unpack_frontier_entry (butlast (pack_frontier_entry en)) = Inr (en\<lparr>fe_lane := lane_discovered\<rparr>)"
  using unpack_pack_lane [OF assms] by blast

lemma entry_roundtrip_witness:
  "unpack_frontier_entry (pack_frontier_entry (queued_entry (- 3) 0x3FF0000000000000 1700000000 ''a.co'' 1))
    = Inr (queued_entry (- 3) 0x3FF0000000000000 1700000000 ''a.co'' 1)"
  using entry_roundtrip [of "queued_entry (- 3) 0x3FF0000000000000 1700000000 ''a.co'' 1"]
  by (simp add: entry_ok_def queued_entry_def is_i64_def)

text \<open>the statistics count the URLs by status.\<close>

lemma stats_exact:
  assumes "frontier_inv (ps_db s)" and "get_frontier_stats e s = Inr st"
  shows "fs_queued st = card (with_status (ps_db s) st_queued)
    \<and> fs_in_flight st = card (with_status (ps_db s) st_in_flight)
    \<and> fs_done st = card (with_status (ps_db s) st_done)
    \<and> fs_errored st = card (with_status (ps_db s) st_error)"
  using get_frontier_stats_counts [OF assms] by blast

lemma stats_exact_witness: "card (with_status (ps_db two_queued) st_queued) = 2"
proof -
  have "get_frontier_stats (calm_env 1) two_queued
      = Inr \<lparr>fs_queued = 2, fs_in_flight = 0, fs_done = 0, fs_errored = 0\<rparr>" by code_simp
  from stats_exact [OF two_queued_inv this] show ?thesis by simp
qed

end
