(* ===== verification/DocCodec.thy ===== *)
theory DocCodec
  imports FrontierSpec
begin

text \<open>
  The document side of the Pebble store, its bytes: the record \<open>Document\<close> of \<open>src/internal/store/store.go\<close>, the
  keys of the document, posting and counter families of \<open>src/internal/store/pebble.go\<close>, and their packed values.
\<close>

section \<open>Numbers of eight bytes\<close>

definition enc64 :: "int \<Rightarrow> bytes" where
  "enc64 z = be64 (nat (z mod 2 ^ 64))"

definition dec64 :: "bytes \<Rightarrow> int" where
  "dec64 b = i64 (int (be_nat b))"

lemma length_enc64 [simp]: "length (enc64 z) = 8"
  by (simp add: enc64_def)

lemma nat_mod_64 [simp]: "nat (z mod 2 ^ 64) < 2 ^ 64"
proof -
  have "z mod 2 ^ 64 < 2 ^ 64" by (rule pos_mod_bound) simp
  then show ?thesis by (simp add: nat_less_iff)
qed

lemma i64_cong: "a mod 2 ^ 64 = b mod 2 ^ 64 \<Longrightarrow> i64 a = i64 b"
  unfolding i64_def by (metis mod_add_left_eq)

lemma doc_i64_mod [simp]: "i64 (z mod 2 ^ 64) = i64 z"
  by (rule i64_cong) simp

lemma dec64_enc64 [simp]: "dec64 (enc64 z) = i64 z"
proof -
  have "int (be_nat (be64 (nat (z mod 2 ^ 64)))) = z mod 2 ^ 64"
    by (subst be_nat_be64) simp_all
  then show ?thesis unfolding dec64_def enc64_def by (simp only: doc_i64_mod)
qed

lemma enc64_i64 [simp]: "enc64 (i64 z) = enc64 z"
proof -
  have "i64 z mod 2 ^ 64 = z mod 2 ^ 64"
    unfolding i64_def by (metis add_diff_cancel_right' mod_diff_left_eq)
  then show ?thesis by (simp add: enc64_def)
qed

text \<open>The identifiers the counters hand out.\<close>

definition is_id :: "int \<Rightarrow> bool" where
  "is_id i = (1 \<le> i \<and> i < 2 ^ 63)"

lemma is_id_i64 [simp]: "is_id i \<Longrightarrow> is_i64 i"
  by (simp add: is_id_def is_i64_def)

lemma i64_is_id [simp]: "is_id i \<Longrightarrow> i64 i = i"
  by (simp add: i64_id)

lemma enc64_inj: "is_i64 a \<Longrightarrow> is_i64 b \<Longrightarrow> (enc64 a = enc64 b) = (a = b)"
  by (metis dec64_enc64 i64_id)

lemma enc64_id_inj [simp]: "is_id a \<Longrightarrow> is_id b \<Longrightarrow> (enc64 a = enc64 b) = (a = b)"
  by (simp add: enc64_inj)

lemma dec64_id [simp]: "is_id a \<Longrightarrow> dec64 (enc64 a) = a"
  by simp

section \<open>Documents\<close>

text \<open>\<open>Document\<close>. Times are instants, \<open>Quality\<close> is the 64-bit pattern of its \<open>float64\<close>: both are only stored.\<close>

record document =
  doc_id :: int
  doc_url :: bytes
  doc_domain :: bytes
  doc_title :: bytes
  doc_text :: bytes
  doc_lang :: bytes
  doc_source :: bytes
  doc_quality :: nat
  doc_fetched :: int
  doc_sha :: bytes
  doc_etag :: bytes
  doc_last_modified :: bytes
  doc_change_count :: int
  doc_last_changed :: int
  doc_published :: int
  doc_author :: bytes
  doc_image :: bytes
  doc_favicon :: bytes

text \<open>What the store uses of \<open>encoding/gob\<close>: an encoder, which may refuse a value, and a decoder.\<close>

record gob =
  gob_enc :: "document \<Rightarrow> bytes option"
  gob_dec :: "bytes \<Rightarrow> document option"

definition gob_ok :: "gob \<Rightarrow> bool" where
  "gob_ok g = (\<forall>d b. gob_enc g d = Some b \<longrightarrow> gob_dec g b = Some d)"

section \<open>Keys\<close>

definition doc_key :: "int \<Rightarrow> bytes" where "doc_key i = CHR ''d'' # enc64 i"
definition host_key :: "bytes \<Rightarrow> int \<Rightarrow> bytes" where "host_key h i = CHR ''h'' # h @ CHR 0x00 # enc64 i"
definition store_meta_key :: "bytes \<Rightarrow> bytes" where "store_meta_key n = CHR ''m'' # n"
definition term_key :: "bytes \<Rightarrow> bytes" where "term_key t = CHR ''t'' # t"
definition posting_key :: "int \<Rightarrow> int \<Rightarrow> bytes" where "posting_key t i = CHR ''p'' # enc64 t @ enc64 i"
definition posting_prefix :: "int \<Rightarrow> bytes" where "posting_prefix t = CHR ''p'' # enc64 t"
definition posting_prefix_upper :: "int \<Rightarrow> bytes" where "posting_prefix_upper t = CHR ''p'' # enc64 (t + 1)"
definition doc_len_key :: "int \<Rightarrow> bytes" where "doc_len_key i = CHR ''l'' # enc64 i"
definition doc_meta_key :: "int \<Rightarrow> bytes" where "doc_meta_key i = CHR ''i'' # enc64 i"
definition doc_terms_key :: "int \<Rightarrow> bytes" where "doc_terms_key i = CHR ''g'' # enc64 i"
definition host_term_key :: "bytes \<Rightarrow> bytes" where "host_term_key h = CHR ''T'' # h"
definition host_posting_key :: "int \<Rightarrow> int \<Rightarrow> int \<Rightarrow> bytes" where
  "host_posting_key h t i = CHR ''P'' # enc64 h @ enc64 t @ enc64 i"
definition host_posting_prefix :: "int \<Rightarrow> int \<Rightarrow> bytes" where
  "host_posting_prefix h t = CHR ''P'' # enc64 h @ enc64 t"
definition host_posting_prefix_upper :: "int \<Rightarrow> int \<Rightarrow> bytes" where
  "host_posting_prefix_upper h t = CHR ''P'' # enc64 h @ enc64 (t + 1)"
definition content_sha_key :: "bytes \<Rightarrow> int \<Rightarrow> bytes" where
  "content_sha_key sha i = CHR ''C'' # take 32 sha @ replicate (32 - length sha) (CHR 0x00) @ enc64 i"

lemmas doc_key_defs = doc_key_def url_key_def host_key_def store_meta_key_def term_key_def posting_key_def doc_len_key_def
  doc_meta_key_def doc_terms_key_def host_term_key_def host_posting_key_def content_sha_key_def frontier_key_def
  frontier_status_index_key_def frontier_status_index_key_lane_def

section \<open>Packed values\<close>

definition pack_doc_terms :: "int list \<Rightarrow> bytes" where
  "pack_doc_terms ids = put_uvarint (length ids) @ concat (map (\<lambda>i. put_uvarint (nat (i mod 2 ^ 64))) ids)"

text \<open>The loop of \<open>unpackDocTerms\<close>, \<open>n\<close> numbers left.\<close>

fun unpack_terms_loop :: "nat \<Rightarrow> bytes \<Rightarrow> int list option" where
  "unpack_terms_loop 0 buf = Some []"
| "unpack_terms_loop (Suc n) buf = (case uvarint buf of None \<Rightarrow> None
     | Some (x, r) \<Rightarrow> map_option (Cons (i64 (int x))) (unpack_terms_loop n r))"

definition unpack_doc_terms :: "bytes \<Rightarrow> int list option" where
  "unpack_doc_terms buf = (case uvarint buf of None \<Rightarrow> None | Some (n, r) \<Rightarrow> unpack_terms_loop n r)"

definition pack_doc_meta :: "bytes \<Rightarrow> bytes \<Rightarrow> bytes" where
  "pack_doc_meta url title = put_uvarint (length url) @ url @ put_uvarint (length title) @ title"

text \<open>\<open>Inl SlicePanic\<close> is the slice expression out of range, as for the frontier's fields.\<close>

definition unpack_doc_meta :: "bytes \<Rightarrow> codec_err + (bytes \<times> bytes)" where
  "unpack_doc_meta buf = (case take_field BadHostLen buf of Inl x \<Rightarrow> Inl x
     | Inr (url, r) \<Rightarrow> (case take_field BadErrLen r of Inl x \<Rightarrow> Inl x | Inr (title, _) \<Rightarrow> Inr (url, title)))"

record term_info =
  ti_id :: int
  ti_freq :: int

definition pack_term_info :: "term_info \<Rightarrow> bytes" where
  "pack_term_info t = enc64 (ti_id t) @ enc64 (ti_freq t)"

definition unpack_term_info :: "bytes \<Rightarrow> term_info option" where
  "unpack_term_info b = (if length b \<noteq> 16 then None
     else Some \<lparr>ti_id = dec64 (take 8 b), ti_freq = dec64 (take 8 (drop 8 b))\<rparr>)"

text \<open>The value of a posting.\<close>

definition pack_posting :: "int \<Rightarrow> int \<Rightarrow> bytes" where
  "pack_posting tf len = enc64 tf @ enc64 len"

definition unpack_posting :: "bytes \<Rightarrow> (int \<times> int) option" where
  "unpack_posting v = (if length v \<noteq> 16 then None else Some (dec64 (take 8 v), dec64 (drop 8 v)))"

lemma unpack_pack_posting [simp]: "unpack_posting (pack_posting tf len) = Some (i64 tf, i64 len)"
  by (simp add: unpack_posting_def pack_posting_def)

lemma unpack_pack_term_info [simp]:
  "unpack_term_info (pack_term_info t) = Some \<lparr>ti_id = i64 (ti_id t), ti_freq = i64 (ti_freq t)\<rparr>"
  by (simp add: unpack_term_info_def pack_term_info_def)

lemma unpack_terms_loop_pack:
  "unpack_terms_loop (length ids) (concat (map (\<lambda>i. put_uvarint (nat (i mod 2 ^ 64))) ids) @ r) = Some (map i64 ids)"
proof (induction ids)
  case (Cons i ids)
  have "int (nat (i mod 2 ^ 64)) = i mod 2 ^ 64" by simp
  with Cons show ?case
    by (simp add: uvarint_put del: int_nat_eq) (simp add: doc_i64_mod [of i, simplified])
qed simp

lemma unpack_pack_doc_terms:
  assumes "length ids < 2 ^ 64"
  shows "unpack_doc_terms (pack_doc_terms ids) = Some (map i64 ids)"
  using assms unpack_terms_loop_pack [of ids "[]"] by (simp add: unpack_doc_terms_def pack_doc_terms_def uvarint_put)

lemma unpack_pack_doc_meta:
  assumes "length url < 2 ^ 63" "length title < 2 ^ 63"
  shows "unpack_doc_meta (pack_doc_meta url title) = Inr (url, title)"
  using assms take_field_put [of title BadErrLen "[]"] by (simp add: unpack_doc_meta_def pack_doc_meta_def take_field_put)

end
