(* ===== verification/DocStore.thy ===== *)
theory DocStore
  imports DocCodec
begin

text \<open>
  Documents and their inverted index in \<open>PebbleStore\<close> (\<open>src/internal/store/pebble.go\<close>): writing, indexing,
  deleting and reading documents. Every operation holds the store's mutex from its first read to its commit, so
  it is one step. A Go map is ranged over in an order the environment picks.
\<close>

section \<open>State and environment\<close>

text \<open>
  \<open>de_set_err\<close>: a single \<open>db.Set\<close> outside a batch fails. \<open>de_partition\<close>: \<open>HostPartitionEnabled\<close>.
  \<open>de_terms\<close> and \<open>de_ids\<close> decide the order of the ranges over the term map and over a set of term ids.
\<close>

record doc_env =
  de_env :: env
  de_set_err :: "bytes \<Rightarrow> bool"
  de_partition :: bool
  de_terms :: "bytes list"
  de_ids :: "int list"

text \<open>
  The store with \<open>nextID\<close>, the three mirrors of the corpus counters and the cache of \<open>Stats\<close> (instant, count).
\<close>

record doc_store =
  ds_pebble :: pebble_store
  ds_next_id :: int
  ds_sum_len :: int
  ds_indexed :: int
  ds_loaded :: bool
  ds_stats :: "(int \<times> int) option"

abbreviation ds_db :: "doc_store \<Rightarrow> bytes kv" where
  "ds_db s \<equiv> ps_db (ds_pebble s)"

definition with_db :: "bytes kv \<Rightarrow> doc_store \<Rightarrow> doc_store" where
  "with_db db s = s\<lparr>ds_pebble := (ds_pebble s)\<lparr>ps_db := db\<rparr>\<rparr>"

lemma with_db_simps [simp]:
  "ds_db (with_db db s) = db" "ds_next_id (with_db db s) = ds_next_id s" "ds_sum_len (with_db db s) = ds_sum_len s"
  "ds_indexed (with_db db s) = ds_indexed s" "ds_loaded (with_db db s) = ds_loaded s" "ds_stats (with_db db s) = ds_stats s"
  "with_db db (with_db db' s) = with_db db s"
  by (simp_all add: with_db_def)

datatype doc_err = Cancelled | ReadFault | WriteFault | EmptyUrl | EncodeErr | DecodeErr int | BadValue | Missing
  | MetaErr codec_err

text \<open>A range over the keys \<open>ks\<close> of a map: those named in \<open>ord\<close> first, in its order.\<close>

definition range_order :: "'a list \<Rightarrow> 'a list \<Rightarrow> 'a list" where
  "range_order ord ks = filter (\<lambda>x. x \<in> set ks) (remdups ord) @ filter (\<lambda>x. x \<notin> set ord) ks"

lemma set_range_order [simp]: "set (range_order ord ks) = set ks"
  by (auto simp: range_order_def)

lemma distinct_range_order [simp]: "distinct ks \<Longrightarrow> distinct (range_order ord ks)"
  by (auto simp: range_order_def)

section \<open>Point reads\<close>

definition read_doc_len :: "env \<Rightarrow> bytes kv \<Rightarrow> int \<Rightarrow> doc_err + int option" where
  "read_doc_len e db i =
     (if get_err e (doc_len_key i) then Inl ReadFault
      else (case fmlookup db (doc_len_key i) of None \<Rightarrow> Inr None
        | Some v \<Rightarrow> if length v \<noteq> 8 then Inl BadValue else Inr (Some (dec64 v))))"

definition read_meta :: "env \<Rightarrow> bytes kv \<Rightarrow> bytes \<Rightarrow> int" where
  "read_meta e db n =
     (if get_err e (store_meta_key n) then 0
      else (case fmlookup db (store_meta_key n) of None \<Rightarrow> 0 | Some v \<Rightarrow> if length v \<noteq> 8 then 0 else dec64 v))"

definition read_doc_terms :: "env \<Rightarrow> bytes kv \<Rightarrow> int \<Rightarrow> doc_err + int list" where
  "read_doc_terms e db i =
     (if get_err e (doc_terms_key i) then Inl ReadFault
      else (case fmlookup db (doc_terms_key i) of None \<Rightarrow> Inr []
        | Some v \<Rightarrow> (case unpack_doc_terms v of None \<Rightarrow> Inl BadValue | Some ids \<Rightarrow> Inr ids)))"

definition get_term_info :: "env \<Rightarrow> bytes kv \<Rightarrow> bytes \<Rightarrow> doc_err + term_info option" where
  "get_term_info e db t =
     (if get_err e (term_key t) then Inl ReadFault
      else (case fmlookup db (term_key t) of None \<Rightarrow> Inr None
        | Some v \<Rightarrow> (case unpack_term_info v of None \<Rightarrow> Inl BadValue | Some x \<Rightarrow> Inr (Some x))))"

definition get_doc_by_id :: "gob \<Rightarrow> env \<Rightarrow> bytes kv \<Rightarrow> int \<Rightarrow> doc_err + document" where
  "get_doc_by_id g e db i =
     (if ctx_err e then Inl Cancelled
      else if get_err e (doc_key i) then Inl ReadFault
      else (case fmlookup db (doc_key i) of None \<Rightarrow> Inl Missing
        | Some v \<Rightarrow> (case gob_dec g v of None \<Rightarrow> Inl (DecodeErr i) | Some d \<Rightarrow> Inr d)))"

definition lookup_id :: "env \<Rightarrow> bytes kv \<Rightarrow> bytes \<Rightarrow> doc_err + int option" where
  "lookup_id e db url = (case lookup_id_by_url e db url of Inl _ \<Rightarrow> Inl ReadFault | Inr x \<Rightarrow> Inr x)"

definition get_doc_by_url :: "gob \<Rightarrow> env \<Rightarrow> bytes kv \<Rightarrow> bytes \<Rightarrow> doc_err + document" where
  "get_doc_by_url g e db url =
     (if ctx_err e then Inl Cancelled
      else (case lookup_id e db url of Inl x \<Rightarrow> Inl x | Inr None \<Rightarrow> Inl Missing
        | Inr (Some i) \<Rightarrow> get_doc_by_id g e db i))"

definition get_doc_meta :: "env \<Rightarrow> bytes kv \<Rightarrow> int \<Rightarrow> doc_err + (bytes \<times> bytes) option" where
  "get_doc_meta e db i =
     (if ctx_err e then Inl Cancelled
      else if get_err e (doc_meta_key i) then Inl ReadFault
      else (case fmlookup db (doc_meta_key i) of None \<Rightarrow> Inr None
        | Some v \<Rightarrow> (case unpack_doc_meta v of Inl x \<Rightarrow> Inl (MetaErr x) | Inr m \<Rightarrow> Inr (Some m))))"

definition get_doc_len :: "env \<Rightarrow> bytes kv \<Rightarrow> int \<Rightarrow> doc_err + int option" where
  "get_doc_len e db i = (if ctx_err e then Inl Cancelled else read_doc_len e db i)"

definition get_host_id :: "env \<Rightarrow> bytes kv \<Rightarrow> bytes \<Rightarrow> doc_err + int option" where
  "get_host_id e db h =
     (if h = [] then Inr None
      else if get_err e (host_term_key h) then Inl ReadFault
      else (case fmlookup db (host_term_key h) of None \<Rightarrow> Inr None
        | Some v \<Rightarrow> if length v \<noteq> 8 then Inr None else Inr (Some (dec64 v))))"

section \<open>Upserting documents\<close>

definition content_sha_ops :: "bytes \<Rightarrow> int \<Rightarrow> bytes bop list" where
  "content_sha_ops sha i = (if length sha \<noteq> 32 then [] else [BSet (content_sha_key sha i) []])"

definition doc_ops :: "gob \<Rightarrow> document \<Rightarrow> int \<Rightarrow> doc_err + bytes bop list" where
  "doc_ops g d i = (case gob_enc g d of None \<Rightarrow> Inl EncodeErr
     | Some b \<Rightarrow> Inr ([BSet (doc_key i) b, BSet (url_key (doc_url d)) (enc64 i),
         BSet (doc_meta_key i) (pack_doc_meta (doc_url d) (doc_title d))]
         @ (if doc_domain d \<noteq> [] then [BSet (host_key (doc_domain d) i) []] else [])
         @ content_sha_ops (doc_sha d) i))"

text \<open>The id a URL has, or a fresh one of \<open>nextID\<close>, and whether it is fresh.\<close>

definition resolve_id :: "env \<Rightarrow> bytes \<Rightarrow> doc_store \<Rightarrow> (doc_err + int \<times> bool) \<times> doc_store" where
  "resolve_id e url s = (case lookup_id e (ds_db s) url of Inl x \<Rightarrow> (Inl x, s)
     | Inr (Some i) \<Rightarrow> (Inr (i, False), s)
     | Inr None \<Rightarrow> (let i = i64 (ds_next_id s + 1) in (Inr (i, True), s\<lparr>ds_next_id := i\<rparr>)))"

definition next_doc_ops :: "bool \<Rightarrow> int \<Rightarrow> bytes bop list" where
  "next_doc_ops new i = (if new then [BSet (store_meta_key ''next_doc_id'') (enc64 i)] else [])"

definition upsert_document :: "gob \<Rightarrow> doc_env \<Rightarrow> document \<Rightarrow> doc_store \<Rightarrow> (doc_err + int) \<times> doc_store" where
  "upsert_document g e d s =
     (if ctx_err (de_env e) then (Inl Cancelled, s)
      else if doc_url d = [] then (Inl EmptyUrl, s)
      else (case resolve_id (de_env e) (doc_url d) s of (Inl x, s1) \<Rightarrow> (Inl x, s1)
        | (Inr (i, new), s1) \<Rightarrow>
          (case doc_ops g (d\<lparr>doc_id := i\<rparr>) i of Inl x \<Rightarrow> (Inl x, s1)
           | Inr ops \<Rightarrow> if commit_err (de_env e) then (Inl WriteFault, s1)
               else (Inr i, with_db (apply_batch (ops @ next_doc_ops new i) (ds_db s1)) s1))))"

text \<open>
  The loop of \<open>UpsertDocumentBatch\<close>: the URLs seen in the batch with their ids, the highest fresh id (0 for none),
  the batch, the ids so far.
\<close>

fun upsert_loop :: "gob \<Rightarrow> env \<Rightarrow> document list \<Rightarrow> (bytes, int) fmap \<Rightarrow> int \<Rightarrow> bytes bop list \<Rightarrow> int list \<Rightarrow> doc_store
    \<Rightarrow> (doc_err + int \<times> bytes bop list \<times> int list) \<times> doc_store" where
  "upsert_loop g e [] seen top_id ops ids s = (Inr (top_id, ops, ids), s)"
| "upsert_loop g e (d # ds) seen top_id ops ids s =
     (let known = (case fmlookup seen (doc_url d) of None \<Rightarrow> 0 | Some i \<Rightarrow> i) in
      case (if known \<noteq> 0 then (Inr (known, False), s) else resolve_id e (doc_url d) s) of (Inl x, s1) \<Rightarrow> (Inl x, s1)
      | (Inr (i, new), s1) \<Rightarrow>
        (case doc_ops g (d\<lparr>doc_id := i\<rparr>) i of Inl x \<Rightarrow> (Inl x, s1)
         | Inr dops \<Rightarrow> upsert_loop g e ds (if known \<noteq> 0 then seen else fmupd (doc_url d) i seen)
             (if new \<and> top_id < i then i else top_id) (ops @ dops) (ids @ [i]) s1))"

definition upsert_document_batch :: "gob \<Rightarrow> doc_env \<Rightarrow> document list \<Rightarrow> doc_store \<Rightarrow> (doc_err + int list) \<times> doc_store" where
  "upsert_document_batch g e ds s =
     (if ctx_err (de_env e) then (Inl Cancelled, s)
      else if ds = [] then (Inr [], s)
      else if \<exists>d \<in> set ds. doc_url d = [] then (Inl EmptyUrl, s)
      else (case upsert_loop g (de_env e) ds fmempty 0 [] [] s of (Inl x, s1) \<Rightarrow> (Inl x, s1)
        | (Inr (top_id, ops, ids), s1) \<Rightarrow>
            if commit_err (de_env e) then (Inl WriteFault, s1)
            else (Inr ids, with_db (apply_batch (ops @ next_doc_ops (0 < top_id) top_id) (ds_db s1)) s1)))"

section \<open>Indexing\<close>

definition add_tf :: "int \<Rightarrow> bytes \<Rightarrow> (bytes, int) fmap \<Rightarrow> (bytes, int) fmap" where
  "add_tf n t m = fmupd t ((case fmlookup m t of None \<Rightarrow> 0 | Some x \<Rightarrow> x) + n) m"

definition term_freqs :: "int \<Rightarrow> bytes list \<Rightarrow> bytes list \<Rightarrow> (bytes, int) fmap" where
  "term_freqs boost title body = fold (add_tf 1) body (fold (add_tf boost) title fmempty)"

definition corpus_counters :: "env \<Rightarrow> doc_store \<Rightarrow> int \<times> int" where
  "corpus_counters e s = (if ds_loaded s then (ds_sum_len s, ds_indexed s)
     else (read_meta e (ds_db s) ''sum_doc_len'', read_meta e (ds_db s) ''indexed_docs''))"

definition count_ops :: "int \<Rightarrow> int \<Rightarrow> bytes bop list" where
  "count_ops lsum cnt = [BSet (store_meta_key ''sum_doc_len'') (enc64 lsum), BSet (store_meta_key ''indexed_docs'') (enc64 cnt)]"

definition mirror_counts :: "int \<Rightarrow> int \<Rightarrow> doc_store \<Rightarrow> doc_store" where
  "mirror_counts lsum cnt s = s\<lparr>ds_sum_len := lsum, ds_indexed := cnt, ds_loaded := True\<rparr>"

text \<open>A counter of the meta family, incremented and written at once; both the read and the write drop their error.\<close>

definition next_term_id :: "doc_env \<Rightarrow> bytes kv \<Rightarrow> int \<times> bytes kv" where
  "next_term_id e db =
     (let nxt = i64 (read_meta (de_env e) db ''next_term_id'' + 1); k = store_meta_key ''next_term_id'' in
      (nxt, if de_set_err e k then db else fmupd k (enc64 nxt) db))"

definition get_or_alloc_host :: "doc_env \<Rightarrow> bytes kv \<Rightarrow> bytes \<Rightarrow> (doc_err + int) \<times> bytes kv" where
  "get_or_alloc_host e db h =
     (if h = [] then (Inr 0, db)
      else if get_err (de_env e) (host_term_key h) then (Inl ReadFault, db)
      else let known = (case fmlookup db (host_term_key h) of None \<Rightarrow> 0 | Some v \<Rightarrow> if length v = 8 then dec64 v else 0) in
        if known \<noteq> 0 then (Inr known, db)
        else if get_err (de_env e) (store_meta_key ''next_host_id'') then (Inl ReadFault, db)
        else let nxt = i64 (read_meta (de_env e) db ''next_host_id'' + 1) in
          if de_set_err e (store_meta_key ''next_host_id'') then (Inl WriteFault, db)
          else let db1 = fmupd (store_meta_key ''next_host_id'') (enc64 nxt) db in
            if de_set_err e (host_term_key h) then (Inl WriteFault, db1)
            else (Inr nxt, fmupd (host_term_key h) (enc64 nxt) db1))"

text \<open>The writes for one term, and the loop over the terms of a document: the batch and the new term ids so far.\<close>

definition term_ops :: "int \<Rightarrow> int \<Rightarrow> int \<Rightarrow> bytes \<Rightarrow> int \<Rightarrow> term_info \<Rightarrow> bytes bop list" where
  "term_ops i len hid t freq info =
     [BSet (term_key t) (pack_term_info info), BSet (posting_key (ti_id info) i) (pack_posting freq len)]
     @ (if hid \<noteq> 0 then [BSet (host_posting_key hid (ti_id info) i) (pack_posting freq len)] else [])"

definition term_entry :: "doc_env \<Rightarrow> int list \<Rightarrow> bytes kv \<Rightarrow> bytes \<Rightarrow> (doc_err + term_info) \<times> bytes kv" where
  "term_entry e old db t = (case get_term_info (de_env e) db t of Inl x \<Rightarrow> (Inl x, db)
     | Inr None \<Rightarrow> (case next_term_id e db of (n, db1) \<Rightarrow> (Inr \<lparr>ti_id = n, ti_freq = 1\<rparr>, db1))
     | Inr (Some info) \<Rightarrow> (Inr (if ti_id info \<in> set old then info else info\<lparr>ti_freq := i64 (ti_freq info + 1)\<rparr>), db))"

fun index_terms :: "doc_env \<Rightarrow> int \<Rightarrow> int \<Rightarrow> int \<Rightarrow> int list \<Rightarrow> (bytes, int) fmap \<Rightarrow> bytes list \<Rightarrow> bytes bop list \<Rightarrow> int list \<Rightarrow> bytes kv
    \<Rightarrow> (doc_err + bytes bop list \<times> int list) \<times> bytes kv" where
  "index_terms e i len hid old tf [] ops new db = (Inr (ops, new), db)"
| "index_terms e i len hid old tf (t # ts) ops new db = (case term_entry e old db t of (Inl x, db1) \<Rightarrow> (Inl x, db1)
     | (Inr info, db1) \<Rightarrow> index_terms e i len hid old tf ts
         (ops @ term_ops i len hid t (case fmlookup tf t of None \<Rightarrow> 0 | Some f \<Rightarrow> f) info)
         (List.insert (ti_id info) new) db1)"

definition drop_ops :: "int \<Rightarrow> int \<Rightarrow> int list \<Rightarrow> int list \<Rightarrow> bytes bop list" where
  "drop_ops i hid old new = concat (map (\<lambda>t. BDel (posting_key t i) #
     (if hid \<noteq> 0 then [BDel (host_posting_key hid t i)] else [])) (filter (\<lambda>t. t \<notin> set new) (remdups old)))"

text \<open>
  The index phase shared by \<open>indexDocumentImpl\<close> and \<open>WriteCrawlResult\<close>: the batch with the new counters. A domain
  that is empty stands for no host partition.
\<close>

definition index_part :: "doc_env \<Rightarrow> int \<Rightarrow> int \<Rightarrow> (bytes, int) fmap \<Rightarrow> bytes \<Rightarrow> doc_store
    \<Rightarrow> (doc_err + bytes bop list \<times> int \<times> int) \<times> doc_store" where
  "index_part e i len tf domain s =
     (case read_doc_len (de_env e) (ds_db s) i of Inl x \<Rightarrow> (Inl x, s)
      | Inr had \<Rightarrow>
        (let (sum0, cnt0) = corpus_counters (de_env e) s;
             lsum = i64 ((case had of None \<Rightarrow> sum0 | Some l \<Rightarrow> sum0 - l) + len);
             cnt = (case had of None \<Rightarrow> i64 (cnt0 + 1) | Some _ \<Rightarrow> cnt0) in
         case read_doc_terms (de_env e) (ds_db s) i of Inl x \<Rightarrow> (Inl x, s)
         | Inr old \<Rightarrow>
           (let (hid, db1) = (if domain = [] then (0, ds_db s)
                else (case get_or_alloc_host e (ds_db s) domain of (Inr h, d) \<Rightarrow> (h, d) | (Inl _, d) \<Rightarrow> (0, d)));
                ts = range_order (de_terms e) (sorted_list_of_fset (fmdom tf)) in
            case index_terms e i len hid old tf ts [] [] db1 of (Inl x, db2) \<Rightarrow> (Inl x, with_db db2 s)
            | (Inr (ops, new), db2) \<Rightarrow>
                (Inr ([BSet (doc_len_key i) (enc64 len)] @ count_ops lsum cnt @ ops @ drop_ops i hid old new
                   @ [BSet (doc_terms_key i) (pack_doc_terms (range_order (de_ids e) new))], lsum, cnt), with_db db2 s))))"

definition clamp_boost :: "int \<Rightarrow> int" where
  "clamp_boost b = (if b \<le> 0 then 1 else b)"

text \<open>\<open>IndexDocument\<close> (\<open>bulk = False\<close>) and \<open>IndexDocumentBulk\<close>.\<close>

definition index_document :: "gob \<Rightarrow> doc_env \<Rightarrow> int \<Rightarrow> bytes \<Rightarrow> bytes \<Rightarrow> (bytes \<Rightarrow> bytes list) \<Rightarrow> int \<Rightarrow> bool \<Rightarrow> doc_store
    \<Rightarrow> (doc_err + unit) \<times> doc_store" where
  "index_document g e i title text tokenize boost bulk s =
     (if ctx_err (de_env e) then (Inl Cancelled, s)
      else let tt = tokenize title; bt = tokenize text; len = int (length tt + length bt) in
        if len = 0 then (Inr (), s)
        else let domain = (if \<not> bulk \<and> de_partition e
               then (case get_doc_by_id g (de_env e) (ds_db s) i of Inr d \<Rightarrow> doc_domain d | Inl _ \<Rightarrow> []) else []) in
          (case index_part e i len (term_freqs (clamp_boost boost) tt bt) domain s of (Inl x, s1) \<Rightarrow> (Inl x, s1)
           | (Inr (ops, lsum, cnt), s1) \<Rightarrow>
               if commit_err (de_env e) then (Inl WriteFault, s1)
               else (Inr (), mirror_counts lsum cnt (with_db (apply_batch ops (ds_db s1)) s1))))"

section \<open>One write per crawled page\<close>

text \<open>The frontier row a crawl completes: any fault of the read, and a row that does not decode, writes nothing.\<close>

definition complete_ops :: "env \<Rightarrow> bytes kv \<Rightarrow> bytes \<Rightarrow> bytes bop list" where
  "complete_ops e db url =
     (if url = [] then []
      else (case get_entry e db url of Inl _ \<Rightarrow> []
        | Inr en \<Rightarrow> [BSet (frontier_key url) (pack_frontier_entry (en\<lparr>fe_status := st_done\<rparr>))]
            @ (if fe_status en = st_queued \<or> fe_status en = st_in_flight then
                 [BDel (frontier_status_index_key (fe_status en) (fe_host en) url),
                  BDel (frontier_status_index_key_lane (fe_status en) (fe_lane en) (fe_host en) url)]
               else [])))"

text \<open>
  The counters are mirrored by a deferred function, registered once the index phase has passed: it runs when the
  commit fails as well.
\<close>

definition write_crawl_result :: "gob \<Rightarrow> doc_env \<Rightarrow> document \<Rightarrow> bytes \<Rightarrow> bytes \<Rightarrow> bytes \<Rightarrow> (bytes \<Rightarrow> bytes list) \<Rightarrow> int \<Rightarrow> doc_store
    \<Rightarrow> (doc_err + int) \<times> doc_store" where
  "write_crawl_result g e d title text complete_url tokenize boost s =
     (if ctx_err (de_env e) then (Inl Cancelled, s)
      else if doc_url d = [] then (Inl EmptyUrl, s)
      else let tt = tokenize title; bt = tokenize text; tf = term_freqs (clamp_boost boost) tt bt;
               len = int (length tt + length bt) in
        (case resolve_id (de_env e) (doc_url d) s of (Inl x, s1) \<Rightarrow> (Inl x, s1)
         | (Inr (i, new), s1) \<Rightarrow>
           (case doc_ops g (d\<lparr>doc_id := i\<rparr>) i of Inl x \<Rightarrow> (Inl x, s1)
            | Inr dops \<Rightarrow>
              (let dops = dops @ next_doc_ops new i in
               case (if fmdom tf = {||} then (Inr ([], None), s1)
                 else (case index_part e i len tf (if de_partition e then doc_domain d else []) s1 of
                     (Inl x, s2) \<Rightarrow> (Inl x, s2)
                   | (Inr (iops, lsum, cnt), s2) \<Rightarrow> (Inr (iops, Some (lsum, cnt)), s2))) of
                 (Inl x, s2) \<Rightarrow> (Inl x, s2)
               | (Inr (iops, counts), s2) \<Rightarrow>
                 (let ops = dops @ iops @ complete_ops (de_env e) (ds_db s2) complete_url;
                      mirror = (case counts of None \<Rightarrow> id | Some (lsum, cnt) \<Rightarrow> mirror_counts lsum cnt) in
                  if commit_err (de_env e) then (Inl WriteFault, mirror s2)
                  else (Inr i, mirror (with_db (apply_batch ops (ds_db s2)) s2)))))))"

section \<open>Deleting\<close>

text \<open>\<open>url_host\<close> is the \<open>Host\<close> that \<open>url.Parse\<close> reads from a URL, empty when it refuses it.\<close>

definition delete_ops :: "(bytes \<Rightarrow> bytes) \<Rightarrow> int \<Rightarrow> bytes \<Rightarrow> bool \<Rightarrow> bytes bop list" where
  "delete_ops url_host i raw had_len =
     [BDel (doc_key i)]
     @ (if raw = [] then [] else BDel (url_key raw) # (if url_host raw = [] then [] else [BDel (host_key (url_host raw) i)]))
     @ [BDel (doc_meta_key i)] @ (if had_len then [BDel (doc_len_key i)] else [])"

definition soft_delete_document :: "(bytes \<Rightarrow> bytes) \<Rightarrow> doc_env \<Rightarrow> int \<Rightarrow> bytes \<Rightarrow> doc_store \<Rightarrow> (doc_err + bool) \<times> doc_store" where
  "soft_delete_document url_host e i raw s =
     (if ctx_err (de_env e) then (Inl Cancelled, s)
      else (case get_doc_meta (de_env e) (ds_db s) i of Inl x \<Rightarrow> (Inl x, s) | Inr None \<Rightarrow> (Inr False, s)
        | Inr (Some _) \<Rightarrow>
          (case read_doc_len (de_env e) (ds_db s) i of Inl x \<Rightarrow> (Inl x, s)
           | Inr had \<Rightarrow>
             (let (sum0, cnt0) = corpus_counters (de_env e) s;
                  lsum = (case had of None \<Rightarrow> sum0 | Some l \<Rightarrow> max 0 (i64 (sum0 - l)));
                  cnt = max 0 (i64 (cnt0 - 1)) in
              if commit_err (de_env e) then (Inl WriteFault, s)
              else (Inr True, mirror_counts lsum cnt
                (with_db (apply_batch (delete_ops url_host i raw (had \<noteq> None) @ count_ops lsum cnt) (ds_db s)) s))))))"

section \<open>Counters of the corpus\<close>

definition corpus_stats :: "env \<Rightarrow> doc_store \<Rightarrow> (doc_err + int \<times> int) \<times> doc_store" where
  "corpus_stats e s = (if ctx_err e then (Inl Cancelled, s)
     else case corpus_counters e s of (lsum, cnt) \<Rightarrow> (Inr (lsum, cnt), mirror_counts lsum cnt s))"

text \<open>The rows of a family, in key order.\<close>

definition family :: "bytes kv \<Rightarrow> char \<Rightarrow> bytes list" where
  "family db c = kv_keys db [c] [char_of (byte_val c + 1)]"

definition sum_doc_lengths :: "env \<Rightarrow> bytes kv \<Rightarrow> doc_err + int \<times> int" where
  "sum_doc_lengths e db =
     (if ctx_err e then Inl Cancelled else if iter_err e ''l'' then Inl ReadFault
      else Inr (fold (\<lambda>k (lsum, count). case fmlookup db k of None \<Rightarrow> (lsum, count)
        | Some v \<Rightarrow> if length v \<noteq> 8 then (lsum, count) else (i64 (lsum + dec64 v), i64 (count + 1))) (family db (CHR ''l'')) (0, 0)))"

definition bootstrap_corpus_stats :: "env \<Rightarrow> doc_store \<Rightarrow> (doc_err + int \<times> int \<times> bool) \<times> doc_store" where
  "bootstrap_corpus_stats e s =
     (if 0 < ds_indexed s then (Inr (ds_sum_len s, ds_indexed s, False), s)
      else (case sum_doc_lengths e (ds_db s) of Inl x \<Rightarrow> (Inl x, s)
        | Inr (lsum, cnt) \<Rightarrow> if cnt = 0 then (Inr (0, 0, False), s)
            else if commit_err e then (Inl WriteFault, s)
            else (Inr (lsum, cnt, True), mirror_counts lsum cnt (with_db (apply_batch (count_ops lsum cnt) (ds_db s)) s))))"

text \<open>\<open>Stats\<close>: the count of documents, from the cache when it is younger than five seconds (in nanoseconds).\<close>

definition stats_ttl :: int where "stats_ttl = 5 * 10 ^ 9"

definition doc_stats :: "env \<Rightarrow> doc_store \<Rightarrow> (doc_err + int) \<times> doc_store" where
  "doc_stats e s =
     (if ctx_err e then (Inl Cancelled, s)
      else (case ds_stats s of
          Some (since, n) \<Rightarrow> if clock e - since < stats_ttl then (Inr n, s)
            else if iter_err e ''d'' then (Inl ReadFault, s)
            else let n = int (length (family (ds_db s) (CHR ''d''))) in (Inr n, s\<lparr>ds_stats := Some (clock e, n)\<rparr>)
        | None \<Rightarrow> if iter_err e ''d'' then (Inl ReadFault, s)
            else let n = int (length (family (ds_db s) (CHR ''d''))) in (Inr n, s\<lparr>ds_stats := Some (clock e, n)\<rparr>)))"

section \<open>Opening\<close>

text \<open>
  The part of \<open>openPebble\<close> after Pebble itself is open: the id counter from the meta key, raised when the last document
  key is above it, and the saved frontier cursor.
\<close>

definition recovered_next_id :: "env \<Rightarrow> bytes kv \<Rightarrow> doc_err + int" where
  "recovered_next_id e db =
     (if get_err e (store_meta_key ''next_doc_id'') then Inl ReadFault
      else let stored = read_meta e db ''next_doc_id'' in
        if iter_err e ''d'' then Inr stored
        else (case rev (family db (CHR ''d'')) of [] \<Rightarrow> Inr stored
          | k # _ \<Rightarrow> if length k = 9 \<and> stored < dec64 (drop 1 k) then Inr (i64 (dec64 (drop 1 k) + 16)) else Inr stored))"

definition open_store :: "env \<Rightarrow> bytes kv \<Rightarrow> doc_err + doc_store" where
  "open_store e db = (case recovered_next_id e db of Inl x \<Rightarrow> Inl x
     | Inr n \<Rightarrow> Inr \<lparr>ds_pebble = empty_store\<lparr>ps_db := db, ps_frontier_cursor :=
           (if get_err e (store_meta_key ''frontier_cursor'') then []
            else (case fmlookup db (store_meta_key ''frontier_cursor'') of None \<Rightarrow> [] | Some c \<Rightarrow> c))\<rparr>,
         ds_next_id = n, ds_sum_len = 0, ds_indexed = 0, ds_loaded = False, ds_stats = None\<rparr>)"

definition new_doc_store :: doc_store where
  "new_doc_store = \<lparr>ds_pebble = empty_store, ds_next_id = 0, ds_sum_len = 0, ds_indexed = 0, ds_loaded = False, ds_stats = None\<rparr>"

end
