(* ===== verification/DocRead.thy ===== *)
theory DocRead
  imports DocStore
begin

text \<open>
  The scans of the document families in \<open>src/internal/store/pebble.go\<close>: postings, side blobs, hosts and the queue, and
  the content hash index of \<open>src/internal/store/content_index.go\<close>. A scan sees the rows of one instant; reading the
  value of a row fails where \<open>get_err\<close> says so.
\<close>

section \<open>Scans with a callback\<close>

text \<open>
  The callback updates a state of the caller; \<open>Some\<close> stops the scan with the error it returns. A row is skipped
  (\<open>Inr None\<close>), given to the callback, or fails the scan.
\<close>

fun scan_rows :: "('k \<Rightarrow> doc_err + 'a option) \<Rightarrow> ('a \<Rightarrow> 's \<Rightarrow> doc_err option option \<times> 's) \<Rightarrow> 'k list \<Rightarrow> 's \<Rightarrow> doc_err option \<times> 's" where
  "scan_rows row fn [] s = (None, s)"
| "scan_rows row fn (k # ks) s = (case row k of Inl x \<Rightarrow> (Some x, s) | Inr None \<Rightarrow> scan_rows row fn ks s
     | Inr (Some a) \<Rightarrow> (case fn a s of (Some r, s1) \<Rightarrow> (r, s1) | (None, s1) \<Rightarrow> scan_rows row fn ks s1))"

text \<open>A callback that returns a Boolean stops without an error.\<close>

definition while_true :: "('a \<Rightarrow> 's \<Rightarrow> bool \<times> 's) \<Rightarrow> 'a \<Rightarrow> 's \<Rightarrow> doc_err option option \<times> 's" where
  "while_true fn a s = (case fn a s of (go, s1) \<Rightarrow> (if go then None else Some None, s1))"

definition collect :: "'a \<Rightarrow> 'a list \<Rightarrow> bool \<times> 'a list" where
  "collect a xs = (True, xs @ [a])"

definition scan_family :: "env \<Rightarrow> bytes kv \<Rightarrow> bytes \<Rightarrow> bytes \<Rightarrow> (bytes \<Rightarrow> doc_err + 'a option)
    \<Rightarrow> ('a \<Rightarrow> 's \<Rightarrow> doc_err option option \<times> 's) \<Rightarrow> 's \<Rightarrow> doc_err option \<times> 's" where
  "scan_family e db lo hi row fn s =
     (if ctx_err e then (Some Cancelled, s) else if iter_err e lo then (Some ReadFault, s)
      else scan_rows row fn (kv_keys db lo hi) s)"

section \<open>Postings\<close>

record posting_entry =
  pe_doc :: int
  pe_tf :: int
  pe_len :: int

definition posting_row :: "env \<Rightarrow> bytes kv \<Rightarrow> nat \<Rightarrow> bytes \<Rightarrow> doc_err + posting_entry option" where
  "posting_row e db n k =
     (if length k \<noteq> n + 8 then Inr None
      else if get_err e k then Inl ReadFault
      else (case Option.bind (fmlookup db k) unpack_posting of None \<Rightarrow> Inr None
        | Some (tf, len) \<Rightarrow> Inr (Some \<lparr>pe_doc = dec64 (drop n k), pe_tf = tf, pe_len = len\<rparr>)))"

definition iterate_postings :: "env \<Rightarrow> bytes kv \<Rightarrow> int \<Rightarrow> (posting_entry \<Rightarrow> 's \<Rightarrow> bool \<times> 's) \<Rightarrow> 's \<Rightarrow> doc_err option \<times> 's" where
  "iterate_postings e db t fn s =
     scan_family e db (posting_prefix t) (posting_prefix_upper t) (posting_row e db 9) (while_true fn) s"

definition iterate_host_postings :: "env \<Rightarrow> bytes kv \<Rightarrow> int \<Rightarrow> int \<Rightarrow> (posting_entry \<Rightarrow> 's \<Rightarrow> bool \<times> 's) \<Rightarrow> 's \<Rightarrow> doc_err option \<times> 's" where
  "iterate_host_postings e db h t fn s =
     scan_family e db (host_posting_prefix h t) (host_posting_prefix_upper h t) (posting_row e db 17) (while_true fn) s"

section \<open>Side blobs, URLs and hosts\<close>

definition meta_row :: "env \<Rightarrow> bytes kv \<Rightarrow> bytes \<Rightarrow> doc_err + (int \<times> bytes \<times> bytes) option" where
  "meta_row e db k =
     (if length k \<noteq> 9 \<or> get_err e k then Inr None
      else (case fmlookup db k of None \<Rightarrow> Inr None
        | Some v \<Rightarrow> (case unpack_doc_meta v of
            Inl x \<Rightarrow> if x = SlicePanic then Inl (MetaErr x) else Inr None
          | Inr (url, title) \<Rightarrow> if url = [] then Inr None else Inr (Some (dec64 (drop 1 k), url, title)))))"

definition iter_doc_meta :: "env \<Rightarrow> bytes kv \<Rightarrow> (int \<Rightarrow> bytes \<Rightarrow> bytes \<Rightarrow> 's \<Rightarrow> doc_err option \<times> 's) \<Rightarrow> 's \<Rightarrow> doc_err option \<times> 's" where
  "iter_doc_meta e db fn s = scan_family e db ''i'' ''j'' (meta_row e db)
     (\<lambda>(i, url, title) s. case fn i url title s of (r, s1) \<Rightarrow> (map_option Some r, s1)) s"

definition iter_docs_lite :: "env \<Rightarrow> bytes kv \<Rightarrow> (int \<Rightarrow> bytes \<Rightarrow> 's \<Rightarrow> doc_err option \<times> 's) \<Rightarrow> 's \<Rightarrow> doc_err option \<times> 's" where
  "iter_docs_lite e db fn s = scan_family e db ''i'' ''j'' (meta_row e db)
     (\<lambda>(i, url, title) s. case fn i url s of (r, s1) \<Rightarrow> (map_option Some r, s1)) s"

definition iter_url_keys :: "env \<Rightarrow> bytes kv \<Rightarrow> (bytes \<Rightarrow> 's \<Rightarrow> bool \<times> 's) \<Rightarrow> 's \<Rightarrow> doc_err option \<times> 's" where
  "iter_url_keys e db fn s = scan_family e db ''u'' ''v''
     (\<lambda>k. if length k < 2 then Inr None else Inr (Some (drop 1 k))) (while_true fn) s"

text \<open>\<open>strings.ToLower(strings.TrimSpace(host))\<close> on an ASCII string.\<close>

definition normal_host :: "bytes \<Rightarrow> bytes" where
  "normal_host h = to_lower (trim_space h)"

definition iter_host_doc_ids :: "env \<Rightarrow> bytes kv \<Rightarrow> bytes \<Rightarrow> (int \<Rightarrow> 's \<Rightarrow> bool \<times> 's) \<Rightarrow> 's \<Rightarrow> doc_err option \<times> 's" where
  "iter_host_doc_ids e db h fn s =
     (let host = normal_host h; lower = CHR ''h'' # host @ [CHR 0x00] in
      if ctx_err e then (Some Cancelled, s) else if host = [] then (None, s)
      else scan_family e db lower (CHR ''h'' # host @ [CHR 0x01])
        (\<lambda>k. if length k < length lower + 8 then Inr None else Inr (Some (dec64 (take 8 (drop (length lower) k))))) (while_true fn) s)"

text \<open>The host of a row of the host family, between its first byte and the separator before the id.\<close>

definition host_of_row :: "bytes \<Rightarrow> bytes" where
  "host_of_row k = take (length k - 10) (drop 1 k)"

text \<open>The loop of \<open>IterateDomains\<close>, with the current host and its count.\<close>

fun domains_loop :: "(bytes \<Rightarrow> nat \<Rightarrow> 's \<Rightarrow> bool \<times> 's) \<Rightarrow> bytes list \<Rightarrow> bytes \<Rightarrow> nat \<Rightarrow> 's \<Rightarrow> 's" where
  "domains_loop fn [] cur n s = (if cur \<noteq> [] then snd (fn cur n s) else s)"
| "domains_loop fn (k # ks) cur n s =
     (if length k < 10 then domains_loop fn ks cur n s
      else let host = host_of_row k in
        if host = cur then domains_loop fn ks cur (n + 1) s
        else if cur = [] then domains_loop fn ks host 1 s
        else (case fn cur n s of (go, s1) \<Rightarrow> if go then domains_loop fn ks host 1 s1 else s1))"

definition iterate_domains :: "env \<Rightarrow> bytes kv \<Rightarrow> (bytes \<Rightarrow> nat \<Rightarrow> 's \<Rightarrow> bool \<times> 's) \<Rightarrow> 's \<Rightarrow> doc_err option \<times> 's" where
  "iterate_domains e db fn s =
     (if ctx_err e then (Some Cancelled, s) else if iter_err e ''h'' then (Some ReadFault, s)
      else (None, domains_loop fn (family db (CHR ''h'')) [] 0 s))"

section \<open>Counts per host\<close>

record domain_count =
  dc_host :: bytes
  dc_count :: nat

definition host_tally :: "bytes list \<Rightarrow> (bytes, nat) fmap" where
  "host_tally hs = fold (\<lambda>h m. fmupd h ((case fmlookup m h of None \<Rightarrow> 0 | Some n \<Rightarrow> n) + 1) m) hs fmempty"

text \<open>The order of \<open>sort.Slice\<close> is total on hosts: by count, largest first, then by host.\<close>

definition ranked :: "(bytes, nat) fmap \<Rightarrow> domain_count list" where
  "ranked m = sort_key (\<lambda>d. - int (dc_count d))
     (map (\<lambda>h. \<lparr>dc_host = h, dc_count = the (fmlookup m h)\<rparr>) (sorted_list_of_fset (fmdom m)))"

definition domain_rows :: "bytes kv \<Rightarrow> bytes list" where
  "domain_rows db = map host_of_row (filter (\<lambda>k. 10 < length k) (family db (CHR ''h'')))"

definition top_domains :: "env \<Rightarrow> bytes kv \<Rightarrow> int \<Rightarrow> doc_err + domain_count list" where
  "top_domains e db top_n =
     (if ctx_err e then Inl Cancelled
      else let top_n = (if top_n \<le> 0 then 20 else top_n) in
        if iter_err e ''h'' then Inl ReadFault else Inr (take (nat top_n) (ranked (host_tally (domain_rows db)))))"

definition list_domains :: "env \<Rightarrow> bytes kv \<Rightarrow> bytes \<Rightarrow> int \<Rightarrow> int \<Rightarrow> doc_err + domain_count list \<times> nat" where
  "list_domains e db q offset limit =
     (if ctx_err e then Inl Cancelled
      else let limit = (if limit \<le> 0 then 50 else limit); offset = (if offset < 0 then 0 else offset); q = normal_host q in
        if iter_err e ''h'' then Inl ReadFault
        else let all = ranked (host_tally (filter (\<lambda>h. q = [] \<or> contains (to_lower h) q) (domain_rows db))) in
          if int (length all) \<le> offset then Inr ([], length all)
          else Inr (take (nat limit) (drop (nat offset) all), length all))"

definition top_queued_hosts :: "env \<Rightarrow> bytes kv \<Rightarrow> int \<Rightarrow> doc_err + domain_count list" where
  "top_queued_hosts e db top_n =
     (if ctx_err e then Inl Cancelled
      else let top_n = (if top_n \<le> 0 then 25 else top_n) in
        if iter_err e ''fq'' then Inl ReadFault
        else Inr (take (nat top_n) (ranked (host_tally (filter (\<lambda>h. h \<noteq> []) (map decode_frontier_index_host (kv_keys db ''fq'' ''fr'')))))))"

record lane_stats =
  ls_queued :: "nat list"
  ls_in_flight :: "nat list"
  ls_legacy_queued :: nat
  ls_legacy_in_flight :: nat

text \<open>The lane of an index key: \<open>None\<close> for the format without a lane.\<close>

definition key_lane :: "bytes \<Rightarrow> nat option" where
  "key_lane k = (if byte_val (k ! 2) < lane_count then Some (byte_val (k ! 2)) else None)"

definition lane_tally :: "bytes list \<Rightarrow> nat list \<times> nat" where
  "lane_tally ks = fold (\<lambda>k (lanes, legacy). if length k < 3 then (lanes, legacy)
     else (case key_lane k of Some l \<Rightarrow> (lanes[l := lanes ! l + 1], legacy) | None \<Rightarrow> (lanes, legacy + 1)))
     ks (replicate lane_count 0, 0)"

definition get_lane_stats :: "env \<Rightarrow> bytes kv \<Rightarrow> doc_err + lane_stats" where
  "get_lane_stats e db =
     (if ctx_err e then Inl Cancelled
      else if iter_err e ''fq'' then Inl ReadFault else if iter_err e ''fi'' then Inl ReadFault
      else let (q, lq) = lane_tally (kv_keys db ''fq'' ''fr''); (i, li) = lane_tally (kv_keys db ''fi'' ''fj'') in
        Inr \<lparr>ls_queued = q, ls_in_flight = i, ls_legacy_queued = lq, ls_legacy_in_flight = li\<rparr>)"

text \<open>The key ranges of one host in the queue: the format without lanes, then every lane.\<close>

definition host_ranges :: "bytes \<Rightarrow> (bytes \<times> bytes) list" where
  "host_ranges h = (''fq'' @ h @ [CHR 0x00], ''fq'' @ h @ [CHR 0x01])
     # map (\<lambda>l. (''fq'' @ char_of l # h @ [CHR 0x00], ''fq'' @ char_of l # h @ [CHR 0x01])) [0..<lane_count]"

fun count_ranges :: "env \<Rightarrow> bytes kv \<Rightarrow> (bytes \<times> bytes) list \<Rightarrow> nat \<Rightarrow> doc_err + nat" where
  "count_ranges e db [] n = Inr n"
| "count_ranges e db ((lo, hi) # rs) n =
     (if iter_err e lo then Inl ReadFault else count_ranges e db rs (n + length (kv_keys db lo hi)))"

fun count_queued_loop :: "env \<Rightarrow> bytes kv \<Rightarrow> bytes list \<Rightarrow> (bytes, nat) fmap \<Rightarrow> doc_err + (bytes, nat) fmap" where
  "count_queued_loop e db [] out = Inr out"
| "count_queued_loop e db (h # hs) out =
     (if h = [] then count_queued_loop e db hs out
      else (case count_ranges e db (host_ranges h) 0 of Inl x \<Rightarrow> Inl x
        | Inr n \<Rightarrow> count_queued_loop e db hs (if 0 < n then fmupd h n out else out)))"

definition count_queued_per_host :: "env \<Rightarrow> bytes kv \<Rightarrow> bytes list \<Rightarrow> doc_err + (bytes, nat) fmap" where
  "count_queued_per_host e db hs = (if ctx_err e then Inl Cancelled else count_queued_loop e db hs fmempty)"

end
