(* ===== verification/DocSha.thy ===== *)
theory DocSha
  imports DocRead
begin

text \<open>
  The content hash index (\<open>src/internal/store/content_index.go\<close>) and the back-filling of the host partition
  (\<open>src/internal/store/pebble.go\<close>). A pass over many rows may be cancelled between two of them: \<open>off n\<close> says that the
  context is done when row number \<open>n\<close> is reached.
\<close>

section \<open>Content hashes\<close>

definition sha_prefix :: "bytes \<Rightarrow> bytes" where
  "sha_prefix sha = take 33 (content_sha_key sha 0)"

fun live_loop :: "gob \<Rightarrow> env \<Rightarrow> bytes kv \<Rightarrow> bytes \<Rightarrow> int \<Rightarrow> bytes list \<Rightarrow> doc_err + bool" where
  "live_loop g e db sha excl [] = Inr False"
| "live_loop g e db sha excl (k # ks) =
     (if length k \<noteq> 41 then live_loop g e db sha excl ks
      else let i = dec64 (drop 33 k) in
        if i = excl then live_loop g e db sha excl ks
        else (case get_doc_by_id g e db i of
            Inl x \<Rightarrow> if x = Missing then live_loop g e db sha excl ks else Inl x
          | Inr d \<Rightarrow> if doc_sha d = sha then Inr True else live_loop g e db sha excl ks))"

definition has_live_content :: "gob \<Rightarrow> env \<Rightarrow> bytes kv \<Rightarrow> bytes \<Rightarrow> int \<Rightarrow> doc_err + bool" where
  "has_live_content g e db sha excl =
     (if length sha \<noteq> 32 then Inr False
      else if iter_err e (sha_prefix sha) then Inl ReadFault
      else live_loop g e db sha excl (kv_keys db (sha_prefix sha) (sha_prefix sha @ replicate 9 (CHR 0xFF))))"

definition content_index_complete :: "env \<Rightarrow> bytes kv \<Rightarrow> doc_err + bool" where
  "content_index_complete e db =
     (if ctx_err e then Inl Cancelled
      else if get_err e (store_meta_key ''content_sha_complete'') then Inl ReadFault
      else Inr (fmlookup db (store_meta_key ''content_sha_complete'') = Some [CHR 0x01]))"

record sha_backfill =
  sb_scanned :: int
  sb_indexed :: int
  sb_last :: int
  sb_max :: int
  sb_resumed :: int
  sb_already :: bool

definition content_sha_batch :: nat where "content_sha_batch = 2000"

text \<open>The closure \<open>commit\<close> of the pass: the batch with the cursor, or with the completion mark.\<close>

definition sha_commit :: "env \<Rightarrow> bool \<Rightarrow> sha_backfill \<Rightarrow> bytes bop list \<Rightarrow> bytes kv \<Rightarrow> doc_err option \<times> bytes kv" where
  "sha_commit e final res ops db =
     (let ops = ops @ (if final then [BSet (store_meta_key ''content_sha_complete'') [CHR 0x01], BDel (store_meta_key ''content_sha_cursor'')]
            else [BSet (store_meta_key ''content_sha_cursor'') (enc64 (sb_last res))]) in
      if commit_err e then (Some WriteFault, db) else (None, apply_batch ops db))"

text \<open>The loop: the rows of the iterator's snapshot \<open>rows\<close>, the number of the row, the batch and its size.\<close>

fun sha_loop :: "gob \<Rightarrow> env \<Rightarrow> (nat \<Rightarrow> bool) \<Rightarrow> nat \<Rightarrow> (bytes \<times> bytes) list \<Rightarrow> bytes bop list \<Rightarrow> nat \<Rightarrow> sha_backfill \<Rightarrow> bytes kv
    \<Rightarrow> (doc_err option \<times> sha_backfill) \<times> bytes kv" where
  "sha_loop g e off n [] ops pending res db = (case sha_commit e True res ops db of (x, db1) \<Rightarrow> ((x, res), db1))"
| "sha_loop g e off n ((k, v) # rows) ops pending res db =
     (if off n then
        (if 0 < pending then (case sha_commit e False res ops db of (None, db1) \<Rightarrow> ((Some Cancelled, res), db1)
             | (Some x, db1) \<Rightarrow> ((Some x, res), db1))
         else ((Some Cancelled, res), db))
      else if length k \<noteq> 9 then sha_loop g e off (n + 1) rows ops pending res db
      else let i = dec64 (drop 1 k) in
        if get_err e k then ((Some ReadFault, res), db)
        else (case gob_dec g v of None \<Rightarrow> ((Some (DecodeErr i), res), db)
          | Some d \<Rightarrow>
            (let hashed = (length (doc_sha d) = 32);
                 res = res\<lparr>sb_scanned := i64 (sb_scanned res + 1), sb_last := i,
                   sb_indexed := (if hashed then i64 (sb_indexed res + 1) else sb_indexed res)\<rparr>;
                 ops = ops @ content_sha_ops (doc_sha d) i in
             if content_sha_batch \<le> pending + 1 then
               (case sha_commit e False res ops db of (None, db1) \<Rightarrow> sha_loop g e off (n + 1) rows [] 0 res db1
                | (Some x, db1) \<Rightarrow> ((Some x, res), db1))
             else sha_loop g e off (n + 1) rows ops (pending + 1) res db)))"

definition rows_between :: "bytes kv \<Rightarrow> bytes \<Rightarrow> bytes \<Rightarrow> (bytes \<times> bytes) list" where
  "rows_between db lo hi = map (\<lambda>k. (k, the (fmlookup db k))) (kv_keys db lo hi)"

text \<open>The pass from the recorded cursor on.\<close>

definition sha_pass :: "gob \<Rightarrow> env \<Rightarrow> (nat \<Rightarrow> bool) \<Rightarrow> sha_backfill \<Rightarrow> bytes kv \<Rightarrow> (doc_err option \<times> sha_backfill) \<times> bytes kv" where
  "sha_pass g e off res db =
     (if get_err e (store_meta_key ''content_sha_cursor'') then ((Some ReadFault, res), db)
      else let from = read_meta e db ''content_sha_cursor''; res = res\<lparr>sb_resumed := from, sb_last := from\<rparr> in
        if iter_err e (doc_key (from + 1)) then ((Some ReadFault, res), db)
        else sha_loop g e off 0 (rows_between db (doc_key (from + 1)) ''e'') [] 0 res db)"

definition backfill_content_sha :: "gob \<Rightarrow> env \<Rightarrow> (nat \<Rightarrow> bool) \<Rightarrow> bool \<Rightarrow> doc_store \<Rightarrow> (doc_err option \<times> sha_backfill) \<times> doc_store" where
  "backfill_content_sha g e off rescan s =
     (let res = \<lparr>sb_scanned = 0, sb_indexed = 0, sb_last = 0, sb_max = ds_next_id s, sb_resumed = 0, sb_already = False\<rparr> in
      if rescan then
        (if commit_err e then ((Some WriteFault, res), s)
         else (case sha_pass g e off res (apply_batch [BDel (store_meta_key ''content_sha_complete''), BDel (store_meta_key ''content_sha_cursor'')] (ds_db s)) of
             (r, db1) \<Rightarrow> (r, with_db db1 s)))
      else (case content_index_complete e (ds_db s) of Inl x \<Rightarrow> ((Some x, res), s)
        | Inr True \<Rightarrow> ((None, res\<lparr>sb_already := True\<rparr>), s)
        | Inr False \<Rightarrow> (case sha_pass g e off res (ds_db s) of (r, db1) \<Rightarrow> (r, with_db db1 s))))"

section \<open>Back-filling the host partition\<close>

definition backfill_flush :: nat where "backfill_flush = 10000"

text \<open>Postings copied into a batch that is committed whenever it holds \<open>backfill_flush\<close> of them.\<close>

definition add_host_posting :: "env \<Rightarrow> int \<Rightarrow> int \<Rightarrow> int \<Rightarrow> bytes \<Rightarrow> int \<times> bytes bop list \<times> bytes kv \<Rightarrow> (doc_err + unit) \<times> (int \<times> bytes bop list \<times> bytes kv)" where
  "add_host_posting e h t i v st = (case st of (written, ops, db) \<Rightarrow>
     (let ops = ops @ [BSet (host_posting_key h t i) v]; written = i64 (written + 1) in
      if length ops < backfill_flush then (Inr (), written, ops, db)
      else if commit_err e then (Inl WriteFault, written, ops, db)
      else (Inr (), written, [], apply_batch ops db)))"

definition flush_rest :: "env \<Rightarrow> int \<times> bytes bop list \<times> bytes kv \<Rightarrow> (doc_err option \<times> int) \<times> bytes kv" where
  "flush_rest e st = (case st of (written, ops, db) \<Rightarrow>
     if ops = [] then ((None, written), db) else if commit_err e then ((Some WriteFault, written), db)
     else ((None, written), apply_batch ops db))"

text \<open>The terms of one document; a posting that cannot be read is skipped.\<close>

fun copy_terms :: "env \<Rightarrow> int \<Rightarrow> int \<Rightarrow> int list \<Rightarrow> int \<times> bytes bop list \<times> bytes kv \<Rightarrow> (doc_err + unit) \<times> (int \<times> bytes bop list \<times> bytes kv)" where
  "copy_terms e h i [] st = (Inr (), st)"
| "copy_terms e h i (t # ts) st =
     (case (if get_err e (posting_key t i) then None else fmlookup (snd (snd st)) (posting_key t i)) of None \<Rightarrow> copy_terms e h i ts st
      | Some v \<Rightarrow> if length v \<noteq> 16 then copy_terms e h i ts st
          else (case add_host_posting e h t i v st of (Inl x, st1) \<Rightarrow> (Inl x, st1) | (Inr _, st1) \<Rightarrow> copy_terms e h i ts st1))"

fun copy_docs :: "env \<Rightarrow> (nat \<Rightarrow> bool) \<Rightarrow> nat \<Rightarrow> int \<Rightarrow> int list \<Rightarrow> int \<times> bytes bop list \<times> bytes kv \<Rightarrow> (doc_err option \<times> int) \<times> bytes kv" where
  "copy_docs e off n h [] st = flush_rest e st"
| "copy_docs e off n h (i # is) st =
     (if off n then ((Some Cancelled, fst st), snd (snd st))
      else (case read_doc_terms e (snd (snd st)) i of Inl x \<Rightarrow> ((Some x, fst st), snd (snd st))
        | Inr ts \<Rightarrow> (case copy_terms e h i ts st of (Inl x, st1) \<Rightarrow> ((Some x, fst st1), snd (snd st1))
            | (Inr _, st1) \<Rightarrow> copy_docs e off (n + 1) h is st1)))"

definition backfill_host_targeted :: "doc_env \<Rightarrow> (nat \<Rightarrow> bool) \<Rightarrow> bytes \<Rightarrow> bytes kv \<Rightarrow> (doc_err option \<times> int) \<times> bytes kv" where
  "backfill_host_targeted e off host db =
     (case get_or_alloc_host e db host of (Inl x, db1) \<Rightarrow> ((Some x, 0), db1)
      | (Inr hid, db1) \<Rightarrow> if hid = 0 then ((None, 0), db1)
          else (case iter_host_doc_ids (de_env e) db1 host collect [] of (Some x, _) \<Rightarrow> ((Some x, 0), db1)
            | (None, ids) \<Rightarrow> copy_docs (de_env e) off 0 hid ids (0, [], db1)))"

text \<open>
  Phase one of the full pass: the hosts of the documents, their ids allocated in the order of the host family; a later
  row of a document overrides an earlier one.
\<close>

fun map_hosts :: "doc_env \<Rightarrow> bytes list \<Rightarrow> (bytes, int) fmap \<Rightarrow> (int, int) fmap \<Rightarrow> bytes kv \<Rightarrow> (doc_err + (int, int) fmap) \<times> bytes kv" where
  "map_hosts e [] known docs db = (Inr docs, db)"
| "map_hosts e (k # ks) known docs db =
     (if length k < 10 \<or> host_of_row k = [] then map_hosts e ks known docs db
      else let i = dec64 (drop (length k - 8) k); host = host_of_row k in
        (case fmlookup known host of Some h \<Rightarrow> map_hosts e ks known (fmupd i h docs) db
         | None \<Rightarrow> (case get_or_alloc_host e db host of (Inl x, db1) \<Rightarrow> (Inl x, db1)
             | (Inr h, db1) \<Rightarrow> map_hosts e ks (fmupd host h known) (fmupd i h docs) db1)))"

fun copy_rows :: "env \<Rightarrow> (nat \<Rightarrow> bool) \<Rightarrow> nat \<Rightarrow> (int, int) fmap \<Rightarrow> (bytes \<times> bytes) list \<Rightarrow> int \<times> bytes bop list \<times> bytes kv
    \<Rightarrow> (doc_err option \<times> int) \<times> bytes kv" where
  "copy_rows e off n docs [] st = flush_rest e st"
| "copy_rows e off n docs ((k, v) # rows) st =
     (if off n then ((Some Cancelled, fst st), snd (snd st))
      else if length k \<noteq> 17 then copy_rows e off (n + 1) docs rows st
      else (case fmlookup docs (dec64 (drop 9 k)) of None \<Rightarrow> copy_rows e off (n + 1) docs rows st
        | Some h \<Rightarrow> if get_err e k then ((Some ReadFault, fst st), snd (snd st))
            else if length v \<noteq> 16 then copy_rows e off (n + 1) docs rows st
            else (case add_host_posting e h (dec64 (take 8 (drop 1 k))) (dec64 (drop 9 k)) v st of
                (Inl x, st1) \<Rightarrow> ((Some x, fst st1), snd (snd st1)) | (Inr _, st1) \<Rightarrow> copy_rows e off (n + 1) docs rows st1)))"

definition backfill_host_full :: "doc_env \<Rightarrow> (nat \<Rightarrow> bool) \<Rightarrow> bytes kv \<Rightarrow> (doc_err option \<times> int) \<times> bytes kv" where
  "backfill_host_full e off db =
     (if iter_err (de_env e) ''h'' then ((Some ReadFault, 0), db)
      else if ctx_err (de_env e) \<and> family db (CHR ''h'') \<noteq> [] then ((Some Cancelled, 0), db)
      else (case map_hosts e (family db (CHR ''h'')) fmempty fmempty db of (Inl x, db1) \<Rightarrow> ((Some x, 0), db1)
        | (Inr docs, db1) \<Rightarrow> if iter_err (de_env e) ''p'' then ((Some ReadFault, 0), db1)
            else copy_rows (de_env e) off 0 docs (rows_between db1 ''p'' ''q'') (0, [], db1)))"

definition backfill_host_postings :: "doc_env \<Rightarrow> (nat \<Rightarrow> bool) \<Rightarrow> bytes \<Rightarrow> bytes kv \<Rightarrow> (doc_err option \<times> int) \<times> bytes kv" where
  "backfill_host_postings e off only_host db =
     (let only_host = normal_host only_host in
      if only_host \<noteq> [] then backfill_host_targeted e off only_host db else backfill_host_full e off db)"

end
