(* ===== verification/DocInv.thy ===== *)
theory DocInv
  imports DocStore
begin

text \<open>
  The representation invariant of the document store, on decoded views of its key families, and what a batch leaves
  under a key.
\<close>

section \<open>Batches\<close>

text \<open>The value under a key is decided by the writes that touch it.\<close>

lemma batch_sets:
  assumes "\<forall>b \<in> set ops. touches b k \<longrightarrow> b = BSet k v" "\<exists>b \<in> set ops. touches b k"
  shows "fmlookup (apply_batch ops db) k = Some v"
  using assms
proof (induction ops rule: rev_induct)
  case (snoc b ops)
  show ?case
  proof (cases "touches b k")
    case True
    with snoc.prems(1) have "b = BSet k v" by simp
    then show ?thesis by simp
  next
    case False
    with snoc have "fmlookup (apply_batch ops db) k = Some v" by auto
    with False show ?thesis by (cases b) auto
  qed
qed simp

lemma batch_set_in:
  assumes "BSet k v \<in> set ops" "\<And>b. b \<in> set ops \<Longrightarrow> touches b k \<Longrightarrow> b = BSet k v"
  shows "fmlookup (apply_batch ops db) k = Some v"
proof (rule batch_sets)
  show "\<exists>b \<in> set ops. touches b k" by (rule bexI [OF _ assms(1)]) simp
qed (use assms(2) in blast)

lemma batch_dels:
  assumes "\<forall>b \<in> set ops. touches b k \<longrightarrow> b = BDel k" "\<exists>b \<in> set ops. touches b k"
  shows "fmlookup (apply_batch ops db) k = None"
  using assms
proof (induction ops rule: rev_induct)
  case (snoc b ops)
  show ?case
  proof (cases "touches b k")
    case True
    with snoc.prems(1) have "b = BDel k" by simp
    then show ?thesis by simp
  next
    case False
    with snoc have "fmlookup (apply_batch ops db) k = None" by auto
    with False show ?thesis by (cases b) auto
  qed
qed simp

lemma batch_del_in:
  assumes "BDel k \<in> set ops" "\<And>b. b \<in> set ops \<Longrightarrow> touches b k \<Longrightarrow> b = BDel k"
  shows "fmlookup (apply_batch ops db) k = None"
proof (rule batch_dels)
  show "\<exists>b \<in> set ops. touches b k" by (rule bexI [OF _ assms(1)]) simp
qed (use assms(2) in blast)

section \<open>Views\<close>

definition url_at :: "bytes kv \<Rightarrow> bytes \<Rightarrow> int option" where
  "url_at db u = map_option dec64 (fmlookup db (url_key u))"

definition doc_at :: "gob \<Rightarrow> bytes kv \<Rightarrow> int \<Rightarrow> document option" where
  "doc_at g db i = Option.bind (fmlookup db (doc_key i)) (gob_dec g)"

definition term_at :: "bytes kv \<Rightarrow> bytes \<Rightarrow> term_info option" where
  "term_at db t = Option.bind (fmlookup db (term_key t)) unpack_term_info"

definition terms_of :: "bytes kv \<Rightarrow> int \<Rightarrow> int list" where
  "terms_of db i = (case Option.bind (fmlookup db (doc_terms_key i)) unpack_doc_terms of None \<Rightarrow> [] | Some ids \<Rightarrow> ids)"

definition posting_at :: "bytes kv \<Rightarrow> int \<Rightarrow> int \<Rightarrow> (int \<times> int) option" where
  "posting_at db t i = Option.bind (fmlookup db (posting_key t i)) unpack_posting"

definition len_at :: "bytes kv \<Rightarrow> int \<Rightarrow> int option" where
  "len_at db i = map_option dec64 (fmlookup db (doc_len_key i))"

definition meta_at :: "bytes kv \<Rightarrow> bytes \<Rightarrow> int" where
  "meta_at db n = (case fmlookup db (store_meta_key n) of None \<Rightarrow> 0 | Some v \<Rightarrow> if length v \<noteq> 8 then 0 else dec64 v)"

lemmas view_defs = url_at_def doc_at_def term_at_def terms_of_def posting_at_def len_at_def meta_at_def

abbreviation stored_id :: "bytes kv \<Rightarrow> int" where "stored_id db \<equiv> meta_at db ''next_doc_id''"
abbreviation stored_term :: "bytes kv \<Rightarrow> int" where "stored_term db \<equiv> meta_at db ''next_term_id''"

section \<open>Invariant\<close>

text \<open>A URL has one document, which has its address, its id and its title side blob; nothing else is a document.\<close>

definition docs_ok :: "gob \<Rightarrow> bytes kv \<Rightarrow> bool" where
  "docs_ok g db =
     ((\<forall>u v. fmlookup db (url_key u) = Some v \<longrightarrow> u \<noteq> [] \<and> (\<exists>i d. is_id i \<and> v = enc64 i \<and> doc_at g db i = Some d
         \<and> doc_url d = u \<and> doc_id d = i \<and> fmlookup db (doc_meta_key i) = Some (pack_doc_meta u (doc_title d))))
      \<and> (\<forall>i. is_id i \<longrightarrow> fmlookup db (doc_key i) \<noteq> None \<longrightarrow> (\<exists>d. doc_at g db i = Some d \<and> fmlookup db (url_key (doc_url d)) = Some (enc64 i)))
      \<and> (\<forall>i. is_id i \<longrightarrow> fmlookup db (doc_meta_key i) \<noteq> None \<longrightarrow> fmlookup db (doc_key i) \<noteq> None))"

text \<open>The families keyed by documents hold well-formed ids that were handed out and recorded.\<close>

definition ids_ok :: "bytes kv \<Rightarrow> bool" where
  "ids_ok db =
     (0 \<le> stored_id db \<and> stored_id db < 2 ^ 63
      \<and> (\<forall>c r. fmlookup db (c # r) \<noteq> None \<longrightarrow> c \<in> {CHR ''d'', CHR ''i'', CHR ''l'', CHR ''g''}
           \<longrightarrow> (\<exists>i. is_id i \<and> i \<le> stored_id db \<and> r = enc64 i))
      \<and> (\<forall>r. fmlookup db (CHR ''p'' # r) \<noteq> None \<longrightarrow> (\<exists>t i. is_id t \<and> t \<le> stored_term db \<and> is_id i \<and> i \<le> stored_id db \<and> r = enc64 t @ enc64 i)))"

text \<open>Terms have distinct ids the counter has passed.\<close>

definition terms_ok :: "bytes kv \<Rightarrow> bool" where
  "terms_ok db =
     (0 \<le> stored_term db \<and> stored_term db < 2 ^ 63
      \<and> (\<forall>t v. fmlookup db (term_key t) = Some v \<longrightarrow> (\<exists>x. v = pack_term_info x \<and> is_id (ti_id x) \<and> ti_id x \<le> stored_term db \<and> is_id (ti_freq x)))
      \<and> (\<forall>t u x y. term_at db t = Some x \<longrightarrow> term_at db u = Some y \<longrightarrow> ti_id x = ti_id y \<longrightarrow> t = u))"

text \<open>The postings of a document are exactly its recorded terms, and carry its length.\<close>

definition postings_ok :: "bytes kv \<Rightarrow> bool" where
  "postings_ok db =
     ((\<forall>i v. is_id i \<longrightarrow> fmlookup db (doc_terms_key i) = Some v \<longrightarrow> (\<exists>ids. v = pack_doc_terms ids \<and> distinct ids \<and> length ids < 2 ^ 63
          \<and> (\<forall>t \<in> set ids. is_id t \<and> (\<exists>w x. term_at db w = Some x \<and> ti_id x = t))))
      \<and> (\<forall>t i. is_id t \<longrightarrow> is_id i \<longrightarrow> (fmlookup db (posting_key t i) \<noteq> None) = (t \<in> set (terms_of db i)))
      \<and> (\<forall>t i v. is_id t \<longrightarrow> is_id i \<longrightarrow> fmlookup db (posting_key t i) = Some v \<longrightarrow> (\<exists>tf len. v = pack_posting tf len
          \<and> (\<forall>n. fmlookup db (doc_len_key i) = Some n \<longrightarrow> n = enc64 len)))
      \<and> (\<forall>i v. is_id i \<longrightarrow> fmlookup db (doc_len_key i) = Some v \<longrightarrow> length v = 8))"

text \<open>\<open>DocFreq\<close> never falls below the number of postings.\<close>

definition docs_with :: "bytes kv \<Rightarrow> int \<Rightarrow> int set" where
  "docs_with db t = {i. is_id i \<and> fmlookup db (posting_key t i) \<noteq> None}"

definition freqs_ok :: "bytes kv \<Rightarrow> bool" where
  "freqs_ok db = (\<forall>w x. term_at db w = Some x \<longrightarrow> int (card (docs_with db (ti_id x))) \<le> ti_freq x)"

definition doc_inv :: "gob \<Rightarrow> doc_store \<Rightarrow> bool" where
  "doc_inv g s = (docs_ok g (ds_db s) \<and> ids_ok (ds_db s) \<and> terms_ok (ds_db s) \<and> postings_ok (ds_db s) \<and> freqs_ok (ds_db s)
     \<and> stored_id (ds_db s) \<le> ds_next_id s \<and> ds_next_id s < 2 ^ 63)"

section \<open>Frames\<close>

lemma finite_docs_with: "finite (docs_with db t)"
proof -
  have "docs_with db t \<subseteq> (\<lambda>k. dec64 (drop 9 k)) ` fset (fmdom db)"
  proof
    fix i assume "i \<in> docs_with db t"
    then have "is_id i" "posting_key t i \<in> fset (fmdom db)" by (auto simp: docs_with_def)
    then show "i \<in> (\<lambda>k. dec64 (drop 9 k)) ` fset (fmdom db)"
      by (intro image_eqI [of _ _ "posting_key t i"]) (simp_all add: posting_key_def)
  qed
  then show ?thesis by (rule finite_subset) simp
qed

definition same_on :: "(bytes \<Rightarrow> bool) \<Rightarrow> bytes kv \<Rightarrow> bytes kv \<Rightarrow> bool" where
  "same_on P db db' = (\<forall>k. P k \<longrightarrow> fmlookup db' k = fmlookup db k)"

text \<open>A key of one of the families \<open>cs\<close>.\<close>

definition fam :: "char list \<Rightarrow> bytes \<Rightarrow> bool" where
  "fam cs k = (k \<noteq> [] \<and> hd k \<in> set cs)"

lemma same_onD: "same_on P db db' \<Longrightarrow> P k \<Longrightarrow> fmlookup db' k = fmlookup db k"
  by (simp add: same_on_def)

lemma fam_key [simp]:
  "fam cs (c # r) = (c \<in> set cs)"
  by (simp add: fam_def)

lemma fam_keys [simp]:
  "fam cs (doc_key i) = (CHR ''d'' \<in> set cs)" "fam cs (url_key u) = (CHR ''u'' \<in> set cs)" "fam cs (doc_meta_key i) = (CHR ''i'' \<in> set cs)"
  "fam cs (term_key t) = (CHR ''t'' \<in> set cs)" "fam cs (posting_key x i) = (CHR ''p'' \<in> set cs)" "fam cs (doc_len_key i) = (CHR ''l'' \<in> set cs)"
  "fam cs (doc_terms_key i) = (CHR ''g'' \<in> set cs)" "fam cs (store_meta_key n) = (CHR ''m'' \<in> set cs)" "fam cs (host_key h i) = (CHR ''h'' \<in> set cs)"
  "fam cs (content_sha_key sha i) = (CHR ''C'' \<in> set cs)" "fam cs (host_term_key h) = (CHR ''T'' \<in> set cs)"
  "fam cs (host_posting_key x y i) = (CHR ''P'' \<in> set cs)"
  by (simp_all add: doc_key_defs)

lemma docs_ok_cong:
  assumes "same_on (fam ''dui'') db db'"
  shows "docs_ok g db' = docs_ok g db"
  using same_onD [OF assms] by (simp add: docs_ok_def doc_at_def)

lemma view_cong:
  assumes "same_on P db db'"
  shows "P (url_key u) \<Longrightarrow> url_at db' u = url_at db u" "P (doc_key i) \<Longrightarrow> doc_at g db' i = doc_at g db i"
    "P (term_key t) \<Longrightarrow> term_at db' t = term_at db t" "P (doc_terms_key i) \<Longrightarrow> terms_of db' i = terms_of db i"
    "P (posting_key x i) \<Longrightarrow> posting_at db' x i = posting_at db x i" "P (doc_len_key i) \<Longrightarrow> len_at db' i = len_at db i"
    "P (store_meta_key n) \<Longrightarrow> meta_at db' n = meta_at db n"
  using same_onD [OF assms] by (simp_all add: view_defs)

lemma postings_ok_cong:
  assumes "same_on (fam ''tglp'') db db'"
  shows "postings_ok db' = postings_ok db"
  using same_onD [OF assms] view_cong [OF assms] by (simp add: postings_ok_def)

lemma freqs_ok_cong:
  assumes "same_on (fam ''tp'') db db'"
  shows "freqs_ok db' = freqs_ok db"
  using same_onD [OF assms] view_cong [OF assms] by (simp add: freqs_ok_def docs_with_def)

lemma terms_ok_cong:
  assumes "same_on (\<lambda>k. fam ''t'' k \<or> k = store_meta_key ''next_term_id'') db db'"
  shows "terms_ok db' = terms_ok db"
  using same_onD [OF assms] view_cong [OF assms] by (simp add: terms_ok_def)

lemma ids_ok_mono:
  assumes "ids_ok db" "same_on (\<lambda>k. fam ''dilgp'' k) db db'" "stored_id db \<le> stored_id db'" "stored_id db' < 2 ^ 63"
    "stored_term db \<le> stored_term db'"
  shows "ids_ok db'"
proof -
  note a = assms(1) [unfolded ids_ok_def]
  have 1: "\<exists>i. is_id i \<and> i \<le> stored_id db' \<and> r = enc64 i"
    if "fmlookup db' (c # r) \<noteq> None" "c \<in> {CHR ''d'', CHR ''i'', CHR ''l'', CHR ''g''}" for c r
  proof -
    have "fam ''dilgp'' (c # r)" using that(2) by auto
    then have "fmlookup db (c # r) \<noteq> None" using that(1) same_onD [OF assms(2)] by metis
    with a that(2) obtain i where "is_id i" "i \<le> stored_id db" "r = enc64 i" by blast
    with assms(3) show ?thesis by force
  qed
  have 2: "\<exists>t i. is_id t \<and> t \<le> stored_term db' \<and> is_id i \<and> i \<le> stored_id db' \<and> r = enc64 t @ enc64 i"
    if "fmlookup db' (CHR ''p'' # r) \<noteq> None" for r
  proof -
    have "fmlookup db (CHR ''p'' # r) \<noteq> None" using that same_onD [OF assms(2)] by simp
    with a obtain t i where "is_id t" "t \<le> stored_term db" "is_id i" "i \<le> stored_id db" "r = enc64 t @ enc64 i" by blast
    with assms(3,5) show ?thesis by (intro exI [of _ t] exI [of _ i]) simp
  qed
  show ?thesis unfolding ids_ok_def using a assms(3,4) 1 2 by (intro conjI) auto
qed

end
