(* ===== verification/DocIndex.thy ===== *)
theory DocIndex
  imports DocInv
begin

text \<open>
  The index phase: what the loop over the terms of a document collects, and what its batch leaves under every key.
\<close>

section \<open>The loop over the terms\<close>

text \<open>The environment neither fails nor loses the accesses to the counters of the meta family.\<close>

definition counter_safe :: "doc_env \<Rightarrow> bool" where
  "counter_safe e = (\<forall>n. \<not> get_err (de_env e) (store_meta_key n) \<and> \<not> de_set_err e (store_meta_key n))"

lemma counter_safeD: "counter_safe e \<Longrightarrow> \<not> get_err (de_env e) (store_meta_key n) \<and> \<not> de_set_err e (store_meta_key n)"
  by (simp add: counter_safe_def)

lemma read_meta_safe: "counter_safe e \<Longrightarrow> read_meta (de_env e) db n = meta_at db n"
  by (simp add: read_meta_def meta_at_def counter_safe_def)

text \<open>\<open>ts\<close> and \<open>db'\<close> differ at most in the counter of term ids.\<close>

definition counted :: "bytes kv \<Rightarrow> bytes kv \<Rightarrow> bool" where
  "counted db db' = (same_on (\<lambda>k. k \<noteq> store_meta_key ''next_term_id'') db db' \<and> stored_term db \<le> stored_term db')"

lemma counted_refl [simp]: "counted db db"
  by (simp add: counted_def same_on_def)

lemma counted_trans: "counted a b \<Longrightarrow> counted b c \<Longrightarrow> counted a c"
  by (auto simp: counted_def same_on_def)

lemma counted_term_at: "counted db db' \<Longrightarrow> term_at db' t = term_at db t"
  using view_cong(3) [of "\<lambda>k. k \<noteq> store_meta_key ''next_term_id''" db db' t] by (simp add: counted_def term_key_def store_meta_key_def)

lemma term_entry_cases:
  assumes "term_entry e old db t = (r, db')" "counter_safe e" "0 \<le> stored_term db" "stored_term db + 1 < 2 ^ 63"
  shows "counted db db' \<and> stored_term db' \<le> stored_term db + 1
    \<and> (\<forall>x. r = Inr x \<longrightarrow> (case term_at db t of
        Some y \<Rightarrow> x = (if ti_id y \<in> set old then y else y\<lparr>ti_freq := i64 (ti_freq y + 1)\<rparr>)
      | None \<Rightarrow> ti_id x = stored_term db + 1 \<and> stored_term db' = stored_term db + 1 \<and> ti_freq x = 1))"
proof (cases "get_term_info (de_env e) db t")
  case (Inl x)
  with assms(1) show ?thesis by (auto simp: term_entry_def)
next
  case (Inr o')
  show ?thesis
  proof (cases o')
    case None
    have t: "term_at db t = None" using Inr None by (auto simp: get_term_info_def term_at_def split: if_splits option.splits)
    have i: "is_i64 (stored_term db + 1)" using assms(3,4) by (simp add: is_i64_def)
    have db': "db' = fmupd (store_meta_key ''next_term_id'') (enc64 (stored_term db + 1)) db" "r = Inr \<lparr>ti_id = stored_term db + 1, ti_freq = 1\<rparr>"
      using assms(1,2) Inr None i
      by (auto simp: term_entry_def next_term_id_def read_meta_safe counter_safe_def Let_def i64_id)
    have st: "stored_term db' = stored_term db + 1" using i by (simp add: db' meta_at_def i64_id)
    show ?thesis using t st by (simp add: db' counted_def same_on_def)
  next
    case (Some y)
    have t: "term_at db t = Some y" using Inr Some by (auto simp: get_term_info_def term_at_def split: if_splits option.splits)
    have "db' = db" "r = Inr (if ti_id y \<in> set old then y else y\<lparr>ti_freq := i64 (ti_freq y + 1)\<rparr>)"
      using assms(1) Inr Some by (auto simp: term_entry_def)
    then show ?thesis using t by simp
  qed
qed

definition freq_of :: "(bytes, int) fmap \<Rightarrow> bytes \<Rightarrow> int" where
  "freq_of tf t = (case fmlookup tf t of None \<Rightarrow> 0 | Some f \<Rightarrow> f)"

text \<open>What the loop found for the terms \<open>ts\<close>: entries of the store, or fresh ids above its counter.\<close>

definition infos_ok :: "int list \<Rightarrow> bytes kv \<Rightarrow> bytes kv \<Rightarrow> bytes list \<Rightarrow> (bytes \<Rightarrow> term_info) \<Rightarrow> bool" where
  "infos_ok old db db' ts f =
     ((\<forall>t \<in> set ts. (case term_at db t of
         Some y \<Rightarrow> f t = (if ti_id y \<in> set old then y else y\<lparr>ti_freq := i64 (ti_freq y + 1)\<rparr>)
       | None \<Rightarrow> stored_term db < ti_id (f t) \<and> ti_id (f t) \<le> stored_term db' \<and> ti_freq (f t) = 1))
      \<and> (\<forall>t \<in> set ts. \<forall>u \<in> set ts. term_at db t = None \<longrightarrow> term_at db u = None \<longrightarrow> ti_id (f t) = ti_id (f u) \<longrightarrow> t = u))"

lemma index_terms_run:
  assumes "index_terms e i len hid old tf ts ops new db = (r, db')" "counter_safe e" "distinct ts"
    "0 \<le> stored_term db" "stored_term db + int (length ts) < 2 ^ 63"
  shows "counted db db' \<and> stored_term db' \<le> stored_term db + int (length ts)
    \<and> (\<forall>ops' new'. r = Inr (ops', new') \<longrightarrow> (\<exists>f. ops' = ops @ concat (map (\<lambda>t. term_ops i len hid t (freq_of tf t) (f t)) ts)
        \<and> new' = fold List.insert (map (ti_id \<circ> f) ts) new \<and> infos_ok old db db' ts f))"
  using assms
proof (induction ts arbitrary: ops new db)
  case Nil
  then show ?case by (auto simp: infos_ok_def)
next
  case (Cons t ts)
  obtain q db1 where q: "term_entry e old db t = (q, db1)" by fastforce
  have b: "stored_term db + 1 < 2 ^ 63" using Cons.prems(5) by simp
  note te = term_entry_cases [OF q Cons.prems(2,4) b]
  have c1: "counted db db1" "stored_term db1 \<le> stored_term db + 1" using te by blast+
  have le1: "stored_term db \<le> stored_term db1" using c1 by (simp add: counted_def)
  show ?case
  proof (cases q)
    case (Inl x)
    with Cons.prems(1) q have "r = Inl x" "db' = db1" by auto
    with c1 show ?thesis by auto
  next
    case (Inr x)
    let ?ops = "ops @ term_ops i len hid t (case fmlookup tf t of None \<Rightarrow> 0 | Some f \<Rightarrow> f) x"
    have rest: "index_terms e i len hid old tf ts ?ops (List.insert (ti_id x) new) db1 = (r, db')"
      using Cons.prems(1) q Inr by simp
    have IH: "counted db1 db' \<and> stored_term db' \<le> stored_term db1 + int (length ts)
      \<and> (\<forall>ops' new'. r = Inr (ops', new') \<longrightarrow> (\<exists>f. ops' = ?ops @ concat (map (\<lambda>t. term_ops i len hid t (freq_of tf t) (f t)) ts)
        \<and> new' = fold List.insert (map (ti_id \<circ> f) ts) (List.insert (ti_id x) new) \<and> infos_ok old db1 db' ts f))"
      using Cons.prems c1 le1 by (intro Cons.IH [OF rest]) auto
    have "\<exists>f. ops' = ops @ concat (map (\<lambda>t. term_ops i len hid t (freq_of tf t) (f t)) (t # ts))
        \<and> new' = fold List.insert (map (ti_id \<circ> f) (t # ts)) new \<and> infos_ok old db db' (t # ts) f"
      if r: "r = Inr (ops', new')" for ops' new'
    proof -
      from IH r obtain f where f: "ops' = ?ops @ concat (map (\<lambda>t. term_ops i len hid t (freq_of tf t) (f t)) ts)"
        "new' = fold List.insert (map (ti_id \<circ> f) ts) (List.insert (ti_id x) new)" "infos_ok old db1 db' ts f" by blast
      let ?f = "f(t := x)"
      have nt: "t \<notin> set ts" using Cons.prems(3) by simp
      have same: "map (ti_id \<circ> ?f) ts = map (ti_id \<circ> f) ts"
        "map (\<lambda>u. term_ops i len hid u (freq_of tf u) (?f u)) ts = map (\<lambda>u. term_ops i len hid u (freq_of tf u) (f u)) ts"
        using nt by (auto intro!: map_cong)
      have le2: "stored_term db1 \<le> stored_term db'" using IH by (simp add: counted_def)
      have ta: "term_at db1 u = term_at db u" for u by (rule counted_term_at [OF c1(1)])
      note fo = f(3) [unfolded infos_ok_def ta]
      have x: "case term_at db t of Some y \<Rightarrow> x = (if ti_id y \<in> set old then y else y\<lparr>ti_freq := i64 (ti_freq y + 1)\<rparr>)
        | None \<Rightarrow> ti_id x = stored_term db + 1 \<and> stored_term db1 = stored_term db + 1 \<and> ti_freq x = 1"
        using te Inr by blast
      have "infos_ok old db db' (t # ts) ?f"
        unfolding infos_ok_def
      proof (intro conjI ballI impI)
        fix u assume u: "u \<in> set (t # ts)"
        show "case term_at db u of None \<Rightarrow> stored_term db < ti_id (?f u) \<and> ti_id (?f u) \<le> stored_term db' \<and> ti_freq (?f u) = 1
          | Some y \<Rightarrow> ?f u = (if ti_id y \<in> set old then y else y\<lparr>ti_freq := i64 (ti_freq y + 1)\<rparr>)"
        proof (cases "u = t")
          case True
          with x le2 show ?thesis by (auto split: option.splits)
        next
          case False
          with u have "u \<in> set ts" by simp
          with fo False le1 show ?thesis by (auto split: option.splits)
        qed
      next
        fix u v assume uv: "u \<in> set (t # ts)" "v \<in> set (t # ts)" "term_at db u = None" "term_at db v = None" "ti_id (?f u) = ti_id (?f v)"
        have big: "stored_term db + 1 < ti_id (f w)" if "w \<in> set ts" "term_at db w = None" "term_at db t = None" for w
          using fo x that by fastforce
        show "u = v"
        proof (cases "u = t"; cases "v = t")
          assume "u = t" "v \<noteq> t"
          with uv big [of v] x show ?thesis by auto
        next
          assume "u \<noteq> t" "v = t"
          with uv big [of u] x show ?thesis by auto
        next
          assume "u \<noteq> t" "v \<noteq> t"
          with uv fo show ?thesis by auto
        qed simp
      qed
      moreover have "ops' = ops @ concat (map (\<lambda>t. term_ops i len hid t (freq_of tf t) (?f t)) (t # ts))"
        unfolding f(1) list.map(2) concat.simps(2) same(2) by (simp add: freq_of_def)
      moreover have "new' = fold List.insert (map (ti_id \<circ> ?f) (t # ts)) new" unfolding f(2) list.map(2) same(1) by simp
      ultimately show ?thesis by blast
    qed
    moreover have "counted db db'" "stored_term db' \<le> stored_term db + int (length (t # ts))" using IH counted_trans [OF c1(1)] c1(2) by auto
    ultimately show ?thesis by blast
  qed
qed

lemma fold_insert_facts:
  "set (fold List.insert xs ys) = set xs \<union> set ys" "distinct ys \<Longrightarrow> distinct (fold List.insert xs ys)"
  "length (fold List.insert xs ys) \<le> length xs + length ys"
proof -
  show "set (fold List.insert xs ys) = set xs \<union> set ys" by (induction xs arbitrary: ys) auto
  show "distinct ys \<Longrightarrow> distinct (fold List.insert xs ys)" by (induction xs arbitrary: ys) auto
  show "length (fold List.insert xs ys) \<le> length xs + length ys"
  proof (induction xs arbitrary: ys)
    case (Cons x xs)
    have "length (List.insert x ys) \<le> Suc (length ys)" by (simp add: List.insert_def)
    with Cons [of "List.insert x ys"] show ?case by simp
  qed simp
qed


section \<open>The batch of the index phase\<close>

text \<open>The writes that happen outside the batch: only counters and host ids.\<close>

definition outside :: "bytes \<Rightarrow> bool" where
  "outside k = (k \<noteq> store_meta_key ''next_term_id'' \<and> k \<noteq> store_meta_key ''next_host_id'' \<and> \<not> fam ''T'' k)"

definition drifted :: "bytes kv \<Rightarrow> bytes kv \<Rightarrow> bool" where
  "drifted db db' = (same_on outside db db' \<and> stored_term db \<le> stored_term db')"

lemma outside_simps [simp]:
  "c \<noteq> CHR ''m'' \<Longrightarrow> c \<noteq> CHR ''T'' \<Longrightarrow> outside (c # r)"
  "outside (store_meta_key n) = (n \<noteq> ''next_term_id'' \<and> n \<noteq> ''next_host_id'')"
  by (auto simp: outside_def store_meta_key_def)

lemma outside_keys [simp]:
  "outside (doc_key i)" "outside (url_key u)" "outside (doc_meta_key i)" "outside (term_key t)" "outside (posting_key x i)"
  "outside (doc_len_key i)" "outside (doc_terms_key i)" "outside (host_key h i)" "outside (content_sha_key sha i)"
  by (simp_all add: doc_key_defs)

lemma counted_drifted: "counted db db' \<Longrightarrow> drifted db db'"
  by (auto simp: counted_def drifted_def same_on_def outside_def)

lemma drifted_refl [simp]: "drifted db db"
  by (simp add: drifted_def same_on_def)

lemma drifted_trans: "drifted a b \<Longrightarrow> drifted b c \<Longrightarrow> drifted a c"
  by (auto simp: drifted_def same_on_def)

lemma alloc_host_frame:
  assumes "get_or_alloc_host e db h = (r, db')" "k \<noteq> store_meta_key ''next_host_id''" "k \<noteq> host_term_key h"
  shows "fmlookup db' k = fmlookup db k"
  using assms by (auto simp: get_or_alloc_host_def Let_def split: if_splits)

lemma alloc_host_drifted:
  assumes "get_or_alloc_host e db h = (r, db')"
  shows "drifted db db' \<and> stored_term db' = stored_term db"
proof -
  note f = alloc_host_frame [OF assms]
  have "same_on outside db db'" unfolding same_on_def
  proof (intro allI impI)
    fix k assume "outside k"
    then have "k \<noteq> store_meta_key ''next_host_id''" "k \<noteq> host_term_key h" by (auto simp: outside_def)
    then show "fmlookup db' k = fmlookup db k" by (rule f)
  qed
  moreover have "fmlookup db' (store_meta_key ''next_term_id'') = fmlookup db (store_meta_key ''next_term_id'')"
    by (rule f) (simp_all add: store_meta_key_def host_term_key_def)
  then have "stored_term db' = stored_term db" by (simp add: meta_at_def)
  ultimately show ?thesis by (simp add: drifted_def)
qed

text \<open>What the index phase leaves under the keys of the inverted index.\<close>

definition indexed_by :: "int \<Rightarrow> int \<Rightarrow> (bytes, int) fmap \<Rightarrow> (bytes \<Rightarrow> term_info) \<Rightarrow> int list \<Rightarrow> bytes kv \<Rightarrow> bytes kv \<Rightarrow> bool" where
  "indexed_by i len tf f new db db' =
     ((\<forall>t. fmlookup db' (term_key t) = (if t |\<in>| fmdom tf then Some (pack_term_info (f t)) else fmlookup db (term_key t)))
      \<and> (\<forall>x j. is_id x \<longrightarrow> is_id j \<longrightarrow> j \<noteq> i \<longrightarrow> fmlookup db' (posting_key x j) = fmlookup db (posting_key x j))
      \<and> (\<forall>t. t |\<in>| fmdom tf \<longrightarrow> fmlookup db' (posting_key (ti_id (f t)) i) = Some (pack_posting (freq_of tf t) len))
      \<and> (\<forall>x. is_id x \<longrightarrow> x \<notin> (ti_id \<circ> f) ` fset (fmdom tf) \<longrightarrow> fmlookup db' (posting_key x i) = None)
      \<and> fmlookup db' (doc_len_key i) = Some (enc64 len)
      \<and> fmlookup db' (doc_terms_key i) = Some (pack_doc_terms new)
      \<and> (\<forall>j. is_id j \<longrightarrow> j \<noteq> i \<longrightarrow> fmlookup db' (doc_len_key j) = fmlookup db (doc_len_key j)
           \<and> fmlookup db' (doc_terms_key j) = fmlookup db (doc_terms_key j))
      \<and> (\<forall>c r. c \<notin> {CHR ''t'', CHR ''p'', CHR ''l'', CHR ''g'', CHR ''m'', CHR ''T'', CHR ''P''} \<longrightarrow> fmlookup db' (c # r) = fmlookup db (c # r)))"

lemma term_ops_simps:
  "b \<in> set (term_ops i len hid t freq x) = (b = BSet (term_key t) (pack_term_info x)
     \<or> b = BSet (posting_key (ti_id x) i) (pack_posting freq len) \<or> (hid \<noteq> 0 \<and> b = BSet (host_posting_key hid (ti_id x) i) (pack_posting freq len)))"
  by (auto simp: term_ops_def)

lemma drop_ops_simps:
  "b \<in> set (drop_ops i hid old new) = (\<exists>t \<in> set old. t \<notin> set new \<and> (b = BDel (posting_key t i) \<or> (hid \<noteq> 0 \<and> b = BDel (host_posting_key hid t i))))"
  by (auto simp: drop_ops_def)

definition index_batch :: "int \<Rightarrow> int \<Rightarrow> int \<Rightarrow> (bytes, int) fmap \<Rightarrow> (bytes \<Rightarrow> term_info) \<Rightarrow> bytes list \<Rightarrow> int list \<Rightarrow> int list \<Rightarrow> int list
    \<Rightarrow> int \<Rightarrow> int \<Rightarrow> bytes bop list" where
  "index_batch i len hid tf f ts old new ord lsum cnt =
     [BSet (doc_len_key i) (enc64 len)] @ count_ops lsum cnt @ concat (map (\<lambda>t. term_ops i len hid t (freq_of tf t) (f t)) ts)
     @ drop_ops i hid old new @ [BSet (doc_terms_key i) (pack_doc_terms ord)]"

text \<open>Every write of the batch, by the key it touches.\<close>

lemma index_batch_writes:
  "b \<in> set (index_batch i len hid tf f ts old new ord lsum cnt) = (b = BSet (doc_len_key i) (enc64 len)
     \<or> b = BSet (store_meta_key ''sum_doc_len'') (enc64 lsum) \<or> b = BSet (store_meta_key ''indexed_docs'') (enc64 cnt)
     \<or> (\<exists>t \<in> set ts. b \<in> set (term_ops i len hid t (freq_of tf t) (f t)))
     \<or> b \<in> set (drop_ops i hid old new) \<or> b = BSet (doc_terms_key i) (pack_doc_terms ord))"
  by (auto simp: index_batch_def count_ops_def)

lemma posting_key_eq [simp]:
  "is_id x \<Longrightarrow> is_id y \<Longrightarrow> is_id i \<Longrightarrow> is_id j \<Longrightarrow> (posting_key x i = posting_key y j) = (x = y \<and> i = j)"
  by (simp add: posting_key_def)

lemma id_key_eq [simp]:
  "is_id i \<Longrightarrow> is_id j \<Longrightarrow> (doc_key i = doc_key j) = (i = j)" "is_id i \<Longrightarrow> is_id j \<Longrightarrow> (doc_len_key i = doc_len_key j) = (i = j)"
  "is_id i \<Longrightarrow> is_id j \<Longrightarrow> (doc_terms_key i = doc_terms_key j) = (i = j)" "is_id i \<Longrightarrow> is_id j \<Longrightarrow> (doc_meta_key i = doc_meta_key j) = (i = j)"
  "(term_key t = term_key u) = (t = u)" "(url_key v = url_key w) = (v = w)" "(store_meta_key m = store_meta_key n) = (m = n)"
  by (simp_all add: doc_key_defs)

lemma family_eq [simp]:
  "(c # r = doc_key i) = (c = CHR ''d'' \<and> r = enc64 i)" "(c # r = doc_len_key i) = (c = CHR ''l'' \<and> r = enc64 i)"
  "(c # r = doc_terms_key i) = (c = CHR ''g'' \<and> r = enc64 i)" "(c # r = doc_meta_key i) = (c = CHR ''i'' \<and> r = enc64 i)"
  "(c # r = term_key t) = (c = CHR ''t'' \<and> r = t)" "(c # r = url_key t) = (c = CHR ''u'' \<and> r = t)" "(c # r = store_meta_key t) = (c = CHR ''m'' \<and> r = t)"
  "(c # r = posting_key x i) = (c = CHR ''p'' \<and> r = enc64 x @ enc64 i)"
  "(c # r = host_posting_key h x i) = (c = CHR ''P'' \<and> r = enc64 h @ enc64 x @ enc64 i)"
  "(c # r = host_key hh i) = (c = CHR ''h'' \<and> r = hh @ CHR 0x00 # enc64 i)"
  by (auto simp: doc_key_defs)

text \<open>Keys of different families differ.\<close>

lemma family_neq [simp]:
  "doc_len_key i \<noteq> doc_terms_key j" "doc_terms_key j \<noteq> doc_len_key i" "doc_len_key i \<noteq> term_key t" "term_key t \<noteq> doc_len_key i"
  "doc_len_key i \<noteq> posting_key x j" "posting_key x j \<noteq> doc_len_key i" "doc_terms_key i \<noteq> term_key t" "term_key t \<noteq> doc_terms_key i"
  "doc_terms_key i \<noteq> posting_key x j" "posting_key x j \<noteq> doc_terms_key i" "term_key t \<noteq> posting_key x j" "posting_key x j \<noteq> term_key t"
  "store_meta_key n \<noteq> doc_len_key i" "doc_len_key i \<noteq> store_meta_key n" "store_meta_key n \<noteq> doc_terms_key i" "doc_terms_key i \<noteq> store_meta_key n"
  "store_meta_key n \<noteq> term_key t" "term_key t \<noteq> store_meta_key n" "store_meta_key n \<noteq> posting_key x i" "posting_key x i \<noteq> store_meta_key n"
  "host_posting_key h x i \<noteq> doc_len_key j" "host_posting_key h x i \<noteq> doc_terms_key j" "host_posting_key h x i \<noteq> term_key t"
  "host_posting_key h x i \<noteq> posting_key y j" "host_posting_key h x i \<noteq> store_meta_key n"
  "doc_len_key j \<noteq> host_posting_key h x i" "doc_terms_key j \<noteq> host_posting_key h x i" "term_key t \<noteq> host_posting_key h x i"
  "posting_key y j \<noteq> host_posting_key h x i" "store_meta_key n \<noteq> host_posting_key h x i"
  by (simp_all add: doc_key_defs)

lemma index_batch_effect:
  assumes i: "is_id i" and ids: "\<forall>t \<in> set ts. is_id (ti_id (f t))" "\<forall>t \<in> set old. is_id t"
    and inj: "inj_on (ti_id \<circ> f) (set ts)" and ts: "set ts = fset (fmdom tf)" and new: "set new = (ti_id \<circ> f) ` set ts"
    and old: "\<forall>x. is_id x \<longrightarrow> fmlookup db (posting_key x i) \<noteq> None \<longrightarrow> x \<in> set old"
  shows "indexed_by i len tf f ord db (apply_batch (index_batch i len hid tf f ts old new ord lsum cnt) db)"
    (is "indexed_by i len tf f ord db (apply_batch ?ops db)")
proof -
  note w = index_batch_writes [of _ i len hid tf f ts old new ord lsum cnt]
  have t1: "fmlookup (apply_batch ?ops db) (term_key t) = Some (pack_term_info (f t))" if "t \<in> set ts" for t
    by (rule batch_set_in) (use that in \<open>auto simp: w term_ops_simps drop_ops_simps\<close>)
  have t2: "fmlookup (apply_batch ?ops db) (term_key t) = fmlookup db (term_key t)" if "t \<notin> set ts" for t
    by (rule lookup_batch_untouched) (use that in \<open>auto simp: w term_ops_simps drop_ops_simps\<close>)
  have p0: "fmlookup (apply_batch ?ops db) (posting_key x j) = fmlookup db (posting_key x j)" if "is_id x" "is_id j" "j \<noteq> i" for x j
    by (rule lookup_batch_untouched) (use that i ids in \<open>auto simp: w term_ops_simps drop_ops_simps\<close>)
  have p1: "fmlookup (apply_batch ?ops db) (posting_key (ti_id (f t)) i) = Some (pack_posting (freq_of tf t) len)" if t: "t \<in> set ts" for t
  proof (rule batch_sets)
    have idt: "is_id (ti_id (f t))" and tn: "ti_id (f t) \<in> set new" using t ids new by auto
    show "\<forall>b \<in> set ?ops. touches b (posting_key (ti_id (f t)) i) \<longrightarrow> b = BSet (posting_key (ti_id (f t)) i) (pack_posting (freq_of tf t) len)"
    proof (intro ballI impI)
      fix b assume b: "b \<in> set ?ops" "touches b (posting_key (ti_id (f t)) i)"
      from b(1) have "(\<exists>u \<in> set ts. b \<in> set (term_ops i len hid u (freq_of tf u) (f u))) \<or> b \<in> set (drop_ops i hid old new)"
        unfolding w using b(2) by auto
      then show "b = BSet (posting_key (ti_id (f t)) i) (pack_posting (freq_of tf t) len)"
      proof
        assume "\<exists>u \<in> set ts. b \<in> set (term_ops i len hid u (freq_of tf u) (f u))"
        then obtain u where u: "u \<in> set ts" "b = BSet (posting_key (ti_id (f u)) i) (pack_posting (freq_of tf u) len)"
          using b(2) by (auto simp: term_ops_simps)
        with b(2) idt ids(1) i have "ti_id (f u) = ti_id (f t)" by auto
        then have "u = t" using inj_onD [OF inj, of u t] u(1) t by simp
        with u(2) show ?thesis by simp
      next
        assume "b \<in> set (drop_ops i hid old new)"
        then obtain x where "x \<in> set old" "x \<notin> set new" "b = BDel (posting_key x i)" using b(2) by (auto simp: drop_ops_simps)
        with b(2) idt ids(2) i tn show ?thesis by auto
      qed
    qed
    have "BSet (posting_key (ti_id (f t)) i) (pack_posting (freq_of tf t) len) \<in> set ?ops" using t by (auto simp: w term_ops_simps)
    then show "\<exists>b \<in> set ?ops. touches b (posting_key (ti_id (f t)) i)" by (rule bexI [rotated]) simp
  qed
  have p2: "fmlookup (apply_batch ?ops db) (posting_key x i) = None" if x: "is_id x" "x \<notin> (ti_id \<circ> f) ` set ts" for x
  proof (cases "x \<in> set old")
    case True
    show ?thesis
      by (rule batch_del_in) (use True x new i ids in \<open>auto simp: w term_ops_simps drop_ops_simps\<close>)
  next
    case False
    have "fmlookup (apply_batch ?ops db) (posting_key x i) = fmlookup db (posting_key x i)"
      by (rule lookup_batch_untouched) (use False x i ids new in \<open>auto simp: w term_ops_simps drop_ops_simps\<close>)
    with old False x show ?thesis by auto
  qed
  have l: "fmlookup (apply_batch ?ops db) (doc_len_key i) = Some (enc64 len)"
    by (rule batch_set_in) (auto simp: w term_ops_simps drop_ops_simps)
  have g: "fmlookup (apply_batch ?ops db) (doc_terms_key i) = Some (pack_doc_terms ord)"
    by (rule batch_set_in) (auto simp: w term_ops_simps drop_ops_simps)
  have lg: "fmlookup (apply_batch ?ops db) (doc_len_key j) = fmlookup db (doc_len_key j)"
    "fmlookup (apply_batch ?ops db) (doc_terms_key j) = fmlookup db (doc_terms_key j)" if "is_id j" "j \<noteq> i" for j
    by (rule lookup_batch_untouched, use that i in \<open>auto simp: w term_ops_simps drop_ops_simps\<close>)+
  have o': "fmlookup (apply_batch ?ops db) (c # r) = fmlookup db (c # r)"
    if "c \<notin> {CHR ''t'', CHR ''p'', CHR ''l'', CHR ''g'', CHR ''m'', CHR ''T'', CHR ''P''}" for c r
    by (rule lookup_batch_untouched) (use that in \<open>auto simp: w term_ops_simps drop_ops_simps\<close>)
  show ?thesis
    unfolding indexed_by_def ts [symmetric]
    using t1 t2 p0 p1 p2 l g lg o' by (intro conjI allI impI) (auto simp: ts [symmetric])
qed

end
