(* ===== verification/DocKeep.thy ===== *)
theory DocKeep
  imports DocIndex
begin

text \<open>The index phase keeps the invariant of the document store.\<close>

section \<open>What the loop found\<close>

text \<open>The entries written for the terms of a document over the store \<open>db\<close>.\<close>

definition entries_ok :: "int list \<Rightarrow> (bytes, int) fmap \<Rightarrow> (bytes \<Rightarrow> term_info) \<Rightarrow> bytes kv \<Rightarrow> bool" where
  "entries_ok old tf f db =
     ((\<forall>t. t |\<in>| fmdom tf \<longrightarrow> is_id (ti_id (f t)) \<and> ti_id (f t) \<le> stored_term db \<and> is_id (ti_freq (f t))
         \<and> (case term_at db t of Some y \<Rightarrow> ti_id (f t) = ti_id y \<and> ti_freq (f t) = (if ti_id y \<in> set old then ti_freq y else ti_freq y + 1)
            | None \<Rightarrow> ti_freq (f t) = 1 \<and> (\<forall>u y. term_at db u = Some y \<longrightarrow> ti_id y \<noteq> ti_id (f t))))
      \<and> inj_on (ti_id \<circ> f) (fset (fmdom tf)))"

lemma terms_okD:
  assumes "terms_ok db" "term_at db t = Some x"
  shows "is_id (ti_id x)" "ti_id x \<le> stored_term db" "is_id (ti_freq x)" "fmlookup db (term_key t) = Some (pack_term_info x)"
proof -
  obtain v where v: "fmlookup db (term_key t) = Some v" "unpack_term_info v = Some x"
    using assms(2) by (auto simp: term_at_def bind_eq_Some_conv)
  then obtain y where y: "v = pack_term_info y" "is_id (ti_id y)" "ti_id y \<le> stored_term db" "is_id (ti_freq y)"
    using assms(1) by (auto simp: terms_ok_def)
  with v(2) have "x = y" by (cases y) simp
  with v y show "is_id (ti_id x)" "ti_id x \<le> stored_term db" "is_id (ti_freq x)" "fmlookup db (term_key t) = Some (pack_term_info x)" by simp_all
qed

lemma terms_ok_inj: "terms_ok db \<Longrightarrow> term_at db t = Some x \<Longrightarrow> term_at db u = Some y \<Longrightarrow> ti_id x = ti_id y \<Longrightarrow> t = u"
  unfolding terms_ok_def by blast

text \<open>The room left in the document frequencies.\<close>

definition freq_room :: "bytes kv \<Rightarrow> bool" where
  "freq_room db = (\<forall>t x. term_at db t = Some x \<longrightarrow> ti_freq x + 1 < 2 ^ 63)"

lemma infos_entries:
  assumes f: "infos_ok old db db' ts f" and ts: "set ts = fset (fmdom tf)" and t: "terms_ok db" "freq_room db"
    and b: "stored_term db' < 2 ^ 63" "stored_term db \<le> stored_term db'"
    and a: "\<And>u. term_at A u = term_at db u" "stored_term A = stored_term db'"
  shows "entries_ok old tf f A"
proof -
  note fo = f [unfolded infos_ok_def]
  have one: "is_id (ti_id (f t)) \<and> ti_id (f t) \<le> stored_term A \<and> is_id (ti_freq (f t))
         \<and> (case term_at A t of Some y \<Rightarrow> ti_id (f t) = ti_id y \<and> ti_freq (f t) = (if ti_id y \<in> set old then ti_freq y else ti_freq y + 1)
            | None \<Rightarrow> ti_freq (f t) = 1 \<and> (\<forall>u y. term_at A u = Some y \<longrightarrow> ti_id y \<noteq> ti_id (f t)))"
    if i: "t \<in> set ts" for t
  proof (cases "term_at db t")
    case None
    with fo i have x: "stored_term db < ti_id (f t)" "ti_id (f t) \<le> stored_term db'" "ti_freq (f t) = 1" by force+
    have "0 \<le> stored_term db" using t(1) by (simp add: terms_ok_def)
    moreover have "ti_id y \<noteq> ti_id (f t)" if "term_at db u = Some y" for u y using terms_okD(2) [OF t(1) that] x(1) by auto
    ultimately show ?thesis using x b None a by (auto simp: is_id_def)
  next
    case (Some y)
    note y = terms_okD [OF t(1) Some]
    have "ti_freq y + 1 < 2 ^ 63" using t(2) Some by (simp add: freq_room_def)
    with y(3) have fi: "is_id (ti_freq y + 1)" by (simp add: is_id_def)
    have "f t = (if ti_id y \<in> set old then y else y\<lparr>ti_freq := ti_freq y + 1\<rparr>)" using fo i Some fi by force
    with y fi b(2) Some a show ?thesis by auto
  qed
  have "inj_on (ti_id \<circ> f) (set ts)"
  proof (rule inj_onI)
    fix t u assume tu: "t \<in> set ts" "u \<in> set ts" "(ti_id \<circ> f) t = (ti_id \<circ> f) u"
    show "t = u"
    proof (cases "term_at db t"; cases "term_at db u")
      assume "term_at db t = None" "term_at db u = None"
      with tu fo show ?thesis by auto
    next
      fix y assume "term_at db t = None" "term_at db u = Some y"
      with one [OF tu(1)] one [OF tu(2)] tu(3) a(1) show ?thesis by fastforce
    next
      fix y assume "term_at db t = Some y" "term_at db u = None"
      with one [OF tu(1)] one [OF tu(2)] tu(3) a(1) show ?thesis by fastforce
    next
      fix x y assume xy: "term_at db t = Some x" "term_at db u = Some y"
      with one [OF tu(1)] one [OF tu(2)] tu(3) a(1) have "ti_id x = ti_id y" by simp
      with xy terms_ok_inj [OF t(1)] show ?thesis by blast
    qed
  qed
  with one show ?thesis by (simp add: entries_ok_def ts)
qed

section \<open>Preservation\<close>

lemma terms_of_packed: "fmlookup db (doc_terms_key i) = Some (pack_doc_terms ids) \<Longrightarrow> length ids < 2 ^ 63 \<Longrightarrow> \<forall>t \<in> set ids. is_id t \<Longrightarrow> terms_of db i = ids"
  by (simp add: terms_of_def unpack_pack_doc_terms map_idI)

lemma postings_okD:
  assumes "postings_ok db" "is_id i"
  shows "\<exists>ids. fmlookup db (doc_terms_key i) = Some (pack_doc_terms ids) \<and> terms_of db i = ids \<or> fmlookup db (doc_terms_key i) = None \<and> terms_of db i = []"
    "distinct (terms_of db i)" "t \<in> set (terms_of db i) \<Longrightarrow> is_id t \<and> (\<exists>w x. term_at db w = Some x \<and> ti_id x = t)"
    "is_id t \<Longrightarrow> (fmlookup db (posting_key t i) \<noteq> None) = (t \<in> set (terms_of db i))"
proof -
  have "(\<exists>ids. fmlookup db (doc_terms_key i) = Some (pack_doc_terms ids) \<and> terms_of db i = ids \<and> distinct ids
      \<and> (\<forall>t \<in> set ids. is_id t \<and> (\<exists>w x. term_at db w = Some x \<and> ti_id x = t)))
    \<or> fmlookup db (doc_terms_key i) = None \<and> terms_of db i = []"
  proof (cases "fmlookup db (doc_terms_key i)")
    case None
    then show ?thesis by (simp add: terms_of_def)
  next
    case (Some v)
    with assms obtain ids where ids: "v = pack_doc_terms ids" "distinct ids" "length ids < 2 ^ 63"
      "\<forall>t \<in> set ids. is_id t \<and> (\<exists>w x. term_at db w = Some x \<and> ti_id x = t)" unfolding postings_ok_def by blast
    then have "terms_of db i = ids" using Some by (intro terms_of_packed) auto
    with Some ids show ?thesis by blast
  qed
  then show "\<exists>ids. fmlookup db (doc_terms_key i) = Some (pack_doc_terms ids) \<and> terms_of db i = ids \<or> fmlookup db (doc_terms_key i) = None \<and> terms_of db i = []"
    "distinct (terms_of db i)" "t \<in> set (terms_of db i) \<Longrightarrow> is_id t \<and> (\<exists>w x. term_at db w = Some x \<and> ti_id x = t)" by fastforce+
  show "is_id t \<Longrightarrow> (fmlookup db (posting_key t i) \<noteq> None) = (t \<in> set (terms_of db i))" using assms by (simp add: postings_ok_def)
qed

lemma indexed_byD:
  assumes "indexed_by i len tf f new db db'"
  shows "fmlookup db' (term_key t) = (if t |\<in>| fmdom tf then Some (pack_term_info (f t)) else fmlookup db (term_key t))"
    "is_id x \<Longrightarrow> is_id j \<Longrightarrow> j \<noteq> i \<Longrightarrow> fmlookup db' (posting_key x j) = fmlookup db (posting_key x j)"
    "t |\<in>| fmdom tf \<Longrightarrow> fmlookup db' (posting_key (ti_id (f t)) i) = Some (pack_posting (freq_of tf t) len)"
    "is_id x \<Longrightarrow> x \<notin> (ti_id \<circ> f) ` fset (fmdom tf) \<Longrightarrow> fmlookup db' (posting_key x i) = None"
    "fmlookup db' (doc_len_key i) = Some (enc64 len)" "fmlookup db' (doc_terms_key i) = Some (pack_doc_terms new)"
    "is_id j \<Longrightarrow> j \<noteq> i \<Longrightarrow> fmlookup db' (doc_len_key j) = fmlookup db (doc_len_key j)"
    "is_id j \<Longrightarrow> j \<noteq> i \<Longrightarrow> fmlookup db' (doc_terms_key j) = fmlookup db (doc_terms_key j)"
    "c \<notin> {CHR ''t'', CHR ''p'', CHR ''l'', CHR ''g'', CHR ''m'', CHR ''T'', CHR ''P''} \<Longrightarrow> fmlookup db' (c # r) = fmlookup db (c # r)"
  using assms by (simp_all add: indexed_by_def)

lemma entries_okD:
  assumes "entries_ok old tf f db" "t |\<in>| fmdom tf"
  shows "is_id (ti_id (f t))" "ti_id (f t) \<le> stored_term db" "is_id (ti_freq (f t))"
    "term_at db t = Some y \<Longrightarrow> ti_id (f t) = ti_id y \<and> ti_freq (f t) = (if ti_id y \<in> set old then ti_freq y else ti_freq y + 1)"
    "term_at db t = None \<Longrightarrow> ti_freq (f t) = 1" "term_at db t = None \<Longrightarrow> term_at db u = Some z \<Longrightarrow> ti_id z \<noteq> ti_id (f t)"
  using assms unfolding entries_ok_def by (fastforce split: option.splits)+

lemma indexed_term_at:
  assumes "indexed_by i len tf f new db db'" "entries_ok old tf f db"
  shows "term_at db' t = (if t |\<in>| fmdom tf then Some (f t) else term_at db t)"
  using indexed_byD(1) [OF assms(1), of t] entries_okD(1,3) [OF assms(2), of t] by (auto simp: term_at_def)

lemma index_keeps_terms:
  assumes x: "indexed_by i len tf f new db db'" and en: "entries_ok old tf f db" and t: "terms_ok db"
    and st: "stored_term db' = stored_term db"
  shows "terms_ok db'"
proof -
  note ta = indexed_term_at [OF x en]
  have inj: "inj_on (ti_id \<circ> f) (fset (fmdom tf))" using en by (simp add: entries_ok_def)
  have mixed: "False" if "a |\<in>| fmdom tf" "b |\<notin>| fmdom tf" "term_at db b = Some y" "ti_id (f a) = ti_id y" for a b y
  proof (cases "term_at db a")
    case None
    with entries_okD(6) [OF en that(1) None that(3)] that(4) show ?thesis by simp
  next
    case (Some z)
    with entries_okD(4) [OF en that(1) Some] that have "ti_id z = ti_id y" by simp
    with terms_ok_inj [OF t Some that(3)] that show ?thesis by simp
  qed
  have "a = b" if "term_at db' a = Some p" "term_at db' b = Some q" "ti_id p = ti_id q" for a b p q
  proof (cases "a |\<in>| fmdom tf"; cases "b |\<in>| fmdom tf")
    assume ab: "a |\<in>| fmdom tf" "b |\<in>| fmdom tf"
    with that(1,2) ta [of a] ta [of b] have "p = f a" "q = f b" by simp_all
    with that(3) have "(ti_id \<circ> f) a = (ti_id \<circ> f) b" by simp
    then show ?thesis using inj_onD [OF inj] ab by blast
  next
    assume ab: "a |\<in>| fmdom tf" "b |\<notin>| fmdom tf"
    with that(1,2) ta [of a] ta [of b] have "p = f a" "term_at db b = Some q" by simp_all
    with mixed [OF ab] that(3) show ?thesis by simp
  next
    assume ab: "a |\<notin>| fmdom tf" "b |\<in>| fmdom tf"
    with that(1,2) ta [of a] ta [of b] have "q = f b" "term_at db a = Some p" by simp_all
    with mixed [OF ab(2,1)] that(3) show ?thesis by simp
  next
    assume "a |\<notin>| fmdom tf" "b |\<notin>| fmdom tf"
    with that(1,2) ta [of a] ta [of b] have "term_at db a = Some p" "term_at db b = Some q" by simp_all
    with terms_ok_inj [OF t] that(3) show ?thesis by blast
  qed
  moreover have "\<exists>p. v = pack_term_info p \<and> is_id (ti_id p) \<and> ti_id p \<le> stored_term db' \<and> is_id (ti_freq p)"
    if "fmlookup db' (term_key a) = Some v" for a v
    using that indexed_byD(1) [OF x, of a] entries_okD(1-3) [OF en, of a] t st by (auto simp: terms_ok_def split: if_splits)
  ultimately show ?thesis using t st unfolding terms_ok_def by (intro conjI allI impI) auto
qed

lemma index_keeps_postings:
  assumes x: "indexed_by i len tf f new db db'" and en: "entries_ok old tf f db" and p: "postings_ok db" and i: "is_id i"
    and new: "set new = (ti_id \<circ> f) ` fset (fmdom tf)" "distinct new" "length new < 2 ^ 63"
  shows "postings_ok db'"
proof -
  note ta = indexed_term_at [OF x en]
  have newid: "\<forall>t \<in> set new. is_id t" using new(1) entries_okD(1) [OF en] by auto
  have ti: "terms_of db' i = new" by (rule terms_of_packed [OF indexed_byD(6) [OF x] new(3) newid])
  have tj: "terms_of db' j = terms_of db j" if "is_id j" "j \<noteq> i" for j
    using indexed_byD(8) [OF x that] by (simp add: terms_of_def)
  have keep: "\<exists>w y. term_at db' w = Some y \<and> ti_id y = t" if "term_at db w = Some y" "ti_id y = t" for w y t
  proof (cases "w |\<in>| fmdom tf")
    case True
    with entries_okD(4) [OF en True that(1)] that(2) ta [of w] show ?thesis by auto
  next
    case False
    with ta [of w] that show ?thesis by auto
  qed
  have g: "\<exists>ids. v = pack_doc_terms ids \<and> distinct ids \<and> length ids < 2 ^ 63 \<and> (\<forall>t \<in> set ids. is_id t \<and> (\<exists>w y. term_at db' w = Some y \<and> ti_id y = t))"
    if j: "is_id j" "fmlookup db' (doc_terms_key j) = Some v" for j v
  proof (cases "j = i")
    case True
    have "\<exists>w y. term_at db' w = Some y \<and> ti_id y = t" if "t \<in> set new" for t using that new(1) ta by auto
    then show ?thesis using True j(2) indexed_byD(6) [OF x] new newid by (intro exI [of _ new]) auto
  next
    case False
    then have "fmlookup db (doc_terms_key j) = Some v" using j indexed_byD(8) [OF x j(1)] by simp
    with p j(1) obtain ids where ids: "v = pack_doc_terms ids" "distinct ids" "length ids < 2 ^ 63"
      "\<forall>t \<in> set ids. is_id t \<and> (\<exists>w y. term_at db w = Some y \<and> ti_id y = t)" unfolding postings_ok_def by blast
    then have "\<forall>t \<in> set ids. is_id t \<and> (\<exists>w y. term_at db' w = Some y \<and> ti_id y = t)" using keep by blast
    with ids show ?thesis by blast
  qed
  have live: "(fmlookup db' (posting_key t j) \<noteq> None) = (t \<in> set (terms_of db' j))" if "is_id t" "is_id j" for t j
  proof (cases "j = i")
    case True
    show ?thesis
    proof (cases "t \<in> set new")
      case t: True
      then obtain w where "w |\<in>| fmdom tf" "t = ti_id (f w)" using new(1) by auto
      with indexed_byD(3) [OF x, of w] t True show ?thesis by (simp add: ti)
    next
      case t: False
      with new(1) indexed_byD(4) [OF x that(1)] True show ?thesis by (simp add: ti)
    qed
  next
    case False
    then show ?thesis using indexed_byD(2) [OF x that False] tj [OF that(2) False] postings_okD(4) [OF p that(2,1)] by simp
  qed
  have val: "\<exists>tf0 len0. v = pack_posting tf0 len0 \<and> (\<forall>n. fmlookup db' (doc_len_key j) = Some n \<longrightarrow> n = enc64 len0)"
    if v: "is_id t" "is_id j" "fmlookup db' (posting_key t j) = Some v" for t j v
  proof (cases "j = i")
    case True
    have "t \<in> set new" using live [OF v(1,2)] v(3) True ti by simp
    then obtain w where "w |\<in>| fmdom tf" "t = ti_id (f w)" using new(1) by auto
    with indexed_byD(3) [OF x, of w] indexed_byD(5) [OF x] True v(3) show ?thesis by auto
  next
    case False
    have "fmlookup db (posting_key t j) = Some v" using v(3) indexed_byD(2) [OF x v(1,2) False] by simp
    moreover have "fmlookup db' (doc_len_key j) = fmlookup db (doc_len_key j)" by (rule indexed_byD(7) [OF x v(2) False])
    ultimately show ?thesis using p v(1,2) unfolding postings_ok_def by metis
  qed
  have ln: "length v = 8" if "is_id j" "fmlookup db' (doc_len_key j) = Some v" for j v
    using that indexed_byD(5) [OF x] indexed_byD(7) [OF x that(1)] p by (cases "j = i") (auto simp: postings_ok_def)
  show ?thesis unfolding postings_ok_def using g live val ln by (intro conjI allI impI) auto
qed

lemma index_keeps_freqs:
  assumes x: "indexed_by i len tf f new db db'" and en: "entries_ok old tf f db" and p: "postings_ok db" and t: "terms_ok db" and i: "is_id i"
    and fr: "freqs_ok db" and old: "set old = set (terms_of db i)"
  shows "freqs_ok db'"
  unfolding freqs_ok_def
proof (intro allI impI)
  fix w y assume w: "term_at db' w = Some y"
  note ta = indexed_term_at [OF x en, of w]
  show "int (card (docs_with db' (ti_id y))) \<le> ti_freq y"
  proof (cases "w |\<in>| fmdom tf")
    case True
    with w ta have y: "y = f w" by simp
    have idw: "is_id (ti_id (f w))" by (rule entries_okD(1) [OF en True])
    have "(fmlookup db' (posting_key (ti_id y) j) \<noteq> None) = (j = i \<or> fmlookup db (posting_key (ti_id y) j) \<noteq> None)" if "is_id j" for j
      using indexed_byD(2) [OF x idw that] indexed_byD(3) [OF x True] y by (cases "j = i") simp_all
    then have docs: "docs_with db' (ti_id y) = insert i (docs_with db (ti_id y))" using i unfolding docs_with_def by blast
    show ?thesis
    proof (cases "term_at db w")
      case None
      have "docs_with db (ti_id y) = {}"
      proof (rule ccontr)
        assume "docs_with db (ti_id y) \<noteq> {}"
        then obtain j where j: "is_id j" "fmlookup db (posting_key (ti_id y) j) \<noteq> None" by (auto simp: docs_with_def)
        with postings_okD(3,4) [OF p j(1), of "ti_id y"] idw y obtain u z where "term_at db u = Some z" "ti_id z = ti_id y" by auto
        with entries_okD(6) [OF en True None] y show False by simp
      qed
      then show ?thesis using docs entries_okD(5) [OF en True None] y by simp
    next
      case (Some z)
      note z = entries_okD(4) [OF en True Some]
      have le: "int (card (docs_with db (ti_id z))) \<le> ti_freq z" using fr Some by (simp add: freqs_ok_def)
      show ?thesis
      proof (cases "ti_id z \<in> set old")
        case True
        then have "i \<in> docs_with db (ti_id z)"
          using postings_okD(4) [OF p i, of "ti_id z"] terms_okD(1) [OF t Some] i old by (auto simp: docs_with_def)
        then have "docs_with db' (ti_id y) = docs_with db (ti_id z)" using docs z y by auto
        with True le z y show ?thesis by simp
      next
        case False
        have "card (docs_with db' (ti_id y)) \<le> Suc (card (docs_with db (ti_id z)))"
          using docs z y by (simp add: card_insert_if finite_docs_with)
        with False le z y show ?thesis by simp
      qed
    qed
  next
    case False
    with w ta have y: "term_at db w = Some y" by simp
    have idy: "is_id (ti_id y)" by (rule terms_okD(1) [OF t y])
    have "ti_id y \<notin> (ti_id \<circ> f) ` fset (fmdom tf)"
    proof
      assume "ti_id y \<in> (ti_id \<circ> f) ` fset (fmdom tf)"
      then obtain u where u: "u |\<in>| fmdom tf" "ti_id (f u) = ti_id y" by auto
      show False
      proof (cases "term_at db u")
        case None
        with entries_okD(6) [OF en u(1) None y] u(2) show False by simp
      next
        case (Some z)
        with entries_okD(4) [OF en u(1) Some] u(2) have "ti_id z = ti_id y" by simp
        with terms_ok_inj [OF t Some y] u(1) False show ?thesis by simp
      qed
    qed
    then have "docs_with db' (ti_id y) \<subseteq> docs_with db (ti_id y)"
      using indexed_byD(2,4) [OF x] idy by (auto simp: docs_with_def) (metis option.distinct(1))
    then have "card (docs_with db' (ti_id y)) \<le> card (docs_with db (ti_id y))" by (rule card_mono [OF finite_docs_with])
    also have "int (card (docs_with db (ti_id y))) \<le> ti_freq y" using fr y by (simp add: freqs_ok_def)
    finally show ?thesis by simp
  qed
qed

end
