(* ===== verification/DocOps.thy ===== *)
theory DocOps
  imports DocKeep
begin

text \<open>Every operation of the document store keeps the invariant.\<close>

section \<open>Indexing\<close>

lemma drifted_meta: "drifted db db' \<Longrightarrow> n \<noteq> ''next_term_id'' \<Longrightarrow> n \<noteq> ''next_host_id'' \<Longrightarrow> meta_at db' n = meta_at db n"
  unfolding drifted_def by (elim conjE, rule view_cong(7) [of outside]) simp_all

lemma drifted_term_at: "drifted db db' \<Longrightarrow> term_at db' t = term_at db t"
  unfolding drifted_def by (elim conjE, rule view_cong(3) [of outside]) simp_all

lemma drifted_same: "drifted db db' \<Longrightarrow> \<forall>c \<in> set cs. c \<noteq> CHR ''m'' \<and> c \<noteq> CHR ''T'' \<Longrightarrow> same_on (fam cs) db db'"
  unfolding drifted_def same_on_def by (metis fam_def list.collapse outside_simps(1))

lemma terms_ok_mono:
  assumes "terms_ok db" "same_on (fam ''t'') db db'" "stored_term db \<le> stored_term db'" "stored_term db' < 2 ^ 63"
  shows "terms_ok db'"
proof -
  have ta: "term_at db' t = term_at db t" for t by (rule view_cong(3) [OF assms(2)]) simp
  have lk: "fmlookup db' (term_key t) = fmlookup db (term_key t)" for t by (rule same_onD [OF assms(2)]) simp
  have "\<exists>x. v = pack_term_info x \<and> is_id (ti_id x) \<and> ti_id x \<le> stored_term db' \<and> is_id (ti_freq x)"
    if "fmlookup db' (term_key t) = Some v" for t v
  proof -
    from assms(1) that lk obtain x where "v = pack_term_info x" "is_id (ti_id x)" "ti_id x \<le> stored_term db" "is_id (ti_freq x)"
      unfolding terms_ok_def by metis
    with assms(3) show ?thesis by (intro exI [of _ x]) simp
  qed
  with assms(1,3,4) show ?thesis unfolding terms_ok_def ta by (intro conjI) auto
qed

lemma same_on_weaken: "same_on P db db' \<Longrightarrow> (\<And>k. Q k \<Longrightarrow> P k) \<Longrightarrow> same_on Q db db'"
  by (simp add: same_on_def)

lemma drift_keeps:
  assumes "doc_inv g s" "drifted (ds_db s) db'" "stored_term db' < 2 ^ 63"
  shows "doc_inv g (with_db db' s)"
proof -
  note a = assms(1) [unfolded doc_inv_def]
  have st: "stored_term (ds_db s) \<le> stored_term db'" using assms(2) by (simp add: drifted_def)
  have si: "stored_id db' = stored_id (ds_db s)" by (rule drifted_meta [OF assms(2)]) simp_all
  have "docs_ok g db'" using docs_ok_cong [OF drifted_same [OF assms(2)]] a by simp
  moreover have "ids_ok db'"
  proof (rule ids_ok_mono)
    show "same_on (fam ''dilgp'') (ds_db s) db'" by (rule drifted_same [OF assms(2)]) simp
    show "stored_id db' < 2 ^ 63" using a by (simp add: si ids_ok_def)
  qed (use a st si in simp_all)
  moreover have "terms_ok db'" using terms_ok_mono [OF _ drifted_same [OF assms(2)] st assms(3)] a by simp
  moreover have "postings_ok db'" using postings_ok_cong [OF drifted_same [OF assms(2)]] a by simp
  moreover have "freqs_ok db'" using freqs_ok_cong [OF drifted_same [OF assms(2)]] a by simp
  ultimately show ?thesis using a si by (simp add: doc_inv_def)
qed

text \<open>What \<open>index_part\<close> returns.\<close>

definition index_room :: "(bytes, int) fmap \<Rightarrow> bytes kv \<Rightarrow> bool" where
  "index_room tf db = (stored_term db + int (fcard (fmdom tf)) < 2 ^ 63 \<and> freq_room db)"

definition new_counts :: "doc_store \<Rightarrow> env \<Rightarrow> int \<Rightarrow> int option \<Rightarrow> int \<times> int" where
  "new_counts s e len had = (case corpus_counters e s of (sum0, cnt0) \<Rightarrow>
     (i64 ((case had of None \<Rightarrow> sum0 | Some l \<Rightarrow> sum0 - l) + len), case had of None \<Rightarrow> i64 (cnt0 + 1) | Some _ \<Rightarrow> cnt0))"

lemma read_doc_terms_view: "read_doc_terms e db i = Inr ids \<Longrightarrow> terms_of db i = ids"
  by (auto simp: read_doc_terms_def terms_of_def split: if_splits option.splits)

lemma read_doc_len_view:
  "read_doc_len e db i = Inr had \<Longrightarrow> len_at db i = had \<and> (fmlookup db (doc_len_key i) = None) = (had = None)"
  by (auto simp: read_doc_len_def len_at_def split: if_splits option.splits)

lemma index_part_spec:
  assumes run: "index_part e i len tf dmn s = (r, s2)" and safe: "counter_safe e" and t: "terms_ok (ds_db s)"
    and room: "index_room tf (ds_db s)"
  shows "s2 = with_db (ds_db s2) s \<and> drifted (ds_db s) (ds_db s2) \<and> stored_term (ds_db s2) \<le> stored_term (ds_db s) + int (fcard (fmdom tf))
    \<and> (\<forall>ops lsum cnt. r = Inr (ops, lsum, cnt) \<longrightarrow> (\<exists>f hid ts new ord. ops = index_batch i len hid tf f ts (terms_of (ds_db s) i) new ord lsum cnt
        \<and> set ts = fset (fmdom tf) \<and> set ord = set new \<and> set new = (ti_id \<circ> f) ` fset (fmdom tf) \<and> distinct ord \<and> int (length ord) \<le> int (fcard (fmdom tf))
        \<and> infos_ok (terms_of (ds_db s) i) (ds_db s) (ds_db s2) ts f
        \<and> (\<exists>had. read_doc_len (de_env e) (ds_db s) i = Inr had \<and> (lsum, cnt) = new_counts s (de_env e) len had)))"
proof -
  define ts where "ts = range_order (de_terms e) (sorted_list_of_fset (fmdom tf))"
  have ts: "set ts = fset (fmdom tf)" "distinct ts" by (simp_all add: ts_def del: fset_fmdom_iff)
  then have lts: "length ts = fcard (fmdom tf)" using distinct_card [OF ts(2)] by (simp add: fcard.rep_eq)
  have same: ?thesis if "s2 = s" "\<forall>x. r \<noteq> Inr x" using that by (cases r) (auto simp: with_db_def)
  show ?thesis
  proof (cases "read_doc_len (de_env e) (ds_db s) i")
    case (Inl x)
    with run show ?thesis by (intro same) (auto simp: index_part_def)
  next
    case had: (Inr had)
    show ?thesis
    proof (cases "read_doc_terms (de_env e) (ds_db s) i")
      case (Inl x)
      with run had show ?thesis by (intro same) (auto simp: index_part_def Let_def split: prod.splits)
    next
      case old: (Inr old)
      obtain hid db1 where h: "(if dmn = [] then (0, ds_db s)
          else (case get_or_alloc_host e (ds_db s) dmn of (Inr h, d) \<Rightarrow> (h, d) | (Inl _, d) \<Rightarrow> (0, d))) = (hid, db1)" by fastforce
      have d1: "drifted (ds_db s) db1" "stored_term db1 = stored_term (ds_db s)"
        using h alloc_host_drifted [of e "ds_db s" dmn] by (auto split: if_splits prod.splits sum.splits)
      obtain q db2 where q: "index_terms e i len hid old tf ts [] [] db1 = (q, db2)" by fastforce
      have r: "s2 = with_db db2 s \<and> (case q of Inl x \<Rightarrow> r = Inl x | Inr (ops, new) \<Rightarrow> (case new_counts s (de_env e) len had of (lsum, cnt) \<Rightarrow>
          r = Inr ([BSet (doc_len_key i) (enc64 len)] @ count_ops lsum cnt @ ops @ drop_ops i hid old new
             @ [BSet (doc_terms_key i) (pack_doc_terms (range_order (de_ids e) new))], lsum, cnt)))"
        using run had old h q unfolding ts_def by (auto simp: index_part_def new_counts_def Let_def split: prod.splits sum.splits)
      have "0 \<le> stored_term (ds_db s)" using t by (simp add: terms_ok_def)
      then have it: "counted db1 db2 \<and> stored_term db2 \<le> stored_term db1 + int (length ts)
        \<and> (\<forall>ops' new'. q = Inr (ops', new') \<longrightarrow> (\<exists>f. ops' = [] @ concat (map (\<lambda>t. term_ops i len hid t (freq_of tf t) (f t)) ts)
            \<and> new' = fold List.insert (map (ti_id \<circ> f) ts) [] \<and> infos_ok old db1 db2 ts f))"
        using d1(2) room lts by (intro index_terms_run [OF q safe ts(2)]) (simp_all add: index_room_def)
      have dr: "drifted (ds_db s) db2" by (rule drifted_trans [OF d1(1) counted_drifted]) (use it in blast)
      have io: "infos_ok old (ds_db s) db2 ts f" if "infos_ok old db1 db2 ts f" for f
        using that unfolding infos_ok_def drifted_term_at [OF d1(1)] d1(2) .
      have "\<exists>f hid ts new ord. ops = index_batch i len hid tf f ts (terms_of (ds_db s) i) new ord lsum cnt
        \<and> set ts = fset (fmdom tf) \<and> set ord = set new \<and> set new = (ti_id \<circ> f) ` fset (fmdom tf) \<and> distinct ord \<and> int (length ord) \<le> int (fcard (fmdom tf))
        \<and> infos_ok (terms_of (ds_db s) i) (ds_db s) (ds_db s2) ts f
        \<and> (\<exists>had. read_doc_len (de_env e) (ds_db s) i = Inr had \<and> (lsum, cnt) = new_counts s (de_env e) len had)"
        if R: "r = Inr (ops, lsum, cnt)" for ops lsum cnt
      proof -
        obtain ops0 new where q': "q = Inr (ops0, new)" using r R by (cases q) auto
        with it obtain f where f: "ops0 = concat (map (\<lambda>t. term_ops i len hid t (freq_of tf t) (f t)) ts)"
          "new = fold List.insert (map (ti_id \<circ> f) ts) []" "infos_ok old db1 db2 ts f" by fastforce
        have c: "(lsum, cnt) = new_counts s (de_env e) len had" and o': "ops = index_batch i len hid tf f ts old new (range_order (de_ids e) new) lsum cnt"
          using r R q' f(1) by (auto simp: index_batch_def split: prod.splits)
        have new: "set new = (ti_id \<circ> f) ` fset (fmdom tf)" "distinct new" "length new \<le> length ts"
          unfolding f(2) fold_insert_facts(1) using ts(1) fold_insert_facts(2) [where ys = "[]"] fold_insert_facts(3) [of "map (ti_id \<circ> f) ts" "[]"]
          by (simp_all del: fset_fmdom_iff)
        have ord: "distinct (range_order (de_ids e) new)" "set (range_order (de_ids e) new) = set new" using new(2) by simp_all
        have "length (range_order (de_ids e) new) \<le> fcard (fmdom tf)"
          using distinct_card [OF ord(1)] distinct_card [OF new(2)] new(3) lts unfolding ord(2) by simp
        with ord new ts c o' io [OF f(3)] had r read_doc_terms_view [OF old] show ?thesis
          by (intro exI [of _ f] exI [of _ hid] exI [of _ ts] exI [of _ new] exI [of _ "range_order (de_ids e) new"]) simp
      qed
      with r dr it d1(2) lts show ?thesis by auto
    qed
  qed
qed


lemma index_batch_meta:
  "n \<noteq> ''sum_doc_len'' \<Longrightarrow> n \<noteq> ''indexed_docs'' \<Longrightarrow>
    meta_at (apply_batch (index_batch i len hid tf f ts old new ord lsum cnt) db) n = meta_at db n"
proof -
  assume n: "n \<noteq> ''sum_doc_len''" "n \<noteq> ''indexed_docs''"
  have "fmlookup (apply_batch (index_batch i len hid tf f ts old new ord lsum cnt) db) (store_meta_key n) = fmlookup db (store_meta_key n)"
    by (rule lookup_batch_untouched) (use n in \<open>auto simp: index_batch_writes term_ops_simps drop_ops_simps\<close>)
  then show ?thesis by (simp add: meta_at_def)
qed

text \<open>The five invariants of a database.\<close>

definition db_inv :: "gob \<Rightarrow> bytes kv \<Rightarrow> bool" where
  "db_inv g db = (docs_ok g db \<and> ids_ok db \<and> terms_ok db \<and> postings_ok db \<and> freqs_ok db)"

lemma doc_inv_db: "doc_inv g s = (db_inv g (ds_db s) \<and> stored_id (ds_db s) \<le> ds_next_id s \<and> ds_next_id s < 2 ^ 63)"
  by (simp add: doc_inv_def db_inv_def)

lemma index_batch_keeps:
  assumes A: "db_inv g A" and i: "is_id i" "i \<le> stored_id A" and en: "entries_ok (terms_of A i) tf f A"
    and ts: "set ts = fset (fmdom tf)" and ord: "set ord = set new" "set new = (ti_id \<circ> f) ` fset (fmdom tf)" "distinct ord" "length ord < 2 ^ 63"
    and D: "D = apply_batch (index_batch i len hid tf f ts (terms_of A i) new ord lsum cnt) A"
  shows "db_inv g D \<and> stored_id D = stored_id A \<and> stored_term D = stored_term A \<and> indexed_by i len tf f ord A D"
proof -
  note a = A [unfolded db_inv_def]
  have p: "postings_ok A" and t: "terms_ok A" and io: "ids_ok A" using a by simp_all
  have fid: "\<forall>t \<in> set ts. is_id (ti_id (f t)) \<and> ti_id (f t) \<le> stored_term A" using entries_okD(1,2) [OF en] ts by blast
  have oid: "\<forall>t \<in> set (terms_of A i). is_id t \<and> t \<le> stored_term A"
    using postings_okD(3) [OF p i(1)] terms_okD(2) [OF t] by blast
  have x: "indexed_by i len tf f ord A D" unfolding D
  proof (rule index_batch_effect [OF i(1)])
    show "\<forall>x. is_id x \<longrightarrow> fmlookup A (posting_key x i) \<noteq> None \<longrightarrow> x \<in> set (terms_of A i)" using postings_okD(4) [OF p i(1)] by blast
    show "inj_on (ti_id \<circ> f) (set ts)" using en by (simp add: entries_ok_def ts)
  qed (use fid oid ts ord in simp_all)
  have st: "stored_id D = stored_id A" "stored_term D = stored_term A" unfolding D by (rule index_batch_meta; simp)+
  have "docs_ok g D"
  proof -
    have "same_on (fam ''dui'') A D" unfolding same_on_def
    proof (intro allI impI)
      fix k assume "fam ''dui'' k"
      then obtain c r where k: "k = c # r" "c \<in> set ''dui''" by (cases k) (auto simp: fam_def)
      show "fmlookup D k = fmlookup A k" unfolding k(1) by (rule indexed_byD(9) [OF x]) (use k(2) in auto)
    qed
    from docs_ok_cong [OF this] a show ?thesis by simp
  qed
  moreover have "terms_ok D" by (rule index_keeps_terms [OF x en t st(2)])
  moreover have "postings_ok D" by (rule index_keeps_postings [OF x en p i(1)]) (use ord in simp_all)
  moreover have "freqs_ok D" by (rule index_keeps_freqs [OF x en p t i(1)]) (use a in simp_all)
  moreover have "ids_ok D"
  proof -
    have old: "fmlookup A k \<noteq> None \<or> k = doc_len_key i \<or> k = doc_terms_key i \<or> (\<exists>x. is_id x \<and> x \<le> stored_term A \<and> k = posting_key x i)"
      if "fmlookup D k \<noteq> None" "fam ''dilgp'' k" for k
    proof (cases "\<exists>b \<in> set (index_batch i len hid tf f ts (terms_of A i) new ord lsum cnt). touches b k")
      case False
      then have "fmlookup D k = fmlookup A k" unfolding D by (intro lookup_batch_untouched) blast
      with that show ?thesis by simp
    next
      case True
      then show ?thesis using that(2) fid oid by (auto simp: index_batch_writes term_ops_simps drop_ops_simps)
    qed
    have 1: "\<exists>j. is_id j \<and> j \<le> stored_id D \<and> r = enc64 j"
      if r: "fmlookup D (c # r) \<noteq> None" "c \<in> {CHR ''d'', CHR ''i'', CHR ''l'', CHR ''g''}" for c r
    proof -
      have "fmlookup A (c # r) \<noteq> None \<or> c # r = doc_len_key i \<or> c # r = doc_terms_key i" using old [OF r(1)] r(2) by auto
      then show ?thesis
      proof (elim disjE)
        assume "fmlookup A (c # r) \<noteq> None"
        with io r(2) st(1) show ?thesis unfolding ids_ok_def by metis
      qed (use i st(1) in auto)
    qed
    have 2: "\<exists>t j. is_id t \<and> t \<le> stored_term D \<and> is_id j \<and> j \<le> stored_id D \<and> r = enc64 t @ enc64 j"
      if r: "fmlookup D (CHR ''p'' # r) \<noteq> None" for r
    proof -
      have "fmlookup A (CHR ''p'' # r) \<noteq> None \<or> (\<exists>x. is_id x \<and> x \<le> stored_term A \<and> CHR ''p'' # r = posting_key x i)"
        using old [OF r] by auto
      then show ?thesis
      proof (elim disjE exE conjE)
        assume "fmlookup A (CHR ''p'' # r) \<noteq> None"
        with io st show ?thesis unfolding ids_ok_def by metis
      next
        fix x assume "is_id x" "x \<le> stored_term A" "CHR ''p'' # r = posting_key x i"
        with i st show ?thesis by (intro exI [of _ x] exI [of _ i]) simp
      qed
    qed
    show ?thesis unfolding ids_ok_def using io 1 2 st by (intro conjI) (auto simp: ids_ok_def)
  qed
  ultimately show ?thesis using x st by (simp add: db_inv_def)
qed

text \<open>The step from the run of \<open>index_part\<close> to a database \<open>A\<close> that differs from it outside the inverted index.\<close>

lemma index_part_commit:
  assumes run: "index_part e i len tf dmn s = (Inr (ops, lsum, cnt), s2)" and safe: "counter_safe e" and inv: "db_inv g (ds_db s)"
    and room: "index_room tf (ds_db s)" and A: "db_inv g A" "same_on (fam ''tplg'') (ds_db s2) A" "stored_term A = stored_term (ds_db s2)"
    and i: "is_id i" "i \<le> stored_id A"
  shows "\<exists>f ord. db_inv g (apply_batch ops A) \<and> stored_id (apply_batch ops A) = stored_id A \<and> stored_term (apply_batch ops A) = stored_term A
    \<and> indexed_by i len tf f ord A (apply_batch ops A) \<and> set ord = (ti_id \<circ> f) ` fset (fmdom tf) \<and> entries_ok (terms_of A i) tf f A
    \<and> (\<exists>hid ts new. ops = index_batch i len hid tf f ts (terms_of A i) new ord lsum cnt)
    \<and> (\<exists>had. read_doc_len (de_env e) (ds_db s) i = Inr had \<and> (lsum, cnt) = new_counts s (de_env e) len had)"
proof -
  have t: "terms_ok (ds_db s)" using inv by (simp add: db_inv_def)
  note sp = index_part_spec [OF run safe t room]
  from sp [THEN conjunct2, THEN conjunct2, THEN conjunct2, rule_format, OF HOL.refl] obtain f hid ts new ord where
    o': "ops = index_batch i len hid tf f ts (terms_of (ds_db s) i) new ord lsum cnt" "set ts = fset (fmdom tf)" "set ord = set new"
      "set new = (ti_id \<circ> f) ` fset (fmdom tf)" "distinct ord" "int (length ord) \<le> int (fcard (fmdom tf))"
      "infos_ok (terms_of (ds_db s) i) (ds_db s) (ds_db s2) ts f"
      "\<exists>had. read_doc_len (de_env e) (ds_db s) i = Inr had \<and> (lsum, cnt) = new_counts s (de_env e) len had"
    by (elim exE conjE) (rule that; (assumption | blast))
  have dr: "drifted (ds_db s) (ds_db s2)" and le: "stored_term (ds_db s2) \<le> stored_term (ds_db s) + int (fcard (fmdom tf))" using sp by blast+
  have same: "same_on (fam ''tplg'') (ds_db s) A"
    using drifted_same [OF dr, of "''tplg''"] A(2) by (simp add: same_on_def)
  have to: "terms_of A i = terms_of (ds_db s) i" by (rule view_cong(4) [OF same]) simp
  have ta: "term_at A u = term_at (ds_db s) u" for u by (rule view_cong(3) [OF same]) simp
  have nn: "0 \<le> stored_term (ds_db s)" using t by (simp add: terms_ok_def)
  have en: "entries_ok (terms_of A i) tf f A" unfolding to
  proof (rule infos_entries [OF o'(7,2) t])
    show "freq_room (ds_db s)" using room by (simp add: index_room_def)
    show "stored_term (ds_db s2) < 2 ^ 63" using le room by (simp add: index_room_def)
    show "stored_term (ds_db s) \<le> stored_term (ds_db s2)" using dr by (simp add: drifted_def)
  qed (simp_all add: ta A(3))
  have "length ord < 2 ^ 63" using o'(6) room nn by (simp add: index_room_def)
  from index_batch_keeps [OF A(1) i en o'(2-5) this HOL.refl, of len hid lsum cnt] o' en to show ?thesis
    by (intro exI [of _ f] exI [of _ ord]) auto
qed

lemma index_document_keeps:
  assumes run: "index_document g e i title text tok boost bulk s = (r, s')" and inv: "doc_inv g s" and safe: "counter_safe e"
    and i: "is_id i" "i \<le> stored_id (ds_db s)" and room: "index_room (term_freqs (clamp_boost boost) (tok title) (tok text)) (ds_db s)"
  shows "doc_inv g s' \<and> stored_id (ds_db s') = stored_id (ds_db s)"
proof -
  define tf where "tf = term_freqs (clamp_boost boost) (tok title) (tok text)"
  define len where "len = int (length (tok title) + length (tok text))"
  define dmn where "dmn = (if \<not> bulk \<and> de_partition e
               then (case get_doc_by_id g (de_env e) (ds_db s) i of Inr d \<Rightarrow> doc_domain d | Inl _ \<Rightarrow> []) else [])"
  obtain q s2 where q: "index_part e i len tf dmn s = (q, s2)" by fastforce
  have "s' = s \<or> s' = s2 \<or> (\<exists>ops lsum cnt. q = Inr (ops, lsum, cnt) \<and> s' = mirror_counts lsum cnt (with_db (apply_batch ops (ds_db s2)) s2))"
    using run q unfolding index_document_def tf_def len_def dmn_def by (auto simp: Let_def split: if_splits sum.splits prod.splits)
  moreover have s2: "doc_inv g s2 \<and> s2 = with_db (ds_db s2) s \<and> stored_id (ds_db s2) = stored_id (ds_db s)"
  proof -
    note sp = index_part_spec [OF q safe _ room [folded tf_def]]
    have t: "terms_ok (ds_db s)" using inv by (simp add: doc_inv_def)
    have "stored_term (ds_db s2) < 2 ^ 63" using sp [OF t] room by (simp add: index_room_def tf_def)
    then have "doc_inv g (with_db (ds_db s2) s)" using sp [OF t] by (intro drift_keeps [OF inv]) blast+
    with sp [OF t] drifted_meta [of "ds_db s" "ds_db s2" "''next_doc_id''"] show ?thesis by simp
  qed
  moreover have "doc_inv g (mirror_counts lsum cnt (with_db (apply_batch ops (ds_db s2)) s2)) \<and> stored_id (apply_batch ops (ds_db s2)) = stored_id (ds_db s)" if Q: "q = Inr (ops, lsum, cnt)" for ops lsum cnt
  proof -
    have dr: "drifted (ds_db s) (ds_db s2)" using index_part_spec [OF q safe _ room [folded tf_def]] inv by (simp add: doc_inv_def)
    have "i \<le> stored_id (ds_db s2)" using i(2) drifted_meta [OF dr, of "''next_doc_id''"] by simp
    with index_part_commit [OF q [unfolded Q] safe _ room [folded tf_def], of g "ds_db s2"] inv s2 i(1)
    have "db_inv g (apply_batch ops (ds_db s2)) \<and> stored_id (apply_batch ops (ds_db s2)) = stored_id (ds_db s2)"
      by (auto simp: doc_inv_db same_on_def)
    with s2 show ?thesis by (simp add: doc_inv_db mirror_counts_def)
  qed
  ultimately show ?thesis using inv by (auto simp: mirror_counts_def)
qed

end
