(* ===== verification/DocUpsert.thy ===== *)
theory DocUpsert
  imports DocOps
begin

text \<open>Writing, deleting and reopening keep the invariant; one crawl write is the three separate calls.\<close>

section \<open>Upserting\<close>

text \<open>What \<open>resolve_id\<close> hands out for a URL: its own id, or one above every recorded id.\<close>

definition id_for :: "bytes kv \<Rightarrow> bytes \<Rightarrow> int \<Rightarrow> bool \<Rightarrow> bool" where
  "id_for db u i new = (is_id i \<and> (if new then fmlookup db (url_key u) = None \<and> stored_id db < i
     else fmlookup db (url_key u) = Some (enc64 i) \<and> i \<le> stored_id db))"

lemma docs_okD:
  assumes "docs_ok g db"
  shows "fmlookup db (url_key u) = Some v \<Longrightarrow> u \<noteq> [] \<and> (\<exists>i d. is_id i \<and> v = enc64 i \<and> doc_at g db i = Some d
         \<and> doc_url d = u \<and> doc_id d = i \<and> fmlookup db (doc_meta_key i) = Some (pack_doc_meta u (doc_title d)))"
    "is_id i \<Longrightarrow> fmlookup db (doc_key i) \<noteq> None \<Longrightarrow> \<exists>d. doc_at g db i = Some d \<and> fmlookup db (url_key (doc_url d)) = Some (enc64 i)"
    "is_id i \<Longrightarrow> fmlookup db (doc_meta_key i) \<noteq> None \<Longrightarrow> fmlookup db (doc_key i) \<noteq> None"
  using assms unfolding docs_ok_def by blast+

lemma ids_okD:
  assumes "ids_ok db"
  shows "fmlookup db (c # r) \<noteq> None \<Longrightarrow> c \<in> {CHR ''d'', CHR ''i'', CHR ''l'', CHR ''g''} \<Longrightarrow> \<exists>i. is_id i \<and> i \<le> stored_id db \<and> r = enc64 i"
    "fmlookup db (CHR ''p'' # r) \<noteq> None \<Longrightarrow> \<exists>t i. is_id t \<and> t \<le> stored_term db \<and> is_id i \<and> i \<le> stored_id db \<and> r = enc64 t @ enc64 i"
    "0 \<le> stored_id db" "stored_id db < 2 ^ 63"
  using assms unfolding ids_ok_def by blast+

lemma id_live:
  assumes "ids_ok db" "is_id i"
  shows "fmlookup db (doc_key i) \<noteq> None \<Longrightarrow> i \<le> stored_id db" "fmlookup db (doc_meta_key i) \<noteq> None \<Longrightarrow> i \<le> stored_id db"
    "fmlookup db (doc_len_key i) \<noteq> None \<Longrightarrow> i \<le> stored_id db" "fmlookup db (doc_terms_key i) \<noteq> None \<Longrightarrow> i \<le> stored_id db"
proof -
  have "i \<le> stored_id db" if "fmlookup db (c # enc64 i) \<noteq> None" "c \<in> {CHR ''d'', CHR ''i'', CHR ''l'', CHR ''g''}" for c
    using ids_okD(1) [OF assms(1) that] assms(2) by auto
  then show "fmlookup db (doc_key i) \<noteq> None \<Longrightarrow> i \<le> stored_id db" "fmlookup db (doc_meta_key i) \<noteq> None \<Longrightarrow> i \<le> stored_id db"
    "fmlookup db (doc_len_key i) \<noteq> None \<Longrightarrow> i \<le> stored_id db" "fmlookup db (doc_terms_key i) \<noteq> None \<Longrightarrow> i \<le> stored_id db"
    unfolding doc_key_def doc_meta_key_def doc_len_key_def doc_terms_key_def by blast+
qed

lemma resolve_id_spec:
  assumes "resolve_id e u s = (r, s1)" "doc_inv g s" "ds_next_id s + 1 < 2 ^ 63"
  shows "ds_db s1 = ds_db s \<and> s1 = s\<lparr>ds_next_id := ds_next_id s1\<rparr> \<and> ds_next_id s \<le> ds_next_id s1 \<and> ds_next_id s1 \<le> ds_next_id s + 1
    \<and> (\<forall>i new. r = Inr (i, new) \<longrightarrow> id_for (ds_db s) u i new \<and> (new \<longrightarrow> ds_next_id s1 = i))"
proof -
  have d: "docs_ok g (ds_db s)" and io: "ids_ok (ds_db s)" and le: "stored_id (ds_db s) \<le> ds_next_id s" using assms(2) by (simp_all add: doc_inv_def)
  show ?thesis
  proof (cases "lookup_id e (ds_db s) u")
    case (Inl x)
    with assms(1) show ?thesis by (auto simp: resolve_id_def)
  next
    case (Inr x)
    show ?thesis
    proof (cases x)
      case None
      have "fmlookup (ds_db s) (url_key u) = None" using Inr None
        by (auto simp: lookup_id_def lookup_id_by_url_def split: if_splits option.splits sum.splits)
      moreover have "i64 (ds_next_id s + 1) = ds_next_id s + 1" "is_id (ds_next_id s + 1)"
        using ids_okD(3) [OF io] le assms(3) by (auto simp: is_id_def is_i64_def intro!: i64_id)
      ultimately show ?thesis using assms(1) Inr None le by (auto simp: resolve_id_def id_for_def Let_def)
    next
      case (Some i)
      then obtain v where v: "fmlookup (ds_db s) (url_key u) = Some v" "i = dec64 v" using Inr
        by (auto simp: lookup_id_def lookup_id_by_url_def dec64_def split: if_splits option.splits sum.splits)
      from docs_okD(1) [OF d v(1)] obtain j dd where j: "is_id j" "v = enc64 j" "doc_at g (ds_db s) j = Some dd" by blast
      then have "i = j" using v(2) by simp
      moreover have "j \<le> stored_id (ds_db s)" using id_live(1) [OF io j(1)] j(3) by (auto simp: doc_at_def bind_eq_Some_conv)
      ultimately show ?thesis using assms(1) Inr Some v j by (auto simp: resolve_id_def id_for_def)
    qed
  qed
qed

text \<open>The batch of one document.\<close>

lemma doc_ops_writes:
  assumes "doc_ops g d i = Inr ops"
  shows "\<exists>b0. gob_enc g d = Some b0 \<and> (\<forall>b. b \<in> set ops \<longleftrightarrow> b = BSet (doc_key i) b0 \<or> b = BSet (url_key (doc_url d)) (enc64 i)
      \<or> b = BSet (doc_meta_key i) (pack_doc_meta (doc_url d) (doc_title d))
      \<or> doc_domain d \<noteq> [] \<and> b = BSet (host_key (doc_domain d) i) []
      \<or> length (doc_sha d) = 32 \<and> b = BSet (content_sha_key (doc_sha d) i) [])"
  using assms by (auto simp: doc_ops_def content_sha_ops_def split: option.splits if_splits)

lemma next_doc_ops_writes: "b \<in> set (next_doc_ops new i) \<longleftrightarrow> new \<and> b = BSet (store_meta_key ''next_doc_id'') (enc64 i)"
  by (auto simp: next_doc_ops_def)

lemma family_neq_doc [simp]:
  "doc_key i \<noteq> url_key u" "url_key u \<noteq> doc_key i" "doc_key i \<noteq> doc_meta_key j" "doc_meta_key j \<noteq> doc_key i" "doc_key i \<noteq> host_key h j"
  "host_key h j \<noteq> doc_key i" "doc_key i \<noteq> content_sha_key sha j" "content_sha_key sha j \<noteq> doc_key i" "doc_key i \<noteq> store_meta_key n" "store_meta_key n \<noteq> doc_key i"
  "url_key u \<noteq> doc_meta_key j" "doc_meta_key j \<noteq> url_key u" "url_key u \<noteq> host_key h j" "host_key h j \<noteq> url_key u" "url_key u \<noteq> content_sha_key sha j"
  "content_sha_key sha j \<noteq> url_key u" "url_key u \<noteq> store_meta_key n" "store_meta_key n \<noteq> url_key u"
  "doc_meta_key i \<noteq> host_key h j" "host_key h j \<noteq> doc_meta_key i" "doc_meta_key i \<noteq> content_sha_key sha j" "content_sha_key sha j \<noteq> doc_meta_key i"
  "doc_meta_key i \<noteq> store_meta_key n" "store_meta_key n \<noteq> doc_meta_key i" "host_key h j \<noteq> store_meta_key n" "store_meta_key n \<noteq> host_key h j"
  "content_sha_key sha j \<noteq> store_meta_key n" "store_meta_key n \<noteq> content_sha_key sha j"
  by (simp_all add: doc_key_defs)

text \<open>The documents after the batch.\<close>

definition upserted :: "document \<Rightarrow> int \<Rightarrow> bytes \<Rightarrow> bytes kv \<Rightarrow> bytes kv \<Rightarrow> bool" where
  "upserted d i b0 db db' =
     (fmlookup db' (doc_key i) = Some b0 \<and> fmlookup db' (url_key (doc_url d)) = Some (enc64 i)
      \<and> fmlookup db' (doc_meta_key i) = Some (pack_doc_meta (doc_url d) (doc_title d))
      \<and> (\<forall>u. u \<noteq> doc_url d \<longrightarrow> fmlookup db' (url_key u) = fmlookup db (url_key u))
      \<and> (\<forall>j. is_id j \<longrightarrow> j \<noteq> i \<longrightarrow> fmlookup db' (doc_key j) = fmlookup db (doc_key j) \<and> fmlookup db' (doc_meta_key j) = fmlookup db (doc_meta_key j))
      \<and> (\<forall>c r. c \<notin> set ''duihCm'' \<longrightarrow> fmlookup db' (c # r) = fmlookup db (c # r)))"

lemma doc_batch_upserted:
  assumes ops: "doc_ops g d i = Inr ops" and i: "is_id i"
  shows "\<exists>b0. gob_enc g d = Some b0 \<and> upserted d i b0 db (apply_batch (ops @ next_doc_ops new k) db)
    \<and> meta_at (apply_batch (ops @ next_doc_ops new k) db) ''next_doc_id'' = (if new then i64 k else stored_id db)
    \<and> (\<forall>n. n \<noteq> ''next_doc_id'' \<longrightarrow> meta_at (apply_batch (ops @ next_doc_ops new k) db) n = meta_at db n)"
proof -
  from doc_ops_writes [OF ops] obtain b0 where b0: "gob_enc g d = Some b0"
    and w: "\<And>b. b \<in> set ops \<longleftrightarrow> b = BSet (doc_key i) b0 \<or> b = BSet (url_key (doc_url d)) (enc64 i)
      \<or> b = BSet (doc_meta_key i) (pack_doc_meta (doc_url d) (doc_title d))
      \<or> doc_domain d \<noteq> [] \<and> b = BSet (host_key (doc_domain d) i) []
      \<or> length (doc_sha d) = 32 \<and> b = BSet (content_sha_key (doc_sha d) i) []" by blast
  let ?D = "apply_batch (ops @ next_doc_ops new k) db"
  note sets = batch_set_in [of _ _ "ops @ next_doc_ops new k" db] and untouched = lookup_batch_untouched [of "ops @ next_doc_ops new k" _ db]
  have 1: "fmlookup ?D (doc_key i) = Some b0" by (rule sets) (auto simp: w next_doc_ops_writes)
  have 2: "fmlookup ?D (url_key (doc_url d)) = Some (enc64 i)" by (rule sets) (auto simp: w next_doc_ops_writes)
  have 3: "fmlookup ?D (doc_meta_key i) = Some (pack_doc_meta (doc_url d) (doc_title d))" by (rule sets) (auto simp: w next_doc_ops_writes)
  have 4: "fmlookup ?D (url_key u) = fmlookup db (url_key u)" if "u \<noteq> doc_url d" for u
    by (rule untouched) (use that in \<open>auto simp: w next_doc_ops_writes\<close>)
  have 5: "fmlookup ?D (doc_key j) = fmlookup db (doc_key j)" "fmlookup ?D (doc_meta_key j) = fmlookup db (doc_meta_key j)"
    if "is_id j" "j \<noteq> i" for j
  proof -
    show "fmlookup ?D (doc_key j) = fmlookup db (doc_key j)" by (rule untouched) (use that i in \<open>auto simp: w next_doc_ops_writes\<close>)
    show "fmlookup ?D (doc_meta_key j) = fmlookup db (doc_meta_key j)" by (rule untouched) (use that i in \<open>auto simp: w next_doc_ops_writes\<close>)
  qed
  have 6: "fmlookup ?D (c # r) = fmlookup db (c # r)" if "c \<notin> set ''duihCm''" for c r
    by (rule untouched) (use that in \<open>auto simp: w next_doc_ops_writes doc_key_defs\<close>)
  have 7: "fmlookup ?D (store_meta_key n) = (if new \<and> n = ''next_doc_id'' then Some (enc64 k) else fmlookup db (store_meta_key n))" for n
  proof (cases "new \<and> n = ''next_doc_id''")
    case True
    then have "fmlookup ?D (store_meta_key n) = Some (enc64 k)" by (intro sets) (auto simp: w next_doc_ops_writes)
    with True show ?thesis by simp
  next
    case False
    then have "fmlookup ?D (store_meta_key n) = fmlookup db (store_meta_key n)" by (intro untouched) (auto simp: w next_doc_ops_writes)
    with False show ?thesis by auto
  qed
  show ?thesis using b0 1 2 3 4 5 6 7 by (intro exI [of _ b0]) (simp add: upserted_def meta_at_def)
qed


lemma upsertedD:
  assumes "upserted d i b0 db db'"
  shows "fmlookup db' (doc_key i) = Some b0" "fmlookup db' (url_key (doc_url d)) = Some (enc64 i)"
    "fmlookup db' (doc_meta_key i) = Some (pack_doc_meta (doc_url d) (doc_title d))"
    "u \<noteq> doc_url d \<Longrightarrow> fmlookup db' (url_key u) = fmlookup db (url_key u)"
    "is_id j \<Longrightarrow> j \<noteq> i \<Longrightarrow> fmlookup db' (doc_key j) = fmlookup db (doc_key j)"
    "is_id j \<Longrightarrow> j \<noteq> i \<Longrightarrow> fmlookup db' (doc_meta_key j) = fmlookup db (doc_meta_key j)"
    "c \<notin> set ''duihCm'' \<Longrightarrow> fmlookup db' (c # r) = fmlookup db (c # r)"
  using assms unfolding upserted_def by blast+

lemma upserted_same: "upserted d i b0 db db' \<Longrightarrow> \<forall>c \<in> set cs. c \<notin> set ''duihCm'' \<Longrightarrow> same_on (fam cs) db db'"
  unfolding same_on_def using upsertedD(7) by (metis fam_def list.collapse)

lemma upserted_docs_ok:
  assumes x: "upserted d i b0 db db'" and d: "docs_ok g db" and io: "ids_ok db" and f: "id_for db (doc_url d) i new"
    and g: "gob_ok g" "gob_enc g d = Some b0" and u: "doc_url d \<noteq> []" "doc_id d = i"
  shows "docs_ok g db'"
proof -
  have i: "is_id i" using f by (simp add: id_for_def)
  have di: "doc_at g db' i = Some d" using upsertedD(1) [OF x] g by (simp add: doc_at_def gob_ok_def)
  have dj: "doc_at g db' j = doc_at g db j" if "is_id j" "j \<noteq> i" for j using upsertedD(5) [OF x that] by (simp add: doc_at_def)
  have other: "j \<noteq> i" if "is_id j" "doc_at g db j = Some e" "fmlookup db (url_key (doc_url e)) = Some (enc64 j)" "doc_url e \<noteq> doc_url d" for j e
  proof
    assume "j = i"
    have "fmlookup db (doc_key j) \<noteq> None" using that(2) by (auto simp: doc_at_def bind_eq_Some_conv)
    then have "j \<le> stored_id db" by (rule id_live(1) [OF io that(1)])
    with f \<open>j = i\<close> have "fmlookup db (url_key (doc_url d)) = Some (enc64 i)" by (auto simp: id_for_def split: if_splits)
    with docs_okD(1) [OF d this] i obtain e' where "doc_at g db i = Some e'" "doc_url e' = doc_url d" by auto
    with that(2,4) \<open>j = i\<close> show False by simp
  qed
  show ?thesis unfolding docs_ok_def
  proof (intro conjI allI impI)
    fix w v assume w: "fmlookup db' (url_key w) = Some v"
    have "w \<noteq> [] \<and> (\<exists>j e. is_id j \<and> v = enc64 j \<and> doc_at g db' j = Some e \<and> doc_url e = w \<and> doc_id e = j
        \<and> fmlookup db' (doc_meta_key j) = Some (pack_doc_meta w (doc_title e)))"
    proof (cases "w = doc_url d")
      case True
      then show ?thesis using w upsertedD(2,3) [OF x] i di u by auto
    next
      case False
      with w upsertedD(4) [OF x] have w0: "fmlookup db (url_key w) = Some v" by simp
      with docs_okD(1) [OF d] obtain j e where j: "w \<noteq> []" "is_id j" "v = enc64 j" "doc_at g db j = Some e" "doc_url e = w" "doc_id e = j"
        "fmlookup db (doc_meta_key j) = Some (pack_doc_meta w (doc_title e))" by blast
      have "j \<noteq> i" by (rule other [OF j(2,4)]) (use w0 j False in simp_all)
      with j dj upsertedD(6) [OF x j(2)] show ?thesis by auto
    qed
    then show "w \<noteq> []" "\<exists>j e. is_id j \<and> v = enc64 j \<and> doc_at g db' j = Some e \<and> doc_url e = w \<and> doc_id e = j
        \<and> fmlookup db' (doc_meta_key j) = Some (pack_doc_meta w (doc_title e))" by blast+
  next
    fix j assume j: "is_id j" "fmlookup db' (doc_key j) \<noteq> None"
    show "\<exists>e. doc_at g db' j = Some e \<and> fmlookup db' (url_key (doc_url e)) = Some (enc64 j)"
    proof (cases "j = i")
      case True
      then show ?thesis using di upsertedD(2) [OF x] by auto
    next
      case False
      with j upsertedD(5) [OF x j(1)] have "fmlookup db (doc_key j) \<noteq> None" by simp
      with docs_okD(2) [OF d j(1)] obtain e where e: "doc_at g db j = Some e" "fmlookup db (url_key (doc_url e)) = Some (enc64 j)" by blast
      have "doc_url e \<noteq> doc_url d"
      proof
        assume "doc_url e = doc_url d"
        with e(2) f have "enc64 j = enc64 i" by (auto simp: id_for_def split: if_splits)
        with j(1) i False show False by simp
      qed
      with e upsertedD(4) [OF x] dj [OF j(1) False] show ?thesis by auto
    qed
  next
    fix j assume j: "is_id j" "fmlookup db' (doc_meta_key j) \<noteq> None"
    show "fmlookup db' (doc_key j) \<noteq> None"
    proof (cases "j = i")
      case True
      then show ?thesis using upsertedD(1) [OF x] by simp
    next
      case False
      then show ?thesis using j docs_okD(3) [OF d j(1)] upsertedD(5,6) [OF x j(1)] by simp
    qed
  qed
qed

text \<open>Committing the batch of one document.\<close>

lemma doc_batch_keeps:
  assumes inv: "db_inv g db" and ops: "doc_ops g d i = Inr ops" and f: "id_for db (doc_url d) i new"
    and g: "gob_ok g" and u: "doc_url d \<noteq> []" "doc_id d = i" and D: "D = apply_batch (ops @ next_doc_ops new i) db"
  shows "db_inv g D \<and> i \<le> stored_id D \<and> stored_id db \<le> stored_id D \<and> stored_term D = stored_term db \<and> same_on (fam ''tplg'') db D
    \<and> stored_id D = (if new then i else stored_id db) \<and> (\<exists>b0. gob_enc g d = Some b0 \<and> upserted d i b0 db D)"
proof -
  note a = inv [unfolded db_inv_def]
  have i: "is_id i" using f by (simp add: id_for_def)
  obtain b0 where b0: "gob_enc g d = Some b0" "upserted d i b0 db D" and m: "stored_id D = (if new then i else stored_id db)"
    "\<And>n. n \<noteq> ''next_doc_id'' \<Longrightarrow> meta_at D n = meta_at db n"
    using doc_batch_upserted [OF ops i, of db new i] i unfolding D by auto
  note x = b0(2)
  have st: "i \<le> stored_id D" "stored_id db \<le> stored_id D" "stored_id D < 2 ^ 63" "stored_term D = stored_term db"
    using f m i ids_okD(4) a by (auto simp: id_for_def is_id_def split: if_splits)
  have same: "same_on (fam ''tplg'') db D" by (rule upserted_same [OF x]) simp
  have "docs_ok g D" by (rule upserted_docs_ok [OF x _ _ f g b0(1) u]) (use a in simp_all)
  moreover have "terms_ok D" using terms_ok_cong [of db D] a st(4) m(2) upsertedD(7) [OF x]
  proof -
    have "terms_ok db" using a by simp
    then show ?thesis by (rule terms_ok_mono [OF _ upserted_same [OF x]]) (use a st in \<open>simp_all add: terms_ok_def\<close>)
  qed
  moreover have "postings_ok D" using postings_ok_cong [OF upserted_same [OF x]] a by simp
  moreover have "freqs_ok D" using freqs_ok_cong [OF upserted_same [OF x]] a by simp
  moreover have "ids_ok D"
  proof -
    have io: "ids_ok db" using a by simp
    have 1: "\<exists>j. is_id j \<and> j \<le> stored_id D \<and> r = enc64 j"
      if r: "fmlookup D (c # r) \<noteq> None" "c \<in> {CHR ''d'', CHR ''i'', CHR ''l'', CHR ''g''}" for c r
    proof (cases "r = enc64 i")
      case True
      with i st(1) show ?thesis by blast
    next
      case False
      have "fmlookup D (c # r) = fmlookup db (c # r)"
      proof (cases "c \<in> {CHR ''l'', CHR ''g''}")
        case True
        then show ?thesis by (intro upsertedD(7) [OF x]) auto
      next
        case c: False
        from doc_ops_writes [OF ops] obtain b1 where w: "\<And>b. b \<in> set ops \<longleftrightarrow> b = BSet (doc_key i) b1 \<or> b = BSet (url_key (doc_url d)) (enc64 i)
          \<or> b = BSet (doc_meta_key i) (pack_doc_meta (doc_url d) (doc_title d))
          \<or> doc_domain d \<noteq> [] \<and> b = BSet (host_key (doc_domain d) i) []
          \<or> length (doc_sha d) = 32 \<and> b = BSet (content_sha_key (doc_sha d) i) []" by blast
        have "c = CHR ''d'' \<or> c = CHR ''i''" using c r(2) by blast
        then show ?thesis unfolding D by (intro lookup_batch_untouched) (use False in \<open>auto simp: w next_doc_ops_writes content_sha_key_def\<close>)
      qed
      with r ids_okD(1) [OF io, of c r] st(2) show ?thesis by force
    qed
    have 2: "\<exists>t j. is_id t \<and> t \<le> stored_term D \<and> is_id j \<and> j \<le> stored_id D \<and> r = enc64 t @ enc64 j"
      if r: "fmlookup D (CHR ''p'' # r) \<noteq> None" for r
    proof -
      have "fmlookup db (CHR ''p'' # r) \<noteq> None" using r upsertedD(7) [OF x, of "CHR ''p''" r] by simp
      from ids_okD(2) [OF io this] obtain t j where "is_id t" "t \<le> stored_term db" "is_id j" "j \<le> stored_id db" "r = enc64 t @ enc64 j" by blast
      with st show ?thesis by (intro exI [of _ t] exI [of _ j]) simp
    qed
    show ?thesis unfolding ids_ok_def using ids_okD(3) [OF io] st 1 2 by (intro conjI) auto
  qed
  ultimately show ?thesis using st same m(1) b0 by (simp add: db_inv_def)
qed

lemma upsert_document_keeps:
  assumes run: "upsert_document g e d s = (r, s')" and inv: "doc_inv g s" and g: "gob_ok g" and room: "ds_next_id s + 1 < 2 ^ 63"
  shows "doc_inv g s' \<and> stored_id (ds_db s) \<le> stored_id (ds_db s')"
proof -
  obtain q s1 where q: "resolve_id (de_env e) (doc_url d) s = (q, s1)" by fastforce
  note sp = resolve_id_spec [OF q inv room]
  have i1: "doc_inv g s1" using sp inv room by (simp add: doc_inv_db)
  show ?thesis
  proof (cases "s' = s \<or> s' = s1")
    case True
    with i1 inv sp show ?thesis by auto
  next
    case False
    obtain i new ops where c: "q = Inr (i, new)" "doc_ops g (d\<lparr>doc_id := i\<rparr>) i = Inr ops" "doc_url d \<noteq> []"
      "s' = with_db (apply_batch (ops @ next_doc_ops new i) (ds_db s1)) s1"
      using run q False by (auto simp: upsert_document_def split: if_splits sum.splits prod.splits)
    have f: "id_for (ds_db s1) (doc_url (d\<lparr>doc_id := i\<rparr>)) i new" "new \<longrightarrow> ds_next_id s1 = i" using sp c(1) by auto
    have "db_inv g (ds_db s1)" using i1 by (simp add: doc_inv_db)
    from doc_batch_keeps [OF this c(2) f(1) g _ _ HOL.refl] c(3) i1 f(2) sp show ?thesis
      by (auto simp: c(4) doc_inv_db split: if_splits)
  qed
qed

end
