(* ===== verification/DocWrite.thy ===== *)
theory DocWrite
  imports DocUpsert
begin

text \<open>The write of a crawled page, deletion, the corpus counters and reopening keep the invariant.\<close>

section \<open>One write per crawled page\<close>

lemma same_keeps:
  assumes "db_inv g db" "same_on (\<lambda>k. \<not> fam cs k) db db'" "set cs \<inter> set ''duiltpgm'' = {}"
  shows "db_inv g db' \<and> stored_id db' = stored_id db \<and> stored_term db' = stored_term db"
proof -
  have s: "same_on (fam ds) db db'" if "set ds \<subseteq> set ''duiltpgm''" for ds
    using assms(2,3) that by (auto simp: same_on_def fam_def)
  have m: "meta_at db' n = meta_at db n" for n by (rule view_cong(7) [OF s [of "''m''"]]) auto
  note a = assms(1) [unfolded db_inv_def]
  have "docs_ok g db'" using docs_ok_cong [OF s] a by simp
  moreover have "ids_ok db'"
    by (rule ids_ok_mono [OF _ s]) (use a in \<open>simp_all add: m ids_ok_def\<close>)
  moreover have "terms_ok db'" by (rule terms_ok_mono [OF _ s]) (use a in \<open>simp_all add: m terms_ok_def\<close>)
  moreover have "postings_ok db'" using postings_ok_cong [OF s] a by simp
  moreover have "freqs_ok db'" using freqs_ok_cong [OF s] a by simp
  ultimately show ?thesis using m by (simp add: db_inv_def)
qed

lemma complete_ops_same: "same_on (\<lambda>k. \<not> fam ''f'' k) db (apply_batch (complete_ops e db' url) db)"
  unfolding same_on_def
proof (intro allI impI)
  fix k assume k: "\<not> fam ''f'' k"
  show "fmlookup (apply_batch (complete_ops e db' url) db) k = fmlookup db k"
    by (rule lookup_batch_untouched)
      (use k in \<open>auto simp: complete_ops_def frontier_key_def frontier_status_index_key_def frontier_status_index_key_lane_def split: if_splits sum.splits\<close>)
qed

text \<open>The outcomes of \<open>WriteCrawlResult\<close>, with the stores it passes through.\<close>

lemma write_crawl_cases:
  assumes "write_crawl_result g e d title text url tok boost s = (r, s')"
  obtains (refused) x where "r = Inl x" "s' = s"
  | (unresolved) x where "r = Inl x" "resolve_id (de_env e) (doc_url d) s = (Inl x, s')"
  | (unencoded) x i new where "r = Inl x" "resolve_id (de_env e) (doc_url d) s = (Inr (i, new), s')"
  | (plain) i new dops s1 where "doc_url d \<noteq> []" "resolve_id (de_env e) (doc_url d) s = (Inr (i, new), s1)"
      "doc_ops g (d\<lparr>doc_id := i\<rparr>) i = Inr dops" "term_freqs (clamp_boost boost) (tok title) (tok text) = fmempty"
      "(r, s') = (if commit_err (de_env e) then (Inl WriteFault, s1)
         else (Inr i, with_db (apply_batch ((dops @ next_doc_ops new i) @ complete_ops (de_env e) (ds_db s1) url) (ds_db s1)) s1))"
  | (unindexed) x i new s1 where "doc_url d \<noteq> []" "resolve_id (de_env e) (doc_url d) s = (Inr (i, new), s1)"
      "index_part e i (int (length (tok title) + length (tok text))) (term_freqs (clamp_boost boost) (tok title) (tok text))
         (if de_partition e then doc_domain d else []) s1 = (Inl x, s')" "r = Inl x"
  | (indexed) i new dops s1 s2 iops lsum cnt where "doc_url d \<noteq> []" "resolve_id (de_env e) (doc_url d) s = (Inr (i, new), s1)"
      "doc_ops g (d\<lparr>doc_id := i\<rparr>) i = Inr dops"
      "index_part e i (int (length (tok title) + length (tok text))) (term_freqs (clamp_boost boost) (tok title) (tok text))
         (if de_partition e then doc_domain d else []) s1 = (Inr (iops, lsum, cnt), s2)"
      "(r, s') = (if commit_err (de_env e) then (Inl WriteFault, mirror_counts lsum cnt s2)
         else (Inr i, mirror_counts lsum cnt (with_db (apply_batch ((dops @ next_doc_ops new i) @ iops @ complete_ops (de_env e) (ds_db s2) url) (ds_db s2)) s2)))"
proof -
  define tf where "tf = term_freqs (clamp_boost boost) (tok title) (tok text)"
  define len where "len = int (length (tok title) + length (tok text))"
  define dmn where "dmn = (if de_partition e then doc_domain d else [])"
  show thesis
  proof (cases "ctx_err (de_env e) \<or> doc_url d = []")
    case True
    with assms have "r = Inl (if ctx_err (de_env e) then Cancelled else EmptyUrl)" "s' = s"
      by (auto simp: write_crawl_result_def split: if_splits)
    then show thesis by (rule refused)
  next
    case False
    obtain q s1 where q: "resolve_id (de_env e) (doc_url d) s = (q, s1)" by fastforce
    show thesis
    proof (cases q)
      case (Inl x)
      with assms False q show thesis by (intro unresolved [of x]) (auto simp: write_crawl_result_def Let_def)
    next
      case (Inr p)
      obtain i new where p: "p = (i, new)" by fastforce
      note q' = q [unfolded Inr p]
      show thesis
      proof (cases "doc_ops g (d\<lparr>doc_id := i\<rparr>) i")
        case (Inl x)
        with assms False q' show thesis by (intro unencoded [of x i new]) (auto simp: write_crawl_result_def Let_def)
      next
        case dops: (Inr dops)
        show thesis
        proof (cases "fmdom tf = {||}")
          case True
          then have e: "tf = fmempty" by (metis fmdom_empty fmfilter_false fmrestrict_fset_dom fmrestrict_fset_null)
          show thesis
            by (rule plain [OF _ q' dops]) (use assms False q' dops e in \<open>auto simp: write_crawl_result_def Let_def tf_def [symmetric] split: if_splits\<close>)
        next
          case ne: False
          obtain ip s2 where ip: "index_part e i len tf dmn s1 = (ip, s2)" by fastforce
          show thesis
          proof (cases ip)
            case (Inl x)
            show thesis
              by (rule unindexed [OF _ q', of x])
                (use assms False q' dops ne ip [unfolded len_def] Inl in \<open>auto simp: write_crawl_result_def Let_def tf_def [symmetric] dmn_def [symmetric] simp del: of_nat_add\<close>)
          next
            case (Inr t)
            obtain iops lsum cnt where t: "t = (iops, lsum, cnt)" by (cases t) auto
            show thesis
              by (rule indexed [OF _ q' dops, of iops lsum cnt s2])
                (use assms False q' dops ne ip [unfolded len_def] Inr t in
                  \<open>auto simp: write_crawl_result_def Let_def tf_def [symmetric] dmn_def [symmetric] simp del: of_nat_add split: if_splits\<close>)
          qed
        qed
      qed
    qed
  qed
qed

lemma write_crawl_keeps:
  assumes run: "write_crawl_result g e d title text url tok boost s = (r, s')" and inv: "doc_inv g s" and safe: "counter_safe e" and g: "gob_ok g"
    and room: "ds_next_id s + 1 < 2 ^ 63" "index_room (term_freqs (clamp_boost boost) (tok title) (tok text)) (ds_db s)"
  shows "doc_inv g s' \<and> stored_id (ds_db s) \<le> stored_id (ds_db s')"
proof -
  define tf where "tf = term_freqs (clamp_boost boost) (tok title) (tok text)"
  note rm = room(2) [folded tf_def]
  have res: "doc_inv g s1 \<and> ds_db s1 = ds_db s \<and> (\<forall>i new. q = Inr (i, new) \<longrightarrow> id_for (ds_db s1) (doc_url d) i new \<and> (new \<longrightarrow> ds_next_id s1 = i))"
    if "resolve_id (de_env e) (doc_url d) s = (q, s1)" for q s1
    using resolve_id_spec [OF that inv room(1)] inv room(1) by (auto simp: doc_inv_db)
  have part: "doc_inv g s2 \<and> s2 = with_db (ds_db s2) s1 \<and> drifted (ds_db s1) (ds_db s2)"
    if "resolve_id (de_env e) (doc_url d) s = (q, s1)" "index_part e i len tf dmn s1 = (z, s2)" for q s1 i len dmn z s2
  proof -
    have s1: "doc_inv g s1" "ds_db s1 = ds_db s" using res [OF that(1)] by blast+
    have t: "terms_ok (ds_db s1)" using s1(1) by (simp add: doc_inv_def)
    note sp = index_part_spec [OF that(2) safe t, unfolded s1(2), OF rm]
    have "stored_term (ds_db s2) < 2 ^ 63" using sp rm by (simp add: index_room_def)
    then have "doc_inv g (with_db (ds_db s2) s1)" using sp s1 by (intro drift_keeps) simp_all
    with sp s1(2) show ?thesis by simp
  qed
  show ?thesis using run
  proof (cases rule: write_crawl_cases)
    case refused
    with inv show ?thesis by simp
  next
    case unresolved
    with res show ?thesis by fastforce
  next
    case unencoded
    with res show ?thesis by fastforce
  next
    case (plain i new dops s1)
    note s1 = res [OF plain(2)]
    define A where "A = apply_batch (dops @ next_doc_ops new i) (ds_db s1)"
    have inv1: "db_inv g (ds_db s1)" using s1 unfolding doc_inv_db by blast
    have f: "id_for (ds_db s1) (doc_url (d\<lparr>doc_id := i\<rparr>)) i new" using s1 by (elim conjE) simp
    from doc_batch_keeps [OF inv1 plain(3) f g _ _ A_def] plain(1)
    have A: "db_inv g A" "stored_id A = (if new then i else stored_id (ds_db s1))" by simp_all
    note C = same_keeps [OF A(1) complete_ops_same, of "de_env e" "ds_db s1" url]
    have le: "stored_id (ds_db s1) \<le> ds_next_id s1" "ds_next_id s1 < 2 ^ 63" "new \<longrightarrow> ds_next_id s1 = i"
      using s1 unfolding doc_inv_db by auto
    have "s' = s1 \<or> s' = with_db (apply_batch (complete_ops (de_env e) (ds_db s1) url) A) s1"
      using plain(5) by (auto simp: A_def split: if_splits)
    moreover have "stored_id (ds_db s) \<le> stored_id A" using A(2) f s1 by (auto simp: id_for_def)
    ultimately show ?thesis using C A(2) le s1 by (auto simp: doc_inv_db split: if_splits)
  next
    case (unindexed x i new s1)
    note p = part [OF unindexed(2) unindexed(3) [folded tf_def]] and s1 = res [OF unindexed(2)]
    have "stored_id (ds_db s') = stored_id (ds_db s1)" using drifted_meta p by simp
    with p s1 show ?thesis by auto
  next
    case (indexed i new dops s1 s2 iops lsum cnt)
    note s1 = res [OF indexed(2)] and ip = indexed(4) [folded tf_def]
    note s2 = part [OF indexed(2) ip]
    define A where "A = apply_batch (dops @ next_doc_ops new i) (ds_db s2)"
    have f: "id_for (ds_db s2) (doc_url (d\<lparr>doc_id := i\<rparr>)) i new"
    proof -
      have "fmlookup (ds_db s2) (url_key (doc_url d)) = fmlookup (ds_db s1) (url_key (doc_url d))"
        using s2 by (auto simp: drifted_def same_on_def)
      moreover have "stored_id (ds_db s2) = stored_id (ds_db s1)" using drifted_meta s2 by simp
      ultimately show ?thesis using s1 by (elim conjE) (simp add: id_for_def)
    qed
    have inv1: "db_inv g (ds_db s1)" and inv2: "db_inv g (ds_db s2)" using s1 s2 unfolding doc_inv_db by blast+
    have rm1: "index_room tf (ds_db s1)" using s1 rm by simp
    from doc_batch_keeps [OF inv2 indexed(3) f g _ _ A_def] indexed(1)
    have A: "db_inv g A" "i \<le> stored_id A" "stored_term A = stored_term (ds_db s2)" "same_on (fam ''tplg'') (ds_db s2) A"
      "stored_id A = (if new then i else stored_id (ds_db s2))" by simp_all
    have i: "is_id i" using f by (simp add: id_for_def)
    from index_part_commit [OF ip safe inv1 rm1 A(1,4,3) i A(2)]
    have B: "db_inv g (apply_batch iops A)" "stored_id (apply_batch iops A) = stored_id A" by auto
    note C = same_keeps [OF B(1) complete_ops_same, of "de_env e" "ds_db s2" url]
    have n2: "ds_next_id s2 = ds_next_id s1" using s2 with_db_simps(2) [of "ds_db s2" s1] by simp
    have le: "stored_id (ds_db s2) \<le> ds_next_id s2" "ds_next_id s2 < 2 ^ 63" "new \<longrightarrow> ds_next_id s2 = i"
      using s1 s2 n2 unfolding doc_inv_db by auto
    have "s' = mirror_counts lsum cnt s2
        \<or> s' = mirror_counts lsum cnt (with_db (apply_batch (complete_ops (de_env e) (ds_db s2) url) (apply_batch iops A)) s2)"
      using indexed(5) by (auto simp: A_def split: if_splits)
    moreover have "stored_id (ds_db s2) = stored_id (ds_db s)" using drifted_meta s2 s1 by auto
    moreover have "stored_id (ds_db s2) \<le> stored_id A" using A(5) f by (auto simp: id_for_def)
    ultimately show ?thesis using C A(5) B(2) le s2 by (auto simp: doc_inv_db mirror_counts_def split: if_splits)
  qed
qed

end
