(* ===== verification/DocFrame.thy ===== *)
theory DocFrame
  imports DocUpsert
begin

text \<open>The operations of the crawl frontier only touch keys of the family \<open>'f'\<close>.\<close>

fun f_write :: "bytes bop \<Rightarrow> bool" where
  "f_write (BSet k v) = fam ''f'' k"
| "f_write (BDel k) = fam ''f'' k"
| "f_write (BDelRange lo hi) = (lo = ''f'' \<and> hi = ''g'')"

definition f_same :: "bytes kv \<Rightarrow> bytes kv \<Rightarrow> bool" where
  "f_same db db' = same_on (\<lambda>k. \<not> fam ''f'' k) db db'"

lemma f_same_refl [simp]: "f_same db db"
  by (simp add: f_same_def same_on_def)

lemma f_same_trans: "f_same a b \<Longrightarrow> f_same b c \<Longrightarrow> f_same a c"
  by (simp add: f_same_def same_on_def)

lemma f_batch_same:
  assumes "\<forall>b \<in> set ops. f_write b"
  shows "f_same db (apply_batch ops db)"
  unfolding f_same_def same_on_def
proof (intro allI impI)
  fix k assume k: "\<not> fam ''f'' k"
  have "\<not> touches b k" if "b \<in> set ops" for b
  proof
    assume t: "touches b k"
    have f: "f_write b" using assms that by blast
    show False
    proof (cases b)
      case (BDelRange lo hi)
      then have "''f'' \<le> k \<and> k < ''g''" using t f by simp
      then have "\<exists>r. k = CHR ''f'' # r" using prefix_range_cons [of "CHR ''g''" "CHR ''f''" k] by simp
      with k show False by auto
    qed (use t f k in auto)
  qed
  then show "fmlookup (apply_batch ops db) k = fmlookup db k" by (rule lookup_batch_untouched)
qed

lemma commit_f_same:
  "commit e ops s = Inr s' \<Longrightarrow> \<forall>b \<in> set ops. f_write b \<Longrightarrow> f_same (ps_db s) (ps_db s')"
  by (auto simp: commit_def f_batch_same split: if_splits)

lemma f_keys [simp]:
  "fam ''f'' (frontier_key u)" "fam ''f'' (frontier_status_index_key st h u)" "fam ''f'' (frontier_status_index_key_lane st l h u)"
  by (simp_all add: frontier_key_def frontier_status_index_key_def frontier_status_index_key_lane_def)

lemma kv_keys_f:
  assumes "k \<in> set (kv_keys db (CHR ''f'' # lo) (CHR ''f'' # hi))"
  shows "fam ''f'' k"
proof -
  have "CHR ''f'' # lo \<le> k" "k < CHR ''f'' # hi" using assms by (simp_all add: set_kv_keys)
  then show ?thesis by (cases k) (auto simp: fam_def less_char_def)
qed

lemma push_ops_f: "b \<in> set (push_ops now u depth pri lane) \<Longrightarrow> f_write b"
  by (auto simp: push_ops_def Let_def)

lemma push_batch_f:
  "push_batch_loop e db its ops n = Inr (ops', n') \<Longrightarrow> \<forall>b \<in> set ops. f_write b \<Longrightarrow> \<forall>b \<in> set ops'. f_write b"
proof (induction e db its ops n rule: push_batch_loop.induct)
  case (2 e db it its ops written)
  then show ?case by (auto simp: Let_def split: if_splits dest: push_ops_f)
qed auto

lemma transition_ops_f: "b \<in> set (transition_ops st m u en) \<Longrightarrow> f_write b"
  by (auto simp: transition_ops_def Let_def split: if_splits)

lemma transition_f_same: "transition_frontier e u st m s = (r, s') \<Longrightarrow> f_same (ps_db s) (ps_db s')"
  by (auto simp: transition_frontier_def split: if_splits sum.splits intro: commit_f_same dest: transition_ops_f)

lemma recover_loop_f:
  "recover_loop e db ks ops = Inr ops' \<Longrightarrow> \<forall>b \<in> set ops. f_write b \<Longrightarrow> \<forall>k \<in> set ks. fam ''f'' k \<Longrightarrow> \<forall>b \<in> set ops'. f_write b"
proof (induction e db ks ops rule: recover_loop.induct)
  case (2 e db k ks ops)
  then show ?case by (auto simp: recover_ops_def Let_def split: if_splits option.splits sum.splits)
qed auto

lemma stale_loop_f:
  "purge_stale_loop e db ks ops n = Inr (ops', n') \<Longrightarrow> \<forall>b \<in> set ops. f_write b \<Longrightarrow> \<forall>k \<in> set ks. fam ''f'' k \<Longrightarrow> \<forall>b \<in> set ops'. f_write b"
proof (induction e db ks ops n rule: purge_stale_loop.induct)
  case (2 e db k ks ops n)
  then show ?case by (auto split: if_splits option.splits sum.splits)
qed auto

lemma purge_range_f:
  "purge_range e off ks ops n s = (x, ops', n', s') \<Longrightarrow> \<forall>b \<in> set ops. f_write b \<Longrightarrow> \<forall>k \<in> set ks. fam ''f'' k
    \<Longrightarrow> f_same (ps_db s) (ps_db s') \<and> (\<forall>b \<in> set ops'. f_write b)"
proof (induction e off ks ops n s rule: purge_range.induct)
  case (2 e off k ks ops n s)
  show ?case
  proof (cases "length k \<le> off")
    case True
    with 2 show ?thesis by simp
  next
    case False
    let ?ops = "ops @ [BDel k, BDel (frontier_key (drop off k))]"
    have fo: "\<forall>b \<in> set ?ops. f_write b" using "2.prems"(2,3) by auto
    show ?thesis
    proof (cases "Suc n mod 5000 = 0")
      case True
      show ?thesis
      proof (cases "commit e ?ops s")
        case (Inl y)
        with "2.prems" False True fo show ?thesis by auto
      next
        case (Inr s1)
        have "f_same (ps_db s) (ps_db s1)" by (rule commit_f_same [OF Inr fo])
        moreover have "f_same (ps_db s1) (ps_db s') \<and> (\<forall>b \<in> set ops'. f_write b)"
          using "2.IH"(2) [OF False HOL.refl HOL.refl True Inr] "2.prems" False True Inr by simp
        ultimately show ?thesis using f_same_trans by blast
      qed
    next
      case no: False
      then show ?thesis using "2.IH"(3) [OF False HOL.refl HOL.refl no] "2.prems" False fo by simp
    qed
  qed
qed auto

lemma purge_prefix_f:
  assumes "purge_prefix e (CHR ''f'' # lo) (CHR ''f'' # hi) ops n s = (x, ops', n', s')" "\<forall>b \<in> set ops. f_write b"
  shows "f_same (ps_db s) (ps_db s') \<and> (\<forall>b \<in> set ops'. f_write b)"
  using assms by (auto simp: purge_prefix_def split: if_splits dest!: purge_range_f dest: kv_keys_f)

lemma prefixes_f:
  "\<exists>lo hi. host_prefix st h = CHR ''f'' # lo \<and> host_upper st h = CHR ''f'' # hi"
  "\<exists>lo hi. host_prefix_lane st l h = CHR ''f'' # lo \<and> host_upper_lane st l h = CHR ''f'' # hi"
  by (simp_all add: host_prefix_def host_upper_def host_prefix_lane_def host_upper_lane_def)

lemma purge_lanes_f:
  "purge_lanes e h ls ops n s = (x, ops', n', s') \<Longrightarrow> \<forall>b \<in> set ops. f_write b \<Longrightarrow> f_same (ps_db s) (ps_db s') \<and> (\<forall>b \<in> set ops'. f_write b)"
proof (induction ls arbitrary: ops n s)
  case (Cons l ls)
  obtain y ops1 n1 s1 where p: "purge_prefix e (host_prefix_lane st_queued l h) (host_upper_lane st_queued l h) ops n s = (y, ops1, n1, s1)"
    by (cases "purge_prefix e (host_prefix_lane st_queued l h) (host_upper_lane st_queued l h) ops n s") auto
  have a: "f_same (ps_db s) (ps_db s1) \<and> (\<forall>b \<in> set ops1. f_write b)"
    using prefixes_f(2) [of st_queued l h] p Cons.prems(2) purge_prefix_f by metis
  show ?case
  proof (cases y)
    case None
    with p Cons.prems(1) have "purge_lanes e h ls ops1 n1 s1 = (x, ops', n', s')" by simp
    with Cons.IH a f_same_trans show ?thesis by blast
  next
    case (Some z)
    with p Cons.prems(1) a show ?thesis by auto
  qed
qed auto

lemma rekey_loop_f:
  "rekey_loop e db h lane src us ops n = Inr (ops', n') \<Longrightarrow> \<forall>b \<in> set ops. f_write b \<Longrightarrow> \<forall>b \<in> set ops'. f_write b"
proof (induction e db h lane src us ops n rule: rekey_loop.induct)
  case (2 e db h lane src u us ops n)
  then show ?case by (auto simp: rekey_ops_def split: if_splits option.splits sum.splits store_err.splits)
qed auto

lemmas push_batch_f0 = push_batch_f [where ops = "[]", simplified] and rekey_loop_f0 = rekey_loop_f [where ops = "[]", simplified]

lemma rekey_batch_f: "rekey_batch e h lane src us n s = (r, s') \<Longrightarrow> f_same (ps_db s) (ps_db s')"
  by (auto simp: rekey_batch_def split: sum.splits dest!: commit_f_same dest: rekey_loop_f0)

lemma rekey_chunks_f: "rekey_chunks e h lane src us n s = (r, s') \<Longrightarrow> f_same (ps_db s) (ps_db s')"
proof (induction e h lane src us n s rule: rekey_chunks.induct)
  case (1 e h lane src us n s)
  show ?case
  proof (cases "us = []")
    case True
    with "1.prems" rekey_chunks.simps [of e h lane src "[]" n s] show ?thesis by simp
  next
    case False
    obtain m x s1 where b: "rekey_batch e h lane src (take 1024 us) n s = ((m, x), s1)"
      by (cases "rekey_batch e h lane src (take 1024 us) n s") auto
    note f = rekey_batch_f [OF b]
    show ?thesis
    proof (cases x)
      case None
      with "1.prems" False b have "rekey_chunks e h lane src (drop 1024 us) m s1 = (r, s')"
        by (simp add: rekey_chunks.simps [of e h lane src us n s])
      with "1.IH" [OF False b [symmetric] HOL.refl None] f f_same_trans show ?thesis by blast
    next
      case (Some y)
      with "1.prems" False b f show ?thesis by (simp add: rekey_chunks.simps [of e h lane src us n s])
    qed
  qed
qed

lemma demote_sweep_f: "demote_sweep e h lane src n s = (r, s') \<Longrightarrow> f_same (ps_db s) (ps_db s')"
  by (auto simp: demote_sweep_def split: sum.splits dest: rekey_chunks_f)

lemma demote_lanes_f: "demote_lanes e h lane ls n s = (r, s') \<Longrightarrow> f_same (ps_db s) (ps_db s')"
proof (induction ls arbitrary: n s)
  case (Cons l ls)
  show ?case
  proof (cases "l = lane")
    case True
    with Cons show ?thesis by simp
  next
    case False
    obtain m x s1 where b: "demote_sweep e h lane (Some l) n s = ((m, x), s1)"
      by (cases "demote_sweep e h lane (Some l) n s") auto
    note f = demote_sweep_f [OF b]
    from Cons.prems False b f Cons.IH [of m s1] f_same_trans show ?thesis by (auto split: option.splits)
  qed
qed simp

lemma cursor_frames [simp]:
  "ps_db (snd (scan_lane_for_free_host e l busy s)) = ps_db s" "ps_db (snd (scan_legacy_for_free_host e busy s)) = ps_db s"
  "ps_db (snd (pick_lane s)) = ps_db s"
  by (auto simp: scan_lane_for_free_host_def scan_legacy_for_free_host_def pick_lane_def Let_def split: option.splits)

lemma try_lanes_frame [simp]: "ps_db (snd (try_lanes e busy ls s)) = ps_db s"
proof (induction ls arbitrary: s)
  case (Cons l ls)
  then show ?case
    using cursor_frames(1) [of e l busy s] by (cases "scan_lane_for_free_host e l busy s") (auto split: option.splits simp del: cursor_frames)
qed simp

lemma pick_row_frame [simp]: "ps_db (snd (pick_row e s)) = ps_db s"
proof -
  obtain c s1 where 1: "pick_lane s = (c, s1)" by fastforce
  obtain p s2 where 2: "try_lanes e (inflight_hosts (ps_db s)) (c # lane_order_without c) s1 = (p, s2)" by fastforce
  obtain q s3 where 3: "scan_legacy_for_free_host e (inflight_hosts (ps_db s)) s2 = (q, s3)" by fastforce
  have "ps_db s1 = ps_db s" "ps_db s2 = ps_db s1" "ps_db s3 = ps_db s2"
    using cursor_frames(3) [of s] try_lanes_frame [of e "inflight_hosts (ps_db s)" "c # lane_order_without c" s1]
      cursor_frames(2) [of e "inflight_hosts (ps_db s)" s2] by (simp_all add: 1 2 3 del: cursor_frames try_lanes_frame try_lanes.simps)
  then show ?thesis using 1 2 3 by (auto simp: pick_row_def Let_def simp del: try_lanes.simps split: option.splits prod.splits)
qed

lemma claim_f_same:
  assumes "claim_frontier e s = (r, s')"
  shows "f_same (ps_db s) (ps_db s')"
proof -
  obtain p s1 where p: "pick_row e s = (p, s1)" by fastforce
  have s1: "ps_db s1 = ps_db s" using pick_row_frame [of e s] by (simp add: p)
  have "f_same (ps_db s1) (ps_db s2)" if "commit e (claim_ops en h u l g) s1 = Inr s2" for en h u l g s2
    by (rule commit_f_same [OF that]) (auto simp: claim_ops_def split: if_splits)
  with assms s1 show ?thesis
    by (auto simp: claim_frontier_def p Let_def split: if_splits option.splits sum.splits prod.splits)
qed

theorem frontier_step_frame: "frontier_step s ev s' \<Longrightarrow> f_same (ps_db s) (ps_db s')"
proof (induction rule: frontier_step.induct)
  case (push u depth e pri lane s r s')
  then show ?case by (auto simp: push_frontier_lane_def Let_def split: if_splits sum.splits intro: commit_f_same dest: push_ops_f)
next
  case (batch its e s n x s')
  then show ?case by (auto simp: push_frontier_batch_def split: if_splits sum.splits dest!: commit_f_same dest: push_batch_f0)
next
  case (claim e s r s')
  then show ?case by (rule claim_f_same)
next
  case (recover e s r s')
  then show ?case
    by (auto simp: recover_in_flight_def split: if_splits sum.splits dest!: commit_f_same recover_loop_f dest: kv_keys_f)
next
  case (sweep e s r s')
  then show ?case
    by (auto simp: purge_stale_in_flight_def split: if_splits sum.splits dest!: commit_f_same stale_loop_f dest: kv_keys_f)
next
  case (purge h e s n s')
  obtain x ops m s1 where p: "purge_prefix e (host_prefix st_queued h) (host_upper st_queued h) [] 0 s = (x, ops, m, s1)"
    by (cases "purge_prefix e (host_prefix st_queued h) (host_upper st_queued h) [] 0 s") auto
  have a: "f_same (ps_db s) (ps_db s1) \<and> (\<forall>b \<in> set ops. f_write b)"
    using prefixes_f(1) [of st_queued h] p purge_prefix_f [of e _ _ "[]" 0 s] by (metis empty_iff empty_set)
  obtain y ops2 m2 s2 where q: "purge_lanes e h [0..<lane_count] ops m s1 = (y, ops2, m2, s2)"
    by (cases "purge_lanes e h [0..<lane_count] ops m s1") auto
  have b: "f_same (ps_db s1) (ps_db s2) \<and> (\<forall>b \<in> set ops2. f_write b)" using purge_lanes_f [OF q] a by blast
  from purge(2) p q a b show ?case
    by (auto simp: purge_frontier_by_host_def split: if_splits option.splits sum.splits dest!: commit_f_same intro: f_same_trans)
next
  case (demote h lane e s n s')
  obtain m x s1 where b: "demote_sweep e h lane None 0 s = ((m, x), s1)" by (cases "demote_sweep e h lane None 0 s") auto
  from demote(3) b demote_sweep_f [OF b] show ?case
    by (auto simp: demote_host_to_lane_def split: if_splits option.splits dest!: demote_lanes_f intro: f_same_trans)
next
  case (clear e ok s r s')
  then show ?case by (auto simp: clear_frontier_def split: if_splits sum.splits intro: commit_f_same)
qed (auto simp: complete_frontier_def fail_frontier_def recrawl_url_def Let_def dest: transition_f_same)

end
