(* ===== verification/DocLife.thy ===== *)
theory DocLife
  imports DocWrite DocFrame
begin

text \<open>Deletion, the corpus counters, reopening and the frontier's own steps keep the invariant.\<close>

section \<open>Deletion\<close>

text \<open>A document leaves; the side families of the others, and every posting, stay.\<close>

definition removed :: "int \<Rightarrow> bytes \<Rightarrow> bytes kv \<Rightarrow> bytes kv \<Rightarrow> bool" where
  "removed i raw db db' =
     (fmlookup db' (doc_key i) = None \<and> fmlookup db' (url_key raw) = None \<and> fmlookup db' (doc_meta_key i) = None
      \<and> (\<forall>u. u \<noteq> raw \<longrightarrow> fmlookup db' (url_key u) = fmlookup db (url_key u))
      \<and> (\<forall>j. is_id j \<longrightarrow> j \<noteq> i \<longrightarrow> fmlookup db' (doc_key j) = fmlookup db (doc_key j) \<and> fmlookup db' (doc_meta_key j) = fmlookup db (doc_meta_key j))
      \<and> (\<forall>k. fmlookup db' k \<noteq> None \<longrightarrow> fam ''duihl'' k \<longrightarrow> fmlookup db' k = fmlookup db k)
      \<and> (\<forall>k. \<not> fam ''duihlm'' k \<longrightarrow> fmlookup db' k = fmlookup db k)
      \<and> (\<forall>n. n \<noteq> ''sum_doc_len'' \<longrightarrow> n \<noteq> ''indexed_docs'' \<longrightarrow> meta_at db' n = meta_at db n))"

lemma delete_ops_writes:
  assumes "b \<in> set (delete_ops uh i raw had @ count_ops lsum cnt)"
  shows "b = BDel (doc_key i) \<or> b = BDel (url_key raw) \<or> b = BDel (host_key (uh raw) i) \<or> b = BDel (doc_meta_key i)
    \<or> b = BDel (doc_len_key i) \<or> b = BSet (store_meta_key ''sum_doc_len'') (enc64 lsum) \<or> b = BSet (store_meta_key ''indexed_docs'') (enc64 cnt)"
  using assms by (auto simp: delete_ops_def count_ops_def split: if_splits)

lemma delete_untouched:
  assumes "\<And>b. b \<in> {BDel (doc_key i), BDel (url_key raw), BDel (host_key (uh raw) i), BDel (doc_meta_key i), BDel (doc_len_key i),
      BSet (store_meta_key ''sum_doc_len'') (enc64 lsum), BSet (store_meta_key ''indexed_docs'') (enc64 cnt)} \<Longrightarrow> \<not> touches b k"
  shows "fmlookup (apply_batch (delete_ops uh i raw had @ count_ops lsum cnt) db) k = fmlookup db k"
  by (rule lookup_batch_untouched, rule assms, drule delete_ops_writes) (simp only: insert_iff empty_iff simp_thms)

lemma delete_deletes:
  assumes "BDel k \<in> set (delete_ops uh i raw had)" "\<not> fam ''m'' k"
  shows "fmlookup (apply_batch (delete_ops uh i raw had @ count_ops lsum cnt) db) k = None"
proof (rule batch_del_in)
  show "BDel k \<in> set (delete_ops uh i raw had @ count_ops lsum cnt)" using assms(1) by simp
  fix b assume b: "b \<in> set (delete_ops uh i raw had @ count_ops lsum cnt)" "touches b k"
  from delete_ops_writes [OF b(1)] b(2) assms(2) show "b = BDel k" by (elim disjE) auto
qed

lemma delete_removed:
  assumes i: "is_id i" and raw: "raw \<noteq> []"
  shows "removed i raw db (apply_batch (delete_ops uh i raw had @ count_ops lsum cnt) db)"
proof -
  define D where "D = apply_batch (delete_ops uh i raw had @ count_ops lsum cnt) db"
  note same = delete_untouched [of i raw uh lsum cnt _ had db, folded D_def]
  note gone = delete_deletes [of _ uh i raw had lsum cnt db, folded D_def]
  have 1: "fmlookup D (doc_key i) = None" "fmlookup D (url_key raw) = None" "fmlookup D (doc_meta_key i) = None"
    by (rule gone; simp add: delete_ops_def raw)+
  have 4: "fmlookup D (url_key u) = fmlookup db (url_key u)" if "u \<noteq> raw" for u
    by (rule same) (use that in \<open>auto simp: doc_key_defs\<close>)
  have 5: "fmlookup D (doc_key j) = fmlookup db (doc_key j)" "fmlookup D (doc_meta_key j) = fmlookup db (doc_meta_key j)"
    if "is_id j" "j \<noteq> i" for j
  proof -
    show "fmlookup D (doc_key j) = fmlookup db (doc_key j)" by (rule same) (use that i in \<open>auto simp: doc_key_defs\<close>)
    show "fmlookup D (doc_meta_key j) = fmlookup db (doc_meta_key j)" by (rule same) (use that i in \<open>auto simp: doc_key_defs\<close>)
  qed
  have 6: "fmlookup D k = fmlookup db k" if k: "fmlookup D k \<noteq> None" "fam ''duihl'' k" for k
  proof (cases "BDel k \<in> set (delete_ops uh i raw had)")
    case True
    with k(2) have "fmlookup D k = None" by (intro gone) (auto simp: fam_def)
    with k(1) show ?thesis by simp
  next
    case False
    show ?thesis unfolding D_def
    proof (rule lookup_batch_untouched)
      fix b assume b: "b \<in> set (delete_ops uh i raw had @ count_ops lsum cnt)"
      show "\<not> touches b k"
      proof
        assume "touches b k"
        with delete_ops_writes [OF b] k(2) have "b = BDel k" by (elim disjE) auto
        with b False show False by (simp add: count_ops_def)
      qed
    qed
  qed
  have 7: "fmlookup D k = fmlookup db k" if "\<not> fam ''duihlm'' k" for k
    by (rule same) (use that in auto)
  have 8: "meta_at D n = meta_at db n" if "n \<noteq> ''sum_doc_len''" "n \<noteq> ''indexed_docs''" for n
  proof -
    have "fmlookup D (store_meta_key n) = fmlookup db (store_meta_key n)"
      by (rule same) (use that in \<open>auto simp: doc_key_defs\<close>)
    then show ?thesis by (simp add: meta_at_def)
  qed
  show ?thesis unfolding removed_def D_def [symmetric]
    by (intro conjI allI impI 1 4 5 6 7 8)
qed

lemma removed_keeps:
  assumes inv: "db_inv g db" and r: "removed i raw db D" and i: "is_id i" and u: "fmlookup db (url_key raw) = Some (enc64 i)"
  shows "db_inv g D \<and> stored_id D = stored_id db \<and> stored_term D = stored_term db"
proof -
  note a = inv [unfolded db_inv_def] and rm = r [unfolded removed_def]
  have docs: "docs_ok g db" using a by simp
  have gone: "fmlookup D (doc_key i) = None" "fmlookup D (url_key raw) = None" "fmlookup D (doc_meta_key i) = None"
    and urls: "\<And>u. u \<noteq> raw \<Longrightarrow> fmlookup D (url_key u) = fmlookup db (url_key u)"
    and rest: "\<And>j. is_id j \<Longrightarrow> j \<noteq> i \<Longrightarrow> fmlookup D (doc_key j) = fmlookup db (doc_key j)"
      "\<And>j. is_id j \<Longrightarrow> j \<noteq> i \<Longrightarrow> fmlookup D (doc_meta_key j) = fmlookup db (doc_meta_key j)"
    using rm by simp_all
  obtain d0 where d0: "doc_at g db i = Some d0" "doc_url d0 = raw" using docs_okD(1) [OF docs u] i by auto
  have m: "stored_id D = stored_id db" "stored_term D = stored_term db" using rm by simp_all
  have same: "same_on (fam cs) db D" if "set cs \<inter> set ''duihlm'' = {}" for cs
    unfolding same_on_def
  proof (intro allI impI)
    fix k assume "fam cs k"
    with that have "\<not> fam ''duihlm'' k" by (auto simp: fam_def)
    with rm show "fmlookup D k = fmlookup db k" by blast
  qed
  have da: "doc_at g D j = doc_at g db j" if "is_id j" "j \<noteq> i" for j using rest that by (simp add: doc_at_def)
  have "docs_ok g D" unfolding docs_ok_def
  proof (intro conjI allI impI)
    fix u v assume lu: "fmlookup D (url_key u) = Some v"
    then have ne: "u \<noteq> raw" using gone(2) by auto
    with lu have "fmlookup db (url_key u) = Some v" using urls by simp
    from docs_okD(1) [OF docs this] obtain j d where j: "u \<noteq> []" "is_id j" "v = enc64 j" "doc_at g db j = Some d" "doc_url d = u" "doc_id d = j"
      "fmlookup db (doc_meta_key j) = Some (pack_doc_meta u (doc_title d))" by blast
    have ji: "j \<noteq> i" using j(4,5) d0 ne by auto
    show "u \<noteq> []" by (rule j(1))
    show "\<exists>i d. is_id i \<and> v = enc64 i \<and> doc_at g D i = Some d \<and> doc_url d = u \<and> doc_id d = i
        \<and> fmlookup D (doc_meta_key i) = Some (pack_doc_meta u (doc_title d))"
      using j da [OF j(2) ji] rest(2) [OF j(2) ji] by (intro exI [of _ j] exI [of _ d]) simp
  next
    fix j assume j: "is_id j" "fmlookup D (doc_key j) \<noteq> None"
    then have ne: "j \<noteq> i" using gone(1) by auto
    from j have "fmlookup db (doc_key j) \<noteq> None" using rest(1) ne by simp
    from docs_okD(2) [OF docs j(1) this] obtain d where d: "doc_at g db j = Some d" "fmlookup db (url_key (doc_url d)) = Some (enc64 j)" by blast
    have "doc_url d \<noteq> raw" using d(2) u ne i j(1) by auto
    then show "\<exists>d. doc_at g D j = Some d \<and> fmlookup D (url_key (doc_url d)) = Some (enc64 j)"
      using da [OF j(1) ne] urls d by (intro exI [of _ d]) simp
  next
    fix j assume j: "is_id j" "fmlookup D (doc_meta_key j) \<noteq> None"
    then have ne: "j \<noteq> i" using gone(3) by auto
    from j have "fmlookup db (doc_meta_key j) \<noteq> None" using rest(2) ne by simp
    then show "fmlookup D (doc_key j) \<noteq> None" using docs_okD(3) [OF docs j(1)] rest(1) [OF j(1) ne] by simp
  qed
  moreover have "ids_ok D" unfolding ids_ok_def m
  proof (intro conjI allI impI)
    fix c r assume k: "fmlookup D (c # r) \<noteq> None" "c \<in> {CHR ''d'', CHR ''i'', CHR ''l'', CHR ''g''}"
    have "fmlookup D (c # r) = fmlookup db (c # r)"
    proof (cases "c = CHR ''g''")
      case True
      then show ?thesis using same_onD [OF same [of "''g''"], of "c # r"] by simp
    next
      case False
      with k have "fam ''duihl'' (c # r)" by auto
      with rm k(1) show ?thesis by blast
    qed
    with k show "\<exists>i. is_id i \<and> i \<le> stored_id db \<and> r = enc64 i" using ids_okD(1) [of db c r] a by simp
  next
    fix r assume k: "fmlookup D (CHR ''p'' # r) \<noteq> None"
    have "fmlookup D (CHR ''p'' # r) = fmlookup db (CHR ''p'' # r)" by (rule same_onD [OF same [of "''p''"]]) simp_all
    with k show "\<exists>t i. is_id t \<and> t \<le> stored_term db \<and> is_id i \<and> i \<le> stored_id db \<and> r = enc64 t @ enc64 i"
      using ids_okD(2) [of db r] a by simp
  qed (use a in \<open>simp_all add: ids_ok_def\<close>)
  moreover have "terms_ok D" by (rule terms_ok_mono [OF _ same]) (use a in \<open>simp_all add: m terms_ok_def\<close>)
  moreover have "postings_ok D"
  proof -
    note v = view_cong [OF same [of "''tgp''"]] and l = same_onD [OF same [of "''tgp''"]]
    have dl: "fmlookup D (doc_len_key j) = Some n \<Longrightarrow> fmlookup db (doc_len_key j) = Some n" for j n
      using rm [THEN conjunct2, THEN conjunct2, THEN conjunct2, THEN conjunct2, THEN conjunct2, THEN conjunct1, rule_format, of "doc_len_key j"] by simp
    have "postings_ok db" using a by simp
    then show ?thesis unfolding postings_ok_def by (simp add: v l) (meson dl)
  qed
  moreover have "freqs_ok D" using freqs_ok_cong [OF same] a by simp
  ultimately show ?thesis using m by (simp add: db_inv_def)
qed

lemma get_doc_meta_view: "get_doc_meta e db i = Inr m \<Longrightarrow> (m = None) = (fmlookup db (doc_meta_key i) = None)"
  by (auto simp: get_doc_meta_def split: if_splits option.splits sum.splits)

lemma mirror_counts_simps [simp]:
  "ds_db (mirror_counts lsum cnt s) = ds_db s" "ds_next_id (mirror_counts lsum cnt s) = ds_next_id s"
  by (simp_all add: mirror_counts_def)

lemma soft_delete_cases:
  assumes "soft_delete_document uh e i raw s = (r, s')"
  obtains (kept) "s' = s" "r \<noteq> Inr True"
  | (deleted) had lsum cnt where "r = Inr True" "fmlookup (ds_db s) (doc_meta_key i) \<noteq> None"
      "read_doc_len (de_env e) (ds_db s) i = Inr had"
      "s' = mirror_counts lsum cnt (with_db (apply_batch (delete_ops uh i raw (had \<noteq> None) @ count_ops lsum cnt) (ds_db s)) s)"
      "lsum = (case had of None \<Rightarrow> fst (corpus_counters (de_env e) s) | Some l \<Rightarrow> max 0 (i64 (fst (corpus_counters (de_env e) s) - l)))"
      "cnt = max 0 (i64 (snd (corpus_counters (de_env e) s) - 1))"
proof (cases "r = Inr True")
  case False
  with assms have "s' = s" by (auto simp: soft_delete_document_def Let_def split: if_splits sum.splits option.splits prod.splits)
  with False show thesis by (intro kept)
next
  case True
  obtain sum0 cnt0 where c: "corpus_counters (de_env e) s = (sum0, cnt0)" by fastforce
  obtain m where m: "get_doc_meta (de_env e) (ds_db s) i = Inr (Some m)"
    using assms True by (auto simp: soft_delete_document_def split: if_splits sum.splits option.splits)
  obtain had where h: "read_doc_len (de_env e) (ds_db s) i = Inr had"
    using assms True m by (auto simp: soft_delete_document_def split: if_splits sum.splits)
  from assms True m h c have ne: "\<not> ctx_err (de_env e)" "\<not> commit_err (de_env e)"
    by (auto simp: soft_delete_document_def Let_def split: if_splits)
  define lsum where "lsum = (case had of None \<Rightarrow> sum0 | Some l \<Rightarrow> max 0 (i64 (sum0 - l)))"
  define cnt where "cnt = max 0 (i64 (cnt0 - 1))"
  have s': "s' = mirror_counts lsum cnt (with_db (apply_batch (delete_ops uh i raw (had \<noteq> None) @ count_ops lsum cnt) (ds_db s)) s)"
    using assms m h c ne unfolding soft_delete_document_def lsum_def cnt_def by (simp add: Let_def)
  show thesis
    by (rule deleted [OF True _ h s']) (use get_doc_meta_view [OF m] in \<open>simp_all add: c lsum_def cnt_def split: option.splits\<close>)
qed

lemma soft_delete_keeps:
  assumes run: "soft_delete_document uh e i raw s = (r, s')" and inv: "doc_inv g s"
    and i: "is_id i" and u: "url_at (ds_db s) raw = Some i"
  shows "doc_inv g s'"
  using run
proof (cases rule: soft_delete_cases)
  case kept
  with inv show ?thesis by simp
next
  case (deleted had lsum cnt)
  have d: "docs_ok g (ds_db s)" and db: "db_inv g (ds_db s)" using inv by (simp_all add: doc_inv_def db_inv_def)
  obtain v where v: "fmlookup (ds_db s) (url_key raw) = Some v" "i = dec64 v" using u by (auto simp: url_at_def)
  with docs_okD(1) [OF d v(1)] have v': "raw \<noteq> []" "fmlookup (ds_db s) (url_key raw) = Some (enc64 i)" by auto
  note removed_keeps [OF db delete_removed [OF i v'(1)] i v'(2), of uh "had \<noteq> None" lsum cnt]
  with inv deleted(4) show ?thesis by (simp add: doc_inv_db)
qed

section \<open>Counters\<close>

lemma corpus_stats_keeps: "corpus_stats e s = (r, s') \<Longrightarrow> doc_inv g s \<Longrightarrow> doc_inv g s'"
  by (auto simp: corpus_stats_def doc_inv_db split: if_splits prod.splits)

lemma doc_stats_keeps: "doc_stats e s = (r, s') \<Longrightarrow> doc_inv g s \<Longrightarrow> doc_inv g s'"
  by (auto simp: doc_stats_def doc_inv_def Let_def split: if_splits option.splits prod.splits)

lemma count_ops_same: "same_on (\<lambda>k. k \<noteq> store_meta_key ''sum_doc_len'' \<and> k \<noteq> store_meta_key ''indexed_docs'') db (apply_batch (count_ops lsum cnt) db)"
  by (auto simp: same_on_def count_ops_def)

text \<open>Rows that no part of the invariant reads may change.\<close>

definition inert :: "bytes \<Rightarrow> bool" where
  "inert k = (\<not> fam ''duiltpg'' k \<and> k \<noteq> store_meta_key ''next_doc_id'' \<and> k \<noteq> store_meta_key ''next_term_id'')"

lemma inert_keeps:
  assumes inv: "db_inv g db" and s: "same_on (\<lambda>k. \<not> inert k) db db'"
  shows "db_inv g db' \<and> stored_id db' = stored_id db \<and> stored_term db' = stored_term db"
proof -
  have sf: "same_on (fam cs) db db'" if "set cs \<subseteq> set ''duiltpg''" for cs
    by (rule same_on_weaken [OF s]) (use that in \<open>auto simp: inert_def fam_def\<close>)
  have m: "stored_id db' = stored_id db" "stored_term db' = stored_term db"
    by (rule view_cong(7) [OF s]; simp add: inert_def)+
  note a = inv [unfolded db_inv_def]
  have "docs_ok g db'" using docs_ok_cong [OF sf [of "''dui''"]] a by simp
  moreover have "ids_ok db'" by (rule ids_ok_mono [OF _ sf [of "''dilgp''"]]) (use a m in \<open>simp_all add: ids_ok_def\<close>)
  moreover have "terms_ok db'" by (rule terms_ok_mono [OF _ sf]) (use a m in \<open>simp_all add: terms_ok_def\<close>)
  moreover have "postings_ok db'" using postings_ok_cong [OF sf] a by simp
  moreover have "freqs_ok db'" using freqs_ok_cong [OF sf] a by simp
  ultimately show ?thesis using m by (simp add: db_inv_def)
qed

lemma bootstrap_keeps:
  assumes "bootstrap_corpus_stats e s = (r, s')" "doc_inv g s"
  shows "doc_inv g s'"
proof -
  have "same_on (\<lambda>k. \<not> inert k) (ds_db s) (apply_batch (count_ops lsum cnt) (ds_db s))" for lsum cnt
    by (rule same_on_weaken [OF count_ops_same]) (auto simp: inert_def store_meta_key_def)
  note inert_keeps [OF _ this]
  with assms show ?thesis
    by (auto simp: bootstrap_corpus_stats_def doc_inv_db split: if_splits sum.splits prod.splits)
qed

section \<open>Reopening\<close>

text \<open>The counter read back is at least the one recorded with the last document.\<close>

lemma family_doc: "family db (CHR ''d'') = kv_keys db ''d'' ''e''"
proof -
  have "char_of (byte_val (CHR ''d'') + 1) = CHR ''e''" by code_simp
  then show ?thesis by (simp add: family_def)
qed

lemma family_doc_id:
  assumes "ids_ok db" "k \<in> set (family db (CHR ''d''))"
  shows "\<exists>i. is_id i \<and> i \<le> stored_id db \<and> k = doc_key i"
proof -
  have "fmlookup db k \<noteq> None" "''d'' \<le> k" "k < ''e''" using assms(2) by (auto simp: family_doc set_kv_keys)
  moreover from this(2,3) obtain r where "k = CHR ''d'' # r" using prefix_range_cons [of "CHR ''e''" "CHR ''d''" k] by auto
  ultimately show ?thesis using ids_okD(1) [OF assms(1), of "CHR ''d''" r] by (auto simp: doc_key_def)
qed

lemma recovered_next_id_spec:
  assumes "recovered_next_id e db = Inr n" "ids_ok db"
  shows "n = stored_id db"
proof -
  have m: "read_meta e db ''next_doc_id'' = stored_id db" using assms(1)
    by (auto simp: recovered_next_id_def read_meta_def meta_at_def split: if_splits)
  have "dec64 (drop 1 k) \<le> stored_id db" if "k \<in> set (family db (CHR ''d''))" for k
    using family_doc_id [OF assms(2) that] by (auto simp: doc_key_def)
  then have "rev (family db (CHR ''d'')) = k # ks \<Longrightarrow> dec64 (drop 1 k) \<le> stored_id db" for k ks
    by (metis list.set_intros(1) set_rev)
  with assms(1) m show ?thesis by (auto simp: recovered_next_id_def Let_def split: if_splits list.splits)
qed

lemma open_store_keeps:
  assumes "open_store e db = Inr s" "db_inv g db"
  shows "doc_inv g s" "ds_db s = db" "ds_next_id s = stored_id db"
proof -
  obtain n where n: "recovered_next_id e db = Inr n" using assms(1) by (auto simp: open_store_def split: sum.splits)
  have "ids_ok db" using assms(2) by (simp add: db_inv_def)
  note nid = recovered_next_id_spec [OF n this] and lt = ids_okD(4) [OF this]
  show "ds_db s = db" "ds_next_id s = stored_id db" using assms(1) n nid by (auto simp: open_store_def split: if_splits)
  with assms(2) lt show "doc_inv g s" by (simp add: doc_inv_db)
qed

section \<open>Steps of the frontier\<close>

lemma frontier_lift_keeps:
  assumes "frontier_step (ds_pebble s) ev p'" "doc_inv g s"
  shows "doc_inv g (s\<lparr>ds_pebble := p'\<rparr>)"
proof -
  have "same_on (\<lambda>k. \<not> fam ''f'' k) (ds_db s) (ps_db p')" using frontier_step_frame [OF assms(1)] by (simp add: f_same_def)
  from same_keeps [OF _ this] assms(2) show ?thesis by (auto simp: doc_inv_db)
qed

end
