(* ===== verification/DocBatch.thy ===== *)
theory DocBatch
  imports DocLife
begin

text \<open>\<open>UpsertDocumentBatch\<close> writes what the same calls of \<open>UpsertDocument\<close> write, one after the other.\<close>

section \<open>Commuting writes\<close>

lemma apply_bop_fmupd: "\<not> touches b k \<Longrightarrow> apply_bop b (fmupd k v db) = fmupd k v (apply_bop b db)"
  by (rule fmap_ext) (cases b; auto)

lemma apply_batch_fmupd:
  "(\<And>b. b \<in> set bs \<Longrightarrow> \<not> touches b k) \<Longrightarrow> apply_batch bs (fmupd k v db) = fmupd k v (apply_batch bs db)"
proof (induction bs arbitrary: db)
  case (Cons b bs)
  have "apply_batch bs (fmupd k v (apply_bop b db)) = fmupd k v (apply_batch bs (apply_bop b db))" by (rule Cons.IH) (simp add: Cons.prems)
  moreover have "apply_bop b (fmupd k v db) = fmupd k v (apply_bop b db)" by (rule apply_bop_fmupd) (simp add: Cons.prems)
  ultimately show ?case by simp
qed simp

lemma fmupd_again [simp]: "fmupd k v (fmupd k w db) = fmupd k v db"
  by (rule fmap_ext) simp

lemma doc_ops_quiet:
  assumes "doc_ops g d i = Inr ops" "b \<in> set ops"
  shows "\<not> touches b (store_meta_key n)"
proof -
  from doc_ops_writes [OF assms(1)] obtain b0 where "b = BSet (doc_key i) b0 \<or> b = BSet (url_key (doc_url d)) (enc64 i)
      \<or> b = BSet (doc_meta_key i) (pack_doc_meta (doc_url d) (doc_title d))
      \<or> doc_domain d \<noteq> [] \<and> b = BSet (host_key (doc_domain d) i) []
      \<or> length (doc_sha d) = 32 \<and> b = BSet (content_sha_key (doc_sha d) i) []" using assms(2) by blast
  then show ?thesis by (elim disjE conjE) simp_all
qed

text \<open>The counter record of a batch moves past the rows of later documents.\<close>

lemma batch_append_doc:
  assumes ops: "doc_ops g d i = Inr dops" and q: "\<And>b. b \<in> set ops \<Longrightarrow> \<not> touches b (store_meta_key ''next_doc_id'')" and n: "new \<Longrightarrow> n < i \<and> 0 < i"
  shows "apply_batch (dops @ next_doc_ops new i) (apply_batch (ops @ next_doc_ops (0 < n) n) db)
    = apply_batch ((ops @ dops) @ next_doc_ops (0 < (if new \<and> n < i then i else n)) (if new \<and> n < i then i else n)) db"
proof -
  have c: "apply_batch dops (fmupd (store_meta_key ''next_doc_id'') v X) = fmupd (store_meta_key ''next_doc_id'') v (apply_batch dops X)" for v X
    by (rule apply_batch_fmupd) (rule doc_ops_quiet [OF ops])
  define M where "M = (\<lambda>(v :: bytes) (X :: bytes kv). fmupd (store_meta_key ''next_doc_id'') v X)"
  have nd: "apply_batch (next_doc_ops b v) X = (if b then M (enc64 v) X else X)" for b v X by (simp add: next_doc_ops_def M_def)
  have cM: "apply_batch dops (M v X) = M v (apply_batch dops X)" for v X using c by (simp add: M_def)
  have mm: "M v (M w X) = M v X" for v w X by (simp add: M_def)
  show ?thesis
  proof (cases new)
    case True
    with n have "n < i" "0 < i" by simp_all
    with True show ?thesis by (simp add: nd cM mm)
  next
    case False
    then show ?thesis by (simp add: nd cM)
  qed
qed

section \<open>The sequence\<close>

fun upsert_each :: "gob \<Rightarrow> doc_env \<Rightarrow> document list \<Rightarrow> doc_store \<Rightarrow> (doc_err + int list) \<times> doc_store" where
  "upsert_each g e [] s = (Inr [], s)"
| "upsert_each g e (d # ds) s = (case upsert_document g e d s of (Inl x, s1) \<Rightarrow> (Inl x, s1)
     | (Inr i, s1) \<Rightarrow> (case upsert_each g e ds s1 of (Inl x, s2) \<Rightarrow> (Inl x, s2) | (Inr ids, s2) \<Rightarrow> (Inr (i # ids), s2)))"

lemma upsert_each_keeps:
  assumes "upsert_each g e ds s = (r, s')" "doc_inv g s" "gob_ok g" "ds_next_id s + int (length ds) < 2 ^ 63"
  shows "doc_inv g s'"
  using assms
proof (induction ds arbitrary: s r s')
  case (Cons d ds)
  obtain q s1 where q: "upsert_document g e d s = (q, s1)" by fastforce
  have i1: "doc_inv g s1" using upsert_document_keeps [OF q Cons.prems(2,3)] Cons.prems(4) by simp
  have n1: "ds_next_id s1 \<le> ds_next_id s + 1"
  proof -
    obtain p s0 where p: "resolve_id (de_env e) (doc_url d) s = (p, s0)" by fastforce
    have "ds_next_id s0 \<le> ds_next_id s + 1" using resolve_id_spec [OF p Cons.prems(2)] Cons.prems(4) by simp
    then show ?thesis using q p by (auto simp: upsert_document_def split: if_splits sum.splits)
  qed
  obtain p s2 where p: "upsert_each g e ds s1 = (p, s2)" by fastforce
  have "doc_inv g s2" by (rule Cons.IH [OF p i1 Cons.prems(3)]) (use n1 Cons.prems(4) in simp)
  with Cons.prems(1) q p i1 show ?case by (auto split: sum.splits)
qed simp

text \<open>The state of the loop beside the state of the sequence.\<close>

definition batch_pending :: "env \<Rightarrow> (bytes, int) fmap \<Rightarrow> int \<Rightarrow> bytes bop list \<Rightarrow> doc_store \<Rightarrow> doc_store \<Rightarrow> bool" where
  "batch_pending e seen n ops s t =
     (t = with_db (apply_batch (ops @ next_doc_ops (0 < n) n) (ds_db s)) s \<and> n \<le> ds_next_id s
      \<and> (\<forall>b \<in> set ops. \<not> touches b (store_meta_key ''next_doc_id''))
      \<and> (\<forall>u. fmlookup seen u = None \<longrightarrow> fmlookup (ds_db t) (url_key u) = fmlookup (ds_db s) (url_key u))
      \<and> (\<forall>u i. fmlookup seen u = Some i \<longrightarrow> is_id i \<and> fmlookup (ds_db t) (url_key u) = Some (enc64 i) \<and> \<not> get_err e (url_key u)))"

text \<open>The id that a document of the loop gets is the one the sequence resolves.\<close>

definition loop_id :: "env \<Rightarrow> (bytes, int) fmap \<Rightarrow> bytes \<Rightarrow> doc_store \<Rightarrow> (doc_err + int \<times> bool) \<times> doc_store" where
  "loop_id e seen u s = (let known = (case fmlookup seen u of None \<Rightarrow> 0 | Some i \<Rightarrow> i) in
     if known \<noteq> 0 then (Inr (known, False), s) else resolve_id e u s)"

lemma loop_id_resolves:
  assumes run: "loop_id e seen u s = (Inr (i, new), s1)" and st: "batch_pending e seen n ops s t" and inv: "doc_inv g t"
    and room: "ds_next_id s + 1 < 2 ^ 63"
  shows "resolve_id e u t = (Inr (i, new), with_db (ds_db t) s1) \<and> ds_db s1 = ds_db s \<and> ds_next_id s \<le> ds_next_id s1
    \<and> ds_next_id s1 \<le> ds_next_id s + 1 \<and> (new \<longrightarrow> n < i \<and> i = ds_next_id s1) \<and> is_id i \<and> \<not> get_err e (url_key u)"
proof -
  have t: "t = with_db (ds_db t) s" and n: "n \<le> ds_next_id s" using st by (simp_all add: batch_pending_def)
  have nt: "ds_next_id t = ds_next_id s" by (subst t) simp
  have "0 \<le> ds_next_id s" using inv nt ids_okD(3) [of "ds_db t"] by (auto simp: doc_inv_def)
  then have ii: "i64 (ds_next_id s + 1) = ds_next_id s + 1" using room by (intro i64_id) (simp add: is_i64_def)
  show ?thesis
  proof (cases "fmlookup seen u")
    case (Some j)
    then have j: "is_id j" "fmlookup (ds_db t) (url_key u) = Some (enc64 j)" "\<not> get_err e (url_key u)"
      using st unfolding batch_pending_def by blast+
    then have "j \<noteq> 0" by (simp add: is_id_def)
    then have "i = j" "\<not> new" "s1 = s" using run Some by (simp_all add: loop_id_def)
    moreover have "lookup_id e (ds_db t) u = Inr (Some j)" using j
      by (simp add: lookup_id_def lookup_id_by_url_def) (simp flip: dec64_def)
    ultimately show ?thesis using j t by (simp add: resolve_id_def)
  next
    case None
    then have lk: "fmlookup (ds_db t) (url_key u) = fmlookup (ds_db s) (url_key u)" using st unfolding batch_pending_def by blast
    have run': "resolve_id e u s = (Inr (i, new), s1)" using run None by (simp add: loop_id_def)
    have l: "lookup_id e (ds_db t) u = lookup_id e (ds_db s) u" by (simp add: lookup_id_def lookup_id_by_url_def lk)
    have ge: "\<not> get_err e (url_key u)" using run' by (auto simp: resolve_id_def lookup_id_def lookup_id_by_url_def split: if_splits)
    have res: "resolve_id e u t = (Inr (i, new), with_db (ds_db t) s1)" using run' nt unfolding resolve_id_def l
      by (subst (2 3 4) t) (auto simp: Let_def with_db_def split: sum.splits option.splits)
    from resolve_id_spec [OF res inv] room nt have "is_id i" by (simp add: id_for_def)
    with res ge run' n ii show ?thesis by (auto simp: resolve_id_def Let_def split: sum.splits option.splits)
  qed
qed

lemma batch_pending_step:
  assumes st: "batch_pending e seen n ops s t" and inv: "doc_inv g t" and g: "gob_ok g"
    and run: "loop_id e seen (doc_url d) s = (Inr (i, new), s1)" and dops: "doc_ops g (d\<lparr>doc_id := i\<rparr>) i = Inr dops"
    and room: "ds_next_id s + 1 < 2 ^ 63" and t': "t' = with_db (apply_batch (dops @ next_doc_ops new i) (ds_db t)) s1"
    and seen': "fmlookup seen' = (fmlookup seen)(doc_url d := Some i)"
  shows "batch_pending e seen' (if new \<and> n < i then i else n) (ops @ dops) s1 t'"
proof -
  note li = loop_id_resolves [OF run st inv room]
  have i: "is_id i" and ge: "\<not> get_err e (url_key (doc_url d))" and db1: "ds_db s1 = ds_db s" using li by blast+
  have q: "\<not> touches b (store_meta_key ''next_doc_id'')" if "b \<in> set ops" for b using st that by (simp add: batch_pending_def)
  have nn: "n < i \<and> 0 < i" if new using li that i by (simp add: is_id_def)
  have tdb: "ds_db t = apply_batch (ops @ next_doc_ops (0 < n) n) (ds_db s)" using st unfolding batch_pending_def by (metis with_db_simps(1))
  have db': "ds_db t' = apply_batch ((ops @ dops) @ next_doc_ops (0 < (if new \<and> n < i then i else n)) (if new \<and> n < i then i else n)) (ds_db s1)"
    unfolding t' tdb db1 with_db_simps(1) by (rule batch_append_doc [OF dops q nn])
  obtain b0 where "upserted (d\<lparr>doc_id := i\<rparr>) i b0 (ds_db t) (ds_db t')"
    using doc_batch_upserted [OF dops i, of "ds_db t" new i] by (auto simp: t')
  then have u: "fmlookup (ds_db t') (url_key (doc_url d)) = Some (enc64 i)"
    "\<And>u. u \<noteq> doc_url d \<Longrightarrow> fmlookup (ds_db t') (url_key u) = fmlookup (ds_db t) (url_key u)"
    by (simp_all add: upserted_def)
  show ?thesis unfolding batch_pending_def
  proof (intro conjI allI impI ballI)
    show "t' = with_db (apply_batch ((ops @ dops) @ next_doc_ops (0 < (if new \<and> n < i then i else n)) (if new \<and> n < i then i else n)) (ds_db s1)) s1"
      using db' unfolding t' by simp
    show "(if new \<and> n < i then i else n) \<le> ds_next_id s1" using li st by (auto simp: batch_pending_def)
    show "\<not> touches b (store_meta_key ''next_doc_id'')" if "b \<in> set (ops @ dops)" for b
      using that q doc_ops_quiet [OF dops] by auto
    fix u assume "fmlookup seen' u = None"
    then have ne: "u \<noteq> doc_url d" and s: "fmlookup seen u = None" by (auto simp: seen' split: if_splits)
    have "fmlookup (ds_db t) (url_key u) = fmlookup (ds_db s) (url_key u)" using st s unfolding batch_pending_def by blast
    then show "fmlookup (ds_db t') (url_key u) = fmlookup (ds_db s1) (url_key u)" using u(2) [OF ne] db1 by simp
  next
    fix u j assume s: "fmlookup seen' u = Some j"
    have "is_id j \<and> fmlookup (ds_db t') (url_key u) = Some (enc64 j) \<and> \<not> get_err e (url_key u)"
    proof (cases "u = doc_url d")
      case True
      with s u(1) i ge show ?thesis by (simp add: seen')
    next
      case False
      with s have "fmlookup seen u = Some j" by (simp add: seen')
      with st u(2) [OF False] show ?thesis unfolding batch_pending_def by metis
    qed
    then show "is_id j" "fmlookup (ds_db t') (url_key u) = Some (enc64 j)" "\<not> get_err e (url_key u)" by blast+
  qed
qed

lemma upsert_loop_each:
  assumes "upsert_loop g (de_env e) ds seen n ops ids s = (Inr (n', ops', ids'), s')" "batch_pending (de_env e) seen n ops s t"
    "doc_inv g t" "gob_ok g" "ds_next_id s + int (length ds) < 2 ^ 63" "\<not> ctx_err (de_env e)" "\<not> commit_err (de_env e)" "\<forall>d \<in> set ds. doc_url d \<noteq> []"
  shows "\<exists>ids2 t'. ids' = ids @ ids2 \<and> upsert_each g e ds t = (Inr ids2, t') \<and> t' = with_db (apply_batch (ops' @ next_doc_ops (0 < n') n') (ds_db s')) s'"
  using assms
proof (induction ds arbitrary: seen n ops ids s t)
  case Nil
  then show ?case by (simp add: batch_pending_def)
next
  case (Cons d ds)
  obtain q s1 where q: "loop_id (de_env e) seen (doc_url d) s = (q, s1)" by fastforce
  obtain i new where in': "q = Inr (i, new)" using Cons.prems(1) q by (auto simp: loop_id_def Let_def split: sum.splits)
  obtain dops where dops: "doc_ops g (d\<lparr>doc_id := i\<rparr>) i = Inr dops"
    using Cons.prems(1) q in' by (auto simp: loop_id_def Let_def split: sum.splits)
  define known where "known = (case fmlookup seen (doc_url d) of None \<Rightarrow> 0 | Some i \<Rightarrow> i)"
  define seen' where "seen' = (if known \<noteq> 0 then seen else fmupd (doc_url d) i seen)"
  define t' where "t' = with_db (apply_batch (dops @ next_doc_ops new i) (ds_db t)) s1"
  note q' = q [unfolded in']
  have room: "ds_next_id s + 1 < 2 ^ 63" using Cons.prems(5) by simp
  note li = loop_id_resolves [OF q' Cons.prems(2,3) room]
  have run: "upsert_loop g (de_env e) ds seen' (if new \<and> n < i then i else n) (ops @ dops) (ids @ [i]) s1 = (Inr (n', ops', ids'), s')"
    using Cons.prems(1) q' dops by (simp add: loop_id_def Let_def known_def seen'_def)
  have seen: "fmlookup seen' = (fmlookup seen)(doc_url d := Some i)"
    using q' by (auto simp: seen'_def known_def loop_id_def fun_eq_iff split: option.splits if_splits)
  have up: "upsert_document g e d t = (Inr i, t')"
    using li dops Cons.prems(6-8) by (simp add: upsert_document_def t'_def)
  have inv': "doc_inv g t'" using upsert_document_keeps [OF up Cons.prems(3,4)] room Cons.prems(2) by (simp add: batch_pending_def)
  from Cons.IH [OF run batch_pending_step [OF Cons.prems(2-4) q' dops room t'_def seen] inv' Cons.prems(4) _ Cons.prems(6,7)]
    li Cons.prems(5,8)
  obtain ids2 t2 where "ids' = (ids @ [i]) @ ids2" "upsert_each g e ds t' = (Inr ids2, t2)"
    "t2 = with_db (apply_batch (ops' @ next_doc_ops (0 < n') n') (ds_db s')) s'" by auto
  with up show ?case by simp
qed

text \<open>A loop that fails has only moved the counter in memory.\<close>

lemma upsert_loop_memory:
  assumes "upsert_loop g e ds seen n ops ids s = (r, s')" "0 \<le> ds_next_id s" "ds_next_id s + int (length ds) < 2 ^ 63"
  shows "s' = s\<lparr>ds_next_id := ds_next_id s'\<rparr> \<and> ds_next_id s \<le> ds_next_id s' \<and> ds_next_id s' \<le> ds_next_id s + int (length ds)"
  using assms
proof (induction ds arbitrary: seen n ops ids s)
  case (Cons d ds)
  obtain q s1 where q: "loop_id e seen (doc_url d) s = (q, s1)" by fastforce
  have "i64 (ds_next_id s + 1) = ds_next_id s + 1" using Cons.prems(2,3) by (intro i64_id) (simp add: is_i64_def)
  with q have s1: "s1 = s\<lparr>ds_next_id := ds_next_id s1\<rparr>" "ds_next_id s \<le> ds_next_id s1" "ds_next_id s1 \<le> ds_next_id s + 1"
    by (auto simp: loop_id_def resolve_id_def Let_def split: if_splits sum.splits option.splits)
  consider "s' = s1" | seen' n' ops' ids' where "upsert_loop g e ds seen' n' ops' ids' s1 = (r, s')"
    using Cons.prems(1) q by (auto simp: loop_id_def Let_def split: if_splits sum.splits)
  then show ?case
  proof cases
    case 1
    with s1 Cons.prems(3) show ?thesis by simp
  next
    case 2
    have "s' = s1\<lparr>ds_next_id := ds_next_id s'\<rparr>" "ds_next_id s1 \<le> ds_next_id s'" "ds_next_id s' \<le> ds_next_id s1 + int (length ds)"
      using Cons.IH [OF 2] s1(2,3) Cons.prems(2,3) by simp_all
    moreover have "s1\<lparr>ds_next_id := ds_next_id s'\<rparr> = s\<lparr>ds_next_id := ds_next_id s'\<rparr>" by (subst s1(1)) simp
    ultimately show ?thesis using s1(2,3) by simp
  qed
qed simp

lemma upsert_batch_each:
  assumes run: "upsert_document_batch g e ds s = (Inr ids, s')" and inv: "doc_inv g s" and g: "gob_ok g"
    and room: "ds_next_id s + int (length ds) < 2 ^ 63"
  shows "upsert_each g e ds s = (Inr ids, s')"
proof (cases "ds = []")
  case True
  with run show ?thesis by (simp add: upsert_document_batch_def split: if_splits)
next
  case False
  obtain q s1 where q: "upsert_loop g (de_env e) ds fmempty 0 [] [] s = (q, s1)" by fastforce
  from run False q obtain n ops where c: "q = Inr (n, ops, ids)" "\<not> ctx_err (de_env e)" "\<not> commit_err (de_env e)" "\<forall>d \<in> set ds. doc_url d \<noteq> []"
    "s' = with_db (apply_batch (ops @ next_doc_ops (0 < n) n) (ds_db s1)) s1"
    by (auto simp: upsert_document_batch_def split: if_splits sum.splits prod.splits)
  have "0 \<le> ds_next_id s" using inv ids_okD(3) [of "ds_db s"] by (auto simp: doc_inv_def)
  then have "batch_pending (de_env e) fmempty 0 [] s s" by (simp add: batch_pending_def next_doc_ops_def with_db_def)
  from upsert_loop_each [OF q [unfolded c(1)] this inv g room c(2-4)] c(5) show ?thesis by auto
qed

lemma upsert_batch_keeps:
  assumes run: "upsert_document_batch g e ds s = (r, s')" and inv: "doc_inv g s" and g: "gob_ok g"
    and room: "ds_next_id s + int (length ds) < 2 ^ 63"
  shows "doc_inv g s'"
proof (cases r)
  case (Inr ids)
  from upsert_each_keeps [OF upsert_batch_each [OF run [unfolded Inr] inv g room] inv g room] show ?thesis .
next
  case (Inl x)
  obtain q s1 where q: "upsert_loop g (de_env e) ds fmempty 0 [] [] s = (q, s1)" by fastforce
  have "0 \<le> ds_next_id s" using inv ids_okD(3) [of "ds_db s"] by (auto simp: doc_inv_def)
  note m = upsert_loop_memory [OF q this room]
  have "s' = s \<or> s' = s1" using run q Inl by (auto simp: upsert_document_batch_def split: if_splits sum.splits prod.splits)
  moreover have "doc_inv g (s\<lparr>ds_next_id := k\<rparr>)" if "ds_next_id s \<le> k" "k < 2 ^ 63" for k
    using inv that by (simp add: doc_inv_def)
  ultimately show ?thesis using inv m room by (metis le_less_trans)
qed

end
