(* ===== verification/DocSeq.thy ===== *)
theory DocSeq
  imports DocBatch
begin

text \<open>
  \<open>WriteCrawlResult\<close> writes in one batch what \<open>UpsertDocument\<close>, \<open>IndexDocument\<close> and \<open>CompleteFrontier\<close> write in
  three: the index phase does not see the document's batch, and neither sees the other's.
\<close>

section \<open>The index phase beside another batch\<close>

definition index_blind :: "bytes bop list \<Rightarrow> bool" where
  "index_blind B = (\<forall>b \<in> set B. \<forall>k. touches b k \<longrightarrow> \<not> fam ''tlgTm'' k \<or> k = store_meta_key ''next_doc_id'')"

lemma blind_lookup:
  assumes "index_blind B" "fam ''tlgTm'' k" "k \<noteq> store_meta_key ''next_doc_id''"
  shows "fmlookup (apply_batch B db) k = fmlookup db k"
  by (rule lookup_batch_untouched) (use assms in \<open>auto simp: index_blind_def\<close>)

lemma blind_keys:
  assumes "index_blind B"
  shows "fmlookup (apply_batch B db) (term_key t) = fmlookup db (term_key t)"
    "fmlookup (apply_batch B db) (doc_len_key i) = fmlookup db (doc_len_key i)"
    "fmlookup (apply_batch B db) (doc_terms_key i) = fmlookup db (doc_terms_key i)"
    "fmlookup (apply_batch B db) (host_term_key h) = fmlookup db (host_term_key h)"
    "n \<noteq> ''next_doc_id'' \<Longrightarrow> fmlookup (apply_batch B db) (store_meta_key n) = fmlookup db (store_meta_key n)"
  by (rule blind_lookup [OF assms]; simp add: doc_key_defs)+

lemma blind_fmupd:
  assumes "index_blind B" "fam ''tlgTm'' k" "k \<noteq> store_meta_key ''next_doc_id''"
  shows "apply_batch B (fmupd k v db) = fmupd k v (apply_batch B db)"
  by (rule apply_batch_fmupd) (use assms in \<open>auto simp: index_blind_def\<close>)

lemma blind_reads:
  assumes "index_blind B"
  shows "read_doc_len e (apply_batch B db) i = read_doc_len e db i" "read_doc_terms e (apply_batch B db) i = read_doc_terms e db i"
    "n \<noteq> ''next_doc_id'' \<Longrightarrow> read_meta e (apply_batch B db) n = read_meta e db n"
    "corpus_counters e (with_db (apply_batch B (ds_db s)) s) = corpus_counters e s"
    "get_term_info e (apply_batch B db) t = get_term_info e db t"
  using blind_keys [OF assms]
  by (simp_all add: read_doc_len_def read_doc_terms_def read_meta_def corpus_counters_def get_term_info_def)

lemma blind_term_entry:
  assumes "index_blind B"
  shows "term_entry e old (apply_batch B db) t = (case term_entry e old db t of (r, db1) \<Rightarrow> (r, apply_batch B db1))"
proof -
  have "apply_batch B (fmupd (store_meta_key ''next_term_id'') v db) = fmupd (store_meta_key ''next_term_id'') v (apply_batch B db)" for v
    by (rule blind_fmupd [OF assms]) simp_all
  then show ?thesis
    by (auto simp: term_entry_def next_term_id_def blind_reads [OF assms] Let_def split: sum.splits option.splits)
qed

lemma blind_alloc_host:
  assumes "index_blind B"
  shows "get_or_alloc_host e (apply_batch B db) h = (case get_or_alloc_host e db h of (r, db1) \<Rightarrow> (r, apply_batch B db1))"
proof -
  have u: "apply_batch B (fmupd (store_meta_key ''next_host_id'') v db) = fmupd (store_meta_key ''next_host_id'') v (apply_batch B db)"
    "apply_batch B (fmupd (host_term_key h) v db) = fmupd (host_term_key h) v (apply_batch B db)" for v db
    by (rule blind_fmupd [OF assms]; simp add: host_term_key_def store_meta_key_def)+
  show ?thesis
    by (simp add: get_or_alloc_host_def blind_reads [OF assms] blind_keys [OF assms] u Let_def)
qed

lemma blind_index_terms:
  assumes B: "index_blind B"
  shows "index_terms e i len hid old tf ts ops new (apply_batch B db)
    = (case index_terms e i len hid old tf ts ops new db of (r, db1) \<Rightarrow> (r, apply_batch B db1))"
proof (induction ts arbitrary: ops new db)
  case (Cons t ts)
  obtain r db1 where r: "term_entry e old db t = (r, db1)" by fastforce
  with Cons show ?case by (cases r) (simp_all add: blind_term_entry [OF B])
qed simp

lemma blind_index_part:
  assumes B: "index_blind B" and s: "t = with_db (apply_batch B (ds_db s)) s"
  shows "index_part e i len tf dmn t = (case index_part e i len tf dmn s of (r, s2) \<Rightarrow> (r, with_db (apply_batch B (ds_db s2)) s2))"
proof -
  have d: "ds_db t = apply_batch B (ds_db s)" and w: "with_db x t = with_db x s" for x using s by simp_all
  have s2: "with_db (apply_batch B (ds_db s)) s = t" using s by simp
  have c: "corpus_counters (de_env e) t = corpus_counters (de_env e) s" unfolding s by (rule blind_reads(4) [OF B])
  show ?thesis
    unfolding index_part_def d w c blind_reads [OF B] blind_alloc_host [OF B]
    by (auto simp: s2 blind_index_terms [OF B] Let_def split: sum.splits prod.splits)
qed

lemma doc_ops_blind: "doc_ops g d i = Inr ops \<Longrightarrow> index_blind (ops @ next_doc_ops new j)"
  unfolding index_blind_def
proof (intro ballI allI impI)
  fix b k assume a: "doc_ops g d i = Inr ops" "b \<in> set (ops @ next_doc_ops new j)" "touches b k"
  from doc_ops_writes [OF a(1)] obtain b0 where "b \<in> set ops \<Longrightarrow> b = BSet (doc_key i) b0 \<or> b = BSet (url_key (doc_url d)) (enc64 i)
      \<or> b = BSet (doc_meta_key i) (pack_doc_meta (doc_url d) (doc_title d))
      \<or> doc_domain d \<noteq> [] \<and> b = BSet (host_key (doc_domain d) i) []
      \<or> length (doc_sha d) = 32 \<and> b = BSet (content_sha_key (doc_sha d) i) []" by blast
  moreover have "b \<in> set ops \<or> b = BSet (store_meta_key ''next_doc_id'') (enc64 j)" using a(2) by (auto simp: next_doc_ops_def split: if_splits)
  ultimately show "\<not> fam ''tlgTm'' k \<or> k = store_meta_key ''next_doc_id''" using a(3) by (elim disjE) auto
qed

section \<open>Terms\<close>

lemma add_tf_dom: "fmdom (fold (add_tf n) ts m) = fmdom m |\<union>| fset_of_list ts"
  by (induction ts arbitrary: m) (auto simp: add_tf_def)

lemma term_freqs_dom: "fmdom (term_freqs boost title body) = fset_of_list title |\<union>| fset_of_list body"
  by (simp add: term_freqs_def add_tf_dom)

lemma term_freqs_empty: "(fmdom (term_freqs boost title body) = {||}) = (title = [] \<and> body = [])"
  by (cases title; cases body) (auto simp: term_freqs_dom)

lemma add_tf_count:
  "(case fmlookup (fold (add_tf n) ts m) t of None \<Rightarrow> 0 | Some x \<Rightarrow> x) = (case fmlookup m t of None \<Rightarrow> 0 | Some x \<Rightarrow> x) + n * int (count_list ts t)"
  by (induction ts arbitrary: m) (auto simp: add_tf_def algebra_simps split: option.splits)

text \<open>The frequency of a term: its occurrences, those in the title weighted.\<close>

lemma freq_of_term_freqs: "freq_of (term_freqs boost title body) t = boost * int (count_list title t) + int (count_list body t)"
  using add_tf_count [of 1 body _ t] add_tf_count [of boost title fmempty t] by (simp add: freq_of_def term_freqs_def)

section \<open>The sequence\<close>

lemma complete_ops_transition:
  "complete_ops e db url = (if url = [] then [] else (case get_entry e db url of Inl _ \<Rightarrow> [] | Inr en \<Rightarrow> transition_ops st_done [] url en))"
  by (simp add: complete_ops_def transition_ops_def transition_entry_def Let_def split: sum.splits)

definition complete_row :: "env \<Rightarrow> bytes \<Rightarrow> doc_store \<Rightarrow> doc_store" where
  "complete_row e url s = (if url = [] then s else s\<lparr>ds_pebble := snd (complete_frontier e url (ds_pebble s))\<rparr>)"

lemma complete_row_ops:
  assumes "\<not> ctx_err e" "\<not> commit_err e" "fmlookup (ds_db s) (frontier_key url) = fmlookup db (frontier_key url)"
  shows "complete_row e url s = with_db (apply_batch (complete_ops e db url) (ds_db s)) s"
proof -
  have "get_entry e (ds_db s) url = get_entry e db url" using assms(3) by (simp add: get_entry_def)
  then show ?thesis using assms(1,2)
    by (auto simp: complete_row_def complete_ops_transition complete_frontier_def transition_frontier_def commit_def with_db_def split: sum.splits)
qed

lemma doc_ops_f: "doc_ops g d i = Inr ops \<Longrightarrow> fmlookup (apply_batch (ops @ next_doc_ops new j) db) (frontier_key u) = fmlookup db (frontier_key u)"
proof -
  assume a: "doc_ops g d i = Inr ops"
  show ?thesis
  proof (rule lookup_batch_untouched)
    fix b assume b: "b \<in> set (ops @ next_doc_ops new j)"
    from doc_ops_writes [OF a] obtain b0 where "b \<in> set ops \<Longrightarrow> b = BSet (doc_key i) b0 \<or> b = BSet (url_key (doc_url d)) (enc64 i)
      \<or> b = BSet (doc_meta_key i) (pack_doc_meta (doc_url d) (doc_title d))
      \<or> doc_domain d \<noteq> [] \<and> b = BSet (host_key (doc_domain d) i) []
      \<or> length (doc_sha d) = 32 \<and> b = BSet (content_sha_key (doc_sha d) i) []" by blast
    moreover have "b \<in> set ops \<or> b = BSet (store_meta_key ''next_doc_id'') (enc64 j)" using b by (auto simp: next_doc_ops_def split: if_splits)
    ultimately show "\<not> touches b (frontier_key u)" by (elim disjE) (auto simp: doc_key_defs)
  qed
qed

lemma index_terms_ops:
  assumes "index_terms e i len hid old tf ts ops new db = (Inr (ops', new'), db')" "b \<in> set ops'"
  shows "b \<in> set ops \<or> (\<exists>t freq x. b \<in> set (term_ops i len hid t freq x))"
  using assms
proof (induction ts arbitrary: ops new db)
  case (Cons t ts)
  obtain q db1 where q: "term_entry e old db t = (q, db1)" by fastforce
  obtain x where x: "q = Inr x" using Cons.prems(1) q by (cases q) auto
  have "index_terms e i len hid old tf ts (ops @ term_ops i len hid t (case fmlookup tf t of None \<Rightarrow> 0 | Some f \<Rightarrow> f) x)
      (List.insert (ti_id x) new) db1 = (Inr (ops', new'), db')" using Cons.prems(1) q x by simp
  from Cons.IH [OF this Cons.prems(2)] show ?case by auto
qed simp

lemma doc_ops_row:
  assumes "doc_ops g d i = Inr ops"
  shows "\<exists>b0. gob_enc g d = Some b0 \<and> fmlookup (apply_batch (ops @ next_doc_ops new j) db) (doc_key i) = Some b0"
proof -
  from doc_ops_writes [OF assms] obtain b0 where b0: "gob_enc g d = Some b0" "BSet (doc_key i) b0 \<in> set ops"
    and w: "\<And>b. b \<in> set ops \<Longrightarrow> b = BSet (doc_key i) b0 \<or> b = BSet (url_key (doc_url d)) (enc64 i)
      \<or> b = BSet (doc_meta_key i) (pack_doc_meta (doc_url d) (doc_title d))
      \<or> doc_domain d \<noteq> [] \<and> b = BSet (host_key (doc_domain d) i) []
      \<or> length (doc_sha d) = 32 \<and> b = BSet (content_sha_key (doc_sha d) i) []" by blast
  have "fmlookup (apply_batch (ops @ next_doc_ops new j) db) (doc_key i) = Some b0"
  proof (rule batch_set_in)
    fix b assume b: "b \<in> set (ops @ next_doc_ops new j)" "touches b (doc_key i)"
    then have "b \<in> set ops" by (auto simp: next_doc_ops_def split: if_splits)
    from w [OF this] b(2) show "b = BSet (doc_key i) b0" by (elim disjE conjE) auto
  qed (simp add: b0)
  with b0 show ?thesis by blast
qed

lemma index_part_f:
  assumes "index_part e i len tf dmn s = (Inr (ops, lsum, cnt), s2)"
  shows "fmlookup (apply_batch ops db) (frontier_key u) = fmlookup db (frontier_key u)"
proof (rule lookup_batch_untouched)
  fix b assume b: "b \<in> set ops"
  from assms obtain hid old ts db1 ops0 new db2 where t: "index_terms e i len hid old tf ts [] [] db1 = (Inr (ops0, new), db2)"
    "ops = [BSet (doc_len_key i) (enc64 len)] @ count_ops lsum cnt @ ops0 @ drop_ops i hid old new @ [BSet (doc_terms_key i) (pack_doc_terms (range_order (de_ids e) new))]"
    by (auto simp: index_part_def Let_def split: sum.splits prod.splits)
  then have "b = BSet (doc_len_key i) (enc64 len) \<or> b \<in> set (count_ops lsum cnt) \<or> (\<exists>t freq x. b \<in> set (term_ops i len hid t freq x))
      \<or> b \<in> set (drop_ops i hid old new) \<or> b = BSet (doc_terms_key i) (pack_doc_terms (range_order (de_ids e) new))"
    using b index_terms_ops [OF t(1)] by auto
  then show "\<not> touches b (frontier_key u)"
    by (elim disjE) (auto simp: count_ops_def term_ops_simps drop_ops_simps doc_key_defs)
qed

lemma with_db_mirror: "with_db db (mirror_counts lsum cnt s) = mirror_counts lsum cnt (with_db db s)"
  by (cases s) (simp add: with_db_def mirror_counts_def)

lemma crawl_sequence:
  assumes run: "write_crawl_result g e d title text url tok boost s = (Inr i, s')" and g: "gob_ok g"
    and ge: "de_partition e \<Longrightarrow> \<not> get_err (de_env e) (doc_key i)"
  shows "\<exists>s1 s2. upsert_document g e d s = (Inr i, s1) \<and> index_document g e i title text tok boost False s1 = (Inr (), s2)
    \<and> s' = complete_row (de_env e) url s2"
proof -
  define tf where "tf = term_freqs (clamp_boost boost) (tok title) (tok text)"
  define len where "len = int (length (tok title) + length (tok text))"
  define dmn where "dmn = (if de_partition e then doc_domain d else [])"
  have ok: "\<not> ctx_err (de_env e)" "doc_url d \<noteq> []" using run by (auto simp: write_crawl_result_def split: if_splits)
  obtain new s1 where res: "resolve_id (de_env e) (doc_url d) s = (Inr (i, new), s1)"
    using run ok by (auto simp: write_crawl_result_def Let_def split: sum.splits if_splits prod.splits)
  obtain dops where dops: "doc_ops g (d\<lparr>doc_id := i\<rparr>) i = Inr dops"
    using run ok res by (auto simp: write_crawl_result_def Let_def split: sum.splits)
  define B where "B = dops @ next_doc_ops new i"
  define sA where "sA = with_db (apply_batch B (ds_db s1)) s1"
  have com: "\<not> commit_err (de_env e)" using run ok res dops
    by (auto simp: write_crawl_result_def Let_def split: sum.splits if_splits prod.splits)
  have up: "upsert_document g e d s = (Inr i, sA)" using ok res dops com by (simp add: upsert_document_def sA_def B_def)
  note blind = doc_ops_blind [OF dops, of new i, folded B_def]
  obtain b0 where b0: "gob_enc g (d\<lparr>doc_id := i\<rparr>) = Some b0" "fmlookup (ds_db sA) (doc_key i) = Some b0"
    using doc_ops_row [OF dops, of new i "ds_db s1"] by (auto simp: sA_def B_def)
  have dom: "(if \<not> False \<and> de_partition e then (case get_doc_by_id g (de_env e) (ds_db sA) i of Inr d \<Rightarrow> doc_domain d | Inl _ \<Rightarrow> []) else []) = dmn"
    using b0 ge ok g by (auto simp: dmn_def get_doc_by_id_def gob_ok_def)
  show ?thesis
  proof (cases "fmdom tf = {||}")
    case True
    then have l0: "len = 0" by (simp add: tf_def len_def term_freqs_empty)
    have "index_document g e i title text tok boost False sA = (Inr (), sA)" using ok l0 unfolding index_document_def Let_def len_def [symmetric] by simp
    moreover have "s' = with_db (apply_batch (complete_ops (de_env e) (ds_db s1) url) (ds_db sA)) sA"
      using run ok res dops com True by (simp add: write_crawl_result_def Let_def sA_def B_def flip: tf_def)
    moreover have "complete_row (de_env e) url sA = with_db (apply_batch (complete_ops (de_env e) (ds_db s1) url) (ds_db sA)) sA"
      by (rule complete_row_ops [OF ok(1) com]) (simp add: sA_def B_def doc_ops_f [OF dops] del: apply_batch_append)
    ultimately show ?thesis using up by auto
  next
    case False
    then have l0: "len \<noteq> 0" by (auto simp: tf_def len_def term_freqs_empty simp flip: of_nat_add)
    obtain q s2 where q: "index_part e i len tf dmn s1 = (q, s2)" by fastforce
    obtain iops lsum cnt where q': "q = Inr (iops, lsum, cnt)"
      using run ok res dops com False q by (auto simp: write_crawl_result_def Let_def split: sum.splits simp flip: tf_def len_def dmn_def simp del: of_nat_add)
    define s3 where "s3 = mirror_counts lsum cnt (with_db (apply_batch iops (apply_batch B (ds_db s2))) s2)"
    have "index_part e i len tf dmn sA = (Inr (iops, lsum, cnt), with_db (apply_batch B (ds_db s2)) s2)"
      using blind_index_part [OF blind sA_def, of e i len tf dmn] q q' by simp
    then have ix: "index_document g e i title text tok boost False sA = (Inr (), s3)"
      using ok com l0 dom unfolding index_document_def Let_def len_def [symmetric] tf_def [symmetric] by (simp add: s3_def)
    have "s' = with_db (apply_batch (complete_ops (de_env e) (ds_db s2) url) (ds_db s3)) s3"
      using run [unfolded write_crawl_result_def Let_def, folded tf_def len_def dmn_def] ok res dops com False q q'
      by (simp add: s3_def B_def with_db_mirror)
    moreover have "complete_row (de_env e) url s3 = with_db (apply_batch (complete_ops (de_env e) (ds_db s2) url) (ds_db s3)) s3"
      by (rule complete_row_ops [OF ok(1) com])
        (simp add: s3_def B_def index_part_f [OF q [unfolded q']] doc_ops_f [OF dops] del: apply_batch_append)
    ultimately show ?thesis using up ix by auto
  qed
qed

end
