(* ===== verification/DocRuns.thy ===== *)
theory DocRuns
  imports DocSeq DocFrame
begin

text \<open>Runs of the store: every call of the documents and of the frontier, and restarts, in any order.\<close>

section \<open>The URL rows after a write\<close>

definition url_write :: "bytes kv \<Rightarrow> bytes \<Rightarrow> 'e + int \<Rightarrow> bytes kv \<Rightarrow> bool" where
  "url_write db u r db' = (case r of Inl _ \<Rightarrow> same_on (fam ''u'') db db'
     | Inr i \<Rightarrow> (\<exists>new. id_for db u i new) \<and> fmlookup db' (url_key u) = Some (enc64 i)
         \<and> (\<forall>v. v \<noteq> u \<longrightarrow> fmlookup db' (url_key v) = fmlookup db (url_key v)))"

lemma same_on_refl [simp]: "same_on P db db"
  by (simp add: same_on_def)

lemma same_on_trans: "same_on P a b \<Longrightarrow> same_on P b c \<Longrightarrow> same_on P a c"
  by (simp add: same_on_def)

lemma resolve_id_db: "resolve_id e u s = (r, s1) \<Longrightarrow> ds_db s1 = ds_db s"
  by (auto simp: resolve_id_def Let_def split: sum.splits option.splits)

lemma doc_batch_urls:
  assumes "doc_ops g d i = Inr ops" "is_id i"
  shows "fmlookup (apply_batch (ops @ next_doc_ops new k) db) (url_key (doc_url d)) = Some (enc64 i)"
    "v \<noteq> doc_url d \<Longrightarrow> fmlookup (apply_batch (ops @ next_doc_ops new k) db) (url_key v) = fmlookup db (url_key v)"
  using doc_batch_upserted [OF assms, where db = db and new = new and k = k] by (auto simp: upserted_def)

lemma upsert_urls:
  assumes run: "upsert_document g e d s = (r, s')" and inv: "doc_inv g s" and room: "ds_next_id s + 1 < 2 ^ 63"
  shows "url_write (ds_db s) (doc_url d) r (ds_db s')"
proof (cases r)
  case (Inl x)
  obtain q s1 where q: "resolve_id (de_env e) (doc_url d) s = (q, s1)" by fastforce
  have "ds_db s' = ds_db s" using run Inl q resolve_id_db [OF q]
    by (auto simp: upsert_document_def split: if_splits sum.splits prod.splits)
  with Inl show ?thesis by (simp add: url_write_def)
next
  case (Inr i)
  obtain new s1 ops where c: "resolve_id (de_env e) (doc_url d) s = (Inr (i, new), s1)" "doc_ops g (d\<lparr>doc_id := i\<rparr>) i = Inr ops"
    "s' = with_db (apply_batch (ops @ next_doc_ops new i) (ds_db s1)) s1"
    using run Inr by (auto simp: upsert_document_def split: if_splits sum.splits prod.splits)
  have f: "id_for (ds_db s) (doc_url d) i new" using resolve_id_spec [OF c(1) inv room] by simp
  then have "is_id i" by (simp add: id_for_def)
  from doc_batch_urls [OF c(2) this, where new = new and k = i and db = "ds_db s1"] f show ?thesis
    unfolding url_write_def Inr sum.case c(3) with_db_simps(1) resolve_id_db [OF c(1)] by auto
qed

lemma index_part_other:
  assumes "index_part e i len tf dmn s = (Inr (ops, lsum, cnt), s2)" "fam ''duihfC'' k"
  shows "fmlookup (apply_batch ops db) k = fmlookup db k"
proof (rule lookup_batch_untouched)
  fix b assume b: "b \<in> set ops"
  from assms(1) obtain hid old ts db1 ops0 new db2 where t: "index_terms e i len hid old tf ts [] [] db1 = (Inr (ops0, new), db2)"
    "ops = [BSet (doc_len_key i) (enc64 len)] @ count_ops lsum cnt @ ops0 @ drop_ops i hid old new @ [BSet (doc_terms_key i) (pack_doc_terms (range_order (de_ids e) new))]"
    by (auto simp: index_part_def Let_def split: sum.splits prod.splits)
  then have "b = BSet (doc_len_key i) (enc64 len) \<or> b \<in> set (count_ops lsum cnt) \<or> (\<exists>t freq x. b \<in> set (term_ops i len hid t freq x))
      \<or> b \<in> set (drop_ops i hid old new) \<or> b = BSet (doc_terms_key i) (pack_doc_terms (range_order (de_ids e) new))"
    using b index_terms_ops [OF t(1)] by auto
  then show "\<not> touches b k" using assms(2)
    by (elim disjE) (auto simp: count_ops_def term_ops_simps drop_ops_simps)
qed

lemma index_part_drift:
  assumes "index_part e i len tf dmn s = (r, s2)" "counter_safe e" "terms_ok (ds_db s)" "index_room tf (ds_db s)"
  shows "same_on (fam ''duihfC'') (ds_db s) (ds_db s2)"
  using index_part_spec [OF assms] drifted_same [of "ds_db s" "ds_db s2" "''duihfC''"] by simp

lemma crawl_urls:
  assumes run: "write_crawl_result g e d title text url tok boost s = (r, s')" and inv: "doc_inv g s" and safe: "counter_safe e"
    and room: "ds_next_id s + 1 < 2 ^ 63" "index_room (term_freqs (clamp_boost boost) (tok title) (tok text)) (ds_db s)"
  shows "url_write (ds_db s) (doc_url d) r (ds_db s')"
proof -
  define tf where "tf = term_freqs (clamp_boost boost) (tok title) (tok text)"
  have t: "terms_ok (ds_db s)" using inv by (simp add: doc_inv_def)
  have drift: "same_on (fam ''u'') (ds_db s) (ds_db s2)"
    if "resolve_id (de_env e) (doc_url d) s = (q, s1)" "index_part e i len tf dmn s1 = (z, s2)" for q s1 i len dmn z s2
    using index_part_drift [OF that(2) safe] t room(2) unfolding resolve_id_db [OF that(1)] tf_def
    by (auto intro: same_on_weaken simp: fam_def)
  have fid: "\<exists>new. id_for (ds_db s) (doc_url d) i new" "is_id i" if "resolve_id (de_env e) (doc_url d) s = (Inr (i, new), s1)" for i new s1
  proof -
    have "id_for (ds_db s) (doc_url d) i new" using resolve_id_spec [OF that inv room(1)] by simp
    then show "\<exists>new. id_for (ds_db s) (doc_url d) i new" "is_id i" by (auto simp only: id_for_def)
  qed
  have com: "fmlookup (apply_batch (complete_ops (de_env e) db url) D) (url_key v) = fmlookup D (url_key v)" for db D v
    by (rule same_onD [OF complete_ops_same]) simp
  show ?thesis using run
  proof (cases rule: write_crawl_cases)
    case refused
    then show ?thesis by (simp add: url_write_def)
  next
    case unresolved
    then show ?thesis using resolve_id_db [OF unresolved(2)] by (simp add: url_write_def)
  next
    case unencoded
    then show ?thesis using resolve_id_db [OF unencoded(2)] by (simp add: url_write_def)
  next
    case (plain i new dops s1)
    note f = fid [OF plain(2)] and db1 = resolve_id_db [OF plain(2)]
    show ?thesis using plain(5) doc_batch_urls [OF plain(3) f(2), where new = new and k = i and db = "ds_db s"] f(1)
      by (auto simp: url_write_def db1 com split: if_splits)
  next
    case (unindexed x i new s1)
    then show ?thesis using drift [OF unindexed(2) unindexed(3) [folded tf_def]] by (simp add: url_write_def)
  next
    case (indexed i new dops s1 s2 iops lsum cnt)
    note f = fid [OF indexed(2)] and ip = indexed(4) [folded tf_def]
    note dr = drift [OF indexed(2) ip]
    have u2: "fmlookup (ds_db s2) (url_key v) = fmlookup (ds_db s) (url_key v)" for v by (rule same_onD [OF dr]) simp
    have ix: "fmlookup (apply_batch iops D) (url_key v) = fmlookup D (url_key v)" for D v
      by (rule index_part_other [OF ip]) simp
    show ?thesis using indexed(5) doc_batch_urls [OF indexed(3) f(2), where new = new and k = i and db = "ds_db s2"] f(1) dr
      by (auto simp: url_write_def com ix u2 split: if_splits)
  qed
qed

section \<open>Identifiers stay with their URL\<close>

definition owned :: "bytes kv \<Rightarrow> bytes \<Rightarrow> int \<Rightarrow> bool" where
  "owned db u i = (is_id i \<and> i \<le> stored_id db \<and> (\<forall>v. fmlookup db (url_key v) = Some (enc64 i) \<longrightarrow> v = u))"

lemma owned_new:
  assumes "docs_ok g db" "ids_ok db" "fmlookup db (url_key u) = Some (enc64 i)" "is_id i"
  shows "owned db u i"
proof -
  from docs_okD(1) [OF assms(1,3)] assms(4) obtain d where d: "doc_at g db i = Some d" "doc_url d = u" by auto
  have "i \<le> stored_id db" using id_live(1) [OF assms(2,4)] d by (auto simp: doc_at_def bind_eq_Some_conv)
  moreover have "v = u" if v: "fmlookup db (url_key v) = Some (enc64 i)" for v
    using docs_okD(1) [OF assms(1) v] assms(4) d by auto
  ultimately show ?thesis using assms(4) by (simp add: owned_def)
qed

lemma owned_write:
  assumes "owned db w j" "url_write db u r db'" "stored_id db \<le> stored_id db'"
  shows "owned db' w j"
  unfolding owned_def
proof (intro conjI allI impI)
  show "is_id j" "j \<le> stored_id db'" using assms(1,3) by (simp_all add: owned_def)
  fix v assume v: "fmlookup db' (url_key v) = Some (enc64 j)"
  have "fmlookup db (url_key v) = Some (enc64 j)"
  proof (cases r)
    case (Inl x)
    with assms(2) have "same_on (fam ''u'') db db'" by (simp add: url_write_def)
    from same_onD [OF this, of "url_key v"] v show ?thesis by simp
  next
    case (Inr i)
    with assms(2) obtain new where f: "id_for db u i new" and u: "fmlookup db' (url_key u) = Some (enc64 i)"
      "\<And>v. v \<noteq> u \<Longrightarrow> fmlookup db' (url_key v) = fmlookup db (url_key v)" by (auto simp: url_write_def)
    show ?thesis
    proof (cases "v = u")
      case False
      with u(2) v show ?thesis by simp
    next
      case True
      with v u(1) f assms(1) have "i = j" by (auto simp: id_for_def owned_def)
      with f assms(1) True show ?thesis by (auto simp: id_for_def owned_def split: if_splits)
    qed
  qed
  with assms(1) show "v = w" by (simp add: owned_def)
qed

lemma owned_less:
  assumes "owned db w j" "\<And>v. fmlookup db' (url_key v) \<noteq> None \<Longrightarrow> fmlookup db' (url_key v) = fmlookup db (url_key v)" "stored_id db \<le> stored_id db'"
  shows "owned db' w j"
  unfolding owned_def
proof (intro conjI allI impI)
  fix v assume v: "fmlookup db' (url_key v) = Some (enc64 j)"
  with assms(2) [of v] have "fmlookup db (url_key v) = Some (enc64 j)" by simp
  with assms(1) show "v = w" by (simp add: owned_def)
qed (use assms in \<open>simp_all add: owned_def\<close>)

section \<open>Steps\<close>

text \<open>
  One call, labelled with the writes it acknowledges: URLs with their ids. The environment may fail anywhere, except
  that the counters of the meta family are read and written (\<open>counter_safe\<close>); the guards say that no counter
  reaches \<open>2^63\<close>, that \<open>IndexDocument\<close> is called on an id that was handed out, and that a document is deleted under
  the URL of its own side blob, as the purges of \<open>src/cmd/cosift\<close> do.
\<close>

inductive doc_step :: "gob \<Rightarrow> doc_store \<Rightarrow> (bytes \<times> int) list \<Rightarrow> doc_store \<Rightarrow> bool" for g where
  upsert: "ds_next_id s + 1 < 2 ^ 63 \<Longrightarrow> upsert_document g e d s = (r, s')
    \<Longrightarrow> doc_step g s (case r of Inl _ \<Rightarrow> [] | Inr i \<Rightarrow> [(doc_url d, i)]) s'"
| upsert_batch: "ds_next_id s + int (length ds) < 2 ^ 63 \<Longrightarrow> upsert_document_batch g e ds s = (r, s')
    \<Longrightarrow> doc_step g s (case r of Inl _ \<Rightarrow> [] | Inr ids \<Rightarrow> zip (map doc_url ds) ids) s'"
| index: "counter_safe e \<Longrightarrow> is_id i \<Longrightarrow> i \<le> stored_id (ds_db s)
    \<Longrightarrow> index_room (term_freqs (clamp_boost boost) (tok title) (tok text)) (ds_db s)
    \<Longrightarrow> index_document g e i title text tok boost bulk s = (r, s') \<Longrightarrow> doc_step g s [] s'"
| crawl: "counter_safe e \<Longrightarrow> ds_next_id s + 1 < 2 ^ 63
    \<Longrightarrow> index_room (term_freqs (clamp_boost boost) (tok title) (tok text)) (ds_db s)
    \<Longrightarrow> write_crawl_result g e d title text url tok boost s = (r, s')
    \<Longrightarrow> doc_step g s (case r of Inl _ \<Rightarrow> [] | Inr i \<Rightarrow> [(doc_url d, i)]) s'"
| delete: "is_id i \<Longrightarrow> url_at (ds_db s) raw = Some i \<Longrightarrow> soft_delete_document uh e i raw s = (r, s') \<Longrightarrow> doc_step g s [] s'"
| corpus: "corpus_stats ev s = (r, s') \<Longrightarrow> doc_step g s [] s'"
| bootstrap: "bootstrap_corpus_stats ev s = (r, s') \<Longrightarrow> doc_step g s [] s'"
| stats: "doc_stats ev s = (r, s') \<Longrightarrow> doc_step g s [] s'"
| frontier: "frontier_step (ds_pebble s) ev p' \<Longrightarrow> doc_step g s [] (s\<lparr>ds_pebble := p'\<rparr>)"
| restart: "open_store ev (ds_db s) = Inr s' \<Longrightarrow> doc_step g s [] s'"

inductive doc_run :: "gob \<Rightarrow> doc_store \<Rightarrow> (bytes \<times> int) list \<Rightarrow> doc_store \<Rightarrow> bool" for g where
  stop: "doc_run g s [] s"
| more: "doc_step g s acks s1 \<Longrightarrow> doc_run g s1 acks' s2 \<Longrightarrow> doc_run g s (acks @ acks') s2"

inductive_cases doc_run_NilE: "doc_run g s [] s'"

text \<open>What one step guarantees.\<close>

definition step_ok :: "gob \<Rightarrow> doc_store \<Rightarrow> (bytes \<times> int) list \<Rightarrow> doc_store \<Rightarrow> bool" where
  "step_ok g s acks s' = (doc_inv g s' \<and> (\<forall>w j. owned (ds_db s) w j \<longrightarrow> owned (ds_db s') w j)
     \<and> (\<forall>(u, i) \<in> set acks. owned (ds_db s') u i \<and> (\<forall>w. owned (ds_db s) w i \<longrightarrow> u = w))
     \<and> (\<forall>(u, i) \<in> set acks. \<forall>(v, j) \<in> set acks. i = j \<longrightarrow> u = v))"

lemma step_ok_silent:
  assumes "doc_inv g s'" "\<And>v. fmlookup (ds_db s') (url_key v) \<noteq> None \<Longrightarrow> fmlookup (ds_db s') (url_key v) = fmlookup (ds_db s) (url_key v)"
    "stored_id (ds_db s) \<le> stored_id (ds_db s')"
  shows "step_ok g s [] s'"
  using assms owned_less [OF _ assms(2,3)] by (simp add: step_ok_def)

lemma step_ok_write:
  assumes "doc_inv g s'" "stored_id (ds_db s) \<le> stored_id (ds_db s')" "url_write (ds_db s) u r (ds_db s')"
  shows "step_ok g s (case r of Inl _ \<Rightarrow> [] | Inr i \<Rightarrow> [(u, i)]) s'"
proof -
  have "owned (ds_db s') u i" if "r = Inr i" for i
    by (rule owned_new [of g]) (use assms that in \<open>auto simp: doc_inv_def url_write_def id_for_def\<close>)
  moreover have "u = w" if "r = Inr i" "owned (ds_db s) w i" for w i
    using assms(3) that by (auto simp: url_write_def id_for_def owned_def split: if_splits)
  ultimately show ?thesis using assms(1) owned_write [OF _ assms(3,2)] by (auto simp: step_ok_def split: sum.splits)
qed

lemma step_okD:
  assumes "step_ok g s acks s'"
  shows "doc_inv g s'" "owned (ds_db s) w j \<Longrightarrow> owned (ds_db s') w j" "(u, i) \<in> set acks \<Longrightarrow> owned (ds_db s') u i"
    "(u, i) \<in> set acks \<Longrightarrow> owned (ds_db s) w i \<Longrightarrow> u = w" "(u, i) \<in> set acks \<Longrightarrow> (v, i) \<in> set acks \<Longrightarrow> u = v"
  using assms unfolding step_ok_def by blast+

lemma step_okI:
  assumes "doc_inv g s'" "\<And>w j. owned (ds_db s) w j \<Longrightarrow> owned (ds_db s') w j" "\<And>u i. (u, i) \<in> set acks \<Longrightarrow> owned (ds_db s') u i"
    "\<And>u i w. (u, i) \<in> set acks \<Longrightarrow> owned (ds_db s) w i \<Longrightarrow> u = w" "\<And>u v i. (u, i) \<in> set acks \<Longrightarrow> (v, i) \<in> set acks \<Longrightarrow> u = v"
  shows "step_ok g s acks s'"
  using assms unfolding step_ok_def by blast

lemma step_ok_trans:
  assumes "step_ok g s xs s1" "step_ok g s1 ys s2"
  shows "step_ok g s (xs @ ys) s2"
proof (rule step_okI)
  note a = step_okD [OF assms(1)] and b = step_okD [OF assms(2)]
  show "doc_inv g s2" by (rule b(1))
  show "owned (ds_db s2) w j" if "owned (ds_db s) w j" for w j by (rule b(2) [OF a(2) [OF that]])
  show "owned (ds_db s2) u i" if "(u, i) \<in> set (xs @ ys)" for u i using that a(3) [of u i] b(2) [of u i] b(3) [of u i] by auto
  show "u = w" if "(u, i) \<in> set (xs @ ys)" "owned (ds_db s) w i" for u i w
    using that(1) a(4) [OF _ that(2), of u] b(4) [OF _ a(2) [OF that(2)], of u] by auto
  have cross: "v = u" if "(u, i) \<in> set xs" "(v, i) \<in> set ys" for u v i by (rule b(4) [OF that(2) a(3) [OF that(1)]])
  show "u = v" if "(u, i) \<in> set (xs @ ys)" "(v, i) \<in> set (xs @ ys)" for u v i
    using that a(5) [of u i v] b(5) [of u i v] cross [of u i v] cross [of v i u] by auto
qed

lemma resolve_id_next:
  assumes "resolve_id e u s = (r, s1)" "doc_inv g s" "ds_next_id s + 1 < 2 ^ 63"
  shows "ds_next_id s1 \<le> ds_next_id s + 1"
  using resolve_id_spec [OF assms] by simp

lemma upsert_each_ok:
  assumes "upsert_each g e ds s = (Inr ids, s')" "doc_inv g s" "gob_ok g" "ds_next_id s + int (length ds) < 2 ^ 63"
  shows "step_ok g s (zip (map doc_url ds) ids) s'"
  using assms
proof (induction ds arbitrary: s ids)
  case Nil
  then show ?case by (simp add: step_ok_def)
next
  case (Cons d ds)
  obtain i ids' s1 where u: "upsert_document g e d s = (Inr i, s1)" "upsert_each g e ds s1 = (Inr ids', s')" "ids = i # ids'"
    using Cons.prems(1) by (auto split: prod.splits sum.splits)
  have room: "ds_next_id s + 1 < 2 ^ 63" using Cons.prems(4) by simp
  note k = upsert_document_keeps [OF u(1) Cons.prems(2,3) room]
  have n1: "ds_next_id s1 \<le> ds_next_id s + 1"
  proof -
    obtain p s0 where p: "resolve_id (de_env e) (doc_url d) s = (p, s0)" by fastforce
    with u(1) have "ds_next_id s1 = ds_next_id s0 \<or> s1 = s" by (auto simp: upsert_document_def split: if_splits sum.splits)
    with resolve_id_next [OF p Cons.prems(2) room] show ?thesis by auto
  qed
  have "step_ok g s [(doc_url d, i)] s1" using step_ok_write [OF _ _ upsert_urls [OF u(1) Cons.prems(2) room]] k by simp
  moreover have "step_ok g s1 (zip (map doc_url ds) ids') s'" by (rule Cons.IH [OF u(2) _ Cons.prems(3)]) (use k n1 Cons.prems(4) in simp_all)
  ultimately show ?case using step_ok_trans [of g s "[(doc_url d, i)]" s1] u(3) by simp
qed

lemma upsert_batch_fails:
  assumes run: "upsert_document_batch g e ds s = (Inl x, s')" and inv: "doc_inv g s" and room: "ds_next_id s + int (length ds) < 2 ^ 63"
  shows "ds_db s' = ds_db s"
proof -
  obtain q s1 where q: "upsert_loop g (de_env e) ds fmempty 0 [] [] s = (q, s1)" by fastforce
  have "0 \<le> ds_next_id s" using inv ids_okD(3) [of "ds_db s"] by (auto simp: doc_inv_def)
  then have "s1 = s\<lparr>ds_next_id := ds_next_id s1\<rparr>" using upsert_loop_memory [OF q _ room] by simp
  then have "ds_db s1 = ds_db s" by (metis doc_store.simps(1,9) doc_store.surjective doc_store.update_convs(2))
  moreover have "s' = s \<or> s' = s1" using run q by (auto simp: upsert_document_batch_def split: if_splits sum.splits prod.splits)
  ultimately show ?thesis by auto
qed

lemma index_document_urls:
  assumes run: "index_document g e i title text tok boost bulk s = (r, s')" and inv: "doc_inv g s" and safe: "counter_safe e"
    and room: "index_room (term_freqs (clamp_boost boost) (tok title) (tok text)) (ds_db s)"
  shows "fmlookup (ds_db s') (url_key v) = fmlookup (ds_db s) (url_key v)"
proof -
  define tf where "tf = term_freqs (clamp_boost boost) (tok title) (tok text)"
  define len where "len = int (length (tok title) + length (tok text))"
  define dmn where "dmn = (if \<not> bulk \<and> de_partition e
               then (case get_doc_by_id g (de_env e) (ds_db s) i of Inr d \<Rightarrow> doc_domain d | Inl _ \<Rightarrow> []) else [])"
  obtain q s2 where q: "index_part e i len tf dmn s = (q, s2)" by fastforce
  have t: "terms_ok (ds_db s)" using inv by (simp add: doc_inv_def)
  have u2: "fmlookup (ds_db s2) (url_key v) = fmlookup (ds_db s) (url_key v)"
    by (rule same_onD [OF index_part_drift [OF q safe t room [folded tf_def]]]) simp
  consider "s' = s" | "s' = s2"
    | ops lsum cnt where "q = Inr (ops, lsum, cnt)" "s' = mirror_counts lsum cnt (with_db (apply_batch ops (ds_db s2)) s2)"
    using run q unfolding index_document_def Let_def len_def [symmetric] tf_def [symmetric] dmn_def [symmetric]
    by (auto split: if_splits sum.splits prod.splits)
  then show ?thesis
  proof cases
    case 3
    have "fmlookup (apply_batch ops (ds_db s2)) (url_key v) = fmlookup (ds_db s2) (url_key v)"
      by (rule index_part_other [OF q [unfolded 3(1)]]) simp
    with u2 3(2) show ?thesis by simp
  qed (use u2 in simp_all)
qed

lemma soft_delete_urls:
  assumes run: "soft_delete_document uh e i raw s = (r, s')" and inv: "doc_inv g s" and i: "is_id i" and u: "url_at (ds_db s) raw = Some i"
  shows "fmlookup (ds_db s') (url_key v) = (if r = Inr True \<and> v = raw then None else fmlookup (ds_db s) (url_key v))"
    "stored_id (ds_db s') = stored_id (ds_db s)"
proof -
  have "(\<forall>v. fmlookup (ds_db s') (url_key v) = (if r = Inr True \<and> v = raw then None else fmlookup (ds_db s) (url_key v)))
    \<and> stored_id (ds_db s') = stored_id (ds_db s)"
    using run
  proof (cases rule: soft_delete_cases)
    case (deleted had lsum cnt)
    have "raw \<noteq> []" using u inv docs_okD(1) [of g "ds_db s" raw] by (auto simp: url_at_def doc_inv_def)
    note r = delete_removed [OF i this, of "ds_db s" uh "had \<noteq> None" lsum cnt, unfolded removed_def]
    have u1: "fmlookup (ds_db s') (url_key raw) = None" and u2: "\<And>v. v \<noteq> raw \<Longrightarrow> fmlookup (ds_db s') (url_key v) = fmlookup (ds_db s) (url_key v)"
      and m: "meta_at (ds_db s') ''next_doc_id'' = meta_at (ds_db s) ''next_doc_id''"
      using r unfolding deleted(4) mirror_counts_simps with_db_simps(1) by (elim conjE, simp)+
    then show ?thesis using deleted(1) by auto
  qed simp
  then show "fmlookup (ds_db s') (url_key v) = (if r = Inr True \<and> v = raw then None else fmlookup (ds_db s) (url_key v))"
    "stored_id (ds_db s') = stored_id (ds_db s)" by blast+
qed

lemma bootstrap_db:
  assumes "bootstrap_corpus_stats e s = (r, s')"
  shows "fmlookup (ds_db s') (url_key v) = fmlookup (ds_db s) (url_key v)" "stored_id (ds_db s') = stored_id (ds_db s)"
proof -
  have c: "fmlookup (apply_batch (count_ops a b) db) (url_key v) = fmlookup db (url_key v)"
    "stored_id (apply_batch (count_ops a b) db) = stored_id db" for a b db
    by (simp_all add: count_ops_def meta_at_def)
  show "fmlookup (ds_db s') (url_key v) = fmlookup (ds_db s) (url_key v)" "stored_id (ds_db s') = stored_id (ds_db s)"
    using assms by (auto simp: bootstrap_corpus_stats_def c split: if_splits sum.splits prod.splits)
qed

lemma doc_step_ok:
  assumes "doc_step g s acks s'" "doc_inv g s" "gob_ok g"
  shows "step_ok g s acks s'"
  using assms(1)
proof cases
  case (upsert e d r)
  then show ?thesis using step_ok_write [OF _ _ upsert_urls [OF upsert(3) assms(2) upsert(2)]] upsert_document_keeps [OF upsert(3) assms(2,3) upsert(2)] by simp
next
  case (upsert_batch ds e r)
  show ?thesis
  proof (cases r)
    case (Inl x)
    then show ?thesis using upsert_batch upsert_batch_fails [OF _ assms(2) upsert_batch(2)] upsert_batch_keeps [OF upsert_batch(3) assms(2,3) upsert_batch(2)]
      by (auto intro!: step_ok_silent)
  next
    case (Inr ids)
    from upsert_each_ok [OF upsert_batch_each [OF upsert_batch(3) [unfolded Inr] assms(2,3) upsert_batch(2)] assms(2,3) upsert_batch(2)] Inr upsert_batch(1)
    show ?thesis by simp
  qed
next
  case (index e i boost tok title body bulk r)
  note k = index_document_keeps [OF index(6) assms(2) index(2-5)]
  show ?thesis unfolding index(1)
    by (rule step_ok_silent) (use k index_document_urls [OF index(6) assms(2) index(2,5)] in simp_all)
next
  case (crawl e boost tok title body d url r)
  then show ?thesis using step_ok_write [OF _ _ crawl_urls [OF crawl(5) assms(2) crawl(2-4)]] write_crawl_keeps [OF crawl(5) assms(2) crawl(2) assms(3) crawl(3,4)]
    by simp
next
  case (delete i raw uh e r)
  note k = soft_delete_keeps [OF delete(4) assms(2) delete(2,3)]
  show ?thesis unfolding delete(1)
    by (rule step_ok_silent [OF k]) (use soft_delete_urls [OF delete(4) assms(2) delete(2,3)] in \<open>auto split: if_splits\<close>)
next
  case (corpus ev r)
  have "ds_db s' = ds_db s" using corpus(2) by (auto simp: corpus_stats_def split: if_splits prod.splits)
  then show ?thesis unfolding corpus(1) by (intro step_ok_silent [OF corpus_stats_keeps [OF corpus(2) assms(2)]]) simp_all
next
  case (bootstrap ev r)
  note db = bootstrap_db [OF bootstrap(2)]
  show ?thesis unfolding bootstrap(1)
    by (rule step_ok_silent [OF bootstrap_keeps [OF bootstrap(2) assms(2)]]) (use db in auto)
next
  case (stats ev r)
  have "ds_db s' = ds_db s" using stats(2) by (auto simp: doc_stats_def Let_def split: if_splits option.splits prod.splits)
  then show ?thesis unfolding stats(1) by (intro step_ok_silent [OF doc_stats_keeps [OF stats(2) assms(2)]]) simp_all
next
  case (frontier ev p')
  have f: "same_on (\<lambda>k. \<not> fam ''f'' k) (ds_db s) (ps_db p')" using frontier_step_frame [OF frontier(3)] by (simp add: f_same_def)
  have "db_inv g (ds_db s)" using assms(2) by (simp add: doc_inv_db)
  note m = same_keeps [OF this f]
  show ?thesis unfolding frontier(1,2)
    by (rule step_ok_silent [OF frontier_lift_keeps [OF frontier(3) assms(2)]]) (use m same_onD [OF f] in auto)
next
  case (restart ev)
  have "db_inv g (ds_db s)" using assms(2) by (simp add: doc_inv_db)
  note o' = open_store_keeps [OF restart(2) this]
  show ?thesis unfolding restart(1) by (rule step_ok_silent) (use o' in simp_all)
qed

end
