(* ===== verification/DocTrace.thy ===== *)
theory DocTrace
  imports DocRuns
begin

text \<open>Reachable stores: both invariants hold, and an id that was acknowledged for a URL is never given to another.\<close>

section \<open>The rows of the frontier\<close>

lemma doc_index_ok_cong:
  assumes "\<And>k. fam ''f'' k \<Longrightarrow> get k = get' k"
  shows "index_ok get u s en = index_ok get' u s en"
proof -
  have "get (frontier_status_index_key s h u) = get' (frontier_status_index_key s h u)"
    "get (frontier_status_index_key_lane s l h u) = get' (frontier_status_index_key_lane s l h u)" for h l
    using assms by (simp_all add: frontier_status_index_key_def frontier_status_index_key_lane_def)
  note eq = this
  show ?thesis unfolding index_ok_def eq ..
qed

lemma frontier_inv_cong:
  assumes "same_on (fam ''f'') db db'"
  shows "frontier_inv db' = frontier_inv db"
proof -
  have s: "fmlookup db' k = fmlookup db k" if "fam ''f'' k" for k by (rule same_onD [OF assms that])
  have k: "fmlookup db' (frontier_key u) = fmlookup db (frontier_key u)" for u by (rule s) (simp add: frontier_key_def)
  have i: "index_ok (fmlookup db') u st en = index_ok (fmlookup db) u st en" for u st en by (rule doc_index_ok_cong) (rule s)
  have "url_inv (fmlookup db') u = url_inv (fmlookup db) u" for u
    unfolding url_inv_def k i ..
  moreover have "(fmlookup db' k \<noteq> None \<longrightarrow> k = CHR ''f'' # x # r \<longrightarrow> P) = (fmlookup db k \<noteq> None \<longrightarrow> k = CHR ''f'' # x # r \<longrightarrow> P)" for k x r P
    using s [of k] by auto
  ultimately show ?thesis unfolding frontier_inv_def k by simp
qed

lemma doc_batch_f: "doc_ops g d i = Inr ops \<Longrightarrow> same_on (fam ''f'') db (apply_batch (ops @ next_doc_ops new j) db)"
  unfolding same_on_def
proof (intro allI impI)
  fix k assume a: "doc_ops g d i = Inr ops" and k: "fam ''f'' k"
  show "fmlookup (apply_batch (ops @ next_doc_ops new j) db) k = fmlookup db k"
  proof (rule lookup_batch_untouched)
    fix b assume b: "b \<in> set (ops @ next_doc_ops new j)"
    from doc_ops_writes [OF a] obtain b0 where "b \<in> set ops \<Longrightarrow> b = BSet (doc_key i) b0 \<or> b = BSet (url_key (doc_url d)) (enc64 i)
      \<or> b = BSet (doc_meta_key i) (pack_doc_meta (doc_url d) (doc_title d))
      \<or> doc_domain d \<noteq> [] \<and> b = BSet (host_key (doc_domain d) i) []
      \<or> length (doc_sha d) = 32 \<and> b = BSet (content_sha_key (doc_sha d) i) []" by blast
    moreover have "b \<in> set ops \<or> b = BSet (store_meta_key ''next_doc_id'') (enc64 j)" using b by (auto simp: next_doc_ops_def split: if_splits)
    ultimately show "\<not> touches b k" using k by (elim disjE) auto
  qed
qed

lemma upsert_f:
  assumes "upsert_document g e d s = (r, s')"
  shows "same_on (fam ''f'') (ds_db s) (ds_db s')"
proof -
  obtain q s1 where q: "resolve_id (de_env e) (doc_url d) s = (q, s1)" by fastforce
  note db = resolve_id_db [OF q]
  consider "s' = s" | "s' = s1" | i new ops where "doc_ops g (d\<lparr>doc_id := i\<rparr>) i = Inr ops"
      "s' = with_db (apply_batch (ops @ next_doc_ops new i) (ds_db s1)) s1"
    using assms q by (auto simp: upsert_document_def split: if_splits sum.splits prod.splits)
  then show ?thesis
  proof cases
    case 3
    show ?thesis unfolding 3(2) with_db_simps(1) db by (rule doc_batch_f [OF 3(1)])
  qed (simp_all add: db)
qed

lemma upsert_each_f: "upsert_each g e ds s = (r, s') \<Longrightarrow> same_on (fam ''f'') (ds_db s) (ds_db s')"
proof (induction ds arbitrary: s r s')
  case (Cons d ds)
  obtain q s1 where q: "upsert_document g e d s = (q, s1)" by fastforce
  obtain p s2 where p: "upsert_each g e ds s1 = (p, s2)" by fastforce
  have "s' = s1 \<or> s' = s2" using Cons.prems q p by (auto split: sum.splits)
  with upsert_f [OF q] same_on_trans [OF upsert_f [OF q] Cons.IH [OF p]] show ?case by blast
qed simp

lemma index_part_db: "index_part e i len tf dmn s = (r, s2) \<Longrightarrow> s2 = with_db (ds_db s2) s"
  by (auto simp: index_part_def Let_def with_db_def split: sum.splits prod.splits)

lemma index_document_f:
  assumes run: "index_document g e i title text tok boost bulk s = (r, s')" and inv: "doc_inv g s" and safe: "counter_safe e"
    and room: "index_room (term_freqs (clamp_boost boost) (tok title) (tok text)) (ds_db s)"
  shows "same_on (fam ''f'') (ds_db s) (ds_db s')"
proof -
  define tf where "tf = term_freqs (clamp_boost boost) (tok title) (tok text)"
  define len where "len = int (length (tok title) + length (tok text))"
  define dmn where "dmn = (if \<not> bulk \<and> de_partition e
               then (case get_doc_by_id g (de_env e) (ds_db s) i of Inr d \<Rightarrow> doc_domain d | Inl _ \<Rightarrow> []) else [])"
  obtain q s2 where q: "index_part e i len tf dmn s = (q, s2)" by fastforce
  have t: "terms_ok (ds_db s)" using inv by (simp add: doc_inv_def)
  have u2: "same_on (fam ''f'') (ds_db s) (ds_db s2)"
    by (rule same_on_weaken [OF index_part_drift [OF q safe t room [folded tf_def]]]) (auto simp: fam_def)
  consider "s' = s" | "s' = s2"
    | ops lsum cnt where "q = Inr (ops, lsum, cnt)" "s' = mirror_counts lsum cnt (with_db (apply_batch ops (ds_db s2)) s2)"
    using run q unfolding index_document_def Let_def len_def [symmetric] tf_def [symmetric] dmn_def [symmetric]
    by (auto split: if_splits sum.splits prod.splits)
  then show ?thesis
  proof cases
    case 3
    have "fmlookup (apply_batch ops (ds_db s2)) k = fmlookup (ds_db s2) k" if "fam ''f'' k" for k
      by (rule index_part_other [OF q [unfolded 3(1)]]) (use that in \<open>auto simp: fam_def\<close>)
    then have "same_on (fam ''f'') (ds_db s2) (ds_db s')" by (simp add: 3(2) same_on_def)
    with u2 show ?thesis by (rule same_on_trans)
  qed (use u2 in simp_all)
qed

lemma apply_batch_cong_on:
  assumes "same_on P db db'"
  shows "same_on P (apply_batch ops db) (apply_batch ops db')"
  using assms
proof (induction ops arbitrary: db db')
  case (Cons b ops)
  have "same_on P (apply_bop b db) (apply_bop b db')" using Cons.prems by (cases b) (simp_all add: same_on_def)
  from Cons.IH [OF this] show ?case by simp
qed simp

lemma complete_ops_inv:
  assumes "frontier_inv db"
  shows "frontier_inv (apply_batch (complete_ops e db url) db)"
proof (cases "get_entry e db url")
  case (Inl x)
  with assms show ?thesis by (simp add: complete_ops_def)
next
  case (Inr en)
  let ?e = "e\<lparr>ctx_err := False, commit_err := False\<rparr>" and ?s = "empty_store\<lparr>ps_db := db\<rparr>"
  have "get_entry ?e db url = Inr en" using Inr by (simp add: get_entry_def)
  then have "complete_frontier ?e url ?s = (Inr (), ?s\<lparr>ps_db := apply_batch (transition_ops st_done [] url en) db\<rparr>)"
    by (simp add: complete_frontier_def transition_frontier_def commit_def)
  from complete_frontier_effect(1) [OF _ this] assms have "frontier_inv (apply_batch (transition_ops st_done [] url en) db)" by simp
  with Inr assms show ?thesis by (simp add: complete_ops_transition)
qed

lemma crawl_frontier_inv:
  assumes run: "write_crawl_result g e d title text url tok boost s = (r, s')" and inv: "doc_inv g s" and safe: "counter_safe e"
    and room: "index_room (term_freqs (clamp_boost boost) (tok title) (tok text)) (ds_db s)" and f: "frontier_inv (ds_db s)"
  shows "frontier_inv (ds_db s')"
proof -
  define tf where "tf = term_freqs (clamp_boost boost) (tok title) (tok text)"
  have t: "terms_ok (ds_db s)" using inv by (simp add: doc_inv_def)
  have drift: "frontier_inv (ds_db s2)" "ds_db s1 = ds_db s"
    if "resolve_id (de_env e) (doc_url d) s = (q, s1)" "index_part e i len tf dmn s1 = (z, s2)" for q s1 i len dmn z s2
  proof -
    show 1: "ds_db s1 = ds_db s" by (rule resolve_id_db [OF that(1)])
    have "same_on (fam ''f'') (ds_db s) (ds_db s2)"
      using index_part_drift [OF that(2) safe] t room unfolding 1 tf_def by (auto intro: same_on_weaken simp: fam_def)
    with f show "frontier_inv (ds_db s2)" by (simp add: frontier_inv_cong)
  qed
  have compl: "frontier_inv (apply_batch (complete_ops (de_env e) db url) D)" if "same_on (fam ''f'') db D" "frontier_inv db" for db D
    using frontier_inv_cong [OF apply_batch_cong_on [OF that(1)]] complete_ops_inv [OF that(2)] by simp
  show ?thesis using run
  proof (cases rule: write_crawl_cases)
    case refused
    with f show ?thesis by simp
  next
    case unresolved
    then show ?thesis using resolve_id_db [OF unresolved(2)] f by simp
  next
    case unencoded
    then show ?thesis using resolve_id_db [OF unencoded(2)] f by simp
  next
    case (plain i new dops s1)
    note db1 = resolve_id_db [OF plain(2)]
    have "same_on (fam ''f'') (ds_db s1) (apply_batch (dops @ next_doc_ops new i) (ds_db s1))" by (rule doc_batch_f [OF plain(3)])
    from compl [OF this] f have "frontier_inv (apply_batch ((dops @ next_doc_ops new i) @ complete_ops (de_env e) (ds_db s1) url) (ds_db s1))"
      by (simp add: db1)
    with plain(5) f show ?thesis by (auto simp: db1 split: if_splits)
  next
    case (unindexed x i new s1)
    with drift [OF unindexed(2) unindexed(3) [folded tf_def]] show ?thesis by simp
  next
    case (indexed i new dops s1 s2 iops lsum cnt)
    note ip = indexed(4) [folded tf_def]
    note dr = drift [OF indexed(2) ip]
    have "same_on (fam ''f'') (apply_batch (dops @ next_doc_ops new i) (ds_db s2)) (apply_batch iops (apply_batch (dops @ next_doc_ops new i) (ds_db s2)))"
      unfolding same_on_def
    proof (intro allI impI)
      fix k assume "fam ''f'' k"
      then have "fam ''duihfC'' k" by (auto simp: fam_def)
      then show "fmlookup (apply_batch iops (apply_batch (dops @ next_doc_ops new i) (ds_db s2))) k
          = fmlookup (apply_batch (dops @ next_doc_ops new i) (ds_db s2)) k" by (rule index_part_other [OF ip])
    qed
    from compl [OF same_on_trans [OF doc_batch_f [OF indexed(3)] this] dr(1)]
    have "frontier_inv (apply_batch ((dops @ next_doc_ops new i) @ iops @ complete_ops (de_env e) (ds_db s2) url) (ds_db s2))" by simp
    with indexed(5) dr(1) show ?thesis by (auto split: if_splits)
  qed
qed

lemma soft_delete_f:
  assumes "soft_delete_document uh e i raw s = (r, s')" "is_id i" "raw \<noteq> []"
  shows "same_on (fam ''f'') (ds_db s) (ds_db s')"
  using assms(1)
proof (cases rule: soft_delete_cases)
  case (deleted had lsum cnt)
  note r = delete_removed [OF assms(2,3), of "ds_db s" uh "had \<noteq> None" lsum cnt, unfolded removed_def]
  have "same_on (\<lambda>k. \<not> fam ''duihlm'' k) (ds_db s) (ds_db s')"
    using r unfolding same_on_def deleted(4) mirror_counts_simps with_db_simps(1) by (elim conjE)
  then show ?thesis by (rule same_on_weaken) (auto simp: fam_def)
qed simp

section \<open>Runs\<close>

lemma doc_step_frontier_inv:
  assumes "doc_step g s acks s'" "doc_inv g s" "gob_ok g" and f: "frontier_inv (ds_db s)"
  shows "frontier_inv (ds_db s')"
  using assms(1)
proof cases
  case (upsert e d r)
  from frontier_inv_cong [OF upsert_f [OF upsert(3)]] f show ?thesis by simp
next
  case (upsert_batch ds e r)
  show ?thesis
  proof (cases r)
    case (Inl x)
    from upsert_batch_fails [OF upsert_batch(3) [unfolded Inl] assms(2) upsert_batch(2)] f show ?thesis by simp
  next
    case (Inr ids)
    from frontier_inv_cong [OF upsert_each_f [OF upsert_batch_each [OF upsert_batch(3) [unfolded Inr] assms(2,3) upsert_batch(2)]]] f
    show ?thesis by simp
  qed
next
  case (index e i boost tok title body bulk r)
  from frontier_inv_cong [OF index_document_f [OF index(6) assms(2) index(2,5)]] f show ?thesis by simp
next
  case (crawl e boost tok title body d url r)
  show ?thesis by (rule crawl_frontier_inv [OF crawl(5) assms(2) crawl(2,4) f])
next
  case (delete i raw uh e r)
  have "raw \<noteq> []" using delete(3) assms(2) docs_okD(1) [of g "ds_db s" raw] by (auto simp: url_at_def doc_inv_def)
  from frontier_inv_cong [OF soft_delete_f [OF delete(4,2) this]] f show ?thesis by simp
next
  case (corpus ev r)
  have "ds_db s' = ds_db s" using corpus(2) by (auto simp: corpus_stats_def split: if_splits prod.splits)
  with f show ?thesis by simp
next
  case (bootstrap ev r)
  have "same_on (fam ''f'') db (apply_batch (count_ops a b) db)" for a b db
    by (auto simp: same_on_def count_ops_def store_meta_key_def)
  note frontier_inv_cong [OF this]
  with bootstrap(2) f show ?thesis
    by (auto simp: bootstrap_corpus_stats_def split: if_splits sum.splits prod.splits)
next
  case (stats ev r)
  have "ds_db s' = ds_db s" using stats(2) by (auto simp: doc_stats_def Let_def split: if_splits option.splits prod.splits)
  with f show ?thesis by simp
next
  case (frontier ev p')
  with frontier_step_inv [OF frontier(3)] f show ?thesis by simp
next
  case (restart ev)
  have "db_inv g (ds_db s)" using assms(2) by (simp add: doc_inv_db)
  with open_store_keeps(2) [OF restart(2)] f show ?thesis by simp
qed

lemma doc_run_ok:
  assumes "doc_run g s acks s'" "doc_inv g s" "gob_ok g"
  shows "step_ok g s acks s'"
  using assms
proof (induction rule: doc_run.induct)
  case (stop s)
  then show ?case by (simp add: step_ok_def)
next
  case (more s acks s1 acks' s2)
  note st = doc_step_ok [OF more(1,4,5)]
  from step_ok_trans [OF st more(3) [OF step_okD(1) [OF st] more(5)]] show ?case .
qed

lemma doc_run_frontier:
  assumes "doc_run g s acks s'" "doc_inv g s" "gob_ok g" "frontier_inv (ds_db s)"
  shows "frontier_inv (ds_db s')"
  using assms
proof (induction rule: doc_run.induct)
  case (more s acks s1 acks' s2)
  from more(3) [OF step_okD(1) [OF doc_step_ok [OF more(1,4,5)]] more(5) doc_step_frontier_inv [OF more(1,4,5,6)]] show ?case .
qed simp

lemma new_doc_store_inv: "doc_inv g new_doc_store" "frontier_inv (ds_db new_doc_store)"
proof -
  have d: "ds_db new_doc_store = fmempty" "ds_next_id new_doc_store = 0" by (simp_all add: new_doc_store_def empty_store_def)
  show "doc_inv g new_doc_store" unfolding doc_inv_def d
    by (simp add: docs_ok_def ids_ok_def terms_ok_def postings_ok_def freqs_ok_def doc_at_def term_at_def terms_of_def meta_at_def docs_with_def)
  show "frontier_inv (ds_db new_doc_store)" by (simp add: new_doc_store_def)
qed

end
