(* ===== verification/DocScan.thy ===== *)
theory DocScan
  imports DocSha DocTrace
begin

text \<open>What the scans return on the stores of the invariant.\<close>

section \<open>Numbers in key order\<close>

lemma be_nat_Cons: "be_nat (c # b) = byte_val c * 256 ^ length b + be_nat b"
proof -
  have f: "foldl (\<lambda>a c. a * 256 + byte_val c) x b = x * 256 ^ length b + foldl (\<lambda>a c. a * 256 + byte_val c) 0 b" for x
  proof (induction b arbitrary: x)
    case (Cons d b)
    from Cons [of "x * 256 + byte_val d"] Cons [of "byte_val d"] show ?case by (simp add: algebra_simps)
  qed simp
  show ?thesis unfolding be_nat_def using f [of "byte_val c"] by simp
qed

lemma be_nat_less: "length a = length b \<Longrightarrow> (be_nat a < be_nat b) = (a < b)"
proof (induction a b rule: list_induct2)
  case (Cons x xs y ys)
  have b: "be_nat xs < 256 ^ length xs" "be_nat ys < 256 ^ length xs" using be_nat_bound [of xs] be_nat_bound [of ys] Cons.hyps by simp_all
  consider "byte_val x < byte_val y" | "x = y" | "byte_val y < byte_val x" by (metis linorder_neqE_nat of_char_eq_iff)
  then show ?case
  proof cases
    case 1
    then have "(byte_val x + 1) * 256 ^ length xs \<le> byte_val y * 256 ^ length xs" by (intro mult_right_mono) simp_all
    with b 1 Cons.hyps show ?thesis by (auto simp: be_nat_Cons char_less_val algebra_simps)
  next
    case 2
    with Cons show ?thesis by (simp add: be_nat_Cons)
  next
    case 3
    then have "(byte_val y + 1) * 256 ^ length xs \<le> byte_val x * 256 ^ length xs" by (intro mult_right_mono) simp_all
    with b 3 Cons.hyps show ?thesis by (auto simp: be_nat_Cons char_less_val algebra_simps)
  qed
qed simp

lemma enc64_less:
  assumes "0 \<le> a" "a < 2 ^ 64" "0 \<le> b" "b < 2 ^ 64"
  shows "(enc64 a < enc64 b) = (a < b)"
proof -
  have v: "be_nat (enc64 z) = nat z" if "0 \<le> z" "z < 2 ^ 64" for z
    using that by (simp add: enc64_def be_nat_be64 nat_less_iff)
  show ?thesis using be_nat_less [of "enc64 a" "enc64 b"] assms by (auto simp: v)
qed

lemma enc64_less_id: "is_id a \<Longrightarrow> is_id b \<Longrightarrow> (enc64 a < enc64 b) = (a < b)"
  by (rule enc64_less) (simp_all add: is_id_def)

lemma same_prefix_less: "length b = length a \<Longrightarrow> (b @ x < a) = (b < a)"
  for a b x :: bytes
  by (induction b a rule: list_induct2) (simp, auto)

lemma id_between:
  assumes "is_id t" "is_id u" "enc64 t \<le> enc64 u @ r" "enc64 u @ r < enc64 (t + 1)"
  shows "u = t"
proof -
  have "\<not> enc64 u @ r < enc64 t" using assms(3) by simp
  then have "\<not> u < t" using same_prefix_less [of "enc64 u" "enc64 t" r] enc64_less_id [OF assms(2,1)] by simp
  moreover have "u < t + 1" using assms same_prefix_less [of "enc64 u" "enc64 (t + 1)" r] enc64_less [of u "t + 1"]
    by (simp add: is_id_def)
  ultimately show ?thesis by simp
qed

section \<open>Postings\<close>

lemma posting_keys:
  assumes "ids_ok db" "is_id t"
  shows "kv_keys db (posting_prefix t) (posting_prefix_upper t) = map (posting_key t) (sorted_list_of_set (docs_with db t))"
proof -
  have s: "set (kv_keys db (posting_prefix t) (posting_prefix_upper t)) = posting_key t ` docs_with db t"
  proof (intro equalityI subsetI)
    fix k assume "k \<in> set (kv_keys db (posting_prefix t) (posting_prefix_upper t))"
    then have k: "posting_prefix t \<le> k" "k < posting_prefix_upper t" "fmlookup db k \<noteq> None" by (auto simp: set_kv_keys)
    obtain r where r: "k = CHR ''p'' # r" "enc64 t \<le> r" "r < enc64 (t + 1)"
      using k(1,2) by (cases k) (auto simp: posting_prefix_def posting_prefix_upper_def)
    from ids_okD(2) [OF assms(1), of r] k(3) r(1) obtain u i where u: "is_id u" "is_id i" "r = enc64 u @ enc64 i" by auto
    with id_between [OF assms(2) u(1), of "enc64 i"] r have "u = t" by simp
    with u r k(3) show "k \<in> posting_key t ` docs_with db t" by (intro image_eqI [of _ _ i]) (auto simp: posting_key_def docs_with_def)
  next
    fix k assume "k \<in> posting_key t ` docs_with db t"
    then obtain i where i: "k = posting_key t i" "is_id i" "fmlookup db k \<noteq> None" by (auto simp: docs_with_def)
    have "\<not> enc64 t @ enc64 i < enc64 t" using same_prefix_less [of "enc64 t" "enc64 t" "enc64 i"] by simp
    moreover have "enc64 t @ enc64 i < enc64 (t + 1)"
      using same_prefix_less [of "enc64 t" "enc64 (t + 1)" "enc64 i"] enc64_less [of t "t + 1"] assms(2) by (simp add: is_id_def)
    ultimately show "k \<in> set (kv_keys db (posting_prefix t) (posting_prefix_upper t))"
      using i by (simp add: set_kv_keys posting_key_def posting_prefix_def posting_prefix_upper_def)
  qed
  have fin: "finite (docs_with db t)" and ids: "\<forall>i \<in> docs_with db t. is_id i" by (rule finite_docs_with) (simp add: docs_with_def)
  have "sorted_wrt (<) (map (posting_key t) (sorted_list_of_set (docs_with db t)))"
    unfolding sorted_wrt_map
  proof (rule sorted_wrt_mono_rel [of _ "(<)"])
    show "sorted_wrt (<) (sorted_list_of_set (docs_with db t))" using fin by (simp add: strict_sorted_iff)
    fix i j assume "i \<in> set (sorted_list_of_set (docs_with db t))" "j \<in> set (sorted_list_of_set (docs_with db t))" "i < j"
    then show "posting_key t i < posting_key t j" using fin ids by (simp add: posting_key_def enc64_less_id)
  qed
  then have "sorted (map (posting_key t) (sorted_list_of_set (docs_with db t)))" "distinct (map (posting_key t) (sorted_list_of_set (docs_with db t)))"
    by (simp_all add: strict_sorted_iff)
  then show ?thesis by (intro sorted_distinct_set_unique) (use s fin pebble.sorted_keys pebble.distinct_keys in simp_all)
qed

lemma scan_collect:
  assumes "\<And>k. k \<in> set ks \<Longrightarrow> row k = Inr (Some (f k))"
  shows "scan_rows row (while_true collect) ks xs = (None, xs @ map f ks)"
  using assms by (induction ks arbitrary: xs) (simp_all add: while_true_def collect_def)

definition entry_of :: "bytes kv \<Rightarrow> int \<Rightarrow> int \<Rightarrow> posting_entry" where
  "entry_of db t i = (case posting_at db t i of Some (tf, len) \<Rightarrow> \<lparr>pe_doc = i, pe_tf = tf, pe_len = len\<rparr>
     | None \<Rightarrow> \<lparr>pe_doc = i, pe_tf = 0, pe_len = 0\<rparr>)"

lemma iterate_postings_exact:
  assumes "ids_ok db" "postings_ok db" "is_id t" "quiet e"
  shows "iterate_postings e db t collect xs = (None, xs @ map (entry_of db t) (sorted_list_of_set (docs_with db t)))"
proof -
  have fin: "finite (docs_with db t)" by (rule finite_docs_with)
  have row: "posting_row e db 9 (posting_key t i) = Inr (Some (entry_of db t i))" if i: "i \<in> docs_with db t" for i
  proof -
    obtain v where v: "is_id i" "fmlookup db (posting_key t i) = Some v" using i by (auto simp: docs_with_def)
    with assms(2,3) obtain tf len where "v = pack_posting tf len" unfolding postings_ok_def by metis
    with v assms(4) show ?thesis
      by (simp add: posting_row_def entry_of_def posting_at_def) (simp add: posting_key_def)
  qed
  have "scan_rows (posting_row e db 9) (while_true collect) (map (posting_key t) (sorted_list_of_set (docs_with db t))) xs
      = (None, xs @ map (\<lambda>k. entry_of db t (dec64 (drop 9 k))) (map (posting_key t) (sorted_list_of_set (docs_with db t))))"
  proof (rule scan_collect)
    fix k assume "k \<in> set (map (posting_key t) (sorted_list_of_set (docs_with db t)))"
    then obtain i where "k = posting_key t i" "i \<in> docs_with db t" using fin by auto
    with row [of i] show "posting_row e db 9 k = Inr (Some (entry_of db t (dec64 (drop 9 k))))"
      by (simp add: posting_key_def docs_with_def)
  qed
  moreover have "map (\<lambda>k. entry_of db t (dec64 (drop 9 k))) (map (posting_key t) (sorted_list_of_set (docs_with db t)))
      = map (entry_of db t) (sorted_list_of_set (docs_with db t))"
    using fin by (simp add: posting_key_def docs_with_def)
  ultimately show ?thesis using assms(4) posting_keys [OF assms(1,3)]
    by (simp add: iterate_postings_def scan_family_def)
qed

end
