(* ===== verification/DocHits.thy ===== *)
theory DocHits
  imports DocScan
begin

text \<open>What a reader of the inverted index sees of a document once it is indexed.\<close>

text \<open>The posting entries that BM25 reads for a term: \<open>GetTermInfo\<close> followed by \<open>IteratePostings\<close>.\<close>

definition term_hits :: "env \<Rightarrow> bytes kv \<Rightarrow> bytes \<Rightarrow> posting_entry list" where
  "term_hits e db w = (case get_term_info e db w of Inr (Some x) \<Rightarrow> snd (iterate_postings e db (ti_id x) collect []) | _ \<Rightarrow> [])"

lemma get_term_info_view:
  assumes "terms_ok db" "quiet e"
  shows "get_term_info e db w = Inr (term_at db w)"
proof (cases "fmlookup db (term_key w)")
  case None
  with assms(2) show ?thesis by (simp add: get_term_info_def term_at_def)
next
  case (Some v)
  with assms(1) obtain x where "v = pack_term_info x" unfolding terms_ok_def by metis
  with Some assms(2) show ?thesis by (simp add: get_term_info_def term_at_def)
qed

lemma set_term_hits:
  assumes "db_inv g db" "quiet e"
  shows "set (term_hits e db w) = (case term_at db w of None \<Rightarrow> {} | Some x \<Rightarrow> entry_of db (ti_id x) ` docs_with db (ti_id x))"
proof -
  note a = assms(1) [unfolded db_inv_def]
  have t: "terms_ok db" using a by simp
  show ?thesis
  proof (cases "term_at db w")
    case None
    then show ?thesis by (simp add: term_hits_def get_term_info_view [OF t assms(2)])
  next
    case (Some x)
    from iterate_postings_exact [of db "ti_id x" e "[]"] terms_okD(1) [OF t Some] a assms(2)
    show ?thesis using finite_docs_with [of db "ti_id x"] by (simp add: term_hits_def get_term_info_view [OF t assms(2)] Some)
  qed
qed

lemma hits_cong:
  assumes "db_inv g db" "db_inv g db'" "same_on (fam ''tp'') db db'" "quiet e"
  shows "set (term_hits e db' w) = set (term_hits e db w)"
proof -
  note v = view_cong [OF assms(3)] and l = same_onD [OF assms(3)]
  have "docs_with db' x = docs_with db x" for x by (simp add: docs_with_def l)
  moreover have "entry_of db' x i = entry_of db x i" for x i by (simp add: entry_of_def v)
  ultimately show ?thesis unfolding set_term_hits [OF assms(1,4)] set_term_hits [OF assms(2,4)]
    by (cases "term_at db w") (simp_all add: v)
qed

text \<open>The batch of the index phase: the hits of every term, before and after.\<close>

lemma indexed_hits:
  assumes A: "db_inv g A" and D: "db_inv g D" and x: "indexed_by i len tf f ord A D" and en: "entries_ok (terms_of A i) tf f A"
    and i: "is_id i" and q: "quiet e" and len: "is_i64 len" and tf: "\<And>t. is_i64 (freq_of tf t)"
  shows "set (term_hits e D w) = {p \<in> set (term_hits e A w). pe_doc p \<noteq> i}
    \<union> (if w |\<in>| fmdom tf then {\<lparr>pe_doc = i, pe_tf = freq_of tf w, pe_len = len\<rparr>} else {})"
proof -
  note ix = x [unfolded indexed_by_def] and ok = A [unfolded db_inv_def]
  have t: "terms_ok A" and p: "postings_ok A" using ok by simp_all
  have ids: "is_id (ti_id (f u))" "is_id (ti_freq (f u))" if "u |\<in>| fmdom tf" for u
    using en [unfolded entries_ok_def, THEN conjunct1, rule_format, OF that] by blast+
  have tD: "term_at D u = (if u |\<in>| fmdom tf then Some (f u) else term_at A u)" for u
    using ix [THEN conjunct1, rule_format, of u] ids [of u] by (simp add: term_at_def)
  have other: "fmlookup D (posting_key y j) = fmlookup A (posting_key y j)" if "is_id y" "is_id j" "j \<noteq> i" for y j
    using ix [THEN conjunct2, THEN conjunct1, rule_format, OF that] .
  have eo: "entry_of D y j = entry_of A y j" if "is_id y" "is_id j" "j \<noteq> i" for y j
    using other [OF that] by (simp add: entry_of_def posting_at_def)
  have pd: "pe_doc (entry_of A y j) = j" for y j by (simp add: entry_of_def split: option.splits)
  have keep: "entry_of D y ` (docs_with D y - {i}) = {e \<in> entry_of A y ` docs_with A y. pe_doc e \<noteq> i}" if y: "is_id y" for y
  proof -
    have "docs_with D y - {i} = docs_with A y - {i}" using other [OF y] by (auto simp: docs_with_def)
    moreover have "entry_of D y ` (docs_with A y - {i}) = entry_of A y ` (docs_with A y - {i})"
      by (rule image_cong) (use eo [OF y] in \<open>auto simp: docs_with_def\<close>)
    moreover have "entry_of A y ` (docs_with A y - {i}) = {e \<in> entry_of A y ` docs_with A y. pe_doc e \<noteq> i}" using pd by auto
    ultimately show ?thesis by simp
  qed
  show ?thesis
  proof (cases "w |\<in>| fmdom tf")
    case True
    let ?y = "ti_id (f w)"
    have here: "fmlookup D (posting_key ?y i) = Some (pack_posting (freq_of tf w) len)" 
      using ix [THEN conjunct2, THEN conjunct2, THEN conjunct1, rule_format, OF True] .
    then have "i \<in> docs_with D ?y" using i by (simp add: docs_with_def)
    then have "entry_of D ?y ` docs_with D ?y = entry_of D ?y ` (docs_with D ?y - {i}) \<union> {entry_of D ?y i}" by auto
    moreover have "entry_of D ?y i = \<lparr>pe_doc = i, pe_tf = freq_of tf w, pe_len = len\<rparr>"
      using here len tf [of w] by (simp add: entry_of_def posting_at_def i64_id)
    moreover have "entry_of A ?y ` docs_with A ?y = set (term_hits e A w)"
    proof (cases "term_at A w")
      case None
      have "docs_with A ?y = {}"
      proof (rule ccontr)
        assume "docs_with A ?y \<noteq> {}"
        then obtain j where j: "is_id j" "fmlookup A (posting_key ?y j) \<noteq> None" by (auto simp: docs_with_def)
        with p ids(1) [OF True] have m: "?y \<in> set (terms_of A j)" unfolding postings_ok_def by blast
        then obtain v where "fmlookup A (doc_terms_key j) = Some v" by (cases "fmlookup A (doc_terms_key j)") (auto simp: terms_of_def)
        with p j(1) obtain js where js: "v = pack_doc_terms js" "length js < 2 ^ 63" "\<forall>t \<in> set js. is_id t \<and> (\<exists>w x. term_at A w = Some x \<and> ti_id x = t)"
          unfolding postings_ok_def by metis
        then have "terms_of A j = map i64 js" using \<open>fmlookup A (doc_terms_key j) = Some v\<close>
          by (simp add: terms_of_def unpack_pack_doc_terms)
        also have "\<dots> = js" using js(3) by (intro map_idI) simp
        finally obtain u x where "term_at A u = Some x" "ti_id x = ?y" using m js(3) by auto
        with en True None show False by (auto simp: entries_ok_def)
      qed
      with None set_term_hits [OF A q, of w] show ?thesis by simp
    next
      case (Some z)
      with en True have "ti_id z = ?y" by (force simp: entries_ok_def)
      with Some set_term_hits [OF A q, of w] show ?thesis by simp
    qed
    ultimately show ?thesis using True keep [OF ids(1) [OF True]] set_term_hits [OF D q, of w] by (simp add: tD)
  next
    case False
    show ?thesis
    proof (cases "term_at A w")
      case None
      with False show ?thesis by (simp add: set_term_hits [OF D q] set_term_hits [OF A q] tD)
    next
      case (Some z)
      have z: "is_id (ti_id z)" by (rule terms_okD(1) [OF t Some])
      have "ti_id z \<noteq> ti_id (f u)" if u: "u |\<in>| fmdom tf" for u
      proof
        assume eq: "ti_id z = ti_id (f u)"
        show False
        proof (cases "term_at A u")
          case None
          with en u Some eq show False by (auto simp: entries_ok_def)
        next
          case (Some y)
          with en u have "ti_id y = ti_id (f u)" by (force simp: entries_ok_def)
          then have "ti_id y = ti_id z" using eq by simp
          from terms_ok_inj [OF t Some \<open>term_at A w = Some z\<close> this] have "u = w" .
          with u False show False by simp
        qed
      qed
      note ne = this
      have "ti_id z \<notin> (ti_id \<circ> f) ` fset (fmdom tf)"
      proof
        assume "ti_id z \<in> (ti_id \<circ> f) ` fset (fmdom tf)"
        then obtain u where "u |\<in>| fmdom tf" "ti_id z = ti_id (f u)" by auto
        with ne [OF this(1)] show False by simp
      qed
      then have "fmlookup D (posting_key (ti_id z) i) = None"
        using ix [THEN conjunct2, THEN conjunct2, THEN conjunct2, THEN conjunct1, rule_format, OF z] by blast
      then have "docs_with D (ti_id z) - {i} = docs_with D (ti_id z)" by (simp add: docs_with_def)
      with keep [OF z] Some False show ?thesis by (simp add: set_term_hits [OF D q] set_term_hits [OF A q] tD)
    qed
  qed
qed

lemma term_freqs_room:
  assumes "clamp_boost b * int (length title) + int (length body) < 2 ^ 63"
  shows "is_i64 (freq_of (term_freqs (clamp_boost b) title body) t)"
proof -
  have b: "1 \<le> clamp_boost b" by (simp add: clamp_boost_def)
  have "count_list title t \<le> length title" "count_list body t \<le> length body" by (rule count_le_length)+
  then have "clamp_boost b * int (count_list title t) \<le> clamp_boost b * int (length title)" "int (count_list body t) \<le> int (length body)"
    using b by (simp_all add: mult_left_mono)
  moreover have "0 \<le> clamp_boost b * int (count_list title t)" using b by simp
  ultimately show ?thesis using assms unfolding freq_of_term_freqs is_i64_def by simp
qed

lemma index_document_hits:
  assumes run: "index_document g e i title text tok boost bulk s = (Inr (), s')" and inv: "doc_inv g s" and safe: "counter_safe e"
    and i: "is_id i" "i \<le> stored_id (ds_db s)" and room: "index_room (term_freqs (clamp_boost boost) (tok title) (tok text)) (ds_db s)"
    and words: "tok title \<noteq> [] \<or> tok text \<noteq> []" "clamp_boost boost * int (length (tok title)) + int (length (tok text)) < 2 ^ 63" and q: "quiet ev"
  shows "set (term_hits ev (ds_db s') w) = {p \<in> set (term_hits ev (ds_db s) w). pe_doc p \<noteq> i}
    \<union> (if w \<in> set (tok title) \<union> set (tok text)
       then {\<lparr>pe_doc = i, pe_tf = clamp_boost boost * int (count_list (tok title) w) + int (count_list (tok text) w),
              pe_len = int (length (tok title) + length (tok text))\<rparr>} else {})"
proof -
  define tf where "tf = term_freqs (clamp_boost boost) (tok title) (tok text)"
  define len where "len = int (length (tok title) + length (tok text))"
  define dmn where "dmn = (if \<not> bulk \<and> de_partition e
               then (case get_doc_by_id g (de_env e) (ds_db s) i of Inr d \<Rightarrow> doc_domain d | Inl _ \<Rightarrow> []) else [])"
  obtain z s2 where z: "index_part e i len tf dmn s = (z, s2)" by fastforce
  have l0: "len \<noteq> 0" using words(1) by (auto simp: len_def simp flip: of_nat_add)
  obtain ops lsum cnt where ops: "z = Inr (ops, lsum, cnt)" "s' = mirror_counts lsum cnt (with_db (apply_batch ops (ds_db s2)) s2)"
    using run z l0 unfolding index_document_def Let_def len_def [symmetric] tf_def [symmetric] dmn_def [symmetric]
    by (auto split: if_splits sum.splits prod.splits)
  note ip = z [unfolded ops(1)] and rm = room [folded tf_def]
  have t: "terms_ok (ds_db s)" and db: "db_inv g (ds_db s)" using inv by (simp_all add: doc_inv_def db_inv_def)
  note sp = index_part_spec [OF ip safe t rm]
  have dr: "drifted (ds_db s) (ds_db s2)" using sp by blast
  have "stored_term (ds_db s2) < 2 ^ 63" using sp rm by (simp add: index_room_def)
  from drift_keeps [OF inv dr this] have inv2: "db_inv g (ds_db s2)" by (simp add: doc_inv_db)
  have le: "i \<le> stored_id (ds_db s2)" using i(2) drifted_meta [OF dr, of "''next_doc_id''"] by simp
  from index_part_commit [OF ip safe db rm inv2 _ _ i(1) le] obtain f ord where x: "db_inv g (ds_db s')"
    "indexed_by i len tf f ord (ds_db s2) (ds_db s')" "entries_ok (terms_of (ds_db s2) i) tf f (ds_db s2)"
    by (auto simp: ops(2))
  have "1 \<le> clamp_boost boost" by (simp add: clamp_boost_def)
  then have "1 * int (length (tok title)) \<le> clamp_boost boost * int (length (tok title))" by (intro mult_right_mono) simp_all
  then have "is_i64 len" using words(2) by (simp add: len_def is_i64_def)
  moreover have "is_i64 (freq_of tf u)" for u unfolding tf_def by (rule term_freqs_room [OF words(2)])
  ultimately have h: "set (term_hits ev (ds_db s') w) = {p \<in> set (term_hits ev (ds_db s2) w). pe_doc p \<noteq> i}
    \<union> (if w |\<in>| fmdom tf then {\<lparr>pe_doc = i, pe_tf = freq_of tf w, pe_len = len\<rparr>} else {})"
    by (intro indexed_hits [OF inv2 x i(1) q])
  have "set (term_hits ev (ds_db s2) w) = set (term_hits ev (ds_db s) w)"
    by (rule hits_cong [OF db inv2 drifted_same [OF dr] q]) simp
  moreover have "w |\<in>| fmdom tf \<longleftrightarrow> w \<in> set (tok title) \<union> set (tok text)"
    by (simp add: tf_def term_freqs_dom fset_of_list_elem)
  ultimately show ?thesis using h by (simp add: tf_def len_def freq_of_term_freqs)
qed

end
