(* ===== verification/DocContent.thy ===== *)
theory DocContent
  imports DocHits
begin

text \<open>The content hash index answers exactly which hashes are stored, and its back-filling makes an older store so.\<close>

section \<open>Every stored hash is indexed\<close>

definition hashed :: "gob \<Rightarrow> bytes kv \<Rightarrow> int \<Rightarrow> bytes \<Rightarrow> bool" where
  "hashed g db i sha = (is_id i \<and> length sha = 32 \<and> (\<exists>d. doc_at g db i = Some d \<and> doc_sha d = sha))"

definition sha_ok :: "gob \<Rightarrow> bytes kv \<Rightarrow> bool" where
  "sha_ok g db = (\<forall>i sha. hashed g db i sha \<longrightarrow> fmlookup db (content_sha_key sha i) \<noteq> None)"

lemma hashed_cong: "same_on (fam ''dC'') db db' \<Longrightarrow> hashed g db' i sha = hashed g db i sha"
  using view_cong(2) [of "fam ''dC''" db db' i g] by (simp add: hashed_def)

lemma sha_ok_cong: "same_on (fam ''dC'') db db' \<Longrightarrow> sha_ok g db' = sha_ok g db"
  using same_onD [of "fam ''dC''" db db'] by (simp add: sha_ok_def hashed_cong)

lemma sha_ok_doc_batch:
  assumes ok: "sha_ok g db" and ops: "doc_ops g d i = Inr ops" and g: "gob_ok g" and i: "is_id i"
  shows "sha_ok g (apply_batch (ops @ next_doc_ops new k) db)"
proof -
  let ?D = "apply_batch (ops @ next_doc_ops new k) db"
  from doc_ops_writes [OF ops] obtain b0 where b0: "gob_enc g d = Some b0"
    and w: "\<And>b. b \<in> set ops \<longleftrightarrow> b = BSet (doc_key i) b0 \<or> b = BSet (url_key (doc_url d)) (enc64 i)
      \<or> b = BSet (doc_meta_key i) (pack_doc_meta (doc_url d) (doc_title d))
      \<or> doc_domain d \<noteq> [] \<and> b = BSet (host_key (doc_domain d) i) []
      \<or> length (doc_sha d) = 32 \<and> b = BSet (content_sha_key (doc_sha d) i) []" by blast
  have up: "upserted d i b0 db ?D" using doc_batch_upserted [OF ops i, where db = db and new = new and k = k] b0 by auto
  have di: "doc_at g ?D i = Some d" using up b0 g by (simp add: upserted_def doc_at_def gob_ok_def)
  have dj: "doc_at g ?D j = doc_at g db j" if "is_id j" "j \<noteq> i" for j using up that by (simp add: upserted_def doc_at_def)
  have mono: "fmlookup ?D (content_sha_key sha j) \<noteq> None" if "fmlookup db (content_sha_key sha j) \<noteq> None" for sha j
  proof (cases "\<exists>b \<in> set (ops @ next_doc_ops new k). touches b (content_sha_key sha j)")
    case False
    then have "fmlookup ?D (content_sha_key sha j) = fmlookup db (content_sha_key sha j)" by (intro lookup_batch_untouched) blast
    with that show ?thesis by simp
  next
    case True
    have "b = BSet (content_sha_key sha j) []" if "b \<in> set (ops @ next_doc_ops new k)" "touches b (content_sha_key sha j)" for b
    proof -
      have "b \<in> set ops \<or> b = BSet (store_meta_key ''next_doc_id'') (enc64 k)" using that(1) by (auto simp: next_doc_ops_def split: if_splits)
      then show ?thesis using that(2) unfolding w by (elim disjE conjE) auto
    qed
    with True have "fmlookup ?D (content_sha_key sha j) = Some []" by (intro batch_sets) blast+
    then show ?thesis by simp
  qed
  show ?thesis unfolding sha_ok_def
  proof (intro allI impI)
    fix j sha assume h: "hashed g ?D j sha"
    show "fmlookup ?D (content_sha_key sha j) \<noteq> None"
    proof (cases "j = i")
      case False
      have "is_id j" using h by (simp add: hashed_def)
      from dj [OF this False] h have "hashed g db j sha" by (simp add: hashed_def)
      with ok mono show ?thesis by (simp add: sha_ok_def)
    next
      case True
      with h di have s: "doc_sha d = sha" "length sha = 32" by (auto simp: hashed_def)
      then have "BSet (content_sha_key sha i) [] \<in> set (ops @ next_doc_ops new k)" by (simp add: w)
      then have "fmlookup ?D (content_sha_key sha i) = Some []"
      proof (rule batch_set_in)
        fix b assume b: "b \<in> set (ops @ next_doc_ops new k)" "touches b (content_sha_key sha i)"
        have "b \<in> set ops \<or> b = BSet (store_meta_key ''next_doc_id'') (enc64 k)" using b(1) by (auto simp: next_doc_ops_def split: if_splits)
        then show "b = BSet (content_sha_key sha i) []" using b(2) unfolding w by (elim disjE conjE) auto
      qed
      with True show ?thesis by simp
    qed
  qed
qed

lemma upsert_sha_ok:
  assumes run: "upsert_document g e d s = (r, s')" and inv: "doc_inv g s" and room: "ds_next_id s + 1 < 2 ^ 63" and g: "gob_ok g"
    and ok: "sha_ok g (ds_db s)"
  shows "sha_ok g (ds_db s')"
proof -
  obtain q s1 where q: "resolve_id (de_env e) (doc_url d) s = (q, s1)" by fastforce
  note db = resolve_id_db [OF q]
  consider "s' = s" | "s' = s1" | i new ops where "q = Inr (i, new)" "doc_ops g (d\<lparr>doc_id := i\<rparr>) i = Inr ops"
      "s' = with_db (apply_batch (ops @ next_doc_ops new i) (ds_db s1)) s1"
    using run q by (auto simp: upsert_document_def split: if_splits sum.splits prod.splits)
  then show ?thesis
  proof cases
    case 3
    have "is_id i" using resolve_id_spec [OF q inv room] 3(1) by (simp add: id_for_def)
    from sha_ok_doc_batch [OF ok 3(2) g this] show ?thesis unfolding 3(3) with_db_simps(1) db .
  qed (simp_all add: db ok)
qed

lemma upsert_each_sha_ok:
  assumes "upsert_each g e ds s = (r, s')" "doc_inv g s" "gob_ok g" "ds_next_id s + int (length ds) < 2 ^ 63" "sha_ok g (ds_db s)"
  shows "sha_ok g (ds_db s')"
  using assms
proof (induction ds arbitrary: s r s')
  case (Cons d ds)
  obtain q s1 where q: "upsert_document g e d s = (q, s1)" by fastforce
  obtain p s2 where p: "upsert_each g e ds s1 = (p, s2)" by fastforce
  have room: "ds_next_id s + 1 < 2 ^ 63" using Cons.prems(4) by simp
  have i1: "doc_inv g s1" using upsert_document_keeps [OF q Cons.prems(2,3) room] by simp
  have n1: "ds_next_id s1 \<le> ds_next_id s + 1"
  proof -
    obtain p s0 where p: "resolve_id (de_env e) (doc_url d) s = (p, s0)" by fastforce
    with q have "ds_next_id s1 = ds_next_id s0 \<or> s1 = s" by (auto simp: upsert_document_def split: if_splits sum.splits)
    with resolve_id_next [OF p Cons.prems(2) room] show ?thesis by auto
  qed
  note ok1 = upsert_sha_ok [OF q Cons.prems(2) room Cons.prems(3,5)]
  have "sha_ok g (ds_db s2)" by (rule Cons.IH [OF p i1 Cons.prems(3) _ ok1]) (use n1 Cons.prems(4) in simp)
  moreover have "s' = s1 \<or> s' = s2" using Cons.prems(1) q p by (auto split: sum.splits)
  ultimately show ?case using ok1 by auto
qed simp

lemma index_document_other:
  assumes run: "index_document g e i title text tok boost bulk s = (r, s')" and inv: "doc_inv g s" and safe: "counter_safe e"
    and room: "index_room (term_freqs (clamp_boost boost) (tok title) (tok text)) (ds_db s)"
  shows "same_on (fam ''duihfC'') (ds_db s) (ds_db s')"
proof -
  define tf where "tf = term_freqs (clamp_boost boost) (tok title) (tok text)"
  define len where "len = int (length (tok title) + length (tok text))"
  define dmn where "dmn = (if \<not> bulk \<and> de_partition e
               then (case get_doc_by_id g (de_env e) (ds_db s) i of Inr d \<Rightarrow> doc_domain d | Inl _ \<Rightarrow> []) else [])"
  obtain q s2 where q: "index_part e i len tf dmn s = (q, s2)" by fastforce
  have t: "terms_ok (ds_db s)" using inv by (simp add: doc_inv_def)
  note u2 = index_part_drift [OF q safe t room [folded tf_def]]
  consider "s' = s" | "s' = s2"
    | ops lsum cnt where "q = Inr (ops, lsum, cnt)" "s' = mirror_counts lsum cnt (with_db (apply_batch ops (ds_db s2)) s2)"
    using run q unfolding index_document_def Let_def len_def [symmetric] tf_def [symmetric] dmn_def [symmetric]
    by (auto split: if_splits sum.splits prod.splits)
  then show ?thesis
  proof cases
    case 3
    have "same_on (fam ''duihfC'') (ds_db s2) (ds_db s')" unfolding same_on_def
      by (simp add: 3(2) index_part_other [OF q [unfolded 3(1)]])
    with u2 show ?thesis by (rule same_on_trans)
  qed (use u2 in simp_all)
qed

lemma crawl_sha_ok:
  assumes run: "write_crawl_result g e d title text url tok boost s = (r, s')" and inv: "doc_inv g s" and safe: "counter_safe e"
    and room: "ds_next_id s + 1 < 2 ^ 63" "index_room (term_freqs (clamp_boost boost) (tok title) (tok text)) (ds_db s)"
    and g: "gob_ok g" and ok: "sha_ok g (ds_db s)"
  shows "sha_ok g (ds_db s')"
proof -
  define tf where "tf = term_freqs (clamp_boost boost) (tok title) (tok text)"
  have t: "terms_ok (ds_db s)" using inv by (simp add: doc_inv_def)
  have drift: "sha_ok g (ds_db s2)" if "resolve_id (de_env e) (doc_url d) s = (q, s1)" "index_part e i len tf dmn s1 = (z, s2)" for q s1 i len dmn z s2
  proof -
    have 1: "ds_db s1 = ds_db s" by (rule resolve_id_db [OF that(1)])
    have "same_on (fam ''dC'') (ds_db s) (ds_db s2)"
      using index_part_drift [OF that(2) safe] t room(2) unfolding 1 tf_def by (auto intro: same_on_weaken simp: fam_def)
    with ok show ?thesis by (simp add: sha_ok_cong)
  qed
  have ids: "is_id i" if "resolve_id (de_env e) (doc_url d) s = (Inr (i, new), s1)" for i new s1
    using resolve_id_spec [OF that inv room(1)] by (simp add: id_for_def)
  have compl: "sha_ok g (apply_batch (complete_ops (de_env e) db url) D)" if "sha_ok g D" for db D
  proof -
    have "same_on (fam ''dC'') D (apply_batch (complete_ops (de_env e) db url) D)"
      by (rule same_on_weaken [OF complete_ops_same]) (auto simp: fam_def)
    with that show ?thesis by (simp add: sha_ok_cong)
  qed
  show ?thesis using run
  proof (cases rule: write_crawl_cases)
    case refused
    with ok show ?thesis by simp
  next
    case unresolved
    then show ?thesis using resolve_id_db [OF unresolved(2)] ok by simp
  next
    case unencoded
    then show ?thesis using resolve_id_db [OF unencoded(2)] ok by simp
  next
    case (plain i new dops s1)
    note db1 = resolve_id_db [OF plain(2)]
    from compl [OF sha_ok_doc_batch [OF ok plain(3) g ids [OF plain(2)], of new i], of "ds_db s1"] plain(5) ok
    show ?thesis by (auto simp: db1 split: if_splits)
  next
    case (unindexed x i new s1)
    with drift [OF unindexed(2) unindexed(3) [folded tf_def]] show ?thesis by simp
  next
    case (indexed i new dops s1 s2 iops lsum cnt)
    note ip = indexed(4) [folded tf_def]
    note dr = drift [OF indexed(2) ip]
    let ?A = "apply_batch (dops @ next_doc_ops new i) (ds_db s2)"
    have "same_on (fam ''dC'') ?A (apply_batch iops ?A)"
      unfolding same_on_def
    proof (intro allI impI)
      fix k assume "fam ''dC'' k"
      then have "fam ''duihfC'' k" by (auto simp: fam_def)
      then show "fmlookup (apply_batch iops ?A) k = fmlookup ?A k" by (rule index_part_other [OF ip])
    qed
    with sha_ok_doc_batch [OF dr indexed(3) g ids [OF indexed(2)], of new i] have "sha_ok g (apply_batch iops ?A)" by (simp add: sha_ok_cong)
    from compl [OF this, of "ds_db s2"] indexed(5) dr show ?thesis by (auto split: if_splits)
  qed
qed

lemma soft_delete_sha_ok:
  assumes run: "soft_delete_document uh e i raw s = (r, s')" and i: "is_id i" "raw \<noteq> []" and ok: "sha_ok g (ds_db s)"
  shows "sha_ok g (ds_db s')"
  using run
proof (cases rule: soft_delete_cases)
  case (deleted had lsum cnt)
  note rm = delete_removed [OF i, of "ds_db s" uh "had \<noteq> None" lsum cnt]
  have db: "ds_db s' = apply_batch (delete_ops uh i raw (had \<noteq> None) @ count_ops lsum cnt) (ds_db s)" by (simp add: deleted(4))
  note rm' = rm [folded db, unfolded removed_def]
  have gone: "fmlookup (ds_db s') (doc_key i) = None"
    and rest: "\<And>j. is_id j \<Longrightarrow> j \<noteq> i \<Longrightarrow> fmlookup (ds_db s') (doc_key j) = fmlookup (ds_db s) (doc_key j)"
    and c: "\<And>k. \<not> fam ''duihlm'' k \<Longrightarrow> fmlookup (ds_db s') k = fmlookup (ds_db s) k" using rm' by (simp_all del: fam_def)
  show ?thesis unfolding sha_ok_def
  proof (intro allI impI)
    fix j sha assume h: "hashed g (ds_db s') j sha"
    then have j: "j \<noteq> i" "is_id j" using gone by (auto simp: hashed_def doc_at_def)
    from rest [OF j(2,1)] h have "hashed g (ds_db s) j sha" by (simp add: hashed_def doc_at_def)
    with ok c [of "content_sha_key sha j"] show "fmlookup (ds_db s') (content_sha_key sha j) \<noteq> None" by (simp add: sha_ok_def)
  qed
qed (use ok in simp)

lemma doc_step_sha_ok:
  assumes "doc_step g s acks s'" "doc_inv g s" "gob_ok g" and ok: "sha_ok g (ds_db s)"
  shows "sha_ok g (ds_db s')"
  using assms(1)
proof cases
  case (upsert e d r)
  from upsert_sha_ok [OF upsert(3) assms(2) upsert(2) assms(3) ok] show ?thesis .
next
  case (upsert_batch ds e r)
  show ?thesis
  proof (cases r)
    case (Inl x)
    from upsert_batch_fails [OF upsert_batch(3) [unfolded Inl] assms(2) upsert_batch(2)] ok show ?thesis by simp
  next
    case (Inr ids)
    from upsert_each_sha_ok [OF upsert_batch_each [OF upsert_batch(3) [unfolded Inr] assms(2,3) upsert_batch(2)] assms(2,3) upsert_batch(2) ok]
    show ?thesis .
  qed
next
  case (index e i boost tok title body bulk r)
  have "same_on (fam ''dC'') (ds_db s) (ds_db s')"
    by (rule same_on_weaken [OF index_document_other [OF index(6) assms(2) index(2,5)]]) (auto simp: fam_def)
  with ok show ?thesis by (simp add: sha_ok_cong)
next
  case (crawl e boost tok title body d url r)
  show ?thesis by (rule crawl_sha_ok [OF crawl(5) assms(2) crawl(2-4) assms(3) ok])
next
  case (delete i raw uh e r)
  have "raw \<noteq> []" using delete(3) assms(2) docs_okD(1) [of g "ds_db s" raw] by (auto simp: url_at_def doc_inv_def)
  from soft_delete_sha_ok [OF delete(4,2) this ok] show ?thesis .
next
  case (corpus ev r)
  have "ds_db s' = ds_db s" using corpus(2) by (auto simp: corpus_stats_def split: if_splits prod.splits)
  with ok show ?thesis by simp
next
  case (bootstrap ev r)
  have "same_on (fam ''dC'') db (apply_batch (count_ops a b) db)" for a b db
    by (auto simp: same_on_def count_ops_def store_meta_key_def)
  note sha_ok_cong [OF this]
  with bootstrap(2) ok show ?thesis
    by (auto simp: bootstrap_corpus_stats_def split: if_splits sum.splits prod.splits)
next
  case (stats ev r)
  have "ds_db s' = ds_db s" using stats(2) by (auto simp: doc_stats_def Let_def split: if_splits option.splits prod.splits)
  with ok show ?thesis by simp
next
  case (frontier ev p')
  have "same_on (fam ''dC'') (ds_db s) (ds_db s')"
    using frontier_step_frame [OF frontier(3)] unfolding frontier(2) f_same_def by (auto intro: same_on_weaken simp: fam_def)
  with ok show ?thesis by (simp add: sha_ok_cong)
next
  case (restart ev)
  have "db_inv g (ds_db s)" using assms(2) by (simp add: doc_inv_db)
  with open_store_keeps(2) [OF restart(2)] ok show ?thesis by simp
qed

lemma doc_run_sha_ok:
  assumes "doc_run g s acks s'" "doc_inv g s" "gob_ok g" "sha_ok g (ds_db s)"
  shows "sha_ok g (ds_db s')"
  using assms
proof (induction rule: doc_run.induct)
  case (more s acks s1 acks' s2)
  from more(3) [OF step_okD(1) [OF doc_step_ok [OF more(1,4,5)]] more(5) doc_step_sha_ok [OF more(1,4,5,6)]] show ?case .
qed simp

section \<open>The lookup\<close>

lemma length_sha_key [simp]: "length sha = 32 \<Longrightarrow> length (content_sha_key sha i) = 41"
  by (simp add: content_sha_key_def)

lemma sha_key_split: "length sha = 32 \<Longrightarrow> content_sha_key sha i = (CHR ''C'' # sha) @ enc64 i"
  by (simp add: content_sha_key_def)

lemma sha_prefix_eq: "length sha = 32 \<Longrightarrow> sha_prefix sha = CHR ''C'' # sha"
  by (simp add: sha_prefix_def content_sha_key_def)

lemma prefix_le_append: "(p :: bytes) \<le> p @ r"
  by (induction p) simp_all

lemma append_less_cancel: "((p :: bytes) @ a < p @ b) = (a < b)"
  by (induction p) simp_all

lemma sha_key_range:
  assumes "length sha = 32" "is_id i"
  shows "sha_prefix sha \<le> content_sha_key sha i \<and> content_sha_key sha i < sha_prefix sha @ replicate 9 (CHR 0xFF)"
proof -
  have "enc64 i < replicate 9 (CHR 0xFF)"
  proof -
    have "be_nat (enc64 i) = nat i" using assms(2) by (simp add: enc64_def be_nat_be64 nat_less_iff is_id_def)
    moreover have "be_nat (replicate 8 (CHR 0xFF)) = 2 ^ 64 - 1" by code_simp
    ultimately have "be_nat (enc64 i) < be_nat (replicate 8 (CHR 0xFF))" using assms(2) by (simp add: is_id_def nat_less_iff)
    then have "enc64 i < replicate 8 (CHR 0xFF)" using be_nat_less [of "enc64 i" "replicate 8 (CHR 0xFF)"] by simp
    also have "replicate 8 (CHR 0xFF) < replicate 9 (CHR 0xFF)" by code_simp
    finally show ?thesis .
  qed
  with assms(1) show ?thesis by (simp add: sha_prefix_eq sha_key_split prefix_le_append append_less_cancel del: append_Cons)
qed

text \<open>A row of the range with a well-formed key is one of the hash.\<close>

lemma range_prefix: "length q = length p \<Longrightarrow> p \<le> q @ r \<Longrightarrow> q @ r < p @ x \<Longrightarrow> q = (p :: bytes)"
  by (induction q p rule: list_induct2) (auto simp: le_less)

lemma in_sha_range:
  assumes "length sha = 32" "sha_prefix sha \<le> k" "k < sha_prefix sha @ x" "length k = 41"
  shows "take 33 k = sha_prefix sha"
  by (rule range_prefix [of _ _ "drop 33 k" x]) (use assms in \<open>simp_all add: sha_prefix_eq\<close>)

lemma get_doc_quiet:
  assumes "ids_ok db" "docs_ok g db" "quiet e" "is_i64 i"
  shows "(\<exists>d. get_doc_by_id g e db i = Inr d \<and> doc_at g db i = Some d \<and> is_id i)
    \<or> (get_doc_by_id g e db i = Inl Missing \<and> doc_at g db i = None)"
proof (cases "fmlookup db (doc_key i)")
  case None
  with assms(3) show ?thesis by (simp add: get_doc_by_id_def doc_at_def)
next
  case (Some v)
  then have "fmlookup db (CHR ''d'' # enc64 i) \<noteq> None" by (simp add: doc_key_def)
  from ids_okD(1) [OF assms(1) this] obtain j where j: "is_id j" "enc64 i = enc64 j" by auto
  then have "is_id i" using enc64_inj [OF assms(4), of j] by simp
  with docs_okD(2) [OF assms(2), of i] Some obtain d where "doc_at g db i = Some d" by auto
  with Some \<open>is_id i\<close> assms(3) show ?thesis by (simp add: get_doc_by_id_def doc_at_def)
qed

lemma is_i64_dec64 [simp]: "is_i64 (dec64 b)"
  unfolding dec64_def i64_def is_i64_def by (simp add: pos_mod_bound)

lemma live_loop_exact:
  assumes "ids_ok db" "docs_ok g db" "quiet e"
  shows "live_loop g e db sha excl ks = Inr (\<exists>k \<in> set ks. length k = 41 \<and> dec64 (drop 33 k) \<noteq> excl
    \<and> (\<exists>d. doc_at g db (dec64 (drop 33 k)) = Some d \<and> is_id (dec64 (drop 33 k)) \<and> doc_sha d = sha))"
proof (induction ks)
  case (Cons k ks)
  from get_doc_quiet [OF assms, of "dec64 (drop 33 k)"] Cons show ?case by (auto simp: Let_def)
qed simp

lemma has_live_content_exact:
  assumes inv: "db_inv g db" and ok: "sha_ok g db" and q: "quiet e" and l: "length sha = 32"
  shows "has_live_content g e db sha excl = Inr (\<exists>i. i \<noteq> excl \<and> hashed g db i sha)"
proof -
  note a = inv [unfolded db_inv_def]
  let ?ks = "kv_keys db (sha_prefix sha) (sha_prefix sha @ replicate 9 (CHR 0xFF))"
  have "has_live_content g e db sha excl = Inr (\<exists>k \<in> set ?ks. length k = 41 \<and> dec64 (drop 33 k) \<noteq> excl
    \<and> (\<exists>d. doc_at g db (dec64 (drop 33 k)) = Some d \<and> is_id (dec64 (drop 33 k)) \<and> doc_sha d = sha))"
    using live_loop_exact [of db g e] a q l by (simp add: has_live_content_def)
  also have "(\<exists>k \<in> set ?ks. length k = 41 \<and> dec64 (drop 33 k) \<noteq> excl
    \<and> (\<exists>d. doc_at g db (dec64 (drop 33 k)) = Some d \<and> is_id (dec64 (drop 33 k)) \<and> doc_sha d = sha)) = (\<exists>i. i \<noteq> excl \<and> hashed g db i sha)"
    (is "?L = ?R")
  proof
    assume ?L
    then show ?R using l by (auto simp: hashed_def)
  next
    assume ?R
    then obtain i where i: "i \<noteq> excl" "hashed g db i sha" by blast
    then have id: "is_id i" by (simp add: hashed_def)
    have "content_sha_key sha i \<in> set ?ks"
      using ok i(2) sha_key_range [OF l id] by (simp add: set_kv_keys sha_ok_def)
    moreover have "dec64 (drop 33 (content_sha_key sha i)) = i" using l id by (simp add: content_sha_key_def)
    ultimately show ?L using i id l by (intro bexI [of _ "content_sha_key sha i"]) (auto simp: hashed_def)
  qed
  finally show ?thesis .
qed

end
