(* ===== verification/DocTotal.thy ===== *)
theory DocTotal
  imports DocContent
begin

text \<open>Without faults every read of a store of the invariant succeeds, and so do the writes.\<close>

section \<open>Reads\<close>

lemma read_doc_len_total:
  assumes "postings_ok db" "quiet e" "is_id i"
  shows "read_doc_len e db i = Inr (len_at db i)"
proof (cases "fmlookup db (doc_len_key i)")
  case (Some v)
  then have "length v = 8" using assms(1,3) unfolding postings_ok_def by blast
  with Some assms(2) show ?thesis by (simp add: read_doc_len_def len_at_def)
qed (use assms in \<open>simp add: read_doc_len_def len_at_def\<close>)

lemma read_doc_terms_total:
  assumes "postings_ok db" "quiet e" "is_id i"
  shows "read_doc_terms e db i = Inr (terms_of db i)"
proof (cases "fmlookup db (doc_terms_key i)")
  case (Some v)
  then obtain ids where "v = pack_doc_terms ids" "length ids < 2 ^ 63" using assms(1,3) unfolding postings_ok_def by blast
  with Some assms(2) show ?thesis by (simp add: read_doc_terms_def terms_of_def unpack_pack_doc_terms)
qed (use assms in \<open>simp add: read_doc_terms_def terms_of_def\<close>)

lemma lookup_id_total:
  assumes "docs_ok g db" "quiet e"
  shows "lookup_id e db u = Inr (url_at db u)"
proof (cases "fmlookup db (url_key u)")
  case (Some v)
  from docs_okD(1) [OF assms(1) Some] obtain i where "is_id i" "v = enc64 i" by blast
  with Some assms(2) show ?thesis by (simp add: lookup_id_def lookup_id_by_url_def url_at_def dec64_def)
qed (use assms in \<open>simp add: lookup_id_def lookup_id_by_url_def url_at_def\<close>)

section \<open>Writes\<close>

lemma resolve_id_total:
  assumes "docs_ok g (ds_db s)" "quiet e"
  shows "\<exists>i new s1. resolve_id e u s = (Inr (i, new), s1)"
  using lookup_id_total [OF assms] by (cases "url_at (ds_db s) u") (auto simp: resolve_id_def Let_def)

lemma index_terms_total:
  assumes "\<And>t. \<exists>x. get_term_info (de_env e) db t = Inr x"
  shows "\<exists>ops' new' db'. index_terms e i len hid old tf ts ops new db = (Inr (ops', new'), db')"
  using assms
proof (induction ts arbitrary: ops new db)
  case (Cons t ts)
  obtain x where x: "get_term_info (de_env e) db t = Inr x" using Cons.prems by blast
  obtain info db1 where te: "term_entry e old db t = (Inr info, db1)" and db1: "db1 = db \<or> (\<exists>v. db1 = fmupd (store_meta_key ''next_term_id'') v db)"
    using x by (cases x; cases "de_set_err e (store_meta_key ''next_term_id'')") (auto simp: term_entry_def next_term_id_def Let_def)
  have "get_term_info (de_env e) db1 u = get_term_info (de_env e) db u" for u using db1 by (auto simp: get_term_info_def)
  with Cons.IH [of db1] Cons.prems te show ?case by simp
qed simp

lemma index_part_total:
  assumes q: "quiet (de_env e)" and ok: "terms_ok (ds_db s)" "postings_ok (ds_db s)" and i: "is_id i"
  shows "\<exists>ops lsum cnt s2. index_part e i len tf dmn s = (Inr (ops, lsum, cnt), s2)"
proof -
  obtain hid db1 where h: "(if dmn = [] then (0, ds_db s)
      else (case get_or_alloc_host e (ds_db s) dmn of (Inr h, d) \<Rightarrow> (h, d) | (Inl _, d) \<Rightarrow> (0, d))) = (hid, db1)" by fastforce
  have d1: "drifted (ds_db s) db1" using h alloc_host_drifted [of e "ds_db s" dmn] by (auto split: if_splits prod.splits sum.splits)
  have "fmlookup db1 (term_key t) = fmlookup (ds_db s) (term_key t)" for t using d1 by (auto simp: drifted_def same_on_def)
  then have "get_term_info (de_env e) db1 t = get_term_info (de_env e) (ds_db s) t" for t by (simp add: get_term_info_def)
  then have "\<exists>x. get_term_info (de_env e) db1 t = Inr x" for t using get_term_info_view [OF ok(1) q] by simp
  from index_terms_total [OF this] obtain ops new db2
    where "index_terms e i len hid (terms_of (ds_db s) i) tf (range_order (de_terms e) (sorted_list_of_fset (fmdom tf))) [] [] db1 = (Inr (ops, new), db2)"
    by blast
  with h read_doc_len_total [OF ok(2) q i] read_doc_terms_total [OF ok(2) q i] show ?thesis
    by (simp add: index_part_def Let_def split: prod.split)
qed

lemma index_document_total:
  assumes q: "quiet (de_env e)" and inv: "doc_inv g s" and i: "is_id i"
  shows "\<exists>s'. index_document g e i title text tok boost bulk s = (Inr (), s')"
proof -
  have ok: "terms_ok (ds_db s)" "postings_ok (ds_db s)" using inv by (simp_all add: doc_inv_def)
  define len where "len = int (length (tok title) + length (tok text))"
  define dmn where "dmn = (if \<not> bulk \<and> de_partition e
               then (case get_doc_by_id g (de_env e) (ds_db s) i of Inr d \<Rightarrow> doc_domain d | Inl _ \<Rightarrow> []) else [])"
  from index_part_total [OF q ok i, of len "term_freqs (clamp_boost boost) (tok title) (tok text)" dmn] obtain ops lsum cnt s2
    where "index_part e i len (term_freqs (clamp_boost boost) (tok title) (tok text)) dmn s = (Inr (ops, lsum, cnt), s2)" by blast
  with q show ?thesis unfolding index_document_def Let_def len_def [symmetric] dmn_def [symmetric] by simp
qed

lemma write_crawl_total:
  assumes q: "quiet (de_env e)" and inv: "doc_inv g s" and u: "doc_url d \<noteq> []" and enc: "\<And>i. gob_enc g (d\<lparr>doc_id := i\<rparr>) \<noteq> None"
    and room: "ds_next_id s + 1 < 2 ^ 63"
  shows "\<exists>i s'. write_crawl_result g e d title text url tok boost s = (Inr i, s')"
proof -
  have ok: "docs_ok g (ds_db s)" "terms_ok (ds_db s)" "postings_ok (ds_db s)" using inv by (simp_all add: doc_inv_def)
  obtain i new s1 where res: "resolve_id (de_env e) (doc_url d) s = (Inr (i, new), s1)" using resolve_id_total [OF ok(1) q] by blast
  have i: "is_id i" and db1: "ds_db s1 = ds_db s" using resolve_id_spec [OF res inv room] by (simp_all add: id_for_def)
  obtain dops where dops: "doc_ops g (d\<lparr>doc_id := i\<rparr>) i = Inr dops" using enc [of i] by (auto simp: doc_ops_def)
  define len where "len = int (length (tok title) + length (tok text))"
  define tf where "tf = term_freqs (clamp_boost boost) (tok title) (tok text)"
  define dmn where "dmn = (if de_partition e then doc_domain d else [])"
  from index_part_total [OF q _ _ i, of s1 len tf dmn] ok db1 obtain ops lsum cnt s2
    where "index_part e i len tf dmn s1 = (Inr (ops, lsum, cnt), s2)" by auto
  with q u res dops show ?thesis
    unfolding write_crawl_result_def Let_def len_def [symmetric] tf_def [symmetric] dmn_def [symmetric]
    by (cases "fmdom tf = {||}") simp_all
qed

end
