(* ===== verification/DocBackfill.thy ===== *)
theory DocBackfill
  imports DocContent
begin

text \<open>The back-filling of the content hash index can be interrupted anywhere and finishes what it started.\<close>

definition sha_cursor :: "bytes kv \<Rightarrow> int" where
  "sha_cursor db = meta_at db ''content_sha_cursor''"

definition sha_complete :: "bytes kv \<Rightarrow> bool" where
  "sha_complete db = (fmlookup db (store_meta_key ''content_sha_complete'') = Some [CHR 0x01])"

text \<open>Everything up to the cursor is indexed, and all of it once the index is marked complete.\<close>

definition backfilled :: "gob \<Rightarrow> bytes kv \<Rightarrow> bool" where
  "backfilled g db = (0 \<le> sha_cursor db \<and> (\<forall>i sha. hashed g db i sha \<longrightarrow> sha_complete db \<or> i \<le> sha_cursor db \<longrightarrow> fmlookup db (content_sha_key sha i) \<noteq> None))"

text \<open>The loop: \<open>rows\<close> are the documents above the last one, in order; \<open>ops\<close> only adds index rows.\<close>

definition sha_writes :: "bytes bop list \<Rightarrow> bool" where
  "sha_writes ops = (\<forall>b \<in> set ops. \<exists>sha i. b = BSet (content_sha_key sha i) [])"

definition rows_from :: "bytes kv \<Rightarrow> int \<Rightarrow> (bytes \<times> bytes) list \<Rightarrow> bool" where
  "rows_from db lst rows = ((\<forall>(k, v) \<in> set rows. \<exists>i. is_id i \<and> lst < i \<and> k = doc_key i \<and> fmlookup db k = Some v)
     \<and> (\<forall>i. is_id i \<longrightarrow> lst < i \<longrightarrow> fmlookup db (doc_key i) \<noteq> None \<longrightarrow> doc_key i \<in> fst ` set rows)
     \<and> sorted_wrt (<) (map fst rows))"

definition indexed_to :: "gob \<Rightarrow> bytes kv \<Rightarrow> int \<Rightarrow> bytes kv \<Rightarrow> bool" where
  "indexed_to g db lst D = (\<forall>i sha. hashed g db i sha \<longrightarrow> i \<le> lst \<longrightarrow> fmlookup D (content_sha_key sha i) \<noteq> None)"

lemma sha_writes_content: "sha_writes (content_sha_ops sha i)"
  unfolding sha_writes_def content_sha_ops_def by (cases "length sha = 32") (simp, metis, simp)

lemma sha_writes_append: "sha_writes a \<Longrightarrow> sha_writes b \<Longrightarrow> sha_writes (a @ b)"
  unfolding sha_writes_def by (simp add: ball_Un)

lemma hashed_row:
  assumes "hashed g db i sha"
  shows "is_id i" "fmlookup db (doc_key i) \<noteq> None"
  using assms by (auto simp: hashed_def doc_at_def bind_eq_Some_conv)

lemma sha_writes_lookup:
  assumes "sha_writes ops"
  shows "\<not> fam ''C'' k \<Longrightarrow> fmlookup (apply_batch ops db) k = fmlookup db k"
    "fmlookup db k \<noteq> None \<Longrightarrow> fmlookup (apply_batch ops db) k \<noteq> None"
proof -
  show "\<not> fam ''C'' k \<Longrightarrow> fmlookup (apply_batch ops db) k = fmlookup db k"
    by (rule lookup_batch_untouched) (use assms in \<open>auto simp: sha_writes_def\<close>)
  show "fmlookup db k \<noteq> None \<Longrightarrow> fmlookup (apply_batch ops db) k \<noteq> None"
    using assms
  proof (induction ops arbitrary: db)
    case (Cons b ops)
    then obtain sha i where "b = BSet (content_sha_key sha i) []" by (auto simp: sha_writes_def)
    with Cons show ?case by (simp add: sha_writes_def)
  qed simp
qed

text \<open>A pass writes nothing that the invariant reads.\<close>

lemma inert_keys [simp]: "\<not> inert (doc_key i)" "inert (content_sha_key sha i)" "inert (store_meta_key ''content_sha_cursor'')"
    "inert (store_meta_key ''content_sha_complete'')"
  by (simp_all add: inert_def)

lemma sha_writes_inert:
  assumes "sha_writes ops" "\<not> inert k"
  shows "fmlookup (apply_batch ops db) k = fmlookup db k"
proof (rule lookup_batch_untouched)
  fix b assume "b \<in> set ops"
  then obtain sha i where "b = BSet (content_sha_key sha i) []" using assms(1) by (auto simp: sha_writes_def)
  with assms(2) show "\<not> touches b k" by auto
qed

lemma sha_commit_cases:
  assumes "sha_commit e final res ops db = (x, db1)"
  shows "(x = Some WriteFault \<and> db1 = db) \<or> (x = None \<and> db1 = (if final
    then fmdrop (store_meta_key ''content_sha_cursor'') (fmupd (store_meta_key ''content_sha_complete'') [CHR 0x01] (apply_batch ops db))
    else fmupd (store_meta_key ''content_sha_cursor'') (enc64 (sb_last res)) (apply_batch ops db)))"
  using assms by (auto simp: sha_commit_def Let_def split: if_splits)

lemma sha_commit_spec:
  assumes run: "sha_commit e final res ops db = (x, db1)" and w: "sha_writes ops" and last: "is_i64 (sb_last res)" "0 \<le> sb_last res"
    and upto: "indexed_to g db (sb_last res) (apply_batch ops db)" and c: "\<not> sha_complete db" and all: "final \<Longrightarrow> \<forall>i sha. hashed g db i sha \<longrightarrow> i \<le> sb_last res"
    and b: "backfilled g db"
  shows "backfilled g db1 \<and> same_on (\<lambda>k. \<not> inert k) db db1 \<and> (x = None \<longrightarrow> final \<longrightarrow> sha_complete db1 \<and> sha_ok g db1)
    \<and> (x = None \<longrightarrow> \<not> final \<longrightarrow> \<not> sha_complete db1 \<and> indexed_to g db (sb_last res) db1)"
proof -
  consider "x = Some WriteFault" "db1 = db"
    | "x = None" "final" "db1 = fmdrop (store_meta_key ''content_sha_cursor'') (fmupd (store_meta_key ''content_sha_complete'') [CHR 0x01] (apply_batch ops db))"
    | "x = None" "\<not> final" "db1 = fmupd (store_meta_key ''content_sha_cursor'') (enc64 (sb_last res)) (apply_batch ops db)"
    using sha_commit_cases [OF run] by (auto split: if_splits)
  then show ?thesis
  proof cases
    case 1
    with b show ?thesis by simp
  next
    case 2
    have d: "same_on (\<lambda>k. \<not> inert k) db db1" unfolding same_on_def 2(3)
      using sha_writes_inert [OF w] by auto
    have h: "hashed g db1 i sha = hashed g db i sha" for i sha
      using view_cong(2) [OF d, of i g] by (simp add: hashed_def)
    have ix: "fmlookup db1 (content_sha_key sha i) = fmlookup (apply_batch ops db) (content_sha_key sha i)" for sha i by (simp add: 2(3))
    have s: "sha_ok g db1" using upto all [OF 2(2)] unfolding sha_ok_def h ix indexed_to_def by blast
    moreover have "sha_complete db1" by (simp add: 2(3) sha_complete_def)
    moreover have "sha_cursor db1 = 0" by (simp add: 2(3) sha_cursor_def meta_at_def)
    then have "backfilled g db1" using s by (simp add: backfilled_def sha_ok_def)
    ultimately show ?thesis using d 2(2) by simp
  next
    case 3
    have d: "same_on (\<lambda>k. \<not> inert k) db db1" unfolding same_on_def 3(3)
      using sha_writes_inert [OF w] by auto
    have h: "hashed g db1 i sha = hashed g db i sha" for i sha
      using view_cong(2) [OF d, of i g] by (simp add: hashed_def)
    have i1: "indexed_to g db (sb_last res) db1" using upto by (simp add: indexed_to_def 3(3))
    have nc: "\<not> sha_complete db1" using c sha_writes_lookup(1) [OF w, of "store_meta_key ''content_sha_complete''" db]
      by (simp add: sha_complete_def 3(3))
    have cur: "sha_cursor db1 = sb_last res" using last(1) by (simp add: sha_cursor_def meta_at_def 3(3) i64_id)
    have "backfilled g db1" using i1 nc last(2) unfolding backfilled_def cur h indexed_to_def by blast
    with d i1 nc 3(2) show ?thesis by simp
  qed
qed

lemma doc_key_less: "is_id i \<Longrightarrow> is_id j \<Longrightarrow> (doc_key i < doc_key j) = (i < j)"
  by (simp add: doc_key_def enc64_less_id)

lemma rows_from_cong: "same_on (\<lambda>k. \<not> inert k) db db' \<Longrightarrow> rows_from db lst rows \<Longrightarrow> rows_from db' lst rows"
  using same_onD [of "\<lambda>k. \<not> inert k" db db' "doc_key _"] unfolding rows_from_def by (fastforce simp: case_prod_beta)

lemma rows_from_Cons:
  assumes "rows_from db lst ((k, v) # rows)"
  obtains i where "is_id i" "lst < i" "k = doc_key i" "fmlookup db k = Some v" "rows_from db i rows"
    "\<And>j. is_id j \<Longrightarrow> lst < j \<Longrightarrow> fmlookup db (doc_key j) \<noteq> None \<Longrightarrow> i \<le> j"
proof -
  note a = assms [unfolded rows_from_def]
  obtain i where i: "is_id i" "lst < i" "k = doc_key i" "fmlookup db k = Some v" using a by auto
  have above: "i < j" if "(doc_key j, w) \<in> set rows" "is_id j" for j w
  proof -
    have "k < doc_key j" using a that(1) by force
    with i that(2) show ?thesis by (simp add: doc_key_less)
  qed
  have r1: "\<exists>j. is_id j \<and> i < j \<and> k' = doc_key j \<and> fmlookup db k' = Some v'" if "(k', v') \<in> set rows" for k' v'
  proof -
    from a that obtain j where "is_id j" "k' = doc_key j" "fmlookup db k' = Some v'" by fastforce
    with above that show ?thesis by blast
  qed
  have r2: "doc_key j \<in> fst ` set rows" if "is_id j" "i < j" "fmlookup db (doc_key j) \<noteq> None" for j
  proof -
    have "doc_key j \<in> fst ` set ((k, v) # rows)" using a that i(2) by auto
    moreover have "doc_key j \<noteq> k" using that i by simp
    ultimately show ?thesis by auto
  qed
  have "rows_from db i rows" unfolding rows_from_def using a r1 r2 by (auto simp: case_prod_beta)
  moreover have "i \<le> j" if j: "is_id j" "lst < j" "fmlookup db (doc_key j) \<noteq> None" for j
  proof -
    have "doc_key j \<in> fst ` set ((k, v) # rows)" using a j by blast
    then consider "doc_key j = k" | w where "(doc_key j, w) \<in> set rows" by auto
    then show ?thesis
    proof cases
      case 1
      with i j(1) show ?thesis by simp
    next
      case 2
      from above [OF this j(1)] show ?thesis by simp
    qed
  qed
  ultimately show thesis using that i by blast
qed

lemma indexed_to_next:
  assumes "indexed_to g db lst (apply_batch ops db)" "sha_writes ops" "is_id i" "doc_at g db i = Some d"
    "\<And>j. is_id j \<Longrightarrow> lst < j \<Longrightarrow> fmlookup db (doc_key j) \<noteq> None \<Longrightarrow> i \<le> j"
  shows "indexed_to g db i (apply_batch (ops @ content_sha_ops (doc_sha d) i) db)" "sha_writes (ops @ content_sha_ops (doc_sha d) i)"
proof -
  show w: "sha_writes (ops @ content_sha_ops (doc_sha d) i)" by (rule sha_writes_append [OF assms(2) sha_writes_content])
  show "indexed_to g db i (apply_batch (ops @ content_sha_ops (doc_sha d) i) db)" unfolding indexed_to_def
  proof (intro allI impI)
    fix j sha assume h: "hashed g db j sha" and le: "j \<le> i"
    show "fmlookup (apply_batch (ops @ content_sha_ops (doc_sha d) i) db) (content_sha_key sha j) \<noteq> None"
    proof (cases "j \<le> lst")
      case True
      with assms(1) h have "fmlookup (apply_batch ops db) (content_sha_key sha j) \<noteq> None" unfolding indexed_to_def by blast
      then show ?thesis using sha_writes_lookup(2) [OF sha_writes_content] by simp
    next
      case False
      have "fmlookup db (doc_key j) \<noteq> None" by (rule hashed_row [OF h])
      with assms(5) [of j] h False le have "j = i" by (simp add: hashed_def)
      with h assms(4) have "doc_sha d = sha" "length sha = 32" by (auto simp: hashed_def)
      with \<open>j = i\<close> show ?thesis by (simp add: content_sha_ops_def)
    qed
  qed
qed

lemma sha_loop_spec:
  assumes "sha_loop g e off n rows ops pending res db = ((x, res'), db')" "rows_from db (sb_last res) rows" "is_i64 (sb_last res) \<and> 0 \<le> sb_last res"
    "sha_writes ops" "indexed_to g db (sb_last res) (apply_batch ops db)" "\<not> sha_complete db" "backfilled g db"
  shows "backfilled g db' \<and> same_on (\<lambda>k. \<not> inert k) db db' \<and> (x = None \<longrightarrow> sha_complete db' \<and> sha_ok g db')"
  using assms
proof (induction rows arbitrary: n ops pending res db)
  case Nil
  obtain y db1 where c: "sha_commit e True res ops db = (y, db1)" by fastforce
  have all: "\<forall>i sha. hashed g db i sha \<longrightarrow> i \<le> sb_last res"
  proof (intro allI impI)
    fix i sha assume "hashed g db i sha"
    then have "is_id i" "fmlookup db (doc_key i) \<noteq> None" by (rule hashed_row)+
    with Nil.prems(2) show "i \<le> sb_last res" unfolding rows_from_def by force
  qed
  from sha_commit_spec [OF c Nil.prems(4) _ _ Nil.prems(5,6) _ Nil.prems(7)] all Nil.prems(1,3) c show ?case by auto
next
  case (Cons kv rows)
  obtain k v where kv: "kv = (k, v)" by fastforce
  from rows_from_Cons [OF Cons.prems(2) [unfolded kv]] obtain i where i: "is_id i" "sb_last res < i" "k = doc_key i" "fmlookup db k = Some v"
    "rows_from db i rows" "\<And>j. is_id j \<Longrightarrow> sb_last res < j \<Longrightarrow> fmlookup db (doc_key j) \<noteq> None \<Longrightarrow> i \<le> j" by metis
  have k: "length k = 9" "dec64 (drop 1 k) = i" using i(1,3) by (simp_all add: doc_key_def)
  show ?case
  proof (cases "off n")
    case True
    obtain y db1 where c: "sha_commit e False res ops db = (y, db1)" by fastforce
    note sp = sha_commit_spec [OF c Cons.prems(4) _ _ Cons.prems(5,6) _ Cons.prems(7)]
    have "x \<noteq> None \<and> (db' = db \<or> db' = db1)" using Cons.prems(1) True c by (auto simp: kv split: if_splits option.splits)
    with sp Cons.prems(3,7) show ?thesis by auto
  next
    case off: False
    show ?thesis
    proof (cases "get_err e k \<or> gob_dec g v = None")
      case True
      then have "x \<noteq> None" "db' = db" using Cons.prems(1) off k by (auto simp: kv Let_def split: if_splits)
      with Cons.prems(7) show ?thesis by auto
    next
      case False
      then obtain d where d: "gob_dec g v = Some d" by auto
      define res1 where "res1 = res\<lparr>sb_scanned := i64 (sb_scanned res + 1), sb_last := i,
        sb_indexed := (if length (doc_sha d) = 32 then i64 (sb_indexed res + 1) else sb_indexed res)\<rparr>"
      define ops1 where "ops1 = ops @ content_sha_ops (doc_sha d) i"
      have r1: "sb_last res1 = i" by (simp add: res1_def)
      have at: "doc_at g db i = Some d" using i(3,4) d by (simp add: doc_at_def)
      note nx = indexed_to_next [OF Cons.prems(5,4) i(1) at i(6), folded ops1_def]
      have last: "is_i64 (sb_last res1) \<and> 0 \<le> sb_last res1" using i(1) r1 by (simp add: is_id_def is_i64_def)
      show ?thesis
      proof (cases "content_sha_batch \<le> pending + 1")
        case small: False
        have "sha_loop g e off (n + 1) rows ops1 (pending + 1) res1 db = ((x, res'), db')"
          using Cons.prems(1) off False d k small by (simp add: kv Let_def res1_def ops1_def)
        from Cons.IH [OF this _ last nx(2) _ Cons.prems(6,7)] i(5) nx(1) r1 show ?thesis by simp
      next
        case True
        obtain y db1 where c: "sha_commit e False res1 ops1 db = (y, db1)" by fastforce
        from sha_commit_spec [OF c nx(2) _ _ _ Cons.prems(6) _ Cons.prems(7)] nx(1) r1 last
        have sp: "backfilled g db1" "same_on (\<lambda>k. \<not> inert k) db db1" "y = None \<longrightarrow> \<not> sha_complete db1 \<and> indexed_to g db i db1" by simp_all
        show ?thesis
        proof (cases y)
          case (Some z)
          with Cons.prems(1) off False d k True c have "x = Some z" "db' = db1" by (auto simp: kv Let_def res1_def ops1_def)
          with sp show ?thesis by simp
        next
          case None
          have run: "sha_loop g e off (n + 1) rows [] 0 res1 db1 = ((x, res'), db')"
            using Cons.prems(1) off False d k True c None by (simp add: kv Let_def res1_def ops1_def)
          have h: "hashed g db1 j sha = hashed g db j sha" for j sha using view_cong(2) [OF sp(2), of j g] by (simp add: hashed_def)
          have ix: "indexed_to g db1 (sb_last res1) (apply_batch [] db1)" using sp(3) None r1 by (simp add: indexed_to_def h)
          have w0: "sha_writes []" by (simp add: sha_writes_def)
          from Cons.IH [OF run _ last w0 ix] rows_from_cong [OF sp(2) i(5)] r1 sp None
          have "backfilled g db' \<and> same_on (\<lambda>k. \<not> inert k) db1 db' \<and> (x = None \<longrightarrow> sha_complete db' \<and> sha_ok g db')" by simp
          with same_on_trans [OF sp(2)] show ?thesis by blast
        qed
      qed
    qed
  qed
qed

lemma rows_between_docs:
  assumes "ids_ok db" "0 \<le> lst" "lst < 2 ^ 63"
  shows "rows_from db lst (rows_between db (doc_key (lst + 1)) ''e'')"
proof -
  let ?ks = "kv_keys db (doc_key (lst + 1)) ''e''"
  have ks: "\<exists>i. is_id i \<and> lst < i \<and> k = doc_key i \<and> fmlookup db k \<noteq> None" if "k \<in> set ?ks" for k
  proof -
    have k: "doc_key (lst + 1) \<le> k" "k < ''e''" "fmlookup db k \<noteq> None" using that by (auto simp: set_kv_keys)
    obtain r where r: "k = CHR ''d'' # r" using k(1,2) by (cases k) (auto simp: doc_key_def less_char_def)
    from ids_okD(1) [OF assms(1), of "CHR ''d''" r] k(3) r obtain i where i: "is_id i" "r = enc64 i" by auto
    have "\<not> enc64 i < enc64 (lst + 1)" using k(1) by (simp add: r i doc_key_def)
    then have "lst < i" using enc64_less [of i "lst + 1"] i(1) assms(2,3) by (simp add: is_id_def)
    with i k(3) r show ?thesis by (intro exI [of _ i]) (simp add: doc_key_def)
  qed
  have in': "doc_key i \<in> set ?ks" if "is_id i" "lst < i" "fmlookup db (doc_key i) \<noteq> None" for i
  proof -
    have "\<not> enc64 i < enc64 (lst + 1)" using enc64_less [of i "lst + 1"] that(1,2) assms(2,3) by (simp add: is_id_def)
    with that(3) show ?thesis by (simp add: set_kv_keys doc_key_def less_char_def)
  qed
  have f: "map fst (rows_between db (doc_key (lst + 1)) ''e'') = ?ks" by (simp add: rows_between_def comp_def)
  show ?thesis unfolding rows_from_def f
  proof (intro conjI allI impI ballI)
    fix r assume "r \<in> set (rows_between db (doc_key (lst + 1)) ''e'')"
    then obtain k where "r = (k, the (fmlookup db k))" "k \<in> set ?ks" by (auto simp: rows_between_def)
    with ks [of k] show "case r of (k, v) \<Rightarrow> \<exists>i. is_id i \<and> lst < i \<and> k = doc_key i \<and> fmlookup db k = Some v" by auto
  next
    fix i assume "is_id i" "lst < i" "fmlookup db (doc_key i) \<noteq> None"
    then have "doc_key i \<in> set ?ks" by (rule in')
    then show "doc_key i \<in> fst ` set (rows_between db (doc_key (lst + 1)) ''e'')" by (force simp: rows_between_def)
  next
    show "sorted_wrt (<) ?ks" using pebble.sorted_keys [of db] pebble.distinct_keys [of db] by (simp add: strict_sorted_iff)
  qed
qed

lemma backfill_spec:
  assumes run: "backfill_content_sha g e off rescan s = ((x, res), s')" and inv: "doc_inv g s" and b: "backfilled g (ds_db s)"
  shows "backfilled g (ds_db s') \<and> same_on (\<lambda>k. \<not> inert k) (ds_db s) (ds_db s') \<and> (x = None \<longrightarrow> sha_ok g (ds_db s'))"
proof -
  have pass: "backfilled g db' \<and> same_on (\<lambda>k. \<not> inert k) db db' \<and> (y = None \<longrightarrow> sha_ok g db')"
    if l: "sha_pass g e off res0 db = ((y, res1), db')"
      and db: "ids_ok db" "backfilled g db" "\<not> sha_complete db" for db db' res0 res1 y
  proof (cases "get_err e (store_meta_key ''content_sha_cursor'')")
    case True
    with l db(2) show ?thesis by (auto simp: sha_pass_def)
  next
    case False
    define c where "c = read_meta e db ''content_sha_cursor''"
    have cur: "c = sha_cursor db" using False by (simp add: c_def read_meta_def sha_cursor_def meta_at_def)
    have m: "is_i64 (meta_at db n)" for n
    proof -
      have "is_i64 0" by (simp add: is_i64_def)
      then show ?thesis by (simp add: meta_at_def split: option.split)
    qed
    have cb: "0 \<le> c" "is_i64 c" using db(2) m cur by (simp_all add: backfilled_def sha_cursor_def)
    then have "c < 2 ^ 63" by (simp add: is_i64_def)
    note rows = rows_between_docs [OF db(1) cb(1) this]
    have ix: "indexed_to g db c (apply_batch [] db)" using db(2) cur by (simp add: backfilled_def indexed_to_def)
    show ?thesis
    proof (cases "iter_err e (doc_key (c + 1))")
      case True
      with l False db(2) show ?thesis by (auto simp: sha_pass_def Let_def c_def)
    next
      case run: False
      have "sha_loop g e off 0 (rows_between db (doc_key (c + 1)) ''e'') [] 0 (res0\<lparr>sb_resumed := c, sb_last := c\<rparr>) db = ((y, res1), db')"
        using l False run by (simp add: sha_pass_def Let_def c_def)
      from sha_loop_spec [OF this _ _ _ _ db(3,2)] rows cb ix show ?thesis by (simp add: sha_writes_def)
    qed
  qed
  have ids: "ids_ok (ds_db s)" using inv by (simp add: doc_inv_def)
  define D where "D = apply_batch [BDel (store_meta_key ''content_sha_complete''), BDel (store_meta_key ''content_sha_cursor'')] (ds_db s)"
  have D: "same_on (\<lambda>k. \<not> inert k) (ds_db s) D" "ids_ok D" "backfilled g D" "\<not> sha_complete D"
  proof -
    show s: "same_on (\<lambda>k. \<not> inert k) (ds_db s) D" by (auto simp: same_on_def D_def)
    have f: "same_on (fam ''dilgp'') (ds_db s) D" by (auto simp: same_on_def D_def fam_def store_meta_key_def)
    have m: "meta_at D n = meta_at (ds_db s) n" if "n \<noteq> ''content_sha_complete''" "n \<noteq> ''content_sha_cursor''" for n
      using that by (simp add: meta_at_def D_def)
    show "ids_ok D" by (rule ids_ok_mono [OF ids f]) (use ids in \<open>simp_all add: m ids_ok_def\<close>)
    have "sha_cursor D = 0" by (simp add: sha_cursor_def meta_at_def D_def)
    then show "backfilled g D" by (auto simp: backfilled_def sha_complete_def D_def hashed_def is_id_def)
    show "\<not> sha_complete D" by (simp add: sha_complete_def D_def)
  qed
  show ?thesis
  proof (cases rescan)
    case True
    show ?thesis
    proof (cases "commit_err e")
      case True
      with run \<open>rescan\<close> b show ?thesis by (auto simp: backfill_content_sha_def Let_def)
    next
      case False
      obtain y res1 db1 where p: "sha_pass g e off \<lparr>sb_scanned = 0, sb_indexed = 0, sb_last = 0, sb_max = ds_next_id s, sb_resumed = 0, sb_already = False\<rparr> D
          = ((y, res1), db1)" by (metis prod.exhaust)
      with run True False have "x = y" "s' = with_db db1 s"
        unfolding backfill_content_sha_def D_def [symmetric] Let_def by simp_all
      with pass [OF p D(2-4)] same_on_trans [OF D(1)] show ?thesis by simp
    qed
  next
    case False
    show ?thesis
    proof (cases "content_index_complete e (ds_db s) = Inr False")
      case True
      then have nc: "\<not> sha_complete (ds_db s)" by (auto simp: content_index_complete_def sha_complete_def split: if_splits)
      obtain y res1 db1 where p: "sha_pass g e off \<lparr>sb_scanned = 0, sb_indexed = 0, sb_last = 0, sb_max = ds_next_id s, sb_resumed = 0, sb_already = False\<rparr> (ds_db s)
          = ((y, res1), db1)" by (metis prod.exhaust)
      with run True False have "x = y" "s' = with_db db1 s" unfolding backfill_content_sha_def Let_def by simp_all
      with pass [OF p ids b nc] show ?thesis by simp
    next
      case other: False
      have "sha_complete (ds_db s) \<or> x \<noteq> None" "s' = s"
        using run False other unfolding backfill_content_sha_def
        by (auto simp: Let_def content_index_complete_def sha_complete_def split: if_splits)
      with b show ?thesis by (auto simp: backfilled_def sha_ok_def)
    qed
  qed
qed

end
