(* ===== verification/DocSample.thy ===== *)
theory DocSample
  imports DocTotal DocBackfill
begin

text \<open>
  A concrete codec that satisfies what the store assumes of \<open>encoding/gob\<close>, and the documents and environments that the
  witnesses of \<open>DocProps\<close> use.
\<close>

section \<open>A codec\<close>

text \<open>A field: every byte behind a mark, then an end mark.\<close>

fun put_field :: "bytes \<Rightarrow> bytes" where
  "put_field [] = [CHR 0x00]"
| "put_field (c # b) = CHR 0x01 # c # put_field b"

fun get_field :: "bytes \<Rightarrow> (bytes \<times> bytes) option" where
  "get_field (m # r) = (if m = CHR 0x00 then Some ([], r)
     else (case r of [] \<Rightarrow> None | c # r \<Rightarrow> map_option (\<lambda>(b, r). (c # b, r)) (get_field r)))"
| "get_field [] = None"

lemma get_put_field [simp]: "get_field (put_field b @ r) = Some (b, r)"
  by (induction b) auto

text \<open>Numbers in unary behind a sign.\<close>

definition int_field :: "int \<Rightarrow> bytes" where
  "int_field z = (if z < 0 then CHR ''-'' else CHR ''+'') # replicate (nat \<bar>z\<bar>) (CHR ''x'')"

definition field_int :: "bytes \<Rightarrow> int" where
  "field_int b = (case b of [] \<Rightarrow> 0 | c # r \<Rightarrow> if c = CHR ''-'' then - int (length r) else int (length r))"

lemma field_int_field [simp]: "field_int (int_field z) = z"
  by (simp add: field_int_def int_field_def)

fun get_fields :: "nat \<Rightarrow> bytes \<Rightarrow> bytes list option" where
  "get_fields 0 b = Some []"
| "get_fields (Suc n) b = (case get_field b of None \<Rightarrow> None | Some (f, r) \<Rightarrow> map_option (Cons f) (get_fields n r))"

lemma get_fields_put [simp]: "get_fields (length fs) (concat (map put_field fs)) = Some fs"
  by (induction fs) auto

definition doc_fields :: "document \<Rightarrow> bytes list" where
  "doc_fields d = [int_field (doc_id d), doc_url d, doc_domain d, doc_title d, doc_text d, doc_lang d, doc_source d,
     int_field (int (doc_quality d)), int_field (doc_fetched d), doc_sha d, doc_etag d, doc_last_modified d,
     int_field (doc_change_count d), int_field (doc_last_changed d), int_field (doc_published d), doc_author d, doc_image d, doc_favicon d]"

definition fields_doc :: "bytes list \<Rightarrow> document" where
  "fields_doc f = \<lparr>doc_id = field_int (f ! 0), doc_url = f ! 1, doc_domain = f ! 2, doc_title = f ! 3, doc_text = f ! 4, doc_lang = f ! 5,
     doc_source = f ! 6, doc_quality = nat (field_int (f ! 7)), doc_fetched = field_int (f ! 8), doc_sha = f ! 9, doc_etag = f ! 10,
     doc_last_modified = f ! 11, doc_change_count = field_int (f ! 12), doc_last_changed = field_int (f ! 13),
     doc_published = field_int (f ! 14), doc_author = f ! 15, doc_image = f ! 16, doc_favicon = f ! 17\<rparr>"

lemma fields_doc_fields [simp]: "fields_doc (doc_fields d) = d"
  by (simp add: fields_doc_def doc_fields_def)

definition flat_gob :: gob where
  "flat_gob = \<lparr>gob_enc = (\<lambda>d. Some (concat (map put_field (doc_fields d)))), gob_dec = (\<lambda>b. map_option fields_doc (get_fields 18 b))\<rparr>"

lemma flat_gob_ok [simp]: "gob_ok flat_gob"
proof -
  have "length (doc_fields d) = 18" for d by (simp add: doc_fields_def)
  then have "get_fields 18 (concat (map put_field (doc_fields d))) = Some (doc_fields d)" for d using get_fields_put [of "doc_fields d"] by simp
  then show ?thesis by (simp add: gob_ok_def flat_gob_def)
qed

lemma flat_gob_encodes [simp]: "\<exists>b. gob_enc flat_gob d = Some b"
  by (simp add: flat_gob_def)

section \<open>Values\<close>

definition calm :: doc_env where
  "calm = \<lparr>de_env = calm_env 0, de_set_err = (\<lambda>_. False), de_partition = False, de_terms = [], de_ids = []\<rparr>"

lemma calm_simps [simp]: "quiet (de_env calm)" "counter_safe calm" "de_env calm = calm_env 0" "\<not> de_partition calm"
proof -
  show "quiet (de_env calm)" "de_env calm = calm_env 0" "\<not> de_partition calm" by (simp_all add: calm_def)
  show "counter_safe calm" by (simp add: calm_def counter_safe_def calm_env_def)
qed

definition page :: document where
  "page = \<lparr>doc_id = 0, doc_url = ''http://a.b/'', doc_domain = ''a.b'', doc_title = ''cat'', doc_text = ''cat dog cat'', doc_lang = [],
     doc_source = [], doc_quality = 0, doc_fetched = 0, doc_sha = replicate 32 (CHR ''s''), doc_etag = [], doc_last_modified = [],
     doc_change_count = 0, doc_last_changed = 0, doc_published = 0, doc_author = [], doc_image = [], doc_favicon = []\<rparr>"

lemma page_simps [simp]:
  "doc_url page = ''http://a.b/''" "doc_domain page = ''a.b''" "doc_title page = ''cat''" "doc_text page = ''cat dog cat''"
  "doc_sha page = replicate 32 (CHR ''s'')"
  by (simp_all add: page_def)

text \<open>A tokenizer: the words between blanks.\<close>

definition words :: "bytes \<Rightarrow> bytes list" where
  "words s = filter (\<lambda>w. w \<noteq> []) (split_byte (CHR '' '') s)"

lemma words_page [simp]: "words ''cat'' = [''cat'']" "words ''cat dog cat'' = [''cat'', ''dog'', ''cat'']"
  by (simp_all add: words_def)

text \<open>The empty store, after the page is written, and after it is written and indexed.\<close>

definition stored_page :: doc_store where
  "stored_page = snd (upsert_document flat_gob calm page new_doc_store)"

lemma new_doc_store_simps [simp]: "ds_db new_doc_store = fmempty" "ds_next_id new_doc_store = 0"
  by (simp_all add: new_doc_store_def empty_store_def)

lemma upsert_page: "upsert_document flat_gob calm page new_doc_store = (Inr 1, stored_page)"
proof -
  obtain b where b: "gob_enc flat_gob (page\<lparr>doc_id := 1\<rparr>) = Some b" using flat_gob_encodes by blast
  have i: "i64 1 = 1" by (simp add: i64_def)
  show ?thesis
    using b i by (simp add: stored_page_def upsert_document_def resolve_id_def lookup_id_def lookup_id_by_url_def Let_def doc_ops_def calm_env_def)
qed

lemma run_page: "doc_run flat_gob new_doc_store [(''http://a.b/'', 1)] stored_page"
proof -
  have "doc_step flat_gob new_doc_store (case (Inr 1 :: doc_err + int) of Inl _ \<Rightarrow> [] | Inr i \<Rightarrow> [(doc_url page, i)]) stored_page"
    by (rule doc_step.upsert [OF _ upsert_page]) simp
  then have "doc_step flat_gob new_doc_store [(''http://a.b/'', 1)] stored_page" by simp
  from doc_run.more [OF this doc_run.stop] show ?thesis by simp
qed

lemma page_rows:
  "fmlookup (ds_db stored_page) (url_key ''http://a.b/'') = Some (enc64 1)" "stored_id (ds_db stored_page) = 1"
  "doc_at flat_gob (ds_db stored_page) 1 = Some (page\<lparr>doc_id := 1\<rparr>)" "ds_next_id stored_page = 1" "term_at (ds_db stored_page) w = None"
  "stored_term (ds_db stored_page) = 0" "\<not> ds_loaded stored_page" "meta_at (ds_db stored_page) ''sum_doc_len'' = 0"
  "meta_at (ds_db stored_page) ''indexed_docs'' = 0" "u \<noteq> ''http://a.b/'' \<Longrightarrow> fmlookup (ds_db stored_page) (url_key u) = None"
  "n \<noteq> ''next_doc_id'' \<Longrightarrow> fmlookup (ds_db stored_page) (store_meta_key n) = None"
proof -
  obtain b where b: "gob_enc flat_gob (page\<lparr>doc_id := 1\<rparr>) = Some b" using flat_gob_encodes by blast
  have i: "i64 1 = 1" by (simp add: i64_def)
  have d: "gob_dec flat_gob b = Some (page\<lparr>doc_id := 1\<rparr>)" using flat_gob_ok b unfolding gob_ok_def by blast
  have s: "stored_page = with_db (apply_batch ([BSet (doc_key 1) b, BSet (url_key ''http://a.b/'') (enc64 1), BSet (doc_meta_key 1) (pack_doc_meta ''http://a.b/'' ''cat''),
      BSet (host_key ''a.b'' 1) [], BSet (content_sha_key (replicate 32 (CHR ''s'')) 1) []] @ [BSet (store_meta_key ''next_doc_id'') (enc64 1)]) fmempty)
      (new_doc_store\<lparr>ds_next_id := 1\<rparr>)"
    using b i by (simp add: stored_page_def upsert_document_def resolve_id_def lookup_id_def lookup_id_by_url_def Let_def doc_ops_def calm_env_def
      content_sha_ops_def next_doc_ops_def)
  show "fmlookup (ds_db stored_page) (url_key ''http://a.b/'') = Some (enc64 1)" by (simp add: s)
  show "stored_id (ds_db stored_page) = 1" using i by (simp add: s meta_at_def)
  show "doc_at flat_gob (ds_db stored_page) 1 = Some (page\<lparr>doc_id := 1\<rparr>)" using d by (simp add: s doc_at_def)
  show "ds_next_id stored_page = 1" by (simp add: s)
  show "term_at (ds_db stored_page) w = None" by (simp add: s term_at_def term_key_def doc_key_defs)
  show "stored_term (ds_db stored_page) = 0" by (simp add: s meta_at_def doc_key_defs)
  show "\<not> ds_loaded stored_page" by (simp add: s new_doc_store_def)
  show "meta_at (ds_db stored_page) ''sum_doc_len'' = 0" "meta_at (ds_db stored_page) ''indexed_docs'' = 0"
    by (simp_all add: s meta_at_def doc_key_defs)
  show "u \<noteq> ''http://a.b/'' \<Longrightarrow> fmlookup (ds_db stored_page) (url_key u) = None" by (simp add: s)
  show "n \<noteq> ''next_doc_id'' \<Longrightarrow> fmlookup (ds_db stored_page) (store_meta_key n) = None" by (simp add: s)
qed

lemma inv_page: "doc_inv flat_gob stored_page"
  by (rule step_okD(1) [OF doc_run_ok [OF run_page new_doc_store_inv(1) flat_gob_ok]])

lemma room_page: "index_room (term_freqs (clamp_boost 3) (words ''cat'') (words ''cat dog cat'')) (ds_db stored_page)"
proof -
  have "fcard (fmdom (term_freqs (clamp_boost 3) (words ''cat'') (words ''cat dog cat''))) \<le> 3"
    by (simp add: term_freqs_dom fcard_finsert_if fcard_fempty)
  then show ?thesis by (simp add: index_room_def freq_room_def page_rows)
qed

end
