(* ===== verification/DocEffects.thy ===== *)
theory DocEffects
  imports DocTotal DocBackfill
begin

text \<open>Effects that the properties state: failed commits, deletions, frequencies, typed reads.\<close>

section \<open>A commit that fails\<close>

lemma upsert_total:
  assumes "quiet (de_env e)" "doc_inv g s" "doc_url d \<noteq> []" "\<And>i. gob_enc g (d\<lparr>doc_id := i\<rparr>) \<noteq> None"
  shows "\<exists>i s'. upsert_document g e d s = (Inr i, s')"
proof -
  have "docs_ok g (ds_db s)" using assms(2) by (simp add: doc_inv_def)
  from resolve_id_total [OF this assms(1)] obtain i new s1 where "resolve_id (de_env e) (doc_url d) s = (Inr (i, new), s1)" by blast
  moreover obtain ops where "doc_ops g (d\<lparr>doc_id := i\<rparr>) i = Inr ops" using assms(4) [of i] by (auto simp: doc_ops_def)
  ultimately show ?thesis using assms(1,3) by (simp add: upsert_document_def)
qed

definition calmed :: "doc_env \<Rightarrow> doc_env" where
  "calmed e = e\<lparr>de_env := (de_env e)\<lparr>commit_err := False\<rparr>\<rparr>"

lemma calmed_reads [simp]:
  "read_doc_len (de_env (calmed e)) db i = read_doc_len (de_env e) db i" "read_doc_terms (de_env (calmed e)) db i = read_doc_terms (de_env e) db i"
  "read_meta (de_env (calmed e)) db n = read_meta (de_env e) db n" "get_term_info (de_env (calmed e)) db t = get_term_info (de_env e) db t"
  "corpus_counters (de_env (calmed e)) s = corpus_counters (de_env e) s" "resolve_id (de_env (calmed e)) u s = resolve_id (de_env e) u s"
  by (simp_all add: calmed_def read_doc_len_def read_doc_terms_def read_meta_def get_term_info_def corpus_counters_def resolve_id_def
      lookup_id_def lookup_id_by_url_def)

lemma calmed_fields [simp]: "de_set_err (calmed e) = de_set_err e" "de_terms (calmed e) = de_terms e" "de_ids (calmed e) = de_ids e"
    "de_partition (calmed e) = de_partition e" "get_err (de_env (calmed e)) = get_err (de_env e)"
  by (simp_all add: calmed_def)

lemma calmed_index_terms: "index_terms (calmed e) i len hid old tf ts ops new db = index_terms e i len hid old tf ts ops new db"
proof (induction ts arbitrary: ops new db)
  case (Cons t ts)
  have "term_entry (calmed e) old db t = term_entry e old db t" unfolding term_entry_def next_term_id_def calmed_reads calmed_fields ..
  with Cons show ?case by (simp split: prod.split sum.split)
qed simp

lemma calmed_index_part: "index_part (calmed e) i len tf dmn s = index_part e i len tf dmn s"
proof -
  have "get_or_alloc_host (calmed e) db h = get_or_alloc_host e db h" for db h
    unfolding get_or_alloc_host_def calmed_reads calmed_fields ..
  note h = this
  show ?thesis unfolding index_part_def calmed_reads calmed_fields calmed_index_terms h ..
qed

lemma write_crawl_commit_fails:
  assumes e: "commit_err (de_env e)" "quiet (de_env (calmed e))" and inv: "doc_inv g s" and safe: "counter_safe e"
    and d: "doc_url d \<noteq> []" "url_at (ds_db s) (doc_url d) = None" "\<And>i. gob_enc g (d\<lparr>doc_id := i\<rparr>) \<noteq> None"
    and w: "tok title \<noteq> [] \<or> tok text \<noteq> []"
    and room: "ds_next_id s + 1 < 2 ^ 63" "index_room (term_freqs (clamp_boost boost) (tok title) (tok text)) (ds_db s)"
  shows "\<exists>s'. write_crawl_result g e d title text url tok boost s = (Inl WriteFault, s') \<and> same_on (fam ''duilfC'') (ds_db s) (ds_db s')
    \<and> ds_loaded s' \<and> ds_sum_len s' = i64 (fst (corpus_counters (de_env e) s) + int (length (tok title) + length (tok text)))
    \<and> ds_indexed s' = i64 (snd (corpus_counters (de_env e) s) + 1)"
proof -
  have ok: "docs_ok g (ds_db s)" "terms_ok (ds_db s)" "postings_ok (ds_db s)" "ids_ok (ds_db s)" using inv by (simp_all add: doc_inv_def)
  obtain i new s1 where res: "resolve_id (de_env e) (doc_url d) s = (Inr (i, new), s1)" using resolve_id_total [OF ok(1) e(2), of "doc_url d"] by auto
  note rs = resolve_id_spec [OF res inv room(1)]
  have f: "id_for (ds_db s) (doc_url d) i new" and db1: "ds_db s1 = ds_db s" using rs by simp_all
  have i: "is_id i" using f by (simp add: id_for_def)
  have new: "new" "stored_id (ds_db s) < i" using f d(2) by (auto simp: id_for_def url_at_def split: if_splits)
  then have "\<not> i \<le> stored_id (ds_db s)" by simp
  then have none: "fmlookup (ds_db s) (doc_len_key i) = None" using id_live(3) [OF ok(4) i] by blast
  obtain dops where dops: "doc_ops g (d\<lparr>doc_id := i\<rparr>) i = Inr dops" using d(3) [of i] by (auto simp: doc_ops_def)
  define len where "len = int (length (tok title) + length (tok text))"
  define tf where "tf = term_freqs (clamp_boost boost) (tok title) (tok text)"
  define dmn where "dmn = (if de_partition e then doc_domain d else [])"
  from index_part_total [OF e(2) _ _ i, of s1 len tf dmn] ok db1 obtain ops lsum cnt s2
    where ip: "index_part e i len tf dmn s1 = (Inr (ops, lsum, cnt), s2)" by (auto simp: calmed_index_part)
  have ne: "fmdom tf \<noteq> {||}" using w by (simp add: tf_def term_freqs_empty)
  have t1: "terms_ok (ds_db s1)" "index_room tf (ds_db s1)" using ok room(2) db1 by (simp_all add: tf_def)
  note sp = index_part_spec [OF ip safe t1]
  have len0: "read_doc_len (de_env e) (ds_db s1) i = Inr None"
    using read_doc_len_total [OF ok(3) e(2) i] none db1 by (simp add: len_at_def)
  have cc: "corpus_counters (de_env e) s1 = corpus_counters (de_env e) s"
  proof -
    obtain n where "s1 = s\<lparr>ds_next_id := n\<rparr>" using rs by blast
    then show ?thesis by (simp add: corpus_counters_def)
  qed
  from sp [THEN conjunct2, THEN conjunct2, THEN conjunct2, rule_format, OF HOL.refl] obtain had
    where "read_doc_len (de_env e) (ds_db s1) i = Inr had" "(lsum, cnt) = new_counts s1 (de_env e) len had"
    by (elim exE conjE) (rule that; assumption)
  then have "(lsum, cnt) = new_counts s1 (de_env e) len None" using len0 by simp
  then have c: "lsum = i64 (fst (corpus_counters (de_env e) s) + len)" "cnt = i64 (snd (corpus_counters (de_env e) s) + 1)"
    by (simp_all add: new_counts_def cc case_prod_beta)
  have ctx: "\<not> ctx_err (de_env e)" using quietD(1) [OF e(2)] by (simp add: calmed_def)
  have "write_crawl_result g e d title text url tok boost s = (Inl WriteFault, mirror_counts lsum cnt s2)"
    using e(1) ctx d(1) res dops ip ne unfolding write_crawl_result_def Let_def len_def [symmetric] tf_def [symmetric] dmn_def [symmetric]
    by simp
  moreover have "same_on (fam ''duilfC'') (ds_db s) (ds_db s2)"
    using sp drifted_same [of "ds_db s1" "ds_db s2" "''duilfC''"] db1 by simp
  ultimately show ?thesis using c by (simp add: mirror_counts_def len_def)
qed

section \<open>Deletion\<close>

lemma soft_delete_total:
  assumes q: "quiet (de_env e)" and inv: "doc_inv g s" and i: "is_id i" and d: "doc_at g (ds_db s) i = Some d"
    and len: "length (doc_url d) < 2 ^ 63" "length (doc_title d) < 2 ^ 63"
  shows "\<exists>s'. soft_delete_document uh e i (doc_url d) s = (Inr True, s')"
proof -
  have ok: "docs_ok g (ds_db s)" "postings_ok (ds_db s)" using inv by (simp_all add: doc_inv_def)
  have "fmlookup (ds_db s) (doc_key i) \<noteq> None" using d by (auto simp: doc_at_def bind_eq_Some_conv)
  from docs_okD(2) [OF ok(1) i this] d have u: "fmlookup (ds_db s) (url_key (doc_url d)) = Some (enc64 i)" by auto
  from docs_okD(1) [OF ok(1) u] i d have m: "fmlookup (ds_db s) (doc_meta_key i) = Some (pack_doc_meta (doc_url d) (doc_title d))" by auto
  then have gm: "get_doc_meta (de_env e) (ds_db s) i = Inr (Some (doc_url d, doc_title d))"
    using q len by (simp add: get_doc_meta_def unpack_pack_doc_meta)
  obtain a b where "corpus_counters (de_env e) s = (a, b)" by fastforce
  with gm read_doc_len_total [OF ok(2) q i] q show ?thesis by (simp add: soft_delete_document_def Let_def)
qed

lemma get_doc_by_url_view:
  assumes "docs_ok g db" "ids_ok db" "quiet e"
  shows "get_doc_by_url g e db u = (case url_at db u of None \<Rightarrow> Inl Missing | Some i \<Rightarrow> (case doc_at g db i of None \<Rightarrow> Inl Missing | Some d \<Rightarrow> Inr d))"
proof (cases "url_at db u")
  case None
  with lookup_id_total [OF assms(1,3), of u] assms(3) show ?thesis by (simp add: get_doc_by_url_def)
next
  case (Some i)
  then obtain v where "fmlookup db (url_key u) = Some v" "i = dec64 v" by (auto simp: url_at_def)
  with docs_okD(1) [OF assms(1), of u v] have "is_id i" by auto
  with Some lookup_id_total [OF assms(1,3), of u] get_doc_quiet [OF assms(2,1,3), of i] assms(3) show ?thesis
    by (auto simp: get_doc_by_url_def)
qed

lemma soft_delete_hides:
  assumes run: "soft_delete_document uh e i raw s = (Inr True, s')" and inv: "doc_inv g s" and i: "is_id i"
    and u: "url_at (ds_db s) raw = Some i" and q: "quiet ev"
  shows "get_doc_by_id g ev (ds_db s') i = Inl Missing \<and> get_doc_by_url g ev (ds_db s') raw = Inl Missing
    \<and> (\<forall>v. v \<noteq> raw \<longrightarrow> get_doc_by_url g ev (ds_db s') v = get_doc_by_url g ev (ds_db s) v)
    \<and> (\<forall>w. set (term_hits ev (ds_db s') w) = set (term_hits ev (ds_db s) w))"
proof -
  have inv': "doc_inv g s'" by (rule soft_delete_keeps [OF run inv i u])
  have ok: "docs_ok g (ds_db s)" "ids_ok (ds_db s)" "docs_ok g (ds_db s')" "ids_ok (ds_db s')" "db_inv g (ds_db s)" "db_inv g (ds_db s')"
    using inv inv' by (simp_all add: doc_inv_def db_inv_def)
  have ne: "raw \<noteq> []" using u docs_okD(1) [OF ok(1), of raw] by (auto simp: url_at_def)
  from run obtain had :: "int option" and lsum cnt
    where s': "ds_db s' = apply_batch (delete_ops uh i raw (had \<noteq> None) @ count_ops lsum cnt) (ds_db s)"
  proof (cases rule: soft_delete_cases)
    case (deleted had lsum cnt)
    show thesis by (rule that [of had lsum cnt]) (simp add: deleted(4))
  qed simp
  note r = delete_removed [OF i ne, of "ds_db s" uh "had \<noteq> None" lsum cnt, folded s', unfolded removed_def]
  have gone: "fmlookup (ds_db s') (doc_key i) = None" "fmlookup (ds_db s') (url_key raw) = None"
    and urls: "\<And>v. v \<noteq> raw \<Longrightarrow> fmlookup (ds_db s') (url_key v) = fmlookup (ds_db s) (url_key v)"
    and docs: "\<And>j. is_id j \<Longrightarrow> j \<noteq> i \<Longrightarrow> fmlookup (ds_db s') (doc_key j) = fmlookup (ds_db s) (doc_key j)"
    and same: "\<And>k. \<not> fam ''duihlm'' k \<Longrightarrow> fmlookup (ds_db s') k = fmlookup (ds_db s) k" using r by (simp_all del: fam_def)
  have "get_doc_by_id g ev (ds_db s') i = Inl Missing" using gone(1) q by (simp add: get_doc_by_id_def)
  moreover have "get_doc_by_url g ev (ds_db s') raw = Inl Missing"
    using gone(2) by (simp add: get_doc_by_url_view [OF ok(3,4) q] url_at_def)
  moreover have "get_doc_by_url g ev (ds_db s') v = get_doc_by_url g ev (ds_db s) v" if v: "v \<noteq> raw" for v
  proof (cases "url_at (ds_db s) v")
    case None
    then show ?thesis using urls [OF v] by (simp add: get_doc_by_url_view [OF ok(3,4) q] get_doc_by_url_view [OF ok(1,2) q] url_at_def)
  next
    case (Some j)
    then obtain x where x: "fmlookup (ds_db s) (url_key v) = Some x" "j = dec64 x" by (auto simp: url_at_def)
    from docs_okD(1) [OF ok(1) x(1)] x(2) obtain dj where j: "is_id j" "doc_at g (ds_db s) j = Some dj" "doc_url dj = v" by auto
    from u obtain y where y: "fmlookup (ds_db s) (url_key raw) = Some y" "i = dec64 y" by (auto simp: url_at_def)
    from docs_okD(1) [OF ok(1) y(1)] y(2) obtain di where "doc_at g (ds_db s) i = Some di" "doc_url di = raw" by auto
    with j v have "j \<noteq> i" by auto
    with docs [OF j(1)] have "doc_at g (ds_db s') j = doc_at g (ds_db s) j" by (simp add: doc_at_def)
    moreover have "url_at (ds_db s') v = Some j" using urls [OF v] Some by (simp add: url_at_def)
    ultimately show ?thesis using Some by (simp add: get_doc_by_url_view [OF ok(3,4) q] get_doc_by_url_view [OF ok(1,2) q])
  qed
  moreover have "set (term_hits ev (ds_db s') w) = set (term_hits ev (ds_db s) w)" for w
    by (rule hits_cong [OF ok(5,6) _ q]) (use same in \<open>auto simp: same_on_def fam_def\<close>)
  ultimately show ?thesis by blast
qed

section \<open>Frequencies\<close>

lemma hits_bounded:
  assumes inv: "db_inv g db" and q: "quiet e" and x: "get_term_info e db w = Inr (Some x)"
  shows "distinct (map pe_doc (term_hits e db w)) \<and> int (length (term_hits e db w)) \<le> ti_freq x"
proof -
  note a = inv [unfolded db_inv_def]
  have t: "term_at db w = Some x" using x get_term_info_view [of db e w] a q by simp
  have id: "is_id (ti_id x)" by (rule terms_okD(1) [OF _ t]) (use a in simp)
  have h: "term_hits e db w = map (entry_of db (ti_id x)) (sorted_list_of_set (docs_with db (ti_id x)))"
    using iterate_postings_exact [of db "ti_id x" e "[]"] a q id x by (simp add: term_hits_def)
  have "pe_doc (entry_of db y i) = i" for y i by (simp add: entry_of_def split: option.split)
  then have m: "map pe_doc (term_hits e db w) = sorted_list_of_set (docs_with db (ti_id x))" by (simp add: h comp_def)
  have "int (card (docs_with db (ti_id x))) \<le> ti_freq x" using a t by (simp add: freqs_ok_def)
  then show ?thesis using finite_docs_with [of db "ti_id x"] unfolding m by (simp add: h)
qed

lemma reads_typed:
  assumes inv: "db_inv g db" and q: "quiet e"
  shows "(\<forall>u. (get_doc_by_url g e db u = Inl Missing \<and> url_at db u = None)
      \<or> (\<exists>i d. url_at db u = Some i \<and> get_doc_by_url g e db u = Inr d \<and> doc_url d = u \<and> doc_id d = i))
    \<and> (\<forall>w. \<exists>x. get_term_info e db w = Inr x)
    \<and> (\<forall>i. is_id i \<longrightarrow> (\<exists>l. read_doc_len e db i = Inr l) \<and> (\<exists>ts. read_doc_terms e db i = Inr ts))
    \<and> (\<forall>t. is_id t \<longrightarrow> fst (iterate_postings e db t collect []) = None)"
proof -
  note a = inv [unfolded db_inv_def]
  have ok: "docs_ok g db" "ids_ok db" "terms_ok db" "postings_ok db" using a by simp_all
  have "(get_doc_by_url g e db u = Inl Missing \<and> url_at db u = None)
      \<or> (\<exists>i d. url_at db u = Some i \<and> get_doc_by_url g e db u = Inr d \<and> doc_url d = u \<and> doc_id d = i)" for u
  proof (cases "url_at db u")
    case None
    then show ?thesis by (simp add: get_doc_by_url_view [OF ok(1,2) q])
  next
    case (Some i)
    then obtain v where v: "fmlookup db (url_key u) = Some v" "i = dec64 v" by (auto simp: url_at_def)
    from docs_okD(1) [OF ok(1) v(1)] v(2) obtain d where "doc_at g db i = Some d" "doc_url d = u" "doc_id d = i" by auto
    with Some show ?thesis by (simp add: get_doc_by_url_view [OF ok(1,2) q])
  qed
  moreover have "\<exists>x. get_term_info e db w = Inr x" for w using get_term_info_view [OF ok(3) q] by simp
  moreover have "(\<exists>l. read_doc_len e db i = Inr l) \<and> (\<exists>ts. read_doc_terms e db i = Inr ts)" if "is_id i" for i
    using read_doc_len_total [OF ok(4) q that] read_doc_terms_total [OF ok(4) q that] by simp
  moreover have "fst (iterate_postings e db t collect []) = None" if "is_id t" for t
    using iterate_postings_exact [OF ok(2,4) that q, of "[]"] by simp
  ultimately show ?thesis by blast
qed

end
