(* ===== verification/DocProps.thy ===== *)
theory DocProps
  imports DocSample DocEffects
begin

text \<open>
  The properties of the document store. They are stated on stores reached from an empty one by any sequence of calls,
  failures and restarts (\<open>doc_run\<close>), whatever the codec does as long as it decodes what it encoded.
\<close>

lemma doc_run_keeps:
  assumes "doc_run g new_doc_store acks s" "gob_ok g"
  shows "doc_inv g s" "db_inv g (ds_db s)" "frontier_inv (ds_db s)" "sha_ok g (ds_db s)"
proof -
  show "doc_inv g s" by (rule step_okD(1) [OF doc_run_ok [OF assms(1) new_doc_store_inv(1) assms(2)]])
  then show "db_inv g (ds_db s)" by (simp add: doc_inv_db)
  show "frontier_inv (ds_db s)" by (rule doc_run_frontier [OF assms(1) new_doc_store_inv(1) assms(2) new_doc_store_inv(2)])
  have "sha_ok g (ds_db new_doc_store)" by (simp add: sha_ok_def hashed_def doc_at_def)
  then show "sha_ok g (ds_db s)" by (rule doc_run_sha_ok [OF assms(1) new_doc_store_inv(1) assms(2)])
qed

lemma doc_run_snoc: "doc_run g s acks s1 \<Longrightarrow> doc_step g s1 acks' s2 \<Longrightarrow> doc_run g s (acks @ acks') s2"
proof (induction rule: doc_run.induct)
  case (stop s)
  from doc_run.more [OF stop doc_run.stop] show ?case by simp
next
  case (more s a s1 b s2)
  from doc_run.more [OF more(1) more(3) [OF more(4)]] show ?case by simp
qed



text \<open>C5: An identifier that a write has acknowledged for one URL is never acknowledged for another one, neither after the
  document is deleted nor after a restart.
\<close>

theorem ids_never_reused:
  assumes "doc_run g new_doc_store acks s" "gob_ok g" "(u, i) \<in> set acks" "(v, j) \<in> set acks" "u \<noteq> v"
  shows "i \<noteq> j"
  using step_okD(5) [OF doc_run_ok [OF assms(1) new_doc_store_inv(1) assms(2)], of u i v] assms(3-5) by blast

definition other_page :: document where
  "other_page = page\<lparr>doc_url := ''http://c.d/''\<rparr>"

text \<open>The page is deleted, the store reopened, and another page written.\<close>

lemma run_two_pages:
  "\<exists>j s. doc_run flat_gob new_doc_store [(''http://a.b/'', 1), (''http://c.d/'', j)] s"
proof -
  define s1 where "s1 = snd (soft_delete_document (\<lambda>_. []) calm 1 ''http://a.b/'' stored_page)"
  have id1: "is_id 1" by (simp add: is_id_def)
  have u: "url_at (ds_db stored_page) ''http://a.b/'' = Some 1" using id1 by (simp add: url_at_def page_rows)
  have d: "soft_delete_document (\<lambda>_. []) calm 1 ''http://a.b/'' stored_page
    = (fst (soft_delete_document (\<lambda>_. []) calm 1 ''http://a.b/'' stored_page), s1)" by (simp add: s1_def)
  note st1 = doc_step.delete [OF id1 u d, of flat_gob]
  have inv1: "doc_inv flat_gob s1" by (rule soft_delete_keeps [OF d inv_page id1 u])
  have sid: "stored_id (ds_db s1) = 1" using soft_delete_urls(2) [OF d inv_page id1 u] page_rows(2) by simp
  obtain n where n: "recovered_next_id (calm_env 0) (ds_db s1) = Inr n"
    by (cases "recovered_next_id (calm_env 0) (ds_db s1)")
      (auto simp: recovered_next_id_def calm_env_def Let_def split: if_splits list.splits)
  obtain s2 where s2: "open_store (calm_env 0) (ds_db s1) = Inr s2" using n by (simp add: open_store_def)
  note st2 = doc_step.restart [OF s2, of flat_gob]
  have "db_inv flat_gob (ds_db s1)" using inv1 by (simp add: doc_inv_db)
  note o2 = open_store_keeps [OF s2 this]
  obtain j s3 where up: "upsert_document flat_gob calm other_page s2 = (Inr j, s3)"
    using upsert_total [of calm flat_gob s2 other_page] o2(1) by (auto simp: other_page_def)
  have "doc_step flat_gob s2 (case (Inr j :: doc_err + int) of Inl _ \<Rightarrow> [] | Inr i \<Rightarrow> [(doc_url other_page, i)]) s3"
    by (rule doc_step.upsert [OF _ up]) (use o2 sid in simp)
  then have st3: "doc_step flat_gob s2 [(''http://c.d/'', j)] s3" by (simp add: other_page_def)
  have "doc_step flat_gob new_doc_store (case (Inr 1 :: doc_err + int) of Inl _ \<Rightarrow> [] | Inr i \<Rightarrow> [(doc_url page, i)]) stored_page"
    by (rule doc_step.upsert [OF _ upsert_page]) simp
  then have st0: "doc_step flat_gob new_doc_store [(''http://a.b/'', 1)] stored_page" by simp
  from doc_run.more [OF st0 doc_run.more [OF st1 doc_run.more [OF st2 doc_run.more [OF st3 doc_run.stop]]]] show ?thesis by auto
qed

lemma ids_never_reused_witness: "\<exists>j s. doc_run flat_gob new_doc_store [(''http://a.b/'', 1), (''http://c.d/'', j)] s \<and> 1 \<noteq> j"
proof -
  obtain j s where r: "doc_run flat_gob new_doc_store [(''http://a.b/'', 1), (''http://c.d/'', j)] s" using run_two_pages by blast
  have "1 \<noteq> j" by (rule ids_never_reused [OF r flat_gob_ok, of "''http://a.b/''" _ "''http://c.d/''"]) simp_all
  with r show ?thesis by blast
qed

text \<open>C6: \<open>WriteCrawlResult\<close>, the one-batch write of a crawled page, leaves the store that \<open>UpsertDocument\<close>,
  \<open>IndexDocument\<close> and \<open>CompleteFrontier\<close> leave one after the other, and without faults it succeeds.
\<close>

theorem crawl_is_sequence:
  assumes "doc_run g new_doc_store acks s" "gob_ok g" "doc_url d \<noteq> []" "\<forall>i. gob_enc g (d\<lparr>doc_id := i\<rparr>) \<noteq> None" "ds_next_id s + 1 < 2 ^ 63"
  shows "(\<forall>i s'. write_crawl_result g e d title text url tok boost s = (Inr i, s') \<and> (de_partition e \<longrightarrow> \<not> get_err (de_env e) (doc_key i))
      \<longrightarrow> (\<exists>s1 s2. upsert_document g e d s = (Inr i, s1) \<and> index_document g e i title text tok boost False s1 = (Inr (), s2)
            \<and> s' = complete_row (de_env e) url s2))
    \<and> (quiet (de_env e) \<longrightarrow> (\<exists>i s'. write_crawl_result g e d title text url tok boost s = (Inr i, s')))"
  using crawl_sequence [of g e d title "text" url tok boost s] assms(2) write_crawl_total [of e g s d title "text" url tok boost]
    doc_run_keeps(1) [OF assms(1,2)] assms(3-5) by blast

lemma crawl_is_sequence_witness:
  "\<exists>i s' s1 s2. write_crawl_result flat_gob calm page ''cat'' ''cat dog cat'' ''http://a.b/'' words 3 stored_page = (Inr i, s')
    \<and> upsert_document flat_gob calm page stored_page = (Inr i, s1)
    \<and> index_document flat_gob calm i ''cat'' ''cat dog cat'' words 3 False s1 = (Inr (), s2)
    \<and> s' = complete_row (calm_env 0) ''http://a.b/'' s2"
proof -
  have u: "doc_url page \<noteq> []" by simp
  have enc: "\<forall>i. gob_enc flat_gob (page\<lparr>doc_id := i\<rparr>) \<noteq> None" by simp
  have room: "ds_next_id stored_page + 1 < 2 ^ 63" by (simp add: page_rows)
  note t = crawl_is_sequence [OF run_page flat_gob_ok u enc room, of calm "''cat''" "''cat dog cat''" "''http://a.b/''" words 3]
  then obtain i s' where r: "write_crawl_result flat_gob calm page ''cat'' ''cat dog cat'' ''http://a.b/'' words 3 stored_page = (Inr i, s')"
    using calm_simps(1) by blast
  from t r obtain s1 s2 where "upsert_document flat_gob calm page stored_page = (Inr i, s1)"
    "index_document flat_gob calm i ''cat'' ''cat dog cat'' words 3 False s1 = (Inr (), s2)" "s' = complete_row (de_env calm) ''http://a.b/'' s2"
    using calm_simps(4) by blast
  with r show ?thesis by auto
qed



text \<open>C24: \<open>UpsertDocumentBatch\<close> returns and writes what \<open>UpsertDocument\<close> returns and writes for its documents one by one;
  when it fails it has written nothing.
\<close>

theorem batch_is_sequence:
  assumes "doc_run g new_doc_store acks s" "gob_ok g" "ds_next_id s + int (length ds) < 2 ^ 63"
    "upsert_document_batch g e ds s = (r, s')"
  shows "case r of Inr ids \<Rightarrow> upsert_each g e ds s = (Inr ids, s') | Inl _ \<Rightarrow> ds_db s' = ds_db s"
  using upsert_batch_each [OF _ doc_run_keeps(1) [OF assms(1,2)] assms(2,3)] upsert_batch_fails [OF _ doc_run_keeps(1) [OF assms(1,2)] assms(3)]
    assms(4) by (auto split: sum.splits)

lemma batch_is_sequence_witness:
  "\<exists>ids s'. upsert_document_batch flat_gob calm [page, other_page, page] stored_page = (Inr ids, s')
    \<and> upsert_each flat_gob calm [page, other_page, page] stored_page = (Inr ids, s')"
proof -
  have lk: "lookup_id (calm_env 0) (ds_db stored_page) u = Inr (url_at (ds_db stored_page) u)" for u
    using lookup_id_total [of flat_gob "ds_db stored_page" "calm_env 0" u] inv_page by (simp add: doc_inv_def)
  have id1: "is_id 1" by (simp add: is_id_def)
  have res: "\<exists>i new s1. resolve_id (calm_env 0) u stored_page = (Inr (i, new), s1)" for u
    using resolve_id_total [of flat_gob stored_page "calm_env 0" u] inv_page by (auto simp: doc_inv_def)
  have dops: "\<exists>ops. doc_ops flat_gob d i = Inr ops" for d i
  proof -
    obtain b where "gob_enc flat_gob d = Some b" using flat_gob_encodes by blast
    then show ?thesis by (simp add: doc_ops_def)
  qed
  have r1: "resolve_id (calm_env 0) ''http://a.b/'' stored_page = (Inr (1, False), stored_page)"
    using id1 by (simp add: resolve_id_def lk url_at_def page_rows)
  obtain i new s1 where r2: "resolve_id (calm_env 0) ''http://c.d/'' stored_page = (Inr (i, new), s1)" using res by blast
  obtain o1 where o1: "doc_ops flat_gob (page\<lparr>doc_id := 1\<rparr>) 1 = Inr o1" using dops by blast
  obtain o2 where o2: "doc_ops flat_gob (other_page\<lparr>doc_id := i\<rparr>) i = Inr o2" using dops by blast
  have "\<exists>ids s'. upsert_document_batch flat_gob calm [page, other_page, page] stored_page = (Inr ids, s')"
    using r1 r2 o1 o2 by (simp add: upsert_document_batch_def Let_def) (simp add: other_page_def Let_def calm_env_def)
  then obtain ids s' where b: "upsert_document_batch flat_gob calm [page, other_page, page] stored_page = (Inr ids, s')" by blast
  have "case (Inr ids :: doc_err + int list) of Inr ids \<Rightarrow> upsert_each flat_gob calm [page, other_page, page] stored_page = (Inr ids, s')
      | Inl _ \<Rightarrow> ds_db s' = ds_db stored_page"
    by (rule batch_is_sequence [OF run_page flat_gob_ok _ b]) (simp add: page_rows)
  with b show ?thesis by auto
qed


definition failing :: doc_env where
  "failing = calm\<lparr>de_env := (calm_env 0)\<lparr>commit_err := True\<rparr>\<rparr>"


text \<open>C17: Without faults a deletion succeeds, and then the document is found neither by its id nor by its URL, every other
  URL reads as before, and the posting lists, which still name the deleted id, are unchanged.
\<close>

theorem deleted_stays_hidden:
  assumes "doc_run g new_doc_store acks s" "gob_ok g" "quiet (de_env e)" "quiet ev" "is_id i" "doc_at g (ds_db s) i = Some d"
    "length (doc_url d) < 2 ^ 63" "length (doc_title d) < 2 ^ 63"
  shows "\<exists>s'. soft_delete_document uh e i (doc_url d) s = (Inr True, s')
    \<and> get_doc_by_id g ev (ds_db s') i = Inl Missing \<and> get_doc_by_url g ev (ds_db s') (doc_url d) = Inl Missing
    \<and> (\<forall>v. v \<noteq> doc_url d \<longrightarrow> get_doc_by_url g ev (ds_db s') v = get_doc_by_url g ev (ds_db s) v)
    \<and> (\<forall>w. set (term_hits ev (ds_db s') w) = set (term_hits ev (ds_db s) w))"
proof -
  note inv = doc_run_keeps(1) [OF assms(1,2)]
  obtain s' where r: "soft_delete_document uh e i (doc_url d) s = (Inr True, s')"
    using soft_delete_total [OF assms(3) inv assms(5-8)] by blast
  have ok: "docs_ok g (ds_db s)" using inv by (simp add: doc_inv_def)
  have "fmlookup (ds_db s) (doc_key i) \<noteq> None" using assms(6) by (auto simp: doc_at_def bind_eq_Some_conv)
  from docs_okD(2) [OF ok assms(5) this] assms(6) have "fmlookup (ds_db s) (url_key (doc_url d)) = Some (enc64 i)" by auto
  then have "url_at (ds_db s) (doc_url d) = Some i" using assms(5) by (simp add: url_at_def)
  from soft_delete_hides [OF r inv assms(5) this assms(4)] r show ?thesis by blast
qed

lemma deleted_stays_hidden_witness:
  "\<exists>s'. soft_delete_document (\<lambda>_. ''a.b'') calm 1 ''http://a.b/'' stored_page = (Inr True, s')
    \<and> get_doc_by_url flat_gob (calm_env 0) (ds_db s') ''http://a.b/'' = Inl Missing"
proof -
  have "is_id 1" by (simp add: is_id_def)
  from deleted_stays_hidden [OF run_page flat_gob_ok calm_simps(1) quiet_calm_env this page_rows(3), of "\<lambda>_. ''a.b''" 0] show ?thesis by auto
qed

text \<open>C18: \<open>HasLiveContent\<close> answers exactly whether a stored document other than the excluded one has the hash.
\<close>

theorem live_content_exact:
  assumes "doc_run g new_doc_store acks s" "gob_ok g" "quiet e" "length sha = 32"
  shows "has_live_content g e (ds_db s) sha excl = Inr (\<exists>i. i \<noteq> excl \<and> is_id i \<and> (\<exists>d. doc_at g (ds_db s) i = Some d \<and> doc_sha d = sha))"
  using has_live_content_exact [OF doc_run_keeps(2,4) [OF assms(1,2)] assms(3,4)] assms(4) by (simp add: hashed_def)

lemma live_content_exact_witness:
  "has_live_content flat_gob (calm_env 0) (ds_db stored_page) (replicate 32 (CHR ''s'')) 0 = Inr True
    \<and> has_live_content flat_gob (calm_env 0) (ds_db stored_page) (replicate 32 (CHR ''t'')) 0 = Inr False"
proof -
  have id1: "is_id 1" by (simp add: is_id_def)
  have "\<exists>i. i \<noteq> 0 \<and> is_id i \<and> (\<exists>d. doc_at flat_gob (ds_db stored_page) i = Some d \<and> doc_sha d = replicate 32 (CHR ''s''))"
    using id1 page_rows(3) by (intro exI [of _ 1]) simp
  moreover have "\<not> (\<exists>i. i \<noteq> 0 \<and> is_id i \<and> (\<exists>d. doc_at flat_gob (ds_db stored_page) i = Some d \<and> doc_sha d = replicate 32 (CHR ''t'')))"
  proof
    assume "\<exists>i. i \<noteq> 0 \<and> is_id i \<and> (\<exists>d. doc_at flat_gob (ds_db stored_page) i = Some d \<and> doc_sha d = replicate 32 (CHR ''t''))"
    then obtain i d where i: "is_id i" "doc_at flat_gob (ds_db stored_page) i = Some d" "doc_sha d = replicate 32 (CHR ''t'')" by blast
    have "ids_ok (ds_db stored_page)" using inv_page by (simp add: doc_inv_def)
    then have "i \<le> 1" using id_live(1) [of "ds_db stored_page" i] i page_rows(2) by (auto simp: doc_at_def bind_eq_Some_conv)
    then have "i = 1" using i(1) by (simp add: is_id_def)
    with i(2,3) page_rows(3) have "doc_sha (page\<lparr>doc_id := 1\<rparr>) = replicate 32 (CHR ''t'')" by simp
    then show False by (simp add: numeral_eq_Suc)
  qed
  ultimately show ?thesis
    using live_content_exact [OF run_page flat_gob_ok quiet_calm_env, of "replicate 32 (CHR ''s'')" 0 0]
      live_content_exact [OF run_page flat_gob_ok quiet_calm_env, of "replicate 32 (CHR ''t'')" 0 0] by simp
qed

lemma sha_loop_total:
  assumes "quiet e" "\<And>n. \<not> off n" "\<forall>(k, v) \<in> set rows. gob_dec g v \<noteq> None"
  shows "fst (fst (sha_loop g e off n rows ops pending res db)) = None"
  using assms(3)
proof (induction rows arbitrary: n ops pending res db)
  case (Cons kv rows)
  obtain k v where kv: "kv = (k, v)" by fastforce
  with Cons.prems obtain d where "gob_dec g v = Some d" by auto
  with Cons assms(1,2) show ?case by (simp add: kv Let_def sha_commit_def)
qed (simp add: sha_commit_def assms(1))

lemma backfill_total:
  assumes q: "quiet e" "\<And>n. \<not> off n" and inv: "doc_inv g s" and b: "backfilled g (ds_db s)"
  shows "fst (fst (backfill_content_sha g e off rescan s)) = None"
proof -
  have pass: "fst (fst (sha_pass g e off res db)) = None"
    if db: "docs_ok g db" "ids_ok db" "0 \<le> meta_at db ''content_sha_cursor''" for res db
  proof -
    define c where "c = read_meta e db ''content_sha_cursor''"
    have cur: "c = meta_at db ''content_sha_cursor''" using q(1) by (simp add: c_def read_meta_def meta_at_def)
    have "is_i64 c" unfolding cur meta_at_def by (simp add: is_i64_def [of 0] split: option.split)
    then have cb: "0 \<le> c" "c < 2 ^ 63" using db(3) cur by (simp_all add: is_i64_def)
    have "\<forall>(k, v) \<in> set (rows_between db (doc_key (c + 1)) ''e''). gob_dec g v \<noteq> None"
    proof (rule ballI)
      fix kv assume kv: "kv \<in> set (rows_between db (doc_key (c + 1)) ''e'')"
      obtain k v where p: "kv = (k, v)" by fastforce
      from rows_between_docs [OF db(2) cb] kv obtain i where i: "is_id i" "k = doc_key i" "fmlookup db k = Some v"
        unfolding rows_from_def p by blast
      then have "gob_dec g v \<noteq> None" using docs_okD(2) [OF db(1) i(1)] by (auto simp: doc_at_def)
      then show "case kv of (k, v) \<Rightarrow> gob_dec g v \<noteq> None" by (simp add: p)
    qed
    from sha_loop_total [where rows = "rows_between db (doc_key (c + 1)) ''e''", OF q this] q(1) show ?thesis
      by (simp add: sha_pass_def Let_def flip: c_def)
  qed
  have ok: "docs_ok g (ds_db s)" "ids_ok (ds_db s)" using inv by (simp_all add: doc_inv_def)
  define D where "D = apply_batch [BDel (store_meta_key ''content_sha_complete''), BDel (store_meta_key ''content_sha_cursor'')] (ds_db s)"
  have "same_on (\<lambda>k. \<not> inert k) (ds_db s) D" by (auto simp: same_on_def D_def)
  with inv have "db_inv g D" using inert_keeps by (auto simp: doc_inv_db)
  then have D: "docs_ok g D" "ids_ok D" "0 \<le> meta_at D ''content_sha_cursor''" by (simp_all add: db_inv_def) (simp add: D_def meta_at_def)
  have c: "content_index_complete e (ds_db s) = Inr (sha_complete (ds_db s))" using q(1) by (simp add: content_index_complete_def sha_complete_def)
  have "0 \<le> meta_at (ds_db s) ''content_sha_cursor''" using b by (simp add: backfilled_def sha_cursor_def)
  with pass [OF D] pass [OF ok] q(1) show ?thesis
    unfolding backfill_content_sha_def Let_def D_def [symmetric] c by (simp add: case_prod_beta split: bool.split)
qed

text \<open>C19: A pass of \<open>BackfillContentSHA\<close> over a store whose hashes are indexed up to the recorded cursor keeps that so,
  wherever it is interrupted; a pass that ends without an error, as one without faults and interruptions does, leaves
  an index that answers exactly for all documents.
\<close>

theorem backfill_resumes:
  assumes "doc_inv g s" "backfilled g (ds_db s)" "backfill_content_sha g e off rescan s = ((x, res), s')"
  shows "doc_inv g s' \<and> backfilled g (ds_db s') \<and> (quiet e \<and> (\<forall>n. \<not> off n) \<longrightarrow> x = None) \<and> (x = None \<longrightarrow> (\<forall>ev sha excl. quiet ev \<longrightarrow> length sha = 32 \<longrightarrow>
    has_live_content g ev (ds_db s') sha excl = Inr (\<exists>i. i \<noteq> excl \<and> hashed g (ds_db s') i sha)))"
proof -
  note sp = backfill_spec [OF assms(3,1,2)]
  have "db_inv g (ds_db s)" using assms(1) by (simp add: doc_inv_db)
  note k = inert_keeps [OF this, of "ds_db s'"]
  have mem: "s' = with_db (ds_db s') s"
    using assms(3) by (auto simp: backfill_content_sha_def Let_def with_db_def split: if_splits sum.splits bool.splits prod.splits)
  have "ds_next_id s' = ds_next_id s" by (subst mem) simp
  then have "doc_inv g s'" using k sp assms(1) by (simp add: doc_inv_db)
  moreover have "db_inv g (ds_db s')" using k sp by blast
  moreover have "x = None" if "quiet e" "\<forall>n. \<not> off n" using backfill_total [OF that(1) _ assms(1,2), of off rescan] that(2) assms(3) by simp
  ultimately show ?thesis using sp has_live_content_exact [of g "ds_db s'"] by blast
qed

text \<open>The hash row of the page is lost, as in a store that predates the index, and a pass restores it.\<close>

definition legacy_page :: doc_store where
  "legacy_page = with_db (fmdrop (content_sha_key (replicate 32 (CHR ''s'')) 1) (ds_db stored_page)) stored_page"

lemma legacy_page_ok: "doc_inv flat_gob legacy_page" "backfilled flat_gob (ds_db legacy_page)"
proof -
  have db: "ds_db legacy_page = fmdrop (content_sha_key (replicate 32 (CHR ''s'')) 1) (ds_db stored_page)" by (simp add: legacy_page_def)
  have "same_on (\<lambda>k. \<not> inert k) (ds_db stored_page) (ds_db legacy_page)" by (auto simp: same_on_def db)
  from inert_keeps [OF _ this] inv_page show "doc_inv flat_gob legacy_page"
    by (auto simp: doc_inv_db legacy_page_def)
  have "sha_cursor (ds_db legacy_page) = 0" by (simp add: sha_cursor_def meta_at_def db page_rows)
  moreover have "\<not> sha_complete (ds_db legacy_page)" by (simp add: sha_complete_def db page_rows)
  ultimately show "backfilled flat_gob (ds_db legacy_page)" by (auto simp: backfilled_def hashed_def is_id_def)
qed

lemma backfill_resumes_witness:
  "\<exists>res s'. backfill_content_sha flat_gob (calm_env 0) (\<lambda>_. False) False legacy_page = ((None, res), s') \<and> doc_inv flat_gob s'
    \<and> backfilled flat_gob (ds_db s')"
proof -
  obtain x res s' where r: "backfill_content_sha flat_gob (calm_env 0) (\<lambda>_. False) False legacy_page = ((x, res), s')" by (metis prod.exhaust)
  from backfill_resumes [OF legacy_page_ok r] r show ?thesis by auto
qed

text \<open>The document frequency of a term, the divisor of its BM25 weight, is never below the length of its posting list, and
  no document is listed twice.
\<close>

theorem doc_freq_bounds_postings:
  assumes "doc_run g new_doc_store acks s" "gob_ok g" "quiet e" "get_term_info e (ds_db s) w = Inr (Some x)"
  shows "distinct (map pe_doc (term_hits e (ds_db s) w)) \<and> int (length (term_hits e (ds_db s) w)) \<le> ti_freq x"
  by (rule hits_bounded [OF doc_run_keeps(2) [OF assms(1,2)] assms(3,4)])

lemma doc_freq_bounds_postings_witness:
  "\<exists>s x. get_term_info (calm_env 0) (ds_db s) ''cat'' = Inr (Some x)
    \<and> set (term_hits (calm_env 0) (ds_db s) ''cat'') = {\<lparr>pe_doc = 1, pe_tf = 5, pe_len = 4\<rparr>} \<and> 1 \<le> ti_freq x"
proof -
  have id1: "is_id 1" and le: "1 \<le> stored_id (ds_db stored_page)" by (simp_all add: is_id_def page_rows)
  have w: "words ''cat'' \<noteq> [] \<or> words ''cat dog cat'' \<noteq> []" by simp
  have b: "clamp_boost 3 * int (length (words ''cat'')) + int (length (words ''cat dog cat'')) < 2 ^ 63" by (simp add: clamp_boost_def)
  obtain s where r: "index_document flat_gob calm 1 ''cat'' ''cat dog cat'' words 3 False stored_page = (Inr (), s)"
    using index_document_total [OF calm_simps(1) inv_page id1] by blast
  have run: "doc_run flat_gob new_doc_store [(''http://a.b/'', 1)] s"
    using doc_run_snoc [OF run_page doc_step.index [OF calm_simps(2) id1 le room_page r]] by simp
  have e: "set (term_hits (calm_env 0) (ds_db stored_page) ''cat'') = {}"
    using set_term_hits [OF _ quiet_calm_env, of flat_gob "ds_db stored_page" 0 "''cat''"] inv_page page_rows(5) [of "''cat''"] by (simp add: doc_inv_db)
  from index_document_hits [OF r inv_page calm_simps(2) id1 le room_page w b quiet_calm_env, of 0 "''cat''"]
  have h: "set (term_hits (calm_env 0) (ds_db s) ''cat'') = {\<lparr>pe_doc = 1, pe_tf = 5, pe_len = 4\<rparr>}" by (simp add: e clamp_boost_def)
  then have "term_hits (calm_env 0) (ds_db s) ''cat'' \<noteq> []" by force
  then obtain x where x: "get_term_info (calm_env 0) (ds_db s) ''cat'' = Inr (Some x)"
    by (auto simp: term_hits_def split: sum.splits option.splits)
  from doc_freq_bounds_postings [OF run flat_gob_ok quiet_calm_env x] h have "distinct (term_hits (calm_env 0) (ds_db s) ''cat'')"
    "int (length (term_hits (calm_env 0) (ds_db s) ''cat'')) \<le> ti_freq x" by (simp_all add: distinct_map)
  with h have "1 \<le> ti_freq x" using distinct_card [of "term_hits (calm_env 0) (ds_db s) ''cat''"] by simp
  with x h show ?thesis by blast
qed

text \<open>Without faults every read of a reachable store is well typed: a URL gives the document with this URL and its own id,
  or is missing; terms, lengths, term lists and posting lists decode.
\<close>

theorem reads_well_typed:
  assumes "doc_run g new_doc_store acks s" "gob_ok g" "quiet e"
  shows "(\<forall>u. (get_doc_by_url g e (ds_db s) u = Inl Missing \<and> url_at (ds_db s) u = None)
      \<or> (\<exists>i d. url_at (ds_db s) u = Some i \<and> get_doc_by_url g e (ds_db s) u = Inr d \<and> doc_url d = u \<and> doc_id d = i))
    \<and> (\<forall>w. \<exists>x. get_term_info e (ds_db s) w = Inr x)
    \<and> (\<forall>i. is_id i \<longrightarrow> (\<exists>l. read_doc_len e (ds_db s) i = Inr l) \<and> (\<exists>ts. read_doc_terms e (ds_db s) i = Inr ts))
    \<and> (\<forall>t. is_id t \<longrightarrow> fst (iterate_postings e (ds_db s) t collect []) = None)"
  by (rule reads_typed [OF doc_run_keeps(2) [OF assms(1,2)] assms(3)])

lemma reads_well_typed_witness:
  "get_doc_by_url flat_gob (calm_env 0) (ds_db stored_page) ''http://c.d/'' = Inl Missing
    \<and> (\<exists>d. get_doc_by_url flat_gob (calm_env 0) (ds_db stored_page) ''http://a.b/'' = Inr d \<and> doc_url d = ''http://a.b/'' \<and> doc_id d = 1)"
proof -
  note x = reads_well_typed [OF run_page flat_gob_ok quiet_calm_env, THEN conjunct1]
  have id1: "is_id 1" by (simp add: is_id_def)
  have "url_at (ds_db stored_page) ''http://c.d/'' = None" "url_at (ds_db stored_page) ''http://a.b/'' = Some 1"
    using id1 by (simp_all add: url_at_def page_rows)
  with x [of 0, THEN spec [of _ "''http://c.d/''"]] x [of 0, THEN spec [of _ "''http://a.b/''"]] show ?thesis by auto
qed

end
