(* ===== verification/ArtTypes.thy ===== *)
theory ArtTypes
  imports KV Complex_Main
begin

text \<open>
  The article store's data (\<open>src/internal/articles/record.go\<close>, \<open>keys.go\<close>): the record, the three
  JSON shapes it is stored in, and the keys of family \<open>'R'\<close>. A JSON document is modelled by the Go
  struct that \<open>encoding/json\<close> writes field by field and reads back field by field; a field the
  struct does not have decodes to its zero value; nil and empty slices are the empty list. The 64-bit
  float \<open>cost_usd\<close> is carried as its bit pattern, and vectors are lists of rationals: the rounding
  of \<open>float32\<close> sums is not modelled.
\<close>

section \<open>Records\<close>

abbreviation st_pending :: bytes where "st_pending \<equiv> ''pending''"
abbreviation st_published :: bytes where "st_published \<equiv> ''published''"
abbreviation st_held :: bytes where "st_held \<equiv> ''held''"
abbreviation st_rejected :: bytes where "st_rejected \<equiv> ''rejected''"
abbreviation st_tombstoned :: bytes where "st_tombstoned \<equiv> ''tombstoned''"

record citation =
  ci_n :: int
  ci_url :: bytes
  ci_title :: bytes
  ci_host :: bytes
  ci_quote :: bytes
  ci_sha :: bytes

record sensitivity =
  se_class :: bytes
  se_reason :: bytes

record models =
  mo_triage :: bytes
  mo_writer :: bytes

record build =
  bu_considered :: int
  bu_used :: int
  bu_params :: bytes
  bu_cost :: nat
  bu_degraded :: bool

record moderation =
  md_action :: bytes
  md_by :: bytes
  md_reason :: bytes
  md_at :: bytes

record article_json =
  r_schema :: int
  r_id :: bytes
  r_slug :: bytes
  r_base_slug :: bytes
  r_title :: bytes
  r_lead :: bytes
  r_body :: bytes
  r_citations :: "citation list"
  r_tier :: bytes
  r_promoted :: bool
  r_vertical :: bytes
  r_status :: bytes
  r_sens :: sensitivity
  r_ai :: bool
  r_aliases :: "bytes list"
  r_topics :: "bytes list"
  r_clusters :: "bytes list"
  r_models :: models
  r_build :: build
  r_version :: int
  r_sha :: bytes
  r_created :: bytes
  r_updated :: bytes
  r_status_at :: bytes
  r_moderation :: "moderation option"
  r_prelive :: bool

text \<open>\<open>Record\<close>: the fields of an article and the three of a residue.\<close>

record rec = article_json +
  r_residue :: bool
  r_reason :: bytes
  r_tombstoned_at :: bytes

record stub_json =
  sj_schema :: int
  sj_id :: bytes
  sj_slug :: bytes
  sj_base_slug :: bytes
  sj_title :: bytes
  sj_vertical :: bytes
  sj_status :: bytes
  sj_topics :: "bytes list"
  sj_version :: int
  sj_sha :: bytes
  sj_created :: bytes
  sj_updated :: bytes
  sj_status_at :: bytes
  sj_prelive :: bool

record residue_json =
  rj_schema :: int
  rj_id :: bytes
  rj_slug :: bytes
  rj_base_slug :: bytes
  rj_status :: bytes
  rj_reason :: bytes
  rj_topics :: "bytes list"
  rj_prelive :: bool
  rj_tombstoned_at :: bytes
  rj_status_at :: bytes

datatype rec_doc = ResidueDoc residue_json | StubDoc stub_json | ArticleDoc article_json

definition zero_build :: build where
  "zero_build = \<lparr>bu_considered = 0, bu_used = 0, bu_params = [], bu_cost = 0, bu_degraded = False\<rparr>"

text \<open>The zero value of \<open>Record\<close>.\<close>

definition zero_rec :: rec where
  "zero_rec = \<lparr>r_schema = 0, r_id = [], r_slug = [], r_base_slug = [], r_title = [], r_lead = [],
     r_body = [], r_citations = [], r_tier = [], r_promoted = False, r_vertical = [], r_status = [],
     r_sens = \<lparr>se_class = [], se_reason = []\<rparr>, r_ai = False, r_aliases = [], r_topics = [],
     r_clusters = [], r_models = \<lparr>mo_triage = [], mo_writer = []\<rparr>, r_build = zero_build,
     r_version = 0, r_sha = [], r_created = [], r_updated = [], r_status_at = [],
     r_moderation = None, r_prelive = False,
     r_residue = False, r_reason = [], r_tombstoned_at = []\<rparr>"

definition default_params :: "build \<Rightarrow> build" where
  "default_params b = (if bu_params b = [] then b\<lparr>bu_params := ''{}''\<rparr> else b)"

definition article_of :: "rec \<Rightarrow> article_json" where
  "article_of r = \<lparr>r_schema = r_schema r, r_id = r_id r, r_slug = r_slug r, r_base_slug = r_base_slug r,
     r_title = r_title r, r_lead = r_lead r, r_body = r_body r, r_citations = r_citations r,
     r_tier = r_tier r, r_promoted = r_promoted r, r_vertical = r_vertical r, r_status = r_status r,
     r_sens = r_sens r, r_ai = r_ai r, r_aliases = r_aliases r, r_topics = r_topics r,
     r_clusters = r_clusters r, r_models = r_models r, r_build = default_params (r_build r),
     r_version = r_version r, r_sha = r_sha r, r_created = r_created r, r_updated = r_updated r,
     r_status_at = r_status_at r, r_moderation = r_moderation r, r_prelive = r_prelive r\<rparr>"

definition marshal_record :: "rec \<Rightarrow> rec_doc" where
  "marshal_record r =
     (if r_residue r then ResidueDoc \<lparr>rj_schema = r_schema r, rj_id = r_id r, rj_slug = r_slug r,
        rj_base_slug = r_base_slug r, rj_status = r_status r, rj_reason = r_reason r,
        rj_topics = r_topics r, rj_prelive = r_prelive r, rj_tombstoned_at = r_tombstoned_at r,
        rj_status_at = r_status_at r\<rparr>
      else if r_status r = st_pending then StubDoc \<lparr>sj_schema = r_schema r, sj_id = r_id r,
        sj_slug = r_slug r, sj_base_slug = r_base_slug r, sj_title = r_title r,
        sj_vertical = r_vertical r, sj_status = r_status r, sj_topics = r_topics r,
        sj_version = r_version r, sj_sha = r_sha r, sj_created = r_created r,
        sj_updated = r_updated r, sj_status_at = r_status_at r, sj_prelive = r_prelive r\<rparr>
      else ArticleDoc (article_of r))"

fun decode_record :: "rec_doc \<Rightarrow> rec" where
  "decode_record (ResidueDoc j) = zero_rec\<lparr>r_schema := rj_schema j, r_id := rj_id j, r_slug := rj_slug j,
     r_base_slug := rj_base_slug j, r_status := rj_status j, r_topics := rj_topics j,
     r_status_at := rj_status_at j, r_prelive := rj_prelive j, r_residue := True,
     r_reason := rj_reason j, r_tombstoned_at := rj_tombstoned_at j\<rparr>"
| "decode_record (StubDoc j) = zero_rec\<lparr>r_schema := sj_schema j, r_id := sj_id j, r_slug := sj_slug j,
     r_base_slug := sj_base_slug j, r_title := sj_title j, r_vertical := sj_vertical j,
     r_status := sj_status j, r_topics := sj_topics j, r_version := sj_version j, r_sha := sj_sha j,
     r_created := sj_created j, r_updated := sj_updated j, r_status_at := sj_status_at j,
     r_prelive := sj_prelive j\<rparr>"
| "decode_record (ArticleDoc a) = article_json.extend a
     \<lparr>r_residue = False, r_reason = [], r_tombstoned_at = []\<rparr>"

definition set_status :: "bytes \<Rightarrow> bytes \<Rightarrow> rec \<Rightarrow> rec" where
  "set_status status ts r = r\<lparr>r_status := status, r_status_at := ts,
     r_promoted := (status = st_published \<and> r_tier r = ''strong'')\<rparr>"

definition to_residue :: "bytes \<Rightarrow> bytes \<Rightarrow> bytes \<Rightarrow> rec \<Rightarrow> rec" where
  "to_residue status reason ts r =
     (let res = zero_rec\<lparr>r_schema := 1, r_id := r_id r, r_slug := r_slug r, r_base_slug := r_base_slug r,
          r_status := status, r_residue := True, r_reason := reason, r_topics := r_topics r,
          r_prelive := r_prelive r, r_status_at := r_status_at r\<rparr> in
      if status = st_tombstoned then res\<lparr>r_tombstoned_at := ts, r_status_at := ts\<rparr>
      else if r_residue r then res\<lparr>r_tombstoned_at := r_tombstoned_at r\<rparr>
      else res)"

definition blocks_title :: "rec \<Rightarrow> bool" where
  "blocks_title r = (r_status r = st_held \<or> r_status r = st_rejected \<or> r_status r = st_tombstoned)"

text \<open>The struct whose JSON \<open>contentHash\<close> digests.\<close>

record hash_input =
  hi_title :: bytes
  hi_lead :: bytes
  hi_body :: bytes
  hi_citations :: "citation list"
  hi_tier :: bytes
  hi_vertical :: bytes
  hi_sens :: sensitivity
  hi_aliases :: "bytes list"
  hi_topics :: "bytes list"

definition hash_input_of :: "rec \<Rightarrow> hash_input" where
  "hash_input_of r = \<lparr>hi_title = r_title r, hi_lead = r_lead r, hi_body = r_body r,
     hi_citations = r_citations r, hi_tier = r_tier r, hi_vertical = r_vertical r,
     hi_sens = r_sens r, hi_aliases = sort (r_aliases r), hi_topics = sort (r_topics r)\<rparr>"

section \<open>Round trip\<close>

text \<open>
  What a stored record reads back as: itself, except that an article without retrieval parameters
  reads back with the empty object. The fields a shape omits are zero in every record of that shape.
\<close>

definition norm_rec :: "rec \<Rightarrow> rec" where
  "norm_rec r = (if r_residue r \<or> r_status r = st_pending then r
     else r\<lparr>r_build := default_params (r_build r)\<rparr>)"

definition shape_ok :: "rec \<Rightarrow> bool" where
  "shape_ok r =
     (if r_residue r then r = zero_rec\<lparr>r_schema := r_schema r, r_id := r_id r, r_slug := r_slug r,
        r_base_slug := r_base_slug r, r_status := r_status r, r_topics := r_topics r,
        r_status_at := r_status_at r, r_prelive := r_prelive r, r_residue := True,
        r_reason := r_reason r, r_tombstoned_at := r_tombstoned_at r\<rparr>
      else if r_status r = st_pending then r = zero_rec\<lparr>r_schema := r_schema r, r_id := r_id r,
        r_slug := r_slug r, r_base_slug := r_base_slug r, r_title := r_title r,
        r_vertical := r_vertical r, r_status := r_status r, r_topics := r_topics r,
        r_version := r_version r, r_sha := r_sha r, r_created := r_created r,
        r_updated := r_updated r, r_status_at := r_status_at r, r_prelive := r_prelive r\<rparr>
      else r_reason r = [] \<and> r_tombstoned_at r = [])"

lemma default_params_idem [simp]: "default_params (default_params b) = default_params b"
  by (simp add: default_params_def)

lemma decode_marshal: "shape_ok r \<Longrightarrow> decode_record (marshal_record r) = norm_rec r"
  unfolding shape_ok_def marshal_record_def norm_rec_def
  by (auto simp: article_of_def article_json.extend_def split: if_splits)

lemma norm_rec_simps [simp]:
  "r_id (norm_rec r) = r_id r" "r_slug (norm_rec r) = r_slug r" "r_title (norm_rec r) = r_title r"
  "r_status (norm_rec r) = r_status r" "r_residue (norm_rec r) = r_residue r"
  "r_prelive (norm_rec r) = r_prelive r" "r_topics (norm_rec r) = r_topics r"
  "r_base_slug (norm_rec r) = r_base_slug r" "norm_rec (norm_rec r) = norm_rec r"
  by (simp_all add: norm_rec_def)

lemma marshal_norm: "marshal_record (norm_rec r) = marshal_record r"
  by (simp add: marshal_record_def norm_rec_def article_of_def)

section \<open>Keys\<close>

definition sub_record :: char where "sub_record = CHR ''a''"
definition sub_version :: char where "sub_version = CHR ''v''"
definition sub_slug :: char where "sub_slug = CHR ''s''"
definition sub_topic :: char where "sub_topic = CHR ''t''"
definition sub_embedding :: char where "sub_embedding = CHR ''e''"
definition sub_fingerprint :: char where "sub_fingerprint = CHR ''f''"
definition sub_counters :: char where "sub_counters = CHR ''c''"
definition sub_meta :: char where "sub_meta = CHR ''m''"

lemmas sub_defs = sub_record_def sub_version_def sub_slug_def sub_topic_def sub_embedding_def
  sub_fingerprint_def sub_counters_def sub_meta_def

definition is_digit :: "char \<Rightarrow> bool" where
  "is_digit c = (CHR ''0'' \<le> c \<and> c \<le> CHR ''9'')"

definition is_hex :: "char \<Rightarrow> bool" where
  "is_hex c = (is_digit c \<or> (CHR ''a'' \<le> c \<and> c \<le> CHR ''f''))"

text \<open>The patterns \<open>^[0-9A-HJKMNP-TV-Z]{26}$\<close> and \<open>^[0-9a-f]{16}$\<close>.\<close>

definition valid_id :: "bytes \<Rightarrow> bool" where
  "valid_id s = (length s = 26 \<and> list_all (\<lambda>c. is_digit c \<or> (CHR ''A'' \<le> c \<and> c \<le> CHR ''Z''
     \<and> c \<notin> {CHR ''I'', CHR ''L'', CHR ''O'', CHR ''U''})) s)"

definition topic_pattern :: "bytes \<Rightarrow> bool" where
  "topic_pattern s = (length s = 16 \<and> list_all is_hex s)"

definition art_key :: "char \<Rightarrow> bytes \<Rightarrow> bytes" where
  "art_key sub suffix = CHR ''R'' # sub # suffix"

definition record_key :: "bytes \<Rightarrow> bytes" where "record_key i = art_key sub_record i"
definition slug_key :: "bytes \<Rightarrow> bytes" where "slug_key s = art_key sub_slug s"
definition topic_key :: "bytes \<Rightarrow> bytes" where "topic_key t = art_key sub_topic t"
definition embedding_key :: "bytes \<Rightarrow> bytes" where "embedding_key i = art_key sub_embedding i"
definition fingerprint_key :: "bytes \<Rightarrow> bytes" where "fingerprint_key i = art_key sub_fingerprint i"
definition counters_key :: "bytes \<Rightarrow> bytes" where "counters_key i = art_key sub_counters i"
definition meta_key :: "bytes \<Rightarrow> bytes" where "meta_key n = art_key sub_meta n"

definition version_key :: "bytes \<Rightarrow> int \<Rightarrow> bytes" where
  "version_key i v = art_key sub_version i @ be64 (nat (v mod 2 ^ 64))"

definition version_lower :: "bytes \<Rightarrow> bytes" where
  "version_lower i = art_key sub_version i"

definition version_upper :: "bytes \<Rightarrow> bytes" where
  "version_upper i = art_key sub_version i @ [CHR 0xFF]"

record parsed_key =
  pk_sub :: char
  pk_suffix :: bytes
  pk_version :: int

definition parse_key :: "bytes \<Rightarrow> parsed_key option" where
  "parse_key k =
     (if length k < 3 \<or> k ! 0 \<noteq> CHR ''R'' then None
      else let sub = k ! 1; rest = drop 2 k; p = \<lparr>pk_sub = sub, pk_suffix = rest, pk_version = 0\<rparr> in
        if sub \<in> {sub_record, sub_embedding, sub_fingerprint, sub_counters}
        then (if valid_id rest then Some p else None)
        else if sub = sub_version then
          (if length rest \<noteq> 34 then None
           else let i = take 26 rest in
             if valid_id i
             then Some \<lparr>pk_sub = sub, pk_suffix = i, pk_version = i64 (int (be_nat (drop 26 rest)))\<rparr>
             else None)
        else if sub = sub_slug then Some p
        else if sub = sub_topic then (if topic_pattern rest then Some p else None)
        else if sub = sub_meta then Some p
        else None)"

lemmas art_key_defs = record_key_def slug_key_def topic_key_def embedding_key_def fingerprint_key_def
  counters_key_def meta_key_def version_key_def version_lower_def version_upper_def art_key_def

lemma art_key_inj [simp]:
  "(record_key i = record_key j) = (i = j)" "(slug_key s = slug_key t) = (s = t)"
  "(topic_key s = topic_key t) = (s = t)" "(embedding_key i = embedding_key j) = (i = j)"
  "(fingerprint_key i = fingerprint_key j) = (i = j)" "(counters_key i = counters_key j) = (i = j)"
  "(meta_key s = meta_key t) = (s = t)"
  by (simp_all add: art_key_defs)

text \<open>Two keys of different kinds differ in their second byte.\<close>

definition key_sub :: "bytes \<Rightarrow> char" where
  "key_sub k = k ! 1"

lemma key_sub_simps [simp]:
  "key_sub (record_key i) = sub_record" "key_sub (slug_key i) = sub_slug"
  "key_sub (topic_key i) = sub_topic" "key_sub (embedding_key i) = sub_embedding"
  "key_sub (fingerprint_key i) = sub_fingerprint" "key_sub (counters_key i) = sub_counters"
  "key_sub (meta_key i) = sub_meta" "key_sub (version_key i v) = sub_version"
  by (simp_all add: key_sub_def art_key_defs)

lemma key_neq: "key_sub k \<noteq> key_sub k' \<Longrightarrow> k \<noteq> k'"
  by auto

lemma valid_id_length: "valid_id i \<Longrightarrow> length i = 26"
  by (simp add: valid_id_def)

lemma length_version_key: "valid_id i \<Longrightarrow> length (version_key i v) = 36"
  by (simp add: version_key_def art_key_def valid_id_length)

end
