(* ===== verification/ArtIndex.thy ===== *)
theory ArtIndex
  imports ArtTypes
begin

text \<open>
  The in-memory index of the article store and its rebuild from the \<open>'R'\<close> keys
  (\<open>src/internal/articles/store.go\<close>, \<open>vectors.go\<close>). The index must at every moment be what a restart
  would load: \<open>mirrors\<close> states that pointwise, and \<open>rebuild_mirrors\<close> shows that the loop of \<open>Rebuild\<close>
  computes it.
\<close>

section \<open>Values\<close>

type_synonym vec = "rat list"

definition dot :: "vec \<Rightarrow> vec \<Rightarrow> rat" where
  "dot a b = sum_list (map2 (*) a b)"

datatype row_kind = KindTitle | KindLead | KindAlias

record row =
  rw_kind :: row_kind
  rw_alias :: nat
  rw_vec :: vec

record slug_entry =
  sl_id :: bytes
  sl_canonical :: bool

record golive_meta =
  gm_at :: bytes
  gm_by :: bytes
  gm_records :: nat

text \<open>
  The stored values by kind. A document the decoder of its key refuses (bad JSON, bad base64, a vector
  of the wrong length) is \<open>DBad\<close>; a topic claim is the bare id.
\<close>

datatype rdoc = DRecord rec_doc | DSlug slug_entry | DTopic bytes | DEmb bytes nat "row list"
  | DFp bytes nat vec | DCounters "(bytes, nat) fmap" | DGolive golive_meta | DSchema | DBad

record index =
  ix_recs :: "(bytes, rec) fmap"
  ix_slugs :: "(bytes, slug_entry) fmap"
  ix_claims :: "(bytes, bytes) fmap"
  ix_rows :: "(bytes, row list) fmap"
  ix_fps :: "(bytes, vec) fmap"
  ix_fp_other :: "bytes fset"
  ix_full_slugs :: "(bytes, bytes) fmap"
  ix_golive :: "golive_meta option"

definition new_index :: index where
  "new_index = \<lparr>ix_recs = fmempty, ix_slugs = fmempty, ix_claims = fmempty, ix_rows = fmempty,
     ix_fps = fmempty, ix_fp_other = {||}, ix_full_slugs = fmempty, ix_golive = None\<rparr>"

text \<open>What the store is configured with: the embedder's shape (\<open>None\<close>: no embedder) and the parts the
  slug needs from outside the repository. \<open>dp_full_slug\<close> is the slug before the cut, \<open>dp_hash\<close> SHA-256 of
  the content's JSON, \<open>dp_unit\<close> the scaling of a vector to unit length (\<open>None\<close> for a degenerate one).\<close>

record deps =
  dp_emb :: "(bytes \<times> nat) option"
  dp_full_slug :: "bytes \<Rightarrow> bytes"
  dp_hash :: "hash_input \<Rightarrow> bytes"
  dp_unit :: "vec \<Rightarrow> vec option"

definition embedder_shape :: "deps \<Rightarrow> bytes \<times> nat" where
  "embedder_shape d = (case dp_emb d of None \<Rightarrow> ([], 0) | Some s \<Rightarrow> s)"

text \<open>A vector of the running model, or of any model when there is no embedder.\<close>

definition current_model :: "deps \<Rightarrow> bytes \<Rightarrow> nat \<Rightarrow> bool" where
  "current_model d m n = (dp_emb d = None \<or> embedder_shape d = (m, n))"

section \<open>Index operations\<close>

definition put_record :: "deps \<Rightarrow> rec \<Rightarrow> index \<Rightarrow> index" where
  "put_record d r ix = ix\<lparr>ix_recs := fmupd (r_id r) r (ix_recs ix),
     ix_full_slugs := (if r_title r \<noteq> [] then fmupd (r_id r) (dp_full_slug d (r_title r)) (ix_full_slugs ix)
       else fmdrop (r_id r) (ix_full_slugs ix))\<rparr>"

definition drop_record :: "bytes \<Rightarrow> index \<Rightarrow> index" where
  "drop_record i ix = ix\<lparr>ix_recs := fmdrop i (ix_recs ix), ix_rows := fmdrop i (ix_rows ix),
     ix_fps := fmdrop i (ix_fps ix), ix_fp_other := ix_fp_other ix |-| {|i|},
     ix_full_slugs := fmdrop i (ix_full_slugs ix),
     ix_slugs := fmfilter (\<lambda>s. map_option sl_id (fmlookup (ix_slugs ix) s) \<noteq> Some i) (ix_slugs ix),
     ix_claims := fmfilter (\<lambda>t. fmlookup (ix_claims ix) t \<noteq> Some i) (ix_claims ix)\<rparr>"

definition has_fingerprint :: "index \<Rightarrow> bytes \<Rightarrow> bool" where
  "has_fingerprint ix i = (fmlookup (ix_fps ix) i \<noteq> None)"

definition any_fingerprint :: "index \<Rightarrow> bytes \<Rightarrow> bool" where
  "any_fingerprint ix i = (has_fingerprint ix i \<or> i |\<in>| ix_fp_other ix)"

section \<open>Rebuild\<close>

text \<open>One step of the scan of \<open>Rebuild\<close>: index, counters by id, ids to embed again.\<close>

type_synonym scan = "index \<times> (bytes, (bytes, nat) fmap) fmap \<times> bytes list"

fun rebuild_step :: "deps \<Rightarrow> bytes \<times> rdoc \<Rightarrow> scan \<Rightarrow> scan" where
  "rebuild_step d (k, v) (ix, counts, re) =
     (case parse_key k of None \<Rightarrow> (ix, counts, re)
      | Some p \<Rightarrow> let i = pk_suffix p in
          if pk_sub p = sub_record then
            (case v of DRecord doc \<Rightarrow> (let r = decode_record doc in
                if r_id r \<noteq> i then (ix, counts, re) else (put_record d r ix, counts, re))
             | _ \<Rightarrow> (ix, counts, re))
          else if pk_sub p = sub_slug then
            (case v of DSlug e \<Rightarrow> (ix\<lparr>ix_slugs := fmupd i e (ix_slugs ix)\<rparr>, counts, re)
             | _ \<Rightarrow> (ix, counts, re))
          else if pk_sub p = sub_topic then
            (case v of DTopic o' \<Rightarrow> (ix\<lparr>ix_claims := fmupd i o' (ix_claims ix)\<rparr>, counts, re)
             | _ \<Rightarrow> (ix, counts, re))
          else if pk_sub p = sub_embedding then
            (case v of DEmb m n rows \<Rightarrow>
                if \<not> current_model d m n then (ix, counts, re @ [i])
                else (ix\<lparr>ix_rows := fmupd i rows (ix_rows ix)\<rparr>, counts, re)
             | _ \<Rightarrow> (ix, counts, re))
          else if pk_sub p = sub_fingerprint then
            (case v of DFp m n f \<Rightarrow>
                if \<not> current_model d m n then (ix\<lparr>ix_fp_other := finsert i (ix_fp_other ix)\<rparr>, counts, re)
                else (ix\<lparr>ix_fps := fmupd i f (ix_fps ix)\<rparr>, counts, re)
             | _ \<Rightarrow> (ix, counts, re))
          else if pk_sub p = sub_counters then
            (case v of DCounters days \<Rightarrow> (ix, fmupd i days counts, re) | _ \<Rightarrow> (ix, counts, re))
          else if pk_sub p = sub_meta \<and> i = ''golive'' then
            (case v of DGolive g \<Rightarrow> (ix\<lparr>ix_golive := Some g\<rparr>, counts, re) | _ \<Rightarrow> (ix, counts, re))
          else (ix, counts, re))"

definition family_keys :: "rdoc kv \<Rightarrow> bytes list" where
  "family_keys db = kv_keys db ''R'' ''S''"

definition rebuild_scan :: "deps \<Rightarrow> rdoc kv \<Rightarrow> scan" where
  "rebuild_scan d db = fold (rebuild_step d) (map (\<lambda>k. (k, the (fmlookup db k))) (family_keys db))
     (new_index, fmempty, [])"

definition live_content :: "index \<Rightarrow> bytes \<Rightarrow> bool" where
  "live_content ix i = (case fmlookup (ix_recs ix) i of None \<Rightarrow> False | Some r \<Rightarrow> \<not> r_residue r)"

text \<open>The loaded index, the loaded counters and the records to embed again.\<close>

definition rebuild :: "deps \<Rightarrow> rdoc kv \<Rightarrow> scan" where
  "rebuild d db = (case rebuild_scan d db of (ix, counts, re) \<Rightarrow>
     (ix\<lparr>ix_rows := fmfilter (live_content ix) (ix_rows ix)\<rparr>,
      fmfilter (live_content ix) counts,
      filter (\<lambda>i. case fmlookup (ix_recs ix) i of None \<Rightarrow> False
        | Some r \<Rightarrow> \<not> r_residue r \<and> r_status r \<noteq> st_pending) re))"

section \<open>What the database says\<close>

definition rec_at :: "rdoc kv \<Rightarrow> bytes \<Rightarrow> rec option" where
  "rec_at db i = (if \<not> valid_id i then None
     else case fmlookup db (record_key i) of Some (DRecord doc) \<Rightarrow>
         (let r = decode_record doc in if r_id r = i then Some r else None)
       | _ \<Rightarrow> None)"

definition slug_at :: "rdoc kv \<Rightarrow> bytes \<Rightarrow> slug_entry option" where
  "slug_at db s = (if s = [] then None
     else case fmlookup db (slug_key s) of Some (DSlug e) \<Rightarrow> Some e | _ \<Rightarrow> None)"

definition claim_at :: "rdoc kv \<Rightarrow> bytes \<Rightarrow> bytes option" where
  "claim_at db t = (if \<not> topic_pattern t then None
     else case fmlookup db (topic_key t) of Some (DTopic i) \<Rightarrow> Some i | _ \<Rightarrow> None)"

definition rows_at :: "deps \<Rightarrow> rdoc kv \<Rightarrow> bytes \<Rightarrow> row list option" where
  "rows_at d db i = (if \<not> valid_id i then None
     else case fmlookup db (embedding_key i) of Some (DEmb m n rows) \<Rightarrow>
         (if current_model d m n then Some rows else None)
       | _ \<Rightarrow> None)"

definition fp_at :: "deps \<Rightarrow> rdoc kv \<Rightarrow> bytes \<Rightarrow> vec option" where
  "fp_at d db i = (if \<not> valid_id i then None
     else case fmlookup db (fingerprint_key i) of Some (DFp m n f) \<Rightarrow>
         (if current_model d m n then Some f else None)
       | _ \<Rightarrow> None)"

definition fp_other_at :: "deps \<Rightarrow> rdoc kv \<Rightarrow> bytes \<Rightarrow> bool" where
  "fp_other_at d db i = (valid_id i \<and> (case fmlookup db (fingerprint_key i) of
       Some (DFp m n f) \<Rightarrow> \<not> current_model d m n | _ \<Rightarrow> False))"

definition golive_at :: "rdoc kv \<Rightarrow> golive_meta option" where
  "golive_at db = (case fmlookup db (meta_key ''golive'') of Some (DGolive g) \<Rightarrow> Some g | _ \<Rightarrow> None)"

definition counters_at :: "rdoc kv \<Rightarrow> bytes \<Rightarrow> (bytes, nat) fmap option" where
  "counters_at db i = (if \<not> valid_id i then None
     else case fmlookup db (counters_key i) of Some (DCounters c) \<Rightarrow> Some c | _ \<Rightarrow> None)"

definition full_slug_of :: "deps \<Rightarrow> rec option \<Rightarrow> bytes option" where
  "full_slug_of d r = (case r of None \<Rightarrow> None
     | Some r \<Rightarrow> if r_title r = [] then None else Some (dp_full_slug d (r_title r)))"

text \<open>The index is what the database says, up to the default a stored article reads back with.\<close>

definition mirrors :: "deps \<Rightarrow> rdoc kv \<Rightarrow> index \<Rightarrow> bool" where
  "mirrors d db ix =
     ((\<forall>i. map_option norm_rec (fmlookup (ix_recs ix) i) = rec_at db i)
      \<and> (\<forall>s. fmlookup (ix_slugs ix) s = slug_at db s)
      \<and> (\<forall>t. fmlookup (ix_claims ix) t = claim_at db t)
      \<and> (\<forall>i. fmlookup (ix_rows ix) i = (if live_content ix i then rows_at d db i else None))
      \<and> (\<forall>i. fmlookup (ix_fps ix) i = fp_at d db i)
      \<and> (\<forall>i. i |\<in>| ix_fp_other ix \<longleftrightarrow> fp_other_at d db i)
      \<and> (\<forall>i. fmlookup (ix_full_slugs ix) i = full_slug_of d (fmlookup (ix_recs ix) i))
      \<and> ix_golive ix = golive_at db)"

end
