(* ===== verification/ArtSlug.thy ===== *)
theory ArtSlug
  imports ArtIndex
begin

text \<open>
  Slugs and capped unions: \<open>cutSlug\<close> and \<open>assignSlug\<close> of \<open>src/internal/articles/title.go\<close>, \<open>mergeCapped\<close>
  of \<open>put.go\<close>. \<open>assignSlug\<close> has no bound in the code; here it searches as many candidates as there are
  taken slugs plus ten, and \<open>assign_slug_free\<close> shows that one of them is free.
\<close>

section \<open>Trimming and cutting\<close>

definition trim_left :: "char \<Rightarrow> bytes \<Rightarrow> bytes" where
  "trim_left c s = dropWhile (\<lambda>x. x = c) s"

definition trim_right :: "char \<Rightarrow> bytes \<Rightarrow> bytes" where
  "trim_right c s = rev (dropWhile (\<lambda>x. x = c) (rev s))"

definition trim :: "char \<Rightarrow> bytes \<Rightarrow> bytes" where
  "trim c s = trim_right c (trim_left c s)"

text \<open>\<open>strings.LastIndexByte\<close>.\<close>

definition last_index_byte :: "char \<Rightarrow> bytes \<Rightarrow> nat option" where
  "last_index_byte c s = map_option (\<lambda>i. length s - 1 - i) (index_byte c (rev s))"

definition cut_slug :: "bytes \<Rightarrow> bytes" where
  "cut_slug s =
     (let s = (if 80 < length s then
          (if s ! 80 = CHR ''-'' then take 80 s
           else (case last_index_byte (CHR ''-'') (take 80 s) of
               Some k \<Rightarrow> if 0 < k then take k (take 80 s) else take 80 s
             | None \<Rightarrow> take 80 s))
        else s)
      in trim (CHR ''-'') s)"

definition slugify :: "deps \<Rightarrow> bytes \<Rightarrow> bytes" where
  "slugify d title = cut_slug (dp_full_slug d title)"

lemma length_trim: "length (trim c s) \<le> length s"
  unfolding trim_def trim_right_def trim_left_def
  by (metis length_dropWhile_le length_rev order_trans)

lemma cut_slug_length: "length (cut_slug s) \<le> 80"
proof -
  have "length (trim (CHR ''-'') s') \<le> 80" if "length s' \<le> 80" for s'
    using length_trim [of "CHR ''-''" s'] that by simp
  then show ?thesis by (auto simp: cut_slug_def Let_def split: option.splits)
qed

section \<open>Disambiguation\<close>

fun itoa :: "nat \<Rightarrow> bytes" where
  "itoa n = (if n < 10 then [char_of (48 + n)] else itoa (n div 10) @ [char_of (48 + n mod 10)])"

declare itoa.simps [simp del]

definition reserved_slugs :: "bytes list" where
  "reserved_slugs = [''v'', ''index'', ''sitemap'', ''search'', ''api'', ''admin'', ''random'', ''new'']"

definition slug_free :: "(bytes, slug_entry) fmap \<Rightarrow> bytes \<Rightarrow> bool" where
  "slug_free taken s = (s \<notin> set reserved_slugs \<and> fmlookup taken s = None)"

definition slug_candidate :: "bytes \<Rightarrow> nat \<Rightarrow> bytes" where
  "slug_candidate base n = (let suffix = CHR ''-'' # itoa n in
     trim_right (CHR ''-'') (take (min (length base) (80 - length suffix)) base) @ suffix)"

fun assign_from :: "(bytes, slug_entry) fmap \<Rightarrow> bytes \<Rightarrow> nat \<Rightarrow> nat \<Rightarrow> bytes option" where
  "assign_from taken base 0 n = None"
| "assign_from taken base (Suc fuel) n =
     (let cand = slug_candidate base n in
      if slug_free taken cand then Some cand else assign_from taken base fuel (n + 1))"

definition assign_slug :: "(bytes, slug_entry) fmap \<Rightarrow> bytes \<Rightarrow> bytes option" where
  "assign_slug taken base = (if slug_free taken base then Some base
     else assign_from taken base (fcard (fmdom taken) + 10) 2)"

lemma itoa_digits: "c \<in> set (itoa n) \<Longrightarrow> 48 \<le> byte_val c \<and> byte_val c < 58"
proof (induction n rule: itoa.induct)
  case (1 n)
  show ?case
  proof (cases "n < 10")
    case True
    then show ?thesis using "1.prems" by (simp add: itoa.simps [of n])
  next
    case False
    have "n mod 10 < 10" by simp
    then have "48 + n mod 10 < 256" by simp
    with False "1.prems" "1.IH" \<open>n mod 10 < 10\<close> show ?thesis
      by (auto simp: itoa.simps [of n])
  qed
qed

definition digits_val :: "bytes \<Rightarrow> nat" where
  "digits_val s = foldl (\<lambda>a c. a * 10 + (byte_val c - 48)) 0 s"

lemma digits_itoa: "digits_val (itoa n) = n"
proof (induction n rule: itoa.induct)
  case (1 n)
  show ?case
  proof (cases "n < 10")
    case True
    then show ?thesis by (simp add: itoa.simps [of n] digits_val_def)
  next
    case False
    have "n mod 10 < 10" by simp
    then have "byte_val (char_of (48 + n mod 10)) = 48 + n mod 10" by simp
    with False "1.IH" show ?thesis
      by (simp add: itoa.simps [of n] digits_val_def)
  qed
qed

lemma itoa_inj: "itoa m = itoa n \<Longrightarrow> m = n"
  by (metis digits_itoa)

lemma dash_not_digit: "CHR ''-'' \<notin> set (itoa n)"
  using itoa_digits [of "CHR ''-''" n] by auto

lemma slug_candidate_inj: "slug_candidate base m = slug_candidate base n \<Longrightarrow> m = n"
proof -
  assume eq: "slug_candidate base m = slug_candidate base n"
  have r: "\<exists>p. rev (slug_candidate base k) = rev (itoa k) @ CHR ''-'' # p" for k
    by (simp add: slug_candidate_def Let_def)
  from r [of m] r [of n] eq obtain p q where
    "rev (itoa m) @ CHR ''-'' # p = rev (itoa n) @ CHR ''-'' # q" by metis
  then have "index_byte (CHR ''-'') (rev (itoa m) @ CHR ''-'' # p)
      = index_byte (CHR ''-'') (rev (itoa n) @ CHR ''-'' # q)" by simp
  then have "length (itoa m) = length (itoa n)"
    by (simp add: index_byte_append dash_not_digit)
  with \<open>rev (itoa m) @ _ = _\<close> have "itoa m = itoa n" by simp
  then show "m = n" by (rule itoa_inj)
qed

lemma assign_from_None:
  "assign_from taken base fuel n = None \<Longrightarrow> m \<in> {n..<n + fuel} \<Longrightarrow> \<not> slug_free taken (slug_candidate base m)"
proof (induction fuel arbitrary: n)
  case 0
  then show ?case by simp
next
  case (Suc fuel)
  from Suc.prems(1) have nf: "\<not> slug_free taken (slug_candidate base n)"
    and r: "assign_from taken base fuel (n + 1) = None"
    by (auto simp: Let_def split: if_splits)
  show ?case
  proof (cases "m = n")
    case True
    with nf show ?thesis by simp
  next
    case False
    with Suc.prems(2) have "m \<in> {n + 1..<n + 1 + fuel}" by auto
    with Suc.IH [OF r] show ?thesis by blast
  qed
qed

lemma assign_from_Some:
  "assign_from taken base fuel n = Some s \<Longrightarrow> \<exists>m. n \<le> m \<and> m < n + fuel \<and> s = slug_candidate base m \<and> slug_free taken s"
proof (induction fuel arbitrary: n)
  case 0
  then show ?case by simp
next
  case (Suc fuel)
  show ?case
  proof (cases "slug_free taken (slug_candidate base n)")
    case True
    with Suc.prems show ?thesis by (auto simp: Let_def)
  next
    case False
    with Suc.prems have "assign_from taken base fuel (n + 1) = Some s" by (simp add: Let_def)
    from Suc.IH [OF this] obtain m where "n + 1 \<le> m" "m < n + 1 + fuel" "s = slug_candidate base m" "slug_free taken s"
      by blast
    then show ?thesis by (intro exI [of _ m]) simp
  qed
qed

text \<open>The search ends: some candidate is free.\<close>

lemma assign_slug_total: "assign_slug taken base \<noteq> None"
proof
  assume n: "assign_slug taken base = None"
  define N where "N = fcard (fmdom taken) + 10"
  from n have r: "assign_from taken base N 2 = None"
    by (simp add: assign_slug_def N_def split: if_splits)
  let ?bad = "fset (fmdom taken) \<union> set reserved_slugs"
  have "slug_candidate base ` {2..<2 + N} \<subseteq> ?bad"
  proof
    fix s assume "s \<in> slug_candidate base ` {2..<2 + N}"
    then obtain m where "m \<in> {2..<2 + N}" "s = slug_candidate base m" by blast
    with assign_from_None [OF r] show "s \<in> ?bad" by (auto simp: slug_free_def fmdom_iff_lookup)
  qed
  then have "card (slug_candidate base ` {2..<2 + N}) \<le> card ?bad" by (intro card_mono) simp_all
  moreover have "inj_on (slug_candidate base) {2..<2 + N}"
    by (intro inj_onI) (rule slug_candidate_inj)
  then have "card (slug_candidate base ` {2..<2 + N}) = N" by (simp add: card_image)
  moreover have "card ?bad \<le> card (fset (fmdom taken)) + card (set reserved_slugs)" by (rule card_Un_le)
  moreover have "card (set reserved_slugs) \<le> length reserved_slugs" by (rule card_length)
  moreover have "length reserved_slugs = 8" by (simp add: reserved_slugs_def)
  ultimately show False by (simp add: N_def fcard.rep_eq)
qed

lemma assign_slug_free: "assign_slug taken base = Some s \<Longrightarrow> slug_free taken s"
  by (auto simp: assign_slug_def split: if_splits dest: assign_from_Some)

lemma slug_candidate_length:
  assumes "length (itoa n) \<le> 79"
  shows "length (slug_candidate base n) \<le> 80"
proof -
  have "length (trim_right c t) \<le> length t" for c t
    unfolding trim_right_def by (metis length_dropWhile_le length_rev)
  from this [of "CHR ''-''" "take (min (length base) (79 - length (itoa n))) base"]
  have "length (trim_right (CHR ''-'') (take (min (length base) (79 - length (itoa n))) base))
      \<le> 79 - length (itoa n)" by simp
  then show ?thesis using assms by (simp add: slug_candidate_def Let_def)
qed

section \<open>Capped union\<close>

fun merge_loop :: "nat \<Rightarrow> (bytes \<Rightarrow> bool) \<Rightarrow> bytes list \<Rightarrow> bytes list \<Rightarrow> bytes list \<Rightarrow> bytes list \<Rightarrow> nat
    \<Rightarrow> bytes list \<times> bytes list \<times> nat" where
  "merge_loop limit skip seen [] out added dropped = (out, added, dropped)"
| "merge_loop limit skip seen (v # vs) out added dropped =
     (if v \<in> set seen \<or> skip v then merge_loop limit skip seen vs out added dropped
      else if limit \<le> length out then merge_loop limit skip (v # seen) vs out added (dropped + 1)
      else merge_loop limit skip (v # seen) vs (out @ [v]) (added @ [v]) dropped)"

definition merge_capped :: "bytes list \<Rightarrow> bytes list \<Rightarrow> nat \<Rightarrow> (bytes \<Rightarrow> bool)
    \<Rightarrow> bytes list \<times> bytes list \<times> nat" where
  "merge_capped stored req limit skip = merge_loop limit skip stored req stored [] 0"

lemma merge_loop_spec:
  assumes "merge_loop limit skip seen vs out added dropped = (out', added', dropped')"
  shows "\<exists>new. out' = out @ new \<and> added' = added @ new \<and> distinct new \<and> set new \<subseteq> set vs - set seen
    \<and> list_all (\<lambda>v. \<not> skip v) new \<and> (new \<noteq> [] \<longrightarrow> length out' \<le> limit)"
  using assms
proof (induction limit skip seen vs out added dropped rule: merge_loop.induct)
  case (1 limit skip seen out added dropped)
  then show ?case by simp
next
  case (2 limit skip seen v vs out added dropped)
  show ?case
  proof (cases "v \<in> set seen \<or> skip v")
    case True
    with 2 show ?thesis by auto
  next
    case f: False
    show ?thesis
    proof (cases "limit \<le> length out")
      case True
      with f 2 show ?thesis by auto
    next
      case False
      with f "2.IH"(3) "2.prems" obtain new where n: "out' = (out @ [v]) @ new" "added' = (added @ [v]) @ new"
        "distinct new" "set new \<subseteq> set vs - set (v # seen)" "list_all (\<lambda>v. \<not> skip v) new"
        "new \<noteq> [] \<longrightarrow> length out' \<le> limit" by auto
      show ?thesis
        using n f False by (intro exI [of _ "v # new"]) (cases new; auto)
    qed
  qed
qed

lemma merge_capped_spec:
  assumes "merge_capped stored req limit skip = (out, added, dropped)"
  shows "out = stored @ added" and "distinct added" and "set added \<subseteq> set req - set stored"
    and "\<forall>v \<in> set added. \<not> skip v" and "added \<noteq> [] \<Longrightarrow> length out \<le> limit"
  using merge_loop_spec [OF assms [unfolded merge_capped_def]] by (auto simp: list_all_iff)

end
