(* ===== verification/ArtPolicy.thy ===== *)
theory ArtPolicy
  imports ArtSlug
begin

text \<open>
  Callers and refusals of the \<open>/v1\<close> article routes: the principal and its environment
  (\<open>src/internal/v1/principal.go\<close>), the active configuration the handlers consult (the interface \<open>Policy\<close>
  of \<open>src/internal/v1/policy.go\<close>, whose implementation is an input here), the error bodies
  (\<open>src/internal/v1/errors.go\<close>, \<open>src/internal/articles/errors.go\<close>) and the guards of
  \<open>src/internal/articles/routes.go\<close>.
\<close>

section \<open>Principals\<close>

datatype service_env = EnvProd | EnvStaging | EnvOther

datatype scope = ArticlesRead | ArticlesReadAll | ArticlesWrite | ArticlesStub | ArticlesModerate
  | ArticlesAdmin | RetrieveRead | CommunityIntake | WorkBroker

fun scope_name :: "scope \<Rightarrow> bytes" where
  "scope_name ArticlesRead = ''articles:read''"
| "scope_name ArticlesReadAll = ''articles:read_all''"
| "scope_name ArticlesWrite = ''articles:write''"
| "scope_name ArticlesStub = ''articles:stub''"
| "scope_name ArticlesModerate = ''articles:moderate''"
| "scope_name ArticlesAdmin = ''articles:admin''"
| "scope_name RetrieveRead = ''retrieve:read''"
| "scope_name CommunityIntake = ''community:intake''"
| "scope_name WorkBroker = ''work:broker''"

record principal =
  pr_id :: bytes
  pr_env :: service_env
  pr_scopes :: "scope list"
  pr_counts_reads :: bool

definition pr_has :: "principal \<Rightarrow> scope \<Rightarrow> bool" where
  "pr_has p s = (s \<in> set (pr_scopes p))"

definition has_any :: "principal \<Rightarrow> scope list \<Rightarrow> bool" where
  "has_any p ss = list_ex (pr_has p) ss"

definition pr_prelive :: "principal \<Rightarrow> bool" where
  "pr_prelive p = (pr_env p = EnvStaging)"

fun same_env :: "service_env \<Rightarrow> bool \<Rightarrow> bool" where
  "same_env EnvProd prelive = (\<not> prelive)"
| "same_env EnvStaging prelive = prelive"
| "same_env EnvOther prelive = False"

section \<open>Errors\<close>

record v1_error =
  e_status :: nat
  e_code :: bytes
  e_field :: bytes
  e_rule :: bytes
  e_current_status :: bytes
  e_current_version :: "int option"
  e_article_id :: bytes
  e_claimed_status :: bytes
  e_other_env :: bool
  e_principals :: "bytes list"
  e_records :: "int option"
  e_scopes :: "scope list"

definition v1_err :: "nat \<Rightarrow> bytes \<Rightarrow> v1_error" where
  "v1_err st code = \<lparr>e_status = st, e_code = code, e_field = [], e_rule = [], e_current_status = [],
     e_current_version = None, e_article_id = [], e_claimed_status = [], e_other_env = False,
     e_principals = [], e_records = None, e_scopes = []\<rparr>"

definition missing_scope :: "scope list \<Rightarrow> v1_error" where
  "missing_scope ss = (v1_err 403 ''missing_scope'')\<lparr>e_scopes := ss\<rparr>"

definition env_mismatch :: v1_error where "env_mismatch = v1_err 403 ''env_mismatch''"
definition env_golive :: v1_error where "env_golive = v1_err 403 ''env_golive''"
definition write_budget :: v1_error where "write_budget = v1_err 429 ''write_budget''"
definition writes_frozen :: v1_error where "writes_frozen = v1_err 503 ''writes_frozen''"
definition index_unavailable :: v1_error where "index_unavailable = v1_err 503 ''index_unavailable''"
definition not_found :: v1_error where "not_found = v1_err 404 ''not_found''"
definition internal_error :: v1_error where "internal_error = v1_err 500 ''internal_error''"

definition invalid_field :: "bytes \<Rightarrow> bytes \<Rightarrow> v1_error" where
  "invalid_field field rule = (v1_err 422 ''invalid_field'')\<lparr>e_field := field, e_rule := rule\<rparr>"

definition err_moderation_locked :: "bytes \<Rightarrow> v1_error" where
  "err_moderation_locked status = (v1_err 409 ''moderation_locked'')\<lparr>e_current_status := status\<rparr>"

text \<open>The conflicting record is named only to a caller of its environment.\<close>

definition conflict_with :: "v1_error \<Rightarrow> principal \<Rightarrow> rec \<Rightarrow> v1_error" where
  "conflict_with e p r = (if same_env (pr_env p) (r_prelive r)
     then e\<lparr>e_article_id := r_id r, e_claimed_status := r_status r\<rparr> else e\<lparr>e_other_env := True\<rparr>)"

definition err_topic_claimed :: "principal \<Rightarrow> rec \<Rightarrow> v1_error" where
  "err_topic_claimed p r = conflict_with (v1_err 409 ''topic_claimed'') p r"

definition err_blocked :: "principal \<Rightarrow> rec \<Rightarrow> v1_error" where
  "err_blocked p r = conflict_with (v1_err 409 ''blocked'') p r"

definition err_version_conflict :: "int option \<Rightarrow> v1_error" where
  "err_version_conflict v = (v1_err 409 ''version_conflict'')\<lparr>e_current_version := v\<rparr>"

definition err_exists :: "bytes \<Rightarrow> v1_error" where
  "err_exists status = (v1_err 409 ''exists'')\<lparr>e_current_status := status\<rparr>"

definition err_not_pending :: "bytes \<Rightarrow> v1_error" where
  "err_not_pending status = (v1_err 409 ''not_pending'')\<lparr>e_current_status := status\<rparr>"

definition err_illegal_transition :: "bytes \<Rightarrow> v1_error" where
  "err_illegal_transition status = (v1_err 409 ''illegal_transition'')\<lparr>e_current_status := status\<rparr>"

definition err_staging_writers :: "bytes list \<Rightarrow> v1_error" where
  "err_staging_writers ids = (v1_err 409 ''staging_writers_present'')\<lparr>e_principals := ids\<rparr>"

definition err_count_changed :: "nat \<Rightarrow> v1_error" where
  "err_count_changed n = (v1_err 409 ''count_changed'')\<lparr>e_records := Some (int n)\<rparr>"

definition err_gone :: v1_error where "err_gone = v1_err 410 ''gone''"
definition err_golive :: v1_error where "err_golive = v1_err 410 ''golive''"
definition err_embedder_unavailable :: v1_error where
  "err_embedder_unavailable = v1_err 503 ''embedder_unavailable''"
definition err_restore_pending :: v1_error where "err_restore_pending = v1_err 503 ''restore_pending''"

section \<open>Policy\<close>

text \<open>What the active configuration answers at one moment.\<close>

record policy =
  po_principal :: "bytes \<Rightarrow> principal option"
  po_frozen :: bool
  po_charge :: "bytes \<Rightarrow> bool"
  po_exhausted :: "bytes \<Rightarrow> bool"
  po_staging_writers :: "bytes list"
  po_golive :: bool

record thresholds =
  th_covered :: rat
  th_related :: rat
  th_measured :: bool
  th_min_tier :: bytes

definition default_thresholds :: thresholds where
  "default_thresholds = \<lparr>th_covered = 78 / 100, th_related = 74 / 100, th_measured = False, th_min_tier = ''ok''\<rparr>"

text \<open>The inputs of one critical section: failures of the store, policy, thresholds, current time.\<close>

record art_env = env +
  ae_policy :: policy
  ae_th :: thresholds
  ae_now :: bytes

section \<open>Guards\<close>

definition allowed :: "principal \<Rightarrow> scope list \<Rightarrow> v1_error option" where
  "allowed p ss = (if has_any p ss then None else Some (missing_scope ss))"

definition restore_pending :: "policy \<Rightarrow> index \<Rightarrow> bool" where
  "restore_pending po ix = (po_golive po \<and> ix_golive ix = None)"

definition refuse_restore_pending :: "policy \<Rightarrow> index \<Rightarrow> v1_error option" where
  "refuse_restore_pending po ix = (if restore_pending po ix then Some err_restore_pending else None)"

definition charge_write :: "policy \<Rightarrow> principal \<Rightarrow> v1_error option" where
  "charge_write po p = (if po_frozen po then Some writes_frozen
     else if \<not> po_charge po (pr_id p) then Some write_budget else None)"

definition active_locked :: "bool \<Rightarrow> policy \<Rightarrow> index \<Rightarrow> principal \<Rightarrow> scope \<Rightarrow> bool \<Rightarrow> v1_error + principal" where
  "active_locked cl po ix p need write =
     (if cl then Inl index_unavailable
      else case po_principal po (pr_id p) of None \<Rightarrow> Inl (missing_scope [need])
      | Some a \<Rightarrow>
          if pr_env a = EnvStaging \<and> ix_golive ix \<noteq> None \<and> need \<noteq> ArticlesAdmin then Inl env_golive
          else if \<not> pr_has a need then Inl (missing_scope [need])
          else if write \<and> po_frozen po then Inl writes_frozen
          else if need \<in> {ArticlesWrite, ArticlesStub} \<and> restore_pending po ix then Inl err_restore_pending
          else Inr a)"

definition env_first :: "index \<Rightarrow> principal \<Rightarrow> bytes \<Rightarrow> v1_error option" where
  "env_first ix p i = (if ix_golive ix \<noteq> None \<and> pr_env p = EnvStaging then Some env_golive
     else case fmlookup (ix_recs ix) i of None \<Rightarrow> None
     | Some r \<Rightarrow> if \<not> same_env (pr_env p) (r_prelive r) then Some env_mismatch else None)"

text \<open>The first refusal of a sequence of guards.\<close>

fun first_refusal :: "v1_error option list \<Rightarrow> v1_error option" where
  "first_refusal [] = None"
| "first_refusal (None # gs) = first_refusal gs"
| "first_refusal (Some e # gs) = Some e"

lemma active_locked_Inr:
  assumes "active_locked cl po ix p need write = Inr a"
  shows "\<not> cl" and "po_principal po (pr_id p) = Some a" and "pr_has a need"
    and "pr_env a = EnvStaging \<Longrightarrow> need \<noteq> ArticlesAdmin \<Longrightarrow> ix_golive ix = None"
    and "write \<Longrightarrow> \<not> po_frozen po"
    and "need \<in> {ArticlesWrite, ArticlesStub} \<Longrightarrow> \<not> restore_pending po ix"
  using assms by (auto simp: active_locked_def split: if_splits option.splits)

end
