(* ===== verification/ArtPlan.thy ===== *)
theory ArtPlan
  imports ArtPolicy
begin

text \<open>
  What a PUT decides before anything is written (\<open>src/internal/articles/put.go\<close>): \<open>planArticle\<close> and
  \<open>planStub\<close> against an index, with the conflicts they refuse.
\<close>

section \<open>Bodies\<close>

record put_body =
  pb_status :: "bytes option"
  pb_expected :: "int option"
  pb_title :: bytes
  pb_lead :: bytes
  pb_body :: bytes
  pb_citations :: "citation list"
  pb_tier :: bytes
  pb_vertical :: bytes
  pb_sens :: "sensitivity option"
  pb_aliases :: "bytes list"
  pb_topics :: "bytes list"
  pb_clusters :: "bytes list"
  pb_models :: "models option"
  pb_build :: "build option"
  pb_ai :: "bool option"

record stub_body =
  sb_status :: bytes
  sb_title :: bytes
  sb_vertical :: bytes
  sb_topics :: "bytes list option"

datatype write_kind = Created | Filled | Updated | Unchanged

record dropped =
  dr_aliases :: nat
  dr_topics :: nat
  dr_clusters :: nat

record plan =
  pn_result :: write_kind
  pn_rec :: rec
  pn_prev :: "rec option"
  pn_write :: bool
  pn_content :: bool
  pn_create :: bool
  pn_claims :: "bytes list"
  pn_dropped :: dropped

definition http_status :: "plan \<Rightarrow> nat" where
  "http_status pl = (if pn_result pl = Created then 201 else 200)"

section \<open>Conflicts\<close>

text \<open>The records in key order: a map range of the code may take any order, so every fold over it below
  is order-free.\<close>

definition recs_list :: "index \<Rightarrow> rec list" where
  "recs_list ix = map (\<lambda>i. the (fmlookup (ix_recs ix) i)) (sorted_list_of_fset (fmdom (ix_recs ix)))"

fun claim_conflict :: "index \<Rightarrow> bytes \<Rightarrow> bytes list \<Rightarrow> rec option" where
  "claim_conflict ix i [] = None"
| "claim_conflict ix i (t # ts) =
     (case fmlookup (ix_claims ix) t of None \<Rightarrow> claim_conflict ix i ts
      | Some owner \<Rightarrow>
          if owner \<noteq> [] \<and> owner \<noteq> i then
            (case fmlookup (ix_recs ix) owner of Some r \<Rightarrow> Some r | None \<Rightarrow> claim_conflict ix i ts)
          else claim_conflict ix i ts)"

definition slug_blocker_step :: "bytes \<Rightarrow> bytes \<Rightarrow> rec \<Rightarrow> rec option \<Rightarrow> rec option" where
  "slug_blocker_step i base r found =
     (if r_id r \<noteq> i \<and> blocks_title r \<and> r_base_slug r = base
        \<and> (case found of None \<Rightarrow> True | Some f \<Rightarrow> r_id r < r_id f) then Some r else found)"

definition slug_blocker :: "index \<Rightarrow> bytes \<Rightarrow> bytes \<Rightarrow> rec option" where
  "slug_blocker ix i base = fold (slug_blocker_step i base) (recs_list ix) None"

text \<open>\<open>pick\<close>: the best-scoring record so far, ties to the smaller id. A score of \<open>-Inf\<close> is \<open>None\<close>.\<close>

type_synonym pick = "(rec \<times> rat) option"

fun offer :: "pick \<Rightarrow> rec \<Rightarrow> rat option \<Rightarrow> pick" where
  "offer pk r None = pk"
| "offer None r (Some sc) = Some (r, sc)"
| "offer (Some (b, bs)) r (Some sc) =
     (if bs < sc \<or> (sc = bs \<and> r_id r < r_id b) then Some (r, sc) else Some (b, bs))"

definition at_least :: "pick \<Rightarrow> rat \<Rightarrow> bool" where
  "at_least pk t = (case pk of None \<Rightarrow> False | Some (r, sc) \<Rightarrow> t \<le> sc)"

definition fingerprint_step :: "index \<Rightarrow> vec \<Rightarrow> bytes \<Rightarrow> pick \<Rightarrow> pick" where
  "fingerprint_step ix v i pk =
     (case fmlookup (ix_recs ix) i of None \<Rightarrow> pk
      | Some r \<Rightarrow> (case fmlookup (ix_fps ix) i of None \<Rightarrow> pk
          | Some fp \<Rightarrow> if length fp = length v then offer pk r (Some (dot fp v)) else pk))"

definition fingerprint_blocker :: "index \<Rightarrow> vec \<Rightarrow> rat \<Rightarrow> rec option" where
  "fingerprint_blocker ix v related =
     (let best = fold (fingerprint_step ix v) (sorted_list_of_fset (fmdom (ix_fps ix))) None in
      if at_least best related then map_option fst best else None)"

section \<open>Planning an article\<close>

text \<open>The request's fields over the stored record, lists merged up to their limits.\<close>

definition merge_body :: "deps \<Rightarrow> bytes \<Rightarrow> rec option \<Rightarrow> put_body \<Rightarrow> rec \<times> bytes list \<times> dropped" where
  "merge_body d i prev b =
     (let rec0 = (case prev of None \<Rightarrow> zero_rec\<lparr>r_schema := 1, r_id := i, r_title := pb_title b, r_ai := True\<rparr>
                  | Some p \<Rightarrow> p\<lparr>r_ai := True\<rparr>);
          stored = (\<lambda>f. case prev of None \<Rightarrow> [] | Some p \<Rightarrow> f p);
          (aliases, _, d1) = merge_capped (stored r_aliases) (pb_aliases b) 32 (\<lambda>a. a = r_title rec0);
          (topics, new_topics, d2) = merge_capped (stored r_topics) (pb_topics b) 256 (\<lambda>_. False);
          (clusters, _, d3) = merge_capped (stored r_clusters) (pb_clusters b) 64 (\<lambda>_. False);
          rec1 = rec0\<lparr>r_aliases := aliases, r_topics := topics, r_clusters := clusters,
             r_lead := pb_lead b, r_body := pb_body b, r_citations := pb_citations b,
             r_tier := pb_tier b, r_vertical := pb_vertical b,
             r_sens := (case pb_sens b of None \<Rightarrow> \<lparr>se_class = [], se_reason = []\<rparr> | Some s \<Rightarrow> s)\<rparr>
      in (rec1\<lparr>r_sha := dp_hash d (hash_input_of rec1)\<rparr>, new_topics,
          \<lparr>dr_aliases = d1, dr_topics = d2, dr_clusters = d3\<rparr>))"

datatype plan_result = PlanErr v1_error | Planned plan | NilDeref

text \<open>The new version of the record: an update of an article, the filling of a stub, a creation.\<close>

definition next_version :: "deps \<Rightarrow> principal \<Rightarrow> bytes \<Rightarrow> rec option \<Rightarrow> put_body \<Rightarrow> bytes \<Rightarrow> rec
    \<Rightarrow> v1_error + (write_kind \<times> rec)" where
  "next_version d p ts prev b requested r =
     (case prev of
        Some pv \<Rightarrow>
          if r_status pv \<noteq> st_pending then
            (if pb_expected b \<noteq> None \<and> pb_expected b \<noteq> Some (r_version pv)
             then Inl (err_version_conflict (Some (r_version pv)))
             else let status = (if r_status pv = st_held then st_held else requested);
                      r = r\<lparr>r_version := i64 (r_version pv + 1), r_updated := ts\<rparr>;
                      r = (if status \<noteq> r_status pv then set_status status ts r
                           else set_status status (r_status_at pv) r)
                  in Inr (Updated, r))
          else if pb_expected b \<noteq> None \<and> pb_expected b \<noteq> Some 0
          then Inl (err_version_conflict (Some 0))
          else Inr (Filled, set_status requested ts (r\<lparr>r_version := 1, r_updated := ts\<rparr>))
      | None \<Rightarrow>
          if pb_expected b \<noteq> None then Inl (err_version_conflict None)
          else Inr (Created, set_status requested ts
            (r\<lparr>r_base_slug := slugify d (r_title r), r_prelive := pr_prelive p, r_version := 1,
               r_created := ts, r_updated := ts\<rparr>)))"

text \<open>A changed body: validated, versioned, and refused when a topic or the title is another record's.\<close>

definition plan_changed :: "deps \<Rightarrow> index \<Rightarrow> principal \<Rightarrow> bytes \<Rightarrow> bytes \<Rightarrow> put_body \<Rightarrow> v1_error option
    \<Rightarrow> rec option \<Rightarrow> rec \<Rightarrow> bytes list \<Rightarrow> dropped \<Rightarrow> plan_result" where
  "plan_changed d ix p ts i b check prev r new_topics dr =
     (case check of Some e \<Rightarrow> PlanErr e
      | None \<Rightarrow> (case (pb_models b, pb_build b, pb_status b) of
          (Some mo, Some bu, Some requested) \<Rightarrow>
            (case next_version d p ts prev b requested (r\<lparr>r_models := mo, r_build := bu\<rparr>) of
               Inl e \<Rightarrow> PlanErr e
             | Inr (result, r) \<Rightarrow>
                (case claim_conflict ix i new_topics of
                   Some claimant \<Rightarrow> PlanErr (err_topic_claimed p claimant)
                 | None \<Rightarrow>
                   (case (if result \<noteq> Updated then slug_blocker ix i (r_base_slug r) else None) of
                      Some blocker \<Rightarrow> PlanErr (err_blocked p blocker)
                    | None \<Rightarrow> Planned \<lparr>pn_result = result, pn_rec = r, pn_prev = prev,
                        pn_write = True, pn_content = True, pn_create = (result = Created),
                        pn_claims = new_topics, pn_dropped = dr\<rparr>)))
        | _ \<Rightarrow> NilDeref))"

text \<open>The same content again: only a request to hold a published article still changes it.\<close>

definition plan_same :: "bytes \<Rightarrow> put_body \<Rightarrow> rec \<Rightarrow> dropped \<Rightarrow> plan" where
  "plan_same ts b pv dr =
     (let hold = (r_status pv = st_published \<and> pb_status b = Some st_held) in
      \<lparr>pn_result = Unchanged, pn_rec = (if hold then set_status st_held ts pv else pv), pn_prev = Some pv,
        pn_write = hold, pn_content = False, pn_create = False, pn_claims = [], pn_dropped = dr\<rparr>)"

definition plan_refusal :: "principal \<Rightarrow> put_body \<Rightarrow> rec \<Rightarrow> v1_error option" where
  "plan_refusal p b pv =
     (if \<not> same_env (pr_env p) (r_prelive pv) then Some env_mismatch
      else if r_status pv = st_rejected \<or> r_status pv = st_tombstoned then Some (err_moderation_locked (r_status pv))
      else if pb_title b \<noteq> r_title pv then Some (invalid_field ''title'' ''title_immutable'')
      else None)"

definition plan_article :: "deps \<Rightarrow> index \<Rightarrow> principal \<Rightarrow> bytes \<Rightarrow> bytes \<Rightarrow> put_body \<Rightarrow> v1_error option
    \<Rightarrow> plan_result" where
  "plan_article d ix p ts i b check =
     (if ix_golive ix \<noteq> None \<and> pr_env p = EnvStaging then PlanErr env_golive
      else case fmlookup (ix_recs ix) i of
        None \<Rightarrow> (case merge_body d i None b of (r, nt, dr) \<Rightarrow> plan_changed d ix p ts i b check None r nt dr)
      | Some pv \<Rightarrow> (case plan_refusal p b pv of Some e \<Rightarrow> PlanErr e
          | None \<Rightarrow> (case merge_body d i (Some pv) b of (r, nt, dr) \<Rightarrow>
              if r_status pv \<noteq> st_pending \<and> r_sha r = r_sha pv then Planned (plan_same ts b pv dr)
              else plan_changed d ix p ts i b check (Some pv) r nt dr)))"

section \<open>Planning a stub\<close>

definition plan_stub :: "deps \<Rightarrow> index \<Rightarrow> principal \<Rightarrow> bytes \<Rightarrow> bytes \<Rightarrow> stub_body \<Rightarrow> plan_result" where
  "plan_stub d ix p ts i b =
     (if ix_golive ix \<noteq> None \<and> pr_env p = EnvStaging then PlanErr env_golive
      else case fmlookup (ix_recs ix) i of
        Some pv \<Rightarrow>
          if \<not> same_env (pr_env p) (r_prelive pv) then PlanErr env_mismatch
          else if r_status pv \<noteq> st_pending \<or> r_title pv \<noteq> sb_title b \<or> r_vertical pv \<noteq> sb_vertical b
          then PlanErr (err_exists (r_status pv))
          else (case sb_topics b of None \<Rightarrow> NilDeref
            | Some req \<Rightarrow> (case merge_capped (r_topics pv) req 256 (\<lambda>_. False) of (topics, added, n) \<Rightarrow>
                (case claim_conflict ix i added of Some claimant \<Rightarrow> PlanErr (err_topic_claimed p claimant)
                 | None \<Rightarrow> let r = pv\<lparr>r_topics := topics\<rparr>; r = r\<lparr>r_sha := dp_hash d (hash_input_of r)\<rparr>;
                              w = (added \<noteq> []) in
                     Planned \<lparr>pn_result = Unchanged, pn_rec = (if w then r else pv), pn_prev = Some pv,
                       pn_write = w, pn_content = False, pn_create = False, pn_claims = added,
                       pn_dropped = \<lparr>dr_aliases = 0, dr_topics = n, dr_clusters = 0\<rparr>\<rparr>)))
      | None \<Rightarrow>
          (case sb_topics b of None \<Rightarrow> NilDeref
           | Some req \<Rightarrow> (case merge_capped [] req 256 (\<lambda>_. False) of (topics, added, n) \<Rightarrow>
               let r = set_status st_pending ts (zero_rec\<lparr>r_schema := 1, r_id := i, r_title := sb_title b,
                     r_vertical := sb_vertical b, r_base_slug := slugify d (sb_title b),
                     r_prelive := pr_prelive p, r_created := ts, r_updated := ts\<rparr>)\<lparr>r_topics := topics\<rparr>
               in case claim_conflict ix i added of Some claimant \<Rightarrow> PlanErr (err_topic_claimed p claimant)
                | None \<Rightarrow> (case slug_blocker ix i (r_base_slug r) of
                    Some blocker \<Rightarrow> PlanErr (err_blocked p blocker)
                  | None \<Rightarrow> let r = r\<lparr>r_slug := the (assign_slug (ix_slugs ix) (r_base_slug r))\<rparr>;
                               r = r\<lparr>r_sha := dp_hash d (hash_input_of r)\<rparr> in
                      Planned \<lparr>pn_result = Created, pn_rec = r, pn_prev = None, pn_write = True,
                        pn_content = False, pn_create = True, pn_claims = added,
                        pn_dropped = \<lparr>dr_aliases = 0, dr_topics = n, dr_clusters = 0\<rparr>\<rparr>))))"

end
