(* ===== verification/ArtCommit.thy ===== *)
theory ArtCommit
  imports ArtPlan
begin

text \<open>
  The writers of \<open>src/internal/articles/put.go\<close> and their store: one critical section of the write lock is
  one function of the store, with everything the environment decides as arguments.
\<close>

section \<open>The store\<close>

text \<open>\<open>counters\<close>: the persisted counts, the reader sets of the current day, the ids not yet flushed.\<close>

record counters =
  c_day :: bytes
  c_base :: "(bytes, (bytes, nat) fmap) fmap"
  c_sets :: "(bytes, bytes fset) fmap"
  c_dirty :: "bytes fset"

definition new_counters :: counters where
  "new_counters = \<lparr>c_day = [], c_base = fmempty, c_sets = fmempty, c_dirty = {||}\<rparr>"

definition drop_counters :: "bytes \<Rightarrow> counters \<Rightarrow> counters" where
  "drop_counters i c = c\<lparr>c_base := fmdrop i (c_base c), c_sets := fmdrop i (c_sets c),
     c_dirty := c_dirty c |-| {|i|}\<rparr>"

record art_store =
  as_db :: "rdoc kv"
  as_idx :: index
  as_counters :: counters
  as_closed :: bool

section \<open>Vectors of an article\<close>

definition vector_texts :: "rec \<Rightarrow> bytes list" where
  "vector_texts r = [r_title r, r_lead r] @ r_aliases r"

definition rows_for :: "rec \<Rightarrow> vec list \<Rightarrow> row list" where
  "rows_for r vecs = [\<lparr>rw_kind = KindTitle, rw_alias = 0, rw_vec = vecs ! 0\<rparr>,
     \<lparr>rw_kind = KindLead, rw_alias = 0, rw_vec = vecs ! 1\<rparr>]
     @ map (\<lambda>k. \<lparr>rw_kind = KindAlias, rw_alias = k, rw_vec = vecs ! (2 + k)\<rparr>) [0..<length (r_aliases r)]"

definition stored_step :: "rec \<Rightarrow> row \<Rightarrow> (bytes, vec) fmap \<Rightarrow> (bytes, vec) fmap" where
  "stored_step r rw out =
     (case rw_kind rw of KindTitle \<Rightarrow> fmupd (r_title r) (rw_vec rw) out
      | KindLead \<Rightarrow> fmupd (r_lead r) (rw_vec rw) out
      | KindAlias \<Rightarrow> if rw_alias rw < length (r_aliases r)
          then fmupd (r_aliases r ! rw_alias rw) (rw_vec rw) out else out)"

definition stored_vectors :: "rec option \<Rightarrow> row list \<Rightarrow> (bytes, vec) fmap" where
  "stored_vectors r rows = (case r of None \<Rightarrow> fmempty | Some r \<Rightarrow> fold (stored_step r) rows fmempty)"

text \<open>A vector for every text, from the request's embedding or the stored rows.\<close>

fun gather_vectors :: "(bytes, vec) fmap \<Rightarrow> (bytes, vec) fmap \<Rightarrow> bytes list \<Rightarrow> vec list option" where
  "gather_vectors vecs stored [] = Some []"
| "gather_vectors vecs stored (t # ts) =
     (case (case fmlookup vecs t of Some v \<Rightarrow> Some v | None \<Rightarrow> fmlookup stored t) of None \<Rightarrow> None
      | Some v \<Rightarrow> map_option ((#) v) (gather_vectors vecs stored ts))"

text \<open>The stored value of rows, as its decoder reads it: a vector of another length is refused.\<close>

definition emb_doc :: "bytes \<times> nat \<Rightarrow> row list \<Rightarrow> rdoc" where
  "emb_doc sh rows = (if list_all (\<lambda>rw. length (rw_vec rw) = snd sh) rows then DEmb (fst sh) (snd sh) rows else DBad)"

definition fp_doc :: "bytes \<Rightarrow> nat \<Rightarrow> vec \<Rightarrow> rdoc" where
  "fp_doc m n v = (if length v = n then DFp m n v else DBad)"

text \<open>\<open>embed\<close>: the answer of the embedding service, checked and scaled to unit length.\<close>

definition check_vectors :: "deps \<Rightarrow> bytes list \<Rightarrow> vec list option \<Rightarrow> vec list option" where
  "check_vectors d texts answer = (case dp_emb d of None \<Rightarrow> None
     | Some (m, n) \<Rightarrow> (case answer of None \<Rightarrow> None
         | Some vs \<Rightarrow> if length vs \<noteq> length texts then None
             else those (map (\<lambda>v. if v = [] \<or> (0 < n \<and> length v \<noteq> n) then None else dp_unit d v) vs)))"

section \<open>Versions\<close>

definition keep_versions :: nat where "keep_versions = 5"

definition stored_versions :: "rdoc kv \<Rightarrow> bytes \<Rightarrow> int list" where
  "stored_versions db i = List.map_filter (\<lambda>k. map_option pk_version (parse_key k))
     (kv_keys db (version_lower i) (version_upper i))"

definition prune_versions :: "env \<Rightarrow> rdoc kv \<Rightarrow> bytes \<Rightarrow> int \<Rightarrow> rdoc bop list option" where
  "prune_versions e db i newest = (if iter_err e (version_lower i) then None
     else let versions = sort (newest # filter (\<lambda>v. v \<noteq> newest) (stored_versions db i)) in
       Some (map (\<lambda>v. BDel (version_key i v)) (take (length versions - keep_versions) versions)))"

section \<open>Committing an article\<close>

datatype commit_out = CDone plan | CFail v1_error | CRetry | CPanic

text \<open>The keys a planned write sets, in the order of the batch.\<close>

definition record_ops :: "bytes \<Rightarrow> plan \<Rightarrow> rdoc bop list" where
  "record_ops i pl = [BSet (record_key i) (DRecord (marshal_record (pn_rec pl)))]
     @ (if pn_create pl then [BSet (slug_key (r_slug (pn_rec pl))) (DSlug \<lparr>sl_id = i, sl_canonical = True\<rparr>)] else [])
     @ map (\<lambda>t. BSet (topic_key t) (DTopic i)) (pn_claims pl)"

definition index_put :: "deps \<Rightarrow> bytes \<Rightarrow> plan \<Rightarrow> index \<Rightarrow> index" where
  "index_put d i pl ix = (let ix = put_record d (pn_rec pl) ix;
       ix = (if pn_create pl then ix\<lparr>ix_slugs := fmupd (r_slug (pn_rec pl)) \<lparr>sl_id = i, sl_canonical = True\<rparr> (ix_slugs ix)\<rparr> else ix)
     in ix\<lparr>ix_claims := fold (\<lambda>t m. fmupd t i m) (pn_claims pl) (ix_claims ix)\<rparr>)"

definition commit_ops :: "env \<Rightarrow> deps \<Rightarrow> rdoc kv \<Rightarrow> bytes \<Rightarrow> plan \<Rightarrow> row list \<Rightarrow> rdoc bop list option" where
  "commit_ops e d db i pl rows =
     (let ops = record_ops i pl
        @ (if pn_content pl then [BSet (embedding_key i) (emb_doc (embedder_shape d) rows)] else [])
      in case pn_prev pl of
           Some pv \<Rightarrow> if pn_result pl = Updated \<and> pn_content pl
             then map_option (\<lambda>del. ops @ BSet (version_key i (r_version pv)) (DRecord (marshal_record pv)) # del)
                    (prune_versions e db i (r_version pv))
             else Some ops
         | None \<Rightarrow> Some ops)"

definition write_plan :: "art_env \<Rightarrow> deps \<Rightarrow> bytes \<Rightarrow> plan \<Rightarrow> row list \<Rightarrow> art_store \<Rightarrow> commit_out \<times> art_store" where
  "write_plan e d i pl rows s =
     (case commit_ops (env.truncate e) d (as_db s) i pl rows of None \<Rightarrow> (CFail internal_error, s)
      | Some ops \<Rightarrow>
          if commit_err e then (CFail internal_error, s)
          else (CDone pl, s\<lparr>as_db := apply_batch ops (as_db s),
             as_idx := (let ix = index_put d i pl (as_idx s) in
               if pn_content pl then ix\<lparr>ix_rows := fmupd i rows (ix_rows ix)\<rparr> else ix)\<rparr>))"

definition name_plan :: "index \<Rightarrow> plan \<Rightarrow> plan" where
  "name_plan ix pl = (if pn_create pl
     then pl\<lparr>pn_rec := (pn_rec pl)\<lparr>r_slug := the (assign_slug (ix_slugs ix) (r_base_slug (pn_rec pl)))\<rparr>\<rparr> else pl)"

definition new_title :: "plan \<Rightarrow> bool" where
  "new_title pl = (case pn_prev pl of None \<Rightarrow> True | Some pv \<Rightarrow> r_status pv = st_pending)"

text \<open>\<open>commitArticle\<close>: plan again inside the write lock, and commit.\<close>

definition commit_article :: "art_env \<Rightarrow> deps \<Rightarrow> principal \<Rightarrow> bytes \<Rightarrow> put_body \<Rightarrow> (bytes, vec) fmap
    \<Rightarrow> v1_error option \<Rightarrow> art_store \<Rightarrow> commit_out \<times> art_store" where
  "commit_article e d p i b vecs check s =
     (case active_locked (as_closed s) (ae_policy e) (as_idx s) p ArticlesWrite True of
        Inl er \<Rightarrow> (CFail er, s)
      | Inr a \<Rightarrow> (case plan_article d (as_idx s) a (ae_now e) i b check of
          PlanErr er \<Rightarrow> (CFail er, s)
        | NilDeref \<Rightarrow> (CPanic, s)
        | Planned pl \<Rightarrow>
            if \<not> pn_write pl then (CDone pl, s)
            else if \<not> pn_content pl then write_plan e d i (name_plan (as_idx s) pl) [] s
            else (case gather_vectors vecs
                     (stored_vectors (pn_prev pl) (case fmlookup (ix_rows (as_idx s)) i of None \<Rightarrow> [] | Some rs \<Rightarrow> rs))
                     (vector_texts (pn_rec pl)) of
                None \<Rightarrow> (CRetry, s)
              | Some vs \<Rightarrow>
                  (case (if new_title pl then fingerprint_blocker (as_idx s) (vs ! 0) (th_related (ae_th e)) else None) of
                     Some blocker \<Rightarrow> (CFail (err_blocked a blocker), s)
                   | None \<Rightarrow> write_plan e d i (name_plan (as_idx s) pl) (rows_for (pn_rec pl) vs) s))))"

section \<open>The PUT handlers\<close>

record write_view =
  wv_id :: bytes
  wv_slug :: bytes
  wv_status :: bytes
  wv_version :: int
  wv_prelive :: bool
  wv_sha :: bytes
  wv_created :: bytes
  wv_updated :: bytes

definition written :: "rec \<Rightarrow> write_view" where
  "written r = \<lparr>wv_id = r_id r, wv_slug = r_slug r, wv_status = r_status r, wv_version = r_version r,
     wv_prelive = r_prelive r, wv_sha = r_sha r, wv_created = r_created r, wv_updated = r_updated r\<rparr>"

datatype reply = Refused v1_error | Wrote nat write_kind write_view dropped | Deleted
  | Moderated "(bytes \<times> bytes \<times> bytes option \<times> bytes \<times> bool)" | Panicked

definition wrote :: "plan \<Rightarrow> reply" where
  "wrote pl = Wrote (http_status pl) (pn_result pl) (written (pn_rec pl)) (pn_dropped pl)"

text \<open>
  One attempt of \<open>putArticle\<close>: the plan under the read lock says which texts to embed; \<open>answer\<close> is the
  service's reply; \<open>others\<close> is what other writers commit before the write lock is taken.
\<close>

record attempt =
  at_env :: art_env
  at_now :: bytes
  at_answer :: "bytes list \<Rightarrow> vec list option"
  at_others :: "art_store \<Rightarrow> art_store"

definition missing_texts :: "(bytes, vec) fmap \<Rightarrow> rec \<Rightarrow> bytes list" where
  "missing_texts vecs r = fold (\<lambda>t ms. if fmlookup vecs t = None \<and> t \<notin> set ms then ms @ [t] else ms) (vector_texts r) []"

fun put_attempts :: "deps \<Rightarrow> principal \<Rightarrow> bytes \<Rightarrow> put_body \<Rightarrow> v1_error option \<Rightarrow> attempt list
    \<Rightarrow> (bytes, vec) fmap \<Rightarrow> art_store \<Rightarrow> reply \<times> art_store" where
  "put_attempts d p i b check [] vecs s = (Refused err_embedder_unavailable, s)"
| "put_attempts d p i b check (a # as) vecs s =
     (case plan_article d (as_idx s) p (at_now a) i b check of
        PlanErr er \<Rightarrow> (Refused er, s)
      | NilDeref \<Rightarrow> (Panicked, s)
      | Planned pl \<Rightarrow>
          (let missing = (if pn_content pl then missing_texts vecs (pn_rec pl) else []) in
           case (if missing = [] then Some vecs
                 else map_option (\<lambda>vs. fold (\<lambda>(t, v) m. fmupd t v m) (zip missing vs) vecs)
                   (check_vectors d missing (at_answer a missing))) of
             None \<Rightarrow> (Refused err_embedder_unavailable, s)
           | Some vecs \<Rightarrow> (case commit_article (at_env a) d p i b vecs check (at_others a s) of
               (CFail er, s) \<Rightarrow> (Refused er, s)
             | (CPanic, s) \<Rightarrow> (Panicked, s)
             | (CDone pl, s) \<Rightarrow> (wrote pl, s)
             | (CRetry, s) \<Rightarrow> put_attempts d p i b check as vecs s)))"

definition put_article :: "deps \<Rightarrow> policy \<Rightarrow> principal \<Rightarrow> bytes \<Rightarrow> put_body \<Rightarrow> v1_error option \<Rightarrow> attempt list
    \<Rightarrow> art_store \<Rightarrow> reply \<times> art_store" where
  "put_article d po p i b check as s =
     (case first_refusal [allowed p [ArticlesWrite], refuse_restore_pending po (as_idx s), charge_write po p,
         env_first (as_idx s) p i] of
        Some er \<Rightarrow> (Refused er, s)
      | None \<Rightarrow> put_attempts d p i b check (take 3 as) fmempty s)"

text \<open>\<open>putStub\<close> after decoding: guards and validation before the lock, then the critical section.\<close>

definition commit_stub :: "art_env \<Rightarrow> deps \<Rightarrow> principal \<Rightarrow> bytes \<Rightarrow> stub_body \<Rightarrow> art_store \<Rightarrow> reply \<times> art_store" where
  "commit_stub e d p i b s =
     (case active_locked (as_closed s) (ae_policy e) (as_idx s) p ArticlesStub True of
        Inl er \<Rightarrow> (Refused er, s)
      | Inr a \<Rightarrow> (case plan_stub d (as_idx s) a (ae_now e) i b of
          PlanErr er \<Rightarrow> (Refused er, s)
        | NilDeref \<Rightarrow> (Panicked, s)
        | Planned pl \<Rightarrow>
            if \<not> pn_write pl then (wrote pl, s)
            else if commit_err e then (Refused internal_error, s)
            else (wrote pl, s\<lparr>as_db := apply_batch (record_ops i pl) (as_db s),
                    as_idx := index_put d i pl (as_idx s)\<rparr>)))"

definition put_stub :: "art_env \<Rightarrow> deps \<Rightarrow> policy \<Rightarrow> principal \<Rightarrow> bytes \<Rightarrow> stub_body \<Rightarrow> v1_error option
    \<Rightarrow> (art_store \<Rightarrow> art_store) \<Rightarrow> art_store \<Rightarrow> reply \<times> art_store" where
  "put_stub e d po p i b check others s =
     (case first_refusal [allowed p [ArticlesStub], refuse_restore_pending po (as_idx s), charge_write po p,
         env_first (as_idx s) p i, check] of
        Some er \<Rightarrow> (Refused er, s)
      | None \<Rightarrow> commit_stub e d p i b (others s))"

section \<open>Deletion\<close>

definition delete_keys :: "index \<Rightarrow> bytes \<Rightarrow> rdoc bop list" where
  "delete_keys ix i = [BDel (record_key i), BDelRange (version_lower i) (version_upper i)]
     @ map (\<lambda>s. BDel (slug_key s)) (filter (\<lambda>s. map_option sl_id (fmlookup (ix_slugs ix) s) = Some i)
         (sorted_list_of_fset (fmdom (ix_slugs ix))))
     @ map (\<lambda>t. BDel (topic_key t)) (filter (\<lambda>t. fmlookup (ix_claims ix) t = Some i)
         (sorted_list_of_fset (fmdom (ix_claims ix))))
     @ [BDel (embedding_key i), BDel (fingerprint_key i), BDel (counters_key i)]"

definition delete_record_locked :: "art_env \<Rightarrow> bytes \<Rightarrow> art_store \<Rightarrow> bool \<times> art_store" where
  "delete_record_locked e i s = (if commit_err e then (False, s)
     else (True, s\<lparr>as_db := apply_batch (delete_keys (as_idx s) i) (as_db s),
       as_idx := drop_record i (as_idx s), as_counters := drop_counters i (as_counters s)\<rparr>))"

definition commit_delete_stub :: "art_env \<Rightarrow> principal \<Rightarrow> bytes \<Rightarrow> art_store \<Rightarrow> reply \<times> art_store" where
  "commit_delete_stub e p i s =
     (case active_locked (as_closed s) (ae_policy e) (as_idx s) p ArticlesStub True of
        Inl er \<Rightarrow> (Refused er, s)
      | Inr a \<Rightarrow> (case fmlookup (ix_recs (as_idx s)) i of
          None \<Rightarrow> (Refused not_found, s)
        | Some pv \<Rightarrow>
            if \<not> same_env (pr_env a) (r_prelive pv) then (Refused env_mismatch, s)
            else if r_status pv \<noteq> st_pending then (Refused (err_not_pending (r_status pv)), s)
            else (case delete_record_locked e i s of
                (True, s) \<Rightarrow> (Deleted, s) | (False, s) \<Rightarrow> (Refused internal_error, s))))"

definition handle_delete_stub :: "art_env \<Rightarrow> policy \<Rightarrow> principal \<Rightarrow> bytes \<Rightarrow> (art_store \<Rightarrow> art_store)
    \<Rightarrow> art_store \<Rightarrow> reply \<times> art_store" where
  "handle_delete_stub e po p i others s =
     (if \<not> valid_id i then (Refused not_found, s)
      else case first_refusal [allowed p [ArticlesStub], refuse_restore_pending po (as_idx s), charge_write po p] of
        Some er \<Rightarrow> (Refused er, s)
      | None \<Rightarrow> commit_delete_stub e p i (others s))"

end
