(* ===== verification/ArtModerate.thy ===== *)
theory ArtModerate
  imports ArtCommit
begin

text \<open>
  Moderation and the go-live purge (\<open>src/internal/articles/moderate.go\<close>): status transitions, takedowns that
  reduce a record to a residue with a title fingerprint, and the purge of the staging records.
\<close>

section \<open>Actions\<close>

datatype action = Approve | Hold | Reject | Tombstone | EraseFingerprint | DeleteStub

fun action_name :: "action \<Rightarrow> bytes" where
  "action_name Approve = ''approve''"
| "action_name Hold = ''hold''"
| "action_name Reject = ''reject''"
| "action_name Tombstone = ''tombstone''"
| "action_name EraseFingerprint = ''erase_fingerprint''"
| "action_name DeleteStub = ''delete_stub''"

definition all_actions :: "action list" where
  "all_actions = [Approve, Hold, Reject, Tombstone, EraseFingerprint, DeleteStub]"

definition parse_action :: "bytes \<Rightarrow> action option" where
  "parse_action s = List.find (\<lambda>a. action_name a = s) all_actions"

definition reason_codes :: "bytes list" where
  "reason_codes = [''privacy'', ''legal'', ''quality'', ''duplicate'', ''other'']"

record status_body =
  tb_action :: bytes
  tb_reason :: "bytes option"
  tb_by :: bytes

text \<open>\<open>by_check\<close> is the length and character check of the field \<open>by\<close>.\<close>

definition validate_status :: "status_body \<Rightarrow> v1_error option \<Rightarrow> v1_error + action" where
  "validate_status b by_check =
     (case parse_action (tb_action b) of None \<Rightarrow> Inl (invalid_field ''action'' ''enum'')
      | Some a \<Rightarrow>
          if tb_reason b = None \<and> a \<noteq> Approve \<and> a \<noteq> Hold then Inl (invalid_field ''reason_code'' ''required'')
          else if (case tb_reason b of None \<Rightarrow> False | Some c \<Rightarrow> c \<notin> set reason_codes)
          then Inl (invalid_field ''reason_code'' ''enum'')
          else (case by_check of Some e \<Rightarrow> Inl e | None \<Rightarrow> Inr a))"

fun legal :: "action \<Rightarrow> rec \<Rightarrow> bool \<Rightarrow> bool" where
  "legal Approve r fp = (r_status r = st_held)"
| "legal Hold r fp = (r_status r = st_published \<or> (r_status r = st_rejected \<and> \<not> r_residue r))"
| "legal Reject r fp = (r_status r = st_published \<or> r_status r = st_held)"
| "legal Tombstone r fp = (r_status r \<noteq> st_tombstoned)"
| "legal EraseFingerprint r fp = (r_residue r \<and> fp)"
| "legal DeleteStub r fp = (r_status r = st_pending)"

section \<open>Takedowns\<close>

text \<open>The title row of the stored vectors; \<open>None\<close> for a failed or undecodable read.\<close>

definition stored_title_vector :: "env \<Rightarrow> rdoc kv \<Rightarrow> bytes \<Rightarrow> (bytes \<times> nat \<times> vec option) option" where
  "stored_title_vector e db i =
     (if get_err e (embedding_key i) then None
      else case fmlookup db (embedding_key i) of None \<Rightarrow> Some ([], 0, None)
        | Some (DEmb m n rows) \<Rightarrow>
            (case List.find (\<lambda>rw. rw_kind rw = KindTitle) rows of None \<Rightarrow> Some ([], 0, None)
             | Some rw \<Rightarrow> Some (m, n, Some (rw_vec rw)))
        | Some _ \<Rightarrow> None)"

text \<open>Titles whose stored row is missing or of another model, embedded before the lock.\<close>

definition needs_fresh :: "env \<Rightarrow> deps \<Rightarrow> rdoc kv \<Rightarrow> rec \<Rightarrow> bool" where
  "needs_fresh e d db r = (\<not> r_residue r \<and> r_title r \<noteq> [] \<and> dp_emb d \<noteq> None
     \<and> (case stored_title_vector e db (r_id r) of None \<Rightarrow> True
        | Some (m, n, None) \<Rightarrow> True
        | Some (m, n, Some v) \<Rightarrow> (m, n) \<noteq> embedder_shape d))"

definition takedown_vectors :: "env \<Rightarrow> deps \<Rightarrow> rdoc kv \<Rightarrow> rec list \<Rightarrow> (bytes list \<Rightarrow> vec list option)
    \<Rightarrow> (bytes, vec) fmap" where
  "takedown_vectors e d db recs answer =
     (let need = filter (needs_fresh e d db) recs; texts = map r_title need in
      if need = [] then fmempty
      else case check_vectors d texts (answer texts) of None \<Rightarrow> fmempty
        | Some vs \<Rightarrow> fold (\<lambda>(r, v) m. fmupd (r_id r) v m) (zip need vs) fmempty)"

record erased =
  er_res :: rec
  er_model :: bytes
  er_fp :: "vec option"

text \<open>The erasure of a record: its residue and the keys of the batch.\<close>

definition erase_into :: "env \<Rightarrow> deps \<Rightarrow> art_store \<Rightarrow> rec \<Rightarrow> bytes \<Rightarrow> bytes \<Rightarrow> bytes \<Rightarrow> vec option
    \<Rightarrow> (rdoc bop list \<times> erased) option" where
  "erase_into e d s r status reason ts fresh =
     (let i = r_id r; res = to_residue status reason ts r;
          del = [BDelRange (version_lower i) (version_upper i), BDel (embedding_key i), BDel (counters_key i)];
          plain = \<lparr>er_res = res, er_model = [], er_fp = None\<rparr> in
      if any_fingerprint (as_idx s) i then Some (del, plain)
      else case stored_title_vector e (as_db s) i of None \<Rightarrow> None
        | Some (m, n, v) \<Rightarrow>
            (let (m, n, v) = (case fresh of None \<Rightarrow> (m, n, v)
                 | Some f \<Rightarrow> (fst (embedder_shape d), snd (embedder_shape d), Some f)) in
             case v of None \<Rightarrow> Some (del, plain)
             | Some v \<Rightarrow> Some (BSet (fingerprint_key i) (fp_doc m n v) # del,
                 \<lparr>er_res = res, er_model = m, er_fp = Some v\<rparr>)))"

definition apply_erased :: "deps \<Rightarrow> erased \<Rightarrow> index \<Rightarrow> index" where
  "apply_erased d er ix =
     (let i = r_id (er_res er); ix = put_record d (er_res er) ix; ix = ix\<lparr>ix_rows := fmdrop i (ix_rows ix)\<rparr> in
      case er_fp er of None \<Rightarrow> ix
      | Some v \<Rightarrow> if dp_emb d = None \<or> (er_model er, length v) = embedder_shape d
          then ix\<lparr>ix_fps := fmupd i v (ix_fps ix)\<rparr>
          else ix\<lparr>ix_fp_other := finsert i (ix_fp_other ix)\<rparr>)"

definition tombstone_locked :: "art_env \<Rightarrow> deps \<Rightarrow> rec \<Rightarrow> bytes \<Rightarrow> vec option \<Rightarrow> art_store \<Rightarrow> bool \<times> art_store" where
  "tombstone_locked e d r reason fresh s =
     (case erase_into (env.truncate e) d s r st_tombstoned reason (ae_now e) fresh of None \<Rightarrow> (False, s)
      | Some (ops, er) \<Rightarrow>
          if commit_err e then (False, s)
          else (True, s\<lparr>as_db := apply_batch (ops @ [BSet (record_key (r_id r)) (DRecord (marshal_record (er_res er)))]) (as_db s),
             as_idx := apply_erased d er (as_idx s), as_counters := drop_counters (r_id r) (as_counters s)\<rparr>))"

definition erase_fingerprint_locked :: "art_env \<Rightarrow> bytes \<Rightarrow> art_store \<Rightarrow> bool \<times> art_store" where
  "erase_fingerprint_locked e i s = (if commit_err e then (False, s)
     else (True, s\<lparr>as_db := apply_batch [BDel (fingerprint_key i)] (as_db s),
       as_idx := (as_idx s)\<lparr>ix_fps := fmdrop i (ix_fps (as_idx s)),
         ix_fp_other := ix_fp_other (as_idx s) |-| {|i|}\<rparr>\<rparr>))"

definition put_record_locked :: "art_env \<Rightarrow> deps \<Rightarrow> rec \<Rightarrow> art_store \<Rightarrow> bool \<times> art_store" where
  "put_record_locked e d r s = (if commit_err e then (False, s)
     else (True, s\<lparr>as_db := apply_batch [BSet (record_key (r_id r)) (DRecord (marshal_record r))] (as_db s),
       as_idx := put_record d r (as_idx s)\<rparr>))"

section \<open>The status handler\<close>

fun target_status :: "action \<Rightarrow> bytes" where
  "target_status Approve = st_published"
| "target_status Hold = st_held"
| "target_status Reject = st_rejected"
| "target_status Tombstone = st_tombstoned"
| "target_status _ = []"

definition moderated_rec :: "action \<Rightarrow> bytes \<Rightarrow> bytes \<Rightarrow> bytes \<Rightarrow> rec \<Rightarrow> rec" where
  "moderated_rec a by_who reason ts r = (set_status (target_status a) ts r)
     \<lparr>r_moderation := Some \<lparr>md_action = action_name a, md_by = by_who, md_reason = reason, md_at = ts\<rparr>\<rparr>"

definition apply_action :: "art_env \<Rightarrow> deps \<Rightarrow> action \<Rightarrow> bytes \<Rightarrow> bytes \<Rightarrow> vec option \<Rightarrow> rec \<Rightarrow> art_store
    \<Rightarrow> bool \<times> art_store" where
  "apply_action e d a by_who reason fresh r s =
     (case a of Tombstone \<Rightarrow> tombstone_locked e d r reason fresh s
      | EraseFingerprint \<Rightarrow> erase_fingerprint_locked e (r_id r) s
      | DeleteStub \<Rightarrow> delete_record_locked e (r_id r) s
      | _ \<Rightarrow> put_record_locked e d (moderated_rec a by_who reason (ae_now e) r) s)"

definition status_view :: "art_env \<Rightarrow> rec \<Rightarrow> index \<Rightarrow> bytes \<times> bytes \<times> bytes option \<times> bytes \<times> bool" where
  "status_view e r ix = (case fmlookup (ix_recs ix) (r_id r) of
       None \<Rightarrow> (r_id r, r_slug r, None, ae_now e, False)
     | Some cur \<Rightarrow> (r_id r, r_slug r, Some (r_status cur), r_status_at cur, has_fingerprint ix (r_id r)))"

definition commit_status :: "art_env \<Rightarrow> deps \<Rightarrow> principal \<Rightarrow> bytes \<Rightarrow> action \<Rightarrow> bytes \<Rightarrow> bytes \<Rightarrow> vec option
    \<Rightarrow> art_store \<Rightarrow> reply \<times> art_store" where
  "commit_status e d p i a by_who reason fresh s =
     (case active_locked (as_closed s) (ae_policy e) (as_idx s) p ArticlesModerate False of
        Inl er \<Rightarrow> (Refused er, s)
      | Inr ap \<Rightarrow> (case fmlookup (ix_recs (as_idx s)) i of
          None \<Rightarrow> (Refused not_found, s)
        | Some r \<Rightarrow>
            if \<not> same_env (pr_env ap) (r_prelive r) then (Refused env_mismatch, s)
            else if \<not> legal a r (any_fingerprint (as_idx s) i)
            then (Refused (err_illegal_transition (r_status r)), s)
            else (case apply_action e d a by_who reason fresh r s of
                (False, s) \<Rightarrow> (Refused internal_error, s)
              | (True, s) \<Rightarrow> (Moderated (status_view e r (as_idx s)), s))))"

text \<open>\<open>handleStatus\<close> after decoding; \<open>others\<close> is what other writers commit before the lock.\<close>

definition handle_status :: "art_env \<Rightarrow> deps \<Rightarrow> principal \<Rightarrow> bytes \<Rightarrow> status_body \<Rightarrow> v1_error option
    \<Rightarrow> (bytes list \<Rightarrow> vec list option) \<Rightarrow> (art_store \<Rightarrow> art_store) \<Rightarrow> art_store \<Rightarrow> reply \<times> art_store" where
  "handle_status e d p i b by_check answer others s =
     (if \<not> valid_id i then (Refused not_found, s)
      else case allowed p [ArticlesModerate] of Some er \<Rightarrow> (Refused er, s)
      | None \<Rightarrow> (case validate_status b by_check of Inl er \<Rightarrow> (Refused er, s)
        | Inr a \<Rightarrow>
            (let fresh = (case fmlookup (ix_recs (as_idx s)) i of
                  Some r \<Rightarrow> if a = Tombstone \<and> same_env (pr_env p) (r_prelive r)
                    then fmlookup (takedown_vectors (env.truncate e) d (as_db s) [r] answer) (r_id r) else None
                | None \<Rightarrow> None);
                 reason = (case tb_reason b of None \<Rightarrow> [] | Some c \<Rightarrow> c) in
             commit_status e d p i a (tb_by b) reason fresh (others s))))"

section \<open>The purge\<close>

definition converts :: "rec \<Rightarrow> bool" where
  "converts r = (r_status r = st_tombstoned \<or> r_status r = st_rejected)"

text \<open>One snapshot of the keys in order, each with its owner's record; records sort first.\<close>

definition owner_of :: "parsed_key \<Rightarrow> rdoc \<Rightarrow> bytes" where
  "owner_of pk v =
     (if pk_sub pk = sub_slug then (case v of DSlug en \<Rightarrow> sl_id en | _ \<Rightarrow> [])
      else if pk_sub pk = sub_topic then (case v of DTopic o' \<Rightarrow> o' | _ \<Rightarrow> [])
      else if pk_sub pk = sub_meta then []
      else pk_suffix pk)"

fun scan_keys_with :: "rdoc kv \<Rightarrow> (parsed_key \<Rightarrow> rdoc \<Rightarrow> rec option \<Rightarrow> 'a \<Rightarrow> 'a) \<Rightarrow> bytes list
    \<Rightarrow> (bytes, rec) fmap \<Rightarrow> 'a \<Rightarrow> 'a" where
  "scan_keys_with db f [] recs acc = acc"
| "scan_keys_with db f (k # ks) recs acc =
     (case (parse_key k, fmlookup db k) of
        (Some pk, Some v) \<Rightarrow>
          (let recs = (if pk_sub pk = sub_record then
                 (case v of DRecord doc \<Rightarrow> (let r = decode_record doc in
                     if r_id r = pk_suffix pk then fmupd (pk_suffix pk) r recs else recs) | _ \<Rightarrow> recs)
               else recs) in
           scan_keys_with db f ks recs (f pk v (fmlookup recs (owner_of pk v)) acc))
      | _ \<Rightarrow> scan_keys_with db f ks recs acc)"

definition scan_snapshot :: "rdoc kv \<Rightarrow> (parsed_key \<Rightarrow> rdoc \<Rightarrow> rec option \<Rightarrow> 'a \<Rightarrow> 'a) \<Rightarrow> 'a \<Rightarrow> 'a" where
  "scan_snapshot db f acc = scan_keys_with db f (family_keys db) fmempty acc"

record purge_tally =
  pc_records :: nat
  pc_published :: nat
  pc_held :: nat
  pc_pending :: nat
  pc_tombstoned :: nat
  pc_rejected :: nat
  pc_a :: nat
  pc_v :: nat
  pc_s :: nat
  pc_t :: nat
  pc_e :: nat
  pc_c :: nat
  pc_ids :: "bytes list"

definition zero_tally :: purge_tally where
  "zero_tally = \<lparr>pc_records = 0, pc_published = 0, pc_held = 0, pc_pending = 0, pc_tombstoned = 0,
     pc_rejected = 0, pc_a = 0, pc_v = 0, pc_s = 0, pc_t = 0, pc_e = 0, pc_c = 0, pc_ids = []\<rparr>"

definition tally_record :: "rec \<Rightarrow> purge_tally \<Rightarrow> purge_tally" where
  "tally_record r c =
     (let c = c\<lparr>pc_records := pc_records c + 1, pc_ids := pc_ids c @ [r_id r]\<rparr>;
          c = (if r_status r = st_published then c\<lparr>pc_published := pc_published c + 1\<rparr>
               else if r_status r = st_held then c\<lparr>pc_held := pc_held c + 1\<rparr>
               else if r_status r = st_pending then c\<lparr>pc_pending := pc_pending c + 1\<rparr>
               else if r_status r = st_tombstoned then c\<lparr>pc_tombstoned := pc_tombstoned c + 1\<rparr>
               else if r_status r = st_rejected then c\<lparr>pc_rejected := pc_rejected c + 1\<rparr> else c)
      in if converts r then c else c\<lparr>pc_a := pc_a c + 1\<rparr>)"

definition tally :: "parsed_key \<Rightarrow> rdoc \<Rightarrow> rec option \<Rightarrow> purge_tally \<Rightarrow> purge_tally" where
  "tally pk v r c =
     (case r of None \<Rightarrow> c
      | Some r \<Rightarrow>
          if \<not> r_prelive r \<or> pk_sub pk = sub_meta then c
          else if pk_sub pk = sub_record then tally_record r c
          else if pk_sub pk = sub_slug then (if converts r then c else c\<lparr>pc_s := pc_s c + 1\<rparr>)
          else if pk_sub pk = sub_topic then (if converts r then c else c\<lparr>pc_t := pc_t c + 1\<rparr>)
          else if pk_sub pk = sub_version then c\<lparr>pc_v := pc_v c + 1\<rparr>
          else if pk_sub pk = sub_embedding then c\<lparr>pc_e := pc_e c + 1\<rparr>
          else if pk_sub pk = sub_counters then c\<lparr>pc_c := pc_c c + 1\<rparr>
          else c)"

text \<open>\<open>purgeCounts\<close>; \<open>None\<close> when the snapshot cannot be read. The second number counts matrix rows.\<close>

definition purge_counts :: "env \<Rightarrow> art_store \<Rightarrow> (purge_tally \<times> nat) option" where
  "purge_counts e s = (if iter_err e ''R'' then None
     else let c = scan_snapshot (as_db s) tally zero_tally in
       Some (c, sum_list (map (\<lambda>i. case fmlookup (ix_rows (as_idx s)) i of None \<Rightarrow> 0 | Some rs \<Rightarrow> length rs) (pc_ids c))))"

text \<open>One record of the purge: deleted, or kept as a residue of the production environment.\<close>

record purge_acc =
  pa_ops :: "rdoc bop list"
  pa_deleted :: "bytes list"
  pa_conv :: "erased list"

definition purge_residue :: "rec \<Rightarrow> rec \<Rightarrow> rec" where
  "purge_residue r res = (if r_residue r then res\<lparr>r_tombstoned_at := r_tombstoned_at r, r_status_at := r_status_at r\<rparr>
     else case r_moderation r of None \<Rightarrow> res | Some m \<Rightarrow> res\<lparr>r_reason := md_reason m\<rparr>)"

definition purge_one :: "art_env \<Rightarrow> deps \<Rightarrow> art_store \<Rightarrow> (bytes, vec) fmap \<Rightarrow> bytes \<Rightarrow> purge_acc option
    \<Rightarrow> purge_acc option" where
  "purge_one e d s fresh i acc =
     (case (acc, fmlookup (ix_recs (as_idx s)) i) of
        (Some pa, Some r) \<Rightarrow>
          if \<not> r_prelive r then Some pa
          else if \<not> converts r
          then Some (pa\<lparr>pa_ops := pa_ops pa @ delete_keys (as_idx s) i, pa_deleted := pa_deleted pa @ [i]\<rparr>)
          else (case erase_into (env.truncate e) d s (r\<lparr>r_prelive := False\<rparr>) (r_status r) (r_reason r) (ae_now e)
                  (fmlookup fresh i) of
              None \<Rightarrow> None
            | Some (ops, er) \<Rightarrow>
                (let er = er\<lparr>er_res := purge_residue r (er_res er)\<rparr> in
                 Some (pa\<lparr>pa_ops := pa_ops pa @ ops @ [BSet (record_key i) (DRecord (marshal_record (er_res er)))],
                   pa_conv := pa_conv pa @ [er]\<rparr>)))
      | _ \<Rightarrow> acc)"

definition apply_purge_locked :: "art_env \<Rightarrow> deps \<Rightarrow> principal \<Rightarrow> nat \<Rightarrow> (bytes, vec) fmap \<Rightarrow> art_store
    \<Rightarrow> golive_meta option \<times> art_store" where
  "apply_purge_locked e d p n fresh s =
     (case fold (purge_one e d s fresh) (sorted_list_of_fset (fmdom (ix_recs (as_idx s))))
         (Some \<lparr>pa_ops = [], pa_deleted = [], pa_conv = []\<rparr>) of
        None \<Rightarrow> (None, s)
      | Some pa \<Rightarrow>
          (let g = \<lparr>gm_at = ae_now e, gm_by = pr_id p, gm_records = n\<rparr> in
           if commit_err e then (None, s)
           else (Some g, s\<lparr>as_db := apply_batch (pa_ops pa @ [BSet (meta_key ''golive'') (DGolive g)]) (as_db s),
              as_idx := (fold (apply_erased d) (pa_conv pa) (fold drop_record (pa_deleted pa) (as_idx s)))
                \<lparr>ix_golive := Some g\<rparr>,
              as_counters := fold (\<lambda>er. drop_counters (r_id (er_res er))) (pa_conv pa)
                (fold drop_counters (pa_deleted pa) (as_counters s))\<rparr>)))"

datatype purge_reply = PurgeRefused v1_error | PurgeCounts "purge_tally \<times> nat" "bytes list"
  | Purged "purge_tally \<times> nat" golive_meta

definition commit_purge :: "art_env \<Rightarrow> deps \<Rightarrow> principal \<Rightarrow> int \<Rightarrow> (bytes, vec) fmap \<Rightarrow> art_store
    \<Rightarrow> purge_reply \<times> art_store" where
  "commit_purge e d p expect fresh s =
     (case active_locked (as_closed s) (ae_policy e) (as_idx s) p ArticlesAdmin False of
        Inl er \<Rightarrow> (PurgeRefused er, s)
      | Inr a \<Rightarrow>
          if ix_golive (as_idx s) \<noteq> None then (PurgeRefused err_golive, s)
          else (case purge_counts (env.truncate e) s of None \<Rightarrow> (PurgeRefused internal_error, s)
            | Some c \<Rightarrow>
                if po_staging_writers (ae_policy e) \<noteq> []
                then (PurgeRefused (err_staging_writers (po_staging_writers (ae_policy e))), s)
                else if int (pc_records (fst c)) \<noteq> expect
                then (PurgeRefused (err_count_changed (pc_records (fst c))), s)
                else (case apply_purge_locked e d a (pc_records (fst c)) fresh s of
                    (None, s) \<Rightarrow> (PurgeRefused internal_error, s)
                  | (Some g, s) \<Rightarrow> (Purged c g, s))))"

record purge_body =
  ub_apply :: "bool option"
  ub_expect :: "int option"

definition handle_purge :: "art_env \<Rightarrow> deps \<Rightarrow> principal \<Rightarrow> purge_body \<Rightarrow> (bytes list \<Rightarrow> vec list option)
    \<Rightarrow> (art_store \<Rightarrow> art_store) \<Rightarrow> art_store \<Rightarrow> purge_reply \<times> art_store" where
  "handle_purge e d p b answer others s =
     (case allowed p [ArticlesAdmin] of Some er \<Rightarrow> (PurgeRefused er, s)
      | None \<Rightarrow>
          if ix_golive (as_idx s) \<noteq> None then (PurgeRefused err_golive, s)
          else if ub_apply b \<noteq> Some True then
            (case purge_counts (env.truncate e) s of None \<Rightarrow> (PurgeRefused internal_error, s)
             | Some c \<Rightarrow> (PurgeCounts c (po_staging_writers (ae_policy e)), s))
          else (case ub_expect b of None \<Rightarrow> (PurgeRefused (invalid_field ''expect_records'' ''required''), s)
            | Some n \<Rightarrow>
                (let rejected = filter (\<lambda>r. r_prelive r \<and> converts r \<and> \<not> r_residue r) (recs_list (as_idx s));
                     fresh = takedown_vectors (env.truncate e) d (as_db s) rejected answer in
                 commit_purge e d p n fresh (others s))))"

end
