(* ===== verification/ArtRebuild.thy ===== *)
theory ArtRebuild
  imports ArtIndex
begin

text \<open>The scan of \<open>Rebuild\<close> loads exactly what the database says.\<close>

section \<open>Parsing keys\<close>

lemma not_valid_Nil [simp]: "\<not> valid_id []"
  by (simp add: valid_id_def)

lemma parse_record_key [simp]:
  "parse_key (record_key i) = (if valid_id i then Some \<lparr>pk_sub = sub_record, pk_suffix = i, pk_version = 0\<rparr> else None)"
  by (auto simp: parse_key_def art_key_defs sub_defs Let_def valid_id_length)

lemma parse_embedding_key [simp]:
  "parse_key (embedding_key i) = (if valid_id i then Some \<lparr>pk_sub = sub_embedding, pk_suffix = i, pk_version = 0\<rparr> else None)"
  by (auto simp: parse_key_def art_key_defs sub_defs Let_def valid_id_length)

lemma parse_fingerprint_key [simp]:
  "parse_key (fingerprint_key i) = (if valid_id i then Some \<lparr>pk_sub = sub_fingerprint, pk_suffix = i, pk_version = 0\<rparr> else None)"
  by (auto simp: parse_key_def art_key_defs sub_defs Let_def valid_id_length)

lemma parse_counters_key [simp]:
  "parse_key (counters_key i) = (if valid_id i then Some \<lparr>pk_sub = sub_counters, pk_suffix = i, pk_version = 0\<rparr> else None)"
  by (auto simp: parse_key_def art_key_defs sub_defs Let_def valid_id_length)

lemma parse_slug_key [simp]:
  "parse_key (slug_key s) = (if s = [] then None else Some \<lparr>pk_sub = sub_slug, pk_suffix = s, pk_version = 0\<rparr>)"
  by (auto simp: parse_key_def art_key_defs sub_defs Let_def)

lemma topic_pattern_length: "topic_pattern t \<Longrightarrow> length t = 16"
  by (simp add: topic_pattern_def)

lemma not_topic_Nil [simp]: "\<not> topic_pattern []"
  by (simp add: topic_pattern_def)

lemma parse_topic_key [simp]:
  "parse_key (topic_key t) = (if topic_pattern t then Some \<lparr>pk_sub = sub_topic, pk_suffix = t, pk_version = 0\<rparr> else None)"
  by (auto simp: parse_key_def art_key_defs sub_defs Let_def topic_pattern_length)

lemma parse_meta_key [simp]:
  "parse_key (meta_key n) = (if n = [] then None else Some \<lparr>pk_sub = sub_meta, pk_suffix = n, pk_version = 0\<rparr>)"
  by (auto simp: parse_key_def art_key_defs sub_defs Let_def)

lemma be64_bytes: "be_nat (be64 (nat (v mod 2 ^ 64))) = nat (v mod 2 ^ 64)"
proof -
  have "nat (v mod 2 ^ 64) < 2 ^ 64" by (simp add: nat_less_iff)
  then show ?thesis by (rule be_nat_be64)
qed

lemma parse_version_key [simp]:
  "valid_id i \<Longrightarrow> parse_key (version_key i v) = Some \<lparr>pk_sub = sub_version, pk_suffix = i, pk_version = i64 v\<rparr>"
proof -
  assume "valid_id i"
  moreover have "i64 (v mod 2 ^ 64) = i64 v" by (simp add: i64_def mod_add_left_eq)
  ultimately show ?thesis
    by (simp add: parse_key_def art_key_defs sub_defs Let_def valid_id_length be64_bytes [simplified])
qed

lemma parse_key_Cons:
  "parse_key (CHR ''R'' # sub # rest) =
     (if rest = [] then None
      else if sub \<in> {sub_record, sub_embedding, sub_fingerprint, sub_counters}
      then (if valid_id rest then Some \<lparr>pk_sub = sub, pk_suffix = rest, pk_version = 0\<rparr> else None)
      else if sub = sub_version then
        (if length rest \<noteq> 34 then None
         else if valid_id (take 26 rest)
           then Some \<lparr>pk_sub = sub, pk_suffix = take 26 rest, pk_version = i64 (int (be_nat (drop 26 rest)))\<rparr>
           else None)
      else if sub = sub_slug then Some \<lparr>pk_sub = sub, pk_suffix = rest, pk_version = 0\<rparr>
      else if sub = sub_topic then (if topic_pattern rest then Some \<lparr>pk_sub = sub, pk_suffix = rest, pk_version = 0\<rparr> else None)
      else if sub = sub_meta then Some \<lparr>pk_sub = sub, pk_suffix = rest, pk_version = 0\<rparr>
      else None)"
proof (cases "rest = []")
  case True
  then show ?thesis by (simp add: parse_key_def)
next
  case False
  then have "\<not> length (CHR ''R'' # sub # rest) < 3" by (cases rest) simp_all
  with False show ?thesis by (simp add: parse_key_def Let_def)
qed

lemma parse_keyE:
  assumes "parse_key k = Some p"
  obtains (recd) "k = record_key (pk_suffix p)" "pk_sub p = sub_record" "valid_id (pk_suffix p)"
    | (embedding) "k = embedding_key (pk_suffix p)" "pk_sub p = sub_embedding" "valid_id (pk_suffix p)"
    | (fingerprint) "k = fingerprint_key (pk_suffix p)" "pk_sub p = sub_fingerprint" "valid_id (pk_suffix p)"
    | (counters) "k = counters_key (pk_suffix p)" "pk_sub p = sub_counters" "valid_id (pk_suffix p)"
    | (version) "key_sub k = sub_version" "pk_sub p = sub_version"
    | (slug) "k = slug_key (pk_suffix p)" "pk_sub p = sub_slug" "pk_suffix p \<noteq> []"
    | (topic) "k = topic_key (pk_suffix p)" "pk_sub p = sub_topic" "topic_pattern (pk_suffix p)"
    | (meta) "k = meta_key (pk_suffix p)" "pk_sub p = sub_meta" "pk_suffix p \<noteq> []"
proof -
  from assms have len: "3 \<le> length k" and r: "k ! 0 = CHR ''R''"
    by (auto simp: parse_key_def split: if_splits)
  define sub where "sub = k ! 1"
  define rest where "rest = drop 2 k"
  have k: "k = CHR ''R'' # sub # rest"
    using len r by (cases k; cases "tl k") (auto simp: sub_def rest_def)
  have ne: "rest \<noteq> []" using len k by auto
  note a = assms [unfolded k parse_key_Cons]
  from a consider "sub = sub_record" "valid_id rest" "p = \<lparr>pk_sub = sub, pk_suffix = rest, pk_version = 0\<rparr>"
    | "sub = sub_embedding" "valid_id rest" "p = \<lparr>pk_sub = sub, pk_suffix = rest, pk_version = 0\<rparr>"
    | "sub = sub_fingerprint" "valid_id rest" "p = \<lparr>pk_sub = sub, pk_suffix = rest, pk_version = 0\<rparr>"
    | "sub = sub_counters" "valid_id rest" "p = \<lparr>pk_sub = sub, pk_suffix = rest, pk_version = 0\<rparr>"
    | "sub = sub_version" "pk_sub p = sub"
    | "sub = sub_slug" "p = \<lparr>pk_sub = sub, pk_suffix = rest, pk_version = 0\<rparr>"
    | "sub = sub_topic" "topic_pattern rest" "p = \<lparr>pk_sub = sub, pk_suffix = rest, pk_version = 0\<rparr>"
    | "sub = sub_meta" "p = \<lparr>pk_sub = sub, pk_suffix = rest, pk_version = 0\<rparr>"
    by (auto split: if_splits)
  then show thesis
  proof cases
    case 1 then show thesis using k by (intro recd) (simp_all add: art_key_defs)
  next
    case 2 then show thesis using k by (intro embedding) (simp_all add: art_key_defs)
  next
    case 3 then show thesis using k by (intro fingerprint) (simp_all add: art_key_defs)
  next
    case 4 then show thesis using k by (intro counters) (simp_all add: art_key_defs)
  next
    case 5 then show thesis using k by (intro version) (simp_all add: key_sub_def)
  next
    case 6 then show thesis using k ne by (intro slug) (simp_all add: art_key_defs)
  next
    case 7 then show thesis using k by (intro topic) (simp_all add: art_key_defs)
  next
    case 8 then show thesis using k ne by (intro meta) (simp_all add: art_key_defs)
  qed
qed

section \<open>Keys of different kinds\<close>

lemma sub_distinct [simp]:
  "sub_record \<noteq> sub_version" "sub_record \<noteq> sub_slug" "sub_record \<noteq> sub_topic" "sub_record \<noteq> sub_embedding"
  "sub_record \<noteq> sub_fingerprint" "sub_record \<noteq> sub_counters" "sub_record \<noteq> sub_meta"
  "sub_version \<noteq> sub_slug" "sub_version \<noteq> sub_topic" "sub_version \<noteq> sub_embedding"
  "sub_version \<noteq> sub_fingerprint" "sub_version \<noteq> sub_counters" "sub_version \<noteq> sub_meta"
  "sub_slug \<noteq> sub_topic" "sub_slug \<noteq> sub_embedding" "sub_slug \<noteq> sub_fingerprint"
  "sub_slug \<noteq> sub_counters" "sub_slug \<noteq> sub_meta"
  "sub_topic \<noteq> sub_embedding" "sub_topic \<noteq> sub_fingerprint" "sub_topic \<noteq> sub_counters" "sub_topic \<noteq> sub_meta"
  "sub_embedding \<noteq> sub_fingerprint" "sub_embedding \<noteq> sub_counters" "sub_embedding \<noteq> sub_meta"
  "sub_fingerprint \<noteq> sub_counters" "sub_fingerprint \<noteq> sub_meta" "sub_counters \<noteq> sub_meta"
  by (simp_all add: sub_defs)

lemmas sub_distinct' [simp] = sub_distinct [symmetric]

lemma kind_neq [simp]:
  assumes "key_sub k \<noteq> key_sub k'"
  shows "(k = k') = False"
  using assms by auto

text \<open>Storing a key changes only what is read at it.\<close>

lemma at_upd_other:
  "key_sub k \<noteq> sub_record \<Longrightarrow> rec_at (fmupd k v db) = rec_at db"
  "key_sub k \<noteq> sub_slug \<Longrightarrow> slug_at (fmupd k v db) = slug_at db"
  "key_sub k \<noteq> sub_topic \<Longrightarrow> claim_at (fmupd k v db) = claim_at db"
  "key_sub k \<noteq> sub_embedding \<Longrightarrow> rows_at d (fmupd k v db) = rows_at d db"
  "key_sub k \<noteq> sub_fingerprint \<Longrightarrow> fp_at d (fmupd k v db) = fp_at d db"
  "key_sub k \<noteq> sub_fingerprint \<Longrightarrow> fp_other_at d (fmupd k v db) = fp_other_at d db"
  "key_sub k \<noteq> sub_counters \<Longrightarrow> counters_at (fmupd k v db) = counters_at db"
  "key_sub k \<noteq> sub_meta \<Longrightarrow> golive_at (fmupd k v db) = golive_at db"
  by (auto simp: rec_at_def slug_at_def claim_at_def rows_at_def fp_at_def fp_other_at_def
      counters_at_def golive_at_def fun_eq_iff)

text \<open>A key that does not parse is never read.\<close>

lemma at_upd_unparsed:
  assumes "parse_key k = None"
  shows "rec_at (fmupd k v db) = rec_at db" "slug_at (fmupd k v db) = slug_at db"
    "claim_at (fmupd k v db) = claim_at db" "rows_at d (fmupd k v db) = rows_at d db"
    "fp_at d (fmupd k v db) = fp_at d db" "fp_other_at d (fmupd k v db) = fp_other_at d db"
    "counters_at (fmupd k v db) = counters_at db" "golive_at (fmupd k v db) = golive_at db"
proof -
  have n: "valid_id i \<Longrightarrow> k \<noteq> record_key i \<and> k \<noteq> embedding_key i \<and> k \<noteq> fingerprint_key i \<and> k \<noteq> counters_key i"
    "s \<noteq> [] \<Longrightarrow> k \<noteq> slug_key s \<and> k \<noteq> meta_key s" "topic_pattern t \<Longrightarrow> k \<noteq> topic_key t" for i s t
    using assms by auto
  have m: "k \<noteq> meta_key ''golive''" using n(2) by simp
  show "rec_at (fmupd k v db) = rec_at db" "slug_at (fmupd k v db) = slug_at db"
    "claim_at (fmupd k v db) = claim_at db" "rows_at d (fmupd k v db) = rows_at d db"
    "fp_at d (fmupd k v db) = fp_at d db" "fp_other_at d (fmupd k v db) = fp_other_at d db"
    "counters_at (fmupd k v db) = counters_at db" "golive_at (fmupd k v db) = golive_at db"
    using n m by (auto simp: rec_at_def slug_at_def claim_at_def rows_at_def fp_at_def fp_other_at_def
        counters_at_def golive_at_def fun_eq_iff)
qed

section \<open>The scan\<close>

text \<open>The index during the scan: as \<open>mirrors\<close>, before residues lose their rows.\<close>

definition needs_embedding :: "deps \<Rightarrow> rdoc kv \<Rightarrow> bytes \<Rightarrow> bool" where
  "needs_embedding d db i = (valid_id i \<and> (case fmlookup db (embedding_key i) of
       Some (DEmb m n rows) \<Rightarrow> \<not> current_model d m n | _ \<Rightarrow> False))"

fun raw_mirrors :: "deps \<Rightarrow> rdoc kv \<Rightarrow> scan \<Rightarrow> bool" where
  "raw_mirrors d db (ix, counts, re) =
     ((\<forall>i. fmlookup (ix_recs ix) i = rec_at db i)
      \<and> (\<forall>s. fmlookup (ix_slugs ix) s = slug_at db s)
      \<and> (\<forall>t. fmlookup (ix_claims ix) t = claim_at db t)
      \<and> (\<forall>i. fmlookup (ix_rows ix) i = rows_at d db i)
      \<and> (\<forall>i. fmlookup (ix_fps ix) i = fp_at d db i)
      \<and> (\<forall>i. i |\<in>| ix_fp_other ix \<longleftrightarrow> fp_other_at d db i)
      \<and> (\<forall>i. fmlookup (ix_full_slugs ix) i = full_slug_of d (fmlookup (ix_recs ix) i))
      \<and> ix_golive ix = golive_at db
      \<and> (\<forall>i. fmlookup counts i = counters_at db i)
      \<and> set re = {i. needs_embedding d db i})"

lemma needs_upd_other:
  "key_sub k \<noteq> sub_embedding \<Longrightarrow> needs_embedding d (fmupd k v db) = needs_embedding d db"
  by (auto simp: needs_embedding_def fun_eq_iff)

lemma needs_upd_unparsed:
  "parse_key k = None \<Longrightarrow> needs_embedding d (fmupd k v db) = needs_embedding d db"
  by (auto simp: needs_embedding_def fun_eq_iff)

lemma put_record_fields [simp]:
  "fmlookup (ix_recs (put_record d r ix)) i = (if i = r_id r then Some r else fmlookup (ix_recs ix) i)"
  "ix_slugs (put_record d r ix) = ix_slugs ix" "ix_claims (put_record d r ix) = ix_claims ix"
  "ix_rows (put_record d r ix) = ix_rows ix" "ix_fps (put_record d r ix) = ix_fps ix"
  "ix_fp_other (put_record d r ix) = ix_fp_other ix" "ix_golive (put_record d r ix) = ix_golive ix"
  "fmlookup (ix_full_slugs (put_record d r ix)) i =
     (if i = r_id r then full_slug_of d (Some r) else fmlookup (ix_full_slugs ix) i)"
  by (auto simp: put_record_def full_slug_of_def)

lemma raw_mirrors_step:
  assumes m: "raw_mirrors d db st" and new: "fmlookup db k = None"
  shows "raw_mirrors d (fmupd k v db) (rebuild_step d (k, v) st)"
proof -
  obtain ix counts re where st: "st = (ix, counts, re)" by (cases st) auto
  show ?thesis
  proof (cases "parse_key k")
    case None
    with m show ?thesis by (simp add: st at_upd_unparsed needs_upd_unparsed)
  next
    case (Some p)
    then show ?thesis
    proof (cases rule: parse_keyE)
      case recd
      note o = at_upd_other [of k, unfolded recd(1), simplified] needs_upd_other [of k, unfolded recd(1), simplified]
      have r: "rec_at (fmupd k v db) i = (if i = pk_suffix p then (case v of DRecord doc \<Rightarrow>
         (let r = decode_record doc in if r_id r = i then Some r else None) | _ \<Rightarrow> None) else rec_at db i)" for i v
        using recd(1,3) by (auto simp: rec_at_def)
      have n: "rec_at db (pk_suffix p) = None" using new recd(1) by (simp add: rec_at_def)
      show ?thesis
        using m Some recd(2) n unfolding st
        by (cases v) (auto simp: r o [folded recd(1)] Let_def full_slug_of_def)
    next
      case embedding
      note o = at_upd_other [of k, unfolded embedding(1), simplified]
      have r: "rows_at d (fmupd k v db) i = (if i = pk_suffix p then (case v of DEmb m n rows \<Rightarrow>
         (if current_model d m n then Some rows else None) | _ \<Rightarrow> None) else rows_at d db i)"
        "needs_embedding d (fmupd k v db) i = (if i = pk_suffix p then (case v of DEmb m n rows \<Rightarrow>
         \<not> current_model d m n | _ \<Rightarrow> False) else needs_embedding d db i)" for i v
        using embedding(1,3) by (auto simp: rows_at_def needs_embedding_def)
      have n: "rows_at d db (pk_suffix p) = None" "\<not> needs_embedding d db (pk_suffix p)"
        using new embedding(1) by (simp_all add: rows_at_def needs_embedding_def)
      show ?thesis
        using m Some embedding(2) n unfolding st
        by (cases v) (auto simp: r o [folded embedding(1)] Let_def split: if_splits)
    next
      case fingerprint
      note o = at_upd_other [of k, unfolded fingerprint(1), simplified] needs_upd_other [of k, unfolded fingerprint(1), simplified]
      have r: "fp_at d (fmupd k v db) i = (if i = pk_suffix p then (case v of DFp m n f \<Rightarrow>
         (if current_model d m n then Some f else None) | _ \<Rightarrow> None) else fp_at d db i)"
        "fp_other_at d (fmupd k v db) i = (if i = pk_suffix p then (case v of DFp m n f \<Rightarrow>
         \<not> current_model d m n | _ \<Rightarrow> False) else fp_other_at d db i)" for i v
        using fingerprint(1,3) by (auto simp: fp_at_def fp_other_at_def)
      have n: "fp_at d db (pk_suffix p) = None" "\<not> fp_other_at d db (pk_suffix p)"
        using new fingerprint(1) by (simp_all add: fp_at_def fp_other_at_def)
      show ?thesis
        using m Some fingerprint(2) n unfolding st
        by (cases v) (auto simp: r o [folded fingerprint(1)] Let_def)
    next
      case counters
      note o = at_upd_other [of k, unfolded counters(1), simplified] needs_upd_other [of k, unfolded counters(1), simplified]
      have r: "counters_at (fmupd k v db) i = (if i = pk_suffix p then (case v of DCounters c \<Rightarrow> Some c
         | _ \<Rightarrow> None) else counters_at db i)" for i v
        using counters(1,3) by (auto simp: counters_at_def)
      have n: "counters_at db (pk_suffix p) = None" using new counters(1) by (simp add: counters_at_def)
      show ?thesis
        using m Some counters(2) n unfolding st
        by (cases v) (auto simp: r o [folded counters(1)] Let_def)
    next
      case version
      with m Some show ?thesis unfolding st by (simp add: at_upd_other needs_upd_other Let_def)
    next
      case slug
      note o = at_upd_other [of k, unfolded slug(1), simplified] needs_upd_other [of k, unfolded slug(1), simplified]
      have r: "slug_at (fmupd k v db) i = (if i = pk_suffix p then (case v of DSlug e \<Rightarrow> Some e
         | _ \<Rightarrow> None) else slug_at db i)" for i v
        using slug(1,3) by (auto simp: slug_at_def)
      have n: "slug_at db (pk_suffix p) = None" using new slug(1) by (simp add: slug_at_def)
      show ?thesis
        using m Some slug(2) n unfolding st
        by (cases v) (auto simp: r o [folded slug(1)] Let_def)
    next
      case topic
      note o = at_upd_other [of k, unfolded topic(1), simplified] needs_upd_other [of k, unfolded topic(1), simplified]
      have r: "claim_at (fmupd k v db) i = (if i = pk_suffix p then (case v of DTopic e \<Rightarrow> Some e
         | _ \<Rightarrow> None) else claim_at db i)" for i v
        using topic(1,3) by (auto simp: claim_at_def)
      have n: "claim_at db (pk_suffix p) = None" using new topic(1) by (simp add: claim_at_def)
      show ?thesis
        using m Some topic(2) n unfolding st
        by (cases v) (auto simp: r o [folded topic(1)] Let_def)
    next
      case meta
      note o = at_upd_other [of k, unfolded meta(1), simplified] needs_upd_other [of k, unfolded meta(1), simplified]
      have r: "golive_at (fmupd k v db) = (if pk_suffix p = ''golive'' then (case v of DGolive g \<Rightarrow> Some g
         | _ \<Rightarrow> None) else golive_at db)" for v
        using meta(1) by (auto simp: golive_at_def)
      have n: "pk_suffix p = ''golive'' \<Longrightarrow> golive_at db = None" using new meta(1) by (simp add: golive_at_def)
      show ?thesis
        using m Some meta(2) n unfolding st
        by (cases v) (auto simp: r o [folded meta(1)] Let_def)
    qed
  qed
qed

lemma raw_mirrors_empty: "raw_mirrors d fmempty (new_index, fmempty, [])"
  by (simp add: new_index_def rec_at_def slug_at_def claim_at_def rows_at_def fp_at_def fp_other_at_def
      golive_at_def counters_at_def needs_embedding_def full_slug_of_def)

lemma raw_mirrors_fold:
  assumes "distinct (map fst kvs)" and "raw_mirrors d db st" and "\<forall>(k, v) \<in> set kvs. fmlookup db k = None"
  shows "raw_mirrors d (fold (\<lambda>(k, v). fmupd k v) kvs db) (fold (rebuild_step d) kvs st)"
  using assms
proof (induction kvs arbitrary: db st)
  case Nil
  then show ?case by simp
next
  case (Cons p kvs)
  obtain k v where p: "p = (k, v)" by (cases p)
  have new: "fmlookup db k = None" using Cons.prems(3) p by simp
  have rest: "\<forall>(k', v') \<in> set kvs. fmlookup (fmupd k v db) k' = None"
  proof clarify
    fix k' v' assume kv: "(k', v') \<in> set kvs"
    then have "k' \<in> fst ` set kvs" by (rule rev_image_eqI) simp
    with Cons.prems(1) p have "k' \<noteq> k" by auto
    moreover have "fmlookup db k' = None" using Cons.prems(3) kv by auto
    ultimately show "fmlookup (fmupd k v db) k' = None" by simp
  qed
  have "raw_mirrors d (fold (\<lambda>(k, v). fmupd k v) kvs (fmupd k v db)) (fold (rebuild_step d) kvs (rebuild_step d (k, v) st))"
    using Cons.prems p by (intro Cons.IH raw_mirrors_step new rest) auto
  then show ?case by (simp add: p)
qed

lemma fold_upd_lookup:
  "distinct (map fst kvs) \<Longrightarrow> fmlookup (fold (\<lambda>(k, v). fmupd k v) kvs db) x
    = (case map_of kvs x of Some v \<Rightarrow> Some v | None \<Rightarrow> fmlookup db x)"
proof (induction kvs arbitrary: db)
  case Nil
  then show ?case by simp
next
  case (Cons p kvs)
  obtain k v where p: "p = (k, v)" by (cases p)
  have "k \<notin> fst ` set kvs" using Cons.prems p by simp
  then have "map_of kvs k = None" by (simp add: map_of_eq_None_iff)
  with Cons show ?case by (auto simp: p split: option.splits)
qed

text \<open>The family holds every key the readers look at.\<close>

lemma family_range: "(''R'' \<le> k \<and> k < ''S'') = (\<exists>r. k = CHR ''R'' # r)"
proof -
  have "byte_val (CHR ''S'') = Suc (byte_val (CHR ''R''))" by simp
  from prefix_range [OF this, of "[]" k] show ?thesis by simp
qed

definition family_eq :: "rdoc kv \<Rightarrow> rdoc kv \<Rightarrow> bool" where
  "family_eq db db' = (\<forall>r. fmlookup db (CHR ''R'' # r) = fmlookup db' (CHR ''R'' # r))"

lemma family_eq_at:
  assumes "family_eq db db'"
  shows "rec_at db = rec_at db'" "slug_at db = slug_at db'" "claim_at db = claim_at db'"
    "rows_at d db = rows_at d db'" "fp_at d db = fp_at d db'" "fp_other_at d db = fp_other_at d db'"
    "counters_at db = counters_at db'" "golive_at db = golive_at db'"
    "needs_embedding d db = needs_embedding d db'"
  using assms by (auto simp: family_eq_def rec_at_def slug_at_def claim_at_def rows_at_def fp_at_def
      fp_other_at_def counters_at_def golive_at_def needs_embedding_def art_key_defs fun_eq_iff)

lemma rebuild_scan_raw: "raw_mirrors d db (rebuild_scan d db)"
proof -
  let ?kvs = "map (\<lambda>k. (k, the (fmlookup db k))) (family_keys db)"
  let ?db = "fold (\<lambda>(k, v). fmupd k v) ?kvs fmempty"
  have dist: "distinct (map fst ?kvs)"
    by (simp add: comp_def family_keys_def pebble.distinct_keys)
  have raw: "raw_mirrors d ?db (rebuild_scan d db)"
    unfolding rebuild_scan_def by (rule raw_mirrors_fold [OF dist raw_mirrors_empty]) simp
  have "family_eq ?db db"
    unfolding family_eq_def
  proof
    fix r
    let ?k = "CHR ''R'' # r"
    have in_iff: "?k \<in> set (family_keys db) \<longleftrightarrow> fmlookup db ?k \<noteq> None"
      using family_range [of ?k] by (simp add: family_keys_def set_kv_keys)
    have "map_of ?kvs ?k = (if ?k \<in> set (family_keys db) then Some (the (fmlookup db ?k)) else None)"
      by (simp add: map_of_map_restrict restrict_map_def)
    then show "fmlookup ?db ?k = fmlookup db ?k"
      unfolding fold_upd_lookup [OF dist] using in_iff by (cases "fmlookup db ?k") simp_all
  qed
  note e = family_eq_at [OF this]
  obtain ix counts re where "rebuild_scan d db = (ix, counts, re)" by (cases "rebuild_scan d db") auto
  with raw show ?thesis by (simp add: e)
qed

text \<open>The loaded index mirrors the database; the loaded counters are those of live articles; the ids to
  embed again are the live, non-pending ones whose rows another model wrote.\<close>

lemma decoded_norm: "rec_at db i = Some r \<Longrightarrow> \<exists>doc. r = decode_record doc"
  by (auto simp: rec_at_def Let_def split: if_splits option.splits rdoc.splits)

lemma rebuild_spec:
  assumes "rebuild d db = (ix, counts, re)"
  shows "fmlookup (ix_recs ix) i = rec_at db i"
    and "fmlookup (ix_slugs ix) s = slug_at db s"
    and "fmlookup (ix_claims ix) t = claim_at db t"
    and "fmlookup (ix_rows ix) i = (if live_content ix i then rows_at d db i else None)"
    and "fmlookup (ix_fps ix) i = fp_at d db i"
    and "i |\<in>| ix_fp_other ix \<longleftrightarrow> fp_other_at d db i"
    and "fmlookup (ix_full_slugs ix) i = full_slug_of d (rec_at db i)"
    and "ix_golive ix = golive_at db"
    and "fmlookup counts i = (if live_content ix i then counters_at db i else None)"
    and "i \<in> set re \<longleftrightarrow> needs_embedding d db i \<and> live_content ix i \<and> map_option r_status (rec_at db i) \<noteq> Some st_pending"
proof -
  obtain ix0 counts0 re0 where s: "rebuild_scan d db = (ix0, counts0, re0)" by (cases "rebuild_scan d db") auto
  have m: "raw_mirrors d db (ix0, counts0, re0)" using rebuild_scan_raw [of d db] s by simp
  have ix: "ix = ix0\<lparr>ix_rows := fmfilter (live_content ix0) (ix_rows ix0)\<rparr>"
    "counts = fmfilter (live_content ix0) counts0"
    "re = filter (\<lambda>i. case fmlookup (ix_recs ix0) i of None \<Rightarrow> False
        | Some r \<Rightarrow> \<not> r_residue r \<and> r_status r \<noteq> st_pending) re0"
    using assms by (auto simp: rebuild_def s)
  have l: "live_content ix j = live_content ix0 j" for j by (simp add: live_content_def ix(1))
  show "fmlookup (ix_recs ix) i = rec_at db i" "fmlookup (ix_slugs ix) s = slug_at db s"
    "fmlookup (ix_claims ix) t = claim_at db t" "fmlookup (ix_fps ix) i = fp_at d db i"
    "i |\<in>| ix_fp_other ix \<longleftrightarrow> fp_other_at d db i" "ix_golive ix = golive_at db"
    "fmlookup (ix_full_slugs ix) i = full_slug_of d (rec_at db i)"
    using m by (simp_all add: ix(1))
  show "fmlookup (ix_rows ix) i = (if live_content ix i then rows_at d db i else None)"
    using m by (simp add: ix(1) l [unfolded ix(1)])
  show "fmlookup counts i = (if live_content ix i then counters_at db i else None)"
    using m by (simp add: ix(2) l)
  show "i \<in> set re \<longleftrightarrow> needs_embedding d db i \<and> live_content ix i \<and> map_option r_status (rec_at db i) \<noteq> Some st_pending"
    unfolding l using m by (auto simp: ix(3) live_content_def split: option.splits)
qed

text \<open>An index that mirrors the database is the one a restart loads.\<close>

definition norm_index :: "index \<Rightarrow> index" where
  "norm_index ix = ix\<lparr>ix_recs := fmmap norm_rec (ix_recs ix)\<rparr>"

lemma mirrors_is_rebuild:
  assumes m: "mirrors d db ix" and r: "rebuild d db = (ix', counts, re)"
  shows "ix' = norm_index ix"
proof -
  note s = rebuild_spec [OF r]
  have live: "live_content ix' i = live_content ix i" for i
  proof -
    have "rec_at db i = map_option norm_rec (fmlookup (ix_recs ix) i)" using m by (simp add: mirrors_def)
    then show ?thesis by (cases "fmlookup (ix_recs ix) i") (simp_all add: live_content_def s(1))
  qed
  have fs: "full_slug_of d (rec_at db i) = full_slug_of d (fmlookup (ix_recs ix) i)" for i
  proof -
    have "rec_at db i = map_option norm_rec (fmlookup (ix_recs ix) i)" using m by (simp add: mirrors_def)
    then show ?thesis by (cases "fmlookup (ix_recs ix) i") (simp_all add: full_slug_of_def)
  qed
  show ?thesis
  proof (rule index.equality)
    show "ix_recs ix' = ix_recs (norm_index ix)"
      using m by (intro fmap_ext) (simp add: s norm_index_def mirrors_def)
    show "ix_slugs ix' = ix_slugs (norm_index ix)" "ix_claims ix' = ix_claims (norm_index ix)"
      "ix_fps ix' = ix_fps (norm_index ix)"
      using m by (auto intro!: fmap_ext simp: s norm_index_def mirrors_def)
    show "ix_rows ix' = ix_rows (norm_index ix)"
      using m by (intro fmap_ext) (simp add: s(4) live norm_index_def mirrors_def)
    show "ix_fp_other ix' = ix_fp_other (norm_index ix)"
      using m by (auto simp: s norm_index_def mirrors_def)
    show "ix_full_slugs ix' = ix_full_slugs (norm_index ix)"
      using m fs by (intro fmap_ext) (simp add: s(7) norm_index_def mirrors_def)
    show "ix_golive ix' = ix_golive (norm_index ix)"
      using m by (simp add: s norm_index_def mirrors_def)
  qed simp
qed

lemma rebuild_mirrors:
  assumes "rebuild d db = (ix, counts, re)" and "\<And>i r. rec_at db i = Some r \<Longrightarrow> norm_rec r = r"
  shows "mirrors d db ix"
proof -
  have "map_option norm_rec (rec_at db i) = rec_at db i" for i
    using assms(2) by (cases "rec_at db i") auto
  then show ?thesis
    unfolding mirrors_def by (simp add: rebuild_spec [OF assms(1)])
qed

end
