(* ===== verification/ArtMirror.thy ===== *)
theory ArtMirror
  imports ArtModerate ArtRebuild
begin

text \<open>
  Every commit of the article store keeps the in-memory index what a restart would load. A batch is
  described by what it leaves under each kind of key; \<open>mirrors_by_keys\<close> turns such a description into
  the statement about the index.
\<close>

section \<open>Version ranges\<close>

lemma between_prefix:
  fixes k q :: bytes
  assumes "q \<le> k" "k < q @ [c]"
  shows "\<exists>r. k = q @ r"
  using assms
proof (induction q arbitrary: k)
  case Nil
  then show ?case by simp
next
  case (Cons a q)
  then obtain b k' where k: "k = b # k'" by (cases k) auto
  with Cons.prems have "b = a" "q \<le> k'" "k' < q @ [c]" by auto
  with Cons.IH [of k'] k show ?case by auto
qed

lemma version_range:
  assumes "version_lower i \<le> k" "k < version_upper i"
  shows "\<exists>r. k = CHR ''R'' # sub_version # i @ r"
  using between_prefix [of "version_lower i" k] assms
  by (auto simp: version_lower_def version_upper_def art_key_def)

lemma version_range_sub: "version_lower i \<le> k \<Longrightarrow> k < version_upper i \<Longrightarrow> key_sub k = sub_version"
  using version_range [of i k] by (auto simp: key_sub_def)

lemma not_in_version_range [simp]:
  assumes "key_sub k \<noteq> sub_version"
  shows "(version_lower i \<le> k \<and> k < version_upper i) = False"
  using assms version_range_sub by blast

text \<open>The ranges of two ids are disjoint: ids have one length.\<close>

lemma version_range_disjoint:
  assumes "valid_id i" "valid_id j" "i \<noteq> j" "version_lower i \<le> k" "k < version_upper i"
  shows "\<not> (version_lower j \<le> k \<and> k < version_upper j)"
proof
  assume "version_lower j \<le> k \<and> k < version_upper j"
  with version_range obtain r where "k = CHR ''R'' # sub_version # j @ r" by blast
  moreover from version_range [OF assms(4,5)] obtain r' where "k = CHR ''R'' # sub_version # i @ r'" by blast
  ultimately have "i @ r' = j @ r" by simp
  with assms(1,2) have "i = j" by (simp add: valid_id_length)
  with assms(3) show False by simp
qed

text \<open>A version key lies in its id's range while its number is below \<open>0xFF * 2^56\<close>; so every version of
  a history of fewer than \<open>2^63\<close> writes does.\<close>

lemma be_bytes_Suc_first: "n < 256 ^ Suc k \<Longrightarrow> \<exists>r. be_bytes (Suc k) n = char_of (n div 256 ^ k) # r"
proof (induction k arbitrary: n)
  case 0
  then show ?case by simp
next
  case (Suc k)
  have "n div 256 < 256 ^ Suc k" using Suc.prems by (simp add: less_mult_imp_div_less mult.commute)
  from Suc.IH [OF this] obtain r where "be_bytes (Suc k) (n div 256) = char_of (n div 256 div 256 ^ k) # r" by blast
  then show ?case by (simp add: div_mult2_eq [symmetric])
qed

lemma version_key_in_range:
  assumes "0 \<le> v" "v < 2 ^ 63"
  shows "version_lower i \<le> version_key i v" "version_key i v < version_upper i"
proof -
  define n where "n = nat (v mod 2 ^ 64)"
  have v: "v mod 2 ^ 64 = v" using assms by simp
  have n: "n < 2 ^ 63" using assms v by (simp add: n_def nat_less_iff)
  then have "n < 256 ^ Suc 7" by simp
  from be_bytes_Suc_first [OF this] obtain r where "be_bytes (Suc 7) n = char_of (n div 256 ^ 7) # r" ..
  moreover have "Suc 7 = (8 :: nat)" by simp
  ultimately have r: "be64 n = char_of (n div 256 ^ 7) # r" unfolding be64_def by simp
  have "n div 256 ^ 7 < 255" using n by (simp add: div_less_iff_less_mult)
  then have "(char_of (n div 256 ^ 7) :: char) < CHR 0xFF" by (simp add: char_less_val)
  then have lt: "char_of (n div 256 ^ 7) # r < [CHR 0xFF]" by simp
  have "q \<le> q @ x" for q x :: bytes
    using list_append_le_cancel [of q "[]" x] by simp
  then show "version_lower i \<le> version_key i v"
    unfolding version_key_def version_lower_def .
  show "version_key i v < version_upper i"
    unfolding version_key_def version_upper_def list_append_less_cancel
    using lt unfolding n_def [symmetric] r .
qed

section \<open>Reading by key\<close>

lemma at_cong:
  "fmlookup db' (record_key i) = fmlookup db (record_key i) \<Longrightarrow> rec_at db' i = rec_at db i"
  "fmlookup db' (slug_key s) = fmlookup db (slug_key s) \<Longrightarrow> slug_at db' s = slug_at db s"
  "fmlookup db' (topic_key t) = fmlookup db (topic_key t) \<Longrightarrow> claim_at db' t = claim_at db t"
  "fmlookup db' (embedding_key i) = fmlookup db (embedding_key i) \<Longrightarrow> rows_at d db' i = rows_at d db i"
  "fmlookup db' (fingerprint_key i) = fmlookup db (fingerprint_key i) \<Longrightarrow> fp_at d db' i = fp_at d db i"
  "fmlookup db' (fingerprint_key i) = fmlookup db (fingerprint_key i) \<Longrightarrow> fp_other_at d db' i = fp_other_at d db i"
  "fmlookup db' (counters_key i) = fmlookup db (counters_key i) \<Longrightarrow> counters_at db' i = counters_at db i"
  "fmlookup db' (meta_key ''golive'') = fmlookup db (meta_key ''golive'') \<Longrightarrow> golive_at db' = golive_at db"
  by (simp_all add: rec_at_def slug_at_def claim_at_def rows_at_def fp_at_def fp_other_at_def counters_at_def
      golive_at_def)

lemma mirrorsD:
  assumes "mirrors d db ix"
  shows "map_option norm_rec (fmlookup (ix_recs ix) i) = rec_at db i"
    and "fmlookup (ix_slugs ix) s = slug_at db s"
    and "fmlookup (ix_claims ix) t = claim_at db t"
    and "fmlookup (ix_rows ix) i = (if live_content ix i then rows_at d db i else None)"
    and "fmlookup (ix_fps ix) i = fp_at d db i"
    and "i |\<in>| ix_fp_other ix \<longleftrightarrow> fp_other_at d db i"
    and "fmlookup (ix_full_slugs ix) i = full_slug_of d (fmlookup (ix_recs ix) i)"
    and "ix_golive ix = golive_at db"
  using assms by (simp_all add: mirrors_def)

lemma mirrors_rec_id:
  assumes "mirrors d db ix" "fmlookup (ix_recs ix) i = Some r"
  shows "r_id r = i" "valid_id i"
proof -
  have "rec_at db i = Some (norm_rec r)" using mirrorsD(1) [OF assms(1), of i] assms(2) by simp
  then have "r_id (norm_rec r) = i \<and> valid_id i"
    by (auto simp: rec_at_def Let_def split: if_splits option.splits rdoc.splits)
  then show "r_id r = i" "valid_id i" by simp_all
qed

lemma rec_at_stored:
  assumes "valid_id i" "r_id r = i" "shape_ok r" "fmlookup db (record_key i) = Some (DRecord (marshal_record r))"
  shows "rec_at db i = Some (norm_rec r)"
  using assms by (simp add: rec_at_def decode_marshal)

section \<open>Batches\<close>

lemma lookup_record_ops:
  "fmlookup (apply_batch (record_ops i pl) db) k =
     (if \<exists>t \<in> set (pn_claims pl). k = topic_key t then Some (DTopic i)
      else if pn_create pl \<and> k = slug_key (r_slug (pn_rec pl)) then Some (DSlug \<lparr>sl_id = i, sl_canonical = True\<rparr>)
      else if k = record_key i then Some (DRecord (marshal_record (pn_rec pl))) else fmlookup db k)"
proof -
  have c: "fmlookup (apply_batch (map (\<lambda>t. BSet (topic_key t) (DTopic i)) ts) db) k
      = (if \<exists>t \<in> set ts. k = topic_key t then Some (DTopic i) else fmlookup db k)" for ts db
    by (induction ts arbitrary: db) auto
  show ?thesis by (auto simp: record_ops_def c)
qed

lemma lookup_dels:
  "fmlookup (apply_batch (map (\<lambda>x. BDel (f x)) xs) db) k = (if k \<in> f ` set xs then None else fmlookup db k)"
  by (induction xs arbitrary: db) auto

lemma lookup_prune:
  assumes "prune_versions e db0 i v = Some ops" "key_sub k \<noteq> sub_version"
  shows "fmlookup (apply_batch ops db) k = fmlookup db k"
proof -
  obtain vs where "ops = map (\<lambda>v. BDel (version_key i v)) vs"
    using assms(1) by (auto simp: prune_versions_def Let_def split: if_splits)
  with assms(2) show ?thesis by (auto simp: lookup_dels)
qed

lemma lookup_commit_ops:
  assumes "commit_ops e d db0 i pl rows = Some ops" "key_sub k \<noteq> sub_version"
  shows "fmlookup (apply_batch ops db) k =
    (if pn_content pl \<and> k = embedding_key i then Some (emb_doc (embedder_shape d) rows)
     else fmlookup (apply_batch (record_ops i pl) db) k)"
proof -
  have n: "k \<noteq> version_key i v" for v using assms(2) by auto
  have l: "fmlookup (apply_batch (record_ops i pl @ (if pn_content pl
        then [BSet (embedding_key i) (emb_doc (embedder_shape d) rows)] else [])) db) k =
    (if pn_content pl \<and> k = embedding_key i then Some (emb_doc (embedder_shape d) rows)
     else fmlookup (apply_batch (record_ops i pl) db) k)" by simp
  from assms(1) show ?thesis
    using l n assms(2) lookup_prune by (auto simp: commit_ops_def Let_def split: option.splits if_splits)
qed

lemma fold_upd_claims:
  "fmlookup (fold (\<lambda>t m. fmupd t i m) ts m) k = (if k \<in> set ts then Some i else fmlookup m k)"
  by (induction ts arbitrary: m) auto

end
