(* ===== verification/ArtInv.thy ===== *)
theory ArtInv
  imports ArtMirror
begin

text \<open>
  The invariant of the article store and its preservation by the writers of \<open>ArtCommit\<close> and \<open>ArtModerate\<close>:
  the index mirrors the database, slugs and topic claims belong to exactly one record, nothing of the content
  of a taken-down record remains, and no staging record survives the go-live.
\<close>

section \<open>The invariant\<close>

definition status_ok :: "rec \<Rightarrow> bool" where
  "status_ok r = (r_status r \<in> {st_pending, st_published, st_held, st_rejected, st_tombstoned}
     \<and> (r_residue r \<longrightarrow> converts r) \<and> (r_status r = st_tombstoned \<longrightarrow> r_residue r))"

definition rec_ok :: "rec \<Rightarrow> bool" where
  "rec_ok r = (shape_ok r \<and> status_ok r)"

fun doc_ok :: "rdoc \<Rightarrow> bool" where
  "doc_ok (DEmb m n rows) = list_all (\<lambda>rw. length (rw_vec rw) = n) rows"
| "doc_ok (DFp m n v) = (length v = n)"
| "doc_ok _ = True"

text \<open>No vectors, read counters or versions are stored for an id.\<close>

definition erased_at :: "rdoc kv \<Rightarrow> bytes \<Rightarrow> bool" where
  "erased_at db i = (fmlookup db (embedding_key i) = None \<and> fmlookup db (counters_key i) = None
     \<and> (\<forall>k. version_lower i \<le> k \<and> k < version_upper i \<longrightarrow> fmlookup db k = None))"

definition canonical :: "bytes \<Rightarrow> slug_entry" where
  "canonical i = \<lparr>sl_id = i, sl_canonical = True\<rparr>"

definition store_ok :: "rdoc kv \<Rightarrow> index \<Rightarrow> bool" where
  "store_ok db ix =
     ((\<forall>i r. fmlookup (ix_recs ix) i = Some r \<longrightarrow> rec_ok r \<and> fmlookup (ix_slugs ix) (r_slug r) = Some (canonical i)
         \<and> (\<forall>t \<in> set (r_topics r). fmlookup (ix_claims ix) t = Some i))
      \<and> (ix_golive ix \<noteq> None \<longrightarrow> (\<forall>i r. fmlookup (ix_recs ix) i = Some r \<longrightarrow> \<not> r_prelive r))
      \<and> (\<forall>i. valid_id i \<and> \<not> live_content ix i \<longrightarrow> erased_at db i)
      \<and> (\<forall>k v. fmlookup db k = Some v \<longrightarrow> doc_ok v))"

definition art_inv :: "deps \<Rightarrow> art_store \<Rightarrow> bool" where
  "art_inv d s = (mirrors d (as_db s) (as_idx s) \<and> store_ok (as_db s) (as_idx s))"

lemma store_okD:
  assumes "store_ok db ix"
  shows "fmlookup (ix_recs ix) i = Some r \<Longrightarrow> rec_ok r"
    and "fmlookup (ix_recs ix) i = Some r \<Longrightarrow> fmlookup (ix_slugs ix) (r_slug r) = Some (canonical i)"
    and "fmlookup (ix_recs ix) i = Some r \<Longrightarrow> t \<in> set (r_topics r) \<Longrightarrow> fmlookup (ix_claims ix) t = Some i"
    and "ix_golive ix \<noteq> None \<Longrightarrow> fmlookup (ix_recs ix) i = Some r \<Longrightarrow> \<not> r_prelive r"
    and "valid_id i \<Longrightarrow> \<not> live_content ix i \<Longrightarrow> erased_at db i"
    and "fmlookup db k = Some v \<Longrightarrow> doc_ok v"
  using assms unfolding store_ok_def by blast+

lemma emb_doc_ok [simp]: "doc_ok (emb_doc sh rows)"
  by (simp add: emb_doc_def)

lemma fp_doc_ok [simp]: "doc_ok (fp_doc m n v)"
  by (simp add: fp_doc_def)

lemma current_shape [simp]: "current_model d (fst (embedder_shape d)) (snd (embedder_shape d))"
  by (simp add: current_model_def)

section \<open>Writing a planned record\<close>

text \<open>What the writer relies on a plan for.\<close>

definition good_plan :: "index \<Rightarrow> bytes \<Rightarrow> plan \<Rightarrow> bool" where
  "good_plan ix i pl = (let r = pn_rec pl in
     r_id r = i \<and> rec_ok r \<and> \<not> r_residue r \<and> pn_prev pl = fmlookup (ix_recs ix) i
     \<and> pn_create pl = (fmlookup (ix_recs ix) i = None)
     \<and> (\<forall>pv. fmlookup (ix_recs ix) i = Some pv \<longrightarrow> r_slug r = r_slug pv \<and> r_prelive r = r_prelive pv
          \<and> set (r_topics r) = set (r_topics pv) \<union> set (pn_claims pl) \<and> \<not> r_residue pv)
     \<and> (fmlookup (ix_recs ix) i = None \<longrightarrow> set (r_topics r) = set (pn_claims pl)
          \<and> slug_free (ix_slugs ix) (r_slug r) \<and> r_slug r \<noteq> [] \<and> (ix_golive ix \<noteq> None \<longrightarrow> \<not> r_prelive r))
     \<and> (\<forall>t \<in> set (pn_claims pl). topic_pattern t) \<and> claim_conflict ix i (pn_claims pl) = None)"

lemma good_planD:
  assumes "good_plan ix i pl"
  shows "r_id (pn_rec pl) = i" "rec_ok (pn_rec pl)" "\<not> r_residue (pn_rec pl)" "pn_prev pl = fmlookup (ix_recs ix) i"
    "pn_create pl = (fmlookup (ix_recs ix) i = None)"
    "fmlookup (ix_recs ix) i = Some pv \<Longrightarrow> r_slug (pn_rec pl) = r_slug pv"
    "fmlookup (ix_recs ix) i = Some pv \<Longrightarrow> r_prelive (pn_rec pl) = r_prelive pv"
    "fmlookup (ix_recs ix) i = Some pv \<Longrightarrow> set (r_topics (pn_rec pl)) = set (r_topics pv) \<union> set (pn_claims pl)"
    "fmlookup (ix_recs ix) i = Some pv \<Longrightarrow> \<not> r_residue pv"
    "fmlookup (ix_recs ix) i = None \<Longrightarrow> set (r_topics (pn_rec pl)) = set (pn_claims pl)"
    "fmlookup (ix_recs ix) i = None \<Longrightarrow> slug_free (ix_slugs ix) (r_slug (pn_rec pl))"
    "fmlookup (ix_recs ix) i = None \<Longrightarrow> r_slug (pn_rec pl) \<noteq> []"
    "fmlookup (ix_recs ix) i = None \<Longrightarrow> ix_golive ix \<noteq> None \<Longrightarrow> \<not> r_prelive (pn_rec pl)"
    "t \<in> set (pn_claims pl) \<Longrightarrow> topic_pattern t" "claim_conflict ix i (pn_claims pl) = None"
  using assms unfolding good_plan_def Let_def by blast+

lemma claim_conflict_None:
  assumes "claim_conflict ix i ts = None" "t \<in> set ts" "fmlookup (ix_claims ix) t = Some j"
    and "fmlookup (ix_recs ix) j = Some r" "j \<noteq> []"
  shows "j = i"
  using assms
proof (induction ix i ts rule: claim_conflict.induct)
  case (1 ix i)
  then show ?case by simp
next
  case (2 ix i t' ts)
  show ?case
  proof (cases "t = t'")
    case True
    with 2 show ?thesis by (auto split: option.splits if_splits)
  next
    case False
    with 2 show ?thesis by (auto split: option.splits if_splits)
  qed
qed

lemma index_put_simps [simp]:
  "fmlookup (ix_recs (index_put d i pl ix)) j = (if j = r_id (pn_rec pl) then Some (pn_rec pl) else fmlookup (ix_recs ix) j)"
  "fmlookup (ix_slugs (index_put d i pl ix)) s =
     (if pn_create pl \<and> s = r_slug (pn_rec pl) then Some (canonical i) else fmlookup (ix_slugs ix) s)"
  "fmlookup (ix_claims (index_put d i pl ix)) t = (if t \<in> set (pn_claims pl) then Some i else fmlookup (ix_claims ix) t)"
  "ix_rows (index_put d i pl ix) = ix_rows ix" "ix_fps (index_put d i pl ix) = ix_fps ix"
  "ix_fp_other (index_put d i pl ix) = ix_fp_other ix" "ix_golive (index_put d i pl ix) = ix_golive ix"
  "fmlookup (ix_full_slugs (index_put d i pl ix)) j =
     (if j = r_id (pn_rec pl) then full_slug_of d (Some (pn_rec pl)) else fmlookup (ix_full_slugs ix) j)"
  by (auto simp: index_put_def Let_def fold_upd_claims canonical_def put_record_def full_slug_of_def)

text \<open>A batch that only writes under the id's own keys.\<close>

definition put_effect :: "deps \<Rightarrow> bytes \<Rightarrow> plan \<Rightarrow> row list option \<Rightarrow> rdoc kv \<Rightarrow> rdoc kv \<Rightarrow> bool" where
  "put_effect d i pl rows db db' =
     ((\<forall>k. key_sub k \<noteq> sub_version \<longrightarrow> fmlookup db' k =
         (case rows of Some rs \<Rightarrow> if k = embedding_key i then Some (emb_doc (embedder_shape d) rs)
              else fmlookup (apply_batch (record_ops i pl) db) k
          | None \<Rightarrow> fmlookup (apply_batch (record_ops i pl) db) k))
      \<and> (\<forall>k v. fmlookup db' k = Some v \<longrightarrow> doc_ok v)
      \<and> (\<forall>j. valid_id j \<and> j \<noteq> i \<longrightarrow> (\<forall>k. version_lower j \<le> k \<and> k < version_upper j \<longrightarrow> fmlookup db' k = fmlookup db k)))"

definition with_rows :: "bytes \<Rightarrow> row list option \<Rightarrow> index \<Rightarrow> index" where
  "with_rows i rows ix = (case rows of None \<Rightarrow> ix | Some rs \<Rightarrow> ix\<lparr>ix_rows := fmupd i rs (ix_rows ix)\<rparr>)"

lemma with_rows_simps [simp]:
  "ix_recs (with_rows i rows ix) = ix_recs ix" "ix_slugs (with_rows i rows ix) = ix_slugs ix"
  "ix_claims (with_rows i rows ix) = ix_claims ix" "ix_fps (with_rows i rows ix) = ix_fps ix"
  "ix_fp_other (with_rows i rows ix) = ix_fp_other ix" "ix_full_slugs (with_rows i rows ix) = ix_full_slugs ix"
  "ix_golive (with_rows i rows ix) = ix_golive ix"
  "fmlookup (ix_rows (with_rows i rows ix)) j = (if j = i \<and> rows \<noteq> None then rows else fmlookup (ix_rows ix) j)"
  by (auto simp: with_rows_def split: option.splits)

lemma put_mirrors:
  assumes m: "mirrors d db ix" and ok: "store_ok db ix" and g: "good_plan ix i pl" and v: "valid_id i"
    and e: "put_effect d i pl rows db db'"
    and len: "rows \<noteq> None \<Longrightarrow> list_all (\<lambda>rw. length (rw_vec rw) = snd (embedder_shape d)) (the rows)"
  shows "mirrors d db' (with_rows i rows (index_put d i pl ix))" (is "mirrors d db' ?ix")
proof -
  note gp = good_planD [OF g]
  have l: "fmlookup db' k = (if rows \<noteq> None \<and> k = embedding_key i then Some (emb_doc (embedder_shape d) (the rows))
      else fmlookup (apply_batch (record_ops i pl) db) k)" if "key_sub k \<noteq> sub_version" for k
    using e that by (auto simp: put_effect_def split: option.splits)
  have live: "live_content ?ix j = (if j = i then True else live_content ix j)" for j
    using gp(1,3) by (auto simp: live_content_def)
  have recs: "map_option norm_rec (fmlookup (ix_recs ?ix) j) = rec_at db' j" for j
  proof (cases "j = i")
    case True
    have "fmlookup db' (record_key i) = Some (DRecord (marshal_record (pn_rec pl)))"
      by (simp add: l lookup_record_ops)
    then have "rec_at db' i = Some (norm_rec (pn_rec pl))"
      using rec_at_stored [OF v gp(1)] gp(2) by (simp add: rec_ok_def)
    with True show ?thesis using gp(1) by simp
  next
    case False
    have "fmlookup db' (record_key j) = fmlookup db (record_key j)" using False by (simp add: l lookup_record_ops)
    from at_cong(1) [OF this] show ?thesis using False gp(1) mirrorsD(1) [OF m] by simp
  qed
  have slugs: "fmlookup (ix_slugs ?ix) s = slug_at db' s" for s
  proof (cases "pn_create pl \<and> s = r_slug (pn_rec pl)")
    case True
    then have "fmlookup db' (slug_key s) = Some (DSlug (canonical i))"
      by (simp add: l lookup_record_ops canonical_def)
    moreover have "s \<noteq> []" using True gp(5,12) by simp
    ultimately show ?thesis using True by (simp add: slug_at_def)
  next
    case False
    then have "fmlookup db' (slug_key s) = fmlookup db (slug_key s)" by (auto simp: l lookup_record_ops)
    from at_cong(2) [OF this] False show ?thesis using mirrorsD(2) [OF m] by auto
  qed
  have claims: "fmlookup (ix_claims ?ix) t = claim_at db' t" for t
  proof (cases "t \<in> set (pn_claims pl)")
    case True
    then have "fmlookup db' (topic_key t) = Some (DTopic i)" by (auto simp: l lookup_record_ops)
    with True gp(14) show ?thesis by (simp add: claim_at_def)
  next
    case False
    then have "fmlookup db' (topic_key t) = fmlookup db (topic_key t)" by (auto simp: l lookup_record_ops)
    from at_cong(3) [OF this] False show ?thesis using mirrorsD(3) [OF m] by simp
  qed
  have emb: "rows_at d db' j = (if j = i \<and> rows \<noteq> None then rows else rows_at d db j)" for j
  proof (cases "j = i \<and> rows \<noteq> None")
    case True
    then have "fmlookup db' (embedding_key j) = Some (DEmb (fst (embedder_shape d)) (snd (embedder_shape d)) (the rows))"
      using len by (simp add: l emb_doc_def)
    with True v show ?thesis by (simp add: rows_at_def)
  next
    case False
    then have "fmlookup db' (embedding_key j) = fmlookup db (embedding_key j)" by (auto simp: l lookup_record_ops)
    from at_cong(4) [OF this] False show ?thesis by auto
  qed
  have rows: "fmlookup (ix_rows ?ix) j = (if live_content ?ix j then rows_at d db' j else None)" for j
  proof (cases "j = i \<and> \<not> live_content ix i")
    case True
    then have "erased_at db i" using store_okD(5) [OF ok v] by simp
    then have "rows_at d db i = None" by (simp add: erased_at_def rows_at_def)
    moreover have "fmlookup (ix_rows ix) i = None" using True mirrorsD(4) [OF m, of i] by simp
    ultimately show ?thesis using True live by (simp add: emb)
  next
    case False
    then show ?thesis using live mirrorsD(4) [OF m, of j] by (auto simp: emb)
  qed
  have fp: "fmlookup db' (fingerprint_key j) = fmlookup db (fingerprint_key j)" for j
    by (simp add: l lookup_record_ops)
  have gl: "fmlookup db' (meta_key ''golive'') = fmlookup db (meta_key ''golive'')"
    by (simp add: l lookup_record_ops)
  show ?thesis
    unfolding mirrors_def
    using recs slugs claims rows gp(1) mirrorsD(5-8) [OF m] at_cong(5,6) [OF fp] at_cong(8) [OF gl] by simp
qed

lemma put_store_ok:
  assumes m: "mirrors d db ix" and ok: "store_ok db ix" and g: "good_plan ix i pl" and v: "valid_id i"
    and e: "put_effect d i pl rows db db'"
  shows "store_ok db' (with_rows i rows (index_put d i pl ix))" (is "store_ok db' ?ix")
proof -
  note gp = good_planD [OF g]
  have l: "fmlookup db' k = fmlookup db k" if "key_sub k \<in> {sub_embedding, sub_counters}" "k \<noteq> embedding_key i" for k
  proof -
    have "key_sub k \<noteq> sub_version" "k \<noteq> record_key j" "k \<noteq> slug_key s" "k \<noteq> topic_key t" for j s t
      using that(1) by auto
    then show ?thesis using e that(2) by (auto simp: put_effect_def lookup_record_ops split: option.splits)
  qed
  have dup: "j = i" if "fmlookup (ix_recs ix) j = Some r" "t \<in> set (r_topics r)" "t \<in> set (pn_claims pl)" for j r t
  proof -
    have "fmlookup (ix_claims ix) t = Some j" using store_okD(3) [OF ok that(1,2)] .
    moreover have "j \<noteq> []" using mirrors_rec_id(2) [OF m that(1)] by auto
    ultimately show ?thesis using claim_conflict_None [OF gp(15) that(3) _ that(1)] by blast
  qed
  have taken: "r_slug (pn_rec pl) \<noteq> r_slug r" if "fmlookup (ix_recs ix) j = Some r" "pn_create pl" for j r
    using store_okD(2) [OF ok that(1)] gp(5,11) that(2) by (auto simp: slug_free_def)
  have recs: "rec_ok r \<and> fmlookup (ix_slugs ?ix) (r_slug r) = Some (canonical j)
      \<and> (\<forall>t \<in> set (r_topics r). fmlookup (ix_claims ?ix) t = Some j)"
    if "fmlookup (ix_recs ?ix) j = Some r" for j r
  proof (cases "j = i")
    case True
    with that gp(1) have r: "r = pn_rec pl" by simp
    show ?thesis
    proof (cases "fmlookup (ix_recs ix) i")
      case None
      with r True gp(2,5,10) show ?thesis by auto
    next
      case (Some pv)
      have c: "\<not> pn_create pl" using gp(5) Some by simp
      have t: "fmlookup (ix_claims ?ix) t = Some i" if "t \<in> set (r_topics (pn_rec pl))" for t
        using that gp(8) [OF Some] store_okD(3) [OF ok Some] by auto
      show ?thesis using r True gp(2) gp(6) [OF Some] c t store_okD(2) [OF ok Some] by auto
    qed
  next
    case False
    with that gp(1) have o: "fmlookup (ix_recs ix) j = Some r" by simp
    have "fmlookup (ix_claims ?ix) t = Some j" if t: "t \<in> set (r_topics r)" for t
      using dup [OF o t] False store_okD(3) [OF ok o t] by auto
    then show ?thesis using store_okD(1,2) [OF ok o] taken [OF o] by auto
  qed
  have gl: "\<not> r_prelive r" if "ix_golive ?ix \<noteq> None" "fmlookup (ix_recs ?ix) j = Some r" for j r
  proof (cases "j = i")
    case True
    with that gp(1) have r: "r = pn_rec pl" by simp
    show ?thesis
    proof (cases "fmlookup (ix_recs ix) i")
      case None
      then show ?thesis using gp(13) that(1) r by simp
    next
      case (Some pv)
      have "ix_golive ix \<noteq> None" using that(1) by simp
      from store_okD(4) [OF ok this Some] gp(7) [OF Some] r show ?thesis by simp
    qed
  next
    case False
    with that gp(1) show ?thesis using store_okD(4) [OF ok] by simp
  qed
  have er: "erased_at db' j" if j: "valid_id j" "\<not> live_content ?ix j" for j
  proof -
    have ji: "j \<noteq> i" "\<not> live_content ix j" using j gp(1,3) by (auto simp: live_content_def split: if_splits)
    from store_okD(5) [OF ok j(1) ji(2)] have "erased_at db j" .
    moreover have "fmlookup db' (embedding_key j) = fmlookup db (embedding_key j)"
      "fmlookup db' (counters_key j) = fmlookup db (counters_key j)"
      using ji(1) by (auto intro!: l)
    moreover have "\<forall>k. version_lower j \<le> k \<and> k < version_upper j \<longrightarrow> fmlookup db' k = fmlookup db k"
      using e j(1) ji(1) by (simp add: put_effect_def)
    ultimately show ?thesis by (auto simp: erased_at_def)
  qed
  have "\<forall>k v. fmlookup db' k = Some v \<longrightarrow> doc_ok v" using e by (simp add: put_effect_def)
  with recs gl er show ?thesis unfolding store_ok_def by blast
qed

text \<open>The batches of the two writers have this effect.\<close>

lemma version_key_other:
  assumes "valid_id i" "valid_id j" "j \<noteq> i"
  shows "\<not> (version_lower j \<le> version_key i v \<and> version_key i v < version_upper j)"
proof
  assume "version_lower j \<le> version_key i v \<and> version_key i v < version_upper j"
  then obtain r where "version_key i v = CHR ''R'' # sub_version # j @ r" using version_range by blast
  then have "i @ be64 (nat (v mod 2 ^ 64)) = j @ r" by (simp add: version_key_def art_key_def)
  with assms(1,2) have "i = j" by (simp add: valid_id_length)
  with assms(3) show False by simp
qed

lemma record_ops_effect:
  assumes "store_ok db ix"
  shows "put_effect d i pl None db (apply_batch (record_ops i pl) db)"
proof -
  have "doc_ok v" if "fmlookup (apply_batch (record_ops i pl) db) k = Some v" for k v
    using that store_okD(6) [OF assms] by (auto simp: lookup_record_ops split: if_splits)
  moreover have "fmlookup (apply_batch (record_ops i pl) db) k = fmlookup db k"
    if "version_lower j \<le> k" "k < version_upper j" for j k
  proof -
    have "key_sub k = sub_version" using version_range_sub that by blast
    then show ?thesis by (auto simp: lookup_record_ops)
  qed
  ultimately show ?thesis unfolding put_effect_def by auto
qed

lemma commit_ops_effect:
  assumes ok: "store_ok db ix" and v: "valid_id i" and c: "commit_ops e d db i pl rows = Some ops"
  shows "put_effect d i pl (if pn_content pl then Some rows else None) db (apply_batch ops db)"
proof -
  define ops0 where "ops0 = record_ops i pl
        @ (if pn_content pl then [BSet (embedding_key i) (emb_doc (embedder_shape d) rows)] else [])"
  obtain vops where ops: "ops = ops0 @ vops"
    and vops: "\<And>b. b \<in> set vops \<Longrightarrow> (\<exists>v r. b = BSet (version_key i v) (DRecord r)) \<or> (\<exists>v. b = BDel (version_key i v))"
  proof -
    have p: "\<exists>v. b = BDel (version_key i v)" if "prune_versions e db i w = Some del" "b \<in> set del" for w del b
      using that by (auto simp: prune_versions_def Let_def split: if_splits)
    have "\<exists>vops. ops = ops0 @ vops \<and> (\<forall>b \<in> set vops. (\<exists>v r. b = BSet (version_key i v) (DRecord r)) \<or> (\<exists>v. b = BDel (version_key i v)))"
      using c p unfolding commit_ops_def Let_def ops0_def [symmetric]
      by (auto split: option.splits if_splits)
    with that show ?thesis by blast
  qed
  have un: "fmlookup (apply_batch vops m) k = fmlookup m k" if "\<And>v. k \<noteq> version_key i v" for k m
    by (rule lookup_batch_untouched) (use vops that in force)
  have dv: "doc_ok x" if "fmlookup (apply_batch vops m) k = Some x" "\<And>x. fmlookup m k = Some x \<Longrightarrow> doc_ok x" for k m x
    using that vops
  proof (induction vops arbitrary: m)
    case Nil
    then show ?case by simp
  next
    case (Cons b bs)
    then have b: "(\<exists>v r. b = BSet (version_key i v) (DRecord r)) \<or> (\<exists>v. b = BDel (version_key i v))" by simp
    from Cons.prems(1) have "fmlookup (apply_batch bs (apply_bop b m)) k = Some x" by simp
    moreover have "doc_ok y" if "fmlookup (apply_bop b m) k = Some y" for y
      using b that Cons.prems(2) by (auto split: if_splits)
    ultimately show ?case using Cons.IH Cons.prems(3) by (meson list.set_intros(2))
  qed
  have l0: "fmlookup (apply_batch ops0 db) k = (if pn_content pl \<and> k = embedding_key i
      then Some (emb_doc (embedder_shape d) rows) else fmlookup (apply_batch (record_ops i pl) db) k)" for k
    by (simp add: ops0_def)
  have "doc_ok x" if "fmlookup (apply_batch ops db) k = Some x" for k x
  proof (rule dv)
    show "fmlookup (apply_batch vops (apply_batch ops0 db)) k = Some x" using that ops by simp
    show "doc_ok y" if "fmlookup (apply_batch ops0 db) k = Some y" for y
      using that record_ops_effect [OF ok, of d i pl] unfolding put_effect_def l0 by (auto split: if_splits)
  qed
  moreover have "fmlookup (apply_batch ops db) k = fmlookup db k"
    if j: "valid_id j" "j \<noteq> i" "version_lower j \<le> k" "k < version_upper j" for j k
  proof -
    have "k \<noteq> version_key i v" for v using version_key_other [OF v j(1,2)] j(3,4) by blast
    then have "fmlookup (apply_batch ops db) k = fmlookup (apply_batch ops0 db) k" by (simp add: ops un)
    moreover have "k \<noteq> embedding_key i" using version_range_sub [OF j(3,4)] by auto
    ultimately show ?thesis using record_ops_effect [OF ok, of d i pl] j
      unfolding put_effect_def l0 by auto
  qed
  moreover have "fmlookup (apply_batch ops db) k = fmlookup (apply_batch ops0 db) k" if "key_sub k \<noteq> sub_version" for k
  proof -
    have "k \<noteq> version_key i v" for v using that by auto
    then show ?thesis by (simp add: ops un)
  qed
  ultimately show ?thesis unfolding put_effect_def l0 by auto
qed

end
