(* ===== verification/ArtPut.thy ===== *)
theory ArtPut
  imports ArtInv
begin

text \<open>
  The PUT and DELETE writers keep the invariant: a plan that passed the checks of \<open>planArticle\<close> or
  \<open>planStub\<close> is a good plan for the index it was made on.
\<close>

section \<open>What validation has established\<close>

definition body_ok :: "deps \<Rightarrow> put_body \<Rightarrow> bool" where
  "body_ok d b = (pb_status b \<in> {Some st_published, Some st_held} \<and> pb_models b \<noteq> None \<and> pb_build b \<noteq> None
     \<and> slugify d (pb_title b) \<noteq> [] \<and> (\<forall>t \<in> set (pb_topics b). topic_pattern t))"

definition stub_ok :: "deps \<Rightarrow> stub_body \<Rightarrow> bool" where
  "stub_ok d b = (slugify d (sb_title b) \<noteq> [] \<and> (\<exists>ts. sb_topics b = Some ts \<and> (\<forall>t \<in> set ts. topic_pattern t)))"

definition vecs_ok :: "deps \<Rightarrow> (bytes, vec) fmap \<Rightarrow> bool" where
  "vecs_ok d vecs = (\<forall>t v. fmlookup vecs t = Some v \<longrightarrow> length v = snd (embedder_shape d))"

section \<open>Records after a write\<close>

lemma set_status_simps [simp]:
  "r_id (set_status st ts r) = r_id r" "r_slug (set_status st ts r) = r_slug r"
  "r_base_slug (set_status st ts r) = r_base_slug r" "r_title (set_status st ts r) = r_title r"
  "r_status (set_status st ts r) = st" "r_residue (set_status st ts r) = r_residue r"
  "r_prelive (set_status st ts r) = r_prelive r" "r_topics (set_status st ts r) = r_topics r"
  "r_aliases (set_status st ts r) = r_aliases r" "r_lead (set_status st ts r) = r_lead r"
  "r_reason (set_status st ts r) = r_reason r" "r_tombstoned_at (set_status st ts r) = r_tombstoned_at r"
  "r_version (set_status st ts r) = r_version r"
  by (simp_all add: set_status_def)

lemma rec_ok_article:
  assumes "\<not> r_residue r" "r_status r \<in> {st_published, st_held, st_rejected}" "r_reason r = []" "r_tombstoned_at r = []"
  shows "rec_ok r"
  using assms by (auto simp: rec_ok_def shape_ok_def status_ok_def)

lemma rec_okD:
  assumes "rec_ok r"
  shows "\<not> converts r \<Longrightarrow> \<not> r_residue r" "\<not> r_residue r \<Longrightarrow> r_reason r = [] \<and> r_tombstoned_at r = []"
    "r_status r = st_tombstoned \<Longrightarrow> r_residue r" "r_residue r \<Longrightarrow> converts r"
    "r_status r \<in> {st_pending, st_published, st_held, st_rejected, st_tombstoned}"
proof -
  show "\<not> r_residue r \<Longrightarrow> r_reason r = [] \<and> r_tombstoned_at r = []"
  proof (cases "r_status r = st_pending")
    case True
    assume "\<not> r_residue r"
    with True assms have "r = zero_rec\<lparr>r_schema := r_schema r, r_id := r_id r, r_slug := r_slug r,
        r_base_slug := r_base_slug r, r_title := r_title r,
        r_vertical := r_vertical r, r_status := r_status r, r_topics := r_topics r,
        r_version := r_version r, r_sha := r_sha r, r_created := r_created r,
        r_updated := r_updated r, r_status_at := r_status_at r, r_prelive := r_prelive r\<rparr>" (is "r = ?z")
      by (simp add: rec_ok_def shape_ok_def)
    then have "r_reason r = r_reason ?z" "r_tombstoned_at r = r_tombstoned_at ?z" by metis+
    then show ?thesis by (simp add: zero_rec_def)
  next
    case False
    assume "\<not> r_residue r"
    with False assms show ?thesis by (simp add: rec_ok_def shape_ok_def)
  qed
qed (use assms in \<open>auto simp: rec_ok_def status_ok_def\<close>)

lemma merge_body_spec:
  assumes "merge_body d i prev b = (r, new_topics, dr)"
  shows "r_title r = (case prev of None \<Rightarrow> pb_title b | Some pv \<Rightarrow> r_title pv)"
    and "r_id r = (case prev of None \<Rightarrow> i | Some pv \<Rightarrow> r_id pv)"
    and "r_slug r = (case prev of None \<Rightarrow> [] | Some pv \<Rightarrow> r_slug pv)"
    and "r_base_slug r = (case prev of None \<Rightarrow> [] | Some pv \<Rightarrow> r_base_slug pv)"
    and "r_prelive r = (case prev of None \<Rightarrow> False | Some pv \<Rightarrow> r_prelive pv)"
    and "r_residue r = (case prev of None \<Rightarrow> False | Some pv \<Rightarrow> r_residue pv)"
    and "r_reason r = (case prev of None \<Rightarrow> [] | Some pv \<Rightarrow> r_reason pv)"
    and "r_tombstoned_at r = (case prev of None \<Rightarrow> [] | Some pv \<Rightarrow> r_tombstoned_at pv)"
    and "set (r_topics r) = (case prev of None \<Rightarrow> {} | Some pv \<Rightarrow> set (r_topics pv)) \<union> set new_topics"
    and "set new_topics \<subseteq> set (pb_topics b)"
proof -
  define st :: "(rec \<Rightarrow> bytes list) \<Rightarrow> bytes list" where "st = (\<lambda>f. case prev of None \<Rightarrow> [] | Some p \<Rightarrow> f p)"
  define r0 where "r0 = (case prev of None \<Rightarrow> zero_rec\<lparr>r_schema := 1, r_id := i, r_title := pb_title b, r_ai := True\<rparr>
      | Some p \<Rightarrow> p\<lparr>r_ai := True\<rparr>)"
  obtain al x1 d1 where a: "merge_capped (st r_aliases) (pb_aliases b) 32 (\<lambda>a. a = r_title r0) = (al, x1, d1)"
    by (metis prod_cases3)
  obtain tp x2 d2 where t: "merge_capped (st r_topics) (pb_topics b) 256 (\<lambda>_. False) = (tp, x2, d2)"
    by (metis prod_cases3)
  obtain cl x3 d3 where c: "merge_capped (st r_clusters) (pb_clusters b) 64 (\<lambda>_. False) = (cl, x3, d3)"
    by (metis prod_cases3)
  note tm = merge_capped_spec(1,3) [OF t]
  note e = assms [unfolded merge_body_def, folded st_def r0_def, unfolded Let_def a t c prod.case]
  show "set (r_topics r) = (case prev of None \<Rightarrow> {} | Some pv \<Rightarrow> set (r_topics pv)) \<union> set new_topics"
    "set new_topics \<subseteq> set (pb_topics b)"
    using e tm by (auto simp: st_def split: option.splits)
  show "r_title r = (case prev of None \<Rightarrow> pb_title b | Some pv \<Rightarrow> r_title pv)"
    "r_id r = (case prev of None \<Rightarrow> i | Some pv \<Rightarrow> r_id pv)"
    "r_slug r = (case prev of None \<Rightarrow> [] | Some pv \<Rightarrow> r_slug pv)"
    "r_base_slug r = (case prev of None \<Rightarrow> [] | Some pv \<Rightarrow> r_base_slug pv)"
    "r_prelive r = (case prev of None \<Rightarrow> False | Some pv \<Rightarrow> r_prelive pv)"
    "r_residue r = (case prev of None \<Rightarrow> False | Some pv \<Rightarrow> r_residue pv)"
    "r_reason r = (case prev of None \<Rightarrow> [] | Some pv \<Rightarrow> r_reason pv)"
    "r_tombstoned_at r = (case prev of None \<Rightarrow> [] | Some pv \<Rightarrow> r_tombstoned_at pv)"
    using e by (auto simp: r0_def zero_rec_def split: option.splits)
qed

text \<open>The branches of \<open>planArticle\<close> that end in a plan.\<close>

lemma plan_changedE:
  assumes "plan_changed d ix p ts i b check prev r nt dr = Planned pl"
  obtains mo bu req result r' where "check = None" "pb_models b = Some mo" "pb_build b = Some bu" "pb_status b = Some req"
    "next_version d p ts prev b req (r\<lparr>r_models := mo, r_build := bu\<rparr>) = Inr (result, r')"
    "claim_conflict ix i nt = None" "result \<noteq> Updated \<longrightarrow> slug_blocker ix i (r_base_slug r') = None"
    "pl = \<lparr>pn_result = result, pn_rec = r', pn_prev = prev, pn_write = True, pn_content = True,
         pn_create = (result = Created), pn_claims = nt, pn_dropped = dr\<rparr>"
proof -
  note a = assms [unfolded plan_changed_def]
  obtain mo bu req where 1: "check = None" "pb_models b = Some mo" "pb_build b = Some bu" "pb_status b = Some req"
    using a by (auto split: option.splits)
  obtain result r' where 2: "next_version d p ts prev b req (r\<lparr>r_models := mo, r_build := bu\<rparr>) = Inr (result, r')"
    using a unfolding 1 by (auto split: sum.splits)
  have 3: "claim_conflict ix i nt = None" using a unfolding 1 by (simp add: 2 split: option.splits)
  have 4: "(if result \<noteq> Updated then slug_blocker ix i (r_base_slug r') else None) = None"
    using a unfolding 1 by (simp add: 2 3 split: option.splits if_splits)
  have "pl = \<lparr>pn_result = result, pn_rec = r', pn_prev = prev, pn_write = True, pn_content = True,
         pn_create = (result = Created), pn_claims = nt, pn_dropped = dr\<rparr>"
    using a 4 unfolding 1 by (simp add: 2 3)
  moreover have "result \<noteq> Updated \<longrightarrow> slug_blocker ix i (r_base_slug r') = None"
    using 4 by argo
  ultimately show ?thesis using that [OF 1 2 3] by blast
qed

lemma plan_articleE:
  assumes "plan_article d ix p ts i b check = Planned pl"
  obtains (unchanged) pv r nt dr where "fmlookup (ix_recs ix) i = Some pv" "plan_refusal p b pv = None"
      "r_status pv \<noteq> st_pending" "merge_body d i (Some pv) b = (r, nt, dr)" "r_sha r = r_sha pv"
      "pl = plan_same ts b pv dr"
  | (written) r nt dr where "merge_body d i (fmlookup (ix_recs ix) i) b = (r, nt, dr)"
      "\<forall>pv. fmlookup (ix_recs ix) i = Some pv \<longrightarrow> plan_refusal p b pv = None"
      "ix_golive ix = None \<or> pr_env p \<noteq> EnvStaging"
      "plan_changed d ix p ts i b check (fmlookup (ix_recs ix) i) r nt dr = Planned pl"
proof -
  obtain r nt dr where m: "merge_body d i (fmlookup (ix_recs ix) i) b = (r, nt, dr)" by (metis prod_cases3)
  have g: "ix_golive ix = None \<or> pr_env p \<noteq> EnvStaging"
    using assms by (auto simp: plan_article_def split: if_splits)
  show ?thesis
  proof (cases "fmlookup (ix_recs ix) i")
    case None
    have "plan_changed d ix p ts i b check None r nt dr = Planned pl"
      using assms m None by (simp add: plan_article_def split: if_splits)
    with written m g None show ?thesis by simp
  next
    case (Some pv)
    have n: "plan_refusal p b pv = None"
      using assms Some by (simp add: plan_article_def split: if_splits option.splits)
    show ?thesis
    proof (cases "r_status pv \<noteq> st_pending \<and> r_sha r = r_sha pv")
      case True
      then have "pl = plan_same ts b pv dr"
        using assms m Some n by (simp add: plan_article_def split: if_splits)
      with True unchanged m Some n show ?thesis by simp
    next
      case False
      then have "plan_changed d ix p ts i b check (Some pv) r nt dr = Planned pl"
        using assms m Some n by (simp add: plan_article_def split: if_splits)
      with written m g Some n show ?thesis by simp
    qed
  qed
qed

lemma plan_refusalD:
  assumes "plan_refusal p b pv = None"
  shows "same_env (pr_env p) (r_prelive pv)" "\<not> converts pv" "pb_title b = r_title pv"
  using assms by (auto simp: plan_refusal_def converts_def split: if_splits)

lemma next_version_Some:
  assumes "next_version d p ts (Some pv) b req r = Inr (result, r')"
  obtains (update) "r_status pv \<noteq> st_pending" "result = Updated" "pb_expected b = None \<or> pb_expected b = Some (r_version pv)"
      "r' = set_status (if r_status pv = st_held then st_held else req)
         (if (if r_status pv = st_held then st_held else req) \<noteq> r_status pv then ts else r_status_at pv)
         (r\<lparr>r_version := i64 (r_version pv + 1), r_updated := ts\<rparr>)"
  | (fill) "r_status pv = st_pending" "result = Filled" "pb_expected b = None \<or> pb_expected b = Some 0"
      "r' = set_status req ts (r\<lparr>r_version := 1, r_updated := ts\<rparr>)"
proof (cases "r_status pv \<noteq> st_pending")
  case True
  have e: "\<not> (pb_expected b \<noteq> None \<and> pb_expected b \<noteq> Some (r_version pv))"
    using assms [unfolded next_version_def option.case if_P [OF True]] by (simp split: if_splits)
  note a = assms [unfolded next_version_def option.case if_P [OF True] if_not_P [OF e] Let_def]
  define st where "st = (if r_status pv = st_held then st_held else req)"
  define x where "x = r\<lparr>r_version := i64 (r_version pv + 1), r_updated := ts\<rparr>"
  have r: "Updated = result" "(if st \<noteq> r_status pv then set_status st ts x else set_status st (r_status_at pv) x) = r'"
    using a unfolding st_def x_def sum.inject prod.inject by blast+
  have "r' = set_status st (if st \<noteq> r_status pv then ts else r_status_at pv) x"
    unfolding r(2) [symmetric] by (cases "st = r_status pv") simp_all
  moreover have "pb_expected b = None \<or> pb_expected b = Some (r_version pv)" using e by blast
  ultimately show ?thesis using update [OF True r(1) [symmetric]] unfolding st_def x_def by blast
next
  case False
  have e: "\<not> (pb_expected b \<noteq> None \<and> pb_expected b \<noteq> Some 0)"
    using assms [unfolded next_version_def option.case if_not_P [OF False]] by (simp split: if_splits)
  note a = assms [unfolded next_version_def option.case if_not_P [OF False] if_not_P [OF e] Let_def]
  show ?thesis
    using fill a False e unfolding sum.inject prod.inject by blast
qed

lemma next_version_None:
  assumes "next_version d p ts None b req r = Inr (result, r')"
  shows "pb_expected b = None" "result = Created"
    "r' = set_status req ts (r\<lparr>r_base_slug := slugify d (r_title r), r_prelive := pr_prelive p, r_version := 1,
       r_created := ts, r_updated := ts\<rparr>)"
  using assms by (auto simp: next_version_def split: if_splits)

lemma next_version_spec:
  assumes "next_version d p ts prev b req r = Inr (result, r')"
  shows "r_id r' = r_id r" "r_slug r' = r_slug r" "r_residue r' = r_residue r" "r_topics r' = r_topics r"
    "r_reason r' = r_reason r" "r_tombstoned_at r' = r_tombstoned_at r"
    and "r_status r' \<in> {req, st_held}" and "(result = Created) = (prev = None)"
    and "r_prelive r' = (if prev = None then pr_prelive p else r_prelive r)"
    and "r_base_slug r' = (if prev = None then slugify d (r_title r) else r_base_slug r)"
proof -
  have "(r_id r' = r_id r \<and> r_slug r' = r_slug r \<and> r_residue r' = r_residue r \<and> r_topics r' = r_topics r
      \<and> r_reason r' = r_reason r \<and> r_tombstoned_at r' = r_tombstoned_at r) \<and> r_status r' \<in> {req, st_held}
      \<and> (result = Created) = (prev = None) \<and> r_prelive r' = (if prev = None then pr_prelive p else r_prelive r)
      \<and> r_base_slug r' = (if prev = None then slugify d (r_title r) else r_base_slug r)"
  proof (cases prev)
    case None
    note n = next_version_None [OF assms [unfolded None]]
    show ?thesis by (simp add: n None)
  next
    case (Some pv)
    from assms [unfolded Some] show ?thesis
      by (cases rule: next_version_Some) (simp_all add: Some)
  qed
  then show "r_id r' = r_id r" "r_slug r' = r_slug r" "r_residue r' = r_residue r" "r_topics r' = r_topics r"
    "r_reason r' = r_reason r" "r_tombstoned_at r' = r_tombstoned_at r" "r_status r' \<in> {req, st_held}"
    "(result = Created) = (prev = None)" "r_prelive r' = (if prev = None then pr_prelive p else r_prelive r)"
    "r_base_slug r' = (if prev = None then slugify d (r_title r) else r_base_slug r)" by blast+
qed

section \<open>Plans are good plans\<close>

lemma slug_nonempty:
  assumes "assign_slug taken base = Some s" "base \<noteq> []"
  shows "s \<noteq> []"
  using assms by (auto simp: assign_slug_def slug_candidate_def Let_def split: if_splits dest: assign_from_Some)

lemma name_plan_simps [simp]:
  "pn_prev (name_plan ix pl) = pn_prev pl" "pn_create (name_plan ix pl) = pn_create pl"
  "pn_claims (name_plan ix pl) = pn_claims pl" "pn_content (name_plan ix pl) = pn_content pl"
  "pn_result (name_plan ix pl) = pn_result pl" "pn_write (name_plan ix pl) = pn_write pl"
  by (simp_all add: name_plan_def)

lemma rec_ok_slug: "rec_ok (r\<lparr>r_slug := s\<rparr>) = rec_ok r" if "\<not> r_residue r" "r_status r \<noteq> st_pending"
  using that by (simp add: rec_ok_def shape_ok_def status_ok_def converts_def)

lemma plan_article_good:
  assumes ok: "store_ok db ix" and m: "mirrors d db ix"
    and pl: "plan_article d ix p ts i b check = Planned pl" and w: "pn_write pl"
    and b: "check = None \<Longrightarrow> body_ok d b"
  shows "good_plan ix i (name_plan ix pl)"
  using pl
proof (cases rule: plan_articleE)
  case (unchanged pv r nt dr)
  have h: "r_status pv = st_published" "pn_rec pl = set_status st_held ts pv" "\<not> pn_create pl" "pn_claims pl = []"
    "pn_prev pl = Some pv"
    using w by (auto simp: unchanged(6) plan_same_def Let_def split: if_splits)
  note o = store_okD(1) [OF ok unchanged(1)]
  have "\<not> converts pv" using h(1) by (simp add: converts_def)
  with o have nr: "\<not> r_residue pv" "r_reason pv = []" "r_tombstoned_at pv = []" using rec_okD(1,2) by blast+
  then have "rec_ok (set_status st_held ts pv)" by (intro rec_ok_article) simp_all
  then show ?thesis
    using h unchanged(1) nr mirrors_rec_id(1) [OF m unchanged(1)] by (simp add: good_plan_def name_plan_def)
next
  case (written r nt dr)
  note ms = merge_body_spec [OF written(1)]
  from written(4) show ?thesis
  proof (cases rule: plan_changedE)
    case (1 mo bu req result r')
    note bo = b [OF 1(1)]
    note nv = next_version_spec [OF 1(5), simplified]
    have st: "r_status r' \<in> {st_published, st_held}" using nv(7) bo 1(4) by (auto simp: body_ok_def)
    have tp: "\<forall>t \<in> set nt. topic_pattern t" using ms(10) bo by (auto simp: body_ok_def)
    show ?thesis
    proof (cases "fmlookup (ix_recs ix) i")
      case None
      have res: "\<not> r_residue r'" "r_reason r' = []" "r_tombstoned_at r' = []" using ms nv None by simp_all
      obtain s where s: "assign_slug (ix_slugs ix) (r_base_slug r') = Some s"
        using assign_slug_total [of "ix_slugs ix" "r_base_slug r'"] by auto
      have "r_base_slug r' = slugify d (pb_title b)" using nv(10) ms(1) None by simp
      then have sn: "s \<noteq> []" using slug_nonempty [OF s] bo by (simp add: body_ok_def)
      have ro: "rec_ok (r'\<lparr>r_slug := s\<rparr>)" by (rule rec_ok_article) (use res st in auto)
      have gl: "ix_golive ix \<noteq> None \<Longrightarrow> \<not> r_prelive r'" using nv(9) None written(3) by (auto simp: pr_prelive_def)
      show ?thesis
        using None 1(6,8) nv(1,4,8) ms(2,9) res(1) ro tp sn gl assign_slug_free [OF s]
        by (simp add: good_plan_def name_plan_def s)
    next
      case (Some pv)
      have nc: "\<not> converts pv" using written(2) Some plan_refusalD(2) by blast
      have nr: "\<not> r_residue pv" "r_reason pv = []" "r_tombstoned_at pv = []"
        using rec_okD(1,2) [OF store_okD(1) [OF ok Some]] nc by blast+
      have ro: "rec_ok r'" by (rule rec_ok_article) (use st nv ms Some nr in auto)
      show ?thesis
        using Some 1(6,8) nv ms(2,3,5,6,9) nr(1) ro tp mirrors_rec_id(1) [OF m Some]
        by (simp add: good_plan_def name_plan_def)
    qed
  qed
qed

text \<open>The branches of \<open>planStub\<close> that end in a plan.\<close>

definition grown_stub :: "deps \<Rightarrow> rec \<Rightarrow> bytes list \<Rightarrow> rec" where
  "grown_stub d pv topics = (let r = pv\<lparr>r_topics := topics\<rparr> in r\<lparr>r_sha := dp_hash d (hash_input_of r)\<rparr>)"

definition new_stub :: "deps \<Rightarrow> principal \<Rightarrow> bytes \<Rightarrow> bytes \<Rightarrow> stub_body \<Rightarrow> bytes list \<Rightarrow> rec" where
  "new_stub d p ts i b topics = (set_status st_pending ts (zero_rec\<lparr>r_schema := 1, r_id := i, r_title := sb_title b,
     r_vertical := sb_vertical b, r_base_slug := slugify d (sb_title b),
     r_prelive := pr_prelive p, r_created := ts, r_updated := ts\<rparr>))\<lparr>r_topics := topics\<rparr>"

lemma plan_stubE:
  assumes "plan_stub d ix p ts i b = Planned pl"
  obtains (again) pv req topics added n where "fmlookup (ix_recs ix) i = Some pv" "same_env (pr_env p) (r_prelive pv)"
      "r_status pv = st_pending" "sb_topics b = Some req"
      "merge_capped (r_topics pv) req 256 (\<lambda>_. False) = (topics, added, n)" "claim_conflict ix i added = None"
      "pn_rec pl = (if added \<noteq> [] then grown_stub d pv topics else pv)" "pn_prev pl = Some pv" "pn_write pl = (added \<noteq> [])"
      "\<not> pn_content pl" "\<not> pn_create pl" "pn_claims pl = added" "pn_result pl = Unchanged"
  | (fresh) req topics added n where "fmlookup (ix_recs ix) i = None" "ix_golive ix = None \<or> pr_env p \<noteq> EnvStaging"
      "sb_topics b = Some req" "merge_capped [] req 256 (\<lambda>_. False) = (topics, added, n)"
      "claim_conflict ix i added = None" "slug_blocker ix i (slugify d (sb_title b)) = None"
      "pn_rec pl = (let r = (new_stub d p ts i b topics)\<lparr>r_slug := the (assign_slug (ix_slugs ix) (slugify d (sb_title b)))\<rparr>
         in r\<lparr>r_sha := dp_hash d (hash_input_of r)\<rparr>)"
      "pn_prev pl = None" "pn_write pl" "\<not> pn_content pl" "pn_create pl" "pn_claims pl = added" "pn_result pl = Created"
proof -
  have g: "ix_golive ix = None \<or> pr_env p \<noteq> EnvStaging"
    using assms by (auto simp: plan_stub_def split: if_splits)
  then have ng: "\<not> (ix_golive ix \<noteq> None \<and> pr_env p = EnvStaging)" by auto
  note a = assms [unfolded plan_stub_def if_not_P [OF ng]]
  show ?thesis
  proof (cases "fmlookup (ix_recs ix) i")
    case (Some pv)
    note a = a [unfolded Some option.case]
    have c: "same_env (pr_env p) (r_prelive pv)" "r_status pv = st_pending" "r_title pv = sb_title b" "r_vertical pv = sb_vertical b"
      using a by (simp_all split: if_splits)
    obtain req where q: "sb_topics b = Some req" using a c by (simp split: option.splits)
    obtain topics added n where mc: "merge_capped (r_topics pv) req 256 (\<lambda>_. False) = (topics, added, n)" by (metis prod_cases3)
    have cc: "claim_conflict ix i added = None" using a c q mc by (simp split: option.splits)
    have p: "pl = \<lparr>pn_result = Unchanged, pn_rec = (if added \<noteq> [] then grown_stub d pv topics else pv), pn_prev = Some pv,
       pn_write = (added \<noteq> []), pn_content = False, pn_create = False, pn_claims = added,
       pn_dropped = \<lparr>dr_aliases = 0, dr_topics = n, dr_clusters = 0\<rparr>\<rparr>"
      using a c q mc cc by (cases "added = []") (simp_all add: grown_stub_def Let_def)
    show ?thesis using again [OF Some c(1,2) q mc cc] unfolding p by simp
  next
    case None
    note a = a [unfolded None option.case]
    obtain req where q: "sb_topics b = Some req" using a by (simp split: option.splits)
    obtain topics added n where mc: "merge_capped [] req 256 (\<lambda>_. False) = (topics, added, n)" by (metis prod_cases3)
    note a = a [unfolded q option.case mc prod.case, folded new_stub_def, unfolded Let_def]
    have bs: "r_base_slug (new_stub d p ts i b topics) = slugify d (sb_title b)" by (simp add: new_stub_def)
    have cc: "claim_conflict ix i added = None" using a by (simp split: option.splits)
    have sb: "slug_blocker ix i (slugify d (sb_title b)) = None" using a cc bs by (simp split: option.splits)
    show ?thesis using fresh [OF None g q mc cc sb] a cc sb bs by (auto simp: Let_def)
  qed
qed

lemma pending_rec_ok:
  assumes "rec_ok r" "r_status r = st_pending"
  shows "rec_ok (r\<lparr>r_topics := ts, r_sha := h\<rparr>)"
proof -
  have nr: "\<not> r_residue r" using rec_okD(4) [OF assms(1)] assms(2) by (auto simp: converts_def)
  have "r = zero_rec\<lparr>r_schema := r_schema r, r_id := r_id r, r_slug := r_slug r,
        r_base_slug := r_base_slug r, r_title := r_title r,
        r_vertical := r_vertical r, r_status := r_status r, r_topics := r_topics r,
        r_version := r_version r, r_sha := r_sha r, r_created := r_created r,
        r_updated := r_updated r, r_status_at := r_status_at r, r_prelive := r_prelive r\<rparr>" (is "_ = ?z")
    using assms nr by (simp add: rec_ok_def shape_ok_def)
  then have e: "r\<lparr>r_topics := ts, r_sha := h\<rparr> = ?z\<lparr>r_topics := ts, r_sha := h\<rparr>" by (rule arg_cong)
  have "shape_ok (?z\<lparr>r_topics := ts, r_sha := h\<rparr>)"
    by (simp add: shape_ok_def zero_rec_def assms(2))
  then have "shape_ok (r\<lparr>r_topics := ts, r_sha := h\<rparr>)" unfolding e .
  then show ?thesis using nr assms(2) by (simp add: rec_ok_def status_ok_def)
qed

lemma plan_stub_good:
  assumes ok: "store_ok db ix" and m: "mirrors d db ix"
    and pl: "plan_stub d ix p ts i b = Planned pl" and b: "stub_ok d b"
  shows "good_plan ix i pl"
  using pl
proof (cases rule: plan_stubE)
  case (again pv req topics added n)
  note mc = merge_capped_spec(1,3) [OF again(5)]
  note o = store_okD(1) [OF ok again(1)]
  have nr: "\<not> r_residue pv" using rec_okD(4) [OF o] again(3) by (auto simp: converts_def)
  have tp: "\<forall>t \<in> set added. topic_pattern t" using mc(2) again(4) b by (auto simp: stub_ok_def)
  have "rec_ok (grown_stub d pv topics)"
    unfolding grown_stub_def Let_def using pending_rec_ok [OF o again(3)] by simp
  then show ?thesis
    using again mc nr o tp mirrors_rec_id(1) [OF m again(1)]
    by (simp add: good_plan_def grown_stub_def Let_def)
next
  case (fresh req topics added n)
  note mc = merge_capped_spec(1,3) [OF fresh(4)]
  obtain s where s: "assign_slug (ix_slugs ix) (slugify d (sb_title b)) = Some s"
    using assign_slug_total [of "ix_slugs ix" "slugify d (sb_title b)"] by auto
  have sn: "s \<noteq> []" using slug_nonempty [OF s] b by (simp add: stub_ok_def)
  have tp: "\<forall>t \<in> set added. topic_pattern t" using mc(2) fresh(3) b by (auto simp: stub_ok_def)
  have ro: "rec_ok (pn_rec pl)"
    unfolding fresh(7) rec_ok_def shape_ok_def status_ok_def
    by (simp add: Let_def s new_stub_def set_status_def zero_rec_def)
  have gl: "ix_golive ix \<noteq> None \<Longrightarrow> \<not> r_prelive (pn_rec pl)"
    using fresh(2) by (auto simp: fresh(7) Let_def new_stub_def pr_prelive_def)
  have "r_id (pn_rec pl) = i" "\<not> r_residue (pn_rec pl)" "r_slug (pn_rec pl) = s" "r_topics (pn_rec pl) = topics"
    by (simp_all add: fresh(7) Let_def s new_stub_def zero_rec_def)
  then show ?thesis
    using fresh mc ro tp sn gl assign_slug_free [OF s] by (simp add: good_plan_def)
qed

section \<open>The writers keep the invariant\<close>

lemma art_inv_put:
  assumes inv: "art_inv d s" and g: "good_plan (as_idx s) i pl" and v: "valid_id i"
    and e: "put_effect d i pl rows (as_db s) db'"
    and len: "rows \<noteq> None \<Longrightarrow> list_all (\<lambda>rw. length (rw_vec rw) = snd (embedder_shape d)) (the rows)"
  shows "art_inv d (s\<lparr>as_db := db', as_idx := with_rows i rows (index_put d i pl (as_idx s))\<rparr>)"
  using put_mirrors [OF _ _ g v e len] put_store_ok [OF _ _ g v e] inv by (simp add: art_inv_def)

lemma write_plan_inv:
  assumes inv: "art_inv d s" and g: "good_plan (as_idx s) i pl" and v: "valid_id i"
    and w: "write_plan e d i pl rows s = (out, s')"
    and len: "pn_content pl \<Longrightarrow> list_all (\<lambda>rw. length (rw_vec rw) = snd (embedder_shape d)) rows"
  shows "art_inv d s'"
proof (cases "commit_ops (env.truncate e) d (as_db s) i pl rows")
  case None
  with w inv show ?thesis by (simp add: write_plan_def)
next
  case (Some ops)
  let ?rows = "if pn_content pl then Some rows else None"
  have eff: "put_effect d i pl ?rows (as_db s) (apply_batch ops (as_db s))"
    by (rule commit_ops_effect [OF _ v Some, of "as_idx s"]) (use inv in \<open>simp add: art_inv_def\<close>)
  have "art_inv d (s\<lparr>as_db := apply_batch ops (as_db s), as_idx := with_rows i ?rows (index_put d i pl (as_idx s))\<rparr>)"
    by (rule art_inv_put [OF inv g v eff]) (use len in \<open>simp split: if_splits\<close>)
  with w Some inv show ?thesis
    by (cases "pn_content pl") (auto simp: write_plan_def Let_def with_rows_def split: if_splits)
qed

lemma gather_lengths:
  assumes "gather_vectors vecs stored ts = Some vs" "vecs_ok d vecs" "vecs_ok d stored"
  shows "list_all (\<lambda>v. length v = snd (embedder_shape d)) vs \<and> length vs = length ts"
  using assms
proof (induction ts arbitrary: vs)
  case Nil
  then show ?case by simp
next
  case (Cons t ts)
  then show ?case by (auto simp: vecs_ok_def split: option.splits)
qed

lemma stored_vectors_ok:
  assumes "list_all (\<lambda>rw. length (rw_vec rw) = snd (embedder_shape d)) rows"
  shows "vecs_ok d (stored_vectors prev rows)"
proof -
  have "vecs_ok d (fold (stored_step r) rows m)" if "vecs_ok d m" for r m
    using assms that
  proof (induction rows arbitrary: m)
    case Nil
    then show ?case by simp
  next
    case (Cons rw rows)
    have "vecs_ok d (stored_step r rw m)"
      using Cons.prems by (auto simp: vecs_ok_def stored_step_def split: row_kind.splits)
    with Cons show ?case by simp
  qed
  moreover have "vecs_ok d fmempty" by (simp add: vecs_ok_def)
  ultimately show ?thesis by (cases prev) (simp_all add: stored_vectors_def)
qed

lemma rows_for_lengths:
  assumes "list_all (\<lambda>v. length v = n) vs" "length vs = length (vector_texts r)"
  shows "list_all (\<lambda>rw. length (rw_vec rw) = n) (rows_for r vs)"
  using assms by (auto simp: rows_for_def vector_texts_def list_all_iff all_set_conv_all_nth)

lemma index_rows_length:
  assumes inv: "art_inv d s" and e: "dp_emb d \<noteq> None" and r: "fmlookup (ix_rows (as_idx s)) i = Some rows"
  shows "list_all (\<lambda>rw. length (rw_vec rw) = snd (embedder_shape d)) rows"
proof -
  have m: "mirrors d (as_db s) (as_idx s)" and ok: "store_ok (as_db s) (as_idx s)" using inv by (simp_all add: art_inv_def)
  have "rows_at d (as_db s) i = Some rows" using mirrorsD(4) [OF m, of i] r by (simp split: if_splits)
  then obtain m n where l: "fmlookup (as_db s) (embedding_key i) = Some (DEmb m n rows)" and c: "current_model d m n"
    by (auto simp: rows_at_def split: if_splits option.splits rdoc.splits)
  have "snd (embedder_shape d) = n" using c e by (auto simp: current_model_def)
  with store_okD(6) [OF ok l] show ?thesis by simp
qed

lemma commit_article_inv:
  assumes inv: "art_inv d s" and v: "valid_id i" and e: "dp_emb d \<noteq> None" and vk: "vecs_ok d vecs"
    and b: "check = None \<Longrightarrow> body_ok d b"
    and c: "commit_article e' d p i b vecs check s = (out, s')"
  shows "art_inv d s'"
proof (cases "active_locked (as_closed s) (ae_policy e') (as_idx s) p ArticlesWrite True")
  case (Inl er)
  with c inv show ?thesis by (simp add: commit_article_def)
next
  case (Inr a)
  show ?thesis
  proof (cases "plan_article d (as_idx s) a (ae_now e') i b check")
    case (PlanErr er)
    with c Inr inv show ?thesis by (simp add: commit_article_def)
  next
    case NilDeref
    with c Inr inv show ?thesis by (simp add: commit_article_def)
  next
    case (Planned pl)
    show ?thesis
    proof (cases "pn_write pl")
      case False
      with c Inr Planned inv show ?thesis by (simp add: commit_article_def)
    next
      case w: True
      have g: "good_plan (as_idx s) i (name_plan (as_idx s) pl)"
        using inv by (intro plan_article_good [OF _ _ Planned w b]) (auto simp: art_inv_def)
      show ?thesis
      proof (cases "pn_content pl")
        case False
        then have "write_plan e' d i (name_plan (as_idx s) pl) [] s = (out, s')"
          using c Inr Planned w by (simp add: commit_article_def)
        from write_plan_inv [OF inv g v this] False show ?thesis by simp
      next
        case True
        let ?rows0 = "case fmlookup (ix_rows (as_idx s)) i of None \<Rightarrow> [] | Some rs \<Rightarrow> rs"
        show ?thesis
        proof (cases "gather_vectors vecs (stored_vectors (pn_prev pl) ?rows0) (vector_texts (pn_rec pl))")
          case None
          with c Inr Planned w True inv show ?thesis by (simp add: commit_article_def)
        next
          case (Some vs)
          have "vecs_ok d (stored_vectors (pn_prev pl) ?rows0)"
            by (rule stored_vectors_ok) (use index_rows_length [OF inv e] in \<open>auto split: option.splits\<close>)
          note gl = gather_lengths [OF Some vk this]
          show ?thesis
          proof (cases "if new_title pl then fingerprint_blocker (as_idx s) (vs ! 0) (th_related (ae_th e')) else None")
            case (Some blocker)
            with c Inr Planned w True inv \<open>gather_vectors _ _ _ = _\<close> show ?thesis
              by (simp add: commit_article_def del: if_split)
          next
            case None
            then have "write_plan e' d i (name_plan (as_idx s) pl) (rows_for (pn_rec pl) vs) s = (out, s')"
              using c Inr Planned w True \<open>gather_vectors _ _ _ = _\<close> by (simp add: commit_article_def del: if_split)
            from write_plan_inv [OF inv g v this] show ?thesis using gl rows_for_lengths by blast
          qed
        qed
      qed
    qed
  qed
qed

lemma commit_stub_inv:
  assumes inv: "art_inv d s" and v: "valid_id i" and b: "stub_ok d b"
    and c: "commit_stub e d p i b s = (out, s')"
  shows "art_inv d s'"
proof (cases "active_locked (as_closed s) (ae_policy e) (as_idx s) p ArticlesStub True")
  case (Inl er)
  with c inv show ?thesis by (simp add: commit_stub_def)
next
  case (Inr a)
  show ?thesis
  proof (cases "plan_stub d (as_idx s) a (ae_now e) i b")
    case (Planned pl)
    have ok: "store_ok (as_db s) (as_idx s)" and m: "mirrors d (as_db s) (as_idx s)" using inv by (simp_all add: art_inv_def)
    have g: "good_plan (as_idx s) i pl" by (rule plan_stub_good [OF ok m Planned b])
    have eff: "put_effect d i pl None (as_db s) (apply_batch (record_ops i pl) (as_db s))"
      by (rule record_ops_effect [OF ok])
    have "art_inv d (s\<lparr>as_db := apply_batch (record_ops i pl) (as_db s), as_idx := index_put d i pl (as_idx s)\<rparr>)"
      using art_inv_put [OF inv g v eff] by (simp add: with_rows_def)
    then show ?thesis using c Inr Planned inv by (auto simp: commit_stub_def split: if_splits)
  qed (use c Inr inv in \<open>simp_all add: commit_stub_def\<close>)
qed

end
