(* ===== verification/ArtTakedown.thy ===== *)
theory ArtTakedown
  imports ArtPut
begin

text \<open>
  Deletion, moderation and takedown keep the invariant. A takedown leaves, under the keys of its id, the
  residue and at most the title fingerprint.
\<close>

section \<open>Deletion\<close>

lemma lookup_delete_keys:
  "fmlookup (apply_batch (delete_keys ix i) db) k =
     (if k \<in> {record_key i, embedding_key i, fingerprint_key i, counters_key i}
        \<or> (version_lower i \<le> k \<and> k < version_upper i)
        \<or> (\<exists>s. k = slug_key s \<and> map_option sl_id (fmlookup (ix_slugs ix) s) = Some i)
        \<or> (\<exists>t. k = topic_key t \<and> fmlookup (ix_claims ix) t = Some i)
      then None else fmlookup db k)"
proof -
  have a: "(\<lambda>x. BDel (slug_key x)) = (\<lambda>x. BDel ((slug_key) x))" for x by simp
  have s: "k \<in> slug_key ` {s \<in> fset (fmdom (ix_slugs ix)). map_option sl_id (fmlookup (ix_slugs ix) s) = Some i}
      \<longleftrightarrow> (\<exists>s. k = slug_key s \<and> map_option sl_id (fmlookup (ix_slugs ix) s) = Some i)" by auto
  have t: "k \<in> topic_key ` {t \<in> fset (fmdom (ix_claims ix)). fmlookup (ix_claims ix) t = Some i}
      \<longleftrightarrow> (\<exists>t. k = topic_key t \<and> fmlookup (ix_claims ix) t = Some i)" by auto
  show ?thesis
    using s t by (auto simp: delete_keys_def lookup_dels)
qed

lemma drop_record_simps [simp]:
  "fmlookup (ix_recs (drop_record i ix)) j = (if j = i then None else fmlookup (ix_recs ix) j)"
  "fmlookup (ix_rows (drop_record i ix)) j = (if j = i then None else fmlookup (ix_rows ix) j)"
  "fmlookup (ix_fps (drop_record i ix)) j = (if j = i then None else fmlookup (ix_fps ix) j)"
  "j |\<in>| ix_fp_other (drop_record i ix) \<longleftrightarrow> j \<noteq> i \<and> j |\<in>| ix_fp_other ix"
  "fmlookup (ix_full_slugs (drop_record i ix)) j = (if j = i then None else fmlookup (ix_full_slugs ix) j)"
  "fmlookup (ix_slugs (drop_record i ix)) s =
     (if map_option sl_id (fmlookup (ix_slugs ix) s) = Some i then None else fmlookup (ix_slugs ix) s)"
  "fmlookup (ix_claims (drop_record i ix)) t = (if fmlookup (ix_claims ix) t = Some i then None else fmlookup (ix_claims ix) t)"
  "ix_golive (drop_record i ix) = ix_golive ix"
  by (auto simp: drop_record_def)

lemma slug_at_lookup: "slug_at db s = Some e \<Longrightarrow> fmlookup db (slug_key s) = Some (DSlug e)"
  by (auto simp: slug_at_def split: if_splits option.splits rdoc.splits)

lemma delete_mirrors:
  assumes m: "mirrors d db ix" and v: "valid_id i"
  shows "mirrors d (apply_batch (delete_keys ix i) db) (drop_record i ix)" (is "mirrors d ?db ?ix")
proof -
  note l = lookup_delete_keys [of ix i db]
  have recs: "map_option norm_rec (fmlookup (ix_recs ?ix) j) = rec_at ?db j" for j
  proof (cases "j = i")
    case True
    then show ?thesis by (simp add: rec_at_def l)
  next
    case False
    then have "fmlookup ?db (record_key j) = fmlookup db (record_key j)" by (auto simp: l)
    from at_cong(1) [OF this] False show ?thesis using mirrorsD(1) [OF m] by simp
  qed
  have slugs: "fmlookup (ix_slugs ?ix) s = slug_at ?db s" for s
  proof (cases "map_option sl_id (fmlookup (ix_slugs ix) s) = Some i")
    case True
    then show ?thesis by (auto simp: slug_at_def l)
  next
    case False
    then have "fmlookup ?db (slug_key s) = fmlookup db (slug_key s)" by (auto simp: l)
    from at_cong(2) [OF this] False show ?thesis unfolding drop_record_simps mirrorsD(2) [OF m] by auto
  qed
  have claims: "fmlookup (ix_claims ?ix) t = claim_at ?db t" for t
  proof (cases "fmlookup (ix_claims ix) t = Some i")
    case True
    then show ?thesis by (auto simp: claim_at_def l)
  next
    case False
    then have "fmlookup ?db (topic_key t) = fmlookup db (topic_key t)" by (auto simp: l)
    from at_cong(3) [OF this] False show ?thesis using mirrorsD(3) [OF m] by simp
  qed
  have rows: "fmlookup (ix_rows ?ix) j = (if live_content ?ix j then rows_at d ?db j else None)" for j
  proof (cases "j = i")
    case True
    then show ?thesis by (simp add: live_content_def)
  next
    case False
    then have "fmlookup ?db (embedding_key j) = fmlookup db (embedding_key j)" by (auto simp: l)
    from at_cong(4) [OF this] False show ?thesis using mirrorsD(4) [OF m, of j] by (simp add: live_content_def)
  qed
  have fps: "fmlookup (ix_fps ?ix) j = fp_at d ?db j \<and> (j |\<in>| ix_fp_other ?ix \<longleftrightarrow> fp_other_at d ?db j)" for j
  proof (cases "j = i")
    case True
    then show ?thesis by (simp add: fp_at_def fp_other_at_def l)
  next
    case False
    then have "fmlookup ?db (fingerprint_key j) = fmlookup db (fingerprint_key j)" by (auto simp: l)
    from at_cong(5,6) [OF this] False show ?thesis using mirrorsD(5,6) [OF m] by simp
  qed
  have "fmlookup ?db (meta_key ''golive'') = fmlookup db (meta_key ''golive'')" by (auto simp: l)
  from at_cong(8) [OF this] have gl: "ix_golive ?ix = golive_at ?db" using mirrorsD(8) [OF m] by simp
  have full: "fmlookup (ix_full_slugs ?ix) j = full_slug_of d (fmlookup (ix_recs ?ix) j)" for j
    using mirrorsD(7) [OF m] by (simp add: full_slug_of_def)
  show ?thesis unfolding mirrors_def using recs slugs claims rows fps full gl by blast
qed

lemma erased_antimono:
  assumes "erased_at db i" "\<And>k. fmlookup db k = None \<Longrightarrow> key_sub k \<in> {sub_embedding, sub_counters, sub_version} \<Longrightarrow> fmlookup db' k = None"
  shows "erased_at db' i"
proof -
  have "fmlookup db' k = None" if "version_lower i \<le> k" "k < version_upper i" for k
    using assms that version_range_sub [OF that] by (auto simp: erased_at_def)
  moreover have "fmlookup db' (embedding_key i) = None" "fmlookup db' (counters_key i) = None"
    using assms by (auto simp: erased_at_def)
  ultimately show ?thesis by (simp add: erased_at_def)
qed

lemma delete_store_ok:
  assumes ok: "store_ok db ix" and m: "mirrors d db ix" and v: "valid_id i"
  shows "store_ok (apply_batch (delete_keys ix i) db) (drop_record i ix)" (is "store_ok ?db ?ix")
proof -
  note l = lookup_delete_keys [of ix i db]
  have recs: "rec_ok r \<and> fmlookup (ix_slugs ?ix) (r_slug r) = Some (canonical j)
      \<and> (\<forall>t \<in> set (r_topics r). fmlookup (ix_claims ?ix) t = Some j)"
    if "fmlookup (ix_recs ?ix) j = Some r" for j r
  proof -
    from that have o: "fmlookup (ix_recs ix) j = Some r" and ji: "j \<noteq> i" by (auto split: if_splits)
    from store_okD(1,2) [OF ok o] store_okD(3) [OF ok o] ji show ?thesis by (auto simp: canonical_def)
  qed
  have er: "erased_at ?db j" if j: "valid_id j" "\<not> live_content ?ix j" for j
  proof (cases "j = i")
    case True
    then show ?thesis by (auto simp: erased_at_def l)
  next
    case False
    then have "\<not> live_content ix j" using j(2) by (simp add: live_content_def)
    from erased_antimono [OF store_okD(5) [OF ok j(1) this]] show ?thesis by (simp add: l)
  qed
  have "\<not> r_prelive r" if "ix_golive ?ix \<noteq> None" "fmlookup (ix_recs ?ix) j = Some r" for j r
    using that store_okD(4) [OF ok] by (simp split: if_splits)
  moreover have "doc_ok w" if "fmlookup ?db k = Some w" for k w
    using that store_okD(6) [OF ok] by (simp add: l split: if_splits)
  ultimately show ?thesis unfolding store_ok_def using recs er by blast
qed

lemma delete_record_inv:
  assumes "art_inv d s" "valid_id i" "delete_record_locked e i s = (b, s')"
  shows "art_inv d s'"
  using assms delete_mirrors delete_store_ok
  by (auto simp: delete_record_locked_def art_inv_def split: if_splits)

lemma commit_delete_stub_inv:
  assumes inv: "art_inv d s" and v: "valid_id i" and c: "commit_delete_stub e p i s = (out, s')"
  shows "art_inv d s'"
proof (cases "delete_record_locked e i s")
  case (Pair b t)
  from delete_record_inv [OF inv v Pair] c inv Pair show ?thesis
    by (auto simp: commit_delete_stub_def split: sum.splits option.splits if_splits bool.splits)
qed

section \<open>Takedown\<close>

text \<open>The residue replacing a record keeps its slug, its topics and a moderation status.\<close>

definition residue_of :: "rec \<Rightarrow> rec \<Rightarrow> bool" where
  "residue_of r res = (r_id res = r_id r \<and> r_slug res = r_slug r \<and> r_topics res = r_topics r \<and> rec_ok res
     \<and> r_residue res \<and> (r_prelive res \<longrightarrow> r_prelive r))"

lemma to_residue_simps [simp]:
  "r_id (to_residue st re ts r) = r_id r" "r_slug (to_residue st re ts r) = r_slug r"
  "r_base_slug (to_residue st re ts r) = r_base_slug r" "r_topics (to_residue st re ts r) = r_topics r"
  "r_residue (to_residue st re ts r)" "r_prelive (to_residue st re ts r) = r_prelive r"
  "r_status (to_residue st re ts r) = st" "r_title (to_residue st re ts r) = []"
  by (simp_all add: to_residue_def Let_def zero_rec_def)

lemma to_residue_ok:
  assumes "st = st_tombstoned \<or> st = st_rejected"
  shows "rec_ok (to_residue st re ts r)"
  using assms by (auto simp: rec_ok_def shape_ok_def status_ok_def converts_def to_residue_def Let_def zero_rec_def)

text \<open>The batch of a takedown, and the fingerprint it stores.\<close>

definition fp_write :: "deps \<Rightarrow> index \<Rightarrow> bytes \<Rightarrow> erased \<Rightarrow> rdoc option \<Rightarrow> bool" where
  "fp_write d ix i er doc = (case er_fp er of None \<Rightarrow> doc = None
     | Some v \<Rightarrow> (\<exists>n. doc = Some (fp_doc (er_model er) n v) \<and> length v = n) \<and> \<not> any_fingerprint ix i)"

definition take_effect :: "bytes \<Rightarrow> rec \<Rightarrow> rdoc option \<Rightarrow> rdoc kv \<Rightarrow> rdoc kv \<Rightarrow> bool" where
  "take_effect i res doc db db' = (\<forall>k. fmlookup db' k =
     (if k = record_key i then Some (DRecord (marshal_record res))
      else if k = embedding_key i \<or> k = counters_key i \<or> (version_lower i \<le> k \<and> k < version_upper i) then None
      else if k = fingerprint_key i \<and> doc \<noteq> None then doc
      else fmlookup db k))"

definition take_index :: "deps \<Rightarrow> erased \<Rightarrow> rec \<Rightarrow> index \<Rightarrow> index" where
  "take_index d er res ix = apply_erased d (er\<lparr>er_res := res\<rparr>) ix"

lemma erase_into_effect:
  assumes ok: "store_ok db0 ix0" and db: "as_db s = db0" and f: "\<forall>v. fresh = Some v \<longrightarrow> length v = snd (embedder_shape d)"
    and e: "erase_into e d s r st re ts fresh = Some (ops, er)"
  obtains doc where "fp_write d (as_idx s) (r_id r) er doc"
    "\<And>db res. take_effect (r_id r) res doc db (apply_batch (ops @ [BSet (record_key (r_id r)) (DRecord (marshal_record res))]) db)"
    "er_res er = to_residue st re ts r"
proof -
  let ?i = "r_id r"
  let ?del = "[BDelRange (version_lower ?i) (version_upper ?i), BDel (embedding_key ?i), BDel (counters_key ?i)] :: rdoc bop list"
  have plain: "take_effect ?i res None db (apply_batch (?del @ [BSet (record_key ?i) (DRecord (marshal_record res))]) db)" for db res
    by (auto simp: take_effect_def)
  have withfp: "take_effect ?i res (Some x) db (apply_batch ((BSet (fingerprint_key ?i) x # ?del) @ [BSet (record_key ?i) (DRecord (marshal_record res))]) db)" for db res x
    by (auto simp: take_effect_def)
  show ?thesis
  proof (cases "any_fingerprint (as_idx s) ?i")
    case True
    then have "ops = ?del" "er = \<lparr>er_res = to_residue st re ts r, er_model = [], er_fp = None\<rparr>"
      using e by (simp_all add: erase_into_def Let_def)
    with plain that [of None] show ?thesis by (simp add: fp_write_def)
  next
    case nf: False
    obtain m n v where t: "stored_title_vector e db0 ?i = Some (m, n, v)"
      using e nf db by (auto simp: erase_into_def Let_def split: option.splits)
    have len: "length w = n" if v: "v = Some w" for w
    proof -
      obtain rows rw where l: "fmlookup db0 (embedding_key ?i) = Some (DEmb m n rows)"
        and fd: "List.find (\<lambda>rw. rw_kind rw = KindTitle) rows = Some rw" and w: "w = rw_vec rw"
        using t v by (auto simp: stored_title_vector_def split: if_splits option.splits rdoc.splits)
      from fd have "rw \<in> set rows" by (auto simp: find_Some_iff)
      with store_okD(6) [OF ok l] w show ?thesis by (simp add: list_all_iff)
    qed
    show ?thesis
    proof (cases fresh)
      case (Some w)
      then have "ops = BSet (fingerprint_key ?i) (fp_doc (fst (embedder_shape d)) (snd (embedder_shape d)) w) # ?del"
        "er = \<lparr>er_res = to_residue st re ts r, er_model = fst (embedder_shape d), er_fp = Some w\<rparr>"
        using e nf t db by (simp_all add: erase_into_def Let_def)
      with withfp that [of "Some (fp_doc (fst (embedder_shape d)) (snd (embedder_shape d)) w)"] nf f Some
      show ?thesis by (simp add: fp_write_def)
    next
      case None
      show ?thesis
      proof (cases v)
        case vn: None
        then have "ops = ?del" "er = \<lparr>er_res = to_residue st re ts r, er_model = [], er_fp = None\<rparr>"
          using e nf t db None by (simp_all add: erase_into_def Let_def)
        with plain that [of None] show ?thesis by (simp add: fp_write_def)
      next
        case vs: (Some w)
        then have "ops = BSet (fingerprint_key ?i) (fp_doc m n w) # ?del"
          "er = \<lparr>er_res = to_residue st re ts r, er_model = m, er_fp = Some w\<rparr>"
          using e nf t db None by (simp_all add: erase_into_def Let_def)
        with withfp that [of "Some (fp_doc m n w)"] nf len vs show ?thesis by (simp add: fp_write_def)
      qed
    qed
  qed
qed

lemma apply_erased_simps [simp]:
  "fmlookup (ix_recs (take_index d er res ix)) j = (if j = r_id res then Some res else fmlookup (ix_recs ix) j)"
  "ix_slugs (take_index d er res ix) = ix_slugs ix" "ix_claims (take_index d er res ix) = ix_claims ix"
  "fmlookup (ix_rows (take_index d er res ix)) j = (if j = r_id res then None else fmlookup (ix_rows ix) j)"
  "ix_golive (take_index d er res ix) = ix_golive ix"
  "fmlookup (ix_full_slugs (take_index d er res ix)) j =
     (if j = r_id res then full_slug_of d (Some res) else fmlookup (ix_full_slugs ix) j)"
  "fmlookup (ix_fps (take_index d er res ix)) j =
     (if j = r_id res \<and> er_fp er \<noteq> None \<and> (dp_emb d = None \<or> (er_model er, length (the (er_fp er))) = embedder_shape d)
      then er_fp er else fmlookup (ix_fps ix) j)"
  "j |\<in>| ix_fp_other (take_index d er res ix) \<longleftrightarrow>
     j |\<in>| ix_fp_other ix \<or> (j = r_id res \<and> er_fp er \<noteq> None
       \<and> \<not> (dp_emb d = None \<or> (er_model er, length (the (er_fp er))) = embedder_shape d))"
  by (auto simp: take_index_def apply_erased_def Let_def put_record_def full_slug_of_def split: option.splits)

lemma take_mirrors:
  assumes m: "mirrors d db ix" and r: "fmlookup (ix_recs ix) i = Some r" and res: "residue_of r res"
    and w: "fp_write d ix i er doc" and e: "take_effect i res doc db db'"
  shows "mirrors d db' (take_index d er res ix)" (is "mirrors d db' ?ix")
proof -
  have id: "r_id res = i" and v: "valid_id i" using res mirrors_rec_id [OF m r] by (simp_all add: residue_of_def)
  have l: "fmlookup db' k = (if k = record_key i then Some (DRecord (marshal_record res))
      else if k = embedding_key i \<or> k = counters_key i \<or> (version_lower i \<le> k \<and> k < version_upper i) then None
      else if k = fingerprint_key i \<and> doc \<noteq> None then doc else fmlookup db k)" for k
    using e by (simp add: take_effect_def)
  have dead: "\<not> live_content ?ix i" using res id by (simp add: live_content_def residue_of_def)
  have recs: "map_option norm_rec (fmlookup (ix_recs ?ix) j) = rec_at db' j" for j
  proof (cases "j = i")
    case True
    have "fmlookup db' (record_key i) = Some (DRecord (marshal_record res))" by (simp add: l)
    then have "rec_at db' i = Some (norm_rec res)"
      using rec_at_stored [OF v id] res by (simp add: residue_of_def rec_ok_def)
    with True id show ?thesis by simp
  next
    case False
    then have "fmlookup db' (record_key j) = fmlookup db (record_key j)" by (simp add: l)
    from at_cong(1) [OF this] False id show ?thesis using mirrorsD(1) [OF m] by simp
  qed
  have slugs: "fmlookup (ix_slugs ?ix) s = slug_at db' s" for s
    using at_cong(2) [of db' s db] mirrorsD(2) [OF m] by (simp add: l)
  have claims: "fmlookup (ix_claims ?ix) t = claim_at db' t" for t
    using at_cong(3) [of db' t db] mirrorsD(3) [OF m] by (simp add: l)
  have rows: "fmlookup (ix_rows ?ix) j = (if live_content ?ix j then rows_at d db' j else None)" for j
  proof (cases "j = i")
    case True
    with dead id show ?thesis by simp
  next
    case False
    then have "fmlookup db' (embedding_key j) = fmlookup db (embedding_key j)" by (simp add: l)
    from at_cong(4) [OF this] False id show ?thesis using mirrorsD(4) [OF m, of j] by (simp add: live_content_def)
  qed
  have fps: "fmlookup (ix_fps ?ix) j = fp_at d db' j \<and> (j |\<in>| ix_fp_other ?ix \<longleftrightarrow> fp_other_at d db' j)" for j
  proof (cases "j = i \<and> er_fp er \<noteq> None")
    case False
    have "fmlookup db' (fingerprint_key j) = fmlookup db (fingerprint_key j)"
    proof (cases "j = i")
      case True
      with False w have "doc = None" by (simp add: fp_write_def)
      then show ?thesis by (simp add: l)
    qed (simp add: l)
    from at_cong(5,6) [OF this] False id show ?thesis using mirrorsD(5,6) [OF m] by auto
  next
    case True
    then obtain x where x: "er_fp er = Some x" by auto
    with w have d: "doc = Some (DFp (er_model er) (length x) x)" and nf: "\<not> any_fingerprint ix i"
      by (auto simp: fp_write_def fp_doc_def)
    have "fmlookup db' (fingerprint_key i) = doc" by (simp add: l d)
    then have f: "fp_at d db' i = (if current_model d (er_model er) (length x) then Some x else None)"
      "fp_other_at d db' i = (\<not> current_model d (er_model er) (length x))"
      using d v by (simp_all add: fp_at_def fp_other_at_def)
    have c: "current_model d (er_model er) (length x) = (dp_emb d = None \<or> (er_model er, length x) = embedder_shape d)"
      unfolding current_model_def by auto
    show ?thesis
      using True id x nf by (simp add: f c any_fingerprint_def has_fingerprint_def)
  qed
  have gl: "ix_golive ?ix = golive_at db'"
    using at_cong(8) [of db' db] mirrorsD(8) [OF m] by (simp add: l)
  have full: "fmlookup (ix_full_slugs ?ix) j = full_slug_of d (fmlookup (ix_recs ?ix) j)" for j
    using mirrorsD(7) [OF m] by simp
  show ?thesis unfolding mirrors_def using recs slugs claims rows fps gl full by blast
qed

lemma take_store_ok:
  assumes ok: "store_ok db ix" and m: "mirrors d db ix" and r: "fmlookup (ix_recs ix) i = Some r" and res: "residue_of r res"
    and w: "fp_write d ix i er doc" and e: "take_effect i res doc db db'"
  shows "store_ok db' (take_index d er res ix)" (is "store_ok db' ?ix")
proof -
  have id: "r_id res = i" using res mirrors_rec_id [OF m r] by (simp add: residue_of_def)
  have l: "fmlookup db' k = (if k = record_key i then Some (DRecord (marshal_record res))
      else if k = embedding_key i \<or> k = counters_key i \<or> (version_lower i \<le> k \<and> k < version_upper i) then None
      else if k = fingerprint_key i \<and> doc \<noteq> None then doc else fmlookup db k)" for k
    using e by (simp add: take_effect_def)
  have recs: "rec_ok x \<and> fmlookup (ix_slugs ?ix) (r_slug x) = Some (canonical j)
      \<and> (\<forall>t \<in> set (r_topics x). fmlookup (ix_claims ?ix) t = Some j)"
    if "fmlookup (ix_recs ?ix) j = Some x" for j x
    using that id res store_okD(1,2,3) [OF ok] store_okD(2,3) [OF ok r]
    by (cases "j = i") (auto simp: residue_of_def)
  have gl: "\<not> r_prelive x" if "ix_golive ?ix \<noteq> None" "fmlookup (ix_recs ?ix) j = Some x" for j x
    using that id res store_okD(4) [OF ok] store_okD(4) [OF ok _ r] by (cases "j = i") (auto simp: residue_of_def)
  have er: "erased_at db' j" if j: "valid_id j" "\<not> live_content ?ix j" for j
  proof (cases "j = i")
    case True
    then show ?thesis by (simp add: erased_at_def l)
  next
    case False
    then have "\<not> live_content ix j" using j(2) id by (simp add: live_content_def)
    show ?thesis
      by (rule erased_antimono [OF store_okD(5) [OF ok j(1) \<open>\<not> live_content ix j\<close>]]) (auto simp: l)
  qed
  have "doc_ok x" if "fmlookup db' k = Some x" for k x
    using that store_okD(6) [OF ok] w by (auto simp: l fp_write_def split: if_splits option.splits)
  then show ?thesis unfolding store_ok_def using recs gl er by blast
qed

section \<open>Moderation\<close>

definition fresh_ok :: "deps \<Rightarrow> vec option \<Rightarrow> bool" where
  "fresh_ok d fresh = (\<forall>v. fresh = Some v \<longrightarrow> length v = snd (embedder_shape d))"

lemma tombstone_inv:
  assumes inv: "art_inv d s" and r: "fmlookup (ix_recs (as_idx s)) i = Some r" and f: "fresh_ok d fresh"
    and t: "tombstone_locked e d r reason fresh s = (b, s')"
  shows "art_inv d s'"
proof (cases "erase_into (env.truncate e) d s r st_tombstoned reason (ae_now e) fresh")
  case None
  with t inv show ?thesis by (simp add: tombstone_locked_def)
next
  case (Some x)
  obtain ops er where x: "x = (ops, er)" by (cases x)
  have m: "mirrors d (as_db s) (as_idx s)" and ok: "store_ok (as_db s) (as_idx s)" using inv by (simp_all add: art_inv_def)
  have id: "r_id r = i" using mirrors_rec_id [OF m r] by simp
  from erase_into_effect [OF ok refl f [unfolded fresh_ok_def] Some [unfolded x]]
  obtain doc where w: "fp_write d (as_idx s) i er doc"
    and te: "\<And>db res. take_effect i res doc db (apply_batch (ops @ [BSet (record_key i) (DRecord (marshal_record res))]) db)"
    and res: "er_res er = to_residue st_tombstoned reason (ae_now e) r" unfolding id by blast
  have ro: "residue_of r (er_res er)" using to_residue_ok by (simp add: residue_of_def res)
  have ti: "apply_erased d er ix = take_index d er (er_res er) ix" for ix by (simp add: take_index_def)
  show ?thesis
    using t take_mirrors [OF m r ro w te] take_store_ok [OF ok m r ro w te] inv
    by (auto simp: tombstone_locked_def Some x art_inv_def id ti split: if_splits)
qed

lemma put_record_inv:
  assumes inv: "art_inv d s" and r: "fmlookup (ix_recs (as_idx s)) i = Some r"
    and q: "rec_ok q" "\<not> r_residue q" "\<not> r_residue r" "r_id q = i" "r_slug q = r_slug r" "r_topics q = r_topics r"
      "r_prelive q = r_prelive r"
    and t: "put_record_locked e d q s = (b, s')"
  shows "art_inv d s'"
proof -
  have m: "mirrors d (as_db s) (as_idx s)" and ok: "store_ok (as_db s) (as_idx s)" using inv by (simp_all add: art_inv_def)
  define pl where "pl = \<lparr>pn_result = Unchanged, pn_rec = q, pn_prev = Some r, pn_write = True, pn_content = False,
    pn_create = False, pn_claims = [], pn_dropped = \<lparr>dr_aliases = 0, dr_topics = 0, dr_clusters = 0\<rparr>\<rparr>"
  have g: "good_plan (as_idx s) i pl" using q r by (simp add: good_plan_def pl_def)
  have ops: "record_ops i pl = [BSet (record_key (r_id q)) (DRecord (marshal_record q))]"
    by (simp add: record_ops_def pl_def q(4))
  have ix: "index_put d i pl (as_idx s) = put_record d q (as_idx s)" by (simp add: index_put_def pl_def Let_def)
  have "art_inv d (s\<lparr>as_db := apply_batch (record_ops i pl) (as_db s), as_idx := index_put d i pl (as_idx s)\<rparr>)"
    using art_inv_put [OF inv g mirrors_rec_id(2) [OF m r] record_ops_effect [OF ok]] by (simp add: with_rows_def)
  then show ?thesis using t inv unfolding ops ix by (auto simp: put_record_locked_def split: if_splits)
qed

lemma erase_fingerprint_inv:
  assumes inv: "art_inv d s" and t: "erase_fingerprint_locked e i s = (b, s')"
  shows "art_inv d s'"
proof (cases "commit_err e")
  case True
  with t inv show ?thesis by (simp add: erase_fingerprint_locked_def)
next
  case False
  have m: "mirrors d (as_db s) (as_idx s)" and ok: "store_ok (as_db s) (as_idx s)" using inv by (simp_all add: art_inv_def)
  let ?db = "fmdrop (fingerprint_key i) (as_db s)"
  let ?ix = "(as_idx s)\<lparr>ix_fps := fmdrop i (ix_fps (as_idx s)), ix_fp_other := ix_fp_other (as_idx s) |-| {|i|}\<rparr>"
  have live: "live_content ?ix = live_content (as_idx s)" by (simp add: live_content_def fun_eq_iff)
  have o: "rec_at ?db j = rec_at (as_db s) j" "slug_at ?db x = slug_at (as_db s) x" "claim_at ?db x = claim_at (as_db s) x"
    "rows_at d ?db j = rows_at d (as_db s) j" "golive_at ?db = golive_at (as_db s)" for j x
    by (rule at_cong, simp)+
  have fps: "fmlookup (ix_fps ?ix) j = fp_at d ?db j \<and> (j |\<in>| ix_fp_other ?ix \<longleftrightarrow> fp_other_at d ?db j)" for j
  proof (cases "j = i")
    case True
    then show ?thesis by (simp add: fp_at_def fp_other_at_def)
  next
    case False
    then have "fmlookup ?db (fingerprint_key j) = fmlookup (as_db s) (fingerprint_key j)" by simp
    from at_cong(5,6) [OF this] False show ?thesis using mirrorsD(5,6) [OF m] by simp
  qed
  have "mirrors d ?db ?ix" unfolding mirrors_def using fps live mirrorsD [OF m] by (simp add: o)
  moreover have "erased_at ?db j" if "erased_at (as_db s) j" for j
    by (rule erased_antimono [OF that]) simp
  then have "store_ok ?db ?ix" using ok by (simp add: store_ok_def live)
  ultimately show ?thesis using t False by (auto simp: erase_fingerprint_locked_def art_inv_def)
qed

lemma moderated_rec_simps [simp]:
  "r_id (moderated_rec a w re ts r) = r_id r" "r_slug (moderated_rec a w re ts r) = r_slug r"
  "r_topics (moderated_rec a w re ts r) = r_topics r" "r_prelive (moderated_rec a w re ts r) = r_prelive r"
  "r_residue (moderated_rec a w re ts r) = r_residue r" "r_status (moderated_rec a w re ts r) = target_status a"
  "r_reason (moderated_rec a w re ts r) = r_reason r" "r_tombstoned_at (moderated_rec a w re ts r) = r_tombstoned_at r"
  by (simp_all add: moderated_rec_def)

text \<open>A legal transition to published, held or rejected starts from a record with its content.\<close>

lemma legal_live:
  assumes "legal a r fp" "rec_ok r" "a \<in> {Approve, Hold, Reject}"
  shows "\<not> r_residue r"
  using assms rec_okD(4) [OF assms(2)] by (auto simp: converts_def)

lemma apply_action_inv:
  assumes inv: "art_inv d s" and r: "fmlookup (ix_recs (as_idx s)) i = Some r" and f: "fresh_ok d fresh"
    and l: "legal a r fp" and t: "apply_action e d a w reason fresh r s = (b, s')"
  shows "art_inv d s'"
proof -
  have m: "mirrors d (as_db s) (as_idx s)" and ok: "store_ok (as_db s) (as_idx s)" using inv by (simp_all add: art_inv_def)
  note id = mirrors_rec_id [OF m r]
  have ro: "rec_ok r" using store_okD(1) [OF ok r] .
  have mod: "art_inv d s'" if a: "a \<in> {Approve, Hold, Reject}" and p: "put_record_locked e d (moderated_rec a w reason (ae_now e) r) s = (b, s')"
  proof (rule put_record_inv [OF inv r _ _ _ _ _ _ _ p])
    show nr: "\<not> r_residue r" using legal_live [OF l ro a] .
    show "rec_ok (moderated_rec a w reason (ae_now e) r)"
      by (rule rec_ok_article) (use nr a rec_okD(2) [OF ro nr] in auto)
  qed (use id legal_live [OF l ro a] in simp_all)
  show ?thesis
  proof (cases a)
    case Tombstone
    with t tombstone_inv [OF inv r f] show ?thesis by (simp add: apply_action_def)
  next
    case EraseFingerprint
    with t erase_fingerprint_inv [OF inv] show ?thesis by (simp add: apply_action_def)
  next
    case DeleteStub
    with t delete_record_inv [OF inv id(2)] id(1) show ?thesis by (simp add: apply_action_def)
  qed (use t mod in \<open>simp_all add: apply_action_def\<close>)
qed

lemma commit_status_inv:
  assumes inv: "art_inv d s" and f: "fresh_ok d fresh" and c: "commit_status e d p i a w reason fresh s = (out, s')"
  shows "art_inv d s'"
proof (cases "s' = s")
  case True
  with inv show ?thesis by simp
next
  case False
  then obtain ap r b t where "active_locked (as_closed s) (ae_policy e) (as_idx s) p ArticlesModerate False = Inr ap"
    and r: "fmlookup (ix_recs (as_idx s)) i = Some r" and l: "legal a r (any_fingerprint (as_idx s) i)"
    and t: "apply_action e d a w reason fresh r s = (b, t)" and "s' = t"
    using c by (auto simp: commit_status_def split: sum.splits option.splits if_splits prod.splits bool.splits)
  with apply_action_inv [OF inv r f l t] show ?thesis by simp
qed

end
