(* ===== verification/ArtPurge.thy ===== *)
theory ArtPurge
  imports ArtTakedown
begin

text \<open>
  The go-live purge (\<open>applyPurgeLocked\<close>) as a sequence of single-record deletions and takedowns: the one
  batch it commits has the effect of doing them one after another, because the keys of two ids never meet.
\<close>

section \<open>Deletions and takedowns of different ids commute\<close>

lemma index_eqI:
  assumes "\<And>i. fmlookup (ix_recs a) i = fmlookup (ix_recs b) i" "\<And>i. fmlookup (ix_slugs a) i = fmlookup (ix_slugs b) i"
    "\<And>i. fmlookup (ix_claims a) i = fmlookup (ix_claims b) i" "\<And>i. fmlookup (ix_rows a) i = fmlookup (ix_rows b) i"
    "\<And>i. fmlookup (ix_fps a) i = fmlookup (ix_fps b) i" "\<And>i. i |\<in>| ix_fp_other a \<longleftrightarrow> i |\<in>| ix_fp_other b"
    "\<And>i. fmlookup (ix_full_slugs a) i = fmlookup (ix_full_slugs b) i" "ix_golive a = ix_golive b"
  shows "a = (b :: index)"
  by (rule index.equality) (use assms in \<open>auto intro!: fmap_ext fset_eqI\<close>)

lemma drop_take_commute:
  assumes "i \<noteq> r_id (er_res er)"
  shows "drop_record i (apply_erased d er ix) = apply_erased d er (drop_record i ix)"
proof -
  have e: "apply_erased d er = take_index d er (er_res er)" by (simp add: take_index_def fun_eq_iff)
  show ?thesis unfolding e by (rule index_eqI) (use assms in auto)
qed

lemma drop_takes_commute:
  assumes "\<forall>er \<in> set ers. r_id (er_res er) \<noteq> i"
  shows "drop_record i (fold (apply_erased d) ers ix) = fold (apply_erased d) ers (drop_record i ix)"
  using assms by (induction ers arbitrary: ix) (auto simp: drop_take_commute)

section \<open>The purge step by step\<close>

abbreviation purge_db :: "art_store \<Rightarrow> purge_acc \<Rightarrow> rdoc kv" where
  "purge_db s pa \<equiv> apply_batch (pa_ops pa) (as_db s)"

abbreviation purge_ix :: "deps \<Rightarrow> art_store \<Rightarrow> purge_acc \<Rightarrow> index" where
  "purge_ix d s pa \<equiv> fold (apply_erased d) (pa_conv pa) (fold drop_record (pa_deleted pa) (as_idx s))"

text \<open>What a record of the old store is in the new one.\<close>

definition purged_rec :: "index \<Rightarrow> index \<Rightarrow> bytes \<Rightarrow> bool" where
  "purged_rec ix ix' j = (case fmlookup (ix_recs ix) j of None \<Rightarrow> fmlookup (ix_recs ix') j = None
     | Some r \<Rightarrow> if \<not> r_prelive r then fmlookup (ix_recs ix') j = Some r
         else if \<not> converts r then fmlookup (ix_recs ix') j = None
         else (\<exists>res. fmlookup (ix_recs ix') j = Some res \<and> residue_of r res \<and> \<not> r_prelive res \<and> r_status res = r_status r))"

definition same_id :: "index \<Rightarrow> index \<Rightarrow> bytes \<Rightarrow> bool" where
  "same_id ix ix' j = (fmlookup (ix_recs ix') j = fmlookup (ix_recs ix) j \<and> any_fingerprint ix' j = any_fingerprint ix j
     \<and> (\<forall>x. (map_option sl_id (fmlookup (ix_slugs ix') x) = Some j) = (map_option sl_id (fmlookup (ix_slugs ix) x) = Some j))
     \<and> (\<forall>t. (fmlookup (ix_claims ix') t = Some j) = (fmlookup (ix_claims ix) t = Some j)))"

definition purge_inv :: "deps \<Rightarrow> art_store \<Rightarrow> bytes set \<Rightarrow> purge_acc \<Rightarrow> bool" where
  "purge_inv d s done pa =
     (mirrors d (purge_db s pa) (purge_ix d s pa) \<and> store_ok (purge_db s pa) (purge_ix d s pa)
      \<and> (\<forall>j. j \<notin> done \<longrightarrow> same_id (as_idx s) (purge_ix d s pa) j)
      \<and> (\<forall>j \<in> done. purged_rec (as_idx s) (purge_ix d s pa) j)
      \<and> (\<forall>er \<in> set (pa_conv pa). r_id (er_res er) \<in> done)
      \<and> ix_golive (purge_ix d s pa) = ix_golive (as_idx s))"

lemma purge_invD:
  assumes "purge_inv d s done pa"
  shows "mirrors d (purge_db s pa) (purge_ix d s pa)" "store_ok (purge_db s pa) (purge_ix d s pa)"
    "j \<notin> done \<Longrightarrow> same_id (as_idx s) (purge_ix d s pa) j" "j \<in> done \<Longrightarrow> purged_rec (as_idx s) (purge_ix d s pa) j"
    "er \<in> set (pa_conv pa) \<Longrightarrow> r_id (er_res er) \<in> done" "ix_golive (purge_ix d s pa) = ix_golive (as_idx s)"
  using assms unfolding purge_inv_def by blast+

text \<open>Deleting by the old index or by the present one deletes the same keys.\<close>

lemma lookup_delete_keys_cong:
  assumes "same_id ix ix' i"
  shows "apply_batch (delete_keys ix i) db = apply_batch (delete_keys ix' i) db"
  by (rule fmap_ext) (use assms in \<open>simp add: lookup_delete_keys same_id_def\<close>)

lemma same_id_trans: "same_id a b j \<Longrightarrow> same_id b c j \<Longrightarrow> same_id a c j"
  unfolding same_id_def by metis

lemma same_id_drop: "j \<noteq> i \<Longrightarrow> same_id ix (drop_record i ix) j"
  unfolding same_id_def any_fingerprint_def has_fingerprint_def by (auto split: if_splits)

lemma same_id_take: "j \<noteq> r_id res \<Longrightarrow> same_id ix (take_index d er res ix) j"
  unfolding same_id_def any_fingerprint_def has_fingerprint_def by simp

lemma residue_rec_ok:
  assumes "st = st_tombstoned \<or> st = st_rejected"
    and "y = zero_rec\<lparr>r_schema := a, r_id := i, r_slug := sl, r_base_slug := bs, r_status := st, r_topics := tp,
        r_status_at := sa, r_prelive := pl, r_residue := True, r_reason := re, r_tombstoned_at := ta\<rparr>"
  shows "rec_ok y"
  unfolding assms(2) using assms(1) by (auto simp: rec_ok_def shape_ok_def status_ok_def converts_def zero_rec_def)

lemma purge_residue_form:
  assumes "st = st_tombstoned \<or> st = st_rejected"
  shows "rec_ok (purge_residue r (to_residue st re ts q))"
proof (rule residue_rec_ok [OF assms])
  define re' where "re' = (if r_residue r then re else case r_moderation r of None \<Rightarrow> re | Some m \<Rightarrow> md_reason m)"
  define ta where "ta = (if r_residue r then r_tombstoned_at r
     else if st = st_tombstoned then ts else if r_residue q then r_tombstoned_at q else [])"
  define sa where "sa = (if r_residue r then r_status_at r else if st = st_tombstoned then ts else r_status_at q)"
  show "purge_residue r (to_residue st re ts q)
     = zero_rec\<lparr>r_schema := 1, r_id := r_id q, r_slug := r_slug q, r_base_slug := r_base_slug q, r_status := st,
        r_topics := r_topics q, r_status_at := sa, r_prelive := r_prelive q, r_residue := True, r_reason := re',
        r_tombstoned_at := ta\<rparr>"
    unfolding re'_def ta_def sa_def
    by (cases "r_moderation r") (simp_all add: purge_residue_def to_residue_def Let_def zero_rec_def)
qed

lemma purge_residue_ok:
  assumes c: "converts r" and x: "x = to_residue (r_status r) re ts (r\<lparr>r_prelive := False\<rparr>)"
  shows "residue_of r (purge_residue r x)" "\<not> r_prelive (purge_residue r x)" "r_status (purge_residue r x) = r_status r"
proof -
  have st: "r_status r = st_tombstoned \<or> r_status r = st_rejected" using c by (simp add: converts_def)
  have b: "r_id (purge_residue r x) = r_id x" "r_slug (purge_residue r x) = r_slug x" "r_topics (purge_residue r x) = r_topics x"
    "r_residue (purge_residue r x) = r_residue x" "r_prelive (purge_residue r x) = r_prelive x"
    "r_status (purge_residue r x) = r_status x"
    by (simp_all add: purge_residue_def split: option.splits)
  have "rec_ok (purge_residue r x)" unfolding x by (rule purge_residue_form [OF st])
  with b x show "residue_of r (purge_residue r x)" by (simp add: residue_of_def)
  show "\<not> r_prelive (purge_residue r x)" "r_status (purge_residue r x) = r_status r" using b x by simp_all
qed

lemma purge_step_keep:
  assumes p: "purge_inv d s done pa" and i: "i \<notin> done"
    and r: "\<forall>r. fmlookup (ix_recs (as_idx s)) i = Some r \<longrightarrow> \<not> r_prelive r"
  shows "purge_inv d s (insert i done) pa"
proof -
  note sm = purge_invD(3) [OF p i]
  have "purged_rec (as_idx s) (purge_ix d s pa) i"
    using sm r by (auto simp: purged_rec_def same_id_def split: option.splits)
  then show ?thesis using p unfolding purge_inv_def by simp
qed

lemma purge_step_delete:
  assumes p: "purge_inv d s done pa" and i: "i \<notin> done" "valid_id i"
    and r: "fmlookup (ix_recs (as_idx s)) i = Some r" "r_prelive r" "\<not> converts r"
  shows "purge_inv d s (insert i done) (pa\<lparr>pa_ops := pa_ops pa @ delete_keys (as_idx s) i, pa_deleted := pa_deleted pa @ [i]\<rparr>)"
proof -
  let ?pa = "pa\<lparr>pa_ops := pa_ops pa @ delete_keys (as_idx s) i, pa_deleted := pa_deleted pa @ [i]\<rparr>"
  note sm = purge_invD(3) [OF p i(1)]
  have db: "purge_db s ?pa = apply_batch (delete_keys (purge_ix d s pa) i) (purge_db s pa)"
    using lookup_delete_keys_cong [OF sm] by simp
  have ix: "purge_ix d s ?pa = drop_record i (purge_ix d s pa)"
    using drop_takes_commute [of "pa_conv pa" i d] purge_invD(5) [OF p] i(1) by fastforce
  have "same_id (as_idx s) (purge_ix d s ?pa) j" if "j \<notin> insert i done" for j
    using same_id_trans [OF purge_invD(3) [OF p, of j] same_id_drop [of j i]] that unfolding ix by simp
  moreover have "purged_rec (as_idx s) (purge_ix d s ?pa) j" if "j \<in> insert i done" for j
  proof (cases "j = i")
    case True
    then show ?thesis using r unfolding ix by (simp add: purged_rec_def)
  next
    case False
    then show ?thesis using purge_invD(4) [OF p, of j] that unfolding ix
      by (cases "fmlookup (ix_recs (as_idx s)) j") (simp_all add: purged_rec_def)
  qed
  ultimately show ?thesis
    using delete_mirrors [OF purge_invD(1) [OF p] i(2)] delete_store_ok [OF purge_invD(2,1) [OF p] i(2)]
      purge_invD(5,6) [OF p]
    unfolding purge_inv_def db ix by simp
qed

lemma purge_step_convert:
  assumes p: "purge_inv d s done pa" and i: "i \<notin> done" and ok: "store_ok (as_db s) (as_idx s)" and id: "r_id r = i"
    and r: "fmlookup (ix_recs (as_idx s)) i = Some r" "r_prelive r" "converts r"
    and f: "fresh_ok d fr"
    and e: "erase_into e' d s (r\<lparr>r_prelive := False\<rparr>) (r_status r) re ts fr = Some (ops, er)"
    and res: "res = purge_residue r (er_res er)"
  shows "purge_inv d s (insert i done) (pa\<lparr>pa_ops := pa_ops pa @ ops @ [BSet (record_key i) (DRecord (marshal_record res))],
     pa_conv := pa_conv pa @ [er\<lparr>er_res := res\<rparr>]\<rparr>)" (is "purge_inv d s _ ?pa")
proof -
  note sm = purge_invD(3) [OF p i]
  from erase_into_effect [OF ok refl f [unfolded fresh_ok_def] e] id
  obtain doc where w: "fp_write d (as_idx s) i er doc"
    and te: "\<And>db res. take_effect i res doc db (apply_batch (ops @ [BSet (record_key i) (DRecord (marshal_record res))]) db)"
    and er: "er_res er = to_residue (r_status r) re ts (r\<lparr>r_prelive := False\<rparr>)" by auto
  have ro: "residue_of r res" "\<not> r_prelive res" "r_status res = r_status r"
    using purge_residue_ok [OF r(3) er] by (simp_all add: res)
  have ri: "r_id res = i" using ro id by (simp add: residue_of_def)
  have w': "fp_write d (purge_ix d s pa) i er doc" using w sm by (simp add: fp_write_def same_id_def split: option.splits)
  have r': "fmlookup (ix_recs (purge_ix d s pa)) i = Some r" using sm r by (simp add: same_id_def)
  have ix: "purge_ix d s ?pa = take_index d er res (purge_ix d s pa)" by (simp add: take_index_def)
  have db: "purge_db s ?pa = apply_batch (ops @ [BSet (record_key i) (DRecord (marshal_record res))]) (purge_db s pa)" by simp
  have "same_id (as_idx s) (purge_ix d s ?pa) j" if "j \<notin> insert i done" for j
    using same_id_trans [OF purge_invD(3) [OF p, of j] same_id_take [of j res]] that ri unfolding ix by simp
  moreover have "purged_rec (as_idx s) (purge_ix d s ?pa) j" if "j \<in> insert i done" for j
  proof (cases "j = i")
    case True
    then show ?thesis using r ro ri unfolding ix by (simp add: purged_rec_def)
  next
    case False
    then show ?thesis using purge_invD(4) [OF p, of j] that ri unfolding ix
      by (cases "fmlookup (ix_recs (as_idx s)) j") (simp_all add: purged_rec_def)
  qed
  ultimately show ?thesis
    using take_mirrors [OF purge_invD(1) [OF p] r' ro(1) w' te] take_store_ok [OF purge_invD(2,1) [OF p] r' ro(1) w' te]
      purge_invD(5,6) [OF p] ri
    unfolding purge_inv_def db ix by simp
qed

lemma purge_one_inv:
  assumes p: "purge_inv d s done pa" and i: "i \<notin> done" and inv: "art_inv d s"
    and f: "\<And>j. fresh_ok d (fmlookup fresh j)" and o: "purge_one e d s fresh i (Some pa) = Some pa'"
  shows "purge_inv d s (insert i done) pa'"
proof (cases "fmlookup (ix_recs (as_idx s)) i")
  case None
  then show ?thesis using purge_step_keep [OF p i] o by (simp add: purge_one_def)
next
  case (Some r)
  have m: "mirrors d (as_db s) (as_idx s)" and ok: "store_ok (as_db s) (as_idx s)" using inv by (simp_all add: art_inv_def)
  note id = mirrors_rec_id [OF m Some]
  consider "\<not> r_prelive r" | "r_prelive r" "\<not> converts r" | "r_prelive r" "converts r" by blast
  then show ?thesis
  proof cases
    case 1
    then show ?thesis using purge_step_keep [OF p i] o Some by (simp add: purge_one_def)
  next
    case 2
    then show ?thesis using purge_step_delete [OF p i id(2) Some] o Some by (auto simp: purge_one_def)
  next
    case 3
    then obtain ops er where e: "erase_into (env.truncate e) d s (r\<lparr>r_prelive := False\<rparr>) (r_status r) (r_reason r) (ae_now e)
        (fmlookup fresh i) = Some (ops, er)"
      using o Some by (auto simp: purge_one_def split: option.splits)
    show ?thesis using purge_step_convert [OF p i ok id(1) Some 3 f e refl] o Some 3 e
      by (auto simp: purge_one_def Let_def)
  qed
qed

lemma purge_fold_inv:
  assumes inv: "art_inv d s" and f: "\<And>j. fresh_ok d (fmlookup fresh j)" and x: "distinct xs"
    and o: "fold (purge_one e d s fresh) xs (Some \<lparr>pa_ops = [], pa_deleted = [], pa_conv = []\<rparr>) = Some pa"
  shows "purge_inv d s (set xs) pa"
  using x o
proof (induction xs arbitrary: pa rule: rev_induct)
  case Nil
  then show ?case using inv by (auto simp: purge_inv_def art_inv_def same_id_def)
next
  case (snoc x xs)
  from snoc.prems(2) have l: "purge_one e d s fresh x (fold (purge_one e d s fresh) xs (Some \<lparr>pa_ops = [], pa_deleted = [], pa_conv = []\<rparr>)) = Some pa"
    by simp
  then obtain pa0 where p0: "fold (purge_one e d s fresh) xs (Some \<lparr>pa_ops = [], pa_deleted = [], pa_conv = []\<rparr>) = Some pa0"
    by (cases "fold (purge_one e d s fresh) xs (Some \<lparr>pa_ops = [], pa_deleted = [], pa_conv = []\<rparr>)")
      (auto simp: purge_one_def)
  from snoc.IH [OF _ p0] snoc.prems(1) have "purge_inv d s (set xs) pa0" by simp
  from purge_one_inv [OF this _ inv f, of x e pa] l p0 snoc.prems(1) show ?case by simp
qed

text \<open>The committed purge: every staging record is gone or kept as a residue of production.\<close>

lemma apply_purge_spec:
  assumes inv: "art_inv d s" and f: "\<And>j. fresh_ok d (fmlookup fresh j)"
    and o: "apply_purge_locked e d p n fresh s = (Some g, s')"
  shows "art_inv d s'" "ix_golive (as_idx s') = Some g" "purged_rec (as_idx s) (as_idx s') j"
    "gm_by g = pr_id p" "gm_records g = n"
proof -
  let ?xs = "sorted_list_of_fset (fmdom (ix_recs (as_idx s)))"
  obtain pa where pa: "fold (purge_one e d s fresh) ?xs (Some \<lparr>pa_ops = [], pa_deleted = [], pa_conv = []\<rparr>) = Some pa"
    using o by (auto simp: apply_purge_locked_def split: option.splits)
  have pi: "purge_inv d s (set ?xs) pa" by (rule purge_fold_inv [OF inv f _ pa]) simp
  have s': "as_db s' = apply_batch [BSet (meta_key ''golive'') (DGolive g)] (purge_db s pa)"
    "as_idx s' = (purge_ix d s pa)\<lparr>ix_golive := Some g\<rparr>" "gm_by g = pr_id p" "gm_records g = n"
    using o pa by (auto simp: apply_purge_locked_def Let_def split: if_splits)
  have all: "purged_rec (as_idx s) (purge_ix d s pa) j" for j
  proof (cases "j \<in> set ?xs")
    case True
    then show ?thesis by (rule purge_invD(4) [OF pi])
  next
    case False
    then have "fmlookup (ix_recs (as_idx s)) j = None" by simp
    with purge_invD(3) [OF pi False] show ?thesis by (simp add: purged_rec_def same_id_def)
  qed
  have np: "\<not> r_prelive r" if "fmlookup (ix_recs (purge_ix d s pa)) j = Some r" for j r
    using all [of j] that by (auto simp: purged_rec_def split: option.splits if_splits)
  note m = purge_invD(1) [OF pi] note ok = purge_invD(2) [OF pi]
  let ?db = "fmupd (meta_key ''golive'') (DGolive g) (purge_db s pa)"
  have o: "rec_at ?db j = rec_at (purge_db s pa) j" "slug_at ?db x = slug_at (purge_db s pa) x"
    "claim_at ?db x = claim_at (purge_db s pa) x" "rows_at d ?db j = rows_at d (purge_db s pa) j"
    "fp_at d ?db j = fp_at d (purge_db s pa) j" "fp_other_at d ?db j = fp_other_at d (purge_db s pa) j" for j x
    by (rule at_cong, simp)+
  have live: "live_content ((purge_ix d s pa)\<lparr>ix_golive := Some g\<rparr>) = live_content (purge_ix d s pa)"
    by (simp add: live_content_def fun_eq_iff)
  have "mirrors d (as_db s') (as_idx s')"
    unfolding mirrors_def s' using mirrorsD [OF m] by (simp add: o live golive_at_def)
  moreover have "erased_at ?db j" if "erased_at (purge_db s pa) j" for j
    by (rule erased_antimono [OF that]) auto
  then have "store_ok (as_db s') (as_idx s')"
    using ok np unfolding store_ok_def s' by (auto simp: live)
  ultimately show "art_inv d s'" by (simp add: art_inv_def)
  show "ix_golive (as_idx s') = Some g" "gm_by g = pr_id p" "gm_records g = n" using s' by simp_all
  show "purged_rec (as_idx s) (as_idx s') j" using all [of j]
    by (cases "fmlookup (ix_recs (as_idx s)) j") (simp_all add: purged_rec_def s')
qed

lemma commit_purge_inv:
  assumes inv: "art_inv d s" and f: "\<And>j. fresh_ok d (fmlookup fresh j)"
    and c: "commit_purge e d p n fresh s = (out, s')"
  shows "art_inv d s'"
proof (cases "s' = s")
  case True
  with inv show ?thesis by simp
next
  case False
  then obtain a k g where "apply_purge_locked e d a k fresh s = (Some g, s')"
    using c by (auto simp: commit_purge_def apply_purge_locked_def Let_def
        split: sum.splits option.splits if_splits prod.splits)
  from apply_purge_spec(1) [OF inv f this] show ?thesis .
qed

end
