(* ===== verification/ArtCounters.thy ===== *)
theory ArtCounters
  imports ArtPurge
begin

text \<open>
  Reader counts (\<open>src/internal/articles/counters.go\<close>): distinct readers per article and UTC day, folded into
  persisted counts when the day turns and flushed in one batch.
\<close>

section \<open>Calendar days\<close>

text \<open>\<open>time.Time.Format("2006-01-02")\<close> of a day, counted from the Unix epoch.\<close>

definition civil :: "int \<Rightarrow> int \<times> int \<times> int" where
  "civil z0 = (let z = z0 + 719468; era = z div 146097; doe = z mod 146097;
     yoe = (doe - doe div 1460 + doe div 36524 - doe div 146096) div 365;
     doy = doe - (365 * yoe + yoe div 4 - yoe div 100); mp = (5 * doy + 2) div 153;
     dd = doy - (153 * mp + 2) div 5 + 1; mm = (if mp < 10 then mp + 3 else mp - 9)
   in (yoe + era * 400 + (if mm \<le> 2 then 1 else 0), mm, dd))"

definition pad :: "nat \<Rightarrow> nat \<Rightarrow> bytes" where
  "pad w n = replicate (w - length (itoa n)) (CHR ''0'') @ itoa n"

definition utc_day :: "int \<Rightarrow> bytes" where
  "utc_day z = (case civil z of (y, m, dd) \<Rightarrow> pad 4 (nat y) @ ''-'' @ pad 2 (nat m) @ ''-'' @ pad 2 (nat dd))"

section \<open>The counters\<close>

definition counter_days :: int where "counter_days = 14"

definition load_counters :: "(bytes, (bytes, nat) fmap) fmap \<Rightarrow> int \<Rightarrow> counters" where
  "load_counters days now = \<lparr>c_day = utc_day now, c_base = days, c_sets = fmempty, c_dirty = {||}\<rparr>"

definition count_at :: "(bytes, (bytes, nat) fmap) fmap \<Rightarrow> bytes \<Rightarrow> bytes \<Rightarrow> nat" where
  "count_at base i day = (case fmlookup base i of None \<Rightarrow> 0
     | Some m \<Rightarrow> case fmlookup m day of None \<Rightarrow> 0 | Some n \<Rightarrow> n)"

definition add_count :: "bytes \<Rightarrow> nat \<Rightarrow> (bytes, nat) fmap option \<Rightarrow> (bytes, nat) fmap" where
  "add_count day n mo = (let m = (case mo of None \<Rightarrow> fmempty | Some m \<Rightarrow> m) in
     fmupd day ((case fmlookup m day of None \<Rightarrow> 0 | Some k \<Rightarrow> k) + n) m)"

definition fold_sets :: "bytes \<Rightarrow> (bytes, bytes fset) fmap \<Rightarrow> (bytes, (bytes, nat) fmap) fmap
    \<Rightarrow> (bytes, (bytes, nat) fmap) fmap" where
  "fold_sets day sets base = fold (\<lambda>i b. fmupd i (add_count day (fcard (the (fmlookup sets i))) (fmlookup b i)) b)
     (sorted_list_of_fset (fmdom sets)) base"

definition stale_days :: "bytes \<Rightarrow> (bytes, nat) fmap \<Rightarrow> bool" where
  "stale_days cutoff m = list_ex (\<lambda>day. day < cutoff) (sorted_list_of_fset (fmdom m))"

definition roll_locked :: "int \<Rightarrow> counters \<Rightarrow> counters" where
  "roll_locked now c =
     (if utc_day now = c_day c then c
      else let base = fold_sets (c_day c) (c_sets c) (c_base c);
               cutoff = utc_day (now - (counter_days - 1));
               stale = ffilter (\<lambda>i. case fmlookup base i of None \<Rightarrow> False | Some m \<Rightarrow> stale_days cutoff m) (fmdom base)
        in \<lparr>c_day = utc_day now, c_base = fmmap (fmfilter (\<lambda>day. \<not> day < cutoff)) base, c_sets = fmempty,
            c_dirty = c_dirty c |\<union>| fmdom (c_sets c) |\<union>| stale\<rparr>)"

definition add_reader :: "bytes \<Rightarrow> bytes \<Rightarrow> int \<Rightarrow> counters \<Rightarrow> counters" where
  "add_reader i reader now c0 = (let c = roll_locked now c0;
       s = (case fmlookup (c_sets c) i of None \<Rightarrow> {||} | Some s \<Rightarrow> s) in
     if reader |\<in>| s then c\<lparr>c_sets := fmupd i s (c_sets c)\<rparr>
     else c\<lparr>c_sets := fmupd i (finsert reader s) (c_sets c), c_dirty := finsert i (c_dirty c)\<rparr>)"

definition days_locked :: "counters \<Rightarrow> bytes \<Rightarrow> (bytes, nat) fmap option" where
  "days_locked c i = (let n = (case fmlookup (c_sets c) i of None \<Rightarrow> 0 | Some s \<Rightarrow> fcard s) in
     if 0 < n then Some (add_count (c_day c) n (fmlookup (c_base c) i)) else fmlookup (c_base c) i)"

definition counter_days_of :: "bytes \<Rightarrow> int \<Rightarrow> counters \<Rightarrow> (bytes, nat) fmap option \<times> counters" where
  "counter_days_of i now c0 = (let c = roll_locked now c0 in (days_locked c i, c))"

definition readers_7d :: "bytes \<Rightarrow> int \<Rightarrow> counters \<Rightarrow> nat" where
  "readers_7d i now c = (case fst (counter_days_of i now c) of None \<Rightarrow> 0
     | Some m \<Rightarrow> sum_list (map (\<lambda>day. if utc_day (now - 6) \<le> day then the (fmlookup m day) else 0)
         (sorted_list_of_fset (fmdom m))))"

text \<open>\<open>flushLocked\<close>: the changed counters of live articles in one batch; a failed commit keeps them dirty.\<close>

definition flush_locked :: "env \<Rightarrow> int \<Rightarrow> art_store \<Rightarrow> bool \<times> art_store" where
  "flush_locked e now s =
     (let c = roll_locked now (as_counters s); ids = sorted_list_of_fset (c_dirty c);
          c1 = c\<lparr>c_dirty := {||}\<rparr> in
      if ids = [] then (True, s\<lparr>as_counters := c\<rparr>)
      else let live = filter (live_content (as_idx s)) ids;
               c2 = fold drop_counters (filter (\<lambda>i. \<not> live_content (as_idx s) i) ids) c1;
               ops = map (\<lambda>i. BSet (counters_key i) (DCounters (case days_locked c i of None \<Rightarrow> fmempty | Some m \<Rightarrow> m))) live in
        if commit_err e then (False, s\<lparr>as_counters := c2\<lparr>c_dirty := c_dirty c2 |\<union>| fset_of_list live\<rparr>\<rparr>)
        else (True, s\<lparr>as_db := apply_batch ops (as_db s), as_counters := c2\<rparr>))"

section \<open>Counting\<close>

lemma lookup_fold_sets:
  "fmlookup (fold_sets day sets base) i = (case fmlookup sets i of None \<Rightarrow> fmlookup base i
     | Some s \<Rightarrow> Some (add_count day (fcard s) (fmlookup base i)))"
proof -
  have "fmlookup (fold (\<lambda>i b. fmupd i (add_count day (fcard (the (fmlookup sets i))) (fmlookup b i)) b) xs b) i
      = (if i \<in> set xs then Some (add_count day (fcard (the (fmlookup sets i))) (fmlookup b i)) else fmlookup b i)"
    if "distinct xs" for xs b
    using that by (induction xs arbitrary: b) auto
  then show ?thesis by (auto simp: fold_sets_def split: option.splits)
qed

definition readers_on :: "counters \<Rightarrow> bytes \<Rightarrow> bytes \<Rightarrow> nat" where
  "readers_on c i day = (case days_locked c i of None \<Rightarrow> 0 | Some m \<Rightarrow> case fmlookup m day of None \<Rightarrow> 0 | Some n \<Rightarrow> n)"

lemma readers_on_eq:
  "readers_on c i day = count_at (c_base c) i day
     + (if day = c_day c then (case fmlookup (c_sets c) i of None \<Rightarrow> 0 | Some s \<Rightarrow> fcard s) else 0)"
  by (auto simp: readers_on_def days_locked_def add_count_def count_at_def Let_def split: option.splits)

text \<open>Turning the day loses no count inside the window: the finished day's sets become persisted counts.\<close>

lemma roll_keeps_counts:
  assumes "\<not> day < utc_day (now - (counter_days - 1))" "day \<noteq> utc_day now \<or> utc_day now = c_day c"
  shows "readers_on (roll_locked now c) i day = readers_on c i day"
proof (cases "utc_day now = c_day c")
  case True
  then show ?thesis by (simp add: roll_locked_def)
next
  case False
  have "count_at (fmmap (fmfilter (\<lambda>day. \<not> day < utc_day (now - (counter_days - 1)))) b) i day = count_at b i day" for b
    using assms(1) by (auto simp: count_at_def split: option.splits)
  moreover have "count_at (fold_sets (c_day c) (c_sets c) (c_base c)) i day = readers_on c i day"
    by (auto simp: count_at_def lookup_fold_sets readers_on_eq add_count_def Let_def split: option.splits)
  ultimately show ?thesis using False assms(2)
    by (simp add: roll_locked_def Let_def readers_on_eq [of "\<lparr>c_day = _, c_base = _, c_sets = _, c_dirty = _\<rparr>"])
qed

text \<open>A reader counts once a day: the first read adds one, every later one of the day adds nothing.\<close>

lemma add_reader_counts:
  assumes "c_day c = utc_day now"
  shows "readers_on (add_reader i r now c) i (utc_day now) = readers_on c i (utc_day now)
      + (if \<exists>s. fmlookup (c_sets c) i = Some s \<and> r |\<in>| s then 0 else 1)"
    and "add_reader i r now (add_reader i r now c) = add_reader i r now c"
proof -
  have r: "roll_locked now x = x" if "c_day x = utc_day now" for x using that by (simp add: roll_locked_def)
  show "readers_on (add_reader i r now c) i (utc_day now) = readers_on c i (utc_day now)
      + (if \<exists>s. fmlookup (c_sets c) i = Some s \<and> r |\<in>| s then 0 else 1)"
    using assms by (auto simp: add_reader_def r Let_def readers_on_eq fcard_finsert_disjoint split: option.splits)
  have "c_day (add_reader i r now c) = utc_day now" using assms by (simp add: add_reader_def r Let_def)
  then show "add_reader i r now (add_reader i r now c) = add_reader i r now c"
    using assms by (auto simp: add_reader_def r Let_def split: option.splits intro!: counters.equality fmap_ext)
qed

section \<open>Flushing keeps the invariant\<close>

lemma lookup_counter_ops:
  assumes "distinct xs"
  shows "fmlookup (apply_batch (map (\<lambda>i. BSet (counters_key i) (DCounters (f i))) xs) db) k
     = (case List.find (\<lambda>i. k = counters_key i) xs of None \<Rightarrow> fmlookup db k | Some i \<Rightarrow> Some (DCounters (f i)))"
  using assms
proof (induction xs arbitrary: db)
  case Nil
  then show ?case by simp
next
  case (Cons x xs)
  have "List.find (\<lambda>i. counters_key x = counters_key i) xs = None" using Cons.prems by (simp add: find_None_iff)
  with Cons show ?case by (auto split: option.splits)
qed

lemma flush_inv:
  assumes inv: "art_inv d s" and f: "flush_locked e now s = (b, s')"
  shows "art_inv d s'"
proof -
  let ?ids = "sorted_list_of_fset (c_dirty (roll_locked now (as_counters s)))"
  let ?f = "\<lambda>i. case days_locked (roll_locked now (as_counters s)) i of None \<Rightarrow> fmempty | Some m \<Rightarrow> m"
  let ?live = "filter (live_content (as_idx s)) ?ids"
  let ?db = "apply_batch (map (\<lambda>i. BSet (counters_key i) (DCounters (?f i))) ?live) (as_db s)"
  have m: "mirrors d (as_db s) (as_idx s)" and ok: "store_ok (as_db s) (as_idx s)" using inv by (simp_all add: art_inv_def)
  have s': "as_idx s' = as_idx s" "as_db s' \<in> {as_db s, ?db}"
    using f by (auto simp: flush_locked_def Let_def split: if_splits)
  have l: "fmlookup ?db k = (case List.find (\<lambda>i. k = counters_key i) ?live of None \<Rightarrow> fmlookup (as_db s) k | Some i \<Rightarrow> Some (DCounters (?f i)))" for k
    by (rule lookup_counter_ops) simp
  have o: "fmlookup ?db k = fmlookup (as_db s) k" if "\<And>i. live_content (as_idx s) i \<Longrightarrow> k \<noteq> counters_key i" for k
  proof -
    have "List.find (\<lambda>i. k = counters_key i) ?live = None" using that by (auto simp: find_None_iff)
    then show ?thesis by (simp add: l)
  qed
  have at: "rec_at ?db j = rec_at (as_db s) j" "slug_at ?db x = slug_at (as_db s) x" "claim_at ?db x = claim_at (as_db s) x"
    "rows_at d ?db j = rows_at d (as_db s) j" "fp_at d ?db j = fp_at d (as_db s) j" "fp_other_at d ?db j = fp_other_at d (as_db s) j"
    "golive_at ?db = golive_at (as_db s)" for j x
    by (rule at_cong, rule o, simp)+
  have "mirrors d ?db (as_idx s)" unfolding mirrors_def using mirrorsD [OF m] by (simp add: at)
  moreover have "erased_at ?db j" if e: "erased_at (as_db s) j" and d: "\<not> live_content (as_idx s) j" for j
  proof -
    have "fmlookup ?db (embedding_key j) = None" "fmlookup ?db (counters_key j) = None"
      using e d by (subst o; auto simp: erased_at_def)+
    moreover have "fmlookup ?db k = None" if k: "version_lower j \<le> k" "k < version_upper j" for k
      using e k version_range_sub [OF k] by (subst o) (auto simp: erased_at_def)
    ultimately show ?thesis by (simp add: erased_at_def)
  qed
  moreover have "doc_ok v" if "fmlookup ?db k = Some v" for k v
    using that store_okD(6) [OF ok] by (auto simp: l split: option.splits)
  ultimately have "mirrors d ?db (as_idx s)" "store_ok ?db (as_idx s)"
    using ok unfolding store_ok_def by blast+
  then show ?thesis using s' m ok by (auto simp: art_inv_def)
qed

end
