(* ===== verification/ArtSystem.thy ===== *)
theory ArtSystem
  imports ArtCounters
begin

text \<open>
  The article store as a transition system: every critical section of the write lock, the counting of
  reads, the background re-embedding and flushing, shutdown, and a restart that keeps only the database.
\<close>

section \<open>Re-embedding and restarting\<close>

definition needs_reembed :: "index \<Rightarrow> bytes \<Rightarrow> rec option" where
  "needs_reembed ix i = (case fmlookup (ix_recs ix) i of None \<Rightarrow> None
     | Some r \<Rightarrow> if r_residue r \<or> r_status r = st_pending \<or> fmlookup (ix_rows ix) i \<noteq> None then None else Some r)"

text \<open>One id of \<open>reembed\<close> inside the lock: the texts must still be those that were embedded.\<close>

definition reembed_one :: "art_env \<Rightarrow> deps \<Rightarrow> bytes \<Rightarrow> bytes list \<Rightarrow> vec list \<Rightarrow> art_store \<Rightarrow> bool \<times> art_store" where
  "reembed_one e d i texts vecs s =
     (case needs_reembed (as_idx s) i of None \<Rightarrow> (True, s)
      | Some cur \<Rightarrow>
          if as_closed s \<or> vector_texts cur \<noteq> texts \<or> commit_err e then (False, s)
          else (True, s\<lparr>as_db := apply_batch [BSet (embedding_key i) (emb_doc (embedder_shape d) (rows_for cur vecs))] (as_db s),
             as_idx := (as_idx s)\<lparr>ix_rows := fmupd i (rows_for cur vecs) (ix_rows (as_idx s))\<rparr>\<rparr>))"

text \<open>\<open>Open\<close> and \<open>Rebuild\<close> on the database a previous process left.\<close>

definition schema_ops :: "rdoc kv \<Rightarrow> rdoc bop list" where
  "schema_ops db = (if fmlookup db (meta_key ''schema'') = None then [BSet (meta_key ''schema'') DSchema] else [])"

definition rebuild_store :: "env \<Rightarrow> deps \<Rightarrow> int \<Rightarrow> rdoc kv \<Rightarrow> art_store option" where
  "rebuild_store e d now db =
     (if iter_err e ''R'' \<or> ctx_err e \<or> get_err e (meta_key ''schema'')
        \<or> (fmlookup db (meta_key ''schema'') = None \<and> commit_err e) then None
      else case rebuild d db of (ix, counts, re) \<Rightarrow>
        Some \<lparr>as_db = apply_batch (schema_ops db) db, as_idx = ix, as_counters = load_counters counts now, as_closed = False\<rparr>)"

section \<open>Steps\<close>

text \<open>A write under the configuration that names the caller \<open>a\<close>.\<close>

inductive art_write :: "deps \<Rightarrow> principal \<Rightarrow> art_store \<Rightarrow> art_store \<Rightarrow> bool" for d a where
  Put: "\<lbrakk>po_principal (ae_policy e) (pr_id p) = Some a; valid_id i; vecs_ok d vecs; check = None \<longrightarrow> body_ok d b;
      commit_article e d p i b vecs check s = (out, s')\<rbrakk> \<Longrightarrow> art_write d a s s'"
| Stub: "\<lbrakk>po_principal (ae_policy e) (pr_id p) = Some a; valid_id i; stub_ok d sb;
      commit_stub e d p i sb s = (rep, s')\<rbrakk> \<Longrightarrow> art_write d a s s'"
| Delete: "\<lbrakk>po_principal (ae_policy e) (pr_id p) = Some a; valid_id i;
      commit_delete_stub e p i s = (rep, s')\<rbrakk> \<Longrightarrow> art_write d a s s'"
| Moderate: "\<lbrakk>po_principal (ae_policy e) (pr_id p) = Some a; fresh_ok d fresh;
      commit_status e d p i act w reason fresh s = (rep, s')\<rbrakk> \<Longrightarrow> art_write d a s s'"

inductive art_step :: "deps \<Rightarrow> art_store \<Rightarrow> art_store \<Rightarrow> bool" for d where
  Write: "art_write d a s s' \<Longrightarrow> art_step d s s'"
| Purge: "\<lbrakk>\<forall>j. fresh_ok d (fmlookup fresh j); commit_purge e d p n fresh s = (rep, s')\<rbrakk> \<Longrightarrow> art_step d s s'"
| Flush: "flush_locked ev now s = (ok, s') \<Longrightarrow> art_step d s s'"
| Count: "art_step d s (s\<lparr>as_counters := add_reader i reader now (as_counters s)\<rparr>)"
| Reembed: "\<lbrakk>list_all (\<lambda>v. length v = snd (embedder_shape d)) vecs; length vecs = length texts;
      reembed_one e d i texts vecs s = (ok, s')\<rbrakk> \<Longrightarrow> art_step d s s'"
| Close: "art_step d s (s\<lparr>as_closed := True\<rparr>)"
| Restart: "rebuild_store ev d now (as_db s) = Some s' \<Longrightarrow> art_step d s s'"

inductive_cases art_writeE: "art_write d a s s'"
inductive_cases art_stepE: "art_step d s s'"

abbreviation art_run :: "deps \<Rightarrow> art_store \<Rightarrow> art_store \<Rightarrow> bool" where
  "art_run d \<equiv> rtranclp (art_step d)"

definition empty_articles :: art_store where
  "empty_articles = \<lparr>as_db = fmempty, as_idx = new_index, as_counters = new_counters, as_closed = False\<rparr>"

section \<open>The invariant holds in every run\<close>

lemma reembed_inv:
  assumes inv: "art_inv d s" and v: "list_all (\<lambda>v. length v = snd (embedder_shape d)) vecs" "length vecs = length texts"
    and r: "reembed_one e d i texts vecs s = (b, s')"
  shows "art_inv d s'"
proof (cases "s' = s")
  case True
  with inv show ?thesis by simp
next
  case False
  have m: "mirrors d (as_db s) (as_idx s)" and ok: "store_ok (as_db s) (as_idx s)" using inv by (simp_all add: art_inv_def)
  obtain cur where c: "needs_reembed (as_idx s) i = Some cur" "vector_texts cur = texts"
    and s': "s' = s\<lparr>as_db := fmupd (embedding_key i) (emb_doc (embedder_shape d) (rows_for cur vecs)) (as_db s),
      as_idx := (as_idx s)\<lparr>ix_rows := fmupd i (rows_for cur vecs) (ix_rows (as_idx s))\<rparr>\<rparr>"
    using r False by (auto simp: reembed_one_def split: option.splits if_splits)
  from c(1) have rc: "fmlookup (ix_recs (as_idx s)) i = Some cur" and nr: "\<not> r_residue cur"
    by (auto simp: needs_reembed_def split: option.splits if_splits)
  let ?db = "as_db s'" and ?ix = "as_idx s'"
  have len: "list_all (\<lambda>rw. length (rw_vec rw) = snd (embedder_shape d)) (rows_for cur vecs)"
    using rows_for_lengths v c(2) by blast
  have live: "live_content ?ix = live_content (as_idx s)" by (simp add: live_content_def fun_eq_iff s')
  have li: "live_content (as_idx s) i" using rc nr by (simp add: live_content_def)
  have at: "rec_at ?db j = rec_at (as_db s) j" "slug_at ?db x = slug_at (as_db s) x" "claim_at ?db x = claim_at (as_db s) x"
    "fp_at d ?db j = fp_at d (as_db s) j" "fp_other_at d ?db j = fp_other_at d (as_db s) j" "golive_at ?db = golive_at (as_db s)" for j x
    by (rule at_cong, simp add: s')+
  have rows: "fmlookup (ix_rows ?ix) j = (if live_content ?ix j then rows_at d ?db j else None)" for j
  proof (cases "j = i")
    case True
    then show ?thesis using li mirrors_rec_id(2) [OF m rc] len by (simp add: live) (simp add: s' rows_at_def emb_doc_def)
  next
    case False
    then have "fmlookup ?db (embedding_key j) = fmlookup (as_db s) (embedding_key j)" by (simp add: s')
    from at_cong(4) [OF this] False show ?thesis using mirrorsD(4) [OF m, of j] by (simp add: live) (simp add: s')
  qed
  have ix: "ix_recs ?ix = ix_recs (as_idx s)" "ix_slugs ?ix = ix_slugs (as_idx s)" "ix_claims ?ix = ix_claims (as_idx s)"
    "ix_fps ?ix = ix_fps (as_idx s)" "ix_fp_other ?ix = ix_fp_other (as_idx s)" "ix_full_slugs ?ix = ix_full_slugs (as_idx s)"
    "ix_golive ?ix = ix_golive (as_idx s)" by (simp_all add: s')
  have "mirrors d ?db ?ix"
    unfolding mirrors_def at ix using rows mirrorsD(1-3,5-8) [OF m] by blast
  moreover have "erased_at ?db j" if j: "erased_at (as_db s) j" "\<not> live_content (as_idx s) j" for j
  proof -
    have ji: "j \<noteq> i" using j(2) li by auto
    have "fmlookup ?db k = fmlookup (as_db s) k" if "k \<noteq> embedding_key i" for k using that by (simp add: s')
    moreover have "k \<noteq> embedding_key i" if "version_lower j \<le> k" "k < version_upper j" for k
      using version_range_sub [OF that] by auto
    ultimately show ?thesis using j(1) ji by (simp add: erased_at_def)
  qed
  moreover have "doc_ok x" if "fmlookup ?db k = Some x" for k x
    using that store_okD(6) [OF ok] by (auto simp: s' split: if_splits)
  ultimately show ?thesis
    using ok unfolding art_inv_def store_ok_def live ix by blast
qed

lemma norm_rec_ok [simp]: "rec_ok (norm_rec r) = rec_ok r"
proof -
  have "status_ok (norm_rec r) = status_ok r" by (simp add: status_ok_def converts_def)
  moreover have "shape_ok (norm_rec r) = shape_ok r" by (simp add: norm_rec_def shape_ok_def)
  ultimately show ?thesis by (simp add: rec_ok_def)
qed

lemma restart_inv:
  assumes inv: "art_inv d s" and r: "rebuild_store e d now (as_db s) = Some s'"
  shows "art_inv d s'" and "fmlookup (ix_recs (as_idx s')) i = map_option norm_rec (fmlookup (ix_recs (as_idx s)) i)"
    and "ix_golive (as_idx s') = ix_golive (as_idx s)"
proof -
  have m: "mirrors d (as_db s) (as_idx s)" and ok: "store_ok (as_db s) (as_idx s)" using inv by (simp_all add: art_inv_def)
  obtain ix counts re where b: "rebuild d (as_db s) = (ix, counts, re)"
    and s': "s' = \<lparr>as_db = apply_batch (schema_ops (as_db s)) (as_db s), as_idx = ix, as_counters = load_counters counts now, as_closed = False\<rparr>"
    using r by (auto simp: rebuild_store_def split: if_splits prod.splits)
  have ixn: "ix = norm_index (as_idx s)" by (rule mirrors_is_rebuild [OF m b])
  have recs: "fmlookup (ix_recs ix) i = map_option norm_rec (fmlookup (ix_recs (as_idx s)) i)" for i
    by (simp add: ixn norm_index_def)
  then show "fmlookup (ix_recs (as_idx s')) i = map_option norm_rec (fmlookup (ix_recs (as_idx s)) i)" by (simp add: s')
  show "ix_golive (as_idx s') = ix_golive (as_idx s)" by (simp add: s' ixn norm_index_def)
  have mi: "mirrors d (as_db s) ix"
  proof (rule rebuild_mirrors [OF b])
    show "norm_rec r = r" if "rec_at (as_db s) i = Some r" for i r
      using mirrorsD(1) [OF m, of i] that by (cases "fmlookup (ix_recs (as_idx s)) i") auto
  qed
  have live: "live_content ix i = live_content (as_idx s) i" for i
    by (cases "fmlookup (ix_recs (as_idx s)) i") (simp_all add: live_content_def recs)
  have rest: "ix_slugs ix = ix_slugs (as_idx s)" "ix_claims ix = ix_claims (as_idx s)" "ix_golive ix = ix_golive (as_idx s)"
    by (simp_all add: ixn norm_index_def)
  have oki: "store_ok (as_db s) ix"
    using ok unfolding store_ok_def live rest by (auto simp: recs)
  let ?db = "apply_batch (schema_ops (as_db s)) (as_db s)"
  have l: "fmlookup ?db k = fmlookup (as_db s) k" if "k \<noteq> meta_key ''schema''" for k
    using that by (simp add: schema_ops_def)
  have at: "rec_at ?db j = rec_at (as_db s) j" "slug_at ?db x = slug_at (as_db s) x" "claim_at ?db x = claim_at (as_db s) x"
    "rows_at d ?db j = rows_at d (as_db s) j" "fp_at d ?db j = fp_at d (as_db s) j" "fp_other_at d ?db j = fp_other_at d (as_db s) j"
    "golive_at ?db = golive_at (as_db s)" for j x
    by (rule at_cong, rule l, simp)+
  have "mirrors d ?db ix" using mi unfolding mirrors_def at .
  moreover have "erased_at ?db j" if "erased_at (as_db s) j" for j
    by (rule erased_antimono [OF that]) (auto simp: schema_ops_def)
  moreover have "doc_ok x" if "fmlookup ?db k = Some x" for k x
    using that store_okD(6) [OF ok] by (auto simp: schema_ops_def split: if_splits)
  ultimately show "art_inv d s'"
    using oki unfolding s' art_inv_def store_ok_def by simp
qed

lemma art_write_inv:
  assumes "art_write d a s s'" "art_inv d s" "dp_emb d \<noteq> None"
  shows "art_inv d s'"
  using assms(1)
proof cases
  case Put
  show ?thesis by (rule commit_article_inv [OF assms(2) Put(2) assms(3) Put(3) _ Put(5)]) (use Put(4) in blast)
next
  case Stub
  show ?thesis by (rule commit_stub_inv [OF assms(2) Stub(2-4)])
next
  case Delete
  show ?thesis by (rule commit_delete_stub_inv [OF assms(2) Delete(2,3)])
next
  case Moderate
  show ?thesis by (rule commit_status_inv [OF assms(2) Moderate(2,3)])
qed

lemma art_inv_counters [simp]: "art_inv d (s\<lparr>as_counters := c\<rparr>) = art_inv d s" "art_inv d (s\<lparr>as_closed := x\<rparr>) = art_inv d s"
  by (simp_all add: art_inv_def)

lemma art_step_inv:
  assumes "art_step d s s'" "art_inv d s" "dp_emb d \<noteq> None"
  shows "art_inv d s'"
  using assms(1)
proof cases
  case Write
  show ?thesis by (rule art_write_inv [OF Write assms(2,3)])
next
  case Purge
  show ?thesis by (rule commit_purge_inv [OF assms(2) _ Purge(2)]) (use Purge(1) in blast)
next
  case Flush
  show ?thesis by (rule flush_inv [OF assms(2) Flush])
next
  case Reembed
  show ?thesis by (rule reembed_inv [OF assms(2) Reembed])
next
  case Restart
  show ?thesis by (rule restart_inv(1) [OF assms(2) Restart])
qed (use assms in simp_all)

lemma empty_articles_inv: "art_inv d empty_articles"
  by (auto simp: art_inv_def empty_articles_def mirrors_def store_ok_def new_index_def rec_at_def slug_at_def claim_at_def
      rows_at_def fp_at_def fp_other_at_def golive_at_def full_slug_of_def live_content_def erased_at_def)

end
