(* ===== verification/ArtEffects.thy ===== *)
theory ArtEffects
  imports ArtSystem
begin

text \<open>
  What one write does to the records: exactly one id changes, its owner is of the caller's environment, its
  status moves along the allowed transitions, and its slug, its environment and its topics stay.
\<close>

section \<open>Status transitions\<close>

definition transitions :: "(bytes option \<times> bytes option) list" where
  "transitions =
     [(None, Some st_pending), (None, Some st_published), (None, Some st_held),
      (Some st_pending, Some st_published), (Some st_pending, Some st_held), (Some st_pending, Some st_tombstoned),
      (Some st_pending, None),
      (Some st_published, Some st_held), (Some st_published, Some st_rejected), (Some st_published, Some st_tombstoned),
      (Some st_held, Some st_published), (Some st_held, Some st_rejected), (Some st_held, Some st_tombstoned),
      (Some st_rejected, Some st_held), (Some st_rejected, Some st_tombstoned)]"

definition may_become :: "bytes option \<Rightarrow> bytes option \<Rightarrow> bool" where
  "may_become s t = (s = t \<or> (s, t) \<in> set transitions)"

definition status_at :: "art_store \<Rightarrow> bytes \<Rightarrow> bytes option" where
  "status_at s i = map_option r_status (fmlookup (ix_recs (as_idx s)) i)"

lemma may_become_list:
  "may_become (Some st_held) (Some st_published)" "may_become (Some st_published) (Some st_held)"
  "may_become (Some st_rejected) (Some st_held)" "may_become (Some st_published) (Some st_rejected)"
  "may_become (Some st_held) (Some st_rejected)" "may_become (Some st_pending) (Some st_published)"
  "may_become (Some st_pending) (Some st_held)" "may_become None (Some st_published)" "may_become None (Some st_held)"
  "may_become None (Some st_pending)" "may_become (Some st_pending) None" "may_become x x"
  "may_become (Some st_pending) (Some st_tombstoned)" "may_become (Some st_published) (Some st_tombstoned)"
  "may_become (Some st_held) (Some st_tombstoned)" "may_become (Some st_rejected) (Some st_tombstoned)"
  by (simp_all add: may_become_def transitions_def)

lemma write_becomes:
  assumes "t \<in> {st_published, st_held}" "u \<in> {st_pending, st_published, st_held}" "u = st_held \<longrightarrow> t = st_held"
  shows "may_become (Some u) (Some t)"
proof -
  have "u = st_pending \<or> u = st_published \<or> u = st_held" "t = st_published \<or> t = st_held" using assms(1,2) by simp_all
  then consider "u = st_pending" "t = st_published" | "u = st_pending" "t = st_held" | "u = st_published" "t = st_published"
    | "u = st_published" "t = st_held" | "u = st_held" "t = st_held"
    using assms(3) by argo
  then show ?thesis by cases (simp_all only: may_become_list)
qed

section \<open>One id at a time\<close>

definition one_change :: "principal \<Rightarrow> bytes \<Rightarrow> art_store \<Rightarrow> art_store \<Rightarrow> bool" where
  "one_change a i s s' =
     ((\<forall>j. j \<noteq> i \<longrightarrow> fmlookup (ix_recs (as_idx s')) j = fmlookup (ix_recs (as_idx s)) j)
      \<and> ix_golive (as_idx s') = ix_golive (as_idx s)
      \<and> (\<forall>r. fmlookup (ix_recs (as_idx s)) i = Some r \<longrightarrow> same_env (pr_env a) (r_prelive r))
      \<and> may_become (status_at s i) (status_at s' i)
      \<and> (\<forall>r r'. fmlookup (ix_recs (as_idx s)) i = Some r \<and> fmlookup (ix_recs (as_idx s')) i = Some r' \<longrightarrow>
            r_prelive r' = r_prelive r \<and> r_slug r' = r_slug r \<and> set (r_topics r) \<subseteq> set (r_topics r')
            \<and> (r_residue r \<longrightarrow> r_residue r'))
      \<and> (\<forall>r'. fmlookup (ix_recs (as_idx s)) i = None \<and> fmlookup (ix_recs (as_idx s')) i = Some r' \<longrightarrow>
            r_prelive r' = pr_prelive a))"

lemma one_change_refl:
  assumes "\<And>r. fmlookup (ix_recs (as_idx s)) i = Some r \<Longrightarrow> same_env (pr_env a) (r_prelive r)"
    and "\<And>j. fmlookup (ix_recs (as_idx s')) j = fmlookup (ix_recs (as_idx s)) j" "ix_golive (as_idx s') = ix_golive (as_idx s)"
  shows "one_change a i s s'"
  using assms by (auto simp: one_change_def may_become_def status_at_def)

lemma write_plan_recs:
  assumes "write_plan e d i pl rows s = (out, s')"
  shows "s' = s \<or> (fmlookup (ix_recs (as_idx s')) j = (if j = r_id (pn_rec pl) then Some (pn_rec pl) else fmlookup (ix_recs (as_idx s)) j)
      \<and> ix_golive (as_idx s') = ix_golive (as_idx s) \<and> out = CDone pl)"
  using assms by (auto simp: write_plan_def Let_def split: option.splits if_splits)

lemma name_plan_rec:
  "r_status (pn_rec (name_plan ix pl)) = r_status (pn_rec pl)" "r_prelive (pn_rec (name_plan ix pl)) = r_prelive (pn_rec pl)"
  "r_version (pn_rec (name_plan ix pl)) = r_version (pn_rec pl)" "r_topics (pn_rec (name_plan ix pl)) = r_topics (pn_rec pl)"
  by (simp_all add: name_plan_def)

text \<open>A committed article write is the plan made under the lock.\<close>

lemma commit_article_effect:
  assumes c: "commit_article e d p i b vecs check s = (out, s')" and n: "s' \<noteq> s"
  obtains a pl where "active_locked (as_closed s) (ae_policy e) (as_idx s) p ArticlesWrite True = Inr a"
    "plan_article d (as_idx s) a (ae_now e) i b check = Planned pl" "pn_write pl"
    "\<forall>j. fmlookup (ix_recs (as_idx s')) j = (if j = r_id (pn_rec (name_plan (as_idx s) pl))
       then Some (pn_rec (name_plan (as_idx s) pl)) else fmlookup (ix_recs (as_idx s)) j)"
    "ix_golive (as_idx s') = ix_golive (as_idx s)" "out = CDone (name_plan (as_idx s) pl)"
proof -
  obtain a where a: "active_locked (as_closed s) (ae_policy e) (as_idx s) p ArticlesWrite True = Inr a"
    using c n by (auto simp: commit_article_def split: sum.splits)
  obtain pl where pl: "plan_article d (as_idx s) a (ae_now e) i b check = Planned pl"
    using c n a by (auto simp: commit_article_def split: plan_result.splits)
  have w: "pn_write pl" using c n a pl by (auto simp: commit_article_def split: if_splits)
  obtain rows where wp: "write_plan e d i (name_plan (as_idx s) pl) rows s = (out, s')"
    using c n a pl w by (auto simp: commit_article_def split: if_splits option.splits)
  from that [OF a pl w] write_plan_recs [OF wp] n show ?thesis by blast
qed

lemma plan_article_effect:
  assumes ok: "store_ok db ix" and m: "mirrors d db ix"
    and pl: "plan_article d ix a ts i b check = Planned pl" and w: "pn_write pl" and b: "check = None \<longrightarrow> body_ok d b"
  shows "r_status (pn_rec pl) \<in> {st_published, st_held}"
    and "fmlookup (ix_recs ix) i = Some pv \<Longrightarrow> same_env (pr_env a) (r_prelive pv) \<and> \<not> converts pv
       \<and> (r_status pv = st_held \<longrightarrow> r_status (pn_rec pl) = st_held)"
    and "fmlookup (ix_recs ix) i = None \<Longrightarrow> r_prelive (pn_rec pl) = pr_prelive a"
proof -
  have "r_status (pn_rec pl) \<in> {st_published, st_held}
    \<and> (\<forall>pv. fmlookup (ix_recs ix) i = Some pv \<longrightarrow> same_env (pr_env a) (r_prelive pv) \<and> \<not> converts pv
       \<and> (r_status pv = st_held \<longrightarrow> r_status (pn_rec pl) = st_held))
    \<and> (fmlookup (ix_recs ix) i = None \<longrightarrow> r_prelive (pn_rec pl) = pr_prelive a)"
    using pl
  proof (cases rule: plan_articleE)
    case (unchanged pv r nt dr)
    have "pn_rec pl = set_status st_held ts pv"
      using w by (auto simp: unchanged(6) plan_same_def Let_def split: if_splits)
    with unchanged(1) plan_refusalD [OF unchanged(2)] show ?thesis by simp
  next
    case (written r nt dr)
    from written(4) show ?thesis
    proof (cases rule: plan_changedE)
      case (1 mo bu req result r')
      note nv = next_version_spec [OF 1(5)]
      have q: "req \<in> {st_published, st_held}" using b 1(1,4) by (auto simp: body_ok_def)
      have r': "pn_rec pl = r'" by (simp add: 1(8))
      have st: "r_status r' \<in> {st_published, st_held}" using nv(7) q by auto
      show ?thesis
      proof (cases "fmlookup (ix_recs ix) i")
        case None
        with nv(9) st r' show ?thesis by simp
      next
        case (Some pv)
        have "r_status r' = st_held" if "r_status pv = st_held"
          using 1(5) unfolding Some by (cases rule: next_version_Some) (use that in simp_all)
        moreover have "plan_refusal a b pv = None" using written(2) Some by blast
        ultimately show ?thesis using plan_refusalD Some st r' by simp
      qed
    qed
  qed
  then show "r_status (pn_rec pl) \<in> {st_published, st_held}"
    "fmlookup (ix_recs ix) i = Some pv \<Longrightarrow> same_env (pr_env a) (r_prelive pv) \<and> \<not> converts pv
       \<and> (r_status pv = st_held \<longrightarrow> r_status (pn_rec pl) = st_held)"
    "fmlookup (ix_recs ix) i = None \<Longrightarrow> r_prelive (pn_rec pl) = pr_prelive a" by blast+
qed

text \<open>The change a good plan makes.\<close>

lemma good_plan_change:
  assumes g: "good_plan (as_idx s) i pl"
    and r: "\<And>j. fmlookup (ix_recs (as_idx s')) j = (if j = r_id (pn_rec pl) then Some (pn_rec pl) else fmlookup (ix_recs (as_idx s)) j)"
    and gl: "ix_golive (as_idx s') = ix_golive (as_idx s)"
    and env: "\<And>pv. fmlookup (ix_recs (as_idx s)) i = Some pv \<Longrightarrow> same_env (pr_env a) (r_prelive pv)"
    and st: "may_become (status_at s i) (Some (r_status (pn_rec pl)))"
    and np: "fmlookup (ix_recs (as_idx s)) i = None \<Longrightarrow> r_prelive (pn_rec pl) = pr_prelive a"
  shows "one_change a i s s'"
  using st env np gl good_planD [OF g] unfolding one_change_def status_at_def [of s'] r by auto

lemma rec_status_cases:
  assumes "rec_ok r" "\<not> converts r"
  shows "r_status r \<in> {st_pending, st_published, st_held}"
  using rec_okD(5) [OF assms(1)] assms(2) by (auto simp: converts_def)

lemma art_put_change:
  assumes inv: "art_inv d s" and pa: "po_principal (ae_policy e) (pr_id p) = Some a" and v: "valid_id i"
    and b: "check = None \<longrightarrow> body_ok d b"
    and c: "commit_article e d p i b vecs check s = (out, s')" and n: "s' \<noteq> s"
  shows "one_change a i s s'"
proof -
  have m: "mirrors d (as_db s) (as_idx s)" and ok: "store_ok (as_db s) (as_idx s)" using inv by (simp_all add: art_inv_def)
  obtain a' pl where
    a: "active_locked (as_closed s) (ae_policy e) (as_idx s) p ArticlesWrite True = Inr a'"
    and pl: "plan_article d (as_idx s) a' (ae_now e) i b check = Planned pl" and w: "pn_write pl"
    and r: "\<forall>j. fmlookup (ix_recs (as_idx s')) j = (if j = r_id (pn_rec (name_plan (as_idx s) pl))
       then Some (pn_rec (name_plan (as_idx s) pl)) else fmlookup (ix_recs (as_idx s)) j)"
    and gl: "ix_golive (as_idx s') = ix_golive (as_idx s)" and "out = CDone (name_plan (as_idx s) pl)"
    by (rule commit_article_effect [OF c n])
  have aa: "a' = a" using active_locked_Inr(2) [OF a] pa by simp
  have g: "good_plan (as_idx s) i (name_plan (as_idx s) pl)" using plan_article_good [OF ok m pl w] b by blast
  note pe = plan_article_effect [OF ok m pl w b]
  show ?thesis
  proof (rule good_plan_change [OF g r [rule_format] gl])
    show "same_env (pr_env a) (r_prelive pv)" if "fmlookup (ix_recs (as_idx s)) i = Some pv" for pv
      using pe(2) [OF that] aa by simp
    show "r_prelive (pn_rec (name_plan (as_idx s) pl)) = pr_prelive a" if "fmlookup (ix_recs (as_idx s)) i = None"
      using pe(3) [OF that] aa by (simp add: name_plan_rec)
    show "may_become (status_at s i) (Some (r_status (pn_rec (name_plan (as_idx s) pl))))"
    proof (cases "fmlookup (ix_recs (as_idx s)) i")
      case None
      have "r_status (pn_rec pl) = st_published \<or> r_status (pn_rec pl) = st_held" using pe(1) by simp
      then have "may_become None (Some (r_status (pn_rec pl)))" by (rule disjE) (simp_all only: may_become_list)
      with None show ?thesis by (simp add: status_at_def name_plan_rec)
    next
      case (Some pv)
      have "r_status pv \<in> {st_pending, st_published, st_held}"
        using rec_status_cases [OF store_okD(1) [OF ok Some]] pe(2) [OF Some] by blast
      from write_becomes [OF pe(1) this] pe(2) [OF Some] Some show ?thesis
        by (simp add: status_at_def name_plan_rec)
    qed
  qed
qed

lemma art_stub_change:
  assumes inv: "art_inv d s" and pa: "po_principal (ae_policy e) (pr_id p) = Some a" and v: "valid_id i" and b: "stub_ok d sb"
    and c: "commit_stub e d p i sb s = (rep, s')" and n: "s' \<noteq> s"
  shows "one_change a i s s'"
proof -
  have m: "mirrors d (as_db s) (as_idx s)" and ok: "store_ok (as_db s) (as_idx s)" using inv by (simp_all add: art_inv_def)
  obtain a' where a: "active_locked (as_closed s) (ae_policy e) (as_idx s) p ArticlesStub True = Inr a'"
    using c n by (auto simp: commit_stub_def split: sum.splits)
  obtain pl where pl: "plan_stub d (as_idx s) a' (ae_now e) i sb = Planned pl"
    using c n a by (auto simp: commit_stub_def split: plan_result.splits)
  have s': "as_idx s' = index_put d i pl (as_idx s)"
    using c n a pl by (auto simp: commit_stub_def split: if_splits)
  have aa: "a' = a" using active_locked_Inr(2) [OF a] pa by simp
  note g = plan_stub_good [OF ok m pl b]
  show ?thesis
  proof (rule good_plan_change [OF g])
    show "same_env (pr_env a) (r_prelive pv)" if "fmlookup (ix_recs (as_idx s)) i = Some pv" for pv
      using pl that aa by (cases rule: plan_stubE) auto
    show "r_prelive (pn_rec pl) = pr_prelive a" if "fmlookup (ix_recs (as_idx s)) i = None"
      using pl that aa by (cases rule: plan_stubE) (auto simp: new_stub_def Let_def)
    show "may_become (status_at s i) (Some (r_status (pn_rec pl)))"
      using pl by (cases rule: plan_stubE)
        (auto simp: new_stub_def grown_stub_def Let_def may_become_def transitions_def status_at_def)
  qed (simp_all add: s')
qed

lemma art_delete_change:
  assumes pa: "po_principal (ae_policy e) (pr_id p) = Some a"
    and c: "commit_delete_stub e p i s = (rep, s')" and n: "s' \<noteq> s"
  shows "one_change a i s s'"
proof -
  obtain a' where a: "active_locked (as_closed s) (ae_policy e) (as_idx s) p ArticlesStub True = Inr a'"
    using c n by (auto simp: commit_delete_stub_def split: sum.splits)
  obtain pv where pv: "fmlookup (ix_recs (as_idx s)) i = Some pv" "same_env (pr_env a') (r_prelive pv)" "r_status pv = st_pending"
    "as_idx s' = drop_record i (as_idx s)"
    using c n a by (auto simp: commit_delete_stub_def delete_record_locked_def split: option.splits if_splits)
  have "a' = a" using active_locked_Inr(2) [OF a] pa by simp
  with pv show ?thesis by (auto simp: one_change_def may_become_def transitions_def status_at_def)
qed

lemma legal_becomes:
  assumes "legal act r fp" "act \<in> {Approve, Hold, Reject}"
  shows "may_become (Some (r_status r)) (Some (target_status act))"
proof -
  consider "act = Approve" "r_status r = st_held" | "act = Hold" "r_status r = st_published"
    | "act = Hold" "r_status r = st_rejected" | "act = Reject" "r_status r = st_published" | "act = Reject" "r_status r = st_held"
    using assms by (cases act) (simp_all, blast+)
  then show ?thesis by cases (simp_all only: target_status.simps may_become_list)
qed

lemma erase_into_res:
  assumes "erase_into e d s r st re ts fresh = Some (ops, er)"
  shows "er_res er = to_residue st re ts r"
proof (cases "any_fingerprint (as_idx s) (r_id r)")
  case True
  with assms show ?thesis by (auto simp: erase_into_def Let_def)
next
  case False
  then obtain m n v where t: "stored_title_vector e (as_db s) (r_id r) = Some (m, n, v)"
    using assms by (auto simp: erase_into_def Let_def split: option.splits)
  show ?thesis
  proof (cases fresh)
    case None
    with assms False t show ?thesis by (cases v) (auto simp: erase_into_def Let_def)
  next
    case (Some f)
    with assms False t show ?thesis by (auto simp: erase_into_def Let_def)
  qed
qed

lemma tombstone_res:
  assumes "tombstone_locked e d r reason fresh s = (b, s')" "s' \<noteq> s"
  obtains er where "er_res er = to_residue st_tombstoned reason (ae_now e) r" "as_idx s' = apply_erased d er (as_idx s)"
proof (cases "erase_into (env.truncate e) d s r st_tombstoned reason (ae_now e) fresh")
  case None
  with assms show ?thesis by (simp add: tombstone_locked_def)
next
  case (Some x)
  obtain ops er where x: "x = (ops, er)" by (cases x)
  have "as_idx s' = apply_erased d er (as_idx s)"
    using assms Some x by (auto simp: tombstone_locked_def split: if_splits)
  with that erase_into_res [OF Some [unfolded x]] show ?thesis by blast
qed

text \<open>The change of each moderation action.\<close>

lemma art_action_change:
  assumes inv: "art_inv d s" and r: "fmlookup (ix_recs (as_idx s)) i = Some r"
    and env: "same_env (pr_env a) (r_prelive r)" and l: "legal act r fp"
    and t: "apply_action e d act w reason fresh r s = (b, s')" and n: "s' \<noteq> s"
  shows "one_change a i s s'"
proof -
  have m: "mirrors d (as_db s) (as_idx s)" and ok: "store_ok (as_db s) (as_idx s)" using inv by (simp_all add: art_inv_def)
  note id = mirrors_rec_id(1) [OF m r] note ro = store_okD(1) [OF ok r]
  have st: "r_status r \<in> {st_pending, st_published, st_held, st_rejected, st_tombstoned}" by (rule rec_okD(5) [OF ro])
  have rs: "status_at s i = Some (r_status r)" using r by (simp add: status_at_def)
  have upd: "one_change a i s s'"
    if "\<And>j. fmlookup (ix_recs (as_idx s')) j = (if j = i then Some q else fmlookup (ix_recs (as_idx s)) j)"
      "ix_golive (as_idx s') = ix_golive (as_idx s)" "r_prelive q = r_prelive r" "r_slug q = r_slug r" "r_topics q = r_topics r"
      "r_residue r \<longrightarrow> r_residue q" "may_become (Some (r_status r)) (Some (r_status q))" for q
    using that r env by (simp add: one_change_def status_at_def)
  have live: "one_change a i s s'" if act: "act \<in> {Approve, Hold, Reject}"
    and p: "put_record_locked e d (moderated_rec act w reason (ae_now e) r) s = (b, s')"
  proof (rule upd [of "moderated_rec act w reason (ae_now e) r"])
    show "fmlookup (ix_recs (as_idx s')) j = (if j = i then Some (moderated_rec act w reason (ae_now e) r) else fmlookup (ix_recs (as_idx s)) j)" for j
      using p n id by (auto simp: put_record_locked_def split: if_splits)
    show "ix_golive (as_idx s') = ix_golive (as_idx s)"
      using p n by (auto simp: put_record_locked_def split: if_splits)
    show "may_become (Some (r_status r)) (Some (r_status (moderated_rec act w reason (ae_now e) r)))"
      using legal_becomes [OF l act] by simp
  qed simp_all
  show ?thesis
  proof (cases act)
    case Tombstone
    then have tl: "tombstone_locked e d r reason fresh s = (b, s')" using t by (simp add: apply_action_def)
    obtain er where er: "er_res er = to_residue st_tombstoned reason (ae_now e) r" "as_idx s' = apply_erased d er (as_idx s)"
      by (rule tombstone_res [OF tl n])
    have "er\<lparr>er_res := to_residue st_tombstoned reason (ae_now e) r\<rparr> = er" using er(1) [symmetric] by simp
    with er(2) have s': "as_idx s' = take_index d er (to_residue st_tombstoned reason (ae_now e) r) (as_idx s)"
      unfolding take_index_def by simp
    let ?q = "to_residue st_tombstoned reason (ae_now e) r"
    have "r_status r \<in> {st_pending, st_published, st_held, st_rejected}" using l st Tombstone by auto
    then have mb: "may_become (Some (r_status r)) (Some (r_status ?q))"
      by (auto simp: may_become_def transitions_def)
    show ?thesis
    proof (rule upd [of ?q])
      show "fmlookup (ix_recs (as_idx s')) j = (if j = i then Some ?q else fmlookup (ix_recs (as_idx s)) j)" for j
        by (simp add: s' id)
      show "ix_golive (as_idx s') = ix_golive (as_idx s)" by (simp add: s')
    qed (use mb in simp_all)
  next
    case EraseFingerprint
    then have "ix_recs (as_idx s') = ix_recs (as_idx s)" "ix_golive (as_idx s') = ix_golive (as_idx s)"
      using t n by (auto simp: apply_action_def erase_fingerprint_locked_def split: if_splits)
    then show ?thesis by (intro one_change_refl) (use r env in simp_all)
  next
    case DeleteStub
    then have "as_idx s' = drop_record i (as_idx s)" "r_status r = st_pending"
      using t n l id by (auto simp: apply_action_def delete_record_locked_def split: if_splits)
    then show ?thesis using r env by (simp add: one_change_def status_at_def may_become_def transitions_def)
  qed (use t live in \<open>simp_all add: apply_action_def\<close>)
qed

lemma art_write_change:
  assumes w: "art_write d a s s'" and inv: "art_inv d s" and n: "s' \<noteq> s"
  obtains i where "one_change a i s s'"
  using w
proof cases
  case Put
  show ?thesis by (rule that [OF art_put_change [OF inv Put(1,2,4,5) n]])
next
  case Stub
  show ?thesis by (rule that [OF art_stub_change [OF inv Stub n]])
next
  case Delete
  show ?thesis by (rule that [OF art_delete_change [OF Delete(1,3) n]])
next
  case (Moderate e p fresh i act w' reason rep)
  obtain ap r b where ap: "active_locked (as_closed s) (ae_policy e) (as_idx s) p ArticlesModerate False = Inr ap"
    and r: "fmlookup (ix_recs (as_idx s)) i = Some r" and env: "same_env (pr_env ap) (r_prelive r)"
    and l: "legal act r (any_fingerprint (as_idx s) i)" and t: "apply_action e d act w' reason fresh r s = (b, s')"
    using Moderate(3) n by (auto simp: commit_status_def split: sum.splits option.splits if_splits prod.splits bool.splits)
  have "ap = a" using active_locked_Inr(2) [OF ap] Moderate(1) by simp
  with art_action_change [OF inv r _ l t n] env that show ?thesis by blast
qed

end
