(* ===== verification/ArtRuns.thy ===== *)
theory ArtRuns
  imports ArtEffects
begin

text \<open>
  Runs of the article store: recovery by restart, and the PUT, DELETE, moderation and purge handlers as runs
  of the critical sections.
\<close>

section \<open>Recovery\<close>

text \<open>A store whose memory is a cache of its disk: whatever happens, loading the disk gives the memory, up to
  the form in which it was stored.\<close>

locale recoverable =
  fixes step :: "'s \<Rightarrow> 's \<Rightarrow> bool"
    and ok :: "'s \<Rightarrow> bool"
    and disk :: "'s \<Rightarrow> 'd"
    and mem :: "'s \<Rightarrow> 'm"
    and load :: "'d \<Rightarrow> 'm"
    and canon :: "'m \<Rightarrow> 'm"
  assumes step_ok: "ok s \<Longrightarrow> step s t \<Longrightarrow> ok t"
    and load_ok: "ok s \<Longrightarrow> load (disk s) = canon (mem s)"
begin

lemma run_ok: "rtranclp step s t \<Longrightarrow> ok s \<Longrightarrow> ok t"
  by (induction rule: rtranclp_induct) (auto dest: step_ok)

lemma recovers: "rtranclp step s t \<Longrightarrow> ok s \<Longrightarrow> load (disk t) = canon (mem t)"
  by (rule load_ok) (rule run_ok)

text \<open>A relation between the start and every later state, when each step keeps it.\<close>

lemma run_keeps:
  assumes "rtranclp step s t" "ok s" "P s" "\<And>x y. ok x \<Longrightarrow> step x y \<Longrightarrow> P x \<Longrightarrow> P y"
  shows "P t"
  using assms(1)
proof (induction rule: rtranclp_induct)
  case base
  then show ?case by (rule assms(3))
next
  case (step y z)
  then show ?case using assms(4) run_ok [OF step.hyps(1) assms(2)] by blast
qed

end

definition art_ok :: "deps \<Rightarrow> art_store \<Rightarrow> bool" where
  "art_ok d s = (dp_emb d \<noteq> None \<and> art_inv d s)"

interpretation art: recoverable "art_step d" "art_ok d" as_db as_idx "\<lambda>db. fst (rebuild d db)" norm_index for d
proof
  show "art_ok d t" if "art_ok d s" "art_step d s t" for s t
    using that art_step_inv by (auto simp: art_ok_def)
  show "fst (rebuild d (as_db s)) = norm_index (as_idx s)" if "art_ok d s" for s
  proof -
    obtain ix counts re where r: "rebuild d (as_db s) = (ix, counts, re)" by (metis prod_cases3)
    show ?thesis using mirrors_is_rebuild [OF _ r] that by (simp add: art_ok_def art_inv_def r)
  qed
qed

lemma art_ok_empty: "dp_emb d \<noteq> None \<Longrightarrow> art_ok d empty_articles"
  by (simp add: art_ok_def empty_articles_inv)

section \<open>The handlers as runs\<close>

definition unit_ok :: "deps \<Rightarrow> bool" where
  "unit_ok d = (dp_emb d \<noteq> None \<and> 0 < snd (embedder_shape d) \<and> (\<forall>v u. dp_unit d v = Some u \<longrightarrow> length u = length v))"

lemma those_all:
  assumes "those xs = Some ys"
  shows "length ys = length xs" "\<forall>y \<in> set ys. Some y \<in> set xs"
  using assms by (induction xs arbitrary: ys) (auto split: option.splits)

lemma check_vectors_lengths:
  assumes "check_vectors d texts ans = Some vs" "unit_ok d"
  shows "list_all (\<lambda>v. length v = snd (embedder_shape d)) vs" "length vs = length texts"
proof -
  obtain m n ws where e: "dp_emb d = Some (m, n)" "ans = Some ws" "length ws = length texts"
    and t: "those (map (\<lambda>v. if v = [] \<or> (0 < n \<and> length v \<noteq> n) then None else dp_unit d v) ws) = Some vs"
    using assms by (auto simp: check_vectors_def split: option.splits prod.splits if_splits)
  have sh: "snd (embedder_shape d) = n" by (simp add: embedder_shape_def e)
  show "length vs = length texts" using those_all(1) [OF t] e by simp
  show "list_all (\<lambda>v. length v = snd (embedder_shape d)) vs"
    unfolding list_all_iff
  proof
    fix v assume "v \<in> set vs"
    with those_all(2) [OF t] obtain w where "w \<in> set ws" "Some v = (if w = [] \<or> (0 < n \<and> length w \<noteq> n) then None else dp_unit d w)"
      by auto
    with assms(2) sh show "length v = snd (embedder_shape d)" by (auto simp: unit_ok_def split: if_splits)
  qed
qed

lemma vecs_ok_fold:
  assumes "list_all (\<lambda>v. length v = snd (embedder_shape d)) vs" "vecs_ok d m"
  shows "vecs_ok d (fold (\<lambda>(t, v) m. fmupd t v m) (zip ts vs) m)"
  using assms
proof (induction ts arbitrary: vs m)
  case Nil
  then show ?case by simp
next
  case (Cons t ts)
  then show ?case
  proof (cases vs)
    case Nil
    with Cons show ?thesis by simp
  next
    case (Cons w ws)
    have "vecs_ok d (fmupd t w m)" using Cons.prems Cons by (auto simp: vecs_ok_def)
    with Cons.IH [of ws "fmupd t w m"] Cons.prems Cons show ?thesis by simp
  qed
qed

text \<open>A writer without an entry in the active configuration writes nothing; every other is a write step.\<close>

lemma put_section_step:
  assumes "valid_id i" "vecs_ok d vecs" "check = None \<longrightarrow> body_ok d b" "commit_article e d p i b vecs check s = (out, s')"
  shows "art_run d s s'"
proof (cases "po_principal (ae_policy e) (pr_id p)")
  case None
  then have "s' = s" using assms(4) by (auto simp: commit_article_def active_locked_def split: if_splits)
  then show ?thesis by simp
next
  case (Some a)
  from art_step.Write [OF art_write.Put [OF Some assms]] show ?thesis by blast
qed

lemma put_attempts_run:
  assumes v: "valid_id i" and b: "check = None \<longrightarrow> body_ok d b" and u: "unit_ok d"
    and o: "\<forall>a \<in> set as. \<forall>s. art_run d s (at_others a s)" and vk: "vecs_ok d vecs"
    and p: "put_attempts d p i b check as vecs s = (rep, s')"
  shows "art_run d s s'"
  using o vk p
proof (induction as arbitrary: vecs s)
  case Nil
  then show ?case by simp
next
  case (Cons a as)
  show ?case
  proof (cases "plan_article d (as_idx s) p (at_now a) i b check")
    case (Planned pl)
    define missing where "missing = (if pn_content pl then missing_texts vecs (pn_rec pl) else [])"
    define got where "got = (if missing = [] then Some vecs
                 else map_option (\<lambda>vs. fold (\<lambda>(t, v) m. fmupd t v m) (zip missing vs) vecs)
                   (check_vectors d missing (at_answer a missing)))"
    note pa = Cons.prems(3) [unfolded put_attempts.simps Planned plan_result.case Let_def, folded missing_def, folded got_def]
    show ?thesis
    proof (cases got)
      case None
      with pa show ?thesis by simp
    next
      case (Some vecs')
      have vk': "vecs_ok d vecs'"
        using Some Cons.prems(2) vecs_ok_fold [OF check_vectors_lengths(1) [OF _ u]] by (auto simp: got_def split: if_splits)
      obtain out t where c: "commit_article (at_env a) d p i b vecs' check (at_others a s) = (out, t)"
        by (cases "commit_article (at_env a) d p i b vecs' check (at_others a s)")
      have r: "art_run d s t"
        using Cons.prems(1) put_section_step [OF v vk' b c] by (meson list.set_intros(1) rtranclp_trans)
      show ?thesis
      proof (cases out)
        case CRetry
        then have "put_attempts d p i b check as vecs' t = (rep, s')" using pa Some c by simp
        from Cons.IH [OF _ vk' this] Cons.prems(1) have "art_run d t s'" by simp
        with r show ?thesis by (rule rtranclp_trans)
      qed (use pa Some c r in simp_all)
    qed
  qed (use Cons.prems in simp_all)
qed

text \<open>What is refused, or must be retried, has changed nothing.\<close>

lemma write_plan_refused: "write_plan e d i pl rows s = (out, s') \<Longrightarrow> \<forall>pl'. out \<noteq> CDone pl' \<Longrightarrow> s' = s"
  by (auto simp: write_plan_def split: option.splits if_splits)

lemma commit_article_refused:
  assumes "commit_article e d p i b vecs check s = (out, s')" "\<forall>pl. out \<noteq> CDone pl"
  shows "s' = s"
  using assms write_plan_refused
  by (force simp: commit_article_def split: sum.splits plan_result.splits option.splits if_splits)

end
