(* ===== verification/ArtVersions.thy ===== *)
theory ArtVersions
  imports ArtRuns
begin

text \<open>
  Kept versions: an update stores the version it replaces and prunes the history of the article to the five
  newest (\<open>pruneVersions\<close> of \<open>src/internal/articles/put.go\<close>).
\<close>

lemma be64_be_nat: "length b = 8 \<Longrightarrow> be64 (be_nat b) = b"
proof -
  have "be_bytes (length b) (be_nat b) = b" for b :: bytes
  proof (induction b rule: rev_induct)
    case Nil
    then show ?case by simp
  next
    case (snoc c b)
    have "(be_nat b * 256 + byte_val c) div 256 = be_nat b" "(be_nat b * 256 + byte_val c) mod 256 = byte_val c"
      by (simp_all add: div_mult_self3)
    with snoc show ?case by (simp add: be_nat_def)
  qed
  then show "length b = 8 \<Longrightarrow> be64 (be_nat b) = b" unfolding be64_def by metis
qed

lemma i64_mod: "i64 v mod 2 ^ 64 = v mod 2 ^ 64"
proof -
  have "((v + 2 ^ 63) mod 2 ^ 64 - 2 ^ 63) mod 2 ^ 64 = ((v + 2 ^ 63) - 2 ^ 63) mod (2 ^ 64 :: int)"
    by (rule mod_diff_left_eq)
  then show ?thesis by (simp add: i64_def)
qed

lemma version_key_i64: "version_key i (i64 v) = version_key i v"
  by (simp only: version_key_def i64_mod)

lemma version_key_inj: "is_i64 v \<Longrightarrow> is_i64 w \<Longrightarrow> version_key i v = version_key i w \<Longrightarrow> v = w"
proof -
  assume v: "is_i64 v" and w: "is_i64 w" and e: "version_key i v = version_key i w"
  have l: "nat (x mod 2 ^ 64) < 2 ^ 64" for x :: int by (simp add: nat_less_iff)
  from e have "be64 (nat (v mod 2 ^ 64)) = be64 (nat (w mod 2 ^ 64))" by (simp add: version_key_def)
  from be64_inj [OF l l this] have "v mod 2 ^ 64 = w mod 2 ^ 64" by (simp add: nat_eq_iff)
  moreover have "i64 (x mod 2 ^ 64) = i64 x" for x by (simp add: i64_def mod_add_left_eq)
  ultimately have "i64 v = i64 w" by metis
  with v w show "v = w" by (simp add: i64_id)
qed

text \<open>A key of an id's version range that parses is the key of the version it parses to.\<close>

lemma version_range_parse:
  assumes v: "valid_id i" and k: "version_lower i \<le> k" "k < version_upper i" and p: "parse_key k = Some p"
  shows "k = version_key i (pk_version p)" "is_i64 (pk_version p)"
proof -
  obtain r where k': "k = CHR ''R'' # sub_version # i @ r" using version_range [OF k] by blast
  note a = p [unfolded k' parse_key_Cons]
  have sub: "sub_version \<notin> {sub_record, sub_embedding, sub_fingerprint, sub_counters}" by simp
  have len: "length r = 8" using a v by (auto simp: valid_id_length split: if_splits)
  have pv: "pk_version p = i64 (int (be_nat r))" using a len v by (auto simp: valid_id_length split: if_splits)
  have b: "be_nat r < 2 ^ 64" using be_nat_bound [of r] len by simp
  then have "nat (int (be_nat r) mod 2 ^ 64) = be_nat r" by (simp add: nat_mod_as_int)
  then have "version_key i (int (be_nat r)) = k"
    using be64_be_nat [OF len] unfolding version_key_def by (simp add: k' art_key_def)
  then show "k = version_key i (pk_version p)" unfolding pv version_key_i64 by simp
  show "is_i64 (pk_version p)" by (simp add: pv)
qed

definition in_history :: "bytes \<Rightarrow> int \<Rightarrow> bool" where
  "in_history i v = (is_i64 v \<and> version_lower i \<le> version_key i v \<and> version_key i v < version_upper i)"

lemma set_stored_versions:
  assumes v: "valid_id i"
  shows "set (stored_versions db i) = {v. in_history i v \<and> fmlookup db (version_key i v) \<noteq> None}"
proof (intro set_eqI iffI)
  fix v assume "v \<in> set (stored_versions db i)"
  then obtain k p where k: "version_lower i \<le> k" "k < version_upper i" "fmlookup db k \<noteq> None" "parse_key k = Some p" "v = pk_version p"
    by (auto simp: stored_versions_def List.map_filter_def set_kv_keys)
  with version_range_parse [OF assms k(1,2,4)] show "v \<in> {v. in_history i v \<and> fmlookup db (version_key i v) \<noteq> None}"
    by (auto simp: in_history_def)
next
  fix v assume "v \<in> {v. in_history i v \<and> fmlookup db (version_key i v) \<noteq> None}"
  then have h: "is_i64 v" "version_key i v \<in> set (kv_keys db (version_lower i) (version_upper i))"
    by (auto simp: in_history_def set_kv_keys)
  have "parse_key (version_key i v) = Some \<lparr>pk_sub = sub_version, pk_suffix = i, pk_version = v\<rparr>"
    using assms h(1) by (simp add: i64_id)
  with h(2) show "v \<in> set (stored_versions db i)"
    by (force simp: stored_versions_def List.map_filter_def)
qed

lemma distinct_stored_versions:
  assumes v: "valid_id i"
  shows "distinct (stored_versions db i)"
proof -
  let ?ks = "filter (\<lambda>k. parse_key k \<noteq> None) (kv_keys db (version_lower i) (version_upper i))"
  have "stored_versions db i = map (\<lambda>k. pk_version (the (parse_key k))) ?ks"
    by (auto simp: stored_versions_def List.map_filter_def intro!: map_cong)
  moreover have "inj_on (\<lambda>k. pk_version (the (parse_key k))) (set ?ks)"
  proof (rule inj_onI)
    fix x y assume "x \<in> set ?ks" "y \<in> set ?ks" and e: "pk_version (the (parse_key x)) = pk_version (the (parse_key y))"
    then obtain p q where "version_lower i \<le> x" "x < version_upper i" "parse_key x = Some p"
      "version_lower i \<le> y" "y < version_upper i" "parse_key y = Some q" by (auto simp: set_kv_keys)
    note k = this
    note x = version_range_parse(1) [OF assms k(1,2,3)] note y = version_range_parse(1) [OF assms k(4,5,6)]
    have "pk_version p = pk_version q" using e unfolding k(3,6) option.sel .
    then have "version_key i (pk_version p) = version_key i (pk_version q)" by (rule arg_cong)
    then show "x = y" unfolding x [symmetric] y [symmetric] .
  qed
  moreover have "distinct ?ks" by (rule distinct_filter [OF pebble.distinct_keys])
  ultimately show ?thesis by (simp add: distinct_map)
qed

text \<open>The history after an update: the newest five of the old history and the replaced version.\<close>

definition history :: "rdoc kv \<Rightarrow> bytes \<Rightarrow> int list" where
  "history db i = sort (stored_versions db i)"

lemma prune_keeps_newest:
  assumes v: "valid_id i" and n: "0 \<le> r_version pv" "r_version pv < 2 ^ 63"
    and pl: "pn_prev pl = Some pv" "pn_result pl = Updated" "pn_content pl"
    and c: "commit_ops e d db i pl rows = Some ops"
  defines "all \<equiv> sort (r_version pv # filter (\<lambda>w. w \<noteq> r_version pv) (stored_versions db i))"
  shows "history (apply_batch ops db) i = drop (length all - keep_versions) all"
proof -
  let ?n = "r_version pv"
  have ni: "in_history i ?n" using version_key_in_range [OF n] n by (simp add: in_history_def is_i64_def)
  have da: "distinct all" using distinct_stored_versions [OF v, of db] unfolding all_def distinct_sort by simp
  have sa: "set all = insert ?n (set (stored_versions db i))" unfolding all_def set_sort by auto
  have ia: "in_history i w" if "w \<in> set all" for w using that ni by (auto simp: sa set_stored_versions [OF v])
  define del where "del = take (length all - keep_versions) all"
  have ops: "ops = (record_ops i pl @ [BSet (embedding_key i) (emb_doc (embedder_shape d) rows)])
     @ BSet (version_key i ?n) (DRecord (marshal_record pv)) # map (\<lambda>w. BDel (version_key i w)) del"
    using c pl by (auto simp: commit_ops_def Let_def prune_versions_def del_def all_def split: if_splits)
  have l: "fmlookup (apply_batch ops db) (version_key i w) = (if w \<in> set del then None
      else if w = ?n then Some (DRecord (marshal_record pv)) else fmlookup db (version_key i w))" if w: "in_history i w" for w
  proof -
    have "version_key i w \<in> version_key i ` set del \<longleftrightarrow> w \<in> set del"
    proof
      assume "version_key i w \<in> version_key i ` set del"
      then obtain x where x: "x \<in> set del" "version_key i w = version_key i x" by blast
      then have "in_history i x" using ia by (auto simp: del_def dest: in_set_takeD)
      with w x version_key_inj [of w x i] show "w \<in> set del" by (auto simp: in_history_def)
    qed blast
    moreover have "version_key i ?n = version_key i w \<longleftrightarrow> w = ?n"
    proof
      assume e: "version_key i ?n = version_key i w"
      have "is_i64 ?n" "is_i64 w" using w ni by (simp_all add: in_history_def)
      from version_key_inj [OF this e] show "w = ?n" by simp
    qed simp
    moreover have "fmlookup (apply_batch (record_ops i pl) m) (version_key i w) = fmlookup m (version_key i w)" for m
      by (auto simp: lookup_record_ops)
    ultimately show ?thesis by (simp add: ops lookup_dels)
  qed
  have "set (stored_versions (apply_batch ops db) i) = set all - set del"
    unfolding set_stored_versions [OF v] using ia ni l [OF ni] by (auto simp: l sa set_stored_versions [OF v] split: if_splits)
  also have "\<dots> = set (drop (length all - keep_versions) all)"
  proof -
    have "set all = set del \<union> set (drop (length all - keep_versions) all)"
      unfolding del_def by (metis append_take_drop_id set_append)
    moreover have "set del \<inter> set (drop (length all - keep_versions) all) = {}"
      unfolding del_def using da by (metis append_take_drop_id distinct_append)
    ultimately show ?thesis by blast
  qed
  finally have "set (history (apply_batch ops db) i) = set (drop (length all - keep_versions) all)" by (simp add: history_def)
  moreover have "sorted (history (apply_batch ops db) i)" "distinct (history (apply_batch ops db) i)"
    using distinct_stored_versions [OF v] by (simp_all add: history_def)
  moreover have "sorted all" unfolding all_def by (rule sorted_sort)
  then have "sorted (drop (length all - keep_versions) all)" by (rule sorted_wrt_drop)
  moreover have "distinct (drop (length all - keep_versions) all)" using da by (rule distinct_drop)
  ultimately show ?thesis by (metis sorted_distinct_set_unique)
qed

end
