(* ===== verification/ArtMatch.thy ===== *)
theory ArtMatch
  imports ArtVersions
begin

text \<open>
  Matching a query to the stored articles (\<open>src/internal/articles/match.go\<close>, \<open>thresholds.go\<close>) and the public
  reads (\<open>read.go\<close>). Scores are rationals; \<open>None\<close> stands for the score \<open>-Inf\<close> of an article without a row of
  the query's dimension.
\<close>

section \<open>Visibility\<close>

definition eligible :: "principal \<Rightarrow> rec option \<Rightarrow> bool" where
  "eligible p ro = (case ro of None \<Rightarrow> False
     | Some r \<Rightarrow> r_status r = st_published \<and> \<not> r_residue r \<and> (pr_env p = EnvStaging \<or> \<not> r_prelive r))"

definition visible :: "principal \<Rightarrow> rec \<Rightarrow> bool" where
  "visible p r = (pr_env p = EnvStaging \<or> \<not> r_prelive r)"

fun tier_rank :: "bytes \<Rightarrow> nat" where
  "tier_rank t = (if t = ''thin'' then 1 else if t = ''ok'' then 2 else if t = ''strong'' then 3 else 0)"

definition promoted_at :: "rec \<Rightarrow> bytes \<Rightarrow> bool" where
  "promoted_at r min_tier = (r_status r = st_published \<and> \<not> r_residue r
     \<and> max (tier_rank min_tier) (tier_rank ''ok'') \<le> tier_rank (r_tier r))"

record public_view =
  pv_id :: bytes
  pv_slug :: bytes
  pv_title :: bytes
  pv_lead :: bytes
  pv_body :: bytes
  pv_citations :: "citation list"
  pv_tier :: bytes
  pv_promoted :: bool
  pv_vertical :: bytes
  pv_status :: bytes
  pv_version :: int
  pv_created :: bytes
  pv_updated :: bytes

definition public_of :: "bool \<Rightarrow> rec \<Rightarrow> public_view" where
  "public_of promoted r = \<lparr>pv_id = r_id r, pv_slug = r_slug r, pv_title = r_title r, pv_lead = r_lead r,
     pv_body = r_body r, pv_citations = r_citations r, pv_tier = r_tier r, pv_promoted = promoted,
     pv_vertical = r_vertical r, pv_status = r_status r, pv_version = r_version r, pv_created = r_created r,
     pv_updated = r_updated r\<rparr>"

record stub_view =
  tv_id :: bytes
  tv_slug :: bytes
  tv_title :: bytes
  tv_vertical :: bytes
  tv_status :: bytes
  tv_created :: bytes

definition stub_of :: "rec \<Rightarrow> stub_view" where
  "stub_of r = \<lparr>tv_id = r_id r, tv_slug = r_slug r, tv_title = r_title r, tv_vertical = r_vertical r,
     tv_status = r_status r, tv_created = r_created r\<rparr>"

record ref_view =
  rv_id :: bytes
  rv_slug :: bytes
  rv_status :: bytes
  rv_title :: bytes

section \<open>Thresholds\<close>

record threshold_doc =
  td_schema :: "int option"
  td_covered :: "rat option"
  td_related :: "rat option"
  td_measured :: "bool option"
  td_promotion :: "bytes option"

definition load_thresholds :: "threshold_doc \<Rightarrow> thresholds option" where
  "load_thresholds doc =
     (if td_schema doc \<noteq> Some 1 then None
      else case (td_covered doc, td_related doc) of
        (Some c, Some r) \<Rightarrow>
          if \<not> (0 < r \<and> r < c \<and> c \<le> 1) then None
          else if td_promotion doc \<notin> {None, Some ''strong'', Some ''ok''} then None
          else Some \<lparr>th_covered = c, th_related = r,
            th_measured = (case td_measured doc of None \<Rightarrow> False | Some m \<Rightarrow> m),
            th_min_tier = (case td_promotion doc of None \<Rightarrow> th_min_tier default_thresholds | Some t \<Rightarrow> t)\<rparr>
      | _ \<Rightarrow> None)"

definition thresholds_ok :: "thresholds \<Rightarrow> bool" where
  "thresholds_ok th = (0 < th_related th \<and> th_related th < th_covered th \<and> th_covered th \<le> 1)"

lemma load_thresholds_ok: "load_thresholds doc = Some th \<Longrightarrow> thresholds_ok th"
  by (auto simp: load_thresholds_def thresholds_ok_def split: option.splits if_splits)

lemma default_thresholds_ok: "thresholds_ok default_thresholds"
  by (simp add: thresholds_ok_def default_thresholds_def)

section \<open>Scores\<close>

fun best_score :: "row list \<Rightarrow> vec \<Rightarrow> rat option" where
  "best_score [] q = None"
| "best_score (rw # rows) q =
     (if length (rw_vec rw) = length q
      then Some (case best_score rows q of None \<Rightarrow> dot (rw_vec rw) q | Some b \<Rightarrow> max (dot (rw_vec rw) q) b)
      else best_score rows q)"

definition rounded :: "rat \<Rightarrow> rat" where
  "rounded f = (let x = f * 1000000 in
     (if 0 \<le> x then of_int \<lfloor>x + 1 / 2\<rfloor> else - of_int \<lfloor>1 / 2 - x\<rfloor>) / 1000000)"

definition row_ids :: "index \<Rightarrow> bytes list" where
  "row_ids ix = sorted_list_of_fset (fmdom (ix_rows ix))"

definition rows_of :: "index \<Rightarrow> bytes \<Rightarrow> row list" where
  "rows_of ix i = (case fmlookup (ix_rows ix) i of None \<Rightarrow> [] | Some rs \<Rightarrow> rs)"

text \<open>The best of the records that pass \<open>ok\<close>.\<close>

definition best_record :: "index \<Rightarrow> vec \<Rightarrow> (rec \<Rightarrow> bool) \<Rightarrow> pick" where
  "best_record ix q ok = fold (\<lambda>i pk. case fmlookup (ix_recs ix) i of None \<Rightarrow> pk
     | Some r \<Rightarrow> if ok r then offer pk r (best_score (rows_of ix i) q) else pk) (row_ids ix) None"

section \<open>Serving\<close>

datatype serve_article = NoArticle | FullArticle public_view | RefArticle ref_view

record serve_result =
  sv_verdict :: bytes
  sv_match :: bytes
  sv_score :: "rat option"
  sv_article :: serve_article

definition serve_embedding :: "pick \<Rightarrow> thresholds \<Rightarrow> serve_result \<times> rec option" where
  "serve_embedding tp th =
     (case tp of None \<Rightarrow> (\<lparr>sv_verdict = ''none'', sv_match = [], sv_score = None, sv_article = NoArticle\<rparr>, None)
      | Some (r, sc) \<Rightarrow>
          if th_covered th \<le> sc then (\<lparr>sv_verdict = ''covered'', sv_match = ''embedding'', sv_score = Some (rounded sc),
             sv_article = FullArticle (public_of (promoted_at r (th_min_tier th)) r)\<rparr>, Some r)
          else if th_related th \<le> sc then (\<lparr>sv_verdict = ''related'', sv_match = ''embedding'', sv_score = Some (rounded sc),
             sv_article = RefArticle \<lparr>rv_id = r_id r, rv_slug = r_slug r, rv_status = [], rv_title = r_title r\<rparr>\<rparr>, None)
          else (\<lparr>sv_verdict = ''none'', sv_match = [], sv_score = Some (rounded sc), sv_article = NoArticle\<rparr>, None))"

definition serve_verdict :: "index \<Rightarrow> principal \<Rightarrow> bytes option \<Rightarrow> vec \<Rightarrow> thresholds \<Rightarrow> serve_result \<times> rec option" where
  "serve_verdict ix p topic q th =
     (let tp = best_record ix q (\<lambda>r. eligible p (Some r));
          by_embedding = serve_embedding tp th in
      case topic of None \<Rightarrow> by_embedding
      | Some t \<Rightarrow> (case fmlookup (ix_claims ix) t of None \<Rightarrow> by_embedding
          | Some owner \<Rightarrow>
              if owner = [] \<or> fmlookup (ix_rows ix) owner = None then by_embedding
              else (case (fmlookup (ix_recs ix) owner, best_score (rows_of ix owner) q) of
                (Some r, Some sc) \<Rightarrow>
                  if eligible p (Some r) \<and> th_related th \<le> sc
                  then (\<lparr>sv_verdict = ''covered'', sv_match = ''alias'', sv_score = Some (rounded sc),
                    sv_article = FullArticle (public_of (promoted_at r (th_min_tier th)) r)\<rparr>, Some r)
                  else by_embedding
              | _ \<Rightarrow> by_embedding)))"

text \<open>\<open>matchServe\<close>: a covered answer counts the reader, under the same read lock.\<close>

definition match_serve :: "thresholds \<Rightarrow> int \<Rightarrow> principal \<Rightarrow> bytes option \<Rightarrow> bytes option \<Rightarrow> vec \<Rightarrow> art_store
    \<Rightarrow> serve_result \<times> art_store" where
  "match_serve th now p topic reader q s =
     (case serve_verdict (as_idx s) p topic q th of (res, covered) \<Rightarrow>
        (case (covered, reader) of (Some r, Some rd) \<Rightarrow>
            if pr_counts_reads p then (res, s\<lparr>as_counters := add_reader (r_id r) rd now (as_counters s)\<rparr>) else (res, s)
         | _ \<Rightarrow> (res, s)))"

section \<open>Public reads\<close>

datatype read_reply = ReadRefused v1_error | ReadFull rec | ReadPublic public_view | ReadStub stub_view | ReadRedirect bytes

definition read_scope :: "policy \<Rightarrow> index \<Rightarrow> principal \<Rightarrow> v1_error + bool" where
  "read_scope po ix p = (case allowed p [ArticlesRead, ArticlesReadAll] of Some e \<Rightarrow> Inl e
     | None \<Rightarrow> if pr_has p ArticlesReadAll then Inr True
         else case refuse_restore_pending po ix of Some e \<Rightarrow> Inl e | None \<Rightarrow> Inr False)"

definition handle_get :: "policy \<Rightarrow> thresholds \<Rightarrow> index \<Rightarrow> principal \<Rightarrow> bytes \<Rightarrow> read_reply" where
  "handle_get po th ix p i =
     (if \<not> valid_id i then ReadRefused not_found
      else case read_scope po ix p of Inl e \<Rightarrow> ReadRefused e
      | Inr readall \<Rightarrow> (case fmlookup (ix_recs ix) i of None \<Rightarrow> ReadRefused not_found
          | Some r \<Rightarrow> if readall then ReadFull r
              else if eligible p (Some r) then ReadPublic (public_of (promoted_at r (th_min_tier th)) r)
              else ReadRefused not_found))"

definition handle_by_slug :: "policy \<Rightarrow> thresholds \<Rightarrow> index \<Rightarrow> principal \<Rightarrow> bytes \<Rightarrow> read_reply" where
  "handle_by_slug po th ix p sl =
     (case read_scope po ix p of Inl e \<Rightarrow> ReadRefused e
      | Inr readall \<Rightarrow> (case fmlookup (ix_slugs ix) sl of None \<Rightarrow> ReadRefused not_found
          | Some e \<Rightarrow> (case fmlookup (ix_recs ix) (sl_id e) of None \<Rightarrow> ReadRefused not_found
              | Some r \<Rightarrow>
                  if \<not> sl_canonical e then
                    (if readall \<or> eligible p (Some r)
                        \<or> ((r_status r = st_tombstoned \<or> r_status r = st_pending) \<and> visible p r)
                     then ReadRedirect (r_slug r) else ReadRefused not_found)
                  else if readall then ReadFull r
                  else if eligible p (Some r) then ReadPublic (public_of (promoted_at r (th_min_tier th)) r)
                  else if r_status r = st_pending \<and> visible p r then ReadStub (stub_of r)
                  else if r_status r = st_tombstoned \<and> visible p r then ReadRefused err_gone
                  else ReadRefused not_found)))"

section \<open>The best record\<close>

text \<open>What is best: the greatest score, and among equals the smallest id.\<close>

definition beats :: "rec \<times> rat \<Rightarrow> rec \<times> rat \<Rightarrow> bool" where
  "beats a b = (snd b < snd a \<or> (snd a = snd b \<and> r_id (fst a) \<le> r_id (fst b)))"

lemma beats_refl: "beats a a"
  by (simp add: beats_def)

lemma offer_cases:
  "offer pk r sc = (case sc of None \<Rightarrow> pk | Some s \<Rightarrow> (case pk of None \<Rightarrow> Some (r, s)
     | Some (b, bs) \<Rightarrow> if bs < s \<or> (s = bs \<and> r_id r < r_id b) then Some (r, s) else Some (b, bs)))"
  by (cases "(pk, r, sc)" rule: offer.cases) auto

definition candidate :: "index \<Rightarrow> vec \<Rightarrow> (rec \<Rightarrow> bool) \<Rightarrow> bytes \<Rightarrow> rec \<Rightarrow> rat \<Rightarrow> bool" where
  "candidate ix q ok i r sc = (fmlookup (ix_recs ix) i = Some r \<and> ok r \<and> best_score (rows_of ix i) q = Some sc)"

lemma best_fold:
  fixes xs :: "bytes list" and pk :: pick and ix :: index and q :: vec and ok :: "rec \<Rightarrow> bool"
  defines "step \<equiv> (\<lambda>i pk. case fmlookup (ix_recs ix) i of None \<Rightarrow> pk
     | Some r \<Rightarrow> if ok r then offer pk r (best_score (rows_of ix i) q) else pk)"
  shows "fold step xs pk = Some (b, bs) \<Longrightarrow>
     (pk = Some (b, bs) \<or> (\<exists>i \<in> set xs. candidate ix q ok i b bs))
     \<and> (\<forall>x. pk = Some x \<longrightarrow> beats (b, bs) x)
     \<and> (\<forall>i \<in> set xs. \<forall>r sc. candidate ix q ok i r sc \<longrightarrow> beats (b, bs) (r, sc))"
proof (induction xs arbitrary: pk)
  case Nil
  then show ?case by (simp add: beats_def)
next
  case (Cons x xs)
  from Cons.prems have f: "fold step xs (step x pk) = Some (b, bs)" by simp
  note ih = Cons.IH [OF f]
  have keep: "beats (b, bs) y" if "pk = Some y" for y
  proof -
    have "\<exists>z. offer (Some y) r sc = Some z \<and> beats z y" for r sc
      by (cases sc; cases y) (auto simp: beats_def)
    then have "\<exists>z. step x pk = Some z \<and> beats z y"
      using that by (cases "fmlookup (ix_recs ix) x") (simp_all add: step_def beats_refl del: split_paired_Ex)
    then obtain z where z: "step x pk = Some z" "beats z y" by blast
    with ih have "beats (b, bs) z" by blast
    with z(2) show ?thesis by (auto simp: beats_def)
  qed
  have new: "beats (b, bs) (r, sc)" if "candidate ix q ok x r sc" for r sc
  proof -
    from that have "\<exists>z. step x pk = Some z \<and> beats z (r, sc)"
      by (auto simp: step_def candidate_def offer_cases beats_def split: option.splits)
    then obtain z where z: "step x pk = Some z" "beats z (r, sc)" by blast
    with ih have "beats (b, bs) z" by blast
    with z(2) show ?thesis by (auto simp: beats_def)
  qed
  have src: "step x pk = Some (b, bs) \<Longrightarrow> pk = Some (b, bs) \<or> candidate ix q ok x b bs"
    by (auto simp: step_def candidate_def offer_cases split: option.splits if_splits)
  show ?case using ih keep new src by auto
qed

lemma best_record_Some:
  assumes "best_record ix q ok = Some (r, sc)"
  shows "\<exists>i \<in> set (row_ids ix). candidate ix q ok i r sc"
    and "i \<in> set (row_ids ix) \<Longrightarrow> candidate ix q ok i r' sc' \<Longrightarrow> beats (r, sc) (r', sc')"
  using best_fold [OF assms [unfolded best_record_def]] by auto

lemma serve_embedding_covered:
  assumes "serve_embedding tp th = (res, Some r)"
  shows "\<exists>sc. tp = Some (r, sc) \<and> th_covered th \<le> sc \<and> sv_verdict res = ''covered''
     \<and> sv_article res = FullArticle (public_of (promoted_at r (th_min_tier th)) r)"
  using assms by (auto simp: serve_embedding_def split: option.splits if_splits)

end
