(* ===== verification/ArtLife.thy ===== *)
theory ArtLife
  imports ArtMatch
begin

text \<open>
  The life of a record over whole runs: what each step of the store does to the records, and what therefore
  never changes again once a record is tombstoned or the go-live has happened.
\<close>

section \<open>What a step does to the records\<close>

definition same_recs :: "art_store \<Rightarrow> art_store \<Rightarrow> bool" where
  "same_recs s t = (ix_golive (as_idx t) = ix_golive (as_idx s)
     \<and> (\<forall>i. fmlookup (ix_recs (as_idx t)) i \<in> {fmlookup (ix_recs (as_idx s)) i,
          map_option norm_rec (fmlookup (ix_recs (as_idx s)) i)}))"

lemma same_recsI: "ix_recs (as_idx t) = ix_recs (as_idx s) \<Longrightarrow> ix_golive (as_idx t) = ix_golive (as_idx s) \<Longrightarrow> same_recs s t"
  by (simp add: same_recs_def)

lemma flush_index: "flush_locked e now s = (b, s') \<Longrightarrow> as_idx s' = as_idx s"
  by (auto simp: flush_locked_def Let_def split: if_splits)

lemma reembed_recs:
  "reembed_one e d i texts vecs s = (b, s') \<Longrightarrow> ix_recs (as_idx s') = ix_recs (as_idx s) \<and> ix_golive (as_idx s') = ix_golive (as_idx s)"
  by (auto simp: reembed_one_def split: option.splits if_splits)

lemma commit_purge_cases:
  assumes "commit_purge e d p n fresh s = (out, s')"
  obtains (kept) "s' = s" "\<forall>c g. out \<noteq> Purged c g"
  | (purged) c a g where "ix_golive (as_idx s) = None" "purge_counts (env.truncate e) s = Some c" "int (pc_records (fst c)) = n"
      "apply_purge_locked e d a (pc_records (fst c)) fresh s = (Some g, s')" "out = Purged c g"
proof -
  have ap: "t = s" if "apply_purge_locked e d a k fresh s = (None, t)" for a k t
    using that by (auto simp: apply_purge_locked_def Let_def split: option.splits if_splits)
  have "(s' = s \<and> (\<forall>c g. out \<noteq> Purged c g)) \<or> (\<exists>c a g. ix_golive (as_idx s) = None \<and> purge_counts (env.truncate e) s = Some c
      \<and> int (pc_records (fst c)) = n \<and> apply_purge_locked e d a (pc_records (fst c)) fresh s = (Some g, s') \<and> out = Purged c g)"
    using assms ap unfolding commit_purge_def
    by (simp split: sum.splits option.splits if_splits prod.splits del: split_paired_All split_paired_Ex) blast+
  with that show ?thesis by blast
qed

lemma step_recs:
  assumes st: "art_step d s t" and ok: "art_ok d s"
  obtains (same) "same_recs s t"
  | (one_write) a i where "one_change a i s t"
  | (purge) g where "ix_golive (as_idx s) = None" "\<forall>i. purged_rec (as_idx s) (as_idx t) i" "ix_golive (as_idx t) = Some g"
  using st
proof cases
  case (Write a)
  show ?thesis
  proof (cases "t = s")
    case True
    with same show ?thesis by (simp add: same_recs_def)
  next
    case False
    from ok have inv: "art_inv d s" by (simp add: art_ok_def)
    show ?thesis by (rule art_write_change [OF Write inv False]) (rule one_write)
  qed
next
  case (Purge fresh e p n rep)
  from ok have inv: "art_inv d s" by (simp add: art_ok_def)
  from Purge(2) show ?thesis
  proof (cases rule: commit_purge_cases)
    case kept
    with same show ?thesis by (simp add: same_recs_def)
  next
    case (purged c a g)
    note ps = apply_purge_spec [OF inv _ purged(4)]
    show ?thesis by (rule purge [OF purged(1)]) (use ps Purge(1) in blast)+
  qed
next
  case Flush
  with same flush_index show ?thesis by (simp add: same_recsI)
next
  case Count
  with same show ?thesis by (simp add: same_recs_def)
next
  case Reembed
  with same reembed_recs show ?thesis by (simp add: same_recsI)
next
  case Close
  with same show ?thesis by (simp add: same_recs_def)
next
  case Restart
  from ok have inv: "art_inv d s" by (simp add: art_ok_def)
  show ?thesis by (rule same) (use restart_inv(2,3) [OF inv Restart] in \<open>simp add: same_recs_def\<close>)
qed

section \<open>What is final\<close>

definition buried :: "bytes \<Rightarrow> bytes \<Rightarrow> bytes set \<Rightarrow> art_store \<Rightarrow> bool" where
  "buried i sl tps s = (\<exists>r. fmlookup (ix_recs (as_idx s)) i = Some r \<and> r_status r = st_tombstoned \<and> r_residue r
     \<and> r_slug r = sl \<and> tps \<subseteq> set (r_topics r))"

lemma tombstoned_becomes: "may_become (Some st_tombstoned) y \<Longrightarrow> y = Some st_tombstoned"
  by (auto simp: may_become_def transitions_def)

lemma buried_step:
  assumes ok: "art_ok d s" and st: "art_step d s t" and b: "buried i sl tps s"
  shows "buried i sl tps t"
proof -
  obtain r where r: "fmlookup (ix_recs (as_idx s)) i = Some r" "r_status r = st_tombstoned" "r_residue r" "r_slug r = sl"
    "tps \<subseteq> set (r_topics r)" using b by (auto simp: buried_def)
  from st ok show ?thesis
  proof (cases rule: step_recs)
    case same
    then have "fmlookup (ix_recs (as_idx t)) i \<in> {Some r, Some (norm_rec r)}" using r(1) unfolding same_recs_def by (metis option.map(2))
    with r show ?thesis by (auto simp: buried_def)
  next
    case (one_write a j)
    show ?thesis
    proof (cases "i = j")
      case True
      from one_write have "may_become (status_at s j) (status_at t j)" by (simp add: one_change_def)
      with True r have "may_become (Some st_tombstoned) (status_at t i)" by (simp add: status_at_def)
      then obtain r' where r': "fmlookup (ix_recs (as_idx t)) i = Some r'" "r_status r' = st_tombstoned"
        by (auto simp: status_at_def dest!: tombstoned_becomes)
      have "r_slug r' = r_slug r \<and> set (r_topics r) \<subseteq> set (r_topics r') \<and> (r_residue r \<longrightarrow> r_residue r')"
        using one_write True r(1) r'(1) unfolding one_change_def by blast
      with r r' show ?thesis by (auto simp: buried_def)
    next
      case False
      with one_write r show ?thesis by (simp add: one_change_def buried_def)
    qed
  next
    case (purge g)
    have p: "purged_rec (as_idx s) (as_idx t) i" using purge(2) by blast
    have c: "converts r" using r(2) by (simp add: converts_def)
    show ?thesis
    proof (cases "r_prelive r")
      case True
      with p c r obtain q where "fmlookup (ix_recs (as_idx t)) i = Some q" "residue_of r q" "r_status q = r_status r"
        by (auto simp: purged_rec_def)
      with r show ?thesis by (auto simp: buried_def residue_of_def)
    next
      case False
      with p r show ?thesis by (auto simp: purged_rec_def buried_def)
    qed
  qed
qed

lemma golive_step:
  assumes ok: "art_ok d s" and st: "art_step d s t" and g: "ix_golive (as_idx s) = Some g"
  shows "ix_golive (as_idx t) = Some g"
  using st ok
proof (cases rule: step_recs)
  case same
  with g show ?thesis by (simp add: same_recs_def)
next
  case (one_write a j)
  with g show ?thesis by (simp add: one_change_def)
next
  case (purge g')
  with g show ?thesis by simp
qed

section \<open>Residues\<close>

lemma residue_empty:
  assumes "rec_ok r" "r_residue r"
  shows "r_title r = [] \<and> r_lead r = [] \<and> r_body r = [] \<and> r_citations r = [] \<and> r_aliases r = [] \<and> r_clusters r = []
    \<and> r_moderation r = None \<and> r_sha r = []"
proof -
  have "r = zero_rec\<lparr>r_schema := r_schema r, r_id := r_id r, r_slug := r_slug r,
        r_base_slug := r_base_slug r, r_status := r_status r, r_topics := r_topics r,
        r_status_at := r_status_at r, r_prelive := r_prelive r, r_residue := True,
        r_reason := r_reason r, r_tombstoned_at := r_tombstoned_at r\<rparr>" (is "r = ?q")
    using assms by (simp add: rec_ok_def shape_ok_def)
  from arg_cong [OF this, of r_title] arg_cong [OF this, of r_lead] arg_cong [OF this, of r_body] arg_cong [OF this, of r_citations]
    arg_cong [OF this, of r_aliases] arg_cong [OF this, of r_clusters] arg_cong [OF this, of r_moderation] arg_cong [OF this, of r_sha]
  show ?thesis unfolding zero_rec_def rec.simps article_json.simps by blast
qed

lemma run_owner:
  assumes "art_ok d s" "fmlookup (ix_recs (as_idx s)) i = Some r"
  shows "fmlookup (ix_slugs (as_idx s)) (r_slug r) = Some (canonical i)"
    and "t \<in> set (r_topics r) \<Longrightarrow> fmlookup (ix_claims (as_idx s)) t = Some i"
    and "rec_ok r" "r_id r = i" "valid_id i"
proof -
  have m: "mirrors d (as_db s) (as_idx s)" and ok: "store_ok (as_db s) (as_idx s)" using assms(1) by (simp_all add: art_ok_def art_inv_def)
  show "rec_ok r" "fmlookup (ix_slugs (as_idx s)) (r_slug r) = Some (canonical i)"
    "t \<in> set (r_topics r) \<Longrightarrow> fmlookup (ix_claims (as_idx s)) t = Some i"
    by (rule store_okD(1-3) [OF ok assms(2)])+
  show "r_id r = i" "valid_id i" by (rule mirrors_rec_id [OF m assms(2)])+
qed

section \<open>Counting the readers of a day\<close>

lemma add_readers_count:
  assumes "c_day c = utc_day now" "fmlookup (c_sets c) i = None"
  shows "let c' = fold (\<lambda>r. add_reader i r now) rs c in
    c_day c' = utc_day now \<and> count_at (c_base c') i = count_at (c_base c) i
    \<and> (case fmlookup (c_sets c') i of None \<Rightarrow> {||} | Some s \<Rightarrow> s) = fset_of_list rs"
  using assms
proof (induction rs rule: rev_induct)
  case Nil
  then show ?case by simp
next
  case (snoc r rs)
  let ?c = "fold (\<lambda>r. add_reader i r now) rs c"
  from snoc have ih: "c_day ?c = utc_day now" "count_at (c_base ?c) i = count_at (c_base c) i"
    "(case fmlookup (c_sets ?c) i of None \<Rightarrow> {||} | Some s \<Rightarrow> s) = fset_of_list rs" by (simp_all add: Let_def)
  have roll: "roll_locked now ?c = ?c" using ih(1) by (simp add: roll_locked_def)
  have fs: "fset_of_list (rs @ [r]) = finsert r (fset_of_list rs)" by (rule fset_eqI) auto
  have "add_reader i r now ?c = (if r |\<in>| fset_of_list rs then ?c\<lparr>c_sets := fmupd i (fset_of_list rs) (c_sets ?c)\<rparr>
      else ?c\<lparr>c_sets := fmupd i (finsert r (fset_of_list rs)) (c_sets ?c), c_dirty := finsert i (c_dirty ?c)\<rparr>)"
    unfolding add_reader_def roll Let_def ih(3) ..
  then show ?case using ih(1,2) unfolding fold_append comp_def Let_def fs
    by (auto simp: Let_def finsert_absorb)
qed

lemma readers_of_day:
  assumes "c_day c = utc_day now" "fmlookup (c_sets c) i = None"
  shows "readers_on (fold (\<lambda>r. add_reader i r now) rs c) i (utc_day now) = readers_on c i (utc_day now) + card (set rs)"
    and "c_day (fold (\<lambda>r. add_reader i r now) rs c) = utc_day now"
proof -
  let ?c = "fold (\<lambda>r. add_reader i r now) rs c"
  note a = add_readers_count [OF assms, of rs, unfolded Let_def]
  have n: "fcard (fset_of_list rs) = card (set rs)" by (simp add: fcard.rep_eq fset_of_list.rep_eq)
  have "(case fmlookup (c_sets ?c) i of None \<Rightarrow> 0 | Some s \<Rightarrow> fcard s) = card (set rs)"
    using a n [symmetric] by (cases "fmlookup (c_sets ?c) i") auto
  then show "readers_on ?c i (utc_day now) = readers_on c i (utc_day now) + card (set rs)"
    using a assms by (simp add: readers_on_eq)
  show "c_day ?c = utc_day now" using a by simp
qed

end
