(* ===== verification/ArtProps.thy ===== *)
theory ArtProps
  imports ArtLife
begin

text \<open>The properties of the article store, each with a concrete instance where it has hypotheses.\<close>

section \<open>Instances\<close>

definition dep0 :: deps where
  "dep0 = \<lparr>dp_emb = Some (''m'', 1), dp_full_slug = (\<lambda>t. t), dp_hash = (\<lambda>h. hi_title h @ hi_body h), dp_unit = Some\<rparr>"

definition writer :: principal where
  "writer = \<lparr>pr_id = ''w'', pr_env = EnvProd, pr_scopes = [ArticlesRead, ArticlesWrite, ArticlesStub, ArticlesModerate, ArticlesAdmin],
     pr_counts_reads = True\<rparr>"

definition stager :: principal where
  "stager = \<lparr>pr_id = ''s'', pr_env = EnvStaging, pr_scopes = [ArticlesWrite, ArticlesModerate], pr_counts_reads = False\<rparr>"

definition policy_of :: "principal \<Rightarrow> policy" where
  "policy_of p = \<lparr>po_principal = (\<lambda>_. Some p), po_frozen = False, po_charge = (\<lambda>_. True), po_exhausted = (\<lambda>_. False),
     po_staging_writers = [], po_golive = False\<rparr>"

definition env_of :: "principal \<Rightarrow> art_env" where
  "env_of p = env.extend (calm_env 1) \<lparr>ae_policy = policy_of p, ae_th = default_thresholds, ae_now = ''t''\<rparr>"

definition id_a :: bytes where "id_a = ''0000000000000000000000000A''"
definition id_b :: bytes where "id_b = ''0000000000000000000000000B''"
definition topic_a :: bytes where "topic_a = ''00000000000000aa''"

definition body_of :: "bytes \<Rightarrow> bytes \<Rightarrow> bytes list \<Rightarrow> int option \<Rightarrow> put_body" where
  "body_of title body topics expected = \<lparr>pb_status = Some st_published, pb_expected = expected, pb_title = title,
     pb_lead = ''lead'', pb_body = body, pb_citations = [], pb_tier = ''strong'', pb_vertical = ''v'', pb_sens = None,
     pb_aliases = [], pb_topics = topics, pb_clusters = [], pb_models = Some \<lparr>mo_triage = [], mo_writer = []\<rparr>,
     pb_build = Some zero_build, pb_ai = Some True\<rparr>"

definition vecs_of :: "bytes \<Rightarrow> (bytes, vec) fmap" where
  "vecs_of title = fmap_of_list [(title, [1]), (''lead'', [1])]"

text \<open>A committed PUT of a short article, and a moderation action.\<close>

definition do_put :: "principal \<Rightarrow> bytes \<Rightarrow> bytes \<Rightarrow> bytes \<Rightarrow> bytes list \<Rightarrow> int option \<Rightarrow> art_store \<Rightarrow> art_store" where
  "do_put p i title body topics expected s =
     snd (commit_article (env_of p) dep0 p i (body_of title body topics expected) (vecs_of title) None s)"

definition do_status :: "principal \<Rightarrow> bytes \<Rightarrow> action \<Rightarrow> art_store \<Rightarrow> art_store" where
  "do_status p i act s = snd (commit_status (env_of p) dep0 p i act ''mod'' ''legal'' None s)"

lemma dep0_emb [simp]: "dp_emb dep0 \<noteq> None"
  by (simp add: dep0_def)

lemma policy_env [simp]: "po_principal (ae_policy (env_of p)) x = Some p"
  by (simp add: env_of_def policy_of_def env.extend_def)

lemma topic_a_ok [simp]: "topic_pattern topic_a"
  by code_simp

lemma ids_ok [simp]: "valid_id id_a" "valid_id id_b"
  by code_simp+

lemma slugify0: "slugify dep0 ''go'' = ''go''" "slugify dep0 ''rs'' = ''rs''"
  by code_simp+

lemma body_of_ok: "title \<in> {''go'', ''rs''} \<Longrightarrow> set topics \<subseteq> {topic_a} \<Longrightarrow> body_ok dep0 (body_of title body topics expected)"
  by (auto simp: body_ok_def body_of_def slugify0)

lemma vecs_of_ok: "vecs_ok dep0 (vecs_of title)"
  by (auto simp: vecs_ok_def vecs_of_def embedder_shape_def dep0_def split: if_splits)

lemma put_step:
  assumes "valid_id i" "title \<in> {''go'', ''rs''}" "set topics \<subseteq> {topic_a}"
  shows "art_write dep0 p s (do_put p i title body topics expected s)"
  by (rule art_write.Put [where e = "env_of p" and p = p and i = i and b = "body_of title body topics expected"
      and vecs = "vecs_of title" and check = None
      and out = "fst (commit_article (env_of p) dep0 p i (body_of title body topics expected) (vecs_of title) None s)"])
    (use assms body_of_ok vecs_of_ok in \<open>simp_all add: do_put_def\<close>)

lemma status_step: "art_write dep0 p s (do_status p i act s)"
  by (rule art_write.Moderate [where e = "env_of p" and p = p and fresh = None and i = i and act = act and w = "''mod''"
      and reason = "''legal''" and rep = "fst (commit_status (env_of p) dep0 p i act ''mod'' ''legal'' None s)"])
    (simp_all add: do_status_def fresh_ok_def)

text \<open>One article, taken down.\<close>

definition store1 :: art_store where "store1 = do_put writer id_a ''go'' ''body'' [topic_a] None empty_articles"
definition store2 :: art_store where "store2 = do_status writer id_a Tombstone store1"

lemma run1: "art_run dep0 empty_articles store1"
  unfolding store1_def by (rule r_into_rtranclp, rule art_step.Write, rule put_step) simp_all

lemma run12: "art_run dep0 store1 store2"
  unfolding store2_def by (rule r_into_rtranclp, rule art_step.Write, rule status_step)

lemma ok1: "art_ok dep0 store1"
  by (rule art.run_ok [OF run1 art_ok_empty]) simp

definition has_rec :: "art_store \<Rightarrow> bytes \<Rightarrow> (rec \<Rightarrow> bool) \<Rightarrow> bool" where
  "has_rec s i P = (case fmlookup (ix_recs (as_idx s)) i of None \<Rightarrow> False | Some r \<Rightarrow> P r)"

lemma has_recE: "has_rec s i P \<Longrightarrow> \<exists>r. fmlookup (ix_recs (as_idx s)) i = Some r \<and> P r"
  by (simp add: has_rec_def split: option.splits)

lemma rec1: "has_rec store1 id_a (\<lambda>r. r_status r = st_published \<and> r_slug r = ''go'' \<and> r_version r = 1)"
  by code_simp

lemma rec2: "has_rec store2 id_a (\<lambda>r. r_status r = st_tombstoned \<and> r_residue r)"
  by code_simp

text \<open>A staging article, purged at go-live.\<close>

definition store_s :: art_store where "store_s = do_put stager id_b ''rs'' ''body'' [] None empty_articles"

definition purge_s :: "purge_reply \<times> art_store" where
  "purge_s = commit_purge (env_of writer) dep0 writer 1 fmempty store_s"

lemma rec_s: "has_rec store_s id_b r_prelive"
  by code_simp

lemma purged_s: "case purge_s of (Purged c g, t) \<Rightarrow> fmlookup (ix_recs (as_idx t)) id_b = None | _ \<Rightarrow> False"
  by code_simp

section \<open>Recovery and ownership\<close>


definition reopened :: "art_store" where
  "reopened = the (rebuild_store (calm_env 1) dep0 0 (as_db store1))"


text \<open>C12: no two records ever share a slug or a topic.\<close>

lemma slugs_and_topics_exclusive:
  assumes "dp_emb d \<noteq> None" "art_run d empty_articles s" "fmlookup (ix_recs (as_idx s)) i = Some r"
    and "fmlookup (ix_recs (as_idx s)) j = Some q" "i \<noteq> j"
  shows "r_slug r \<noteq> r_slug q \<and> set (r_topics r) \<inter> set (r_topics q) = {}"
proof -
  have ok: "art_ok d s" by (rule art.run_ok [OF assms(2) art_ok_empty [OF assms(1)]])
  note ri = run_owner [OF ok assms(3)] note rj = run_owner [OF ok assms(4)]
  have "r_slug r \<noteq> r_slug q" using ri(1) rj(1) assms(5) by (auto simp: canonical_def)
  moreover have "t \<notin> set (r_topics q)" if "t \<in> set (r_topics r)" for t
    using ri(2) [OF that] rj(2) [of t] assms(5) by auto
  ultimately show ?thesis by blast
qed

definition store_ab :: art_store where "store_ab = do_put writer id_b ''rs'' ''body'' [] None store1"

lemma run_ab: "art_run dep0 empty_articles store_ab"
  using run1 unfolding store_ab_def by (rule rtranclp.rtrancl_into_rtrancl) (rule art_step.Write, rule put_step; simp)

lemma rec_ab: "has_rec store_ab id_a (\<lambda>r. r_slug r = ''go'')" "has_rec store_ab id_b (\<lambda>r. r_slug r = ''rs'')"
  by code_simp+

lemma slugs_and_topics_exclusive_witness:
  "\<exists>r q. fmlookup (ix_recs (as_idx store_ab)) id_a = Some r \<and> fmlookup (ix_recs (as_idx store_ab)) id_b = Some q
     \<and> r_slug r = ''go'' \<and> r_slug r \<noteq> r_slug q \<and> set (r_topics r) \<inter> set (r_topics q) = {}"
proof -
  obtain r q where "fmlookup (ix_recs (as_idx store_ab)) id_a = Some r" "r_slug r = ''go''"
    "fmlookup (ix_recs (as_idx store_ab)) id_b = Some q"
    using has_recE [OF rec_ab(1)] has_recE [OF rec_ab(2)] by blast
  with slugs_and_topics_exclusive [OF dep0_emb run_ab this(1,3)] show ?thesis by (auto simp: id_a_def id_b_def)
qed

section \<open>Takedowns\<close>


lemma run2: "art_run dep0 empty_articles store2"
  using run1 run12 by (rule rtranclp_trans)


text \<open>C11: a tombstone is final: no write, moderation, purge, flush or restart gives the id another status, its
  slug another owner, or its topics back.\<close>

lemma tombstone_is_final:
  assumes "art_ok d s" "art_run d s t" "fmlookup (ix_recs (as_idx s)) i = Some r" "r_status r = st_tombstoned"
  shows "\<exists>q. fmlookup (ix_recs (as_idx t)) i = Some q \<and> r_status q = st_tombstoned \<and> r_residue q \<and> r_slug q = r_slug r
    \<and> set (r_topics r) \<subseteq> set (r_topics q)"
proof -
  have "buried i (r_slug r) (set (r_topics r)) s"
    using assms(3,4) run_owner(3) [OF assms(1,3)] by (auto simp: buried_def rec_ok_def status_ok_def)
  from art.run_keeps [where P = "buried i (r_slug r) (set (r_topics r))", OF assms(2,1) this buried_step]
  show ?thesis by (simp add: buried_def)
qed

lemma tombstone_is_final_witness: "\<exists>q. fmlookup (ix_recs (as_idx (do_put writer id_a ''go'' ''body'' [] None store2))) id_a = Some q
    \<and> r_status q = st_tombstoned"
proof -
  obtain r where r: "fmlookup (ix_recs (as_idx store2)) id_a = Some r" "r_status r = st_tombstoned" using has_recE [OF rec2] by blast
  have "art_run dep0 store2 (do_put writer id_a ''go'' ''body'' [] None store2)"
    by (rule r_into_rtranclp, rule art_step.Write, rule put_step) simp_all
  from tombstone_is_final [OF art.run_ok [OF run12 ok1] this r] show ?thesis by blast
qed

section \<open>Writes\<close>

text \<open>C14: a write changes at most one record, and only one of the caller's environment: an existing record must
  be of it, a new one becomes part of it.\<close>

lemma writes_stay_in_environment:
  assumes "art_write d a s t" "art_ok d s"
  shows "\<exists>i. (\<forall>j. j \<noteq> i \<longrightarrow> fmlookup (ix_recs (as_idx t)) j = fmlookup (ix_recs (as_idx s)) j)
    \<and> (fmlookup (ix_recs (as_idx t)) i \<noteq> fmlookup (ix_recs (as_idx s)) i \<longrightarrow>
        (case fmlookup (ix_recs (as_idx s)) i of Some r \<Rightarrow> same_env (pr_env a) (r_prelive r)
         | None \<Rightarrow> \<forall>q. fmlookup (ix_recs (as_idx t)) i = Some q \<longrightarrow> r_prelive q = pr_prelive a))"
proof (cases "t = s")
  case False
  from assms(2) have inv: "art_inv d s" by (simp add: art_ok_def)
  obtain i where o: "one_change a i s t" by (rule art_write_change [OF assms(1) inv False])
  then show ?thesis
    by (intro exI [of _ i]) (cases "fmlookup (ix_recs (as_idx s)) i"; simp add: one_change_def)
qed simp

lemma writes_stay_in_environment_witness:
  "\<exists>i. \<forall>j. j \<noteq> i \<longrightarrow> fmlookup (ix_recs (as_idx (do_put stager id_a ''go'' ''more'' [] None store1))) j = fmlookup (ix_recs (as_idx store1)) j"
  using writes_stay_in_environment [OF put_step ok1, of id_a "''go''" "[]" stager "''more''" None] by auto



text \<open>C10: a go-live purge that answers with its counts has seen as many records as the caller expected, has removed
  the staging records or kept them as residues of production, has left every production record as it was, and from then
  on no staging record ever appears again.\<close>

lemma golive_is_final:
  assumes "art_ok d s" "\<forall>j. fresh_ok d (fmlookup fresh j)" "commit_purge e d p n fresh s = (Purged c g, s')" "art_run d s' t"
  shows "int (pc_records (fst c)) = n \<and> (\<forall>i. purged_rec (as_idx s) (as_idx s') i)
    \<and> ix_golive (as_idx t) = Some g \<and> (\<forall>i q. fmlookup (ix_recs (as_idx t)) i = Some q \<longrightarrow> \<not> r_prelive q)"
  using assms(3)
proof (cases rule: commit_purge_cases)
  case (purged c' a g')
  from assms(1) have inv: "art_inv d s" by (simp add: art_ok_def)
  have f: "fresh_ok d (fmlookup fresh j)" for j using assms(2) by blast
  note ps = apply_purge_spec [OF inv f purged(4)]
  have ok: "art_ok d s'" using art.step_ok [OF assms(1) art_step.Purge [OF assms(2,3)]] .
  have g: "ix_golive (as_idx t) = Some g"
    by (rule art.run_keeps [where P = "\<lambda>x. ix_golive (as_idx x) = Some g", OF assms(4) ok _ golive_step])
      (use ps(2) purged(5) in simp_all)
  have "store_ok (as_db t) (as_idx t)" using art.run_ok [OF assms(4) ok] by (simp add: art_ok_def art_inv_def)
  with g store_okD(4) have "\<forall>i q. fmlookup (ix_recs (as_idx t)) i = Some q \<longrightarrow> \<not> r_prelive q" by blast
  with g purged(3,5) ps(3) show ?thesis by blast
qed blast

lemma run_s: "art_run dep0 empty_articles store_s"
  unfolding store_s_def by (rule r_into_rtranclp, rule art_step.Write, rule put_step) simp_all

lemma golive_is_final_witness:
  "\<exists>g. ix_golive (as_idx (do_put stager id_b ''rs'' ''body'' [] None (snd purge_s))) = Some g"
proof -
  obtain c g t where p: "purge_s = (Purged c g, t)" using purged_s by (auto split: prod.splits purge_reply.splits)
  have "art_run dep0 t (do_put stager id_b ''rs'' ''body'' [] None t)"
    by (rule r_into_rtranclp, rule art_step.Write, rule put_step) simp_all
  from golive_is_final [OF art.run_ok [OF run_s art_ok_empty [OF dep0_emb]] _ p [unfolded purge_s_def] this] p
  show ?thesis unfolding p snd_conv by (auto simp: fresh_ok_def)
qed

lemma attempts_refused:
  assumes "put_attempts d p i b check as vecs s = (rep, s')" "\<forall>a \<in> set as. at_others a = (\<lambda>x. x)"
  shows "(\<forall>er. rep = Refused er \<longrightarrow> s' = s) \<and> ((check = None \<longrightarrow> body_ok d b) \<longrightarrow> rep \<noteq> Panicked)"
  using assms
proof (induction as arbitrary: vecs s)
  case Nil
  then show ?case by auto
next
  case (Cons a as)
  have nd: "plan_article d ix p' ts i b check \<noteq> NilDeref" if "check = None \<longrightarrow> body_ok d b" for ix p' ts
    using that by (auto simp: plan_article_def plan_changed_def body_ok_def split: if_splits option.splits prod.splits sum.splits)
  have cp: "out \<noteq> CPanic" if "commit_article e d p i b v check x = (out, y)" "check = None \<longrightarrow> body_ok d b" for e v x out y
    using that(1) nd [OF that(2)] by (auto simp: commit_article_def write_plan_def split: sum.splits plan_result.splits option.splits if_splits)
  show ?case
  proof (cases "plan_article d (as_idx s) p (at_now a) i b check")
    case (Planned pl)
    define missing where "missing = (if pn_content pl then missing_texts vecs (pn_rec pl) else [])"
    define got where "got = (if missing = [] then Some vecs
                 else map_option (\<lambda>vs. fold (\<lambda>(t, v) m. fmupd t v m) (zip missing vs) vecs)
                   (check_vectors d missing (at_answer a missing)))"
    note pa = Cons.prems(1) [unfolded put_attempts.simps Planned plan_result.case Let_def, folded missing_def, folded got_def]
    show ?thesis
    proof (cases got)
      case None
      with pa show ?thesis by auto
    next
      case (Some vecs')
      have o: "at_others a s = s" using Cons.prems(2) by simp
      obtain out t where c: "commit_article (at_env a) d p i b vecs' check s = (out, t)"
        by (cases "commit_article (at_env a) d p i b vecs' check s")
      note pc = pa [unfolded Some option.case o c prod.case]
      show ?thesis
      proof (cases out)
        case CRetry
        have "t = s" using commit_article_refused [OF c] CRetry by simp
        with pc CRetry Cons.IH [of vecs' s] Cons.prems(2) show ?thesis by simp
      next
        case (CFail er)
        have "t = s" using commit_article_refused [OF c] CFail by simp
        with pc CFail show ?thesis by auto
      next
        case CPanic
        with pc cp [OF c] show ?thesis by auto
      next
        case (CDone pl')
        with pc show ?thesis by (auto simp: wrote_def)
      qed
    qed
  qed (use Cons.prems nd in auto)
qed



text \<open>C16: a PUT with an expected version changes an article's content only when that is the version stored under the
  write lock, and moves it to the next one; for a stub the expected version is 0, and a new article takes none.\<close>

lemma expected_version_respected:
  assumes "commit_article e d p i b vecs check s = (CDone pl, s')" "pn_content pl" "pb_expected b = Some v"
  shows "\<exists>r. fmlookup (ix_recs (as_idx s)) i = Some r
    \<and> (if r_status r = st_pending then v = 0 \<and> r_version (pn_rec pl) = 1
       else r_version r = v \<and> r_version (pn_rec pl) = i64 (v + 1))"
proof -
  obtain a where a: "active_locked (as_closed s) (ae_policy e) (as_idx s) p ArticlesWrite True = Inr a"
    using assms(1) by (auto simp: commit_article_def split: sum.splits)
  obtain pl0 where pl0: "plan_article d (as_idx s) a (ae_now e) i b check = Planned pl0"
    using assms(1) a by (auto simp: commit_article_def split: plan_result.splits)
  have e: "pl = pl0 \<or> pl = name_plan (as_idx s) pl0"
    using assms(1) a pl0 by (auto simp: commit_article_def write_plan_def split: if_splits option.splits)
  then have pl: "pn_content pl0" "r_version (pn_rec pl) = r_version (pn_rec pl0)"
    using assms(2) by (auto simp: name_plan_rec)
  from pl0 show ?thesis
  proof (cases rule: plan_articleE)
    case unchanged
    with pl(1) show ?thesis by (simp add: plan_same_def Let_def)
  next
    case (written r nt dr)
    from written(4) show ?thesis
    proof (cases rule: plan_changedE)
      case (1 mo bu req result r')
      show ?thesis
      proof (cases "fmlookup (ix_recs (as_idx s)) i")
        case None
        with next_version_None(1) [OF 1(5) [unfolded None]] assms(3) show ?thesis by simp
      next
        case (Some pv)
        from 1(5) [unfolded Some] show ?thesis
          by (cases rule: next_version_Some) (use assms(3) Some pl 1(8) in auto)
      qed
    qed
  qed
qed

definition update_body :: put_body where "update_body = body_of ''go'' ''more'' [topic_a] (Some 1)"
definition old_rec :: rec where "old_rec = the (fmlookup (ix_recs (as_idx store1)) id_a)"

lemma old_rec: "fmlookup (ix_recs (as_idx store1)) id_a = Some old_rec"
  using has_recE [OF rec1] by (auto simp: old_rec_def)

lemma update_planned:
  "\<exists>pl. plan_article dep0 (as_idx store1) writer ''t'' id_a update_body None = Planned pl \<and> pn_content pl \<and> pn_write pl
     \<and> pn_prev pl = Some old_rec \<and> pn_result pl = Updated \<and> \<not> pn_create pl \<and> vector_texts (pn_rec pl) = [''go'', ''lead'']"
proof -
  have 1: "plan_refusal writer update_body old_rec = None" by code_simp
  obtain r nt dr where 2: "merge_body dep0 id_a (Some old_rec) update_body = (r, nt, dr)" by (metis prod_cases3)
  have "case merge_body dep0 id_a (Some old_rec) update_body of (r, nt, dr) \<Rightarrow> r_sha r \<noteq> r_sha old_rec" by code_simp
  then have 3: "r_sha r \<noteq> r_sha old_rec" by (simp add: 2)
  have "case merge_body dep0 id_a (Some old_rec) update_body of (r, nt, dr) \<Rightarrow>
    (case plan_changed dep0 (as_idx store1) writer ''t'' id_a update_body None (Some old_rec) r nt dr of
       Planned pl \<Rightarrow> pn_content pl \<and> pn_write pl \<and> pn_result pl = Updated \<and> \<not> pn_create pl \<and> vector_texts (pn_rec pl) = [''go'', ''lead'']
     | _ \<Rightarrow> False)" by code_simp
  then obtain pl where 4: "plan_changed dep0 (as_idx store1) writer ''t'' id_a update_body None (Some old_rec) r nt dr = Planned pl"
    "pn_content pl" "pn_write pl" "pn_result pl = Updated" "\<not> pn_create pl" "vector_texts (pn_rec pl) = [''go'', ''lead'']"
    by (auto simp: 2 split: plan_result.splits)
  have "ix_golive (as_idx store1) = None" by code_simp
  with 1 2 3 4 have "plan_article dep0 (as_idx store1) writer ''t'' id_a update_body None = Planned pl"
    by (simp add: plan_article_def old_rec)
  moreover from 4(1) have "pn_prev pl = Some old_rec" by (cases rule: plan_changedE) simp
  ultimately show ?thesis using 4 by blast
qed

lemma expected_version_respected_witness:
  "\<exists>pl s'. commit_article (env_of writer) dep0 writer id_a update_body (vecs_of ''go'') None store1 = (CDone pl, s')
     \<and> r_version old_rec = 1 \<and> r_version (pn_rec pl) = 2"
proof -
  obtain pl where pl: "plan_article dep0 (as_idx store1) writer ''t'' id_a update_body None = Planned pl" "pn_content pl" "pn_write pl"
    "pn_prev pl = Some old_rec" "pn_result pl = Updated" "\<not> pn_create pl" "vector_texts (pn_rec pl) = [''go'', ''lead'']"
    using update_planned by blast
  have a: "active_locked (as_closed store1) (ae_policy (env_of writer)) (as_idx store1) writer ArticlesWrite True = Inr writer" by code_simp
  have n: "ae_now (env_of writer) = ''t''" by code_simp
  have np: "r_status old_rec = st_published" using has_recE [OF rec1] by (auto simp: old_rec)
  have g: "gather_vectors (vecs_of ''go'') m [''go'', ''lead''] = Some [[1], [1]]" for m
    by (simp add: vecs_of_def)
  have e: "\<not> iter_err (env.truncate (env_of writer)) k" "\<not> commit_err (env_of writer)" for k
    by (simp_all add: env_of_def calm_env_def env.defs)
  obtain s' where c: "commit_article (env_of writer) dep0 writer id_a update_body (vecs_of ''go'') None store1 = (CDone pl, s')"
    using pl a n np e
    by (simp add: commit_article_def g new_title_def name_plan_def write_plan_def commit_ops_def prune_versions_def Let_def
        del: gather_vectors.simps)
  from expected_version_respected [OF c pl(2), of 1] old_rec np have "r_version old_rec = 1 \<and> r_version (pn_rec pl) = i64 2"
    by (auto simp: update_body_def body_of_def)
  moreover have "i64 2 = 2" by code_simp
  ultimately show ?thesis using c by simp
qed

text \<open>an update of an article's content keeps the replaced version and prunes the history to the five newest,
  so that at most five are ever kept after it.\<close>

lemma update_keeps_newest_versions:
  assumes "write_plan e d i pl rows s = (CDone pl, s')" "valid_id i" "pn_prev pl = Some pv" "pn_result pl = Updated" "pn_content pl"
    and "0 \<le> r_version pv" "r_version pv < 2 ^ 63"
  shows "(let all = sort (r_version pv # filter (\<lambda>w. w \<noteq> r_version pv) (stored_versions (as_db s) i)) in
      history (as_db s') i = drop (length all - 5) all) \<and> length (history (as_db s') i) \<le> 5"
proof -
  obtain ops where c: "commit_ops (env.truncate e) d (as_db s) i pl rows = Some ops" "as_db s' = apply_batch ops (as_db s)"
    using assms(1) by (auto simp: write_plan_def split: option.splits if_splits)
  note h = prune_keeps_newest [OF assms(2,6,7,3,4,5) c(1), folded c(2)]
  show ?thesis unfolding Let_def h keep_versions_def by simp
qed

lemma update_keeps_newest_versions_witness:
  "length (history (as_db (snd (write_plan (env_of writer) dep0 id_a
     \<lparr>pn_result = Updated, pn_rec = old_rec, pn_prev = Some (zero_rec\<lparr>r_version := 1\<rparr>), pn_write = True, pn_content = True, pn_create = False,
       pn_claims = [], pn_dropped = \<lparr>dr_aliases = 0, dr_topics = 0, dr_clusters = 0\<rparr>\<rparr> [] store1))) id_a) \<le> 5"
proof -
  define pl where "pl = \<lparr>pn_result = Updated, pn_rec = old_rec, pn_prev = Some (zero_rec\<lparr>r_version := 1\<rparr>), pn_write = True, pn_content = True,
     pn_create = False, pn_claims = [], pn_dropped = \<lparr>dr_aliases = 0, dr_topics = 0, dr_clusters = 0\<rparr>\<rparr>"
  have e: "\<not> iter_err (env.truncate (env_of writer)) k" "\<not> commit_err (env_of writer)" for k
    by (simp_all add: env_of_def calm_env_def env.defs)
  obtain s' where c: "write_plan (env_of writer) dep0 id_a pl [] store1 = (CDone pl, s')"
    using e by (simp add: write_plan_def commit_ops_def prune_versions_def pl_def Let_def)
  from update_keeps_newest_versions [OF c] show ?thesis unfolding pl_def [symmetric] c by (simp add: pl_def)
qed

section \<open>Reads\<close>

text \<open>a match shown with its full text is a published article the caller may see, scored at least at the related
  threshold; by the vectors alone it reaches the covered threshold and no other eligible article beats it.\<close>

lemma match_shows_the_best:
  assumes "thresholds_ok th" "match_serve th now p topic reader q s = (res, s')" "sv_article res = FullArticle v"
  shows "\<exists>i r sc. fmlookup (ix_recs (as_idx s)) i = Some r \<and> eligible p (Some r) \<and> best_score (rows_of (as_idx s) i) q = Some sc
    \<and> th_related th \<le> sc \<and> v = public_of (promoted_at r (th_min_tier th)) r
    \<and> (sv_match res = ''embedding'' \<longrightarrow> th_covered th \<le> sc
        \<and> (\<forall>j q' sc'. j \<in> set (row_ids (as_idx s)) \<and> candidate (as_idx s) q (\<lambda>r. eligible p (Some r)) j q' sc' \<longrightarrow>
             beats (r, sc) (q', sc')))"
proof -
  let ?ok = "\<lambda>r. eligible p (Some r)" and ?ix = "as_idx s"
  obtain cov where sv: "serve_verdict ?ix p topic q th = (res, cov)"
    using assms(2) by (auto simp: match_serve_def split: prod.splits option.splits if_splits)
  have emb: "\<exists>i r sc. fmlookup (ix_recs ?ix) i = Some r \<and> eligible p (Some r) \<and> best_score (rows_of ?ix i) q = Some sc
    \<and> th_related th \<le> sc \<and> v = public_of (promoted_at r (th_min_tier th)) r
    \<and> (th_covered th \<le> sc \<and> (\<forall>j q' sc'. j \<in> set (row_ids ?ix) \<and> candidate ?ix q ?ok j q' sc' \<longrightarrow> beats (r, sc) (q', sc')))"
    if se: "serve_embedding (best_record ?ix q ?ok) th = (res, cov)"
  proof -
    obtain r sc where b: "best_record ?ix q ?ok = Some (r, sc)" "th_covered th \<le> sc" "v = public_of (promoted_at r (th_min_tier th)) r"
      using se assms(3) by (auto simp: serve_embedding_def split: option.splits if_splits)
    obtain i where "candidate ?ix q ?ok i r sc" using best_record_Some(1) [OF b(1)] by blast
    moreover have "th_related th \<le> sc" using assms(1) b(2) by (simp add: thresholds_ok_def)
    ultimately show ?thesis using b best_record_Some(2) [OF b(1)] unfolding candidate_def by blast
  qed
  have "serve_embedding (best_record ?ix q ?ok) th = (res, cov)
    \<or> (sv_match res = ''alias'' \<and> (\<exists>i r sc. fmlookup (ix_recs ?ix) i = Some r \<and> eligible p (Some r)
        \<and> best_score (rows_of ?ix i) q = Some sc \<and> th_related th \<le> sc \<and> v = public_of (promoted_at r (th_min_tier th)) r))"
    using sv assms(3) unfolding serve_verdict_def Let_def
    by (auto split: option.splits if_splits) metis+
  with emb show ?thesis by fastforce
qed

definition th0 :: thresholds where "th0 = default_thresholds"

lemma match_shows_the_best_witness:
  "\<exists>res s'. match_serve th0 0 writer None (Some ''reader'') [1] store1 = (res, s') \<and>
     (\<exists>v i r. sv_article res = FullArticle v \<and> fmlookup (ix_recs (as_idx store1)) i = Some r \<and> eligible writer (Some r))"
proof -
  have "case sv_article (fst (match_serve th0 0 writer None (Some ''reader'') [1] store1)) of FullArticle v \<Rightarrow> True | _ \<Rightarrow> False"
    by code_simp
  then obtain res s' v where m: "match_serve th0 0 writer None (Some ''reader'') [1] store1 = (res, s')" "sv_article res = FullArticle v"
    by (cases "match_serve th0 0 writer None (Some ''reader'') [1] store1") (auto split: serve_article.splits)
  have "thresholds_ok th0" by (simp add: th0_def default_thresholds_ok)
  from match_shows_the_best [OF this m] m show ?thesis by blast
qed



text \<open>over one day the count of an article grows by the number of distinct readers, however often and in whatever
  order they read, and the count survives the turns of the days as long as the day is within the fourteen kept.\<close>

lemma readers_counted_once:
  assumes "c_day c = utc_day now" "fmlookup (c_sets c) i = None" "\<not> utc_day now < utc_day (later - 13)"
  shows "readers_on (roll_locked later (fold (\<lambda>r. add_reader i r now) rs c)) i (utc_day now)
    = readers_on c i (utc_day now) + card (set rs)"
proof -
  note d = readers_of_day [OF assms(1,2), of rs]
  have "readers_on (roll_locked later (fold (\<lambda>r. add_reader i r now) rs c)) i (utc_day now)
      = readers_on (fold (\<lambda>r. add_reader i r now) rs c) i (utc_day now)"
    by (rule roll_keeps_counts) (use assms(3) d(2) in \<open>auto simp: counter_days_def\<close>)
  then show ?thesis using d(1) by simp
qed

lemma readers_counted_once_witness:
  "readers_on (roll_locked 1 (fold (\<lambda>r. add_reader id_a r 0) [''x'', ''y'', ''x''] (new_counters\<lparr>c_day := utc_day 0\<rparr>))) id_a (utc_day 0) = 2"
proof -
  have "\<not> utc_day 0 < utc_day (1 - 13)" by code_simp
  from readers_counted_once [OF _ _ this, of "new_counters\<lparr>c_day := utc_day 0\<rparr>" id_a "[''x'', ''y'', ''x'']"]
  have "readers_on (roll_locked 1 (fold (\<lambda>r. add_reader id_a r 0) [''x'', ''y'', ''x''] (new_counters\<lparr>c_day := utc_day 0\<rparr>))) id_a (utc_day 0)
      = readers_on (new_counters\<lparr>c_day := utc_day 0\<rparr>) id_a (utc_day 0) + card (set [''x'', ''y'', ''x''])"
    by (simp add: new_counters_def del: fold.simps set_simps)
  moreover have "card (set [''x'', ''y'', ''x'']) = 2" by code_simp
  moreover have "readers_on (new_counters\<lparr>c_day := utc_day 0\<rparr>) id_a (utc_day 0) = 0"
    by (simp add: new_counters_def readers_on_def days_locked_def)
  ultimately show ?thesis by simp
qed

section \<open>Records and slugs\<close>



text \<open>the search for a free slug ends with one that no record has and no route reserves, of at most 80 bytes.\<close>

lemma itoa_length: "n < 10 ^ Suc k \<Longrightarrow> length (itoa n) \<le> Suc k"
proof (induction k arbitrary: n)
  case 0
  then show ?case by (simp add: itoa.simps [of n])
next
  case (Suc k)
  show ?case
  proof (cases "n < 10")
    case True
    then show ?thesis by (simp add: itoa.simps [of n])
  next
    case False
    have "n div 10 < 10 ^ Suc k" using Suc.prems by (simp add: less_mult_imp_div_less mult.commute)
    from Suc.IH [OF this] False show ?thesis by (simp add: itoa.simps [of n])
  qed
qed

lemma slug_found:
  assumes "fcard (fmdom taken) < 10 ^ 70"
  shows "\<exists>s. assign_slug taken (slugify d title) = Some s \<and> slug_free taken s \<and> length s \<le> 80"
proof -
  let ?b = "slugify d title"
  obtain s where s: "assign_slug taken ?b = Some s" using assign_slug_total [of taken ?b] by blast
  have "length s \<le> 80"
  proof (cases "slug_free taken ?b")
    case True
    with s have "s = cut_slug (dp_full_slug d title)" by (simp add: assign_slug_def slugify_def)
    then show ?thesis by (simp add: cut_slug_length)
  next
    case False
    with s have "assign_from taken ?b (fcard (fmdom taken) + 10) 2 = Some s" by (simp add: assign_slug_def)
    from assign_from_Some [OF this] obtain m where m: "m < 2 + (fcard (fmdom taken) + 10)" "s = slug_candidate ?b m" by auto
    have "12 + 10 ^ 70 \<le> (10 ^ Suc 70 :: nat)" by simp
    with m assms have "m < 10 ^ Suc 70" by linarith
    from slug_candidate_length [of m ?b] itoa_length [OF this] m(2) show ?thesis by simp
  qed
  with s assign_slug_free [OF s] show ?thesis by blast
qed

lemma slug_found_witness:
  "\<exists>s. assign_slug (fmap_of_list [(''go'', canonical id_a)]) (slugify dep0 ''go'') = Some s \<and> s \<noteq> ''go''"
proof -
  have "fmdom (fmap_of_list [(''go'', canonical id_a)]) = {|''go''|}" by (rule fset_eqI) (simp add: fmdom_iff_lookup)
  then have "fcard (fmdom (fmap_of_list [(''go'', canonical id_a)])) < 10 ^ 70" by (simp add: fcard.rep_eq)
  from slug_found [OF this, of dep0 "''go''"] show ?thesis by (auto simp: slug_free_def)
qed

end
