(* ===== verification/SrvLru.thy ===== *)
theory SrvLru
  imports Prelude "HOL-Library.Finite_Map"
begin

text \<open>
  The bounded LRU cache of the search server (\<open>src/internal/server/lru.go\<close>): a map from keys to the elements
  of a doubly linked list in order of use. The elements are addresses into a heap; \<open>lru_abs\<close> forgets the map and
  the addresses, and every operation refines its specification on the list of entries. Times are instants in
  nanoseconds, given by the caller.
\<close>

section \<open>The cache\<close>

record 'v lru_entry =
  le_key :: bytes
  le_value :: 'v
  le_expires :: "int option"

record 'v lru_cache =
  lc_max :: nat
  lc_ttl :: int
  lc_items :: "(bytes, nat) fmap"
  lc_list :: "nat list"
  lc_heap :: "(nat, 'v lru_entry) fmap"
  lc_next :: nat

definition new_lru :: "int \<Rightarrow> int \<Rightarrow> 'v lru_cache" where
  "new_lru max_size ttl = \<lparr>lc_max = (if max_size \<le> 0 then 1 else nat max_size), lc_ttl = ttl, lc_items = fmempty,
     lc_list = [], lc_heap = fmempty, lc_next = 0\<rparr>"

text \<open>The element at an address; only addresses of the list are read.\<close>

definition slot_at :: "'v lru_cache \<Rightarrow> nat \<Rightarrow> 'v lru_entry" where
  "slot_at c a = the (fmlookup (lc_heap c) a)"

definition lru_remove :: "nat \<Rightarrow> 'v lru_cache \<Rightarrow> 'v lru_cache" where
  "lru_remove a c = c\<lparr>lc_list := remove1 a (lc_list c), lc_items := fmdrop (le_key (slot_at c a)) (lc_items c)\<rparr>"

definition move_to_front :: "nat \<Rightarrow> 'v lru_cache \<Rightarrow> 'v lru_cache" where
  "move_to_front a c = c\<lparr>lc_list := a # remove1 a (lc_list c)\<rparr>"

definition lru_get :: "int \<Rightarrow> bytes \<Rightarrow> 'v lru_cache \<Rightarrow> 'v option \<times> 'v lru_cache" where
  "lru_get now k c = (case fmlookup (lc_items c) k of None \<Rightarrow> (None, c)
     | Some a \<Rightarrow> let en = slot_at c a in
         if 0 < lc_ttl c \<and> (case le_expires en of None \<Rightarrow> False | Some x \<Rightarrow> x < now) then (None, lru_remove a c)
         else (Some (le_value en), move_to_front a c))"

function (sequential) lru_evict :: "'v lru_cache \<Rightarrow> 'v lru_cache" where
  "lru_evict c = (if length (lc_list c) \<le> lc_max c \<or> lc_list c = [] then c
     else lru_evict (lru_remove (last (lc_list c)) c))"
  by pat_completeness auto
termination
  by (relation "measure (\<lambda>c. length (lc_list c))") (auto simp: lru_remove_def length_remove1)

declare lru_evict.simps [simp del]

definition lru_set :: "int \<Rightarrow> bytes \<Rightarrow> 'v \<Rightarrow> 'v lru_cache \<Rightarrow> 'v lru_cache" where
  "lru_set now k v c =
     (case fmlookup (lc_items c) k of
        Some a \<Rightarrow>
          (let c = move_to_front a c; en = (slot_at c a)\<lparr>le_value := v\<rparr>;
               en = (if 0 < lc_ttl c then en\<lparr>le_expires := Some (now + lc_ttl c)\<rparr> else en) in
           c\<lparr>lc_heap := fmupd a en (lc_heap c)\<rparr>)
      | None \<Rightarrow>
          (let en = \<lparr>le_key = k, le_value = v, le_expires = (if 0 < lc_ttl c then Some (now + lc_ttl c) else None)\<rparr>;
               a = lc_next c in
           lru_evict (c\<lparr>lc_heap := fmupd a en (lc_heap c), lc_next := a + 1, lc_list := a # lc_list c,
             lc_items := fmupd k a (lc_items c)\<rparr>)))"

section \<open>Invariant and abstraction\<close>

definition lru_inv :: "'v lru_cache \<Rightarrow> bool" where
  "lru_inv c = (distinct (lc_list c)
     \<and> (\<forall>a. a \<in> set (lc_list c) \<longrightarrow> fmlookup (lc_items c) (le_key (slot_at c a)) = Some a)
     \<and> (\<forall>k a. fmlookup (lc_items c) k = Some a \<longrightarrow> a \<in> set (lc_list c))
     \<and> (\<forall>k a. fmlookup (lc_items c) k = Some a \<longrightarrow> le_key (slot_at c a) = k)
     \<and> (\<forall>a. a \<in> set (lc_list c) \<longrightarrow> a < lc_next c))"

type_synonym 'v recency = "(bytes \<times> 'v \<times> int option) list"

definition entry_tuple :: "'v lru_entry \<Rightarrow> bytes \<times> 'v \<times> int option" where
  "entry_tuple en = (le_key en, le_value en, le_expires en)"

definition lru_abs :: "'v lru_cache \<Rightarrow> 'v recency" where
  "lru_abs c = map (\<lambda>a. entry_tuple (slot_at c a)) (lc_list c)"

definition without :: "bytes \<Rightarrow> 'v recency \<Rightarrow> 'v recency" where
  "without k xs = filter (\<lambda>e. fst e \<noteq> k) xs"

definition spec_get :: "int \<Rightarrow> int \<Rightarrow> bytes \<Rightarrow> 'v recency \<Rightarrow> 'v option \<times> 'v recency" where
  "spec_get ttl now k xs = (case map_of xs k of None \<Rightarrow> (None, xs)
     | Some (v, x) \<Rightarrow> if 0 < ttl \<and> (case x of None \<Rightarrow> False | Some t \<Rightarrow> t < now) then (None, without k xs)
         else (Some v, (k, v, x) # without k xs))"

definition spec_set :: "nat \<Rightarrow> int \<Rightarrow> int \<Rightarrow> bytes \<Rightarrow> 'v \<Rightarrow> 'v recency \<Rightarrow> 'v recency" where
  "spec_set n ttl now k v xs = take n ((k, v, if 0 < ttl then Some (now + ttl)
     else (case map_of xs k of None \<Rightarrow> None | Some (_, x) \<Rightarrow> x)) # without k xs)"

lemma lru_invD:
  assumes "lru_inv c"
  shows "distinct (lc_list c)" "a \<in> set (lc_list c) \<Longrightarrow> fmlookup (lc_items c) (le_key (slot_at c a)) = Some a"
    "fmlookup (lc_items c) k = Some a \<Longrightarrow> a \<in> set (lc_list c)" "fmlookup (lc_items c) k = Some a \<Longrightarrow> le_key (slot_at c a) = k"
    "a \<in> set (lc_list c) \<Longrightarrow> a < lc_next c"
proof -
  note i = assms [unfolded lru_inv_def]
  note c2 = i [THEN conjunct2] note c3 = c2 [THEN conjunct2] note c4 = c3 [THEN conjunct2]
  show "distinct (lc_list c)" by (rule i [THEN conjunct1])
  show "a \<in> set (lc_list c) \<Longrightarrow> fmlookup (lc_items c) (le_key (slot_at c a)) = Some a" by (rule c2 [THEN conjunct1, rule_format])
  show "fmlookup (lc_items c) k = Some a \<Longrightarrow> a \<in> set (lc_list c)" by (rule c3 [THEN conjunct1, rule_format])
  show "fmlookup (lc_items c) k = Some a \<Longrightarrow> le_key (slot_at c a) = k" by (rule c4 [THEN conjunct1, rule_format])
  show "a \<in> set (lc_list c) \<Longrightarrow> a < lc_next c" by (rule c4 [THEN conjunct2, rule_format])
qed

lemma lru_key_inj:
  assumes "lru_inv c" "a \<in> set (lc_list c)" "b \<in> set (lc_list c)" "le_key (slot_at c a) = le_key (slot_at c b)"
  shows "a = b"
proof -
  have "Some a = fmlookup (lc_items c) (le_key (slot_at c b))"
    using lru_invD(2) [OF assms(1,2)] unfolding assms(4) by (rule sym)
  also have "\<dots> = Some b" by (rule lru_invD(2) [OF assms(1,3)])
  finally show ?thesis by simp
qed

lemma map_of_abs:
  assumes "lru_inv c"
  shows "map_of (lru_abs c) k = map_option (\<lambda>a. (le_value (slot_at c a), le_expires (slot_at c a))) (fmlookup (lc_items c) k)"
proof -
  have *: "map_of (map (\<lambda>a. entry_tuple (slot_at c a)) xs) k
      = (if \<exists>a. fmlookup (lc_items c) k = Some a \<and> a \<in> set xs then
           map_option (\<lambda>a. (le_value (slot_at c a), le_expires (slot_at c a))) (fmlookup (lc_items c) k) else None)"
    if "set xs \<subseteq> set (lc_list c)" for xs
    using that
  proof (induction xs)
    case Nil
    then show ?case by simp
  next
    case (Cons b xs)
    then have b: "b \<in> set (lc_list c)" by simp
    show ?case
    proof (cases "le_key (slot_at c b) = k")
      case True
      with lru_invD(2) [OF assms b] show ?thesis by (simp add: entry_tuple_def)
    next
      case False
      then have "fmlookup (lc_items c) k \<noteq> Some b" using lru_invD(4) [OF assms] by auto
      with False Cons show ?thesis by (auto simp: entry_tuple_def)
    qed
  qed
  from * [of "lc_list c"] show ?thesis using lru_invD(3) [OF assms, of k]
    by (cases "fmlookup (lc_items c) k") (auto simp: lru_abs_def)
qed

text \<open>Dropping one element of the list is dropping its key from the entries.\<close>

lemma abs_remove1:
  assumes "lru_inv c" "a \<in> set (lc_list c)"
  shows "map (\<lambda>b. entry_tuple (slot_at c b)) (remove1 a (lc_list c)) = without (le_key (slot_at c a)) (lru_abs c)"
proof -
  have "remove1 a (lc_list c) = filter (\<lambda>b. b \<noteq> a) (lc_list c)" by (rule distinct_remove1_removeAll [OF lru_invD(1) [OF assms(1)], unfolded removeAll_filter_not_eq, THEN trans]) (simp add: eq_commute)
  also have "\<dots> = filter (\<lambda>b. le_key (slot_at c b) \<noteq> le_key (slot_at c a)) (lc_list c)"
    using lru_key_inj [OF assms(1) _ assms(2)] by (intro filter_cong) auto
  finally show ?thesis by (simp add: lru_abs_def without_def filter_map comp_def entry_tuple_def)
qed

lemma lru_remove_refines:
  assumes "lru_inv c" "a \<in> set (lc_list c)"
  shows "lru_inv (lru_remove a c)" "lru_abs (lru_remove a c) = without (le_key (slot_at c a)) (lru_abs c)"
proof -
  have e: "slot_at (lru_remove a c) = slot_at c" by (simp add: lru_remove_def slot_at_def fun_eq_iff)
  show "lru_abs (lru_remove a c) = without (le_key (slot_at c a)) (lru_abs c)"
    using abs_remove1 [OF assms] unfolding lru_abs_def e by (simp add: lru_remove_def)
  show "lru_inv (lru_remove a c)"
    using assms(1) lru_key_inj [OF assms(1) _ assms(2)] unfolding lru_inv_def e by (auto simp: lru_remove_def)
qed

lemma move_to_front_refines:
  assumes "lru_inv c" "a \<in> set (lc_list c)"
  shows "lru_inv (move_to_front a c)"
    and "lru_abs (move_to_front a c) = entry_tuple (slot_at c a) # without (le_key (slot_at c a)) (lru_abs c)"
proof -
  have e: "slot_at (move_to_front a c) = slot_at c" by (simp add: move_to_front_def slot_at_def fun_eq_iff)
  show "lru_abs (move_to_front a c) = entry_tuple (slot_at c a) # without (le_key (slot_at c a)) (lru_abs c)"
    using abs_remove1 [OF assms] unfolding lru_abs_def e by (simp add: move_to_front_def)
  have "set (a # remove1 a (lc_list c)) = set (lc_list c)" using assms lru_invD(1) [OF assms(1)] by auto
  then show "lru_inv (move_to_front a c)"
    using assms(1) lru_invD(1) [OF assms(1)] unfolding lru_inv_def e by (auto simp: move_to_front_def)
qed

lemma lru_get_refines:
  assumes "lru_inv c" "lru_get now k c = (r, c')"
  shows "lru_inv c'" "spec_get (lc_ttl c) now k (lru_abs c) = (r, lru_abs c')" "lc_ttl c' = lc_ttl c" "lc_max c' = lc_max c"
proof -
  have "lru_inv c' \<and> spec_get (lc_ttl c) now k (lru_abs c) = (r, lru_abs c') \<and> lc_ttl c' = lc_ttl c \<and> lc_max c' = lc_max c"
  proof (cases "fmlookup (lc_items c) k")
    case None
    with assms show ?thesis by (simp add: lru_get_def spec_get_def map_of_abs)
  next
    case (Some a)
    note a = lru_invD(3) [OF assms(1) Some] note k = lru_invD(4) [OF assms(1) Some]
    from assms(2) Some k show ?thesis
      using lru_remove_refines [OF assms(1) a] move_to_front_refines [OF assms(1) a]
      by (auto simp: lru_get_def spec_get_def map_of_abs [OF assms(1)] Let_def entry_tuple_def lru_remove_def move_to_front_def
          split: if_splits)
  qed
  then show "lru_inv c'" "spec_get (lc_ttl c) now k (lru_abs c) = (r, lru_abs c')" "lc_ttl c' = lc_ttl c" "lc_max c' = lc_max c"
    by blast+
qed

lemma lru_abs_keys: "lru_inv c \<Longrightarrow> distinct (map fst (lru_abs c))"
  using lru_key_inj lru_invD(1) by (fastforce simp: lru_abs_def distinct_map entry_tuple_def inj_on_def)

lemma remove1_last: "distinct xs \<Longrightarrow> xs \<noteq> [] \<Longrightarrow> remove1 (last xs) xs = butlast xs"
  by (cases xs rule: rev_cases) (simp_all add: remove1_append)

lemma lru_evict_refines:
  "lru_inv c \<Longrightarrow> 0 < lc_max c \<Longrightarrow> lru_inv (lru_evict c) \<and> lru_abs (lru_evict c) = take (lc_max c) (lru_abs c)
     \<and> lc_ttl (lru_evict c) = lc_ttl c \<and> lc_max (lru_evict c) = lc_max c"
proof (induction c rule: lru_evict.induct)
  case (1 c)
  show ?case
  proof (cases "length (lc_list c) \<le> lc_max c \<or> lc_list c = []")
    case True
    then have "take (lc_max c) (lru_abs c) = lru_abs c" by (auto simp: lru_abs_def)
    with True 1 show ?thesis by (simp add: lru_evict.simps [of c])
  next
    case False
    let ?a = "last (lc_list c)" and ?c = "lru_remove (last (lc_list c)) c"
    have a: "?a \<in> set (lc_list c)" using False by simp
    note r = lru_remove_refines [OF "1.prems"(1) a]
    have m: "lc_max ?c = lc_max c" "lc_ttl ?c = lc_ttl c" by (simp_all add: lru_remove_def)
    have l: "lru_abs c = lru_abs ?c @ [entry_tuple (slot_at c ?a)]"
    proof -
      let ?f = "\<lambda>b. entry_tuple (slot_at c b)"
      have rl: "remove1 ?a (lc_list c) = butlast (lc_list c)"
        using remove1_last [OF lru_invD(1) [OF "1.prems"(1)]] False by blast
      have "map ?f (lc_list c) = map ?f (butlast (lc_list c) @ [?a])" using False by (metis append_butlast_last_id)
      also have "\<dots> = map ?f (remove1 ?a (lc_list c)) @ [?f ?a]"
        unfolding rl map_append by simp
      finally show ?thesis unfolding abs_remove1 [OF "1.prems"(1) a] r(2) by (simp add: lru_abs_def)
    qed
    have "length (lru_abs ?c) \<ge> lc_max c" using False arg_cong [OF l, of length] by (simp add: lru_abs_def)
    with l have "take (lc_max c) (lru_abs c) = take (lc_max c) (lru_abs ?c)" by simp
    with "1.IH" [OF False r(1)] "1.prems"(2) False m show ?thesis by (simp add: lru_evict.simps [of c])
  qed
qed

lemma without_less:
  assumes "map_of xs k = Some y"
  shows "length (without k xs) < length xs"
proof -
  have "(k, y) \<in> set xs" using assms by (rule map_of_SomeD)
  then show ?thesis unfolding without_def by (rule length_filter_less) simp
qed

lemma lru_set_refines:
  assumes inv: "lru_inv c" and m: "0 < lc_max c" and len: "length (lc_list c) \<le> lc_max c"
  shows "lru_inv (lru_set now k v c)" "lru_abs (lru_set now k v c) = spec_set (lc_max c) (lc_ttl c) now k v (lru_abs c)"
    "lc_ttl (lru_set now k v c) = lc_ttl c" "lc_max (lru_set now k v c) = lc_max c"
proof -
  have "lru_inv (lru_set now k v c) \<and> lru_abs (lru_set now k v c) = spec_set (lc_max c) (lc_ttl c) now k v (lru_abs c)
    \<and> lc_ttl (lru_set now k v c) = lc_ttl c \<and> lc_max (lru_set now k v c) = lc_max c"
  proof (cases "fmlookup (lc_items c) k")
    case (Some a)
    note a = lru_invD(3) [OF inv Some] note k = lru_invD(4) [OF inv Some]
    let ?f = "move_to_front a c"
    note f = move_to_front_refines [OF inv a]
    define en where "en = (if 0 < lc_ttl c then (slot_at c a)\<lparr>le_value := v, le_expires := Some (now + lc_ttl c)\<rparr>
      else (slot_at c a)\<lparr>le_value := v\<rparr>)"
    have s: "lru_set now k v c = ?f\<lparr>lc_heap := fmupd a en (lc_heap c)\<rparr>"
      using Some by (simp add: lru_set_def Let_def en_def) (simp add: move_to_front_def slot_at_def)
    have e: "slot_at (lru_set now k v c) b = (if b = a then en else slot_at c b)" for b
      by (simp add: s slot_at_def move_to_front_def)
    have ke: "le_key en = k" using k by (simp add: en_def)
    then have ks: "le_key (slot_at (lru_set now k v c) b) = le_key (slot_at c b)" for b using k by (simp add: e)
    have kf: "le_key (slot_at ?f b) = le_key (slot_at c b)" for b by (simp add: move_to_front_def slot_at_def)
    have "lru_inv (lru_set now k v c)" using f(1) unfolding lru_inv_def ks kf by (simp add: s)
    moreover have "lru_abs (lru_set now k v c) = entry_tuple en # without k (lru_abs c)"
    proof -
      have "lru_abs (lru_set now k v c) = entry_tuple en # map (\<lambda>b. entry_tuple (slot_at c b)) (remove1 a (lc_list c))"
        using lru_invD(1) [OF inv] by (simp add: lru_abs_def e) (simp add: s move_to_front_def)
      then show ?thesis by (simp add: abs_remove1 [OF inv a] k)
    qed
    moreover have "length (entry_tuple en # without k (lru_abs c)) \<le> lc_max c"
    proof -
      have "map_of (lru_abs c) k = Some (le_value (slot_at c a), le_expires (slot_at c a))" by (simp add: map_of_abs [OF inv] Some)
      then have "length (without k (lru_abs c)) < length (lru_abs c)" by (rule without_less)
      with len show ?thesis by (simp add: lru_abs_def)
    qed
    moreover have "entry_tuple en = (k, v, if 0 < lc_ttl c then Some (now + lc_ttl c)
       else (case map_of (lru_abs c) k of None \<Rightarrow> None | Some (_, x) \<Rightarrow> x))"
      using k by (simp add: en_def entry_tuple_def map_of_abs [OF inv] Some)
    ultimately show ?thesis by (simp add: spec_set_def s move_to_front_def)
  next
    case None
    define en where "en = \<lparr>le_key = k, le_value = v, le_expires = (if 0 < lc_ttl c then Some (now + lc_ttl c) else None)\<rparr>"
    define c1 where "c1 = c\<lparr>lc_heap := fmupd (lc_next c) en (lc_heap c), lc_next := lc_next c + 1, lc_list := lc_next c # lc_list c,
      lc_items := fmupd k (lc_next c) (lc_items c)\<rparr>"
    have s: "lru_set now k v c = lru_evict c1" using None by (simp add: lru_set_def Let_def c1_def en_def)
    have nin: "lc_next c \<notin> set (lc_list c)" using lru_invD(5) [OF inv] by blast
    have e: "slot_at c1 b = (if b = lc_next c then en else slot_at c b)" for b by (simp add: c1_def slot_at_def)
    have nk: "le_key (slot_at c b) \<noteq> k" if "b \<in> set (lc_list c)" for b using lru_invD(2) [OF inv that] None by auto
    have "lru_inv c1"
      unfolding lru_inv_def
    proof (intro conjI allI impI)
      show "distinct (lc_list c1)" using nin lru_invD(1) [OF inv] by (simp add: c1_def)
      show "fmlookup (lc_items c1) (le_key (slot_at c1 a)) = Some a" if "a \<in> set (lc_list c1)" for a
        using that nin nk lru_invD(2) [OF inv, of a] by (auto simp: e) (auto simp: c1_def en_def)
      show "a \<in> set (lc_list c1)" if "fmlookup (lc_items c1) k' = Some a" for k' a
        using that lru_invD(3) [OF inv] by (auto simp: c1_def split: if_splits)
      show "le_key (slot_at c1 a) = k'" if "fmlookup (lc_items c1) k' = Some a" for k' a
        using that lru_invD(3,4) [OF inv] nin by (auto simp: e) (auto simp: c1_def en_def split: if_splits)
      show "a < lc_next c1" if "a \<in> set (lc_list c1)" for a using that lru_invD(5) [OF inv] by (fastforce simp: c1_def)
    qed
    moreover have "lru_abs c1 = entry_tuple en # lru_abs c"
    proof -
      have "map (\<lambda>b. entry_tuple (slot_at c1 b)) (lc_list c) = map (\<lambda>b. entry_tuple (slot_at c b)) (lc_list c)"
        using nin by (intro map_cong) (auto simp: e)
      then show ?thesis by (simp add: lru_abs_def e) (simp add: c1_def)
    qed
    moreover have "without k (lru_abs c) = lru_abs c"
      using nk by (auto simp: without_def filter_id_conv lru_abs_def entry_tuple_def)
    moreover have "map_of (lru_abs c) k = None" by (simp add: map_of_abs [OF inv] None)
    moreover have "lc_max c1 = lc_max c" "lc_ttl c1 = lc_ttl c" by (simp_all add: c1_def)
    ultimately show ?thesis using lru_evict_refines [of c1] m unfolding s
      by (simp add: spec_set_def entry_tuple_def en_def)
  qed
  then show "lru_inv (lru_set now k v c)" "lru_abs (lru_set now k v c) = spec_set (lc_max c) (lc_ttl c) now k v (lru_abs c)"
    "lc_ttl (lru_set now k v c) = lc_ttl c" "lc_max (lru_set now k v c) = lc_max c" by blast+
qed

lemma length_lru_abs: "length (lru_abs c) = length (lc_list c)"
  by (simp add: lru_abs_def)

section \<open>Runs\<close>

datatype 'v lru_op = OGet int bytes | OSet int bytes 'v

fun op_key :: "'v lru_op \<Rightarrow> bytes" where
  "op_key (OGet t k) = k"
| "op_key (OSet t k v) = k"

primrec lru_run :: "'v lru_op list \<Rightarrow> 'v lru_cache \<Rightarrow> 'v option list \<times> 'v lru_cache" where
  "lru_run [] c = ([], c)"
| "lru_run (o' # os) c = (case o' of
       OGet now k \<Rightarrow> (case lru_get now k c of (r, c) \<Rightarrow> case lru_run os c of (rs, c) \<Rightarrow> (r # rs, c))
     | OSet now k v \<Rightarrow> lru_run os (lru_set now k v c))"

primrec spec_run :: "nat \<Rightarrow> int \<Rightarrow> 'v lru_op list \<Rightarrow> 'v recency \<Rightarrow> 'v option list \<times> 'v recency" where
  "spec_run n ttl [] xs = ([], xs)"
| "spec_run n ttl (o' # os) xs = (case o' of
       OGet now k \<Rightarrow> (case spec_get ttl now k xs of (r, xs) \<Rightarrow> case spec_run n ttl os xs of (rs, xs) \<Rightarrow> (r # rs, xs))
     | OSet now k v \<Rightarrow> spec_run n ttl os (spec_set n ttl now k v xs))"

definition lru_good :: "'v lru_cache \<Rightarrow> bool" where
  "lru_good c = (lru_inv c \<and> 0 < lc_max c \<and> length (lc_list c) \<le> lc_max c)"

lemma without_length: "length (without k xs) \<le> length xs"
  by (simp add: without_def)

lemma spec_get_length:
  assumes "spec_get ttl now k xs = (r, ys)"
  shows "length ys \<le> length xs"
proof (cases "map_of xs k")
  case (Some y)
  from without_less [OF this] Some assms show ?thesis by (auto simp: spec_get_def split: if_splits prod.splits)
qed (use assms in \<open>simp add: spec_get_def\<close>)

lemma lru_good_get:
  assumes "lru_good c" "lru_get now k c = (r, c')"
  shows "lru_good c'"
  using assms lru_get_refines [OF _ assms(2)] spec_get_length [of "lc_ttl c" now k "lru_abs c" r "lru_abs c'"]
  by (auto simp: lru_good_def lru_abs_def)

lemma lru_good_set: "lru_good c \<Longrightarrow> lru_good (lru_set now k v c)"
proof -
  assume g: "lru_good c"
  then have "length (lru_abs (lru_set now k v c)) \<le> lc_max c"
    using lru_set_refines(2) [of c now k v] by (simp add: lru_good_def spec_set_def)
  then have "length (lc_list (lru_set now k v c)) \<le> lc_max c" unfolding length_lru_abs .
  with g lru_set_refines [of c now k v] show ?thesis by (simp add: lru_good_def)
qed

lemma lru_run_refines:
  assumes "lru_good c" "lru_run os c = (rs, c')"
  shows "lru_good c' \<and> spec_run (lc_max c) (lc_ttl c) os (lru_abs c) = (rs, lru_abs c') \<and> lc_max c' = lc_max c \<and> lc_ttl c' = lc_ttl c"
  using assms
proof (induction os arbitrary: c rs)
  case Nil
  then show ?case by simp
next
  case (Cons o' os)
  show ?case
  proof (cases o')
    case (OGet now k)
    obtain r c1 where g: "lru_get now k c = (r, c1)" by (cases "lru_get now k c")
    obtain rs1 where "lru_run os c1 = (rs1, c')" "rs = r # rs1" using Cons.prems(2) OGet g by (auto split: prod.splits)
    with Cons.IH [OF lru_good_get [OF Cons.prems(1) g]] lru_get_refines [OF _ g] Cons.prems(1) OGet show ?thesis
      by (auto simp: lru_good_def)
  next
    case (OSet now k v)
    then have r: "lru_run os (lru_set now k v c) = (rs, c')" using Cons.prems(2) by simp
    from Cons.IH [OF lru_good_set [OF Cons.prems(1)] r] Cons.prems(1) lru_set_refines [of c now k v] OSet show ?thesis
      by (simp add: lru_good_def)
  qed
qed

lemma new_lru_good: "lru_good (new_lru n ttl)" "lru_abs (new_lru n ttl) = []"
  "lc_max (new_lru n ttl) = max 1 (nat n)" "lc_ttl (new_lru n ttl) = ttl"
  by (auto simp: lru_good_def lru_inv_def new_lru_def lru_abs_def)

section \<open>What is kept\<close>

text \<open>The entry of a key, with only keys of \<open>T\<close> used after it.\<close>

definition behind :: "bytes set \<Rightarrow> bytes \<Rightarrow> 'v \<Rightarrow> int option \<Rightarrow> 'v recency \<Rightarrow> bool" where
  "behind T k v x xs = (\<exists>pre post. xs = pre @ (k, v, x) # post \<and> distinct (map fst xs) \<and> fst ` set pre \<subseteq> T \<and> k \<notin> T)"

lemma behind_front:
  assumes "behind T k v x xs" "k' \<noteq> k" "fst y = k'"
  shows "behind (insert k' T) k v x (y # without k' xs)"
proof -
  obtain pre post where p: "xs = pre @ (k, v, x) # post" "distinct (map fst xs)" "fst ` set pre \<subseteq> T" "k \<notin> T"
    using assms(1) by (auto simp: behind_def)
  have "distinct (map fst (without k' xs))" using p(2) unfolding without_def by (rule distinct_map_filter)
  then have "distinct (map fst (y # without k' xs))" using assms(3) by (auto simp: without_def)
  moreover have "y # without k' xs = (y # without k' pre) @ (k, v, x) # without k' post"
    using p(1) assms(2) by (simp add: without_def)
  moreover have "fst ` set (y # without k' pre) \<subseteq> insert k' T" using p(3) assms(3) by (auto simp: without_def)
  ultimately show ?thesis unfolding behind_def using p(4) assms(2) by blast
qed

lemma behind_without:
  assumes "behind T k v x xs" "k' \<noteq> k"
  shows "behind T k v x (without k' xs)"
proof -
  obtain pre post where p: "xs = pre @ (k, v, x) # post" "distinct (map fst xs)" "fst ` set pre \<subseteq> T" "k \<notin> T"
    using assms(1) by (auto simp: behind_def)
  have "distinct (map fst (without k' xs))" using p(2) unfolding without_def by (rule distinct_map_filter)
  moreover have "without k' xs = without k' pre @ (k, v, x) # without k' post"
    using p(1) assms(2) by (simp add: without_def)
  moreover have "fst ` set (without k' pre) \<subseteq> T" using p(3) by (auto simp: without_def)
  ultimately show ?thesis unfolding behind_def using p(4) by blast
qed

lemma behind_take:
  assumes "behind T k v x xs" "finite T" "card T < n"
  shows "behind T k v x (take n xs)"
proof -
  obtain pre post where p: "xs = pre @ (k, v, x) # post" "distinct (map fst xs)" "fst ` set pre \<subseteq> T" "k \<notin> T"
    using assms(1) by (auto simp: behind_def)
  have "length pre = card (fst ` set pre)" using p(1,2) by (metis distinct_append distinct_card length_map list.set_map map_append)
  also have "\<dots> \<le> card T" using p(3) assms(2) by (rule card_mono [rotated])
  finally have "length pre < n" using assms(3) by simp
  then have "take n xs = pre @ (k, v, x) # take (n - length pre - 1) post"
    using p(1) by (cases "n - length pre") simp_all
  moreover have "distinct (map fst (take n xs))" using p(2) by (metis distinct_take take_map)
  ultimately show ?thesis unfolding behind_def using p by blast
qed

lemma behind_mono: "behind T k v x xs \<Longrightarrow> T \<subseteq> U \<Longrightarrow> k \<notin> U \<Longrightarrow> behind U k v x xs"
  by (auto simp: behind_def)

lemma behind_run:
  assumes "behind T k v x xs" "finite T" "\<forall>q \<in> set os. op_key q \<noteq> k" "card (T \<union> op_key ` set os) < n" "spec_run n ttl os xs = (rs, ys)"
  shows "behind (T \<union> op_key ` set os) k v x ys"
  using assms
proof (induction os arbitrary: T xs rs)
  case Nil
  then show ?case by simp
next
  case (Cons q os)
  define k' where "k' = op_key q"
  have n: "k' \<noteq> k" using Cons.prems(3) by (simp add: k'_def)
  have U: "T \<union> op_key ` set (q # os) = insert k' T \<union> op_key ` set os" by (auto simp: k'_def)
  have c: "card (insert k' T) < n"
  proof -
    have "card (insert k' T) \<le> card (T \<union> op_key ` set (q # os))" unfolding U using Cons.prems(2) by (intro card_mono) auto
    with Cons.prems(4) show ?thesis by simp
  qed
  have kT: "k \<notin> insert k' T" using Cons.prems(1) n by (auto simp: behind_def)
  have step: "\<exists>rs' zs. spec_run n ttl os zs = (rs', ys) \<and> behind (insert k' T) k v x zs"
  proof (cases q)
    case (OGet now k2)
    then have k2: "k2 = k'" by (simp add: k'_def)
    obtain r zs where g: "spec_get ttl now k' xs = (r, zs)" by (cases "spec_get ttl now k' xs")
    obtain rs' where "spec_run n ttl os zs = (rs', ys)" using Cons.prems(5) OGet k2 g by (auto split: prod.splits)
    moreover have "behind (insert k' T) k v x zs"
      using g behind_front [OF Cons.prems(1) n] behind_mono [OF behind_without [OF Cons.prems(1) n] _ kT]
        behind_mono [OF Cons.prems(1) _ kT]
      by (auto simp: spec_get_def split: option.splits if_splits prod.splits)
    ultimately show ?thesis by blast
  next
    case (OSet now k2 w)
    then have k2: "k2 = k'" by (simp add: k'_def)
    have "behind (insert k' T) k v x (spec_set n ttl now k' w xs)"
      unfolding spec_set_def by (rule behind_take [OF behind_front [OF Cons.prems(1) n]]) (use c Cons.prems(2) in simp_all)
    with Cons.prems(5) OSet k2 show ?thesis by auto
  qed
  then obtain rs' zs where z: "spec_run n ttl os zs = (rs', ys)" "behind (insert k' T) k v x zs" by blast
  from Cons.IH [OF z(2) _ _ _ z(1)] Cons.prems(2,3,4) show ?case unfolding U by simp
qed

section \<open>Properties\<close>

text \<open>C27: the cache behaves as the list of its entries in order of use: every sequence of reads and writes on a new
  cache answers exactly as the list specification, and never holds more entries than its bound.\<close>

lemma lru_is_recency_list:
  assumes "lru_run os (new_lru n ttl) = (rs, c)"
  shows "spec_run (max 1 (nat n)) ttl os [] = (rs, lru_abs c) \<and> length (lru_abs c) \<le> max 1 (nat n)"
  using lru_run_refines [OF new_lru_good(1) assms, unfolded new_lru_good(2-4)]
  by (simp add: lru_good_def length_lru_abs)

definition demo_ops :: "nat lru_op list" where
  "demo_ops = [OSet 0 ''a'' 1, OSet 0 ''b'' 2, OGet 0 ''a'', OSet 0 ''c'' 3, OGet 0 ''b'', OGet 0 ''a'']"

lemma lru_is_recency_list_witness: "fst (lru_run demo_ops (new_lru 2 0)) = [Some 1, None, Some 1]"
proof -
  have "fst (spec_run (max 1 (nat 2)) 0 demo_ops []) = [Some 1, None, Some 1]" by code_simp
  moreover have "spec_run (max 1 (nat 2)) 0 demo_ops [] = (fst (lru_run demo_ops (new_lru 2 0)), lru_abs (snd (lru_run demo_ops (new_lru 2 0))))"
    using lru_is_recency_list [of demo_ops 2 0] by (simp add: prod_eq_iff)
  ultimately show ?thesis by simp
qed

text \<open>what the least-recently-used order guarantees: a stored value is found again as long as it has not expired and
  fewer other keys than the bound have been used since.\<close>

lemma lru_keeps_recent:
  assumes "lru_good c" "lru_run os (lru_set now k v c) = (rs, c')" "\<forall>q \<in> set os. op_key q \<noteq> k"
    and "card (op_key ` set os) < lc_max c" "lc_ttl c \<le> 0 \<or> later \<le> now + lc_ttl c"
  shows "fst (lru_get later k c') = Some v"
proof -
  let ?n = "lc_max c" and ?x = "if 0 < lc_ttl c then Some (now + lc_ttl c)
     else (case map_of (lru_abs c) k of None \<Rightarrow> None | Some (_, x) \<Rightarrow> x)"
  have n: "0 < ?n" using assms(1) by (simp add: lru_good_def)
  note g = lru_good_set [OF assms(1), of now k v]
  have inv: "lru_inv c" "length (lc_list c) \<le> ?n" using assms(1) by (simp_all add: lru_good_def)
  note st = lru_set_refines [OF inv(1) n inv(2), of now k v]
  have d: "distinct (map fst (lru_abs (lru_set now k v c)))" by (rule lru_abs_keys [OF st(1)])
  have "lru_abs (lru_set now k v c) = [] @ (k, v, ?x) # take (?n - 1) (without k (lru_abs c))"
    unfolding st(2) spec_set_def using n by (cases ?n) simp_all
  with d have "behind {} k v ?x (lru_abs (lru_set now k v c))" unfolding behind_def
    by (intro exI [of _ "[]"] exI [of _ "take (?n - 1) (without k (lru_abs c))"]) simp
  note b = behind_run [OF this, of os ?n "lc_ttl c" rs "lru_abs c'"]
  note r = lru_run_refines [OF g assms(2)]
  have "behind (op_key ` set os) k v ?x (lru_abs c')" using b assms(3,4) r st(3,4) by simp
  then have "distinct (map fst (lru_abs c'))" "(k, v, ?x) \<in> set (lru_abs c')" unfolding behind_def by auto
  then have "map_of (lru_abs c') k = Some (v, ?x)" by (simp add: map_of_eq_Some_iff)
  moreover obtain r' c'' where q: "lru_get later k c' = (r', c'')" by (cases "lru_get later k c'")
  moreover have "lru_inv c'" "lc_ttl c' = lc_ttl c" using r st(3) by (simp_all add: lru_good_def)
  note lru_get_refines(2) [OF this(1) q, unfolded this(2)]
  ultimately show ?thesis using assms(5) by (auto simp: spec_get_def split: if_splits)
qed

lemma lru_keeps_recent_witness:
  "fst (lru_get 5 ''a'' (snd (lru_run [OSet 1 ''b'' 2, OGet 2 ''c''] (lru_set 0 ''a'' (7 :: nat) (new_lru 3 10))))) = Some 7"
proof -
  have g: "lru_good (new_lru 3 10)" by (rule new_lru_good)
  have "card (op_key ` set [OSet 1 ''b'' (2 :: nat), OGet 2 ''c'']) < 3" by (simp add: card_insert_if)
  with lru_keeps_recent [OF g prod.collapse [symmetric], where os = "[OSet 1 ''b'' 2, OGet 2 ''c'']" and now = 0
      and k = "''a''" and v = 7 and later = 5] show ?thesis
    by (simp add: new_lru_def)
qed

end
