(* ===== verification/SrvLimiter.thy ===== *)
theory SrvLimiter
  imports Prelude "HOL-Library.Finite_Map"
begin

text \<open>
  The per-address limiter of the search server (\<open>src/internal/server/ratelimit.go\<close>): the instants of the admitted
  requests of each address, trimmed to the window at every request and swept now and then. It decides exactly like
  a reference that keeps every admission for ever.
\<close>

section \<open>The limiter\<close>

record ip_limiter =
  il_hits :: "(bytes, int list) fmap"
  il_limit :: nat
  il_window :: int

definition new_ip_limiter :: "int \<Rightarrow> int \<Rightarrow> ip_limiter" where
  "new_ip_limiter limit window = \<lparr>il_hits = fmempty, il_limit = (if limit \<le> 0 then 60 else nat limit),
     il_window = (if window \<le> 0 then 60 * 10 ^ 9 else window)\<rparr>"

definition hits_of :: "ip_limiter \<Rightarrow> bytes \<Rightarrow> int list" where
  "hits_of l ip = (case fmlookup (il_hits l) ip of None \<Rightarrow> [] | Some h \<Rightarrow> h)"

definition limiter_allow :: "int \<Rightarrow> bytes \<Rightarrow> ip_limiter \<Rightarrow> bool \<times> ip_limiter" where
  "limiter_allow now ip l =
     (let h = filter (\<lambda>t. now - il_window l < t) (hits_of l ip) in
      if il_limit l \<le> length h then (False, l\<lparr>il_hits := fmupd ip h (il_hits l)\<rparr>)
      else (True, l\<lparr>il_hits := fmupd ip (h @ [now]) (il_hits l)\<rparr>))"

definition limiter_sweep :: "int \<Rightarrow> ip_limiter \<Rightarrow> ip_limiter" where
  "limiter_sweep now l = l\<lparr>il_hits := fmfilter (\<lambda>ip. list_ex (\<lambda>t. now - il_window l < t) (hits_of l ip)) (il_hits l)\<rparr>"

datatype limiter_event = Request int bytes | Sweep int

fun event_time :: "limiter_event \<Rightarrow> int" where
  "event_time (Request t ip) = t"
| "event_time (Sweep t) = t"

fun limiter_run :: "limiter_event list \<Rightarrow> ip_limiter \<Rightarrow> bool list" where
  "limiter_run [] l = []"
| "limiter_run (Request now ip # es) l = (case limiter_allow now ip l of (b, l) \<Rightarrow> b # limiter_run es l)"
| "limiter_run (Sweep now # es) l = limiter_run es (limiter_sweep now l)"

section \<open>The reference\<close>

text \<open>Every admission is kept; a request passes when fewer than the limit lie inside the window before it.\<close>

definition in_window :: "(bytes \<times> int) list \<Rightarrow> int \<Rightarrow> int \<Rightarrow> bytes \<Rightarrow> int list" where
  "in_window log w now ip = map snd (filter (\<lambda>e. fst e = ip \<and> now - w < snd e) log)"

fun window_run :: "nat \<Rightarrow> int \<Rightarrow> limiter_event list \<Rightarrow> (bytes \<times> int) list \<Rightarrow> bool list \<times> (bytes \<times> int) list" where
  "window_run n w [] log = ([], log)"
| "window_run n w (Request now ip # es) log =
     (if length (in_window log w now ip) < n
      then (case window_run n w es (log @ [(ip, now)]) of (bs, lg) \<Rightarrow> (True # bs, lg))
      else (case window_run n w es log of (bs, lg) \<Rightarrow> (False # bs, lg)))"
| "window_run n w (Sweep now # es) log = window_run n w es log"

definition agrees :: "ip_limiter \<Rightarrow> int \<Rightarrow> (bytes \<times> int) list \<Rightarrow> bool" where
  "agrees l now log = (\<forall>ip. filter (\<lambda>t. now - il_window l < t) (hits_of l ip) = in_window log (il_window l) now ip)"

lemma filter_later: "b \<le> (c :: int) \<Longrightarrow> filter (\<lambda>t. c < t) (filter (\<lambda>t. b < t) xs) = filter (\<lambda>t. c < t) xs"
  by (induction xs) auto

lemma in_window_later: "now \<le> t \<Longrightarrow> filter (\<lambda>x. t - w < x) (in_window log w now ip) = in_window log w t ip"
  by (induction log) (auto simp: in_window_def)

lemma agrees_later: "agrees l now log \<Longrightarrow> now \<le> t \<Longrightarrow> agrees l t log"
  unfolding agrees_def
proof
  fix ip assume a: "\<forall>ip. filter (\<lambda>t. now - il_window l < t) (hits_of l ip) = in_window log (il_window l) now ip" and t: "now \<le> t"
  have "filter (\<lambda>x. t - il_window l < x) (hits_of l ip) = filter (\<lambda>x. t - il_window l < x) (filter (\<lambda>t. now - il_window l < t) (hits_of l ip))"
    using t by (subst filter_later) simp_all
  with a t show "filter (\<lambda>x. t - il_window l < x) (hits_of l ip) = in_window log (il_window l) t ip"
    by (simp add: in_window_later)
qed

lemma in_window_snoc:
  "in_window (log @ [(ip', t)]) w now ip = in_window log w now ip @ (if ip' = ip \<and> now - w < t then [t] else [])"
  by (simp add: in_window_def)

lemma allow_agrees:
  assumes "agrees l now log" "0 < il_window l" "limiter_allow now ip l = (b, l')"
  shows "b = (length (in_window log (il_window l) now ip) < il_limit l)"
    "agrees l' now (if b then log @ [(ip, now)] else log)" "il_limit l' = il_limit l" "il_window l' = il_window l"
proof -
  have h: "filter (\<lambda>t. now - il_window l < t) (hits_of l j) = in_window log (il_window l) now j" for j
    using assms(1) by (simp add: agrees_def)
  show b: "b = (length (in_window log (il_window l) now ip) < il_limit l)"
    using assms(3) by (auto simp: limiter_allow_def Let_def h split: if_splits)
  have l': "l' = l\<lparr>il_hits := fmupd ip (in_window log (il_window l) now ip @ (if b then [now] else [])) (il_hits l)\<rparr>"
    using assms(3) b by (auto simp: limiter_allow_def Let_def h split: if_splits)
  show "il_limit l' = il_limit l" "il_window l' = il_window l" by (simp_all add: l')
  have "filter (\<lambda>t. now - il_window l < t) (hits_of l' j) = in_window (if b then log @ [(ip, now)] else log) (il_window l) now j" for j
  proof (cases "j = ip")
    case True
    have "filter (\<lambda>t. now - il_window l < t) (in_window log (il_window l) now ip) = in_window log (il_window l) now ip"
      by (rule in_window_later) simp
    with True assms(2) show ?thesis by (simp add: l' hits_of_def in_window_snoc)
  next
    case False
    with h [of j] show ?thesis by (simp add: l' hits_of_def in_window_snoc)
  qed
  then show "agrees l' now (if b then log @ [(ip, now)] else log)" by (simp add: agrees_def l')
qed

lemma sweep_agrees: "agrees l now log \<Longrightarrow> agrees (limiter_sweep now l) now log"
proof -
  assume a: "agrees l now log"
  have "filter (\<lambda>t. now - il_window l < t) (hits_of (limiter_sweep now l) ip) = filter (\<lambda>t. now - il_window l < t) (hits_of l ip)" for ip
  proof (cases "fmlookup (il_hits l) ip")
    case None
    then show ?thesis by (simp add: hits_of_def limiter_sweep_def)
  next
    case (Some h)
    then show ?thesis by (auto simp: hits_of_def limiter_sweep_def list_ex_iff filter_empty_conv)
  qed
  with a show ?thesis by (simp add: agrees_def) (simp add: limiter_sweep_def)
qed

lemma run_agrees:
  assumes "agrees l now log" "0 < il_window l" "sorted (now # map event_time es)"
  shows "limiter_run es l = fst (window_run (il_limit l) (il_window l) es log)"
  using assms
proof (induction es arbitrary: l now log)
  case Nil
  then show ?case by simp
next
  case (Cons e es)
  show ?case
  proof (cases e)
    case (Request t ip)
    have a: "agrees l t log" by (rule agrees_later [OF Cons.prems(1)]) (use Cons.prems(3) Request in simp)
    obtain b l' where al: "limiter_allow t ip l = (b, l')" by (cases "limiter_allow t ip l")
    note r = allow_agrees [OF a Cons.prems(2) al]
    from Cons.IH [OF r(2)] r(3,4) Cons.prems(2,3) Request
    have "limiter_run es l' = fst (window_run (il_limit l) (il_window l) es (if b then log @ [(ip, t)] else log))" by simp
    with Request al r(1) show ?thesis by (auto split: prod.splits)
  next
    case (Sweep t)
    have a: "agrees l t log" by (rule agrees_later [OF Cons.prems(1)]) (use Cons.prems(3) Sweep in simp)
    from Cons.IH [OF sweep_agrees [OF a]] Cons.prems(2,3) Sweep show ?thesis by (simp add: limiter_sweep_def)
  qed
qed

text \<open>What the reference guarantees: no window ever holds more admissions than the limit.\<close>

lemma in_window_sub: "t \<le> u \<Longrightarrow> length (in_window log w u ip) \<le> length (in_window log w t ip)"
  using in_window_later [of t u w log ip] by (metis length_filter_le)

lemma window_run_bound:
  assumes "\<forall>t ip. length (filter (\<lambda>x. x \<le> t) (in_window log w t ip)) \<le> n" "\<forall>e \<in> set log. snd e \<le> now"
    and "sorted (now # map event_time es)" "window_run n w es log = (bs, lg)"
  shows "length (filter (\<lambda>x. x \<le> t) (in_window lg w t ip)) \<le> n"
  using assms
proof (induction es arbitrary: log now bs)
  case Nil
  then show ?case by simp
next
  case (Cons e es)
  show ?case
  proof (cases e)
    case (Request u jp)
    show ?thesis
    proof (cases "length (in_window log w u jp) < n")
      case True
      let ?log = "log @ [(jp, u)]"
      obtain bs' where w: "window_run n w es ?log = (bs', lg)" using Cons.prems(4) Request True by (auto split: prod.splits)
      have le: "\<forall>e \<in> set ?log. snd e \<le> u" using Cons.prems(2,3) Request by force
      have "length (filter (\<lambda>x. x \<le> t) (in_window ?log w t ip)) \<le> n" for t ip
      proof (cases "ip = jp \<and> t - w < u \<and> u \<le> t")
        case True
        then have "length (filter (\<lambda>x. x \<le> t) (in_window ?log w t ip)) \<le> length (in_window log w u jp) + 1"
          using le_trans [OF length_filter_le in_window_sub [of u t log w jp]] by (simp add: in_window_snoc)
        with \<open>length (in_window log w u jp) < n\<close> show ?thesis by simp
      next
        case False
        then have "filter (\<lambda>x. x \<le> t) (in_window ?log w t ip) = filter (\<lambda>x. x \<le> t) (in_window log w t ip)"
          by (auto simp: in_window_snoc)
        with Cons.prems(1) show ?thesis by simp
      qed
      from Cons.IH [OF _ le _ w] this Cons.prems(3) Request show ?thesis by simp
    next
      case False
      obtain bs' where w: "window_run n w es log = (bs', lg)" using Cons.prems(4) Request False by (auto split: prod.splits)
      have le: "\<forall>e \<in> set log. snd e \<le> u" using Cons.prems(2,3) Request by force
      from Cons.IH [OF Cons.prems(1) le _ w] Cons.prems(3) Request show ?thesis by simp
    qed
  next
    case (Sweep u)
    have le: "\<forall>e \<in> set log. snd e \<le> u" using Cons.prems(2,3) Sweep by force
    from Cons.IH [OF Cons.prems(1) le] Cons.prems(3,4) Sweep show ?thesis by simp
  qed
qed

section \<open>Property\<close>

text \<open>C29: with a clock that does not go back, the limiter answers every request as if it remembered every admission,
  whatever was trimmed or swept, and no window of its length ever holds more admissions of an address than the limit.\<close>

lemma limiter_is_sliding_window:
  assumes "sorted (map event_time es)" "window_run (il_limit (new_ip_limiter n w)) (il_window (new_ip_limiter n w)) es [] = (bs, log)"
  shows "limiter_run es (new_ip_limiter n w) = bs
    \<and> length (filter (\<lambda>x. x \<le> t) (in_window log (il_window (new_ip_limiter n w)) t ip)) \<le> il_limit (new_ip_limiter n w)"
proof -
  define now where "now = (case es of [] \<Rightarrow> 0 | e # _ \<Rightarrow> event_time e)"
  have s: "sorted (now # map event_time es)" using assms(1) by (cases es) (auto simp: now_def)
  have "agrees (new_ip_limiter n w) now []" by (simp add: agrees_def hits_of_def new_ip_limiter_def in_window_def)
  from run_agrees [OF this _ s] assms(2) have "limiter_run es (new_ip_limiter n w) = bs" by (simp add: new_ip_limiter_def)
  moreover have "length (filter (\<lambda>x. x \<le> t) (in_window log (il_window (new_ip_limiter n w)) t ip)) \<le> il_limit (new_ip_limiter n w)"
    by (rule window_run_bound [OF _ _ s assms(2)]) (simp_all add: in_window_def)
  ultimately show ?thesis by blast
qed

definition demo_requests :: "limiter_event list" where
  "demo_requests = [Request 1 ''x'', Request 2 ''x'', Request 3 ''x'', Sweep 4, Request 5 ''y'', Request 12 ''x'']"

lemma limiter_is_sliding_window_witness: "limiter_run demo_requests (new_ip_limiter 2 10) = [True, True, False, True, True]"
proof -
  have "sorted (map event_time demo_requests)" by code_simp
  moreover have "fst (window_run (il_limit (new_ip_limiter 2 10)) (il_window (new_ip_limiter 2 10)) demo_requests []) = [True, True, False, True, True]"
    by code_simp
  then obtain log where "window_run (il_limit (new_ip_limiter 2 10)) (il_window (new_ip_limiter 2 10)) demo_requests [] = ([True, True, False, True, True], log)"
    by (metis prod.collapse)
  ultimately show ?thesis using limiter_is_sliding_window by blast
qed

end
