(* ===== verification/SrvAnswers.thy ===== *)
theory SrvAnswers
  imports Prelude "HOL-Library.Finite_Map"
begin

text \<open>
  The answer cache (\<open>src/internal/answercache/cache.go\<close>): a cache with a time to live, joined with a table of
  the calls in flight. \<open>Do\<close> is split at its lock and channel operations into steps, and the threads that run it
  interleave freely; the function it runs is decided by the environment and may also panic.
\<close>

section \<open>The cache\<close>

type_synonym outcome = "bytes \<times> bytes option"

text \<open>\<open>call\<close>: \<open>None\<close> until the channel is closed, then the value and the error.\<close>

record answers =
  an_ttl :: int
  an_cap :: int
  an_store :: "(bytes, bytes \<times> int) fmap"
  an_calls :: "(bytes, nat) fmap"
  an_call :: "(nat, outcome option) fmap"
  an_hits :: nat
  an_misses :: nat
  an_shared :: nat

definition new_answers :: "int \<Rightarrow> int \<Rightarrow> answers" where
  "new_answers ttl cap = \<lparr>an_ttl = ttl, an_cap = cap, an_store = fmempty, an_calls = fmempty, an_call = fmempty,
     an_hits = 0, an_misses = 0, an_shared = 0\<rparr>"

definition answers_get :: "int \<Rightarrow> bytes \<Rightarrow> answers \<Rightarrow> bytes option \<times> answers" where
  "answers_get now k c =
     (if an_ttl c \<le> 0 then (None, c)
      else case fmlookup (an_store c) k of None \<Rightarrow> (None, c\<lparr>an_misses := an_misses c + 1\<rparr>)
        | Some (v, x) \<Rightarrow> if x < now then (None, c\<lparr>an_misses := an_misses c + 1\<rparr>)
            else (Some v, c\<lparr>an_hits := an_hits c + 1\<rparr>))"

text \<open>\<open>victim\<close> is the key the map iteration happens to visit first.\<close>

definition answers_set :: "int \<Rightarrow> bytes \<Rightarrow> bytes \<Rightarrow> bytes \<Rightarrow> answers \<Rightarrow> answers" where
  "answers_set now victim k v c =
     (if an_ttl c \<le> 0 then c
      else let st = (if 0 < an_cap c \<and> an_cap c \<le> int (fcard (fmdom (an_store c))) then fmdrop victim (an_store c) else an_store c)
        in c\<lparr>an_store := fmupd k (v, now + an_ttl c) st\<rparr>)"

record answer_stats =
  as_entries :: nat
  as_cap :: int
  as_ttl_sec :: int
  as_hits :: nat
  as_misses :: nat
  as_shared :: nat

definition answers_stats :: "answers \<Rightarrow> answer_stats" where
  "answers_stats c = \<lparr>as_entries = fcard (fmdom (an_store c)), as_cap = an_cap c,
     as_ttl_sec = (if 0 \<le> an_ttl c then an_ttl c div 10 ^ 9 else - ((- an_ttl c) div 10 ^ 9)),
     as_hits = an_hits c, as_misses = an_misses c, as_shared = an_shared c\<rparr>"

section \<open>Threads inside \<open>Do\<close>\<close>

datatype phase = Start bytes | Missed bytes | Joined bytes nat | Leading bytes nat | Closed bytes nat outcome
  | Unregistered bytes nat outcome | Crashed bytes nat | Returned bytes "nat option" outcome bool

record do_state =
  ds_cache :: answers
  ds_threads :: "(nat, phase) fmap"

definition at_phase :: "nat \<Rightarrow> phase \<Rightarrow> answers \<Rightarrow> do_state \<Rightarrow> do_state" where
  "at_phase t ph c s = \<lparr>ds_cache = c, ds_threads = fmupd t ph (ds_threads s)\<rparr>"

inductive do_step :: "do_state \<Rightarrow> do_state \<Rightarrow> bool" where
  begin_do: "fmlookup (ds_threads s) t = None \<Longrightarrow> do_step s (at_phase t (Start k) (ds_cache s) s)"
| hit: "fmlookup (ds_threads s) t = Some (Start k) \<Longrightarrow> answers_get now k (ds_cache s) = (Some v, c) \<Longrightarrow>
    do_step s (at_phase t (Returned k None (v, None) True) c s)"
| miss: "fmlookup (ds_threads s) t = Some (Start k) \<Longrightarrow> answers_get now k (ds_cache s) = (None, c) \<Longrightarrow>
    do_step s (at_phase t (Missed k) c s)"
| join: "fmlookup (ds_threads s) t = Some (Missed k) \<Longrightarrow> fmlookup (an_calls (ds_cache s)) k = Some n \<Longrightarrow>
    do_step s (at_phase t (Joined k n) (ds_cache s) s)"
| lead: "fmlookup (ds_threads s) t = Some (Missed k) \<Longrightarrow> fmlookup (an_calls (ds_cache s)) k = None \<Longrightarrow>
    fmlookup (an_call (ds_cache s)) n = None \<Longrightarrow>
    do_step s (at_phase t (Leading k n) ((ds_cache s)\<lparr>an_calls := fmupd k n (an_calls (ds_cache s)),
      an_call := fmupd n None (an_call (ds_cache s))\<rparr>) s)"
| wake: "fmlookup (ds_threads s) t = Some (Joined k n) \<Longrightarrow> fmlookup (an_call (ds_cache s)) n = Some (Some out) \<Longrightarrow>
    do_step s (at_phase t (Returned k (Some n) out True) ((ds_cache s)\<lparr>an_shared := an_shared (ds_cache s) + 1\<rparr>) s)"
| finish: "fmlookup (ds_threads s) t = Some (Leading k n) \<Longrightarrow>
    do_step s (at_phase t (Closed k n out) ((ds_cache s)\<lparr>an_call := fmupd n (Some out) (an_call (ds_cache s))\<rparr>) s)"
| panic: "fmlookup (ds_threads s) t = Some (Leading k n) \<Longrightarrow> do_step s (at_phase t (Crashed k n) (ds_cache s) s)"
| unregister: "fmlookup (ds_threads s) t = Some (Closed k n out) \<Longrightarrow>
    do_step s (at_phase t (Unregistered k n out) ((ds_cache s)\<lparr>an_calls := fmdrop k (an_calls (ds_cache s))\<rparr>) s)"
| store: "fmlookup (ds_threads s) t = Some (Unregistered k n out) \<Longrightarrow> an_store (ds_cache s) = fmempty \<or> victim |\<in>| fmdom (an_store (ds_cache s)) \<Longrightarrow>
    do_step s (at_phase t (Returned k (Some n) out False)
      (if snd out = None \<and> fst out \<noteq> [] then answers_set now victim k (fst out) (ds_cache s) else ds_cache s) s)"

inductive_cases do_stepE: "do_step s s'"

definition new_do :: "int \<Rightarrow> int \<Rightarrow> do_state" where
  "new_do ttl cap = \<lparr>ds_cache = new_answers ttl cap, ds_threads = fmempty\<rparr>"

section \<open>Invariants\<close>

text \<open>The threads that hold the registration of call \<open>n\<close>, and those whose run of \<open>n\<close> gave \<open>out\<close>.\<close>

definition holds_call :: "phase \<Rightarrow> bytes \<Rightarrow> nat \<Rightarrow> bool" where
  "holds_call ph k n = (ph = Leading k n \<or> ph = Crashed k n \<or> (\<exists>out. ph = Closed k n out))"

fun ran :: "phase \<Rightarrow> (bytes \<times> nat \<times> outcome) option" where
  "ran (Closed k n out) = Some (k, n, out)"
| "ran (Unregistered k n out) = Some (k, n, out)"
| "ran (Returned k (Some n) out False) = Some (k, n, out)"
| "ran _ = None"

definition ran_in :: "do_state \<Rightarrow> bytes \<Rightarrow> nat \<Rightarrow> outcome \<Rightarrow> bool" where
  "ran_in s k n out = (\<exists>t ph. fmlookup (ds_threads s) t = Some ph \<and> ran ph = Some (k, n, out))"

fun phase_ok :: "do_state \<Rightarrow> phase \<Rightarrow> bool" where
  "phase_ok s (Joined k n) = ((fmlookup (an_calls (ds_cache s)) k = Some n \<and> fmlookup (an_call (ds_cache s)) n = Some None)
     \<or> (\<exists>out. fmlookup (an_call (ds_cache s)) n = Some (Some out) \<and> ran_in s k n out))"
| "phase_ok s (Leading k n) = (fmlookup (an_calls (ds_cache s)) k = Some n \<and> fmlookup (an_call (ds_cache s)) n = Some None)"
| "phase_ok s (Crashed k n) = (fmlookup (an_calls (ds_cache s)) k = Some n \<and> fmlookup (an_call (ds_cache s)) n = Some None)"
| "phase_ok s (Closed k n out) = (fmlookup (an_calls (ds_cache s)) k = Some n \<and> fmlookup (an_call (ds_cache s)) n = Some (Some out))"
| "phase_ok s (Returned k (Some n) out b) = ran_in s k n out"
| "phase_ok s (Returned k None out b) = (\<exists>n. ran_in s k n out)"
| "phase_ok s _ = True"

definition do_inv :: "do_state \<Rightarrow> bool" where
  "do_inv s = ((\<forall>t ph. fmlookup (ds_threads s) t = Some ph \<longrightarrow> phase_ok s ph)
     \<and> (\<forall>t u k n ph ph'. fmlookup (ds_threads s) t = Some ph \<and> fmlookup (ds_threads s) u = Some ph'
          \<and> holds_call ph k n \<and> holds_call ph' k n \<longrightarrow> t = u)
     \<and> (\<forall>k n. fmlookup (an_calls (ds_cache s)) k = Some n \<longrightarrow> (\<exists>t ph. fmlookup (ds_threads s) t = Some ph \<and> holds_call ph k n))
     \<and> (\<forall>k j n. fmlookup (an_calls (ds_cache s)) k = Some n \<and> fmlookup (an_calls (ds_cache s)) j = Some n \<longrightarrow> k = j)
     \<and> (\<forall>k v x. fmlookup (an_store (ds_cache s)) k = Some (v, x) \<longrightarrow> v \<noteq> [] \<and> (\<exists>n. ran_in s k n (v, None))))"

lemma do_invD:
  assumes "do_inv s"
  shows "fmlookup (ds_threads s) t = Some ph \<Longrightarrow> phase_ok s ph"
    "fmlookup (ds_threads s) t = Some ph \<Longrightarrow> fmlookup (ds_threads s) u = Some ph' \<Longrightarrow> holds_call ph k n \<Longrightarrow> holds_call ph' k n \<Longrightarrow> t = u"
    "fmlookup (an_calls (ds_cache s)) k = Some n \<Longrightarrow> \<exists>t ph. fmlookup (ds_threads s) t = Some ph \<and> holds_call ph k n"
    "fmlookup (an_calls (ds_cache s)) k = Some n \<Longrightarrow> fmlookup (an_calls (ds_cache s)) j = Some n \<Longrightarrow> k = j"
    "fmlookup (an_store (ds_cache s)) k = Some (v, x) \<Longrightarrow> v \<noteq> [] \<and> (\<exists>n. ran_in s k n (v, None))"
  using assms unfolding do_inv_def by blast+

lemma at_phase_simps [simp]:
  "ds_cache (at_phase t ph c s) = c"
  "fmlookup (ds_threads (at_phase t ph c s)) u = (if u = t then Some ph else fmlookup (ds_threads s) u)"
  by (auto simp: at_phase_def)

lemma holds_call_simps [simp]:
  "holds_call (Leading k n) j m = (j = k \<and> m = n)" "holds_call (Crashed k n) j m = (j = k \<and> m = n)"
  "holds_call (Closed k n out) j m = (j = k \<and> m = n)" "holds_call (Start k) j m = False" "holds_call (Missed k) j m = False"
  "holds_call (Joined k n) j m = False" "holds_call (Unregistered k n out) j m = False" "holds_call (Returned k r out b) j m = False"
  by (auto simp: holds_call_def)

lemma holder_calls: "phase_ok s ph \<Longrightarrow> holds_call ph k n \<Longrightarrow> fmlookup (an_calls (ds_cache s)) k = Some n"
  by (cases ph) auto

text \<open>A run that happened stays recorded in some thread.\<close>

lemma ran_in_at_phase:
  assumes "ran_in s k n out" "\<And>ph0. fmlookup (ds_threads s) t = Some ph0 \<Longrightarrow> ran ph0 = None \<or> ran ph0 = ran ph"
  shows "ran_in (at_phase t ph c s) k n out"
proof -
  obtain u q where u: "fmlookup (ds_threads s) u = Some q" "ran q = Some (k, n, out)" using assms(1) by (auto simp: ran_in_def)
  show ?thesis
  proof (cases "u = t")
    case True
    with u assms(2) have "ran ph = Some (k, n, out)" by force
    with True show ?thesis by (auto simp: ran_in_def)
  next
    case False
    with u show ?thesis by (auto simp: ran_in_def)
  qed
qed

lemma phase_ok_mono:
  assumes "phase_ok s q" "\<And>k n. fmlookup (an_calls (ds_cache s)) k = Some n \<Longrightarrow> fmlookup (an_calls (ds_cache s')) k = Some n"
    and "\<And>n x. fmlookup (an_call (ds_cache s)) n = Some x \<Longrightarrow> fmlookup (an_call (ds_cache s')) n = Some x"
    and "\<And>k n out. ran_in s k n out \<Longrightarrow> ran_in s' k n out"
  shows "phase_ok s' q"
  using assms by (cases "(s, q)" rule: phase_ok.cases) (simp_all, blast+)

text \<open>A step that neither registers nor removes a call.\<close>

lemma quiet_step_inv:
  assumes inv: "do_inv s" and t: "fmlookup (ds_threads s) t = Some ph0 \<or> fmlookup (ds_threads s) t = None \<and> ran ph = None \<and> (\<forall>k n. \<not> holds_call ph k n)"
    and r: "\<And>q. fmlookup (ds_threads s) t = Some q \<Longrightarrow> ran q = None \<or> ran q = ran ph"
    and h: "\<And>q k n. fmlookup (ds_threads s) t = Some q \<Longrightarrow> holds_call ph k n = holds_call q k n"
    and c: "an_calls c = an_calls (ds_cache s)" "an_call c = an_call (ds_cache s)"
    and p: "phase_ok (at_phase t ph c s) ph"
    and st: "\<And>k v x. fmlookup (an_store c) k = Some (v, x) \<Longrightarrow> fmlookup (an_store (ds_cache s)) k = Some (v, x) \<or> (v \<noteq> [] \<and> (\<exists>n. ran_in s k n (v, None)))"
  shows "do_inv (at_phase t ph c s)" (is "do_inv ?s")
proof -
  have rm: "ran_in ?s k n out" if "ran_in s k n out" for k n out by (rule ran_in_at_phase [OF that r])
  have hh: "holds_call ph k n \<Longrightarrow> \<exists>q. fmlookup (ds_threads s) t = Some q \<and> holds_call q k n" for k n using h t by blast
  have ok: "phase_ok ?s q" if "fmlookup (ds_threads s) u = Some q" for u q
    by (rule phase_ok_mono [OF do_invD(1) [OF inv that]]) (simp_all add: c rm)
  show ?thesis
    unfolding do_inv_def
  proof (intro conjI allI impI)
    fix u q assume "fmlookup (ds_threads ?s) u = Some q"
    then show "phase_ok ?s q" using p ok by (auto split: if_splits)
  next
    fix u v k n q q'
    assume a: "fmlookup (ds_threads ?s) u = Some q \<and> fmlookup (ds_threads ?s) v = Some q' \<and> holds_call q k n \<and> holds_call q' k n"
    have "\<exists>q. fmlookup (ds_threads s) w = Some q \<and> holds_call q k n"
      if "fmlookup (ds_threads ?s) w = Some q" "holds_call q k n" for w q
      using that hh by (cases "w = t") auto
    with a obtain q1 q2 where "fmlookup (ds_threads s) u = Some q1" "holds_call q1 k n"
      "fmlookup (ds_threads s) v = Some q2" "holds_call q2 k n" by metis
    with do_invD(2) [OF inv] show "u = v" by blast
  next
    fix k n assume "fmlookup (an_calls (ds_cache ?s)) k = Some n"
    then have "fmlookup (an_calls (ds_cache s)) k = Some n" by (simp add: c)
    from do_invD(3) [OF inv this] obtain u q where u: "fmlookup (ds_threads s) u = Some q" "holds_call q k n" by blast
    show "\<exists>t ph. fmlookup (ds_threads ?s) t = Some ph \<and> holds_call ph k n"
    proof (cases "u = t")
      case True
      with u h show ?thesis by (intro exI [of _ t] exI [of _ ph]) auto
    next
      case False
      with u show ?thesis by (intro exI [of _ u] exI [of _ q]) simp
    qed
  next
    fix k j n assume "fmlookup (an_calls (ds_cache ?s)) k = Some n \<and> fmlookup (an_calls (ds_cache ?s)) j = Some n"
    then show "k = j" using do_invD(4) [OF inv] by (auto simp: c)
  next
    fix k v x assume "fmlookup (an_store (ds_cache ?s)) k = Some (v, x)"
    then have "fmlookup (an_store c) k = Some (v, x)" by simp
    from st [OF this] have "v \<noteq> [] \<and> (\<exists>n. ran_in s k n (v, None))" using do_invD(5) [OF inv, of k v x] by blast
    then show "v \<noteq> []" "\<exists>n. ran_in ?s k n (v, None)" using rm by blast+
  qed
qed

lemma quiet_move_inv:
  assumes "do_inv s" "fmlookup (ds_threads s) t = Some ph0" "ran ph0 = None \<or> ran ph0 = ran ph" "\<forall>k n. holds_call ph k n = holds_call ph0 k n"
    and "an_calls c = an_calls (ds_cache s)" "an_call c = an_call (ds_cache s)" "phase_ok (at_phase t ph c s) ph"
    and "\<And>k v x. fmlookup (an_store c) k = Some (v, x) \<Longrightarrow> fmlookup (an_store (ds_cache s)) k = Some (v, x) \<or> (v \<noteq> [] \<and> (\<exists>n. ran_in s k n (v, None)))"
  shows "do_inv (at_phase t ph c s)"
  by (rule_tac quiet_step_inv [OF assms(1) disjI1 [OF assms(2)] _ _ assms(5-8)]) (use assms(2-4) in simp_all)

lemma answers_get_fields:
  assumes "answers_get now k c = (r, c')"
  shows "an_calls c' = an_calls c" "an_call c' = an_call c" "an_store c' = an_store c" "an_ttl c' = an_ttl c" "an_cap c' = an_cap c"
    "r = Some v \<Longrightarrow> \<exists>x. fmlookup (an_store c) k = Some (v, x)"
  using assms by (auto simp: answers_get_def split: if_splits option.splits prod.splits)

lemma answers_set_fields [simp]:
  "an_calls (answers_set now victim k v c) = an_calls c" "an_call (answers_set now victim k v c) = an_call c"
  "an_ttl (answers_set now victim k v c) = an_ttl c" "an_cap (answers_set now victim k v c) = an_cap c"
  by (simp_all add: answers_set_def Let_def)

lemma answers_set_lookup:
  assumes "fmlookup (an_store (answers_set now victim k v c)) j = Some (w, x)"
  shows "fmlookup (an_store c) j = Some (w, x) \<or> (j = k \<and> w = v)"
  using assms by (auto simp: answers_set_def Let_def split: if_splits)

lemma do_step_inv:
  assumes "do_step s s'" "do_inv s"
  shows "do_inv s'"
  using assms(1)
proof cases
  case (begin_do t k)
  show ?thesis unfolding begin_do(1)
    by (rule quiet_step_inv [OF assms(2), of t "Start k"]) (use begin_do(2) in simp_all)
next
  case (hit t k now v c)
  note g = answers_get_fields [OF hit(3)]
  obtain n where "ran_in s k n (v, None)" using g(6) do_invD(5) [OF assms(2)] by blast
  then have "ran_in (at_phase t (Returned k None (v, None) True) c s) k n (v, None)"
    by (rule ran_in_at_phase) (use hit(2) in simp)
  then have "phase_ok (at_phase t (Returned k None (v, None) True) c s) (Returned k None (v, None) True)" by auto
  then show ?thesis unfolding hit(1)
    by (rule_tac quiet_move_inv [OF assms(2) hit(2)]) (use hit(2) g(1-3) in \<open>simp_all del: phase_ok.simps\<close>)
next
  case (miss t k now c)
  note g = answers_get_fields [OF miss(3)]
  show ?thesis unfolding miss(1)
    by (rule_tac quiet_move_inv [OF assms(2) miss(2)]) (use miss(2) g in simp_all)
next
  case (join t k n)
  obtain u q where u: "fmlookup (ds_threads s) u = Some q" "holds_call q k n" using do_invD(3) [OF assms(2) join(3)] by blast
  have ut: "u \<noteq> t" using u join(2) by auto
  have "fmlookup (an_call (ds_cache s)) n = Some None \<or> (\<exists>out. fmlookup (an_call (ds_cache s)) n = Some (Some out) \<and> q = Closed k n out)"
    using do_invD(1) [OF assms(2) u(1)] u(2) by (cases q) auto
  moreover have "ran_in (at_phase t (Joined k n) (ds_cache s) s) k n out" if "q = Closed k n out" for out
    unfolding ran_in_def using u(1) that ut by (intro exI [of _ u] exI [of _ q]) simp
  ultimately have "phase_ok (at_phase t (Joined k n) (ds_cache s) s) (Joined k n)" using join(3) by auto
  then show ?thesis unfolding join(1)
    by (rule_tac quiet_move_inv [OF assms(2) join(2)]) (use join(2) in simp_all)
next
  case (wake t k n out)
  have "ran_in s k n out" using do_invD(1) [OF assms(2) wake(2)] wake(3) by auto
  then have "ran_in (at_phase t (Returned k (Some n) out True) ((ds_cache s)\<lparr>an_shared := an_shared (ds_cache s) + 1\<rparr>) s) k n out"
    by (rule ran_in_at_phase) (use wake(2) in simp)
  then show ?thesis unfolding wake(1)
    by (rule_tac quiet_move_inv [OF assms(2) wake(2)]) (use wake(2) in \<open>simp_all del: at_phase_simps(2)\<close>)
next
  case (panic t k n)
  show ?thesis unfolding panic(1)
    by (rule_tac quiet_move_inv [OF assms(2) panic(2)]) (use panic(2) do_invD(1) [OF assms(2) panic(2)] in simp_all)
next
  case (store t k n out victim now)
  have r: "ran_in s k n out" unfolding ran_in_def using store(2) by (intro exI [of _ t] exI [of _ "Unregistered k n out"]) simp
  define c where "c = (if snd out = None \<and> fst out \<noteq> [] then answers_set now victim k (fst out) (ds_cache s) else ds_cache s)"
  have "ran_in (at_phase t (Returned k (Some n) out False) c s) k n out" by (rule ran_in_at_phase [OF r]) (use store(2) in simp)
  moreover have "fmlookup (an_store (ds_cache s)) j = Some (v, x) \<or> (v \<noteq> [] \<and> (\<exists>n. ran_in s j n (v, None)))"
    if a: "fmlookup (an_store c) j = Some (v, x)" for j v x
  proof (cases "fmlookup (an_store (ds_cache s)) j = Some (v, x)")
    case False
    with a have "snd out = None \<and> fst out \<noteq> [] \<and> j = k \<and> v = fst out"
      using answers_set_lookup by (force simp: c_def split: if_splits)
    with r show ?thesis by (cases out) auto
  qed simp
  ultimately show ?thesis unfolding store(1) c_def [symmetric]
    by (rule_tac quiet_move_inv [OF assms(2) store(2)]) (use store(2) in \<open>simp_all add: c_def\<close>)
next
  case (lead t k n)
  let ?c = "(ds_cache s)\<lparr>an_calls := fmupd k n (an_calls (ds_cache s)), an_call := fmupd n None (an_call (ds_cache s))\<rparr>"
  let ?s = "at_phase t (Leading k n) ?c s"
  have rm: "ran_in ?s j m out" if "ran_in s j m out" for j m out by (rule ran_in_at_phase [OF that]) (use lead(2) in simp)
  have ok: "phase_ok ?s q" if "fmlookup (ds_threads s) u = Some q" for u q
    by (rule phase_ok_mono [OF do_invD(1) [OF assms(2) that]]) (use lead(3,4) rm in auto)
  have nh: "\<not> holds_call q k m" if "fmlookup (ds_threads s) u = Some q" for u q m
    using holder_calls [OF do_invD(1) [OF assms(2) that]] lead(3) by auto
  have fresh: "fmlookup (an_calls (ds_cache s)) j \<noteq> Some n" for j
  proof
    assume "fmlookup (an_calls (ds_cache s)) j = Some n"
    then obtain u q where "fmlookup (ds_threads s) u = Some q" "holds_call q j n" using do_invD(3) [OF assms(2)] by blast
    with do_invD(1) [OF assms(2)] lead(4) show False by (cases q) fastforce+
  qed
  show ?thesis
    unfolding lead(1) do_inv_def
  proof (intro conjI allI impI)
    fix u q assume "fmlookup (ds_threads ?s) u = Some q"
    then show "phase_ok ?s q" using ok by (auto split: if_splits)
  next
    fix u v j m q q'
    assume a: "fmlookup (ds_threads ?s) u = Some q \<and> fmlookup (ds_threads ?s) v = Some q' \<and> holds_call q j m \<and> holds_call q' j m"
    show "u = v"
      using a nh do_invD(2) [OF assms(2), of u q v q' j m] by (auto split: if_splits)
  next
    fix j m assume a: "fmlookup (an_calls (ds_cache ?s)) j = Some m"
    show "\<exists>t ph. fmlookup (ds_threads ?s) t = Some ph \<and> holds_call ph j m"
    proof (cases "j = k")
      case True
      with a show ?thesis by (intro exI [of _ t] exI [of _ "Leading k n"]) simp
    next
      case False
      with a obtain u q where u: "fmlookup (ds_threads s) u = Some q" "holds_call q j m" using do_invD(3) [OF assms(2), of j m] by auto
      then have "u \<noteq> t" using lead(2) by auto
      with u show ?thesis by (intro exI [of _ u] exI [of _ q]) simp
    qed
  next
    fix i j m assume "fmlookup (an_calls (ds_cache ?s)) i = Some m \<and> fmlookup (an_calls (ds_cache ?s)) j = Some m"
    then show "i = j" using do_invD(4) [OF assms(2)] fresh by (auto split: if_splits)
  next
    fix j v x assume "fmlookup (an_store (ds_cache ?s)) j = Some (v, x)"
    then have "v \<noteq> [] \<and> (\<exists>n. ran_in s j n (v, None))" using do_invD(5) [OF assms(2)] by simp
    then show "v \<noteq> []" "\<exists>n. ran_in ?s j n (v, None)" using rm by blast+
  qed
next
  case (finish t k n out)
  let ?c = "(ds_cache s)\<lparr>an_call := fmupd n (Some out) (an_call (ds_cache s))\<rparr>"
  let ?s = "at_phase t (Closed k n out) ?c s"
  have rm: "ran_in ?s j m o'" if "ran_in s j m o'" for j m o' by (rule ran_in_at_phase [OF that]) (use finish(2) in simp)
  have new: "ran_in ?s k n out" unfolding ran_in_def by (intro exI [of _ t] exI [of _ "Closed k n out"]) simp
  have kn: "fmlookup (an_calls (ds_cache s)) k = Some n" "fmlookup (an_call (ds_cache s)) n = Some None"
    using do_invD(1) [OF assms(2) finish(2)] by simp_all
  have ok: "phase_ok ?s q" if u: "fmlookup (ds_threads s) u = Some q" "u \<noteq> t" for u q
  proof -
    have p: "phase_ok s q" by (rule do_invD(1) [OF assms(2) u(1)])
    have nh: "\<not> holds_call q k n" using do_invD(2) [OF assms(2) u(1) finish(2)] u(2) by auto
    have inj: "fmlookup (an_calls (ds_cache s)) j = Some n \<Longrightarrow> j = k" for j using do_invD(4) [OF assms(2)] kn(1) by blast
    have same: "j = k" if "fmlookup (an_calls (ds_cache s)) j = Some n" for j using inj that .
    show ?thesis
    proof (cases "(s, q)" rule: phase_ok.cases)
      case (1 s0 j m)
      then have q: "q = Joined j m" by simp
      show ?thesis
      proof (cases "fmlookup (an_calls (ds_cache s)) j = Some m \<and> fmlookup (an_call (ds_cache s)) m = Some None")
        case True
        show ?thesis
        proof (cases "m = n")
          case True
          with \<open>_ \<and> _\<close> have "j = k" using same by blast
          with True new show ?thesis by (cases out) (auto simp: q)
        next
          case False
          with True kn show ?thesis by (simp add: q)
        qed
      next
        case False
        with p obtain o' where o: "fmlookup (an_call (ds_cache s)) m = Some (Some o')" "ran_in s j m o'" by (auto simp: q)
        then have "m \<noteq> n" using kn(2) by auto
        with o rm [OF o(2)] show ?thesis by (cases o') (auto simp: q)
      qed
    next
      case (2 s0 j m)
      then have q: "q = Leading j m" by simp
      have "m \<noteq> n" using p nh same by (auto simp: q)
      then show ?thesis using p by (simp add: q)
    next
      case (3 s0 j m)
      then have q: "q = Crashed j m" by simp
      have "m \<noteq> n" using p nh same by (auto simp: q)
      then show ?thesis using p by (simp add: q)
    next
      case (4 s0 j m o')
      then have q: "q = Closed j m o'" by simp
      have "m \<noteq> n" using p nh same by (auto simp: q)
      then show ?thesis using p by (simp add: q)
    qed (use p rm in \<open>auto, blast\<close>)
  qed
  show ?thesis
    unfolding finish(1) do_inv_def
  proof (intro conjI allI impI)
    fix u q assume "fmlookup (ds_threads ?s) u = Some q"
    then show "phase_ok ?s q" using ok kn by (auto split: if_splits)
  next
    fix u v j m q q'
    assume a: "fmlookup (ds_threads ?s) u = Some q \<and> fmlookup (ds_threads ?s) v = Some q' \<and> holds_call q j m \<and> holds_call q' j m"
    have "\<exists>q. fmlookup (ds_threads s) w = Some q \<and> holds_call q j m"
      if "fmlookup (ds_threads ?s) w = Some q" "holds_call q j m" for w q
      using that finish(2) by (cases "w = t") auto
    with a obtain q1 q2 where "fmlookup (ds_threads s) u = Some q1" "holds_call q1 j m"
      "fmlookup (ds_threads s) v = Some q2" "holds_call q2 j m" by metis
    with do_invD(2) [OF assms(2)] show "u = v" by blast
  next
    fix j m assume "fmlookup (an_calls (ds_cache ?s)) j = Some m"
    then obtain u q where u: "fmlookup (ds_threads s) u = Some q" "holds_call q j m" using do_invD(3) [OF assms(2), of j m] by auto
    show "\<exists>t ph. fmlookup (ds_threads ?s) t = Some ph \<and> holds_call ph j m"
    proof (cases "u = t")
      case True
      with u(1) finish(2) have "q = Leading k n" by simp
      with u(2) show ?thesis by (intro exI [of _ t] exI [of _ "Closed k n out"]) simp
    next
      case False
      with u show ?thesis by (intro exI [of _ u] exI [of _ q]) simp
    qed
  next
    fix i j m assume "fmlookup (an_calls (ds_cache ?s)) i = Some m \<and> fmlookup (an_calls (ds_cache ?s)) j = Some m"
    then show "i = j" using do_invD(4) [OF assms(2)] by simp
  next
    fix j v x assume "fmlookup (an_store (ds_cache ?s)) j = Some (v, x)"
    then have "v \<noteq> [] \<and> (\<exists>n. ran_in s j n (v, None))" using do_invD(5) [OF assms(2)] by simp
    then show "v \<noteq> []" "\<exists>n. ran_in ?s j n (v, None)" using rm by blast+
  qed
next
  case (unregister t k n out)
  let ?c = "(ds_cache s)\<lparr>an_calls := fmdrop k (an_calls (ds_cache s))\<rparr>"
  let ?s = "at_phase t (Unregistered k n out) ?c s"
  have rm: "ran_in ?s j m o'" if "ran_in s j m o'" for j m o' by (rule ran_in_at_phase [OF that]) (use unregister(2) in simp)
  have kn: "fmlookup (an_calls (ds_cache s)) k = Some n" "fmlookup (an_call (ds_cache s)) n = Some (Some out)"
    using do_invD(1) [OF assms(2) unregister(2)] by simp_all
  have ok: "phase_ok ?s q" if u: "fmlookup (ds_threads s) u = Some q" "u \<noteq> t" for u q
  proof -
    have p: "phase_ok s q" by (rule do_invD(1) [OF assms(2) u(1)])
    have nh: "\<not> holds_call q k n" using do_invD(2) [OF assms(2) u(1) unregister(2)] u(2) by auto
    show ?thesis
      using p nh rm kn by (cases "(s, q)" rule: phase_ok.cases) (auto split: if_splits, blast)
  qed
  show ?thesis
    unfolding unregister(1) do_inv_def
  proof (intro conjI allI impI)
    fix u q assume "fmlookup (ds_threads ?s) u = Some q"
    then show "phase_ok ?s q" using ok by (auto split: if_splits)
  next
    fix u v j m q q'
    assume a: "fmlookup (ds_threads ?s) u = Some q \<and> fmlookup (ds_threads ?s) v = Some q' \<and> holds_call q j m \<and> holds_call q' j m"
    then show "u = v" using do_invD(2) [OF assms(2), of u q v q' j m] by (auto split: if_splits)
  next
    fix j m assume a: "fmlookup (an_calls (ds_cache ?s)) j = Some m"
    then have j: "j \<noteq> k" "fmlookup (an_calls (ds_cache s)) j = Some m" by (auto split: if_splits)
    obtain u q where u: "fmlookup (ds_threads s) u = Some q" "holds_call q j m" using do_invD(3) [OF assms(2) j(2)] by blast
    then have "u \<noteq> t" using unregister(2) j(1) by auto
    with u show "\<exists>t ph. fmlookup (ds_threads ?s) t = Some ph \<and> holds_call ph j m" by (intro exI [of _ u] exI [of _ q]) simp
  next
    fix i j m assume "fmlookup (an_calls (ds_cache ?s)) i = Some m \<and> fmlookup (an_calls (ds_cache ?s)) j = Some m"
    then show "i = j" using do_invD(4) [OF assms(2)] by (auto split: if_splits)
  next
    fix j v x assume "fmlookup (an_store (ds_cache ?s)) j = Some (v, x)"
    then have "v \<noteq> [] \<and> (\<exists>n. ran_in s j n (v, None))" using do_invD(5) [OF assms(2)] by simp
    then show "v \<noteq> []" "\<exists>n. ran_in ?s j n (v, None)" using rm by blast+
  qed
qed

abbreviation do_run :: "do_state \<Rightarrow> do_state \<Rightarrow> bool" where
  "do_run \<equiv> rtranclp do_step"

lemma new_do_inv: "do_inv (new_do ttl cap)"
  by (simp add: do_inv_def new_do_def new_answers_def)

lemma do_run_inv: "do_run (new_do ttl cap) s \<Longrightarrow> do_inv s"
  by (induction rule: rtranclp_induct) (auto intro: new_do_inv do_step_inv)

text \<open>Every step changes one thread, and only steps of a call's holder free it.\<close>

lemma crashed_step:
  assumes "do_step s s'" "do_inv s" "fmlookup (ds_threads s) t = Some (Crashed k n)"
  shows "fmlookup (ds_threads s') t = Some (Crashed k n)"
  using assms(1) by cases (use assms(3) in auto)

lemma capacity_step:
  assumes "do_step s s'" "0 < an_cap (ds_cache s)" "int (fcard (fmdom (an_store (ds_cache s)))) \<le> an_cap (ds_cache s)"
  shows "an_cap (ds_cache s') = an_cap (ds_cache s) \<and> int (fcard (fmdom (an_store (ds_cache s')))) \<le> an_cap (ds_cache s)"
  using assms(1)
proof cases
  case (store t k n out victim now)
  have "int (fcard (fmdom (an_store (answers_set now victim k v (ds_cache s))))) \<le> an_cap (ds_cache s)" for v
  proof (cases "an_cap (ds_cache s) \<le> int (fcard (fmdom (an_store (ds_cache s))))")
    case True
    have "an_store (ds_cache s) \<noteq> fmempty" using True assms(2) by (auto simp: fcard_fempty)
    with store(3) have "victim |\<in>| fmdom (an_store (ds_cache s))" by blast
    then have "fcard (fmdom (an_store (ds_cache s)) |-| {|victim|}) = fcard (fmdom (an_store (ds_cache s))) - 1"
      by (simp add: fcard_fminus_fsingleton)
    moreover have "fcard (finsert k (fmdom (an_store (ds_cache s)) |-| {|victim|})) \<le> Suc (fcard (fmdom (an_store (ds_cache s)) |-| {|victim|}))"
      by (simp add: fcard_finsert_if)
    ultimately show ?thesis using True assms(2,3) by (auto simp: answers_set_def Let_def)
  next
    case False
    have "fcard (finsert k (fmdom (an_store (ds_cache s)))) \<le> Suc (fcard (fmdom (an_store (ds_cache s))))"
      by (simp add: fcard_finsert_if)
    with False assms(2,3) show ?thesis by (auto simp: answers_set_def Let_def)
  qed
  with assms(3) store(1) show ?thesis by simp
qed (use assms(2,3) answers_get_fields in \<open>force+\<close>)


lemma capacity_run:
  assumes "do_run (new_do ttl cap) s" "0 < cap"
  shows "an_cap (ds_cache s) = cap \<and> int (fcard (fmdom (an_store (ds_cache s)))) \<le> cap"
  using assms(1)
proof (induction rule: rtranclp_induct)
  case base
  then show ?case using assms(2) by (simp add: new_do_def new_answers_def fcard_fempty)
next
  case (step y z)
  with capacity_step [OF step(2)] assms(2) show ?case by simp
qed

text \<open>A thread that waits on the call of a crashed one does not move.\<close>

lemma wedged_step:
  assumes "do_step s s'" "do_inv s" "fmlookup (ds_threads s) t = Some (Crashed k n)" "fmlookup (ds_threads s) u = Some (Joined k n)"
  shows "fmlookup (ds_threads s') u = Some (Joined k n)"
proof -
  have open_call: "fmlookup (an_call (ds_cache s)) n = Some None" using do_invD(1) [OF assms(2,3)] by simp
  show ?thesis using assms(1) by cases (use assms(4) open_call in auto)
qed

lemma crashed_run:
  assumes "do_run s s'" "do_inv s" "fmlookup (ds_threads s) t = Some (Crashed k n)"
  shows "do_inv s' \<and> fmlookup (ds_threads s') t = Some (Crashed k n)
    \<and> (fmlookup (ds_threads s) u = Some (Joined k n) \<longrightarrow> fmlookup (ds_threads s') u = Some (Joined k n))"
  using assms(1)
proof (induction rule: rtranclp_induct)
  case base
  then show ?case using assms by simp
next
  case (step y z)
  with do_step_inv [OF step(2)] crashed_step [OF step(2)] wedged_step [OF step(2)] show ?case by blast
qed

text \<open>Two concrete runs: thread 0 leads the call for a key, and then panics or finishes.\<close>

definition sample_start :: do_state where
  "sample_start = at_phase 0 (Start ''q'') (ds_cache (new_do 5 1)) (new_do 5 1)"

definition sample_miss :: do_state where
  "sample_miss = at_phase 0 (Missed ''q'') ((ds_cache sample_start)\<lparr>an_misses := 1\<rparr>) sample_start"

definition sample_lead :: do_state where
  "sample_lead = at_phase 0 (Leading ''q'' 7) ((ds_cache sample_miss)\<lparr>an_calls := fmupd ''q'' 7 (an_calls (ds_cache sample_miss)),
     an_call := fmupd 7 None (an_call (ds_cache sample_miss))\<rparr>) sample_miss"

definition sample_panic :: do_state where
  "sample_panic = at_phase 0 (Crashed ''q'' 7) (ds_cache sample_lead) sample_lead"

definition sample_closed :: do_state where
  "sample_closed = at_phase 0 (Closed ''q'' 7 (''a'', None))
     ((ds_cache sample_lead)\<lparr>an_call := fmupd 7 (Some (''a'', None)) (an_call (ds_cache sample_lead))\<rparr>) sample_lead"

definition sample_done :: do_state where
  "sample_done = at_phase 0 (Unregistered ''q'' 7 (''a'', None))
     ((ds_cache sample_closed)\<lparr>an_calls := fmdrop ''q'' (an_calls (ds_cache sample_closed))\<rparr>) sample_closed"

definition sample_stored :: do_state where
  "sample_stored = at_phase 0 (Returned ''q'' (Some 7) (''a'', None) False)
     (if snd (''a'', None :: bytes option) = None \<and> fst (''a'', None :: bytes option) \<noteq> []
      then answers_set 100 ''x'' ''q'' (fst (''a'', None :: bytes option)) (ds_cache sample_done) else ds_cache sample_done) sample_done"

lemma sample_cache:
  "ds_cache sample_start = new_answers 5 1" "ds_cache sample_miss = (new_answers 5 1)\<lparr>an_misses := 1\<rparr>"
  "an_calls (ds_cache sample_lead) = fmupd ''q'' 7 fmempty" "an_call (ds_cache sample_lead) = fmupd 7 None fmempty"
  "an_store (ds_cache sample_done) = fmempty" "an_ttl (ds_cache sample_done) = 5" "an_cap (ds_cache sample_done) = 1"
  by (simp_all add: sample_start_def sample_miss_def sample_lead_def sample_closed_def sample_done_def new_do_def new_answers_def)

lemma sample_phase:
  "fmlookup (ds_threads sample_start) 0 = Some (Start ''q'')" "fmlookup (ds_threads sample_miss) 0 = Some (Missed ''q'')"
  "fmlookup (ds_threads sample_lead) 0 = Some (Leading ''q'' 7)" "fmlookup (ds_threads sample_panic) 0 = Some (Crashed ''q'' 7)"
  "fmlookup (ds_threads sample_closed) 0 = Some (Closed ''q'' 7 (''a'', None))"
  "fmlookup (ds_threads sample_done) 0 = Some (Unregistered ''q'' 7 (''a'', None))"
  "fmlookup (ds_threads sample_stored) 0 = Some (Returned ''q'' (Some 7) (''a'', None) False)"
  by (simp_all add: sample_start_def sample_miss_def sample_lead_def sample_panic_def sample_closed_def sample_done_def sample_stored_def)

lemma sample_lead_run: "do_run (new_do 5 1) sample_lead"
proof -
  have "do_step (new_do 5 1) sample_start" unfolding sample_start_def by (rule begin_do) (simp add: new_do_def)
  moreover have "do_step sample_start sample_miss" unfolding sample_miss_def
    by (rule miss [OF sample_phase(1), of 0]) (simp add: sample_cache answers_get_def new_answers_def)
  moreover have "do_step sample_miss sample_lead" unfolding sample_lead_def
    by (rule lead [OF sample_phase(2)]) (simp_all add: sample_cache new_answers_def)
  ultimately show ?thesis by (meson rtranclp.rtrancl_refl rtranclp.rtrancl_into_rtrancl)
qed

lemma sample_panic_run: "do_run (new_do 5 1) sample_panic"
  unfolding sample_panic_def by (rule rtranclp.rtrancl_into_rtrancl [OF sample_lead_run panic [OF sample_phase(3)]])

lemma sample_stored_run: "do_run (new_do 5 1) sample_stored"
proof -
  have "do_step sample_lead sample_closed" unfolding sample_closed_def by (rule finish [OF sample_phase(3)])
  moreover have "do_step sample_closed sample_done" unfolding sample_done_def by (rule unregister [OF sample_phase(5)])
  moreover have "do_step sample_done sample_stored" unfolding sample_stored_def
    by (rule store [OF sample_phase(6)]) (simp add: sample_cache)
  ultimately show ?thesis using sample_lead_run by (meson rtranclp.rtrancl_into_rtrancl)
qed

section \<open>Properties\<close>

text \<open>C28. In every interleaving of threads inside \<open>Do\<close>, at most one of them is running the function for a
  given key.\<close>

theorem one_run_per_key:
  assumes "do_run (new_do ttl cap) s" "fmlookup (ds_threads s) t = Some (Leading k n)" "fmlookup (ds_threads s) u = Some (Leading k m)"
  shows "t = u"
proof -
  note inv = do_run_inv [OF assms(1)]
  have "n = m" using do_invD(1) [OF inv assms(2)] do_invD(1) [OF inv assms(3)] by simp
  then show ?thesis using do_invD(2) [OF inv assms(2,3), of k n] by simp
qed

theorem one_run_per_key_witness:
  "fmlookup (ds_threads sample_lead) 0 = Some (Leading ''q'' 7) \<and> (\<forall>m. fmlookup (ds_threads sample_lead) 1 \<noteq> Some (Leading ''q'' m))"
  using one_run_per_key [OF sample_lead_run sample_phase(3), of 1] sample_phase(3) by fastforce

text \<open>C37. Whatever \<open>Do\<close> returns for a key, fresh from the cache or shared or its own, is the outcome of a run of the
  function for that very key that has finished; a value served from the cache is a non-empty one that came without an
  error.\<close>

theorem answers_come_from_runs:
  assumes "do_run (new_do ttl cap) s" "fmlookup (ds_threads s) t = Some (Returned k r out b)"
  shows "(\<exists>n. ran_in s k n out \<and> (r = None \<or> r = Some n))
    \<and> (\<forall>j v x. fmlookup (an_store (ds_cache s)) j = Some (v, x) \<longrightarrow> v \<noteq> [] \<and> (\<exists>n. ran_in s j n (v, None)))"
proof (intro conjI allI impI)
  note inv = do_run_inv [OF assms(1)]
  show "\<exists>n. ran_in s k n out \<and> (r = None \<or> r = Some n)" using do_invD(1) [OF inv assms(2)] by (cases r) auto
  fix j v x assume "fmlookup (an_store (ds_cache s)) j = Some (v, x)"
  from do_invD(5) [OF inv this] show "v \<noteq> []" "\<exists>n. ran_in s j n (v, None)" by blast+
qed

theorem answers_come_from_runs_witness:
  "(\<exists>n. ran_in sample_stored ''q'' n (''a'', None)) \<and> fmlookup (an_store (ds_cache sample_stored)) ''q'' = Some (''a'', 105)"
proof -
  have "fmlookup (an_store (ds_cache sample_stored)) ''q'' = Some (''a'', 105)"
    by (simp add: sample_stored_def sample_cache answers_set_def fcard_fempty)
  then show ?thesis using answers_come_from_runs [OF sample_stored_run sample_phase(7)] by blast
qed

text \<open>C38. When the function panics, its key is lost: the registration stays, no later thread ever leads the key again,
  and every thread that joined the call stays blocked on its channel in every continuation of the run.\<close>

theorem panic_wedges_key:
  assumes "do_run (new_do ttl cap) s" "fmlookup (ds_threads s) t = Some (Crashed k n)" "do_run s s'"
  shows "fmlookup (an_calls (ds_cache s')) k = Some n \<and> fmlookup (an_call (ds_cache s')) n = Some None
    \<and> (\<forall>u m. fmlookup (ds_threads s') u \<noteq> Some (Leading k m))
    \<and> (\<forall>u. fmlookup (ds_threads s) u = Some (Joined k n) \<longrightarrow> fmlookup (ds_threads s') u = Some (Joined k n))"
proof (intro conjI allI impI notI)
  note r = crashed_run [OF assms(3) do_run_inv [OF assms(1)] assms(2)]
  have inv: "do_inv s'" and c: "fmlookup (ds_threads s') t = Some (Crashed k n)" using r by blast+
  show "fmlookup (an_calls (ds_cache s')) k = Some n" "fmlookup (an_call (ds_cache s')) n = Some None" using do_invD(1) [OF inv c] by simp_all
  fix u
  show "fmlookup (ds_threads s) u = Some (Joined k n) \<Longrightarrow> fmlookup (ds_threads s') u = Some (Joined k n)" using r by blast
  fix m assume l: "fmlookup (ds_threads s') u = Some (Leading k m)"
  have "m = n" using do_invD(1) [OF inv l] do_invD(1) [OF inv c] by simp
  then have "u = t" using do_invD(2) [OF inv l c, of k n] by simp
  with l c show False by simp
qed

theorem panic_wedges_key_witness:
  "fmlookup (an_calls (ds_cache sample_panic)) ''q'' = Some 7 \<and> (\<forall>u m. fmlookup (ds_threads sample_panic) u \<noteq> Some (Leading ''q'' m))"
  using panic_wedges_key [OF sample_panic_run sample_phase(4) rtranclp.rtrancl_refl] by blast

text \<open>A cache with a positive capacity never holds more entries than that, whichever entry each eviction picks.\<close>

theorem answers_within_cap:
  assumes "do_run (new_do ttl cap) s" "0 < cap"
  shows "int (as_entries (answers_stats (ds_cache s))) \<le> as_cap (answers_stats (ds_cache s)) \<and> as_cap (answers_stats (ds_cache s)) = cap"
  using capacity_run [OF assms] by (simp add: answers_stats_def)

theorem answers_within_cap_witness: "int (as_entries (answers_stats (ds_cache sample_stored))) \<le> 1"
  using answers_within_cap [OF sample_stored_run] by simp

end
