(* ===== verification/CrawlRobots.thy ===== *)
theory CrawlRobots
  imports Prelude
begin

text \<open>
  The robots rules of the crawler (\<open>src/internal/crawler/robots.go\<close>): parsing a \<open>robots.txt\<close>, deciding whether a path
  may be fetched, and the cache of parsed rules. Fetching a file is the argument of the operation that needs one, and so
  is the reading of a delay as a decimal number (\<open>strconv.ParseFloat\<close>). Bodies and agents are ASCII.
\<close>

section \<open>Rules\<close>

record robots_group =
  rg_agents :: "bytes list"
  rg_disallow :: "bytes list"
  rg_allow :: "bytes list"
  rg_delay :: int

record robots_rules =
  rr_groups :: "robots_group list"
  rr_fetched :: int
  rr_sitemaps :: "bytes list"

definition empty_group :: robots_group where
  "empty_group = \<lparr>rg_agents = [], rg_disallow = [], rg_allow = [], rg_delay = 0\<rparr>"

definition empty_rules :: "int \<Rightarrow> robots_rules" where
  "empty_rules now = \<lparr>rr_groups = [], rr_fetched = now, rr_sitemaps = []\<rparr>"

section \<open>Parsing\<close>

text \<open>
  The state of the loop: the rules so far and whether the line before was a \<open>User-agent\<close> line. The pointer \<open>current\<close>
  of the code always names the last group.
\<close>

record robots_parse =
  rp_groups :: "robots_group list"
  rp_sitemaps :: "bytes list"
  rp_expecting :: bool

definition update_last :: "('a \<Rightarrow> 'a) \<Rightarrow> 'a list \<Rightarrow> 'a list" where
  "update_last f xs = (if xs = [] then [] else butlast xs @ [f (last xs)])"

definition add_agent :: "bytes \<Rightarrow> robots_parse \<Rightarrow> robots_parse" where
  "add_agent a p = p\<lparr>rp_groups := update_last (\<lambda>g. g\<lparr>rg_agents := rg_agents g @ [a]\<rparr>)
       (if rp_expecting p then rp_groups p else rp_groups p @ [empty_group]), rp_expecting := True\<rparr>"

definition add_rule :: "(robots_group \<Rightarrow> robots_group) \<Rightarrow> robots_parse \<Rightarrow> robots_parse" where
  "add_rule f p = p\<lparr>rp_groups := update_last f (rp_groups p), rp_expecting := False\<rparr>"

text \<open>\<open>secs v\<close>: the delay, in nanoseconds, of a value that parses as a positive number of seconds.\<close>

definition parse_directive :: "(bytes \<Rightarrow> int option) \<Rightarrow> bytes \<Rightarrow> bytes \<Rightarrow> robots_parse \<Rightarrow> robots_parse" where
  "parse_directive secs key v p =
     (if key = ''user-agent'' then add_agent (to_lower v) p
      else if key = ''disallow'' then add_rule (\<lambda>g. g\<lparr>rg_disallow := rg_disallow g @ [v]\<rparr>) p
      else if key = ''allow'' then add_rule (\<lambda>g. g\<lparr>rg_allow := rg_allow g @ [v]\<rparr>) p
      else if key = ''crawl-delay'' then add_rule (\<lambda>g. case secs v of None \<Rightarrow> g | Some d \<Rightarrow> g\<lparr>rg_delay := d\<rparr>) p
      else if key = ''sitemap'' then p\<lparr>rp_sitemaps := (if v = [] then rp_sitemaps p else rp_sitemaps p @ [v]), rp_expecting := False\<rparr>
      else p\<lparr>rp_expecting := False\<rparr>)"

definition parse_line :: "(bytes \<Rightarrow> int option) \<Rightarrow> bytes \<Rightarrow> robots_parse \<Rightarrow> robots_parse" where
  "parse_line secs raw p =
     (let line = trim_space (case index_byte (CHR ''#'') raw of None \<Rightarrow> raw | Some i \<Rightarrow> take i raw) in
      if line = [] then p\<lparr>rp_expecting := False\<rparr>
      else (case index_byte (CHR '':'') line of None \<Rightarrow> p
        | Some i \<Rightarrow> parse_directive secs (to_lower (trim_space (take i line))) (trim_space (drop (i + 1) line)) p))"

definition parse_robots :: "(bytes \<Rightarrow> int option) \<Rightarrow> int \<Rightarrow> bytes \<Rightarrow> robots_rules" where
  "parse_robots secs now body =
     (let p = fold (parse_line secs) (split_byte (CHR 0x0A) body) \<lparr>rp_groups = [], rp_sitemaps = [], rp_expecting = False\<rparr> in
      \<lparr>rr_groups = rp_groups p, rr_fetched = now, rr_sitemaps = rp_sitemaps p\<rparr>)"

text \<open>
  \<open>fetch\<close> after the request: \<open>None\<close> for a request that failed, else the status and the body, \<open>None\<close> where reading it failed.
  \<open>now\<close> and \<open>later\<close> are the clock before the request and after it.
\<close>

definition fetch_rules :: "(bytes \<Rightarrow> int option) \<Rightarrow> int \<Rightarrow> int \<Rightarrow> (nat \<times> bytes option) option \<Rightarrow> robots_rules" where
  "fetch_rules secs now later resp = (case resp of None \<Rightarrow> empty_rules now
     | Some (status, body) \<Rightarrow> if 400 \<le> status then empty_rules now
         else (case body of None \<Rightarrow> empty_rules now | Some b \<Rightarrow> parse_robots secs later (take 500000 b)))"

section \<open>Matching a path\<close>

text \<open>The middle segments of a pattern, each found at its first occurrence from \<open>i\<close> on.\<close>

fun match_middle :: "bytes list \<Rightarrow> nat \<Rightarrow> bytes \<Rightarrow> nat option" where
  "match_middle [] i path = Some i"
| "match_middle (seg # segs) i path =
     (if seg = [] then match_middle segs i path
      else (case index_of (drop i path) seg of None \<Rightarrow> None
        | Some j \<Rightarrow> match_middle segs (i + j + length seg) path))"

definition pattern_matches :: "bytes \<Rightarrow> bytes \<Rightarrow> bool" where
  "pattern_matches pattern path =
     (let anchored = has_suffix pattern ''$'';
          pattern = (if anchored then take (length pattern - 1) pattern else pattern) in
      if CHR ''*'' \<notin> set pattern then (if anchored then path = pattern else has_prefix path pattern)
      else let parts = split_byte (CHR ''*'') pattern; final = last parts in
        if hd parts \<noteq> [] \<and> \<not> has_prefix path (hd parts) then False
        else (case match_middle (butlast (tl parts)) (length (hd parts)) path of None \<Rightarrow> False
          | Some i \<Rightarrow> if final = [] then True
              else if anchored then has_suffix path final \<and> int i \<le> int (length path) - int (length final)
              else contains (drop i path) final))"

definition longest_match :: "bytes list \<Rightarrow> bytes \<Rightarrow> int" where
  "longest_match patterns path = fold (\<lambda>p best.
     if p = [] then best else if pattern_matches p path \<and> best < int (length p) then int (length p) else best) patterns (- 1)"

text \<open>The scan for the group of a crawler: the best group with the length of its agent, and the first group of \<open>*\<close>.\<close>

definition try_agent :: "bytes \<Rightarrow> robots_group \<Rightarrow> bytes \<Rightarrow> robots_group option \<times> nat \<times> robots_group option
    \<Rightarrow> robots_group option \<times> nat \<times> robots_group option" where
  "try_agent ua g a st = (case st of (best, len, star) \<Rightarrow>
     if a = ''*'' then (best, len, if star = None then Some g else star)
     else if contains ua a \<and> len < length a then (Some g, length a, star) else st)"

definition pick_group :: "robots_group list \<Rightarrow> bytes \<Rightarrow> robots_group option" where
  "pick_group gs ua = (case fold (\<lambda>g. fold (try_agent ua g) (rg_agents g)) gs (None, 0, None) of
     (best, _, star) \<Rightarrow> (if best = None then star else best))"

definition decide_robots :: "robots_rules \<Rightarrow> bytes \<Rightarrow> bytes \<Rightarrow> bool \<times> int" where
  "decide_robots rules path ua = (case pick_group (rr_groups rules) (to_lower ua) of None \<Rightarrow> (True, 0)
     | Some g \<Rightarrow> (let allow = longest_match (rg_allow g) path; disallow = longest_match (rg_disallow g) path in
         if disallow < 0 then (True, rg_delay g)
         else if disallow < allow then (True, rg_delay g) else (False, rg_delay g)))"

section \<open>The cache\<close>

record robots_entry =
  re_key :: bytes
  re_rules :: robots_rules
  re_size :: int

text \<open>The entries from the most to the least recently used one; the map of the code finds the element of a key.\<close>

record robots_cache =
  rc_lru :: "robots_entry list"
  rc_bytes :: int
  rc_max_entries :: int
  rc_max_bytes :: int

definition robots_ttl :: int where "robots_ttl = 24 * 3600 * 10 ^ 9"

definition new_robots :: "int \<Rightarrow> int \<Rightarrow> robots_cache" where
  "new_robots max_entries max_bytes = \<lparr>rc_lru = [], rc_bytes = 0,
     rc_max_entries = (if max_entries \<le> 0 then 50000 else max_entries),
     rc_max_bytes = (if max_bytes \<le> 0 then 64 * 2 ^ 20 else max_bytes)\<rparr>"

definition values_size :: "bytes list \<Rightarrow> int" where
  "values_size vs = sum_list (map (\<lambda>v. int (length v) + 16) vs)"

definition rules_size :: "robots_rules \<Rightarrow> int" where
  "rules_size r = 128 + sum_list (map (\<lambda>g. 96 + values_size (rg_agents g) + values_size (rg_disallow g) + values_size (rg_allow g)) (rr_groups r))
     + values_size (rr_sitemaps r)"

definition find_rules :: "bytes \<Rightarrow> robots_cache \<Rightarrow> robots_entry option" where
  "find_rules key c = find (\<lambda>e. re_key e = key) (rc_lru c)"

definition others :: "bytes \<Rightarrow> robots_cache \<Rightarrow> robots_entry list" where
  "others key c = filter (\<lambda>e. re_key e \<noteq> key) (rc_lru c)"

text \<open>The first critical section of \<open>rulesFor\<close>.\<close>

definition lookup_rules :: "int \<Rightarrow> bytes \<Rightarrow> robots_cache \<Rightarrow> robots_rules option \<times> robots_cache" where
  "lookup_rules now key c = (case find_rules key c of None \<Rightarrow> (None, c)
     | Some e \<Rightarrow> if now - rr_fetched (re_rules e) \<le> robots_ttl then (Some (re_rules e), c\<lparr>rc_lru := e # others key c\<rparr>) else (None, c))"

function evict_rules :: "robots_cache \<Rightarrow> robots_cache" where
  "evict_rules c =
     (if 1 < length (rc_lru c) \<and> (rc_max_entries c < int (length (rc_lru c)) \<or> rc_max_bytes c < rc_bytes c)
      then evict_rules (c\<lparr>rc_lru := butlast (rc_lru c), rc_bytes := rc_bytes c - re_size (last (rc_lru c))\<rparr>) else c)"
  by pat_completeness auto

termination by (relation "measure (\<lambda>c. length (rc_lru c))") auto

declare evict_rules.simps [simp del]

definition store_rules :: "bytes \<Rightarrow> robots_rules \<Rightarrow> robots_cache \<Rightarrow> robots_cache" where
  "store_rules key rules c =
     (let size = rules_size rules + int (length key);
          old = (case find_rules key c of None \<Rightarrow> 0 | Some e \<Rightarrow> re_size e) in
      evict_rules (c\<lparr>rc_lru := \<lparr>re_key = key, re_rules = rules, re_size = size\<rparr> # others key c, rc_bytes := rc_bytes c + (size - old)\<rparr>))"

text \<open>\<open>rulesFor\<close> with the rules a fetch would give, and \<open>Allowed\<close> for a host and the path of a parsed URL.\<close>

definition rules_for :: "int \<Rightarrow> robots_rules \<Rightarrow> bytes \<Rightarrow> robots_cache \<Rightarrow> robots_rules \<times> robots_cache" where
  "rules_for now fetched key c = (case lookup_rules now key c of (Some r, c1) \<Rightarrow> (r, c1)
     | (None, c1) \<Rightarrow> (fetched, store_rules key fetched c1))"

definition robots_allowed :: "int \<Rightarrow> robots_rules \<Rightarrow> bytes \<Rightarrow> bytes \<Rightarrow> bytes \<Rightarrow> robots_cache \<Rightarrow> (bool \<times> int) \<times> robots_cache" where
  "robots_allowed now fetched ua base path c = (case rules_for now fetched base c of (r, c1) \<Rightarrow>
     (decide_robots r (if path = [] then ''/'' else path) ua, c1))"

definition robots_sitemaps :: "int \<Rightarrow> robots_rules \<Rightarrow> bytes \<Rightarrow> robots_cache \<Rightarrow> bytes list \<times> robots_cache" where
  "robots_sitemaps now fetched base c = (case rules_for now fetched base c of (r, c1) \<Rightarrow> (rr_sitemaps r, c1))"

end
