(* ===== verification/RobotsMatch.thy ===== *)
theory RobotsMatch
  imports CrawlRobots
begin

text \<open>
  The greedy matcher of patterns decides the language of wildcard patterns, and the scan for a group and a rule decides
  like a search for the longest agent and the longest pattern.
\<close>

section \<open>Wildcards\<close>

text \<open>\<open>*\<close> stands for any bytes, every other byte for itself; without a \<open>$\<close> at its end a pattern matches a prefix.\<close>

fun glob :: "bytes \<Rightarrow> bytes \<Rightarrow> bool" where
  "glob [] s = (s = [])"
| "glob (c # p) s = (if c = CHR ''*'' then \<exists>n \<le> length s. glob p (drop n s)
     else (case s of [] \<Rightarrow> False | x # r \<Rightarrow> x = c \<and> glob p r))"

definition rep_matches :: "bytes \<Rightarrow> bytes \<Rightarrow> bool" where
  "rep_matches pattern path = (if pattern \<noteq> [] \<and> last pattern = CHR ''$'' then glob (butlast pattern) path
     else glob (pattern @ ''*'') path)"

text \<open>The segments of a pattern, found in this order after any gap; the last one ends the path.\<close>

fun gaps_fit :: "bytes list \<Rightarrow> bytes \<Rightarrow> bool" where
  "gaps_fit [] s = (s = [])"
| "gaps_fit (q # qs) s = (if qs = [] then has_suffix s q else \<exists>w r. s = w @ q @ r \<and> gaps_fit qs r)"

definition fits :: "bytes list \<Rightarrow> bytes \<Rightarrow> bool" where
  "fits qs s = (case qs of [] \<Rightarrow> False | q # qs \<Rightarrow> (\<exists>r. s = q @ r \<and> gaps_fit qs r))"

lemma gaps_fit_extend: "qs \<noteq> [] \<Longrightarrow> gaps_fit qs s \<Longrightarrow> gaps_fit qs (w @ s)"
proof (cases qs)
  case (Cons q rest)
  assume "gaps_fit qs s"
  with Cons show ?thesis by (auto simp: has_suffix_iff split: if_splits) (metis append_assoc)+
qed simp

lemma gaps_fit_Cons: "qs \<noteq> [] \<Longrightarrow> gaps_fit (q # qs) s = (\<exists>w r. s = w @ q @ r \<and> gaps_fit qs r)"
  by simp

lemma split_byte_nonempty [simp]: "split_byte c s \<noteq> []"
  by (induction s) (auto split: list.splits)

lemma glob_fits: "glob p s = fits (split_byte (CHR ''*'') p) s"
proof (induction p arbitrary: s)
  case Nil
  then show ?case by (simp add: fits_def)
next
  case (Cons c p)
  obtain q qs where q: "split_byte (CHR ''*'') p = q # qs" by (meson neq_Nil_conv split_byte_nonempty)
  show ?case
  proof (cases "c = CHR ''*''")
    case True
    have "glob (c # p) s = (\<exists>n \<le> length s. fits (q # qs) (drop n s))" using True Cons by (simp add: q)
    also have "\<dots> = (\<exists>w t. s = w @ t \<and> fits (q # qs) t)"
      by (metis append_take_drop_id append_eq_conv_conj le_add1 length_append)
    also have "\<dots> = gaps_fit (q # qs) s"
      by (cases "qs = []") (auto simp: fits_def has_suffix_iff)
    finally show ?thesis using True by (simp add: q fits_def)
  next
    case False
    with Cons q show ?thesis by (cases s) (auto simp: fits_def)
  qed
qed

lemma index_of_first: "index_of s p = Some i \<Longrightarrow> s = a @ p @ r \<Longrightarrow> i \<le> length a"
proof (induction s arbitrary: i a)
  case (Cons x xs)
  show ?case
  proof (cases "has_prefix (x # xs) p")
    case False
    then have "a \<noteq> []" using Cons.prems(2) by (metis append_Nil has_prefix_append)
    then obtain b where b: "a = x # b" using Cons.prems(2) by (cases a) auto
    from False Cons.prems(1) obtain j where "index_of xs p = Some j" "i = Suc j" by auto
    with Cons.IH [of j b] Cons.prems(2) b show ?thesis by simp
  next
    case True
    with Cons.prems(1) show ?thesis by simp
  qed
qed (simp split: if_splits)

text \<open>Taking the first occurrence of a segment loses no match.\<close>

lemma gaps_fit_first:
  assumes "qs \<noteq> []"
  shows "gaps_fit (q # qs) s = (case index_of s q of None \<Rightarrow> False | Some j \<Rightarrow> gaps_fit qs (drop (j + length q) s))"
proof (cases "index_of s q")
  case None
  then have "\<forall>a r. s \<noteq> a @ q @ r" by (simp add: index_of_None_iff)
  with assms None show ?thesis by simp
next
  case (Some j)
  from index_of_Some [OF Some] obtain r0 where r0: "s = take j s @ q @ r0" and j: "j + length q \<le> length s" by blast
  have r0': "r0 = drop (j + length q) s"
  proof -
    have "drop (j + length q) (take j s @ q @ r0) = r0" using j by simp
    with r0 show ?thesis by simp
  qed
  have "gaps_fit qs r0" if m: "s = w @ q @ r" "gaps_fit qs r" for w r
  proof -
    have "j \<le> length w" by (rule index_of_first [OF Some m(1)])
    then have "drop (j + length q) s = drop (j + length q) (w @ q) @ r" using m(1) by simp
    with gaps_fit_extend [OF assms m(2)] r0' show ?thesis by metis
  qed
  then have "gaps_fit (q # qs) s = gaps_fit qs r0" using r0 gaps_fit_Cons [OF assms, of q s] by blast
  with Some r0' show ?thesis by simp
qed

lemma match_middle_fits:
  "i \<le> length path \<Longrightarrow> ends \<noteq> [] \<Longrightarrow> gaps_fit (segs @ ends) (drop i path)
    = (case match_middle segs i path of None \<Rightarrow> False | Some k \<Rightarrow> k \<le> length path \<and> gaps_fit ends (drop k path))"
proof (induction segs arbitrary: i)
  case (Cons seg segs)
  have ne: "segs @ ends \<noteq> []" using Cons.prems by simp
  show ?case
  proof (cases "seg = []")
    case True
    have "gaps_fit ([] # segs @ ends) (drop i path) = gaps_fit (segs @ ends) (drop i path)"
      using gaps_fit_extend [OF ne] gaps_fit_Cons [OF ne, of "[]"] by (metis append_Nil)
    with True Cons show ?thesis by simp
  next
    case False
    show ?thesis
    proof (cases "index_of (drop i path) seg")
      case None
      with False gaps_fit_first [OF ne, of seg "drop i path"] show ?thesis by simp
    next
      case (Some j)
      have "j + length seg \<le> length (drop i path)" using index_of_Some [OF Some] by blast
      then have "i + j + length seg \<le> length path" using Cons.prems by simp
      from Cons.IH [OF this Cons.prems(2)] gaps_fit_first [OF ne, of seg "drop i path"] Some False show ?thesis
        by (simp add: add.assoc add.commute add.left_commute)
    qed
  qed
qed simp

lemma suffix_from:
  assumes "i \<le> length s"
  shows "has_suffix (drop i s) q = (has_suffix s q \<and> int i \<le> int (length s) - int (length q))"
proof -
  have "drop (length s - i - length q) (drop i s) = drop (length s - length q) s" if "length q \<le> length s - i"
    using that assms by simp
  then show ?thesis using assms unfolding has_suffix_def by auto
qed

lemma split_byte_star: "c \<notin> set p \<Longrightarrow> split_byte c p = [p]"
  by (induction p) auto

lemma split_byte_more: "c \<in> set p \<Longrightarrow> tl (split_byte c p) \<noteq> []"
  by (induction p) (auto split: list.splits)

lemma split_byte_snoc: "split_byte c (p @ [c]) = split_byte c p @ [[]]"
  by (induction p) (auto split: list.splits)

lemma contains_gap: "contains s q = gaps_fit [q, []] s"
  by (auto simp: contains_iff has_suffix_def)

lemma fits_parts:
  assumes "parts = q # segs" "ends \<noteq> []"
  shows "fits (q # segs @ ends) path = (has_prefix path q \<and>
    (case match_middle segs (length q) path of None \<Rightarrow> False | Some k \<Rightarrow> k \<le> length path \<and> gaps_fit ends (drop k path)))"
proof (cases "has_prefix path q")
  case True
  then obtain r where r: "path = q @ r" by (auto simp: has_prefix_iff)
  then have "fits (q # segs @ ends) path = gaps_fit (segs @ ends) (drop (length q) path)" by (auto simp: fits_def)
  also have "\<dots> = (case match_middle segs (length q) path of None \<Rightarrow> False | Some k \<Rightarrow> k \<le> length path \<and> gaps_fit ends (drop k path))"
    by (rule match_middle_fits) (use r assms in auto)
  finally show ?thesis using True by simp
qed (auto simp: fits_def has_prefix_iff)

lemma match_middle_bound: "match_middle segs i path = Some k \<Longrightarrow> i \<le> length path \<Longrightarrow> k \<le> length path"
proof (induction segs arbitrary: i)
  case (Cons seg segs)
  then show ?case
  proof (cases "seg = [] \<or> index_of (drop i path) seg = None")
    case False
    then obtain j where j: "index_of (drop i path) seg = Some j" "seg \<noteq> []" by blast
    have "j + length seg \<le> length (drop i path)" using index_of_Some [OF j(1)] by blast
    then have "i + j + length seg \<le> length path" using Cons.prems by simp
    with Cons j show ?thesis by simp
  qed (auto split: option.splits if_splits)
qed simp

lemma has_suffix_byte: "has_suffix p [c] = (p \<noteq> [] \<and> last p = c)"
  by (auto simp: has_suffix_iff) (metis append_butlast_last_id)

text \<open>The two kinds of pattern, with a wildcard in them.\<close>

lemma matches_wild:
  assumes "CHR ''*'' \<in> set p"
  shows "(let parts = split_byte (CHR ''*'') p; final = last parts in
        if hd parts \<noteq> [] \<and> \<not> has_prefix path (hd parts) then False
        else (case match_middle (butlast (tl parts)) (length (hd parts)) path of None \<Rightarrow> False
          | Some i \<Rightarrow> if final = [] then True
              else if anchored then has_suffix path final \<and> int i \<le> int (length path) - int (length final)
              else contains (drop i path) final))
    = (if anchored then glob p path else glob (p @ ''*'') path)"
proof -
  obtain q segs where q: "split_byte (CHR ''*'') p = q # segs" by (meson neq_Nil_conv split_byte_nonempty)
  have ne: "segs \<noteq> []" using split_byte_more [OF assms] q by simp
  then obtain mid lst where m: "segs = mid @ [lst]" by (metis append_butlast_last_id)
  have simps: "hd (q # segs) = q" "tl (q # segs) = segs" "butlast segs = mid" "last (q # segs) = lst" by (simp_all add: m)
  have a: "glob p path = (has_prefix path q \<and>
    (case match_middle mid (length q) path of None \<Rightarrow> False | Some k \<Rightarrow> k \<le> length path \<and> gaps_fit [lst] (drop k path)))"
    unfolding glob_fits q m by (rule fits_parts [OF HOL.refl]) simp
  have b: "glob (p @ ''*'') path = (has_prefix path q \<and>
    (case match_middle mid (length q) path of None \<Rightarrow> False | Some k \<Rightarrow> k \<le> length path \<and> gaps_fit [lst, []] (drop k path)))"
    unfolding glob_fits split_byte_snoc q m append_Cons append_assoc append_Nil by (rule fits_parts [OF HOL.refl]) simp
  show ?thesis
  proof (cases "has_prefix path q")
    case True
    then have lq: "length q \<le> length path" by (auto simp: has_prefix_iff)
    show ?thesis
    proof (cases "match_middle mid (length q) path")
      case None
      then show ?thesis unfolding Let_def q simps a b by (simp add: True)
    next
      case (Some k)
      have k: "k \<le> length path" by (rule match_middle_bound [OF Some lq])
      have c: "contains (drop k path) []" unfolding contains_iff by (metis append_Nil)
      show ?thesis unfolding Let_def q simps a b contains_gap [symmetric] using k c suffix_from [OF k, of lst]
        by (simp add: True Some has_suffix_def)
    qed
  next
    case False
    then have "q \<noteq> []" by auto
    with False show ?thesis unfolding Let_def q simps a b by simp
  qed
qed

lemma glob_literal: "CHR ''*'' \<notin> set p \<Longrightarrow> glob p s = (s = p) \<and> glob (p @ ''*'') s = has_prefix s p"
proof -
  assume p: "CHR ''*'' \<notin> set p"
  have "glob p s = fits [p] s" "glob (p @ ''*'') s = fits [p, []] s"
    unfolding glob_fits split_byte_snoc split_byte_star [OF p] by simp_all
  then show ?thesis by (auto simp: fits_def has_suffix_iff has_prefix_iff)
qed

lemma pattern_matches_rep: "pattern_matches pattern path = rep_matches pattern path"
proof -
  define anchored where "anchored = has_suffix pattern ''$''"
  define p where "p = (if anchored then take (length pattern - 1) pattern else pattern)"
  have rep: "rep_matches pattern path = (if anchored then glob p path else glob (p @ ''*'') path)"
    by (simp add: rep_matches_def anchored_def p_def has_suffix_byte butlast_conv_take)
  have m: "pattern_matches pattern path = (if CHR ''*'' \<notin> set p then (if anchored then path = p else has_prefix path p)
      else let parts = split_byte (CHR ''*'') p; final = last parts in
        if hd parts \<noteq> [] \<and> \<not> has_prefix path (hd parts) then False
        else (case match_middle (butlast (tl parts)) (length (hd parts)) path of None \<Rightarrow> False
          | Some i \<Rightarrow> if final = [] then True
              else if anchored then has_suffix path final \<and> int i \<le> int (length path) - int (length final)
              else contains (drop i path) final))"
    unfolding pattern_matches_def Let_def anchored_def [symmetric] p_def [symmetric] ..
  show ?thesis
  proof (cases "CHR ''*'' \<in> set p")
    case True
    then show ?thesis unfolding rep m using matches_wild [OF True, of path anchored] by simp
  next
    case False
    then show ?thesis unfolding rep m using glob_literal [OF False, of path] by simp
  qed
qed

end
