(* ===== verification/RobotsProps.thy ===== *)
theory RobotsProps
  imports RobotsMatch
begin

text \<open>The properties of the robots rules.\<close>

section \<open>Patterns and decisions\<close>

text \<open>C33: The matcher, which takes the first occurrence of every segment, decides exactly the wildcard patterns of the robots
  protocol: \<open>*\<close> stands for any bytes, a \<open>$\<close> at the end for the end of the path.
\<close>

theorem pattern_is_wildcard: "pattern_matches pattern path = rep_matches pattern path"
  by (rule pattern_matches_rep)

lemma longest_match_fold:
  "fold (\<lambda>p best. if p = [] then best else if pattern_matches p path \<and> best < int (length p) then int (length p) else best) ps b
    = Max (insert b (int ` length ` {p \<in> set ps. p \<noteq> [] \<and> rep_matches p path}))"
proof (induction ps arbitrary: b)
  case (Cons p ps)
  define M where "M = int ` length ` {p \<in> set ps. p \<noteq> [] \<and> rep_matches p path}"
  have f: "finite M" by (simp add: M_def)
  have "int ` length ` {q \<in> set (p # ps). q \<noteq> [] \<and> rep_matches q path}
    = (if p \<noteq> [] \<and> rep_matches p path then insert (int (length p)) M else M)" by (auto simp: M_def)
  moreover have "Max (insert (int (length p)) M) = Max (insert b (insert (int (length p)) M))" if "b < int (length p)"
    proof -
    have "Max (insert b (insert (int (length p)) M)) = max b (Max (insert (int (length p)) M))" by (rule Max_insert) (use f in simp_all)
    moreover have "int (length p) \<le> Max (insert (int (length p)) M)" using f by simp
    ultimately show ?thesis using that by simp
  qed
  moreover have "Max (insert b M) = Max (insert b (insert (int (length p)) M))" if "\<not> b < int (length p)"
  proof -
    have "Max (insert b (insert (int (length p)) M)) = max (int (length p)) (Max (insert b M))"
      unfolding insert_commute [of b] by (rule Max_insert) (use f in simp_all)
    moreover have "b \<le> Max (insert b M)" using f by simp
    ultimately show ?thesis using that by simp
  qed
  ultimately show ?case using Cons.IH [of "int (length p)"] Cons.IH [of b] by (simp add: pattern_matches_rep M_def [symmetric])
qed simp

lemma longest_match_max: "longest_match ps path = Max (insert (- 1) (int ` length ` {p \<in> set ps. p \<noteq> [] \<and> rep_matches p path}))"
  unfolding longest_match_def by (rule longest_match_fold)

lemma longest_match_bounds:
  "p \<in> set ps \<Longrightarrow> p \<noteq> [] \<Longrightarrow> rep_matches p path \<Longrightarrow> int (length p) \<le> longest_match ps path" "- 1 \<le> longest_match ps path"
  by (auto simp: longest_match_max intro!: Max_ge)

lemma longest_match_hit:
  assumes "0 \<le> longest_match ps path"
  shows "\<exists>p \<in> set ps. p \<noteq> [] \<and> rep_matches p path \<and> longest_match ps path = int (length p)"
proof -
  have "Max (insert (- 1) (int ` length ` {p \<in> set ps. p \<noteq> [] \<and> rep_matches p path}))
      \<in> insert (- 1) (int ` length ` {p \<in> set ps. p \<noteq> [] \<and> rep_matches p path})" by (rule Max_in) simp_all
  then show ?thesis using assms by (auto simp: longest_match_max)
qed

text \<open>
  The group that governs a crawler: the first one with an agent of the greatest length among the agents that occur in the
  crawler's name, else the first one for \<open>*\<close>.
\<close>

definition all_agents :: "robots_group list \<Rightarrow> (robots_group \<times> bytes) list" where
  "all_agents gs = concat (map (\<lambda>g. map (Pair g) (rg_agents g)) gs)"

definition named_agents :: "bytes \<Rightarrow> (robots_group \<times> bytes) list \<Rightarrow> (robots_group \<times> bytes) list" where
  "named_agents ua ps = filter (\<lambda>(g, a). a \<noteq> ''*'' \<and> a \<noteq> [] \<and> contains ua a) ps"

definition longest_agent :: "(robots_group \<times> bytes) list \<Rightarrow> (robots_group \<times> bytes) option" where
  "longest_agent ps = find (\<lambda>p. \<forall>q \<in> set ps. length (snd q) \<le> length (snd p)) ps"

definition governing :: "bytes \<Rightarrow> robots_group list \<Rightarrow> robots_group option" where
  "governing ua gs = (case longest_agent (named_agents ua (all_agents gs)) of Some p \<Rightarrow> Some (fst p)
     | None \<Rightarrow> find (\<lambda>g. ''*'' \<in> set (rg_agents g)) gs)"

lemma longest_agent_Nil [simp]: "longest_agent [] = None"
  by (simp add: longest_agent_def)

lemma longest_agent_Some:
  assumes "longest_agent ps = Some p"
  shows "p \<in> set ps" "q \<in> set ps \<Longrightarrow> length (snd q) \<le> length (snd p)"
  using assms unfolding longest_agent_def by (auto simp: find_Some_iff) 

lemma find_append: "find P (xs @ ys) = (case find P xs of None \<Rightarrow> find P ys | Some x \<Rightarrow> Some x)"
  by (induction xs) auto

lemma longest_agent_snoc:
  "longest_agent (ps @ [p]) = (case longest_agent ps of None \<Rightarrow> Some p | Some q \<Rightarrow> if length (snd q) < length (snd p) then Some p else Some q)"
proof (induction ps arbitrary: p rule: rev_induct)
  case Nil
  show ?case by (simp add: longest_agent_def)
next
  case (snoc x ps)
  define qs where "qs = ps @ [x]"
  obtain q where q: "longest_agent qs = Some q" using snoc [of x] unfolding qs_def by (cases "longest_agent ps") (auto split: if_splits)
  note mx = longest_agent_Some [OF q]
  show ?case
  proof (cases "length (snd q) < length (snd p)")
    case True
    then have "find (\<lambda>p'. \<forall>y \<in> set (qs @ [p]). length (snd y) \<le> length (snd p')) qs = None"
      by (auto simp: find_None_iff dest!: mx(2))
    moreover have "\<forall>y \<in> set qs. length (snd y) \<le> length (snd p)" using mx(2) True by (meson le_trans less_imp_le)
    ultimately show ?thesis using True q unfolding qs_def [symmetric] by (simp add: longest_agent_def find_append)
  next
    case False
    then have e: "(\<forall>y \<in> set (qs @ [p]). length (snd y) \<le> length (snd z)) = (\<forall>y \<in> set qs. length (snd y) \<le> length (snd z))" for z
      using mx(1) by (auto intro: le_trans)
    then have "longest_agent (qs @ [p]) = (case longest_agent qs of None \<Rightarrow> find (\<lambda>p'. \<forall>y \<in> set qs. length (snd y) \<le> length (snd p')) [p] | Some x \<Rightarrow> Some x)"
      by (simp only: longest_agent_def find_append e)
    with False q show ?thesis unfolding qs_def [symmetric] by simp
  qed
qed

lemma try_all_agents: "fold (\<lambda>g. fold (try_agent ua g) (rg_agents g)) gs st = fold (\<lambda>p. try_agent ua (fst p) (snd p)) (all_agents gs) st"
  by (induction gs arbitrary: st) (simp_all add: all_agents_def fold_map comp_def)

lemma try_agents_scan:
  "fold (\<lambda>p. try_agent ua (fst p) (snd p)) ps (None, 0, None) =
     (case longest_agent (named_agents ua ps) of None \<Rightarrow> (None, 0, map_option fst (find (\<lambda>p. snd p = ''*'') ps))
      | Some p \<Rightarrow> (Some (fst p), length (snd p), map_option fst (find (\<lambda>p. snd p = ''*'') ps)))"
proof (induction ps rule: rev_induct)
  case Nil
  show ?case by (simp add: named_agents_def)
next
  case (snoc p ps)
  obtain g a where p: "p = (g, a)" by fastforce
  show ?case
  proof (cases "a = ''*''")
    case True
    then have "named_agents ua (ps @ [p]) = named_agents ua ps" by (simp add: named_agents_def p)
    with True snoc show ?thesis by (auto simp: p try_agent_def find_append split: option.split)
  next
    case star: False
    show ?thesis
    proof (cases "a \<noteq> [] \<and> contains ua a")
      case True
      then have "named_agents ua (ps @ [p]) = named_agents ua ps @ [p]" using star by (simp add: named_agents_def p)
      with True star snoc show ?thesis by (auto simp: p try_agent_def find_append longest_agent_snoc split: option.split)
    next
      case False
      then have nm: "named_agents ua (ps @ [p]) = named_agents ua ps" by (auto simp: named_agents_def p)
      have step: "try_agent ua (fst p) (snd p) st = st" for st using False star by (auto simp: p try_agent_def split: prod.split)
      have fnd: "find (\<lambda>p. snd p = ''*'') (ps @ [p]) = find (\<lambda>p. snd p = ''*'') ps"
        using star by (simp add: p find_append split: option.split)
      show ?thesis unfolding nm fnd using snoc step by simp
    qed
  qed
qed

lemma find_star: "map_option fst (find (\<lambda>p. snd p = ''*'') (all_agents gs)) = find (\<lambda>g. ''*'' \<in> set (rg_agents g)) gs"
proof (induction gs)
  case (Cons g gs)
  have "find (\<lambda>p. snd p = ''*'') (map (Pair g) as) = (if ''*'' \<in> set as then Some (g, ''*'') else None)" for as
    by (induction as) auto
  with Cons show ?case by (simp add: all_agents_def find_append)
qed (simp add: all_agents_def)

lemma pick_group_governing: "pick_group gs ua = governing ua gs"
  unfolding pick_group_def governing_def try_all_agents try_agents_scan find_star by (simp split: option.split)

text \<open>C23: A crawler is governed by the group that names it with the longest agent, or by the group for all crawlers. The path
  is refused exactly when a rule of the group forbids it and no rule that allows it is longer than every rule that forbids
  it.
\<close>

theorem decision_is_longest_rule:
  "decide_robots rules path ua = (case governing (to_lower ua) (rr_groups rules) of None \<Rightarrow> (True, 0)
     | Some g \<Rightarrow> ((\<forall>d \<in> set (rg_disallow g). \<not> (d \<noteq> [] \<and> rep_matches d path))
         \<or> (\<exists>a \<in> set (rg_allow g). a \<noteq> [] \<and> rep_matches a path \<and>
             (\<forall>d \<in> set (rg_disallow g). \<not> (d \<noteq> [] \<and> rep_matches d path \<and> length a \<le> length d))), rg_delay g))"
proof (cases "governing (to_lower ua) (rr_groups rules)")
  case None
  then show ?thesis by (simp add: decide_robots_def pick_group_governing)
next
  case (Some g)
  define A where "A = longest_match (rg_allow g) path"
  define D where "D = longest_match (rg_disallow g) path"
  have d: "fst (decide_robots rules path ua) = (D < 0 \<or> D < A)" "snd (decide_robots rules path ua) = rg_delay g"
    by (simp_all add: decide_robots_def pick_group_governing Some A_def D_def Let_def)
  note da = longest_match_bounds(1) [of _ "rg_allow g" path, folded A_def] longest_match_bounds(2) [of "rg_allow g" path, folded A_def]
    longest_match_hit [of "rg_allow g" path, folded A_def]
  note dd = longest_match_bounds(1) [of _ "rg_disallow g" path, folded D_def] longest_match_bounds(2) [of "rg_disallow g" path, folded D_def]
    longest_match_hit [of "rg_disallow g" path, folded D_def]
  have neg: "D < 0 \<longleftrightarrow> (\<forall>d \<in> set (rg_disallow g). \<not> (d \<noteq> [] \<and> rep_matches d path))"
    using dd by (meson dual_order.trans linorder_not_le of_nat_0_le_iff)
  have pos: "D < A \<longleftrightarrow> (\<exists>a \<in> set (rg_allow g). a \<noteq> [] \<and> rep_matches a path \<and>
             (\<forall>d \<in> set (rg_disallow g). \<not> (d \<noteq> [] \<and> rep_matches d path \<and> length a \<le> length d)))" (is "_ = ?R")
  proof
    assume l: "D < A"
    with dd(2) have "0 \<le> A" by simp
    from da(3) [OF this] obtain a where a: "a \<in> set (rg_allow g)" "a \<noteq> []" "rep_matches a path" "A = int (length a)" by blast
    then have "\<not> (d \<noteq> [] \<and> rep_matches d path \<and> length a \<le> length d)" if "d \<in> set (rg_disallow g)" for d
      using l dd(1) [OF that] by auto
    with a show ?R by blast
  next
    assume ?R
    then obtain a where a: "a \<in> set (rg_allow g)" "a \<noteq> []" "rep_matches a path"
      "\<And>d. d \<in> set (rg_disallow g) \<Longrightarrow> \<not> (d \<noteq> [] \<and> rep_matches d path \<and> length a \<le> length d)" by blast
    show "D < A"
    proof (cases "0 \<le> D")
      case True
      from dd(3) [OF this] a(4) have "D < int (length a)" by force
      with da(1) [OF a(1-3)] show ?thesis by simp
    next
      case False
      with da(1) [OF a(1-3)] show ?thesis by linarith
    qed
  qed
  show ?thesis by (rule prod_eqI) (simp_all add: d Some neg pos)
qed

text \<open>The same rules at work: \<open>Allow: /a/b\<close> outweighs \<open>Disallow: /a\<close> for the named crawler, another crawler falls to \<open>*\<close>.\<close>

definition bot_rules :: robots_rules where
  "bot_rules = parse_robots (\<lambda>_. None) 0
     (''User-agent: bot'' @ CHR 0x0A # ''Disallow: /a'' @ CHR 0x0A # ''Allow: /a/b'' @ CHR 0x0A # CHR 0x0A # ''User-agent: *'' @ CHR 0x0A # ''Disallow: /'')"

lemma decision_is_longest_rule_witness:
  "decide_robots bot_rules ''/a/b/c'' ''Bot/1'' = (True, 0) \<and> decide_robots bot_rules ''/a/c'' ''Bot/1'' = (False, 0)
    \<and> decide_robots bot_rules ''/z'' ''Bot/1'' = (True, 0) \<and> decide_robots bot_rules ''/z'' ''crawler'' = (False, 0)"
  unfolding decision_is_longest_rule pattern_matches_rep [symmetric] by code_simp

text \<open>
  Two consequences that the comments of the code do not suggest: a blank line or a comment between two \<open>User-agent\<close> lines
  leaves the first agent a group without rules, and an agent governs every crawler whose name contains it anywhere.
\<close>

lemma comment_splits_group:
  "decide_robots (parse_robots (\<lambda>_. None) 0 (''User-agent: abot'' @ CHR 0x0A # ''# both'' @ CHR 0x0A # ''User-agent: bbot'' @ CHR 0x0A # ''Disallow: /''))
     ''/x'' ''abot'' = (True, 0)"
  by code_simp

lemma agent_is_substring:
  "decide_robots (parse_robots (\<lambda>_. None) 0 (''User-agent: bot'' @ CHR 0x0A # ''Disallow: /'')) ''/x'' ''robotics/1.0'' = (False, 0)"
  by code_simp

end
