(* ===== verification/RobotsCache.thy ===== *)
theory RobotsCache
  imports RobotsProps
begin

text \<open>Printing rules and reading them back, and the bounds of the cache.\<close>

section \<open>Round trip\<close>

definition rule_line :: "bytes \<Rightarrow> bytes \<Rightarrow> bytes" where
  "rule_line key v = key @ '': '' @ v"

definition group_lines :: "robots_group \<Rightarrow> bytes list" where
  "group_lines g = map (rule_line ''User-agent'') (rg_agents g) @ map (rule_line ''Disallow'') (rg_disallow g)
     @ map (rule_line ''Allow'') (rg_allow g)"

definition rules_lines :: "robots_rules \<Rightarrow> bytes list" where
  "rules_lines r = concat (map group_lines (rr_groups r)) @ map (rule_line ''Sitemap'') (rr_sitemaps r)"

text \<open>A body is its lines, each but the last ended by a line feed.\<close>

definition join_lines :: "bytes list \<Rightarrow> bytes" where
  "join_lines ls = (case ls of [] \<Rightarrow> [] | l # ls \<Rightarrow> l @ concat (map (\<lambda>l. CHR 0x0A # l) ls))"

text \<open>A value that survives: no comment, no line feed, no blanks around it.\<close>

definition plain_value :: "bytes \<Rightarrow> bool" where
  "plain_value v = (CHR ''#'' \<notin> set v \<and> CHR 0x0A \<notin> set v \<and> (v = [] \<or> \<not> ascii_blank (hd v) \<and> \<not> ascii_blank (last v)))"

definition printable_group :: "robots_group \<Rightarrow> bool" where
  "printable_group g = (rg_agents g \<noteq> [] \<and> rg_disallow g @ rg_allow g \<noteq> [] \<and> rg_delay g = 0
     \<and> (\<forall>a \<in> set (rg_agents g). plain_value a \<and> to_lower a = a) \<and> (\<forall>v \<in> set (rg_disallow g @ rg_allow g). plain_value v))"

definition printable_rules :: "robots_rules \<Rightarrow> bool" where
  "printable_rules r = ((\<forall>g \<in> set (rr_groups r). printable_group g) \<and> (\<forall>v \<in> set (rr_sitemaps r). v \<noteq> [] \<and> plain_value v))"

lemma dropWhile_hd: "xs = [] \<or> \<not> P (hd xs) \<Longrightarrow> dropWhile P xs = xs"
  by (cases xs) auto

lemma trim_plain: "v = [] \<or> \<not> ascii_blank (hd v) \<and> \<not> ascii_blank (last v) \<Longrightarrow> trim_space v = v"
  by (cases "v = []") (simp_all add: trim_space_def dropWhile_hd hd_rev)

lemma trim_blank [simp]: "trim_space (CHR '' '' # v) = trim_space v"
  by (simp add: trim_space_def ascii_blank_def)

lemma trim_Nil [simp]: "trim_space [] = []"
  by (simp add: trim_space_def)

lemma index_byte_none [simp]: "c \<notin> set s \<Longrightarrow> index_byte c s = None"
  by (simp add: index_byte_None_iff)

lemma trim_rule_line:
  assumes "key \<in> {''User-agent'', ''Disallow'', ''Allow'', ''Sitemap''}" "plain_value v"
  shows "trim_space (rule_line key v) = (if v = [] then key @ '':'' else rule_line key v)"
proof -
  have k: "key \<noteq> []" "\<not> ascii_blank (hd key)" using assms(1) by (auto simp: ascii_blank_def)
  show ?thesis
  proof (cases "v = []")
    case True
    have d: "dropWhile ascii_blank (key @ '': '') = key @ '': ''" using k by (intro dropWhile_hd) simp
    have "trim_space (key @ '': '') = key @ '':''" unfolding trim_space_def d by (simp add: ascii_blank_def)
    with True show ?thesis by (simp add: rule_line_def)
  next
    case False
    then show ?thesis using k assms(2) trim_plain [of "rule_line key v"] by (simp add: rule_line_def plain_value_def)
  qed
qed

lemma parse_rule_line:
  assumes k: "key \<in> {''User-agent'', ''Disallow'', ''Allow'', ''Sitemap''}" and v: "plain_value v"
  shows "parse_line secs (rule_line key v) p = parse_directive secs (to_lower key) v p"
proof -
  have "CHR ''#'' \<notin> set (rule_line key v)" using k v by (auto simp: rule_line_def plain_value_def)
  then have a: "index_byte (CHR ''#'') (rule_line key v) = None" by simp
  have ne: "trim_space (rule_line key v) \<noteq> []" using k unfolding trim_rule_line [OF assms] by (auto simp: rule_line_def)
  have kk: "CHR '':'' \<notin> set key" "trim_space key = key" using k by (auto intro!: trim_plain simp: ascii_blank_def)
  have i: "index_byte (CHR '':'') (trim_space (rule_line key v)) = Some (length key)"
    unfolding trim_rule_line [OF assms] using index_byte_append [OF kk(1)] by (simp add: rule_line_def)
  have "take (length key) (trim_space (rule_line key v)) = key" unfolding trim_rule_line [OF assms] by (simp add: rule_line_def)
  moreover have "trim_space (drop (length key + 1) (trim_space (rule_line key v))) = v"
    unfolding trim_rule_line [OF assms] using v trim_plain [of v] by (auto simp: rule_line_def plain_value_def)
  ultimately show ?thesis using a ne i kk(2) by (simp add: parse_line_def Let_def)
qed

lemma lower_keys [simp]: "to_lower ''User-agent'' = ''user-agent''" "to_lower ''Disallow'' = ''disallow''" "to_lower ''Allow'' = ''allow''"
  "to_lower ''Sitemap'' = ''sitemap''"
  by code_simp+

lemma update_last_snoc [simp]: "update_last f (xs @ [x]) = xs @ [f x]"
  by (simp add: update_last_def)

text \<open>The lines of one kind append to the last group.\<close>

lemma agent_lines:
  assumes "\<forall>a \<in> set as. plain_value a \<and> to_lower a = a"
  shows "fold (parse_line secs) (map (rule_line ''User-agent'') as) \<lparr>rp_groups = gs @ [g], rp_sitemaps = sm, rp_expecting = True\<rparr>
    = \<lparr>rp_groups = gs @ [g\<lparr>rg_agents := rg_agents g @ as\<rparr>], rp_sitemaps = sm, rp_expecting = True\<rparr>"
  using assms
proof (induction as arbitrary: g)
  case (Cons a as)
  then show ?case by (simp add: parse_rule_line parse_directive_def add_agent_def)
qed simp

lemma disallow_lines:
  assumes "\<forall>v \<in> set vs. plain_value v"
  shows "fold (parse_line secs) (map (rule_line ''Disallow'') vs) \<lparr>rp_groups = gs @ [g], rp_sitemaps = sm, rp_expecting = x\<rparr>
    = \<lparr>rp_groups = gs @ [g\<lparr>rg_disallow := rg_disallow g @ vs\<rparr>], rp_sitemaps = sm, rp_expecting = (vs = [] \<and> x)\<rparr>"
  using assms
proof (induction vs arbitrary: g x)
  case (Cons v vs)
  then show ?case by (simp add: parse_rule_line parse_directive_def add_rule_def)
qed simp

lemma allow_lines:
  assumes "\<forall>v \<in> set vs. plain_value v"
  shows "fold (parse_line secs) (map (rule_line ''Allow'') vs) \<lparr>rp_groups = gs @ [g], rp_sitemaps = sm, rp_expecting = x\<rparr>
    = \<lparr>rp_groups = gs @ [g\<lparr>rg_allow := rg_allow g @ vs\<rparr>], rp_sitemaps = sm, rp_expecting = (vs = [] \<and> x)\<rparr>"
  using assms
proof (induction vs arbitrary: g x)
  case (Cons v vs)
  then show ?case by (simp add: parse_rule_line parse_directive_def add_rule_def)
qed simp

lemma sitemap_lines:
  assumes "\<forall>v \<in> set vs. v \<noteq> [] \<and> plain_value v"
  shows "fold (parse_line secs) (map (rule_line ''Sitemap'') vs) \<lparr>rp_groups = gs, rp_sitemaps = sm, rp_expecting = x\<rparr>
    = \<lparr>rp_groups = gs, rp_sitemaps = sm @ vs, rp_expecting = (vs = [] \<and> x)\<rparr>"
  using assms
proof (induction vs arbitrary: sm x)
  case (Cons v vs)
  then show ?case by (simp add: parse_rule_line parse_directive_def)
qed simp

lemma group_lines_parse:
  assumes g: "printable_group g"
  shows "fold (parse_line secs) (group_lines g) \<lparr>rp_groups = gs, rp_sitemaps = sm, rp_expecting = False\<rparr>
    = \<lparr>rp_groups = gs @ [g], rp_sitemaps = sm, rp_expecting = False\<rparr>"
proof -
  obtain a as where a: "rg_agents g = a # as" using g by (cases "rg_agents g") (auto simp: printable_group_def)
  have first: "parse_line secs (rule_line ''User-agent'' a) \<lparr>rp_groups = gs, rp_sitemaps = sm, rp_expecting = False\<rparr>
      = \<lparr>rp_groups = gs @ [empty_group\<lparr>rg_agents := [a]\<rparr>], rp_sitemaps = sm, rp_expecting = True\<rparr>"
    using g by (simp add: parse_rule_line parse_directive_def add_agent_def a printable_group_def empty_group_def)
  have all: "\<forall>a \<in> set as. plain_value a \<and> to_lower a = a" "\<forall>v \<in> set (rg_disallow g). plain_value v" "\<forall>v \<in> set (rg_allow g). plain_value v"
    and ne: "\<not> (rg_allow g = [] \<and> rg_disallow g = [])" and d: "rg_delay g = 0"
    using g by (auto simp: printable_group_def a)
  have "g = \<lparr>rg_agents = a # as, rg_disallow = rg_disallow g, rg_allow = rg_allow g, rg_delay = 0\<rparr>" using a d by simp
  then show ?thesis using ne unfolding group_lines_def a
    by (simp add: first agent_lines [OF all(1)] disallow_lines [OF all(2)] allow_lines [OF all(3)] empty_group_def)
qed

lemma groups_lines_parse:
  assumes "\<forall>g \<in> set hs. printable_group g"
  shows "fold (parse_line secs) (concat (map group_lines hs)) \<lparr>rp_groups = gs, rp_sitemaps = sm, rp_expecting = False\<rparr>
    = \<lparr>rp_groups = gs @ hs, rp_sitemaps = sm, rp_expecting = False\<rparr>"
  using assms by (induction hs arbitrary: gs) (simp_all add: group_lines_parse)

lemma split_join: "(\<forall>l \<in> set ls. c \<notin> set l) \<Longrightarrow> ls \<noteq> [] \<Longrightarrow> split_byte c (hd ls @ concat (map (\<lambda>l. c # l) (tl ls))) = ls"
proof (induction ls)
  case (Cons l ls)
  have one: "c \<notin> set w \<Longrightarrow> split_byte c (w @ r) = (w @ hd (split_byte c r)) # tl (split_byte c r)" for w r
    by (induction w) (auto split: list.splits)
  show ?case
  proof (cases ls)
    case Nil
    with Cons.prems show ?thesis by (simp add: split_byte_star)
  next
    case (Cons m ms)
    with Cons.IH Cons.prems one [of l "c # hd ls @ concat (map (\<lambda>l. c # l) (tl ls))"] show ?thesis by simp
  qed
qed simp

lemma lines_no_feed:
  assumes "printable_rules r" "l \<in> set (rules_lines r)"
  shows "CHR 0x0A \<notin> set l"
  using assms by (auto simp: rules_lines_def group_lines_def rule_line_def printable_rules_def printable_group_def plain_value_def)

text \<open>Rules that are printed one directive per line are read back as they were.\<close>

theorem robots_roundtrip:
  assumes "printable_rules r"
  shows "parse_robots secs (rr_fetched r) (join_lines (rules_lines r)) = r"
proof -
  have sm: "\<forall>v \<in> set (rr_sitemaps r). v \<noteq> [] \<and> plain_value v" and gs: "\<forall>g \<in> set (rr_groups r). printable_group g"
    using assms by (simp_all add: printable_rules_def)
  have run: "fold (parse_line secs) (rules_lines r) \<lparr>rp_groups = [], rp_sitemaps = [], rp_expecting = False\<rparr>
    = \<lparr>rp_groups = rr_groups r, rp_sitemaps = rr_sitemaps r, rp_expecting = False\<rparr>"
    by (simp add: rules_lines_def groups_lines_parse [OF gs] sitemap_lines [OF sm])
  show ?thesis
  proof (cases "rules_lines r = []")
    case True
    with run show ?thesis by (simp add: parse_robots_def join_lines_def parse_line_def trim_space_def Let_def)
  next
    case False
    then have "split_byte (CHR 0x0A) (join_lines (rules_lines r)) = rules_lines r"
      using split_join [of "rules_lines r" "CHR 0x0A"] lines_no_feed [OF assms] by (cases "rules_lines r") (auto simp: join_lines_def)
    with run show ?thesis by (simp add: parse_robots_def)
  qed
qed

definition sample_rules :: robots_rules where
  "sample_rules = \<lparr>rr_groups = [\<lparr>rg_agents = [''*''], rg_disallow = [''/a*b$'', ''''], rg_allow = [''/ab''], rg_delay = 0\<rparr>],
     rr_fetched = 5, rr_sitemaps = [''http://a.b/s'']\<rparr>"

lemma robots_roundtrip_witness: "parse_robots (\<lambda>_. None) 5 (join_lines (rules_lines sample_rules)) = sample_rules"
proof -
  have "printable_rules sample_rules"
    by (simp add: printable_rules_def printable_group_def sample_rules_def plain_value_def ascii_blank_def to_lower_def lower_byte_def)
  from robots_roundtrip [OF this, of "\<lambda>_. None"] show ?thesis by (simp add: sample_rules_def)
qed

section \<open>The cache\<close>

definition cache_ok :: "robots_cache \<Rightarrow> bool" where
  "cache_ok c = (distinct (map re_key (rc_lru c)) \<and> rc_bytes c = sum_list (map re_size (rc_lru c))
     \<and> (\<forall>e \<in> set (rc_lru c). re_size e = rules_size (re_rules e) + int (length (re_key e))))"

definition within_limits :: "robots_cache \<Rightarrow> bool" where
  "within_limits c = (length (rc_lru c) \<le> 1 \<or> int (length (rc_lru c)) \<le> rc_max_entries c \<and> rc_bytes c \<le> rc_max_bytes c)"

lemma sum_list_snoc_last: "xs \<noteq> [] \<Longrightarrow> sum_list (map f (butlast xs)) = sum_list (map f xs) - (f (last xs) :: int)"
  by (induction xs rule: rev_induct) auto

lemma map_butlast_distinct: "distinct (map f xs) \<Longrightarrow> distinct (map f (butlast xs))"
  by (simp add: map_butlast distinct_butlast)

lemma evict_rules_ok:
  "cache_ok c \<Longrightarrow> cache_ok (evict_rules c) \<and> within_limits (evict_rules c)
    \<and> rc_max_entries (evict_rules c) = rc_max_entries c \<and> rc_max_bytes (evict_rules c) = rc_max_bytes c
    \<and> (\<exists>k. rc_lru (evict_rules c) = take k (rc_lru c) \<and> (rc_lru c \<noteq> [] \<longrightarrow> 0 < k))"
proof (induction c rule: evict_rules.induct)
  case (1 c)
  show ?case
  proof (cases "1 < length (rc_lru c) \<and> (rc_max_entries c < int (length (rc_lru c)) \<or> rc_max_bytes c < rc_bytes c)")
    case True
    define d where "d = c\<lparr>rc_lru := butlast (rc_lru c), rc_bytes := rc_bytes c - re_size (last (rc_lru c))\<rparr>"
    have ne: "rc_lru c \<noteq> []" using True by auto
    have "cache_ok d" using "1.prems" ne by (auto simp: cache_ok_def d_def sum_list_snoc_last map_butlast_distinct dest: in_set_butlastD)
    note ih = "1.IH" [OF True, folded d_def, OF this]
    have e: "evict_rules c = evict_rules d" using True by (subst evict_rules.simps) (simp add: d_def)
    from ih obtain k where k: "rc_lru (evict_rules d) = take k (rc_lru d)" "rc_lru d \<noteq> [] \<longrightarrow> 0 < k" by blast
    have l: "rc_lru d = take (length (rc_lru c) - 1) (rc_lru c)" by (simp add: d_def butlast_conv_take)
    have "rc_lru d \<noteq> []" using True unfolding l by auto
    with k l True have "rc_lru (evict_rules d) = take (min k (length (rc_lru c) - 1)) (rc_lru c) \<and> 0 < min k (length (rc_lru c) - 1)" by (simp add: min.commute)
    then have "\<exists>k. rc_lru (evict_rules d) = take k (rc_lru c) \<and> (rc_lru c \<noteq> [] \<longrightarrow> 0 < k)" by blast
    moreover have "rc_max_entries d = rc_max_entries c" "rc_max_bytes d = rc_max_bytes c" by (simp_all add: d_def)
    ultimately show ?thesis unfolding e using ih by (elim conjE) (intro conjI; simp only:)
  next
    case False
    then have "evict_rules c = c" by (subst evict_rules.simps) auto
    moreover have "\<exists>k. rc_lru c = take k (rc_lru c) \<and> (rc_lru c \<noteq> [] \<longrightarrow> 0 < k)" by (intro exI [of _ "length (rc_lru c)"]) simp
    ultimately show ?thesis using False "1.prems" by (auto simp: within_limits_def)
  qed
qed

datatype cache_op = LookupRules int bytes | StoreRules bytes robots_rules

fun cache_apply :: "cache_op \<Rightarrow> robots_cache \<Rightarrow> robots_cache" where
  "cache_apply (LookupRules now key) c = snd (lookup_rules now key c)"
| "cache_apply (StoreRules key r) c = store_rules key r c"

text \<open>The rules that the last store of a key, if any, left for it.\<close>

definition last_stored :: "cache_op list \<Rightarrow> bytes \<Rightarrow> robots_rules option" where
  "last_stored ops key = fold (\<lambda>op r. case op of LookupRules _ _ \<Rightarrow> r | StoreRules k x \<Rightarrow> if k = key then Some x else r) ops None"

lemma find_rules_Some: "find_rules key c = Some e \<Longrightarrow> e \<in> set (rc_lru c) \<and> re_key e = key"
  by (auto simp: find_rules_def find_Some_iff)

lemma sum_others:
  assumes "distinct (map re_key xs)" "e \<in> set xs"
  shows "sum_list (map re_size (filter (\<lambda>x. re_key x \<noteq> re_key e) xs)) = sum_list (map re_size xs) - re_size e"
  using assms
proof (induction xs)
  case (Cons x xs)
  show ?case
  proof (cases "e = x")
    case True
    with Cons.prems have "filter (\<lambda>y. re_key y \<noteq> re_key e) xs = xs" by (auto simp: filter_id_conv) (metis image_eqI)
    with True show ?thesis by simp
  next
    case False
    with Cons show ?thesis by auto
  qed
qed simp

lemma find_rules_None: "find_rules key c = None \<Longrightarrow> others key c = rc_lru c"
  by (auto simp: find_rules_def find_None_iff others_def filter_id_conv)

lemma distinct_others: "distinct (map re_key (rc_lru c)) \<Longrightarrow> distinct (map re_key (others key c))"
  by (simp add: others_def distinct_map_filter)

lemma lookup_rules_ok:
  assumes "cache_ok c" "within_limits c" "lookup_rules now key c = (r, c')"
  shows "cache_ok c' \<and> within_limits c' \<and> set (rc_lru c') = set (rc_lru c)
    \<and> rc_max_entries c' = rc_max_entries c \<and> rc_max_bytes c' = rc_max_bytes c"
proof (cases "find_rules key c")
  case None
  with assms show ?thesis by (simp add: lookup_rules_def)
next
  case (Some e)
  note e = find_rules_Some [OF Some]
  have d: "distinct (map re_key (rc_lru c))" and b: "rc_bytes c = sum_list (map re_size (rc_lru c))" using assms(1) by (simp_all add: cache_ok_def)
  have same: "set (e # others key c) = set (rc_lru c)"
    using e d by (auto simp: others_def distinct_map inj_on_def)
  have k: "e \<notin> set (others key c)" "distinct (rc_lru c)" "distinct (others key c)" using e d by (auto simp: others_def distinct_map)
  then have len: "length (e # others key c) = length (rc_lru c)" using same by (metis distinct.simps(2) distinct_card)
  have "sum_list (map re_size (e # others key c)) = rc_bytes c" using sum_others [OF d, of e] e b by (simp add: others_def)
  moreover have "distinct (map re_key (e # others key c))" using distinct_others [OF d, of key] e by (auto simp: others_def)
  ultimately show ?thesis using assms Some same len
    by (auto simp: lookup_rules_def cache_ok_def within_limits_def split: if_splits)
qed

lemma store_rules_ok:
  assumes "cache_ok c"
  shows "cache_ok (store_rules key r c) \<and> within_limits (store_rules key r c)
    \<and> rc_max_entries (store_rules key r c) = rc_max_entries c \<and> rc_max_bytes (store_rules key r c) = rc_max_bytes c
    \<and> set (rc_lru (store_rules key r c)) \<subseteq> insert \<lparr>re_key = key, re_rules = r, re_size = rules_size r + int (length key)\<rparr> (set (others key c))
    \<and> find_rules key (store_rules key r c) = Some \<lparr>re_key = key, re_rules = r, re_size = rules_size r + int (length key)\<rparr>"
proof -
  define e where "e = \<lparr>re_key = key, re_rules = r, re_size = rules_size r + int (length key)\<rparr>"
  define old where "old = (case find_rules key c of None \<Rightarrow> 0 | Some e \<Rightarrow> re_size e)"
  define d where "d = c\<lparr>rc_lru := e # others key c, rc_bytes := rc_bytes c + (re_size e - old)\<rparr>"
  have st: "store_rules key r c = evict_rules d" by (simp add: store_rules_def Let_def d_def e_def old_def)
  have dist: "distinct (map re_key (rc_lru c))" using assms by (simp add: cache_ok_def)
  have "sum_list (map re_size (others key c)) = rc_bytes c - old"
  proof (cases "find_rules key c")
    case None
    with find_rules_None [OF None] assms show ?thesis by (simp add: old_def cache_ok_def)
  next
    case (Some x)
    with sum_others [OF dist, of x] find_rules_Some [OF Some] assms show ?thesis by (simp add: old_def cache_ok_def others_def)
  qed
  then have "cache_ok d" using assms distinct_others [OF dist, of key] by (auto simp: cache_ok_def d_def e_def others_def)
  note ev = evict_rules_ok [OF this]
  then obtain k where k: "rc_lru (evict_rules d) = take k (e # others key c)" "0 < k" by (auto simp: d_def)
  then have "find_rules key (evict_rules d) = Some e" by (cases k) (simp_all add: find_rules_def e_def)
  moreover have "set (rc_lru (evict_rules d)) \<subseteq> insert e (set (others key c))" using k set_take_subset by fastforce
  ultimately show ?thesis unfolding st using ev by (simp add: d_def e_def)
qed

text \<open>C36: Whatever lookups and stores reach it, the cache of robots rules holds one entry per host, counts its bytes exactly, and
  is within both of its limits unless it holds a single entry; a lookup gives only the rules last stored for the host,
  and none older than a day; and rules just stored are found.
\<close>

theorem robots_cache_correct:
  fixes ops :: "cache_op list" and max_entries max_bytes :: int
  defines "c \<equiv> fold cache_apply ops (new_robots max_entries max_bytes)"
  shows "cache_ok c \<and> within_limits c
    \<and> (\<forall>now key r. fst (lookup_rules now key c) = Some r \<longrightarrow> last_stored ops key = Some r \<and> now - rr_fetched r \<le> robots_ttl)
    \<and> (\<forall>key r. find_rules key (store_rules key r c) = Some \<lparr>re_key = key, re_rules = r, re_size = rules_size r + int (length key)\<rparr>)"
proof -
  have inv: "cache_ok c \<and> within_limits c \<and> (\<forall>e \<in> set (rc_lru c). last_stored ops (re_key e) = Some (re_rules e))"
    unfolding c_def
  proof (induction ops rule: rev_induct)
    case Nil
    show ?case by (simp add: new_robots_def cache_ok_def within_limits_def)
  next
    case (snoc op ops)
    define b where "b = fold cache_apply ops (new_robots max_entries max_bytes)"
    have ih: "cache_ok b" "within_limits b" "\<And>e. e \<in> set (rc_lru b) \<Longrightarrow> last_stored ops (re_key e) = Some (re_rules e)"
      using snoc by (simp_all add: b_def)
    have step: "fold cache_apply (ops @ [op]) (new_robots max_entries max_bytes) = cache_apply op b" by (simp add: b_def)
    show ?case
    proof (cases op)
      case (LookupRules now key)
      obtain r b' where b': "lookup_rules now key b = (r, b')" by fastforce
      note ok = lookup_rules_ok [OF ih(1,2) b']
      have "last_stored (ops @ [op]) k = last_stored ops k" for k by (simp add: last_stored_def LookupRules)
      then show ?thesis unfolding step using ok ih(3) by (simp add: LookupRules b')
    next
      case (StoreRules key r)
      note ok = store_rules_ok [OF ih(1), of key r]
      have "last_stored (ops @ [op]) k = (if k = key then Some r else last_stored ops k)" for k by (simp add: last_stored_def StoreRules)
      moreover have "e = \<lparr>re_key = key, re_rules = r, re_size = rules_size r + int (length key)\<rparr> \<or> (e \<in> set (rc_lru b) \<and> re_key e \<noteq> key)"
        if "e \<in> set (rc_lru (store_rules key r b))" for e using ok that by (auto simp: others_def)
      ultimately have "last_stored (ops @ [op]) (re_key e) = Some (re_rules e)" if "e \<in> set (rc_lru (store_rules key r b))" for e
        using ih(3) [of e] that by fastforce
      then show ?thesis unfolding step using ok by (simp add: StoreRules)
    qed
  qed
  moreover have "last_stored ops key = Some r \<and> now - rr_fetched r \<le> robots_ttl" if "fst (lookup_rules now key c) = Some r" for now key r
  proof -
    from that obtain e where e: "find_rules key c = Some e" "re_rules e = r" "now - rr_fetched r \<le> robots_ttl"
      by (auto simp: lookup_rules_def split: option.splits if_splits)
    with find_rules_Some [OF e(1)] inv show ?thesis by auto
  qed
  ultimately show ?thesis using store_rules_ok by blast
qed

lemma robots_cache_correct_witness:
  "fst (lookup_rules 10 ''h'' (fold cache_apply [StoreRules ''h'' sample_rules] (new_robots 1 0))) = Some sample_rules
    \<and> last_stored [StoreRules ''h'' sample_rules] ''h'' = Some sample_rules \<and> 10 - rr_fetched sample_rules \<le> robots_ttl"
proof -
  have "fst (lookup_rules 10 ''h'' (fold cache_apply [StoreRules ''h'' sample_rules] (new_robots 1 0))) = Some sample_rules"
    by code_simp
  with robots_cache_correct [of "[StoreRules ''h'' sample_rules]" 1 0] show ?thesis by blast
qed

end
