(* ===== verification/SvcConfig.thy ===== *)
theory SvcConfig
  imports ArtPolicy
begin

text \<open>
  The configuration of the \<open>/v1\<close> service listener (\<open>src/internal/svcauth/config.go\<close>): the rules that a decoded
  \<open>service-auth.json\<close> must pass before it can become the active configuration. Decoding JSON, reading an address or an
  RFC 3339 instant and the keyed digest are arguments; the patterns are written out.
\<close>

section \<open>The decoded file\<close>

record raw_key =
  rk_id :: "bytes option"
  rk_digest :: "bytes option"
  rk_created :: "bytes option"

record raw_principal =
  rp_id :: "bytes option"
  rp_kind :: "bytes option"
  rp_sub :: "bytes option"
  rp_email :: "bytes option"
  rp_keys :: "raw_key list option"
  rp_env :: "bytes option"
  rp_scopes :: "bytes list option"
  rp_rpm :: "int option"
  rp_burst :: "int option"
  rp_writes_per_hour :: "int option"
  rp_writes_burst :: "int option"
  rp_writes_per_day :: "int option"
  rp_counts_reads :: "bool option"

record raw_config =
  rc_schema :: "int option"
  rc_listen :: "bytes option"
  rc_fail :: "(int option \<times> int option) option"
  rc_frozen :: "bool option"
  rc_golive :: "bytes option"
  rc_principals :: "raw_principal list option"

section \<open>The validated configuration\<close>

datatype service_kind = KindOidc | KindKey

record key_config =
  kc_id :: bytes
  kc_digest :: bytes
  kc_created :: bytes

record principal_config =
  pc_id :: bytes
  pc_kind :: service_kind
  pc_sub :: bytes
  pc_email :: bytes
  pc_keys :: "key_config list"
  pc_env :: service_env
  pc_scopes :: "scope list"
  pc_rpm :: int
  pc_burst :: int
  pc_writes_per_hour :: int
  pc_writes_burst :: int
  pc_writes_per_day :: int
  pc_counts_reads :: bool

text \<open>\<open>sc_golive\<close> is \<open>None\<close> for the zero time.\<close>

record svc_config =
  sc_listen :: bytes
  sc_fail_per_minute :: int
  sc_fail_burst :: int
  sc_frozen :: bool
  sc_golive :: "int option"
  sc_principals :: "principal_config list"

definition pc_writer :: "principal_config \<Rightarrow> bool" where
  "pc_writer p = (ArticlesWrite \<in> set (pc_scopes p) \<or> ArticlesStub \<in> set (pc_scopes p))"

definition pc_principal :: "principal_config \<Rightarrow> principal" where
  "pc_principal p = \<lparr>pr_id = pc_id p, pr_env = pc_env p, pr_scopes = pc_scopes p, pr_counts_reads = pc_counts_reads p\<rparr>"

text \<open>
  What the standard library decides: \<open>net.SplitHostPort\<close>, \<open>net.ParseIP\<close> to a canonical form, and
  \<open>time.Parse\<close> of an RFC 3339 instant (\<open>Some None\<close> for the zero time).
\<close>

record svc_deps =
  sd_split :: "bytes \<Rightarrow> (bytes \<times> bytes) option"
  sd_ip :: "bytes \<Rightarrow> bytes option"
  sd_loopback :: "bytes \<Rightarrow> bool"
  sd_unspecified :: "bytes \<Rightarrow> bool"
  sd_instant :: "bytes \<Rightarrow> int option option"

text \<open>\<open>Checks\<close>, with the keyed digest of a token in place of the pepper.\<close>

record svc_checks =
  ck_pepper_ok :: bool
  ck_digest :: "bytes \<Rightarrow> bytes"
  ck_peer :: bytes
  ck_admin :: bytes
  ck_main :: bytes

text \<open>The first rule that fails, with the principal and key the error is wrapped in.\<close>

datatype cfg_err = CfgErr bytes | InPrincipal nat cfg_err | InKey nat cfg_err

fun first_err :: "(bool \<times> bytes) list \<Rightarrow> cfg_err option" where
  "first_err [] = None"
| "first_err ((bad, m) # cs) = (if bad then Some (CfgErr m) else first_err cs)"

lemma first_err_None: "(first_err cs = None) = (\<forall>(bad, m) \<in> set cs. \<not> bad)"
  by (induction cs rule: first_err.induct) auto

section \<open>Patterns\<close>

definition lower_letter :: "char \<Rightarrow> bool" where "lower_letter c = (CHR ''a'' \<le> c \<and> c \<le> CHR ''z'')"
definition digit_byte :: "char \<Rightarrow> bool" where "digit_byte c = (CHR ''0'' \<le> c \<and> c \<le> CHR ''9'')"
definition hex_byte :: "char \<Rightarrow> bool" where "hex_byte c = (digit_byte c \<or> CHR ''a'' \<le> c \<and> c \<le> CHR ''f'')"

definition id_pattern :: "bytes \<Rightarrow> bool" where
  "id_pattern s = (1 \<le> length s \<and> length s \<le> 40 \<and> hd s \<noteq> CHR ''-''
     \<and> list_all (\<lambda>c. lower_letter c \<or> digit_byte c \<or> c = CHR ''-'') s)"

definition sub_pattern :: "bytes \<Rightarrow> bool" where
  "sub_pattern s = (6 \<le> length s \<and> length s \<le> 32 \<and> list_all digit_byte s)"

definition account_label :: "bytes \<Rightarrow> bool" where
  "account_label s = (6 \<le> length s \<and> length s \<le> 30 \<and> lower_letter (hd s) \<and> last s \<noteq> CHR ''-''
     \<and> list_all (\<lambda>c. lower_letter c \<or> digit_byte c \<or> c = CHR ''-'') s)"

definition email_pattern :: "bytes \<Rightarrow> bool" where
  "email_pattern s = (case index_byte (CHR ''@'') s of None \<Rightarrow> False
     | Some i \<Rightarrow> (let domain = drop (i + 1) s; tail = ''.iam.gserviceaccount.com'' in
         account_label (take i s) \<and> has_suffix domain tail \<and> account_label (take (length domain - length tail) domain)))"

definition key_id_pattern :: "bytes \<Rightarrow> bool" where
  "key_id_pattern s = (length s = 16 \<and> list_all hex_byte s)"

definition digest_prefix :: bytes where "digest_prefix = ''hmac-sha256:''"

definition digest_pattern :: "bytes \<Rightarrow> bool" where
  "digest_pattern s = (has_prefix s digest_prefix \<and> length s = length digest_prefix + 64 \<and> list_all hex_byte (drop (length digest_prefix) s))"

definition hex_val :: "char \<Rightarrow> nat" where
  "hex_val c = (if digit_byte c then byte_val c - byte_val (CHR ''0'') else byte_val c - byte_val (CHR ''a'') + 10)"

fun hex_decode :: "bytes \<Rightarrow> bytes" where
  "hex_decode (a # b # s) = char_of (hex_val a * 16 + hex_val b) # hex_decode s"
| "hex_decode _ = []"

text \<open>A decimal number written as \<open>strconv.Itoa\<close> writes it, and the dates \<open>time.DateOnly\<close> reads.\<close>

definition dec_val :: "bytes \<Rightarrow> nat" where
  "dec_val s = foldl (\<lambda>n c. n * 10 + (byte_val c - byte_val (CHR ''0''))) 0 s"

definition port_pattern :: "bytes \<Rightarrow> bool" where
  "port_pattern s = (s \<noteq> [] \<and> list_all digit_byte s \<and> hd s \<noteq> CHR ''0'' \<and> dec_val s \<le> 65535)"

definition days_in :: "nat \<Rightarrow> nat \<Rightarrow> nat" where
  "days_in y m = (if m = 2 then (if y mod 4 = 0 \<and> (y mod 100 \<noteq> 0 \<or> y mod 400 = 0) then 29 else 28)
     else if m \<in> {4, 6, 9, 11} then 30 else 31)"

definition date_only :: "bytes \<Rightarrow> bool" where
  "date_only s = (length s = 10 \<and> s ! 4 = CHR ''-'' \<and> s ! 7 = CHR ''-'' \<and> list_all digit_byte (take 4 s @ take 2 (drop 5 s) @ drop 8 s)
     \<and> (let y = dec_val (take 4 s); m = dec_val (take 2 (drop 5 s)); d = dec_val (drop 8 s) in
        1 \<le> m \<and> m \<le> 12 \<and> 1 \<le> d \<and> d \<le> days_in y m))"

section \<open>Addresses\<close>

definition check_listen :: "svc_deps \<Rightarrow> bytes \<Rightarrow> cfg_err option" where
  "check_listen d s = (case sd_split d s of None \<Rightarrow> Some (CfgErr ''must be host:port'')
     | Some (host, port) \<Rightarrow> first_err
        [(sd_ip d host = None \<or> \<not> sd_loopback d host, ''host must be a loopback IP literal''),
         (\<not> port_pattern port, ''port must be 1-65535'')])"

definition same_port :: "svc_deps \<Rightarrow> bytes \<Rightarrow> bytes \<Rightarrow> bool" where
  "same_port d listen main = (case sd_split d listen of None \<Rightarrow> False
     | Some (lh, lp) \<Rightarrow> (case sd_split d main of None \<Rightarrow> False
       | Some (mh, mp) \<Rightarrow> lp = mp \<and> (sd_ip d mh = None \<or> sd_unspecified d mh \<or> sd_ip d mh = sd_ip d lh)))"

definition collides :: "svc_checks \<Rightarrow> bytes \<Rightarrow> bool" where
  "collides c d = (ck_pepper_ok c \<and> list_ex (\<lambda>t. t \<noteq> [] \<and> ck_digest c t = d) [ck_peer c, ck_admin c])"

section \<open>Scopes\<close>

definition all_scopes :: "scope list" where
  "all_scopes = [ArticlesRead, ArticlesReadAll, ArticlesWrite, ArticlesStub, ArticlesModerate, ArticlesAdmin, RetrieveRead, CommunityIntake, WorkBroker]"

definition parse_scope :: "bytes \<Rightarrow> scope option" where
  "parse_scope v = find (\<lambda>s. scope_name s = v) all_scopes"

fun allowed_scopes :: "service_kind \<Rightarrow> scope list" where
  "allowed_scopes KindOidc = [ArticlesRead, ArticlesWrite, ArticlesStub, RetrieveRead]"
| "allowed_scopes KindKey = [ArticlesRead, ArticlesReadAll, ArticlesModerate, ArticlesAdmin, CommunityIntake, WorkBroker]"

definition community_scope :: "scope \<Rightarrow> bool" where
  "community_scope s = (s = CommunityIntake \<or> s = WorkBroker)"

definition check_scopes :: "service_kind \<Rightarrow> service_env \<Rightarrow> scope list \<Rightarrow> cfg_err option" where
  "check_scopes kind env ss = first_err
     [(list_ex (\<lambda>s. s \<notin> set (allowed_scopes kind)) ss, ''scopes: not allowed on the kind of principal''),
      (ArticlesAdmin \<in> set ss \<and> (length ss \<noteq> 1 \<or> kind \<noteq> KindKey \<or> env \<noteq> EnvProd),
         ''scopes: articles:admin must be the only scope of a prod key principal''),
      (list_ex community_scope ss \<and> list_ex (\<lambda>s. \<not> community_scope s) ss,
         ''scopes: community:intake and work:broker may not be combined with other scopes''),
      (list_ex community_scope ss \<and> env \<noteq> EnvProd, ''scopes: community:intake and work:broker require env prod'')]"

fun read_scopes :: "bytes list \<Rightarrow> scope list \<Rightarrow> cfg_err + scope list" where
  "read_scopes [] ss = Inr ss"
| "read_scopes (v # vs) ss = (case parse_scope v of None \<Rightarrow> Inl (CfgErr ''scopes: unknown scope'')
     | Some s \<Rightarrow> if s \<in> set ss then Inl (CfgErr ''scopes: duplicate scope'') else read_scopes vs (ss @ [s]))"

section \<open>Keys\<close>

definition or_empty :: "bytes option \<Rightarrow> bytes" where
  "or_empty v = (case v of None \<Rightarrow> [] | Some s \<Rightarrow> s)"

definition validate_key :: "raw_key \<Rightarrow> cfg_err + key_config" where
  "validate_key k = (case first_err
       [(rk_id k = None, ''key_id: required''),
        (\<not> key_id_pattern (or_empty (rk_id k)), ''key_id: must match ^[0-9a-f]{16}$''),
        (rk_digest k = None, ''digest: required''),
        (\<not> digest_pattern (or_empty (rk_digest k)), ''digest: must match ^hmac-sha256:[0-9a-f]{64}$''),
        (rk_created k \<noteq> None \<and> \<not> date_only (or_empty (rk_created k)), ''created_at: must be YYYY-MM-DD'')] of
     Some x \<Rightarrow> Inl x
   | None \<Rightarrow> Inr \<lparr>kc_id = or_empty (rk_id k), kc_digest = hex_decode (drop (length digest_prefix) (or_empty (rk_digest k))),
       kc_created = or_empty (rk_created k)\<rparr>)"

fun validate_keys :: "nat \<Rightarrow> raw_key list \<Rightarrow> cfg_err + key_config list" where
  "validate_keys j [] = Inr []"
| "validate_keys j (k # ks) = (case validate_key k of Inl x \<Rightarrow> Inl (InKey j x)
     | Inr c \<Rightarrow> (case validate_keys (j + 1) ks of Inl x \<Rightarrow> Inl x | Inr cs \<Rightarrow> Inr (c # cs)))"

section \<open>Principals\<close>

text \<open>The identity of a principal: the subject and email of an OIDC one, the keys of the other kind.\<close>

definition validate_identity :: "service_kind \<Rightarrow> raw_principal \<Rightarrow> cfg_err + bytes \<times> bytes \<times> key_config list" where
  "validate_identity kind r = (case kind of
     KindOidc \<Rightarrow> (case first_err
         [(rp_keys r \<noteq> None, ''keys: not allowed on an oidc principal''),
          (rp_sub r = None, ''sub: required''),
          (\<not> sub_pattern (or_empty (rp_sub r)), ''sub: must match ^[0-9]{6,32}$''),
          (rp_email r = None, ''email: required''),
          (\<not> email_pattern (or_empty (rp_email r)), ''email: must be a lower-case service-account email'')] of
        Some x \<Rightarrow> Inl x | None \<Rightarrow> Inr (or_empty (rp_sub r), or_empty (rp_email r), []))
   | KindKey \<Rightarrow> (case first_err
         [(rp_sub r \<noteq> None, ''sub: not allowed on a key principal''),
          (rp_email r \<noteq> None, ''email: not allowed on a key principal''),
          (rp_keys r = None, ''keys: required''),
          (case rp_keys r of None \<Rightarrow> False | Some ks \<Rightarrow> length ks < 1 \<or> 2 < length ks, ''keys: must hold 1-2 entries'')] of
        Some x \<Rightarrow> Inl x
      | None \<Rightarrow> (case validate_keys 0 (case rp_keys r of None \<Rightarrow> [] | Some ks \<Rightarrow> ks) of Inl x \<Rightarrow> Inl x | Inr ks \<Rightarrow> Inr ([], [], ks))))"

definition out_of_range :: "int option \<Rightarrow> int \<Rightarrow> int \<Rightarrow> bool" where
  "out_of_range v lo hi = (case v of None \<Rightarrow> False | Some n \<Rightarrow> n < lo \<or> hi < n)"

definition or_default :: "int option \<Rightarrow> int \<Rightarrow> int" where
  "or_default v n = (case v of None \<Rightarrow> n | Some m \<Rightarrow> m)"

text \<open>The write limits of a writer, with the defaults 30, 10 and 150.\<close>

definition write_limits :: "raw_principal \<Rightarrow> cfg_err + int \<times> int \<times> int" where
  "write_limits r = (let wph = or_default (rp_writes_per_hour r) 30 in
     case first_err
       [(out_of_range (rp_writes_per_hour r) 1 600, ''writes_per_hour: must be 1-600''),
        (out_of_range (rp_writes_burst r) 1 wph, ''writes_burst: must be 1-writes_per_hour''),
        (out_of_range (rp_writes_per_day r) 1 5000, ''writes_per_day: must be 1-5000'')] of
     Some x \<Rightarrow> Inl x
   | None \<Rightarrow> Inr (wph, or_default (rp_writes_burst r) (min 10 wph), or_default (rp_writes_per_day r) 150))"

definition parse_kind :: "bytes \<Rightarrow> service_kind option" where
  "parse_kind v = (if v = ''oidc'' then Some KindOidc else if v = ''key'' then Some KindKey else None)"

definition parse_env :: "bytes \<Rightarrow> service_env option" where
  "parse_env v = (if v = ''prod'' then Some EnvProd else if v = ''staging'' then Some EnvStaging else None)"

text \<open>The limits of a principal whose identity, environment and scopes are read.\<close>

definition validate_limits :: "raw_principal \<Rightarrow> principal_config \<Rightarrow> cfg_err + principal_config" where
  "validate_limits r p = (case first_err
       [(rp_rpm r = None, ''rpm: required''),
        (out_of_range (rp_rpm r) 1 6000, ''rpm: must be 1-6000''),
        (out_of_range (rp_burst r) 1 (or_default (rp_rpm r) 0), ''burst: must be 1-rpm'')] of
     Some x \<Rightarrow> Inl x
   | None \<Rightarrow>
     (let rpm = or_default (rp_rpm r) 0; p = p\<lparr>pc_rpm := rpm, pc_burst := or_default (rp_burst r) ((rpm + 3) div 4)\<rparr> in
      case (if pc_writer p then write_limits r
        else if rp_writes_per_hour r \<noteq> None \<or> rp_writes_burst r \<noteq> None \<or> rp_writes_per_day r \<noteq> None
          then Inl (CfgErr ''writes_*: only allowed with articles:write or articles:stub'') else Inr (0, 0, 0)) of
        Inl x \<Rightarrow> Inl x
      | Inr (wph, wb, wpd) \<Rightarrow>
          if rp_counts_reads r = Some True \<and> (ArticlesRead \<notin> set (pc_scopes p) \<or> pc_env p \<noteq> EnvProd)
          then Inl (CfgErr ''counts_reads: only allowed with articles:read and env prod'')
          else Inr (p\<lparr>pc_writes_per_hour := wph, pc_writes_burst := wb, pc_writes_per_day := wpd,
            pc_counts_reads := (rp_counts_reads r = Some True)\<rparr>)))"

definition validate_principal :: "raw_principal \<Rightarrow> cfg_err + principal_config" where
  "validate_principal r = (case first_err
       [(rp_id r = None, ''id: required''),
        (\<not> id_pattern (or_empty (rp_id r)), ''id: must match ^[a-z0-9][a-z0-9-]{0,39}$''),
        (rp_kind r = None, ''kind: required''),
        (parse_kind (or_empty (rp_kind r)) = None, ''kind: must be oidc or key'')] of
     Some x \<Rightarrow> Inl x
   | None \<Rightarrow> (case parse_kind (or_empty (rp_kind r)) of None \<Rightarrow> Inl (CfgErr ''kind: must be oidc or key'')
     | Some kind \<Rightarrow> (case validate_identity kind r of Inl x \<Rightarrow> Inl x
       | Inr (sub, email, keys) \<Rightarrow> (case first_err
             [(rp_env r = None, ''env: required''),
              (parse_env (or_empty (rp_env r)) = None, ''env: must be prod or staging''),
              (rp_scopes r = None \<or> rp_scopes r = Some [], ''scopes: must be non-empty'')] of
           Some x \<Rightarrow> Inl x
         | None \<Rightarrow> (case parse_env (or_empty (rp_env r)) of None \<Rightarrow> Inl (CfgErr ''env: must be prod or staging'')
           | Some env \<Rightarrow> (case read_scopes (case rp_scopes r of None \<Rightarrow> [] | Some vs \<Rightarrow> vs) [] of Inl x \<Rightarrow> Inl x
             | Inr ss \<Rightarrow> (case check_scopes kind env ss of Some x \<Rightarrow> Inl x
               | None \<Rightarrow> validate_limits r
                  \<lparr>pc_id = or_empty (rp_id r), pc_kind = kind, pc_sub = sub, pc_email = email, pc_keys = keys, pc_env = env, pc_scopes = ss,
                   pc_rpm = 0, pc_burst = 0, pc_writes_per_hour = 0, pc_writes_burst = 0, pc_writes_per_day = 0, pc_counts_reads = False\<rparr>)))))))"

section \<open>The file\<close>

text \<open>The keys of one principal against the key ids seen so far.\<close>

fun add_keys :: "svc_checks \<Rightarrow> nat \<Rightarrow> nat \<Rightarrow> key_config list \<Rightarrow> bytes list \<Rightarrow> cfg_err + bytes list" where
  "add_keys c i j [] seen = Inr seen"
| "add_keys c i j (k # ks) seen =
     (if kc_id k \<in> set seen then Inl (InPrincipal i (InKey j (CfgErr ''key_id: duplicate'')))
      else if collides c (kc_digest k) then Inl (InPrincipal i (InKey j (CfgErr ''digest: equals the digest of an existing engine token'')))
      else add_keys c i (j + 1) ks (kc_id k # seen))"

fun add_principals :: "svc_checks \<Rightarrow> nat \<Rightarrow> raw_principal list \<Rightarrow> bytes list \<Rightarrow> bytes list \<Rightarrow> bytes list \<Rightarrow> bytes list
    \<Rightarrow> cfg_err + principal_config list" where
  "add_principals c i [] ids subs emails keys = Inr []"
| "add_principals c i (r # rs) ids subs emails keys = (case validate_principal r of Inl x \<Rightarrow> Inl (InPrincipal i x)
     | Inr p \<Rightarrow> (case first_err
           [(pc_id p \<in> set ids, ''id: duplicate''),
            (pc_kind p = KindOidc \<and> pc_sub p \<in> set subs, ''sub: duplicate''),
            (pc_kind p = KindOidc \<and> pc_email p \<in> set emails, ''email: duplicate'')] of
         Some x \<Rightarrow> Inl (InPrincipal i x)
       | None \<Rightarrow> (case add_keys c i 0 (pc_keys p) keys of Inl x \<Rightarrow> Inl x
         | Inr keys \<Rightarrow> (case add_principals c (i + 1) rs (pc_id p # ids)
               (if pc_kind p = KindOidc then pc_sub p # subs else subs) (if pc_kind p = KindOidc then pc_email p # emails else emails) keys of
             Inl x \<Rightarrow> Inl x | Inr ps \<Rightarrow> Inr (p # ps)))))"

definition default_listen :: bytes where "default_listen = ''127.0.0.1:7779''"

definition validate_config :: "svc_deps \<Rightarrow> svc_checks \<Rightarrow> raw_config \<Rightarrow> cfg_err + svc_config" where
  "validate_config d c r =
     (let listen = (case rc_listen r of None \<Rightarrow> default_listen | Some l \<Rightarrow> l);
          fail = (case rc_fail r of None \<Rightarrow> (None, None) | Some f \<Rightarrow> f);
          golive = (case rc_golive r of None \<Rightarrow> Some None | Some g \<Rightarrow> sd_instant d g);
          ps = (case rc_principals r of None \<Rightarrow> [] | Some ps \<Rightarrow> ps) in
      case first_err
        [(rc_schema r = None, ''schema_version: required''),
         (rc_schema r \<noteq> Some 1, ''schema_version: must be 1''),
         (rc_listen r \<noteq> None \<and> check_listen d listen \<noteq> None, ''listen''),
         (ck_main c \<noteq> [] \<and> same_port d listen (ck_main c), ''listen: must differ from the engine's main address''),
         (out_of_range (fst fail) 1 600, ''failed_auth.per_minute: must be 1-600''),
         (out_of_range (snd fail) 1 100, ''failed_auth.burst: must be 1-100''),
         (golive = None, ''golive_at: must be RFC 3339''),
         (rc_principals r = None, ''principals: required''),
         (length ps < 1 \<or> 64 < length ps, ''principals: must hold 1-64 entries'')] of
        Some x \<Rightarrow> Inl x
      | None \<Rightarrow> (case add_principals c 0 ps [] [] [] [] of Inl x \<Rightarrow> Inl x
        | Inr cs \<Rightarrow> Inr \<lparr>sc_listen = listen, sc_fail_per_minute = or_default (fst fail) 30, sc_fail_burst = or_default (snd fail) 10,
            sc_frozen = (rc_frozen r = Some True), sc_golive = (case golive of None \<Rightarrow> None | Some g \<Rightarrow> g), sc_principals = cs\<rparr>))"

end
