(* ===== verification/SvcPolicy.thy ===== *)
theory SvcPolicy
  imports SvcConfig
begin

text \<open>
  The active service configuration and the limits of its principals (\<open>src/internal/svcauth/policy.go\<close>). Every method
  takes one lock around its whole body, so each is one step on the state; \<open>p.now()\<close> is the argument \<open>now\<close>, in nanoseconds
  of the Unix clock. Numbers of tokens are rationals where the code has \<open>float64\<close>; counters of metrics are left out.
\<close>

section \<open>Token buckets\<close>

record bucket =
  bk_tokens :: rat
  bk_last :: int
  bk_primed :: bool

definition new_bucket :: bucket where
  "new_bucket = \<lparr>bk_tokens = 0, bk_last = 0, bk_primed = False\<rparr>"

definition seconds :: "int \<Rightarrow> rat" where
  "seconds ns = of_int ns / 10 ^ 9"

definition refill :: "int \<Rightarrow> rat \<Rightarrow> rat \<Rightarrow> bucket \<Rightarrow> bucket" where
  "refill now rate capacity b =
     (if \<not> bk_primed b then \<lparr>bk_tokens = capacity, bk_last = now, bk_primed = True\<rparr>
      else let el = seconds (now - bk_last b);
               b = (if 0 < el then b\<lparr>bk_tokens := bk_tokens b + el * rate, bk_last := now\<rparr> else b) in
           b\<lparr>bk_tokens := min (bk_tokens b) capacity\<rparr>)"

definition bucket_wait :: "rat \<Rightarrow> bucket \<Rightarrow> int" where
  "bucket_wait rate b = \<lfloor>(1 - bk_tokens b) / rate * 10 ^ 9\<rfloor>"

text \<open>The draw that every limit makes: refill, then one token or the time until there is one.\<close>

definition draw_token :: "int \<Rightarrow> rat \<Rightarrow> rat \<Rightarrow> bucket \<Rightarrow> (int \<times> bool) \<times> bucket" where
  "draw_token now rate capacity b = (let b = refill now rate capacity b in
     if bk_tokens b < 1 then ((bucket_wait rate b, False), b) else ((0, True), b\<lparr>bk_tokens := bk_tokens b - 1\<rparr>))"

section \<open>State\<close>

text \<open>\<open>wb_day\<close>: the UTC day the count \<open>wb_used\<close> is of; the empty string of the code is \<open>None\<close>.\<close>

record write_allow =
  wb_hour :: bucket
  wb_day :: "int option"
  wb_used :: int

record svc_policy =
  sp_active :: "svc_config option"
  sp_req :: "bytes \<Rightarrow> bucket option"
  sp_route :: "bytes \<times> bytes \<Rightarrow> bucket option"
  sp_wr :: "bytes \<Rightarrow> write_allow option"

definition new_policy :: svc_policy where
  "new_policy = \<lparr>sp_active = None, sp_req = (\<lambda>_. None), sp_route = (\<lambda>_. None), sp_wr = (\<lambda>_. None)\<rparr>"

text \<open>The tables of \<open>newState\<close>: a later principal or key replaces an earlier one of its name.\<close>

definition by_id :: "svc_config \<Rightarrow> bytes \<Rightarrow> principal_config option" where
  "by_id c i = find (\<lambda>p. pc_id p = i) (rev (sc_principals c))"

definition by_sub :: "svc_config \<Rightarrow> bytes \<Rightarrow> principal_config option" where
  "by_sub c s = find (\<lambda>p. pc_kind p = KindOidc \<and> pc_sub p = s) (rev (sc_principals c))"

definition by_key_id :: "svc_config \<Rightarrow> bytes \<Rightarrow> (principal_config \<times> bytes) option" where
  "by_key_id c i = map_option (\<lambda>(p, k). (p, kc_digest k))
     (find (\<lambda>(p, k). kc_id k = i) (rev (concat (map (\<lambda>p. map (Pair p) (pc_keys p)) (sc_principals c)))))"

definition staging_writers :: "svc_config \<Rightarrow> bytes list" where
  "staging_writers c = sort (map pc_id (filter (\<lambda>p. pc_env p = EnvStaging \<and> pc_writer p) (sc_principals c)))"

definition is_writer :: "svc_config \<Rightarrow> bytes \<Rightarrow> bool" where
  "is_writer c i = (case by_id c i of None \<Rightarrow> False | Some p \<Rightarrow> pc_writer p)"

section \<open>Operations\<close>

definition prune :: "svc_config \<Rightarrow> svc_policy \<Rightarrow> svc_policy" where
  "prune c p = p\<lparr>sp_req := (\<lambda>i. if by_id c i = None then None else sp_req p i),
     sp_route := (\<lambda>k. if by_id c (fst k) = None then None else sp_route p k),
     sp_wr := (\<lambda>i. if is_writer c i then sp_wr p i else None)\<rparr>"

definition activate :: "svc_config \<Rightarrow> svc_policy \<Rightarrow> svc_policy" where
  "activate c p = p\<lparr>sp_active := Some c\<rparr>"

definition install :: "svc_config \<Rightarrow> svc_policy \<Rightarrow> svc_policy" where
  "install c p = prune c (activate c p)"

definition policy_principal :: "svc_policy \<Rightarrow> bytes \<Rightarrow> principal option" where
  "policy_principal p i = (case sp_active p of None \<Rightarrow> None | Some c \<Rightarrow> map_option pc_principal (by_id c i))"

definition policy_frozen :: "svc_policy \<Rightarrow> bool" where
  "policy_frozen p = (case sp_active p of None \<Rightarrow> True | Some c \<Rightarrow> sc_frozen c)"

definition policy_golive :: "svc_policy \<Rightarrow> int option" where
  "policy_golive p = (case sp_active p of None \<Rightarrow> None | Some c \<Rightarrow> sc_golive c)"

definition policy_staging_writers :: "svc_policy \<Rightarrow> bytes list" where
  "policy_staging_writers p = (case sp_active p of None \<Rightarrow> [] | Some c \<Rightarrow> staging_writers c)"

text \<open>\<open>pc\<close>: the principal the request was authenticated as, of the configuration that was active then.\<close>

definition allow_request :: "int \<Rightarrow> principal_config \<Rightarrow> svc_policy \<Rightarrow> (int \<times> bool) \<times> svc_policy" where
  "allow_request now pc p =
     (let b = (case sp_req p (pc_id pc) of None \<Rightarrow> new_bucket | Some b \<Rightarrow> b) in
      case draw_token now (of_int (pc_rpm pc) / 60) (of_int (pc_burst pc)) b of
        (r, b) \<Rightarrow> (r, p\<lparr>sp_req := (sp_req p)(pc_id pc := Some b)\<rparr>))"

definition allow_route :: "int \<Rightarrow> bytes \<Rightarrow> bytes \<Rightarrow> int \<Rightarrow> svc_policy \<Rightarrow> (int \<times> bool) \<times> svc_policy" where
  "allow_route now i pattern per_min p =
     (let b = (case sp_route p (i, pattern) of None \<Rightarrow> new_bucket | Some b \<Rightarrow> b) in
      case draw_token now (of_int per_min / 60) (of_int per_min) b of
        (r, b) \<Rightarrow> (r, p\<lparr>sp_route := (sp_route p)((i, pattern) := Some b)\<rparr>))"

definition day_ns :: int where "day_ns = 86400 * 10 ^ 9"

definition day_number :: "int \<Rightarrow> int" where "day_number now = now div day_ns"

definition next_utc_midnight :: "int \<Rightarrow> int" where
  "next_utc_midnight now = (day_number now + 1) * day_ns"

definition write_budget_of :: "int \<Rightarrow> bytes \<Rightarrow> svc_policy \<Rightarrow> write_allow" where
  "write_budget_of now i p =
     (let b = (case sp_wr p i of None \<Rightarrow> \<lparr>wb_hour = new_bucket, wb_day = None, wb_used = 0\<rparr> | Some b \<Rightarrow> b) in
      if wb_day b \<noteq> Some (day_number now) then b\<lparr>wb_day := Some (day_number now), wb_used := 0\<rparr> else b)"

text \<open>The critical section of \<open>ChargeWrite\<close> for a principal that may write.\<close>

definition charge_allow :: "int \<Rightarrow> principal_config \<Rightarrow> write_allow \<Rightarrow> (int \<times> bool) \<times> write_allow" where
  "charge_allow now c b =
     (let rate = of_int (pc_writes_per_hour c) / 3600;
          b = b\<lparr>wb_hour := refill now rate (of_int (pc_writes_burst c)) (wb_hour b)\<rparr>;
          spent = (pc_writes_per_day c \<le> wb_used b);
          dry = (bk_tokens (wb_hour b) < 1);
          retry = (if spent then next_utc_midnight now - now else 0);
          retry = (if dry then max retry (bucket_wait rate (wb_hour b)) else retry) in
      if spent \<or> dry then ((retry, False), b)
      else ((0, True), b\<lparr>wb_hour := (wb_hour b)\<lparr>bk_tokens := bk_tokens (wb_hour b) - 1\<rparr>, wb_used := wb_used b + 1\<rparr>))"

text \<open>\<open>ChargeWrite\<close> and \<open>WritesExhausted\<close>, with the configuration \<open>st\<close> that the call loaded before it took the lock.\<close>

definition writer_of :: "svc_config option \<Rightarrow> bytes \<Rightarrow> principal_config option" where
  "writer_of st i = (case st of None \<Rightarrow> None | Some c \<Rightarrow>
     (case by_id c i of None \<Rightarrow> None | Some pc \<Rightarrow> if pc_writer pc then Some pc else None))"

definition spend_write :: "svc_config option \<Rightarrow> int \<Rightarrow> bytes \<Rightarrow> svc_policy \<Rightarrow> (int \<times> bool) \<times> svc_policy" where
  "spend_write st now i p = (case writer_of st i of None \<Rightarrow> ((0, False), p)
     | Some c \<Rightarrow> (case charge_allow now c (write_budget_of now i p) of (r, b) \<Rightarrow> (r, p\<lparr>sp_wr := (sp_wr p)(i := Some b)\<rparr>)))"

definition writes_exhausted :: "svc_config option \<Rightarrow> int \<Rightarrow> bytes \<Rightarrow> svc_policy \<Rightarrow> bool \<times> svc_policy" where
  "writes_exhausted st now i p = (case writer_of st i of None \<Rightarrow> (True, p)
     | Some c \<Rightarrow> (let b = write_budget_of now i p in
         (pc_writes_per_day c \<le> wb_used b, p\<lparr>sp_wr := (sp_wr p)(i := Some b)\<rparr>)))"

text \<open>What the handlers of the article store are told at \<open>now\<close>: the interface of \<open>ArtPolicy\<close>, given by this policy.\<close>

definition policy_view :: "int \<Rightarrow> svc_policy \<Rightarrow> policy" where
  "policy_view now p = \<lparr>po_principal = policy_principal p, po_frozen = policy_frozen p,
     po_charge = (\<lambda>i. snd (fst (spend_write (sp_active p) now i p))), po_exhausted = (\<lambda>i. fst (writes_exhausted (sp_active p) now i p)),
     po_staging_writers = policy_staging_writers p, po_golive = (policy_golive p \<noteq> None)\<rparr>"

section \<open>Runs\<close>

text \<open>
  The operations in the order the locks give them; the flag is the answer of the three that draw. The two halves of
  \<open>Install\<close> are steps of their own, because other calls may come between them, and a write carries the configuration it
  loaded, which need not be the active one any more.
\<close>

datatype policy_op = Activate svc_config | Prune svc_config | Request int principal_config | RouteHit int bytes bytes int
  | SpendWrite "svc_config option" int bytes | AskExhausted "svc_config option" int bytes

fun policy_step :: "policy_op \<Rightarrow> svc_policy \<Rightarrow> bool \<times> svc_policy" where
  "policy_step (Activate c) p = (False, activate c p)"
| "policy_step (Prune c) p = (False, prune c p)"
| "policy_step (Request now pc) p = (case allow_request now pc p of ((_, ok), p') \<Rightarrow> (ok, p'))"
| "policy_step (RouteHit now i pattern n) p = (case allow_route now i pattern n p of ((_, ok), p') \<Rightarrow> (ok, p'))"
| "policy_step (SpendWrite st now i) p = (case spend_write st now i p of ((_, ok), p') \<Rightarrow> (ok, p'))"
| "policy_step (AskExhausted st now i) p = (False, snd (writes_exhausted st now i p))"

definition policy_after :: "policy_op list \<Rightarrow> svc_policy \<Rightarrow> svc_policy" where
  "policy_after ops p = fold (\<lambda>op p. snd (policy_step op p)) ops p"

text \<open>The number of operations of a kind that a run answers with yes.\<close>

fun granted :: "('op \<Rightarrow> 's \<Rightarrow> bool \<times> 's) \<Rightarrow> ('op \<Rightarrow> bool) \<Rightarrow> 'op list \<Rightarrow> 's \<Rightarrow> nat" where
  "granted step counts [] s = 0"
| "granted step counts (op # ops) s =
     (if counts op \<and> fst (step op s) then 1 else 0) + granted step counts ops (snd (step op s))"

end
