(* ===== verification/SvcConfigOk.thy ===== *)
theory SvcConfigOk
  imports SvcConfig
begin

text \<open>What the validation of the service configuration guarantees.\<close>

definition identity_ok :: "principal_config \<Rightarrow> bool" where
  "identity_ok p = (case pc_kind p of
     KindOidc \<Rightarrow> sub_pattern (pc_sub p) \<and> email_pattern (pc_email p) \<and> pc_keys p = []
   | KindKey \<Rightarrow> pc_sub p = [] \<and> pc_email p = [] \<and> length (pc_keys p) \<in> {1, 2} \<and> (\<forall>k \<in> set (pc_keys p). key_id_pattern (kc_id k)))"

definition scopes_ok :: "principal_config \<Rightarrow> bool" where
  "scopes_ok p = (pc_scopes p \<noteq> [] \<and> distinct (pc_scopes p) \<and> set (pc_scopes p) \<subseteq> set (allowed_scopes (pc_kind p))
     \<and> (ArticlesAdmin \<in> set (pc_scopes p) \<longrightarrow> pc_scopes p = [ArticlesAdmin] \<and> pc_env p = EnvProd)
     \<and> ((\<exists>s \<in> set (pc_scopes p). community_scope s) \<longrightarrow> (\<forall>s \<in> set (pc_scopes p). community_scope s) \<and> pc_env p = EnvProd))"

definition limits_ok :: "principal_config \<Rightarrow> bool" where
  "limits_ok p = (1 \<le> pc_burst p \<and> pc_burst p \<le> pc_rpm p \<and> pc_rpm p \<le> 6000
     \<and> (if pc_writer p then 1 \<le> pc_writes_burst p \<and> pc_writes_burst p \<le> pc_writes_per_hour p \<and> pc_writes_per_hour p \<le> 600
           \<and> 1 \<le> pc_writes_per_day p \<and> pc_writes_per_day p \<le> 5000
         else pc_writes_per_hour p = 0 \<and> pc_writes_burst p = 0 \<and> pc_writes_per_day p = 0)
     \<and> (pc_counts_reads p \<longrightarrow> ArticlesRead \<in> set (pc_scopes p) \<and> pc_env p = EnvProd))"

definition principal_ok :: "principal_config \<Rightarrow> bool" where
  "principal_ok p = (id_pattern (pc_id p) \<and> identity_ok p \<and> pc_env p \<in> {EnvProd, EnvStaging} \<and> scopes_ok p \<and> limits_ok p)"

definition oidc_principals :: "svc_config \<Rightarrow> principal_config list" where
  "oidc_principals c = filter (\<lambda>p. pc_kind p = KindOidc) (sc_principals c)"

definition config_keys :: "svc_config \<Rightarrow> key_config list" where
  "config_keys c = concat (map pc_keys (sc_principals c))"

definition config_ok :: "svc_checks \<Rightarrow> svc_config \<Rightarrow> bool" where
  "config_ok k c = (length (sc_principals c) \<in> {1..64} \<and> (\<forall>p \<in> set (sc_principals c). principal_ok p)
     \<and> distinct (map pc_id (sc_principals c)) \<and> distinct (map pc_sub (oidc_principals c)) \<and> distinct (map pc_email (oidc_principals c))
     \<and> distinct (map kc_id (config_keys c)) \<and> (\<forall>x \<in> set (config_keys c). \<not> collides k (kc_digest x))
     \<and> 1 \<le> sc_fail_per_minute c \<and> sc_fail_per_minute c \<le> 600 \<and> 1 \<le> sc_fail_burst c \<and> sc_fail_burst c \<le> 100)"

text \<open>Cutting a chain of checks: when it ends in a value, every check has passed.\<close>

lemma checks_pass:
  assumes "(case first_err cs of Some x \<Rightarrow> Inl (g x) | None \<Rightarrow> f) = Inr v"
  shows "\<forall>(bad, m) \<in> set cs. \<not> bad" "f = Inr v"
  using assms first_err_None [of cs] by (auto split: option.splits)

lemmas plain_checks = checks_pass [where g = "\<lambda>x. x"]

lemma not_out_of_range: "\<not> out_of_range v lo hi \<Longrightarrow> lo \<le> n \<Longrightarrow> n \<le> hi \<Longrightarrow> lo \<le> or_default v n \<and> or_default v n \<le> hi"
  by (auto simp: out_of_range_def or_default_def split: option.splits)

lemma or_default_Some [simp]: "or_default (Some n) m = n"
  by (simp add: or_default_def)

lemma read_scopes_distinct: "read_scopes vs ss = Inr rs \<Longrightarrow> distinct ss \<Longrightarrow> distinct rs \<and> length rs = length ss + length vs"
  by (induction vs arbitrary: ss) (fastforce split: option.splits if_splits)+

lemma check_scopes_ok:
  assumes "check_scopes kind env ss = None" "ss \<noteq> []" "distinct ss" "pc_kind p = kind" "pc_env p = env" "pc_scopes p = ss"
  shows "scopes_ok p"
proof -
  have c: "\<forall>s \<in> set ss. s \<in> set (allowed_scopes kind)" "\<not> (ArticlesAdmin \<in> set ss \<and> (length ss \<noteq> 1 \<or> kind \<noteq> KindKey \<or> env \<noteq> EnvProd))"
    "\<not> (list_ex community_scope ss \<and> list_ex (\<lambda>s. \<not> community_scope s) ss)" "\<not> (list_ex community_scope ss \<and> env \<noteq> EnvProd)"
    using assms(1) [unfolded check_scopes_def first_err_None] by (simp_all add: list_ex_iff)
  have "ss = [ArticlesAdmin]" if "ArticlesAdmin \<in> set ss" "length ss = 1" using that by (cases ss) auto
  then show ?thesis using c assms(2-6) unfolding scopes_ok_def by (simp add: list_ex_iff subset_iff) blast
qed

lemma validate_key_ok:
  assumes "validate_key k = Inr c"
  shows "key_id_pattern (kc_id c)"
  using plain_checks [OF assms [unfolded validate_key_def]] by auto

lemma validate_keys_ok: "validate_keys j ks = Inr cs \<Longrightarrow> length cs = length ks \<and> (\<forall>c \<in> set cs. key_id_pattern (kc_id c))"
  by (induction ks arbitrary: j cs) (auto split: sum.splits dest: validate_key_ok)

lemma validate_identity_ok:
  assumes "validate_identity kind r = Inr (sub, email, keys)" "pc_kind p = kind" "pc_sub p = sub" "pc_email p = email" "pc_keys p = keys"
  shows "identity_ok p"
proof (cases kind)
  case KindOidc
  note c = plain_checks [OF assms(1) [unfolded validate_identity_def KindOidc service_kind.case]]
  with assms KindOidc show ?thesis by (auto simp: identity_ok_def)
next
  case KindKey
  note c = plain_checks [OF assms(1) [unfolded validate_identity_def KindKey service_kind.case]]
  from c(1) obtain ks where ks: "rp_keys r = Some ks" "1 \<le> length ks" "length ks \<le> 2" by (cases "rp_keys r") (auto simp: linorder_not_less Suc_le_eq)
  with c(2) validate_keys_ok [of 0 ks] assms KindKey show ?thesis by (auto simp: identity_ok_def split: sum.splits)
qed

lemma write_limits_ok:
  assumes "write_limits r = Inr (wph, wb, wpd)"
  shows "1 \<le> wb \<and> wb \<le> wph \<and> wph \<le> 600 \<and> 1 \<le> wpd \<and> wpd \<le> 5000"
proof -
  note c = plain_checks [OF assms [unfolded write_limits_def Let_def]]
  define h where "h = or_default (rp_writes_per_hour r) 30"
  have v: "wph = h" "wb = or_default (rp_writes_burst r) (min 10 h)" "wpd = or_default (rp_writes_per_day r) 150" using c(2) unfolding h_def by (metis Inr_inject prod.inject)+
  have o: "\<not> out_of_range (rp_writes_per_hour r) 1 600" "\<not> out_of_range (rp_writes_burst r) 1 h" "\<not> out_of_range (rp_writes_per_day r) 1 5000"
    using c(1) by (simp_all add: h_def)
  have "1 \<le> h \<and> h \<le> 600" using not_out_of_range [OF o(1), of 30] by (simp add: h_def)
  with not_out_of_range [OF o(2), of "min 10 h"] not_out_of_range [OF o(3), of 150] show ?thesis by (simp add: v)
qed

lemma validate_limits_ok:
  assumes "validate_limits r q = Inr p"
  shows "limits_ok p" "pc_id p = pc_id q" "pc_kind p = pc_kind q" "pc_sub p = pc_sub q" "pc_email p = pc_email q" "pc_keys p = pc_keys q"
    "pc_env p = pc_env q" "pc_scopes p = pc_scopes q"
proof -
  note c = plain_checks [OF assms [unfolded validate_limits_def]]
  obtain rpm where rpm: "rp_rpm r = Some rpm" "1 \<le> rpm" "rpm \<le> 6000" using c(1) by (auto simp: out_of_range_def linorder_not_less)
  have burst: "1 \<le> or_default (rp_burst r) ((rpm + 3) div 4) \<and> or_default (rp_burst r) ((rpm + 3) div 4) \<le> rpm"
    by (rule not_out_of_range) (use c(1) rpm in \<open>auto simp: or_default_def\<close>)
  define q1 where "q1 = q\<lparr>pc_rpm := rpm, pc_burst := or_default (rp_burst r) ((rpm + 3) div 4)\<rparr>"
  have w: "pc_writer q1 = pc_writer q" by (simp add: q1_def pc_writer_def)
  from c(2) [unfolded Let_def] rpm(1) obtain wph wb wpd where
    m: "(if pc_writer q1 then write_limits r
        else if rp_writes_per_hour r \<noteq> None \<or> rp_writes_burst r \<noteq> None \<or> rp_writes_per_day r \<noteq> None
          then Inl (CfgErr ''writes_*: only allowed with articles:write or articles:stub'') else Inr (0, 0, 0)) = Inr (wph, wb, wpd)"
    and n: "\<not> (rp_counts_reads r = Some True \<and> (ArticlesRead \<notin> set (pc_scopes q) \<or> pc_env q \<noteq> EnvProd))"
    and p: "p = q1\<lparr>pc_writes_per_hour := wph, pc_writes_burst := wb, pc_writes_per_day := wpd, pc_counts_reads := (rp_counts_reads r = Some True)\<rparr>"
    by (simp flip: q1_def split: sum.splits) (auto simp: q1_def split: if_split_asm prod.splits)
  show "pc_id p = pc_id q" "pc_kind p = pc_kind q" "pc_sub p = pc_sub q" "pc_email p = pc_email q" "pc_keys p = pc_keys q"
    "pc_env p = pc_env q" "pc_scopes p = pc_scopes q" by (simp_all add: p q1_def)
  have pw: "pc_writer p = pc_writer q" by (simp add: p q1_def pc_writer_def)
  show "limits_ok p"
  proof (cases "pc_writer q")
    case True
    with m w have "write_limits r = Inr (wph, wb, wpd)" by simp
    from write_limits_ok [OF this] show ?thesis using True burst rpm n pw by (simp add: limits_ok_def p q1_def)
  next
    case False
    with m w have "wph = 0" "wb = 0" "wpd = 0" by (auto split: if_splits)
    with False burst rpm n pw show ?thesis by (simp add: limits_ok_def p q1_def)
  qed
qed

lemma validate_principal_ok:
  assumes "validate_principal r = Inr p"
  shows "principal_ok p"
proof -
  note a = plain_checks [OF assms [unfolded validate_principal_def]]
  from a obtain kind where kind: "parse_kind (or_empty (rp_kind r)) = Some kind" by auto
  from a(2) obtain sub email keys where idn: "validate_identity kind r = Inr (sub, email, keys)" by (auto simp: kind split: sum.splits)
  note b = plain_checks [OF a(2) [unfolded kind option.case idn sum.case prod.case]]
  from b(1) obtain env vs where env: "parse_env (or_empty (rp_env r)) = Some env" and vs: "rp_scopes r = Some vs" "vs \<noteq> []" by auto
  from b(2) obtain ss where ss: "read_scopes vs [] = Inr ss" by (auto simp: env vs split: sum.splits)
  from b(2) have cs: "check_scopes kind env ss = None" by (auto simp: env vs ss split: option.splits)
  define q where "q = \<lparr>pc_id = or_empty (rp_id r), pc_kind = kind, pc_sub = sub, pc_email = email, pc_keys = keys, pc_env = env, pc_scopes = ss,
                   pc_rpm = 0, pc_burst = 0, pc_writes_per_hour = 0, pc_writes_burst = 0, pc_writes_per_day = 0, pc_counts_reads = False\<rparr>"
  from b(2) have "validate_limits r q = Inr p" by (simp add: env vs ss cs q_def)
  note l = validate_limits_ok [OF this]
  have "ss \<noteq> []" "distinct ss" using read_scopes_distinct [OF ss] vs(2) by auto
  then have "scopes_ok p" by (intro check_scopes_ok [OF cs]) (simp_all add: l q_def)
  moreover have "identity_ok p" by (rule validate_identity_ok [OF idn]) (simp_all add: l q_def)
  moreover have "env \<in> {EnvProd, EnvStaging}" using env by (auto simp: parse_env_def split: if_splits)
  moreover have "id_pattern (or_empty (rp_id r))" using a(1) by simp
  ultimately show ?thesis using l by (simp add: principal_ok_def q_def)
qed

lemma add_keys_ok:
  assumes "add_keys c i j ks seen = Inr seen'"
  shows "distinct (map kc_id ks) \<and> kc_id ` set ks \<inter> set seen = {} \<and> set seen' = kc_id ` set ks \<union> set seen \<and> (\<forall>k \<in> set ks. \<not> collides c (kc_digest k))"
  using assms
proof (induction ks arbitrary: j seen)
  case (Cons k ks)
  then have s: "kc_id k \<notin> set seen" "\<not> collides c (kc_digest k)" "add_keys c i (j + 1) ks (kc_id k # seen) = Inr seen'" by (auto split: if_splits)
  from Cons.IH [OF s(3)] s show ?case by auto
qed simp

text \<open>Principals that are valid, pairwise distinct, and distinct from those before them.\<close>

definition fresh_principals :: "svc_checks \<Rightarrow> bytes list \<Rightarrow> bytes list \<Rightarrow> bytes list \<Rightarrow> bytes list \<Rightarrow> principal_config list \<Rightarrow> bool" where
  "fresh_principals c ids subs emails keys ps = ((\<forall>p \<in> set ps. principal_ok p)
    \<and> distinct (map pc_id ps) \<and> pc_id ` set ps \<inter> set ids = {}
    \<and> distinct (map pc_sub (filter (\<lambda>p. pc_kind p = KindOidc) ps)) \<and> pc_sub ` {p \<in> set ps. pc_kind p = KindOidc} \<inter> set subs = {}
    \<and> distinct (map pc_email (filter (\<lambda>p. pc_kind p = KindOidc) ps)) \<and> pc_email ` {p \<in> set ps. pc_kind p = KindOidc} \<inter> set emails = {}
    \<and> distinct (map kc_id (concat (map pc_keys ps))) \<and> kc_id ` set (concat (map pc_keys ps)) \<inter> set keys = {}
    \<and> (\<forall>k \<in> set (concat (map pc_keys ps)). \<not> collides c (kc_digest k)))"

lemma fresh_field_Cons:
  assumes "P p \<Longrightarrow> f p \<notin> set old" "distinct (map f (filter P qs))" "f ` {x \<in> set qs. P x} \<inter> set (if P p then f p # old else old) = {}"
  shows "distinct (map f (filter P (p # qs))) \<and> f ` {x \<in> set (p # qs). P x} \<inter> set old = {}"
  using assms by (cases "P p") auto

lemma fresh_keys_Cons:
  assumes "distinct (map kc_id ks)" "kc_id ` set ks \<inter> set keys = {}" "set keys' = kc_id ` set ks \<union> set keys"
    and "distinct (map kc_id ls)" "kc_id ` set ls \<inter> set keys' = {}"
  shows "distinct (map kc_id (ks @ ls)) \<and> kc_id ` set (ks @ ls) \<inter> set keys = {}"
  using assms by (auto simp: distinct_append)

lemma add_principals_ok:
  assumes "add_principals c i rs ids subs emails keys = Inr ps"
  shows "length ps = length rs \<and> fresh_principals c ids subs emails keys ps"
  using assms
proof (induction rs arbitrary: i ids subs emails keys ps)
  case (Cons r rs)
  obtain p where p: "validate_principal r = Inr p" using Cons.prems by (auto split: sum.splits)
  note a = checks_pass [OF Cons.prems [unfolded add_principals.simps p sum.case]]
  from a(2) obtain keys' where k: "add_keys c i 0 (pc_keys p) keys = Inr keys'" by (auto split: sum.splits)
  from a(2) obtain qs where q: "add_principals c (i + 1) rs (pc_id p # ids) (if pc_kind p = KindOidc then pc_sub p # subs else subs)
      (if pc_kind p = KindOidc then pc_email p # emails else emails) keys' = Inr qs" "ps = p # qs" by (auto simp: k split: sum.splits)
  note ih = Cons.IH [OF q(1), unfolded fresh_principals_def] and ks = add_keys_ok [OF k]
  have new: "pc_id p \<notin> set ids" "pc_kind p = KindOidc \<Longrightarrow> pc_sub p \<notin> set subs \<and> pc_email p \<notin> set emails" using a(1) by auto
  have ok: "principal_ok p" by (rule validate_principal_ok [OF p])
  have q': "distinct (map kc_id (concat (map pc_keys qs)))" "kc_id ` set (concat (map pc_keys qs)) \<inter> set keys' = {}"
    "\<forall>k \<in> set (concat (map pc_keys qs)). \<not> collides c (kc_digest k)" using ih by blast+
  have d: "distinct (map kc_id (concat (map pc_keys (p # qs)))) \<and> kc_id ` set (concat (map pc_keys (p # qs))) \<inter> set keys = {}"
    unfolding list.map concat.simps by (rule fresh_keys_Cons [OF _ _ _ q'(1,2)]) (use ks in blast)+
  have c: "\<forall>k \<in> set (concat (map pc_keys (p # qs))). \<not> collides c (kc_digest k)" using q'(3) ks by simp blast
  have s: "distinct (map pc_sub (filter (\<lambda>p. pc_kind p = KindOidc) (p # qs))) \<and> pc_sub ` {x \<in> set (p # qs). pc_kind x = KindOidc} \<inter> set subs = {}"
    by (rule fresh_field_Cons) (use ih new(2) in blast)+
  have e: "distinct (map pc_email (filter (\<lambda>p. pc_kind p = KindOidc) (p # qs))) \<and> pc_email ` {x \<in> set (p # qs). pc_kind x = KindOidc} \<inter> set emails = {}"
    by (rule fresh_field_Cons) (use ih new(2) in blast)+
  have "length (p # qs) = length (r # rs) \<and> fresh_principals c ids subs emails keys (p # qs)"
    unfolding fresh_principals_def using ih new(1) ok d c s e by (elim conjE) (intro conjI; (assumption | simp))
  then show ?case by (simp add: q(2))
qed (simp add: fresh_principals_def)

text \<open>A file that passes becomes a configuration in which every rule holds.\<close>

lemma validate_config_ok:
  assumes "validate_config d c r = Inr cfg"
  shows "config_ok c cfg"
proof -
  note a = plain_checks [OF assms [unfolded validate_config_def Let_def]]
  define ps where "ps = (case rc_principals r of None \<Rightarrow> [] | Some ps \<Rightarrow> ps)"
  define fail where "fail = (case rc_fail r of None \<Rightarrow> (None, None) | Some f \<Rightarrow> f)"
  from a(2) obtain cs where cs: "add_principals c 0 ps [] [] [] [] = Inr cs" by (auto simp: ps_def split: sum.splits)
  from a(2) have cfg: "sc_principals cfg = cs" "sc_fail_per_minute cfg = or_default (fst fail) 30" "sc_fail_burst cfg = or_default (snd fail) 10"
    by (auto simp: cs ps_def [symmetric] fail_def)
  have n: "1 \<le> length ps" "length ps \<le> 64" "\<not> out_of_range (fst fail) 1 600" "\<not> out_of_range (snd fail) 1 100"
    using a(1) by (simp_all add: ps_def [symmetric] fail_def [symmetric] linorder_not_less Suc_le_eq)
  show ?thesis
    using add_principals_ok [OF cs] n(1,2) not_out_of_range [OF n(3), of 30] not_out_of_range [OF n(4), of 10]
    unfolding fresh_principals_def config_ok_def oidc_principals_def config_keys_def cfg by simp
qed

end
