(* ===== verification/SvcBudget.thy ===== *)
theory SvcBudget
  imports SvcPolicy SvcConfigOk
begin

text \<open>
  The limits of the service bound what a principal can do: requests and writes per time, writes per day. A credit pays for
  every grant, and what a window of time can add to it is bounded.
\<close>

section \<open>Paying for grants\<close>

locale metered =
  fixes step :: "'op \<Rightarrow> 's \<Rightarrow> bool \<times> 's" and counts :: "'op \<Rightarrow> bool" and inside :: "'op \<Rightarrow> bool"
    and ok :: "'s \<Rightarrow> bool" and credit :: "'s \<Rightarrow> rat" and bound :: rat
  assumes keeps: "ok s \<Longrightarrow> inside op \<Longrightarrow> ok (snd (step op s))"
    and pays: "ok s \<Longrightarrow> inside op \<Longrightarrow> credit (snd (step op s)) + (if counts op \<and> fst (step op s) then 1 else 0) \<le> credit s"
    and solvent: "ok s \<Longrightarrow> 0 \<le> credit s"
    and starts: "ok s \<Longrightarrow> credit s \<le> bound"
begin

lemma grants_paid: "ok s \<Longrightarrow> \<forall>op \<in> set ops. inside op \<Longrightarrow> of_nat (granted step counts ops s) \<le> credit s"
proof (induction ops arbitrary: s)
  case Nil
  then show ?case by (simp add: solvent)
next
  case (Cons op ops)
  have "of_nat (granted step counts ops (snd (step op s))) \<le> credit (snd (step op s))"
    by (rule Cons.IH) (use Cons.prems in \<open>auto intro: keeps\<close>)
  then show ?case using pays [of s op] Cons.prems by auto
qed

lemma grants_bounded: "ok s \<Longrightarrow> \<forall>op \<in> set ops. inside op \<Longrightarrow> of_nat (granted step counts ops s) \<le> bound"
  using grants_paid starts order_trans by blast

end

section \<open>Credit of a bucket\<close>

text \<open>What a bucket can still give until \<open>b\<close> when nothing is drawn before \<open>a\<close>.\<close>

definition level_at :: "int \<Rightarrow> rat \<Rightarrow> rat \<Rightarrow> bucket \<Rightarrow> rat" where
  "level_at a rate capacity b = (if bk_primed b then min capacity (bk_tokens b + seconds (max 0 (a - bk_last b)) * rate) else capacity)"

definition bucket_credit :: "int \<Rightarrow> int \<Rightarrow> rat \<Rightarrow> rat \<Rightarrow> bucket \<Rightarrow> rat" where
  "bucket_credit a z rate capacity b = level_at a rate capacity b
     + seconds (max 0 (z - (if bk_primed b then max a (bk_last b) else a))) * rate"

definition bucket_ok :: "bucket \<Rightarrow> bool" where
  "bucket_ok b = (0 \<le> bk_tokens b)"

lemma seconds_mono: "x \<le> y \<Longrightarrow> seconds x \<le> seconds y"
  by (simp add: seconds_def divide_right_mono)

lemma seconds_nonneg [simp]: "(0 \<le> seconds x) = (0 \<le> x)" "(0 < seconds x) = (0 < x)"
  by (simp_all add: seconds_def zero_le_divide_iff zero_less_divide_iff)

lemma seconds_add: "seconds (x + y) = seconds x + seconds y"
  by (simp add: seconds_def add_divide_distrib)

lemma seconds_zero [simp]: "seconds 0 = 0"
  by (simp add: seconds_def)

lemma refill_fields:
  assumes "0 \<le> rate" "0 \<le> capacity" "bucket_ok b"
  shows "bucket_ok (refill now rate capacity b)" "bk_primed (refill now rate capacity b)"
    "bk_tokens (refill now rate capacity b) \<le> capacity"
  using assms by (auto simp: refill_def bucket_ok_def Let_def)

lemma refill_never_earns:
  assumes "0 \<le> rate" "a \<le> now" "now \<le> z"
  shows "bucket_credit a z rate capacity (refill now rate capacity b) \<le> bucket_credit a z rate capacity b"
proof (cases "bk_primed b")
  case False
  have "seconds (z - now) * rate \<le> seconds (z - a) * rate" using assms by (intro mult_right_mono seconds_mono) simp_all
  then show ?thesis using assms False by (simp add: bucket_credit_def level_at_def refill_def)
next
  case True
  show ?thesis
  proof (cases "bk_last b < now")
    case False
    then show ?thesis using assms True by (simp add: bucket_credit_def level_at_def refill_def Let_def)
  next
    case later: True
    define x where "x = bk_tokens b + seconds (max 0 (a - bk_last b)) * rate"
    define g where "g = seconds (now - max a (bk_last b)) * rate"
    have "seconds (now - bk_last b) = seconds (max 0 (a - bk_last b)) + seconds (now - max a (bk_last b))"
      using later assms unfolding seconds_add [symmetric] by (intro arg_cong [where f = seconds]) linarith
    then have t: "bk_tokens b + seconds (now - bk_last b) * rate = x + g" by (simp add: x_def g_def algebra_simps)
    have "seconds (z - max a (bk_last b)) = seconds (now - max a (bk_last b)) + seconds (z - now)"
      using later assms unfolding seconds_add [symmetric] by (intro arg_cong [where f = seconds]) linarith
    then have "seconds (z - max a (bk_last b)) * rate = g + seconds (z - now) * rate" by (simp add: g_def algebra_simps)
    moreover have "0 \<le> g" unfolding g_def using assms later by (intro mult_nonneg_nonneg) simp_all
    moreover have "bucket_credit a z rate capacity b = min capacity x + seconds (z - max a (bk_last b)) * rate"
      using assms later True by (simp add: bucket_credit_def level_at_def x_def max_def)
    moreover have "bucket_credit a z rate capacity (refill now rate capacity b) = min (x + g) capacity + seconds (z - now) * rate"
      using assms later True t by (simp add: bucket_credit_def level_at_def refill_def Let_def max_def)
    ultimately show ?thesis by (simp add: min_def)
  qed
qed

lemma draw_token_cases:
  obtains "bk_tokens (refill now rate capacity b) < 1"
      "draw_token now rate capacity b = ((bucket_wait rate (refill now rate capacity b), False), refill now rate capacity b)"
  | "1 \<le> bk_tokens (refill now rate capacity b)"
      "draw_token now rate capacity b = ((0, True), (refill now rate capacity b)\<lparr>bk_tokens := bk_tokens (refill now rate capacity b) - 1\<rparr>)"
  by (cases "bk_tokens (refill now rate capacity b) < 1") (auto simp: draw_token_def Let_def)

text \<open>A bucket refilled at or after \<open>a\<close> loses exactly what is taken from it.\<close>

lemma refilled_last: "a \<le> now \<Longrightarrow> a \<le> bk_last (refill now rate capacity b)"
  by (auto simp: refill_def Let_def)

lemma credit_spent:
  assumes "a \<le> bk_last b" "bk_primed b" "bk_tokens b \<le> capacity" 
  shows "bucket_credit a z rate capacity (b\<lparr>bk_tokens := bk_tokens b - 1\<rparr>) + 1 = bucket_credit a z rate capacity b"
  using assms by (simp add: bucket_credit_def level_at_def max_def min_def)

lemma draw_pays:
  assumes "0 \<le> rate" "0 \<le> capacity" "bucket_ok b" "a \<le> now" "now \<le> z" "draw_token now rate capacity b = ((w, ok), b')"
  shows "bucket_credit a z rate capacity b' + (if ok then 1 else 0) \<le> bucket_credit a z rate capacity b" "bucket_ok b'" "bk_primed b'"
proof -
  note f = refill_fields [OF assms(1-3), of now] and e = refill_never_earns [OF assms(1,4,5), of capacity b]
  note l = refilled_last [OF assms(4), of rate capacity b]
  show "bucket_credit a z rate capacity b' + (if ok then 1 else 0) \<le> bucket_credit a z rate capacity b"
    using assms(6) e credit_spent [OF l f(2,3), of z rate] by (cases rule: draw_token_cases [of now rate capacity b]) auto
  show "bucket_ok b'" "bk_primed b'"
    using assms(6) f by (cases rule: draw_token_cases [of now rate capacity b]; auto simp: bucket_ok_def)+
qed

lemma draw_settles:
  assumes "0 \<le> rate" "0 \<le> capacity" "bucket_ok b" "a \<le> now" "now \<le> z"
  shows "bucket_credit a z rate capacity (snd (draw_token now rate capacity b)) + (if snd (fst (draw_token now rate capacity b)) then 1 else 0)
      \<le> bucket_credit a z rate capacity b"
    "bucket_ok (snd (draw_token now rate capacity b))"
  using draw_pays [OF assms, of "fst (fst (draw_token now rate capacity b))" "snd (fst (draw_token now rate capacity b))"
      "snd (draw_token now rate capacity b)"] by simp_all

lemmas draw_ok = draw_settles(2) [where a = now and z = now and now = now for now, simplified]

lemma bucket_credit_bounds:
  assumes "0 \<le> rate" "0 \<le> capacity" "bucket_ok b" "a \<le> z"
  shows "0 \<le> bucket_credit a z rate capacity b" "bucket_credit a z rate capacity b \<le> capacity + seconds (z - a) * rate"
proof -
  have "0 \<le> level_at a rate capacity b" "level_at a rate capacity b \<le> capacity"
    using assms by (auto simp: level_at_def bucket_ok_def)
  moreover have "0 \<le> seconds (max 0 (z - (if bk_primed b then max a (bk_last b) else a))) * rate"
    using assms(1) by (intro mult_nonneg_nonneg) simp_all
  moreover have "seconds (max 0 (z - (if bk_primed b then max a (bk_last b) else a))) * rate \<le> seconds (z - a) * rate"
    using assms(1,4) by (intro mult_right_mono seconds_mono) auto
  ultimately show "0 \<le> bucket_credit a z rate capacity b" "bucket_credit a z rate capacity b \<le> capacity + seconds (z - a) * rate"
    by (simp_all add: bucket_credit_def)
qed


section \<open>The limits of a principal\<close>

text \<open>Histories: the limits that reach the policy come from validated configurations.\<close>

definition policy_ok :: "svc_policy \<Rightarrow> bool" where
  "policy_ok p = ((\<forall>i b. sp_req p i = Some b \<longrightarrow> bucket_ok b) \<and> (\<forall>k b. sp_route p k = Some b \<longrightarrow> bucket_ok b)
     \<and> (\<forall>i b. sp_wr p i = Some b \<longrightarrow> bucket_ok (wb_hour b) \<and> 0 \<le> wb_used b))"

definition state_valid :: "svc_config option \<Rightarrow> bool" where
  "state_valid st = (case st of None \<Rightarrow> True | Some c \<Rightarrow> list_all principal_ok (sc_principals c))"

fun op_valid :: "policy_op \<Rightarrow> bool" where
  "op_valid (Request now pc) = principal_ok pc"
| "op_valid (RouteHit now i pattern n) = (0 \<le> n)"
| "op_valid (SpendWrite st now i) = state_valid st"
| "op_valid _ = True"

lemma by_id_Some: "by_id c i = Some p \<Longrightarrow> p \<in> set (sc_principals c) \<and> pc_id p = i"
  by (auto simp: by_id_def find_Some_iff) (metis length_rev nth_mem set_rev)

lemma writer_of_Some:
  assumes "writer_of st i = Some pc"
  shows "pc_writer pc" "pc_id pc = i" "\<exists>c. st = Some c \<and> by_id c i = Some pc"
  using assms by (auto simp: writer_of_def dest: by_id_Some split: option.splits if_splits)

lemma writer_of_valid: "writer_of st i = Some pc \<Longrightarrow> state_valid st \<Longrightarrow> principal_ok pc"
  using writer_of_Some(3) [of st i pc] by (auto simp: state_valid_def list_all_iff dest: by_id_Some)

lemma limits_nonneg:
  assumes "principal_ok pc"
  shows "0 \<le> pc_rpm pc" "0 \<le> pc_burst pc" "0 \<le> pc_writes_per_hour pc" "0 \<le> pc_writes_burst pc" "0 \<le> pc_writes_per_day pc"
  using assms by (auto simp: principal_ok_def limits_ok_def split: if_splits)

lemma new_bucket_ok [simp]: "bucket_ok new_bucket"
  by (simp add: bucket_ok_def new_bucket_def)

lemma draw_token_ok: "0 \<le> rate \<Longrightarrow> 0 \<le> capacity \<Longrightarrow> bucket_ok b \<Longrightarrow> draw_token now rate capacity b = (r, b') \<Longrightarrow> bucket_ok b'"
  using draw_ok [of rate capacity b now] by simp

lemma write_budget_of_ok:
  assumes "policy_ok p"
  shows "bucket_ok (wb_hour (write_budget_of now i p))" "0 \<le> wb_used (write_budget_of now i p)"
  using assms by (auto simp: write_budget_of_def policy_ok_def Let_def split: option.splits)

text \<open>The outcomes of a charge.\<close>

definition topped :: "int \<Rightarrow> principal_config \<Rightarrow> write_allow \<Rightarrow> bucket" where
  "topped now c b = refill now (of_int (pc_writes_per_hour c) / 3600) (of_int (pc_writes_burst c)) (wb_hour b)"

lemma charge_allow_cases:
  obtains (refused) w where "charge_allow now c b = ((w, False), b\<lparr>wb_hour := topped now c b\<rparr>)"
      "pc_writes_per_day c \<le> wb_used b \<or> bk_tokens (topped now c b) < 1"
  | (granted) "charge_allow now c b = ((0, True), b\<lparr>wb_hour := (topped now c b)\<lparr>bk_tokens := bk_tokens (topped now c b) - 1\<rparr>, wb_used := wb_used b + 1\<rparr>)"
      "wb_used b < pc_writes_per_day c" "1 \<le> bk_tokens (topped now c b)"
proof (cases "pc_writes_per_day c \<le> wb_used b \<or> bk_tokens (topped now c b) < 1")
  case True
  then show ?thesis by (intro refused) (auto simp: charge_allow_def Let_def topped_def)
next
  case False
  then show ?thesis by (intro granted) (auto simp: charge_allow_def Let_def topped_def)
qed

lemma charge_allow_ok:
  assumes "charge_allow now c b = (r, b')" "principal_ok c" "bucket_ok (wb_hour b)" "0 \<le> wb_used b"
  shows "bucket_ok (wb_hour b')" "0 \<le> wb_used b'"
proof -
  have "bucket_ok (topped now c b)" unfolding topped_def by (rule refill_fields) (use assms limits_nonneg [OF assms(2)] in simp_all)
  then show "bucket_ok (wb_hour b')" "0 \<le> wb_used b'"
    using assms by (cases rule: charge_allow_cases [of now c b]; auto simp: bucket_ok_def)+
qed

lemma policy_ok_step:
  assumes "policy_ok p" "op_valid op"
  shows "policy_ok (snd (policy_step op p))"
proof (cases op)
  case (Request now pc)
  define b where "b = (case sp_req p (pc_id pc) of None \<Rightarrow> new_bucket | Some b \<Rightarrow> b)"
  obtain r b' where d: "draw_token now (of_int (pc_rpm pc) / 60) (of_int (pc_burst pc)) b = (r, b')" by fastforce
  have "bucket_ok b" using assms by (auto simp: b_def policy_ok_def split: option.split)
  then have "bucket_ok b'" by (intro draw_token_ok [OF _ _ _ d]) (use assms Request limits_nonneg [of pc] in simp_all)
  with assms show ?thesis using d by (cases r) (auto simp: Request allow_request_def b_def [symmetric] policy_ok_def)
next
  case (RouteHit now i pattern n)
  define b where "b = (case sp_route p (i, pattern) of None \<Rightarrow> new_bucket | Some b \<Rightarrow> b)"
  obtain r b' where d: "draw_token now (of_int n / 60) (of_int n) b = (r, b')" by fastforce
  have "bucket_ok b" using assms by (auto simp: b_def policy_ok_def split: option.split)
  then have "bucket_ok b'" by (intro draw_token_ok [OF _ _ _ d]) (use assms RouteHit in simp_all)
  with assms show ?thesis using d by (cases r) (auto simp: RouteHit allow_route_def b_def [symmetric] policy_ok_def)
next
  case (SpendWrite st now i)
  show ?thesis
  proof (cases "writer_of st i")
    case None
    with assms show ?thesis by (simp add: SpendWrite spend_write_def)
  next
    case (Some c)
    obtain r b' where d: "charge_allow now c (write_budget_of now i p) = (r, b')" by fastforce
    have "principal_ok c" using assms SpendWrite writer_of_valid [OF Some] by simp
    note k = charge_allow_ok [OF d this write_budget_of_ok [OF assms(1)]]
    with assms show ?thesis using d by (cases r) (auto simp: SpendWrite spend_write_def Some policy_ok_def)
  qed
next
  case (AskExhausted st now i)
  then show ?thesis using assms write_budget_of_ok [OF assms(1), of now i]
    by (auto simp: writes_exhausted_def Let_def policy_ok_def split: option.split)
qed (use assms in \<open>auto simp: policy_ok_def activate_def prune_def split: if_splits\<close>)

lemma policy_after_ok: "policy_ok p \<Longrightarrow> \<forall>op \<in> set ops. op_valid op \<Longrightarrow> policy_ok (policy_after ops p)"
  by (induction ops arbitrary: p) (simp_all add: policy_after_def policy_ok_step)

lemma new_policy_ok [simp]: "policy_ok new_policy"
  by (simp add: policy_ok_def new_policy_def)

subsection \<open>Requests\<close>

definition is_request :: "bytes \<Rightarrow> policy_op \<Rightarrow> bool" where
  "is_request i op = (case op of Request now pc \<Rightarrow> pc_id pc = i | _ \<Rightarrow> False)"

text \<open>The operations of a window in which the principal keeps its place in every configuration and its limits.\<close>

definition request_window :: "int \<Rightarrow> int \<Rightarrow> bytes \<Rightarrow> int \<Rightarrow> int \<Rightarrow> policy_op \<Rightarrow> bool" where
  "request_window a z i rpm burst op = (case op of
     Request now pc \<Rightarrow> pc_id pc \<noteq> i \<or> a \<le> now \<and> now \<le> z \<and> pc_rpm pc = rpm \<and> pc_burst pc = burst
   | Prune c \<Rightarrow> by_id c i \<noteq> None | _ \<Rightarrow> True)"

definition request_bucket :: "bytes \<Rightarrow> svc_policy \<Rightarrow> bucket" where
  "request_bucket i p = (case sp_req p i of None \<Rightarrow> new_bucket | Some b \<Rightarrow> b)"

lemma request_bucket_step:
  assumes "request_window a z i rpm burst op"
  shows "request_bucket i (snd (policy_step op p)) =
      (if is_request i op then snd (draw_token (case op of Request now pc \<Rightarrow> now | _ \<Rightarrow> 0) (of_int rpm / 60) (of_int burst) (request_bucket i p))
       else request_bucket i p)"
    "is_request i op \<Longrightarrow> fst (policy_step op p) = snd (fst (draw_token (case op of Request now pc \<Rightarrow> now | _ \<Rightarrow> 0) (of_int rpm / 60) (of_int burst) (request_bucket i p)))"
  using assms by (auto simp: request_window_def is_request_def request_bucket_def allow_request_def allow_route_def spend_write_def
    writes_exhausted_def activate_def prune_def Let_def split: policy_op.splits option.splits prod.splits)

interpretation requests: metered policy_step "is_request i" "request_window a z i rpm burst"
    "\<lambda>p. 0 \<le> rpm \<and> 0 \<le> burst \<and> a \<le> z \<and> bucket_ok (request_bucket i p)"
    "\<lambda>p. bucket_credit a z (of_int rpm / 60) (of_int burst) (request_bucket i p)"
    "of_int burst + seconds (z - a) * (of_int rpm / 60)"
  for i a z rpm burst
proof (unfold_locales, goal_cases)
  case (1 p op)
  then show ?case by (auto simp: request_bucket_step(1) draw_ok)
next
  case (2 p op)
  show ?case
  proof (cases "is_request i op")
    case True
    then obtain now pc where op: "op = Request now pc" by (auto simp: is_request_def split: policy_op.splits)
    with 2 True have "a \<le> now" "now \<le> z" by (auto simp: request_window_def is_request_def)
    from draw_settles(1) [OF _ _ _ this, of "of_int rpm / 60" "of_int burst" "request_bucket i p"] 2 True show ?thesis
      by (simp add: request_bucket_step [OF 2(2)]) (auto simp: op split: if_split_asm)
  qed (use request_bucket_step [OF 2(2)] in simp)
qed (simp_all add: bucket_credit_bounds del: times_divide_eq_right)


subsection \<open>Writes\<close>

definition is_write :: "bytes \<Rightarrow> policy_op \<Rightarrow> bool" where
  "is_write i op = (case op of SpendWrite st now j \<Rightarrow> j = i | _ \<Rightarrow> False)"

definition same_limits :: "principal_config \<Rightarrow> svc_config option \<Rightarrow> bool" where
  "same_limits pc st = (case writer_of st (pc_id pc) of None \<Rightarrow> True | Some c \<Rightarrow> pc_writes_per_hour c = pc_writes_per_hour pc
     \<and> pc_writes_burst c = pc_writes_burst pc \<and> pc_writes_per_day c = pc_writes_per_day pc)"

definition write_window :: "int \<Rightarrow> int \<Rightarrow> principal_config \<Rightarrow> policy_op \<Rightarrow> bool" where
  "write_window a z pc op = (case op of
     SpendWrite st now i \<Rightarrow> i \<noteq> pc_id pc \<or> a \<le> now \<and> now \<le> z \<and> same_limits pc st
   | AskExhausted st now i \<Rightarrow> i \<noteq> pc_id pc \<or> a \<le> now \<and> now \<le> z
   | Prune c \<Rightarrow> is_writer c (pc_id pc) | _ \<Rightarrow> True)"

definition allow_of :: "bytes \<Rightarrow> svc_policy \<Rightarrow> write_allow" where
  "allow_of i p = (case sp_wr p i of None \<Rightarrow> \<lparr>wb_hour = new_bucket, wb_day = None, wb_used = 0\<rparr> | Some b \<Rightarrow> b)"

definition on_day :: "int \<Rightarrow> write_allow \<Rightarrow> write_allow" where
  "on_day now b = (if wb_day b \<noteq> Some (day_number now) then b\<lparr>wb_day := Some (day_number now), wb_used := 0\<rparr> else b)"

lemma write_budget_on_day: "write_budget_of now i p = on_day now (allow_of i p)"
  by (simp add: write_budget_of_def on_day_def allow_of_def Let_def)

text \<open>What one operation of the window does to the allowance of the principal.\<close>

lemma write_step [consumes 1]:
  assumes "write_window a z pc op"
  obtains (other) "allow_of (pc_id pc) (snd (policy_step op p)) = allow_of (pc_id pc) p" "\<not> (is_write (pc_id pc) op \<and> fst (policy_step op p))"
  | (day) now where "allow_of (pc_id pc) (snd (policy_step op p)) = on_day now (allow_of (pc_id pc) p)" "a \<le> now" "now \<le> z"
      "\<not> (is_write (pc_id pc) op \<and> fst (policy_step op p))"
  | (charge) now w ok where "charge_allow now pc (on_day now (allow_of (pc_id pc) p)) = ((w, ok), allow_of (pc_id pc) (snd (policy_step op p)))"
      "a \<le> now" "now \<le> z" "is_write (pc_id pc) op" "fst (policy_step op p) = ok"
proof (cases op)
  case (SpendWrite st now i)
  show ?thesis
  proof (cases "i = pc_id pc \<and> writer_of st i \<noteq> None")
    case True
    then obtain c where c: "writer_of st (pc_id pc) = Some c" by auto
    with assms True SpendWrite have t: "a \<le> now" "now \<le> z" and l: "same_limits pc st" by (auto simp: write_window_def)
    from l c have e: "charge_allow now c b = charge_allow now pc b" for b by (simp add: same_limits_def charge_allow_def)
    obtain w ok b where d: "charge_allow now pc (on_day now (allow_of (pc_id pc) p)) = ((w, ok), b)" by (metis prod.collapse)
    show ?thesis
      by (rule charge [of now w ok]) (use d t True c in \<open>simp_all add: SpendWrite spend_write_def e write_budget_on_day is_write_def\<close>,
        simp add: allow_of_def [of _ "p\<lparr>sp_wr := _\<rparr>"])
  qed (auto simp: SpendWrite spend_write_def allow_of_def is_write_def split: option.split prod.split intro!: other)
next
  case (AskExhausted st now i)
  show ?thesis
  proof (cases "i = pc_id pc \<and> writer_of st i \<noteq> None")
    case True
    then show ?thesis using assms AskExhausted
      by (intro day [of now]) (auto simp: AskExhausted writes_exhausted_def Let_def write_budget_on_day write_window_def is_write_def
        allow_of_def [of _ "p\<lparr>sp_wr := _\<rparr>"])
  qed (auto simp: AskExhausted writes_exhausted_def Let_def allow_of_def is_write_def split: option.split intro!: other)
qed (use assms in \<open>auto simp: allow_of_def activate_def prune_def allow_request_def allow_route_def Let_def is_write_def write_window_def
    split: prod.splits intro!: other\<close>)

lemma on_day_hour [simp]: "wb_hour (on_day now b) = wb_hour b"
  by (simp add: on_day_def)

lemma topped_on_day [simp]: "topped now c (on_day now b) = topped now c b"
  by (simp add: topped_def)

text \<open>The hour of a charge is a draw, except that a spent day draws nothing.\<close>

lemma charge_hour:
  assumes "charge_allow now c b = ((w, ok), b')" "0 \<le> pc_writes_per_hour c" "0 \<le> pc_writes_burst c" "bucket_ok (wb_hour b)" "a \<le> now" "now \<le> z"
  shows "bucket_credit a z (of_int (pc_writes_per_hour c) / 3600) (of_int (pc_writes_burst c)) (wb_hour b') + (if ok then 1 else 0)
      \<le> bucket_credit a z (of_int (pc_writes_per_hour c) / 3600) (of_int (pc_writes_burst c)) (wb_hour b)"
    "bucket_ok (wb_hour b')"
proof -
  note f = refill_fields [of "of_int (pc_writes_per_hour c) / 3600" "of_int (pc_writes_burst c)" "wb_hour b" now, folded topped_def]
  note e = refill_never_earns [of "of_int (pc_writes_per_hour c) / 3600", OF _ assms(5,6), of "of_int (pc_writes_burst c)" "wb_hour b", folded topped_def]
  note l = refilled_last [OF assms(5), of "of_int (pc_writes_per_hour c) / 3600" "of_int (pc_writes_burst c)" "wb_hour b", folded topped_def]
  show "bucket_credit a z (of_int (pc_writes_per_hour c) / 3600) (of_int (pc_writes_burst c)) (wb_hour b') + (if ok then 1 else 0)
      \<le> bucket_credit a z (of_int (pc_writes_per_hour c) / 3600) (of_int (pc_writes_burst c)) (wb_hour b)"
    using assms e f credit_spent [OF l f(2,3), of z "of_int (pc_writes_per_hour c) / 3600"] by (cases rule: charge_allow_cases [of now c b]) auto
  show "bucket_ok (wb_hour b')" using assms f by (cases rule: charge_allow_cases [of now c b]) (auto simp: bucket_ok_def)
qed

interpretation hourly: metered policy_step "is_write (pc_id pc)" "write_window a z pc"
    "\<lambda>p. 0 \<le> pc_writes_per_hour pc \<and> 0 \<le> pc_writes_burst pc \<and> a \<le> z \<and> bucket_ok (wb_hour (allow_of (pc_id pc) p))"
    "\<lambda>p. bucket_credit a z (of_int (pc_writes_per_hour pc) / 3600) (of_int (pc_writes_burst pc)) (wb_hour (allow_of (pc_id pc) p))"
    "of_int (pc_writes_burst pc) + seconds (z - a) * (of_int (pc_writes_per_hour pc) / 3600)"
  for a z pc
proof (unfold_locales, goal_cases)
  case (1 p op)
  then show ?case by (cases rule: write_step [OF 1(2), of p]) (auto dest: charge_hour(2))
next
  case (2 p op)
  then show ?case by (cases rule: write_step [OF 2(2), of p]) (auto dest: charge_hour(1) simp del: if_split)
qed (simp_all add: bucket_credit_bounds del: times_divide_eq_right)

text \<open>Within one day the count only grows, up to the daily number.\<close>

definition day_credit :: "int \<Rightarrow> principal_config \<Rightarrow> write_allow \<Rightarrow> rat" where
  "day_credit now pc b = of_int (max 0 (pc_writes_per_day pc - wb_used (on_day now b)))"

lemma day_number_between: "a \<le> now \<Longrightarrow> now \<le> z \<Longrightarrow> day_number a = day_number z \<Longrightarrow> day_number now = day_number a"
  unfolding day_number_def by (metis day_ns_def order_antisym zdiv_mono1 mult_pos_pos zero_less_numeral zero_less_power)

lemma on_day_cong: "day_number now = day_number a \<Longrightarrow> on_day now b = on_day a b"
  by (simp add: on_day_def)

lemma on_day_idem [simp]: "on_day a (on_day a b) = on_day a b"
  by (simp add: on_day_def)

interpretation daily: metered policy_step "is_write (pc_id pc)" "write_window a z pc"
    "\<lambda>p. day_number a = day_number z \<and> 0 \<le> pc_writes_per_day pc \<and> 0 \<le> wb_used (allow_of (pc_id pc) p)"
    "\<lambda>p. day_credit a pc (allow_of (pc_id pc) p)" "of_int (pc_writes_per_day pc)"
  for a z pc
proof (unfold_locales, goal_cases)
  case (1 p op)
  show ?case using 1(2)
  proof (cases rule: write_step [where p = p])
    case (charge now w ok)
    then show ?thesis using 1(1) by (cases rule: charge_allow_cases [of now pc "on_day now (allow_of (pc_id pc) p)"]) (auto simp: on_day_def)
  qed (use 1(1) in \<open>auto simp: on_day_def\<close>)
next
  case (2 p op)
  show ?case using 2(2)
  proof (cases rule: write_step [where p = p])
    case (day now)
    then show ?thesis using on_day_cong [OF day_number_between, of a now z] 2(1) by (simp add: day_credit_def)
  next
    case (charge now w ok)
    have e: "on_day now b = on_day a b" for b using on_day_cong [OF day_number_between] charge(2,3) 2(1) by blast
    define b where "b = on_day a (allow_of (pc_id pc) p)"
    define b' where "b' = allow_of (pc_id pc) (snd (policy_step op p))"
    have c: "charge_allow now pc b = ((w, ok), b')" using charge(1) by (simp add: e b_def b'_def)
    have "wb_day b = Some (day_number a)" by (simp add: b_def on_day_def)
    with c have d: "wb_day b' = Some (day_number a)" "wb_used b' = wb_used b + (if ok then 1 else 0)" "ok \<Longrightarrow> wb_used b < pc_writes_per_day pc"
      by (cases rule: charge_allow_cases [of now pc b]; auto)+
    then have "on_day a b' = b'" by (simp add: on_day_def)
    with d show ?thesis by (auto simp: day_credit_def charge(4,5) b_def [symmetric] b'_def [symmetric])
  qed simp
qed (simp_all add: day_credit_def on_day_def)


section \<open>The bounds\<close>

text \<open>C31: Whatever a listener did before, in a window of time over which a principal stays configured with the same limits, the requests
  it is granted number at most its burst and what its rate earns in the window, in every order of the locks and however the
  clock readings are ordered.
\<close>

theorem requests_within_rate:
  assumes "\<forall>op \<in> set past. op_valid op" "principal_ok pc" "a \<le> z"
    "\<forall>op \<in> set ops. request_window a z (pc_id pc) (pc_rpm pc) (pc_burst pc) op"
  shows "of_nat (granted policy_step (is_request (pc_id pc)) ops (policy_after past new_policy))
    \<le> of_int (pc_burst pc) + seconds (z - a) * (of_int (pc_rpm pc) / 60)"
proof -
  have "policy_ok (policy_after past new_policy)" by (rule policy_after_ok) (use assms in simp_all)
  then have "bucket_ok (request_bucket (pc_id pc) (policy_after past new_policy))"
    by (auto simp: policy_ok_def request_bucket_def split: option.split)
  with limits_nonneg [OF assms(2)] assms(3,4) show ?thesis by (intro requests.grants_bounded) simp_all
qed

definition sample_writer :: principal_config where
  "sample_writer = \<lparr>pc_id = ''site'', pc_kind = KindOidc, pc_sub = ''100200300'', pc_email = ''site-svc@pilot-prod.iam.gserviceaccount.com'',
     pc_keys = [], pc_env = EnvProd, pc_scopes = [ArticlesRead, ArticlesWrite], pc_rpm = 60, pc_burst = 2,
     pc_writes_per_hour = 60, pc_writes_burst = 1, pc_writes_per_day = 2, pc_counts_reads = True\<rparr>"

definition sample_config :: svc_config where
  "sample_config = \<lparr>sc_listen = ''127.0.0.1:7779'', sc_fail_per_minute = 30, sc_fail_burst = 10, sc_frozen = False, sc_golive = None,
     sc_principals = [sample_writer]\<rparr>"

lemma sample_writer_ok [simp]: "principal_ok sample_writer"
  by code_simp

text \<open>Four requests of which the third comes too soon: the bound is met exactly.\<close>

definition sample_requests :: "policy_op list" where
  "sample_requests = [Request 0 sample_writer, Request 0 sample_writer, Request 0 sample_writer, Prune sample_config, Request (10 ^ 9) sample_writer]"

theorem requests_within_rate_witness:
  "(of_nat (granted policy_step (is_request (pc_id sample_writer)) sample_requests (policy_after [Activate sample_config] new_policy)) :: rat)
     \<le> of_int (pc_burst sample_writer) + seconds (10 ^ 9 - 0) * (of_int (pc_rpm sample_writer) / 60)
   \<and> granted policy_step (is_request (pc_id sample_writer)) sample_requests (policy_after [Activate sample_config] new_policy) = 3"
proof (rule conjI)
  show "(of_nat (granted policy_step (is_request (pc_id sample_writer)) sample_requests (policy_after [Activate sample_config] new_policy)) :: rat)
     \<le> of_int (pc_burst sample_writer) + seconds (10 ^ 9 - 0) * (of_int (pc_rpm sample_writer) / 60)"
  proof (rule requests_within_rate)
    show "\<forall>op \<in> set sample_requests. request_window 0 (10 ^ 9) (pc_id sample_writer) (pc_rpm sample_writer) (pc_burst sample_writer) op"
      unfolding sample_requests_def list_all_iff [symmetric] by code_simp
  qed simp_all
qed code_simp


definition sample_writes :: "policy_op list" where
  "sample_writes = (let st = Some sample_config; m = 60 * 10 ^ 9 in
     [SpendWrite st 0 ''site'', SpendWrite st 0 ''site'', SpendWrite st m ''site'', Prune sample_config, AskExhausted st m ''site'',
      SpendWrite st (2 * m) ''site''])"


text \<open>
  The clock is read before the lock is taken. A charge that read it before midnight and takes the lock after others of the
  new day starts the count of the day again: with two writes a day, three are granted on day one.
\<close>

lemma late_clock_refills_day:
  "granted policy_step (is_write ''site'')
     (map (\<lambda>t. SpendWrite (Some sample_config) t ''site'') [day_ns, day_ns + 60 * 10 ^ 9, day_ns - 1, day_ns + 120 * 10 ^ 9]) new_policy = 3
   \<and> pc_writes_per_day sample_writer = 2"
  by code_simp

end
