(* ===== verification/SvcLimits.thy ===== *)
theory SvcLimits
  imports SvcBudget
begin

text \<open>
  The limiter of failed authentications (\<open>src/internal/svcauth/limits.go\<close>): a bucket per client address, swept of idle
  clients and summarised in the log at most once a minute per client. Every operation runs under the mutex. The log lines an
  operation writes are part of its result, in the order of the client names; the map of the code has no order.
\<close>

section \<open>Operations\<close>

text \<open>\<open>fe_summary\<close> and \<open>fl_sweep\<close> are \<open>None\<close> for the zero time, which is longer ago than any duration.\<close>

record fail_entry =
  fe_bucket :: bucket
  fe_suppressed :: int
  fe_summary :: "int option"

record fail_limiter =
  fl_clients :: "(bytes, fail_entry) fmap"
  fl_sweep :: "int option"

definition new_fail_limiter :: fail_limiter where
  "new_fail_limiter = \<lparr>fl_clients = fmempty, fl_sweep = None\<rparr>"

definition new_entry :: fail_entry where
  "new_entry = \<lparr>fe_bucket = new_bucket, fe_suppressed = 0, fe_summary = None\<rparr>"

definition minute :: int where "minute = 60 * 10 ^ 9"
definition fail_sweep_every :: int where "fail_sweep_every = 10 * 10 ^ 9"

definition since_less :: "int \<Rightarrow> int option \<Rightarrow> int \<Rightarrow> bool" where
  "since_less now t d = (case t of None \<Rightarrow> False | Some t \<Rightarrow> now - t < d)"

text \<open>A summary and its instant: the line with the count, which starts again at zero.\<close>

definition summarise :: "int \<Rightarrow> fail_entry \<Rightarrow> int \<times> fail_entry" where
  "summarise now e = (fe_suppressed e, e\<lparr>fe_suppressed := 0, fe_summary := Some now\<rparr>)"

text \<open>One client of \<open>sweep\<close>: what is left of it, and the count logged.\<close>

definition sweep_entry :: "int \<Rightarrow> rat \<Rightarrow> rat \<Rightarrow> fail_entry \<Rightarrow> int option \<times> fail_entry option" where
  "sweep_entry now rate capacity e =
     (let e = e\<lparr>fe_bucket := refill now rate capacity (fe_bucket e)\<rparr> in
      if bk_tokens (fe_bucket e) < capacity then (None, Some e)
      else let recent = since_less now (fe_summary e) minute in
        if fe_suppressed e = 0 \<and> \<not> recent then (None, None)
        else if 0 < fe_suppressed e \<and> \<not> recent then (case summarise now e of (n, e) \<Rightarrow> (Some n, Some e))
        else (None, Some e))"

definition flush_entry :: "int \<Rightarrow> bool \<Rightarrow> fail_entry \<Rightarrow> int option \<times> fail_entry option" where
  "flush_entry now every e =
     (if 0 < fe_suppressed e \<and> (every \<or> \<not> since_less now (fe_summary e) minute)
      then (case summarise now e of (n, e) \<Rightarrow> (Some n, Some e)) else (None, Some e))"

text \<open>The loop over the clients: every entry on its own.\<close>

definition each_client :: "(fail_entry \<Rightarrow> int option \<times> fail_entry option) \<Rightarrow> (bytes, fail_entry) fmap
    \<Rightarrow> (bytes \<times> int) list \<times> (bytes, fail_entry) fmap" where
  "each_client f m = (List.map_filter (\<lambda>k. map_option (Pair k) (case fmlookup m k of None \<Rightarrow> None | Some e \<Rightarrow> fst (f e)))
       (sorted_list_of_fset (fmdom m)),
     fmmap_keys (\<lambda>k e. the (snd (f e))) (fmfilter (\<lambda>k. (case fmlookup m k of None \<Rightarrow> False | Some e \<Rightarrow> snd (f e) \<noteq> None)) m))"

definition fail_sweep :: "int \<Rightarrow> rat \<Rightarrow> rat \<Rightarrow> fail_limiter \<Rightarrow> (bytes \<times> int) list \<times> fail_limiter" where
  "fail_sweep now rate capacity l =
     (if since_less now (fl_sweep l) fail_sweep_every then ([], l)
      else (case each_client (sweep_entry now rate capacity) (fl_clients l) of
        (lines, m) \<Rightarrow> (lines, \<lparr>fl_clients = m, fl_sweep = Some now\<rparr>)))"

definition flush_summaries :: "int \<Rightarrow> bool \<Rightarrow> fail_limiter \<Rightarrow> (bytes \<times> int) list \<times> fail_limiter" where
  "flush_summaries now every l = (case each_client (flush_entry now every) (fl_clients l) of
     (lines, m) \<Rightarrow> (lines, l\<lparr>fl_clients := m\<rparr>))"

text \<open>\<open>fail\<close>: the answer (how long to wait, whether the failure may be answered with a 401) and the log lines.\<close>

definition charge_failure :: "int \<Rightarrow> bytes \<Rightarrow> int \<Rightarrow> int \<Rightarrow> fail_limiter \<Rightarrow> ((int \<times> bool) \<times> (bytes \<times> int) list) \<times> fail_limiter" where
  "charge_failure now client per_minute burst l =
     (let rate = of_int per_minute / 60; capacity = of_int burst in
      case fail_sweep now rate capacity l of (lines, l) \<Rightarrow>
        (let e = (case fmlookup (fl_clients l) client of None \<Rightarrow> new_entry | Some e \<Rightarrow> e) in
         case draw_token now rate capacity (fe_bucket e) of
           ((wait, True), b) \<Rightarrow> (((0, True), lines), l\<lparr>fl_clients := fmupd client (e\<lparr>fe_bucket := b\<rparr>) (fl_clients l)\<rparr>)
         | ((wait, False), b) \<Rightarrow>
            (let e = e\<lparr>fe_bucket := b, fe_suppressed := fe_suppressed e + 1\<rparr> in
             if \<not> since_less now (fe_summary e) minute
             then (case summarise now e of (n, e) \<Rightarrow>
               (((wait, False), lines @ [(client, n)]), l\<lparr>fl_clients := fmupd client e (fl_clients l)\<rparr>))
             else (((wait, False), lines), l\<lparr>fl_clients := fmupd client e (fl_clients l)\<rparr>))))"

section \<open>The limiter without its sweep\<close>

text \<open>
  A limiter that keeps a bucket per client for ever and never sweeps. Under a clock that does not go back it gives the same
  answers, and every refusal is counted in exactly one log line or is still pending.
\<close>

datatype fail_op = Charge int bytes | FlushAt int bool

fun fail_time :: "fail_op \<Rightarrow> int" where
  "fail_time (Charge t c) = t"
| "fail_time (FlushAt t every) = t"

fun fail_step :: "int \<Rightarrow> int \<Rightarrow> fail_op \<Rightarrow> fail_limiter \<Rightarrow> ((int \<times> bool) option \<times> (bytes \<times> int) list) \<times> fail_limiter" where
  "fail_step pm burst (Charge t c) l = (case charge_failure t c pm burst l of ((a, lines), l') \<Rightarrow> ((Some a, lines), l'))"
| "fail_step pm burst (FlushAt t every) l = (case flush_summaries t every l of (lines, l') \<Rightarrow> ((None, lines), l'))"

fun fail_run :: "int \<Rightarrow> int \<Rightarrow> fail_op list \<Rightarrow> fail_limiter \<Rightarrow> ((int \<times> bool) option list \<times> (bytes \<times> int) list) \<times> fail_limiter" where
  "fail_run pm burst [] l = (([], []), l)"
| "fail_run pm burst (op # ops) l = (case fail_step pm burst op l of ((a, ls), l') \<Rightarrow>
     (case fail_run pm burst ops l' of ((as, ls'), l'') \<Rightarrow> ((a # as, ls @ ls'), l'')))"

fun plain_run :: "int \<Rightarrow> int \<Rightarrow> fail_op list \<Rightarrow> (bytes \<Rightarrow> bucket) \<Rightarrow> (int \<times> bool) option list" where
  "plain_run pm burst [] bs = []"
| "plain_run pm burst (Charge t c # ops) bs = (case draw_token t (of_int pm / 60) (of_int burst) (bs c) of
     (a, b) \<Rightarrow> Some a # plain_run pm burst ops (bs(c := b)))"
| "plain_run pm burst (FlushAt t every # ops) bs = None # plain_run pm burst ops bs"

text \<open>The lines about a client, and what its refusals come to.\<close>

definition logged :: "bytes \<Rightarrow> (bytes \<times> int) list \<Rightarrow> int" where
  "logged c lines = sum_list (map snd (filter (\<lambda>x. fst x = c) lines))"

definition pending :: "bytes \<Rightarrow> fail_limiter \<Rightarrow> int" where
  "pending c l = (case fmlookup (fl_clients l) c of None \<Rightarrow> 0 | Some e \<Rightarrow> fe_suppressed e)"

fun refusals :: "bytes \<Rightarrow> fail_op list \<Rightarrow> (int \<times> bool) option list \<Rightarrow> int" where
  "refusals c (Charge t d # ops) (Some a # as) = (if d = c \<and> \<not> snd a then 1 else 0) + refusals c ops as"
| "refusals c (_ # ops) (_ # as) = refusals c ops as"
| "refusals c _ _ = 0"

text \<open>Two buckets that no refill from \<open>now\<close> on tells apart.\<close>

definition same_from :: "int \<Rightarrow> rat \<Rightarrow> rat \<Rightarrow> bucket \<Rightarrow> bucket \<Rightarrow> bool" where
  "same_from now rate capacity b b' = (\<forall>t \<ge> now. refill t rate capacity b = refill t rate capacity b')"

definition bucket_past :: "int \<Rightarrow> bucket \<Rightarrow> bool" where
  "bucket_past now b = (bk_primed b \<longrightarrow> bk_last b \<le> now)"

lemma refill_past: "bucket_past now b \<Longrightarrow> refill now rate capacity b =
    \<lparr>bk_tokens = (if bk_primed b then min (bk_tokens b + seconds (now - bk_last b) * rate) capacity else capacity), bk_last = now, bk_primed = True\<rparr>"
  by (cases b) (auto simp: refill_def bucket_past_def Let_def)

lemma refill_twice:
  assumes "bucket_past now b" "now \<le> t" "0 \<le> rate"
  shows "refill t rate capacity (refill now rate capacity b) = refill t rate capacity b"
proof -
  have "bucket_past t b" "bucket_past t (refill now rate capacity b)" using assms by (auto simp: bucket_past_def refill_past)
  moreover have "seconds (t - bk_last b) * rate = seconds (now - bk_last b) * rate + seconds (t - now) * rate"
    by (simp add: distrib_right [symmetric] seconds_add [symmetric])
  moreover have "0 \<le> seconds (t - now) * rate" using assms by simp
  ultimately show ?thesis using assms(1) by (auto simp: refill_past min_def)
qed

lemma refill_full:
  assumes "bucket_past now b" "bk_primed b" "capacity \<le> bk_tokens b" "now \<le> t" "0 \<le> rate"
  shows "refill t rate capacity b = refill t rate capacity new_bucket"
proof -
  have "bucket_past t b" "0 \<le> seconds (t - bk_last b) * rate" using assms by (auto simp: bucket_past_def)
  then show ?thesis using assms(2,3) by (simp add: refill_past) (simp add: refill_def new_bucket_def)
qed

section \<open>Simulation\<close>

lemma each_client_lookup: "fmlookup (snd (each_client f m)) k = Option.bind (fmlookup m k) (\<lambda>e. snd (f e))"
  by (auto simp: each_client_def split: option.split)

lemma sum_list_only: "distinct ks \<Longrightarrow> sum_list (map (\<lambda>k. if k = c then (f k :: int) else 0) ks) = (if c \<in> set ks then f c else 0)"
  by (induction ks) auto

lemma logged_append [simp]: "logged c (xs @ ys) = logged c xs + logged c ys"
  by (simp add: logged_def)

lemma logged_Cons [simp]: "logged c ((d, n) # ys) = (if d = c then n else 0) + logged c ys"
  by (simp add: logged_def)

lemma logged_Nil [simp]: "logged c [] = 0"
  by (simp add: logged_def)

definition line_of :: "(fail_entry \<Rightarrow> int option \<times> fail_entry option) \<Rightarrow> (bytes, fail_entry) fmap \<Rightarrow> bytes \<Rightarrow> int" where
  "line_of f m k = (case fmlookup m k of None \<Rightarrow> 0 | Some e \<Rightarrow> (case fst (f e) of None \<Rightarrow> 0 | Some n \<Rightarrow> n))"

lemma each_client_logged: "logged c (fst (each_client f m)) = line_of f m c"
proof -
  define h where "h = (\<lambda>k. case fmlookup m k of None \<Rightarrow> None | Some e \<Rightarrow> fst (f e))"
  have h: "line_of f m k = (case h k of None \<Rightarrow> 0 | Some n \<Rightarrow> n)" for k by (simp add: line_of_def h_def split: option.split)
  have "logged c (List.map_filter (\<lambda>k. map_option (Pair k) (h k)) ks) = sum_list (map (\<lambda>k. if k = c then line_of f m k else 0) ks)" for ks
    by (induction ks) (auto simp: h List.map_filter_simps split: option.split)
  moreover have "line_of f m c = 0" if "c |\<notin>| fmdom m" using fmdom_notD [OF that] by (simp add: line_of_def)
  ultimately show ?thesis unfolding each_client_def fst_conv h_def by (simp add: sum_list_only)
qed

definition entry_sim :: "int \<Rightarrow> rat \<Rightarrow> rat \<Rightarrow> bucket \<Rightarrow> fail_entry option \<Rightarrow> bool" where
  "entry_sim now rate capacity b e = (case e of None \<Rightarrow> same_from now rate capacity b new_bucket
     | Some e \<Rightarrow> same_from now rate capacity b (fe_bucket e) \<and> bucket_past now (fe_bucket e) \<and> bk_primed (fe_bucket e) \<and> 0 \<le> fe_suppressed e)"

text \<open>What one client's part of a sweep or a flush keeps.\<close>

definition keeps_entry :: "int \<Rightarrow> rat \<Rightarrow> rat \<Rightarrow> (fail_entry \<Rightarrow> int option \<times> fail_entry option) \<Rightarrow> bool" where
  "keeps_entry t rate capacity f = (\<forall>e b. entry_sim t rate capacity b (Some e) \<longrightarrow> entry_sim t rate capacity b (snd (f e))
     \<and> (case fst (f e) of None \<Rightarrow> 0 | Some n \<Rightarrow> n) + (case snd (f e) of None \<Rightarrow> 0 | Some e' \<Rightarrow> fe_suppressed e') = fe_suppressed e)"

lemma same_from_refill:
  assumes "0 \<le> rate" "same_from t rate capacity b b'" "bucket_past t b'"
  shows "same_from t rate capacity b (refill t rate capacity b')"
  using assms refill_twice [OF assms(3)] by (simp add: same_from_def)

lemma sweep_keeps:
  assumes "0 \<le> rate"
  shows "keeps_entry t rate capacity (sweep_entry t rate capacity)"
  unfolding keeps_entry_def
proof (intro allI impI)
  fix e b assume s: "entry_sim t rate capacity b (Some e)"
  define b' where "b' = refill t rate capacity (fe_bucket e)"
  from s have f: "same_from t rate capacity b (fe_bucket e)" "bucket_past t (fe_bucket e)" "0 \<le> fe_suppressed e" by (simp_all add: entry_sim_def)
  have b: "same_from t rate capacity b b'" unfolding b'_def by (rule same_from_refill [OF assms f(1,2)])
  have p: "bucket_past t b'" "bk_primed b'" using f(2) by (simp_all add: b'_def refill_past bucket_past_def)
  have n: "same_from t rate capacity b new_bucket" if "\<not> bk_tokens b' < capacity"
    using b refill_full [OF p, of capacity _ rate] that assms by (simp add: same_from_def)
  show "entry_sim t rate capacity b (snd (sweep_entry t rate capacity e))
     \<and> (case fst (sweep_entry t rate capacity e) of None \<Rightarrow> 0 | Some n \<Rightarrow> n)
       + (case snd (sweep_entry t rate capacity e) of None \<Rightarrow> 0 | Some e' \<Rightarrow> fe_suppressed e') = fe_suppressed e"
    using b p n f(3) by (auto simp: sweep_entry_def Let_def b'_def [symmetric] entry_sim_def summarise_def)
qed

lemma flush_keeps: "keeps_entry t rate capacity (flush_entry t every)"
  by (auto simp: keeps_entry_def flush_entry_def entry_sim_def summarise_def)

definition fail_sim :: "int \<Rightarrow> rat \<Rightarrow> rat \<Rightarrow> fail_limiter \<Rightarrow> (bytes \<Rightarrow> bucket) \<Rightarrow> bool" where
  "fail_sim now rate capacity l bs = (\<forall>c. entry_sim now rate capacity (bs c) (fmlookup (fl_clients l) c))"

lemma entry_sim_later: "entry_sim now rate capacity b e \<Longrightarrow> now \<le> t \<Longrightarrow> entry_sim t rate capacity b e"
  by (auto simp: entry_sim_def same_from_def bucket_past_def split: option.splits)

lemma each_client_sim:
  assumes "keeps_entry t rate capacity f" "fail_sim t rate capacity l bs" "each_client f (fl_clients l) = (lines, m)" "fl_clients l' = m"
  shows "fail_sim t rate capacity l' bs \<and> logged c lines + pending c l' = pending c l"
proof -
  have m: "fmlookup m k = Option.bind (fmlookup (fl_clients l) k) (\<lambda>e. snd (f e))" for k
    using each_client_lookup [of f "fl_clients l" k] assms(3) by simp
  have n: "logged c lines = line_of f (fl_clients l) c" using each_client_logged [of c f "fl_clients l"] assms(3) by simp
  have "entry_sim t rate capacity (bs k) (fmlookup m k)" for k
    using assms(1,2) by (cases "fmlookup (fl_clients l) k") (auto simp: m fail_sim_def keeps_entry_def dest!: spec [of _ k])
  moreover have "logged c lines + pending c l' = pending c l"
    using assms(1,2) by (cases "fmlookup (fl_clients l) c")
      (auto simp: n m assms(4) pending_def line_of_def fail_sim_def keeps_entry_def dest!: spec [of _ c])
  ultimately show ?thesis by (simp add: fail_sim_def assms(4))
qed

lemma sweep_sim:
  assumes "0 \<le> rate" "fail_sim t rate capacity l bs" "fail_sweep t rate capacity l = (lines, l')"
  shows "fail_sim t rate capacity l' bs \<and> logged c lines + pending c l' = pending c l"
proof (cases "since_less t (fl_sweep l) fail_sweep_every")
  case True
  with assms show ?thesis by (simp add: fail_sweep_def)
next
  case False
  obtain ls m where e: "each_client (sweep_entry t rate capacity) (fl_clients l) = (ls, m)" by fastforce
  with False assms(3) have "lines = ls" "fl_clients l' = m" by (auto simp: fail_sweep_def)
  with each_client_sim [OF sweep_keeps [OF assms(1)] assms(2) e] show ?thesis by simp
qed

lemma charge_failure_sim:
  assumes "0 \<le> pm" "0 \<le> burst" "fail_sim t (of_int pm / 60) (of_int burst) l bs"
    and d: "draw_token t (of_int pm / 60) (of_int burst) (bs c) = (a, b)" and q: "charge_failure t c pm burst l = ((a', lines), l')"
  shows "a' = a \<and> fail_sim t (of_int pm / 60) (of_int burst) l' (bs(c := b))
    \<and> logged k lines + pending k l' = pending k l + (if c = k \<and> \<not> snd a then 1 else 0)"
proof -
  let ?r = "of_int pm / 60 :: rat" and ?n = "of_int burst :: rat"
  obtain ls l1 where s: "fail_sweep t ?r ?n l = (ls, l1)" by fastforce
  have s1: "fail_sim t ?r ?n l1 bs" "logged k ls + pending k l1 = pending k l" using sweep_sim [OF _ assms(3) s] assms(1) by simp_all
  define e where "e = (case fmlookup (fl_clients l1) c of None \<Rightarrow> new_entry | Some e \<Rightarrow> e)"
  have sc: "entry_sim t ?r ?n (bs c) (fmlookup (fl_clients l1) c)" using s1(1) by (simp add: fail_sim_def)
  then have r: "refill t ?r ?n (fe_bucket e) = refill t ?r ?n (bs c)" and su: "0 \<le> fe_suppressed e"
    by (auto simp: e_def entry_sim_def same_from_def new_entry_def split: option.splits)
  have de: "draw_token t ?r ?n (fe_bucket e) = (a, b)" using d by (simp add: draw_token_def r)
  have bp: "bucket_past t b" "bk_primed b"
  proof -
    have "bucket_past t (fe_bucket e)" using sc by (auto simp: e_def entry_sim_def new_entry_def new_bucket_def bucket_past_def split: option.splits)
    then have "bucket_past t (refill t ?r ?n (fe_bucket e))" "bk_primed (refill t ?r ?n (fe_bucket e))" by (simp_all add: refill_past bucket_past_def)
    then show "bucket_past t b" "bk_primed b" using de by (auto simp: draw_token_def Let_def bucket_past_def split: if_splits)
  qed
  have pe: "pending c l1 = fe_suppressed e" by (simp add: pending_def e_def new_entry_def split: option.split)
  have put: "fail_sim t ?r ?n (l1\<lparr>fl_clients := fmupd c x (fl_clients l1)\<rparr>) (bs(c := b))" if "0 \<le> fe_suppressed x" "fe_bucket x = b" for x
    using s1(1) bp that by (auto simp: fail_sim_def entry_sim_def same_from_def)
  have pk: "pending k (l1\<lparr>fl_clients := fmupd c x (fl_clients l1)\<rparr>) = (if k = c then fe_suppressed x else pending k l1)" for x
    by (simp add: pending_def)
  obtain w ok where a: "a = (w, ok)" by fastforce
  show ?thesis
  proof (cases ok)
    case True
    with de a have "w = 0" by (auto simp: draw_token_def Let_def split: if_splits)
    with q True have "a' = a" "lines = ls" "l' = l1\<lparr>fl_clients := fmupd c (e\<lparr>fe_bucket := b\<rparr>) (fl_clients l1)\<rparr>"
      by (simp_all add: charge_failure_def Let_def s e_def [symmetric] de a)
    then show ?thesis using put [of "e\<lparr>fe_bucket := b\<rparr>"] su s1(2) pe True by (auto simp: pk a)
  next
    case False
    define x where "x = (if since_less t (fe_summary e) minute then e\<lparr>fe_bucket := b, fe_suppressed := fe_suppressed e + 1\<rparr>
      else e\<lparr>fe_bucket := b, fe_suppressed := 0, fe_summary := Some t\<rparr>)"
    have l': "l' = l1\<lparr>fl_clients := fmupd c x (fl_clients l1)\<rparr>" and a': "a' = a"
      and ln: "lines = ls @ (if since_less t (fe_summary e) minute then [] else [(c, fe_suppressed e + 1)])"
      using q False by (auto simp: charge_failure_def Let_def s e_def [symmetric] de a x_def summarise_def split: if_splits)
    have x: "0 \<le> fe_suppressed x" "fe_bucket x = b" using su by (simp_all add: x_def)
    have "logged k lines + pending k l' = pending k l + (if c = k \<and> \<not> snd a then 1 else 0)"
      using s1(2) pe False by (auto simp: ln l' pk a x_def)
    with put [OF x] show ?thesis by (simp add: l' a')
  qed
qed

lemma fail_run_sim:
  assumes "0 \<le> pm" "0 \<le> burst" "sorted (now # map fail_time ops)" "fail_sim now (of_int pm / 60) (of_int burst) l bs"
    and "fail_run pm burst ops l = ((as, lines), l')"
  shows "as = plain_run pm burst ops bs \<and> logged c lines + pending c l' = pending c l + refusals c ops as"
  using assms(3-5)
proof (induction ops arbitrary: now l bs as lines)
  case (Cons op ops)
  let ?r = "of_int pm / 60 :: rat" and ?n = "of_int burst :: rat"
  define t where "t = fail_time op"
  have t: "now \<le> t" "sorted (t # map fail_time ops)" using Cons.prems(1) by (simp_all add: t_def)
  have s: "fail_sim t ?r ?n l bs" using Cons.prems(2) t(1) by (auto simp: fail_sim_def intro: entry_sim_later)
  obtain a ls l1 where st: "fail_step pm burst op l = ((a, ls), l1)" by (metis prod.collapse)
  obtain as' ls' where r: "fail_run pm burst ops l1 = ((as', ls'), l')" "as = a # as'" "lines = ls @ ls'"
    using Cons.prems(3) st by (auto split: prod.splits)
  show ?case
  proof (cases op)
    case (Charge t' d)
    then have t': "t' = t" by (simp add: t_def)
    obtain x b where d: "draw_token t ?r ?n (bs d) = (x, b)" by fastforce
    obtain x' where q: "charge_failure t d pm burst l = ((x', ls), l1)" "a = Some x'" using st by (auto simp: Charge t' split: prod.splits)
    note c = charge_failure_sim [OF assms(1,2) s d q(1), of c]
    note ih = Cons.IH [OF t(2) conjunct1 [OF conjunct2 [OF c]] r(1)]
    from c ih r(2,3) show ?thesis by (auto simp: Charge t' d q(2) simp del: fun_upd_apply split: if_split_asm)
  next
    case (FlushAt t' every)
    then have t': "t' = t" by (simp add: t_def)
    obtain m where e: "each_client (flush_entry t every) (fl_clients l) = (ls, m)" "a = None" "fl_clients l1 = m"
      using st by (auto simp: FlushAt t' flush_summaries_def split: prod.splits)
    note c = each_client_sim [OF flush_keeps s e(1,3), of c]
    note ih = Cons.IH [OF t(2) conjunct1 [OF c] r(1)]
    from c ih r(2,3) show ?thesis by (auto simp: FlushAt e(2))
  qed
qed simp


text \<open>Two failures allowed, three refused, an idle client swept, a pending count flushed.\<close>

definition sample_failures :: "fail_op list" where
  "sample_failures = (let s = 10 ^ 9 in [Charge 0 ''a'', Charge 0 ''b'', Charge 0 ''a'', Charge s ''a'', Charge s ''a'', Charge (11 * s) ''a'',
     FlushAt (70 * s) False, Charge (80 * s) ''a''])"


end
