(* ===== verification/SvcCerts.thy ===== *)
theory SvcCerts
  imports SvcBudget
begin

text \<open>
  The cache of signing certificates (\<open>src/internal/svcauth/certs.go\<close>): one good copy, refreshed by a background loop, early on
  request, and used for a day after it expires. The fetch itself and the decoding of a key set are inputs; instants and
  durations are nanoseconds.
\<close>

section \<open>The cache\<close>

record cert_copy =
  cc_body :: bytes
  cc_kids :: "bytes list"
  cc_fetched :: int
  cc_expires :: int

text \<open>\<open>ch_kick\<close>: whether the channel of one slot holds a request for an early refresh. \<open>None\<close> is the zero time.\<close>

record cert_cache =
  ch_cur :: "cert_copy option"
  ch_early :: "int option"
  ch_good :: "int option"
  ch_started :: "int option"
  ch_kick :: bool

definition new_cert_cache :: cert_cache where
  "new_cert_cache = \<lparr>ch_cur = None, ch_early = None, ch_good = None, ch_started = None, ch_kick = False\<rparr>"

definition cert_early_every :: int where "cert_early_every = 300 * 10 ^ 9"
definition cert_stale_for :: int where "cert_stale_for = 24 * 3600 * 10 ^ 9"
definition cert_backoff_min :: int where "cert_backoff_min = 10 * 10 ^ 9"
definition cert_backoff_max :: int where "cert_backoff_max = 300 * 10 ^ 9"
definition cert_max_body :: nat where "cert_max_body = 256 * 1024"

definition cert_current :: "int \<Rightarrow> cert_cache \<Rightarrow> cert_copy option \<times> cert_cache" where
  "cert_current now c = (case ch_cur c of None \<Rightarrow> (None, c)
     | Some cp \<Rightarrow> if cc_expires cp + cert_stale_for < now then (None, c\<lparr>ch_cur := None\<rparr>) else (Some cp, c))"

definition cert_usable :: "int \<Rightarrow> cert_cache \<Rightarrow> bool \<times> cert_cache" where
  "cert_usable now c = (case cert_current now c of (cp, c) \<Rightarrow> (cp \<noteq> None, c))"

definition cert_has_kid :: "int \<Rightarrow> bytes \<Rightarrow> cert_cache \<Rightarrow> bool \<times> cert_cache" where
  "cert_has_kid now kid c = (case cert_current now c of (None, c) \<Rightarrow> (False, c) | (Some cp, c) \<Rightarrow> (kid \<in> set (cc_kids cp), c))"

definition request_early :: "int \<Rightarrow> cert_cache \<Rightarrow> cert_cache" where
  "request_early now c = (case ch_early c of
     Some t \<Rightarrow> if now - t < cert_early_every then c else c\<lparr>ch_early := Some now, ch_kick := True\<rparr>
   | None \<Rightarrow> c\<lparr>ch_early := Some now, ch_kick := True\<rparr>)"

datatype trip_err = CertUrlRefused | NoCerts

definition certs_url :: bytes where "certs_url = ''https://www.googleapis.com/oauth2/v3/certs''"

definition round_trip :: "int \<Rightarrow> bytes \<Rightarrow> bytes \<Rightarrow> cert_cache \<Rightarrow> (trip_err + bytes) \<times> cert_cache" where
  "round_trip now method url c =
     (if method \<noteq> ''GET'' \<or> url \<noteq> certs_url then (Inl CertUrlRefused, c)
      else (case cert_current now c of (None, c) \<Rightarrow> (Inl NoCerts, c) | (Some cp, c) \<Rightarrow> (Inr (cc_body cp), c)))"

text \<open>The age in nanoseconds that the gauge shows in seconds.\<close>

definition cert_age :: "int \<Rightarrow> cert_cache \<Rightarrow> int option" where
  "cert_age now c = (case ch_good c of Some t \<Rightarrow> Some (now - t)
     | None \<Rightarrow> (case ch_started c of Some t \<Rightarrow> Some (now - t) | None \<Rightarrow> None))"

section \<open>Refreshing\<close>

text \<open>\<open>strconv.Atoi\<close>.\<close>

definition atoi :: "bytes \<Rightarrow> int option" where
  "atoi s = (let neg = (s \<noteq> [] \<and> hd s = CHR ''-''); ds = (if s \<noteq> [] \<and> (hd s = CHR ''-'' \<or> hd s = CHR ''+'') then tl s else s);
       n = (if neg then - int (dec_val ds) else int (dec_val ds)) in
     if ds = [] \<or> \<not> list_all digit_byte ds \<or> n < - (2 ^ 63) \<or> 2 ^ 63 - 1 < n then None else Some n)"

definition max_age_of :: "bytes \<Rightarrow> int" where
  "max_age_of control = foldl (\<lambda>age d. let d = trim_space d in
       if has_prefix d ''max-age='' then (case atoi (drop 8 d) of Some n \<Rightarrow> if 0 \<le> n then n else age | None \<Rightarrow> age) else age)
     (- 1) (split_byte (CHR '','') control)"

text \<open>The product with \<open>time.Second\<close> is of 64 bits.\<close>

definition fresh_for :: "bytes \<Rightarrow> bytes \<Rightarrow> int" where
  "fresh_for control age = (let m = max_age_of control in
     if m < 0 then 0
     else if age = [] then i64 (m * 10 ^ 9)
     else (case atoi age of None \<Rightarrow> 0 | Some a \<Rightarrow> if a < 0 then 0 else i64 (max (m - a) 0 * 10 ^ 9)))"

text \<open>A response: its status, its body (\<open>None\<close> when reading it fails) and the two headers; \<open>keys\<close> decodes a key set.\<close>

record cert_response =
  cr_status :: nat
  cr_body :: "bytes option"
  cr_control :: bytes
  cr_age :: bytes

definition cert_fetch :: "(bytes \<Rightarrow> bytes list option) \<Rightarrow> int \<Rightarrow> cert_response option \<Rightarrow> cert_copy option" where
  "cert_fetch keys now resp = (case resp of None \<Rightarrow> None
     | Some r \<Rightarrow> if cr_status r \<noteq> 200 then None
         else (case cr_body r of None \<Rightarrow> None
           | Some b \<Rightarrow> if cert_max_body < length b then None
               else (case keys b of None \<Rightarrow> None
                 | Some [] \<Rightarrow> None
                 | Some kids \<Rightarrow> Some \<lparr>cc_body = b, cc_kids = kids, cc_fetched = now, cc_expires = now + fresh_for (cr_control r) (cr_age r)\<rparr>)))"

definition cert_refresh :: "(bytes \<Rightarrow> bytes list option) \<Rightarrow> int \<Rightarrow> cert_response option \<Rightarrow> cert_cache \<Rightarrow> bool \<times> cert_cache" where
  "cert_refresh keys now resp c = (case cert_fetch keys now resp of None \<Rightarrow> (False, c)
     | Some cp \<Rightarrow> (True, c\<lparr>ch_cur := Some cp, ch_good := Some (cc_fetched cp)\<rparr>))"

definition next_backoff :: "int \<Rightarrow> int" where
  "next_backoff d = min (max (2 * d) cert_backoff_min) cert_backoff_max"

text \<open>Nine tenths of a duration, as the division of 64 bits truncates it.\<close>

definition nine_tenths :: "int \<Rightarrow> int" where
  "nine_tenths d = (let n = i64 (d * 9) in if n < 0 then - (- n div 10) else n div 10)"

definition cert_scheduled :: "int \<Rightarrow> cert_cache \<Rightarrow> int" where
  "cert_scheduled now c = (case ch_cur c of None \<Rightarrow> cert_backoff_min
     | Some cp \<Rightarrow> max (cc_fetched cp + nine_tenths (cc_expires cp - cc_fetched cp) - now) cert_backoff_min)"

text \<open>One turn of \<open>Run\<close>: the wait before the next one, and the backoff; a wait ends early by taking a pending request.\<close>

definition cert_turn :: "(bytes \<Rightarrow> bytes list option) \<Rightarrow> int \<Rightarrow> int \<Rightarrow> cert_response option \<Rightarrow> int \<Rightarrow> cert_cache \<Rightarrow> int \<times> int \<times> cert_cache" where
  "cert_turn keys now now' resp backoff c = (case cert_refresh keys now resp c of
     (True, c) \<Rightarrow> (cert_scheduled now' c, 0, c)
   | (False, c) \<Rightarrow> (next_backoff backoff, next_backoff backoff, c))"

definition take_kick :: "cert_cache \<Rightarrow> cert_cache" where
  "take_kick c = c\<lparr>ch_kick := False\<rparr>"

section \<open>The copy in service\<close>

text \<open>The operations in lock order: a fetch that ended at \<open>now\<close>, what requests ask, and the loop taking a request.\<close>

datatype cert_op = Fetched int "cert_response option" | AskUsable int | AskKid int bytes | Trip int bytes bytes | AskEarly int | TakeKick

fun cert_step :: "(bytes \<Rightarrow> bytes list option) \<Rightarrow> cert_op \<Rightarrow> cert_cache \<Rightarrow> bool \<times> cert_cache" where
  "cert_step keys (Fetched now resp) c = cert_refresh keys now resp c"
| "cert_step keys (AskUsable now) c = cert_usable now c"
| "cert_step keys (AskKid now kid) c = cert_has_kid now kid c"
| "cert_step keys (Trip now method url) c = (case round_trip now method url c of (r, c) \<Rightarrow> (\<not> isl r, c))"
| "cert_step keys (AskEarly now) c = (let c' = request_early now c in (ch_early c' \<noteq> ch_early c, c'))"
| "cert_step keys TakeKick c = (False, take_kick c)"

fun query_times :: "cert_op list \<Rightarrow> int list" where
  "query_times (AskUsable t # ops) = t # query_times ops"
| "query_times (AskKid t kid # ops) = t # query_times ops"
| "query_times (Trip t method url # ops) = t # query_times ops"
| "query_times (_ # ops) = query_times ops"
| "query_times [] = []"

definition certs_after :: "(bytes \<Rightarrow> bytes list option) \<Rightarrow> cert_op list \<Rightarrow> cert_cache \<Rightarrow> cert_cache" where
  "certs_after keys ops c = fold (\<lambda>op c. snd (cert_step keys op c)) ops c"

text \<open>The copy of the last fetch that was good.\<close>

fun last_good :: "(bytes \<Rightarrow> bytes list option) \<Rightarrow> cert_op list \<Rightarrow> cert_copy option \<Rightarrow> cert_copy option" where
  "last_good keys [] g = g"
| "last_good keys (Fetched now resp # ops) g = last_good keys ops (case cert_fetch keys now resp of None \<Rightarrow> g | Some cp \<Rightarrow> Some cp)"
| "last_good keys (_ # ops) g = last_good keys ops g"

definition in_date :: "int \<Rightarrow> cert_copy \<Rightarrow> bool" where
  "in_date now cp = (now \<le> cc_expires cp + cert_stale_for)"

definition serves :: "cert_cache \<Rightarrow> cert_copy option \<Rightarrow> int \<Rightarrow> bool" where
  "serves c g t = (ch_cur c = g \<or> ch_cur c = None \<and> (case g of None \<Rightarrow> True | Some cp \<Rightarrow> \<not> in_date t cp))"

lemma serves_later: "serves c g t \<Longrightarrow> t \<le> t' \<Longrightarrow> serves c g t'"
  by (auto simp: serves_def in_date_def split: option.splits)

lemma current_served:
  assumes "serves c g t" "t \<le> now"
  shows "fst (cert_current now c) = (case g of None \<Rightarrow> None | Some cp \<Rightarrow> if in_date now cp then Some cp else None)"
    "serves (snd (cert_current now c)) g now"
  using assms by (auto simp: serves_def cert_current_def in_date_def split: option.splits)

lemma asked_served:
  "snd (cert_usable now c) = snd (cert_current now c)" "snd (cert_has_kid now kid c) = snd (cert_current now c)"
  "snd (round_trip now m u c) = (if m \<noteq> ''GET'' \<or> u \<noteq> certs_url then c else snd (cert_current now c))"
  by (simp_all add: cert_usable_def cert_has_kid_def round_trip_def split: prod.split option.split)

lemma trip_state: "snd (cert_step keys (Trip now m u) c) = (if m \<noteq> ''GET'' \<or> u \<noteq> certs_url then c else snd (cert_current now c))"
proof -
  have "snd (cert_step keys (Trip now m u) c) = snd (round_trip now m u c)" by (simp split: prod.split)
  then show ?thesis unfolding asked_served(3) .
qed

declare cert_step.simps(4) [simp del]

lemma certs_run_served:
  assumes "serves c g t" "sorted (t # query_times ops @ [now])"
  shows "serves (certs_after keys ops c) (last_good keys ops g) now"
  using assms
proof (induction ops arbitrary: c g t)
  case Nil
  then show ?case by (auto simp: certs_after_def intro: serves_later)
next
  case (Cons op ops)
  show ?case
  proof (cases op)
    case (Fetched t' resp)
    have "serves (snd (cert_step keys op c)) (case cert_fetch keys t' resp of None \<Rightarrow> g | Some cp \<Rightarrow> Some cp) t"
      using Cons.prems(1) by (auto simp: Fetched cert_refresh_def serves_def split: option.split)
    from Cons.IH [OF this] Cons.prems(2) show ?thesis by (simp add: Fetched certs_after_def)
  next
    case (AskEarly t')
    have "serves (snd (cert_step keys op c)) g t"
      using Cons.prems(1) by (auto simp: AskEarly request_early_def serves_def Let_def split: option.split)
    from Cons.IH [OF this] Cons.prems(2) show ?thesis by (simp add: AskEarly certs_after_def)
  next
    case TakeKick
    have "serves (snd (cert_step keys op c)) g t" using Cons.prems(1) by (simp add: TakeKick take_kick_def serves_def)
    from Cons.IH [OF this] Cons.prems(2) show ?thesis by (simp add: TakeKick certs_after_def)
  next
    case (AskUsable t')
    then have "serves (snd (cert_step keys op c)) g t'" using current_served(2) [OF Cons.prems(1)] Cons.prems(2) by (simp add: asked_served)
    from Cons.IH [OF this] Cons.prems(2) show ?thesis by (simp add: AskUsable certs_after_def)
  next
    case (AskKid t' kid)
    then have "serves (snd (cert_step keys op c)) g t'" using current_served(2) [OF Cons.prems(1)] Cons.prems(2) by (simp add: asked_served)
    from Cons.IH [OF this] Cons.prems(2) show ?thesis by (simp add: AskKid certs_after_def)
  next
    case (Trip t' m u)
    then have "serves (snd (cert_step keys op c)) g t'"
      using current_served(2) [OF Cons.prems(1)] serves_later [OF Cons.prems(1)] Cons.prems(2) by (simp add: trip_state)
    from Cons.IH [OF this] Cons.prems(2) show ?thesis by (simp add: Trip certs_after_def)
  qed
qed

text \<open>C35: While the queries read a clock that does not go back, the cache vouches for a key id exactly when the key set of the last good
  fetch holds it and that copy expired at most a day ago; failed fetches, early requests and other queries change nothing.
\<close>

theorem certs_serve_last_good:
  assumes "sorted (query_times ops @ [now])"
  shows "fst (cert_has_kid now kid (certs_after keys ops new_cert_cache)) =
    (case last_good keys ops None of None \<Rightarrow> False | Some cp \<Rightarrow> in_date now cp \<and> kid \<in> set (cc_kids cp))"
proof -
  define t where "t = (case query_times ops @ [now] of [] \<Rightarrow> now | x # xs \<Rightarrow> x)"
  have "sorted (t # query_times ops @ [now])" using assms by (cases "query_times ops") (auto simp: t_def)
  moreover have "serves new_cert_cache None t" by (simp add: serves_def new_cert_cache_def)
  ultimately have "serves (certs_after keys ops new_cert_cache) (last_good keys ops None) now" by (rule certs_run_served [rotated])
  note c = current_served(1) [OF this order_refl]
  show ?thesis using c by (cases "cert_current now (certs_after keys ops new_cert_cache)") (auto simp: cert_has_kid_def split: option.splits if_splits)
qed

section \<open>Early refreshes\<close>

text \<open>Requests for an early refresh are granted at most once in five minutes: the law of \<open>metered\<close> again.\<close>

definition is_early :: "cert_op \<Rightarrow> bool" where
  "is_early op = (case op of AskEarly t \<Rightarrow> True | _ \<Rightarrow> False)"

definition early_window :: "int \<Rightarrow> int \<Rightarrow> cert_op \<Rightarrow> bool" where
  "early_window a z op = (case op of AskEarly t \<Rightarrow> a \<le> t \<and> t \<le> z | _ \<Rightarrow> True)"

definition early_next :: "int \<Rightarrow> cert_cache \<Rightarrow> int" where
  "early_next a c = (case ch_early c of None \<Rightarrow> a | Some t \<Rightarrow> max a (t + cert_early_every))"

definition early_credit :: "int \<Rightarrow> int \<Rightarrow> cert_cache \<Rightarrow> rat" where
  "early_credit a z c = max 0 (1 + of_int (z - early_next a c) / of_int cert_early_every)"

lemma current_early: "ch_early (snd (cert_current now c)) = ch_early c"
  by (simp add: cert_current_def split: option.split)

lemma early_kept: "\<not> is_early op \<Longrightarrow> ch_early (snd (cert_step keys op c)) = ch_early c"
  by (cases op) (simp_all add: is_early_def cert_refresh_def asked_served current_early trip_state take_kick_def split: option.split)

interpretation early: metered "cert_step keys" is_early "early_window a z" "\<lambda>c. a \<le> z" "early_credit a z"
    "1 + of_int (z - a) / of_int cert_early_every" for keys a z
proof (unfold_locales, goal_cases)
  case (2 c op)
  show ?case
  proof (cases "is_early op")
    case False
    then show ?thesis using early_kept [of op keys c] by (simp add: early_credit_def early_next_def)
  next
    case True
    then obtain t where op: "op = AskEarly t" by (cases op) (auto simp: is_early_def)
    show ?thesis
    proof (cases "fst (cert_step keys op c)")
      case True
      have t: "a \<le> t" "t \<le> z" using 2 op by (auto simp: early_window_def)
      have n: "early_next a c \<le> t" "ch_early (snd (cert_step keys op c)) = Some t"
        using True t by (auto simp: op request_early_def early_next_def Let_def split: option.splits if_splits)
      have "early_credit a z (snd (cert_step keys op c)) = max 0 (of_int (z - t) / of_int cert_early_every)"
        using t by (simp add: early_credit_def early_next_def n(2) cert_early_every_def field_simps)
      moreover have "1 + (of_int (z - t) / of_int cert_early_every :: rat) \<le> 1 + of_int (z - early_next a c) / of_int cert_early_every"
        using n(1) by (intro add_left_mono divide_right_mono) (simp_all add: cert_early_every_def)
      ultimately show ?thesis using t True by (simp add: early_credit_def is_early_def op cert_early_every_def)
    next
      case False
      then show ?thesis by (simp add: op early_credit_def early_next_def Let_def)
    qed
  qed
next
  case (4 c)
  have "(of_int (z - early_next a c) / of_int cert_early_every :: rat) \<le> of_int (z - a) / of_int cert_early_every"
    by (intro divide_right_mono) (auto simp: early_next_def cert_early_every_def split: option.split)
  moreover have "(0 :: rat) \<le> of_int (z - a) / of_int cert_early_every" using 4 by (simp add: cert_early_every_def)
  ultimately show ?case by (simp add: early_credit_def)
qed (simp_all add: early_credit_def)

lemma early_refreshes_spaced:
  assumes "a \<le> z" "\<forall>op \<in> set ops. early_window a z op"
  shows "of_nat (granted (cert_step keys) is_early ops (certs_after keys past new_cert_cache)) \<le> 1 + (of_int (z - a) / of_int cert_early_every :: rat)"
  by (rule early.grants_bounded [OF assms])

section \<open>The loop\<close>

lemma next_backoff_step:
  assumes "1 \<le> n"
  shows "next_backoff (min (cert_backoff_min * n) cert_backoff_max) = min (cert_backoff_min * (2 * n)) cert_backoff_max"
  using assms by (simp add: next_backoff_def cert_backoff_min_def cert_backoff_max_def)

lemma next_backoff_doubles: "(next_backoff ^^ Suc k) 0 = min (cert_backoff_min * 2 ^ k) cert_backoff_max"
proof (induction k)
  case (Suc k)
  have "(next_backoff ^^ Suc (Suc k)) 0 = next_backoff ((next_backoff ^^ Suc k) 0)" by simp
  also have "\<dots> = min (cert_backoff_min * 2 ^ Suc k) cert_backoff_max"
    unfolding Suc.IH by (simp only: next_backoff_step [of "2 ^ k", simplified] power_Suc)
  finally show ?case .
qed (simp add: next_backoff_def cert_backoff_min_def cert_backoff_max_def)

text \<open>A header of the source that is out of range turns the freshness negative.\<close>

lemma max_age_wraps: "fresh_for ''max-age=9300000000'' [] = - 9146744073709551616"
  by code_simp

text \<open>A fetch of two keys, a failed one, and questions while the copy is fresh, stale and too old.\<close>

definition sample_keys :: "bytes \<Rightarrow> bytes list option" where
  "sample_keys b = (if b = ''none'' then None else Some [b, ''k2''])"

definition sample_certs :: "cert_op list" where
  "sample_certs = [Fetched 5 (Some \<lparr>cr_status = 200, cr_body = Some ''k1'', cr_control = ''public, max-age=20'', cr_age = ''5''\<rparr>), AskUsable 6,
     Fetched 7 (Some \<lparr>cr_status = 503, cr_body = Some ''k3'', cr_control = [], cr_age = []\<rparr>), AskEarly 8, TakeKick, AskKid 9 ''k2'']"

theorem certs_serve_last_good_witness:
  "fst (cert_has_kid (15 * 10 ^ 9 + 5 + cert_stale_for) ''k1'' (certs_after sample_keys sample_certs new_cert_cache))
   \<and> \<not> fst (cert_has_kid (15 * 10 ^ 9 + 6 + cert_stale_for) ''k1'' (certs_after sample_keys sample_certs new_cert_cache))"
proof -
  have s: "sorted (query_times sample_certs @ [15 * 10 ^ 9 + 5 + cert_stale_for])" "sorted (query_times sample_certs @ [15 * 10 ^ 9 + 6 + cert_stale_for])"
    by code_simp+
  have "(case last_good sample_keys sample_certs None of None \<Rightarrow> False | Some cp \<Rightarrow> in_date (15 * 10 ^ 9 + 5 + cert_stale_for) cp \<and> ''k1'' \<in> set (cc_kids cp))"
    "\<not> (case last_good sample_keys sample_certs None of None \<Rightarrow> False | Some cp \<Rightarrow> in_date (15 * 10 ^ 9 + 6 + cert_stale_for) cp \<and> ''k1'' \<in> set (cc_kids cp))"
    by code_simp+
  then show ?thesis unfolding certs_serve_last_good [OF s(1)] certs_serve_last_good [OF s(2)] by blast
qed

end
