(* ===== verification/SvcAuth.thy ===== *)
theory SvcAuth
  imports SvcLimits SvcCerts
begin

text \<open>
  Authentication of a request to the \<open>/v1\<close> listener and the chain of checks in front of a handler
  (\<open>src/internal/svcauth/auth.go\<close>, \<open>keys.go\<close>, \<open>oidc.go\<close>, \<open>handler.go\<close>, the address of a client in \<open>limits.go\<close>). The
  keyed digest, base64 and JSON decoding of a token, and the check of its signature are arguments.
\<close>

section \<open>Requests\<close>

text \<open>\<open>hr_headers\<close>: the header names with any value, in canonical form.\<close>

record http_request =
  hr_auth :: "bytes list"
  hr_headers :: "bytes list"
  hr_forwarded_for :: "bytes list"
  hr_remote :: bytes

definition forwarded_headers :: "bytes list" where
  "forwarded_headers = [''X-Forwarded-For'', ''X-Forwarded-Host'', ''X-Forwarded-Proto'', ''Forwarded'', ''X-Real-Ip'',
     ''Cf-Connecting-Ip'', ''True-Client-Ip'', ''Cf-Ray'', ''Cdn-Loop'', ''Via'']"

text \<open>\<open>header\<close>: the canonical name of the configured client address header, empty for none.\<close>

definition was_forwarded :: "bytes \<Rightarrow> http_request \<Rightarrow> bool" where
  "was_forwarded header r = (list_ex (\<lambda>h. h \<in> set (hr_headers r)) forwarded_headers \<or> header \<noteq> [] \<and> header \<in> set (hr_headers r))"

definition loopback_peer :: "svc_deps \<Rightarrow> http_request \<Rightarrow> bool" where
  "loopback_peer d r = (case sd_split d (hr_remote r) of None \<Rightarrow> False
     | Some (host, port) \<Rightarrow> sd_ip d host \<noteq> None \<and> sd_loopback d host)"

definition peer_addr :: "svc_deps \<Rightarrow> http_request \<Rightarrow> bytes" where
  "peer_addr d r = (let host = (case sd_split d (hr_remote r) of None \<Rightarrow> hr_remote r | Some (host, port) \<Rightarrow> host) in
     case sd_ip d host of None \<Rightarrow> host | Some ip \<Rightarrow> ip)"

text \<open>\<open>clientKey\<close>: the key of the limiter of failures.\<close>

definition client_key :: "svc_deps \<Rightarrow> bytes \<Rightarrow> http_request \<Rightarrow> bytes" where
  "client_key d header r =
     (let peer = peer_addr d r;
          named = (case hr_forwarded_for r of [x] \<Rightarrow> if CHR '','' \<in> set x then None else sd_ip d (trim_space x) | _ \<Rightarrow> None) in
      if sd_ip d peer = None \<or> \<not> sd_loopback d peer then peer
      else (case named of Some ip \<Rightarrow> ip
        | None \<Rightarrow> if \<not> was_forwarded header r then ''loopback-direct'' else peer))"

section \<open>The bearer credential\<close>

definition max_credential :: nat where "max_credential = 4096"

definition ascii_fold :: "char \<Rightarrow> char" where
  "ascii_fold c = (if CHR ''A'' \<le> c \<and> c \<le> CHR ''Z'' then char_of (byte_val c + 32) else c)"

definition ascii_equal_fold :: "bytes \<Rightarrow> bytes \<Rightarrow> bool" where
  "ascii_equal_fold a b = (length a = length b \<and> list_all2 (\<lambda>x y. ascii_fold x = ascii_fold y) a b)"

definition bearer :: "bytes \<Rightarrow> bytes option" where
  "bearer v = (if length v \<le> 7 \<or> \<not> ascii_equal_fold (take 6 v) ''bearer'' \<or> v ! 6 \<noteq> CHR 0x20 then None
     else let cred = drop 7 v in
       if max_credential < length cred \<or> list_ex (\<lambda>c. c \<le> CHR 0x20 \<or> CHR 0x7F \<le> c) cred then None else Some cred)"

section \<open>Keys\<close>

text \<open>\<open>keyPattern\<close>, which captures the key id.\<close>

definition base32_byte :: "char \<Rightarrow> bool" where
  "base32_byte c = (CHR ''A'' \<le> c \<and> c \<le> CHR ''Z'' \<or> CHR ''2'' \<le> c \<and> c \<le> CHR ''7'')"

definition key_pattern :: "bytes \<Rightarrow> bytes option" where
  "key_pattern s = (if length s = 73 \<and> take 4 s = ''csk_'' \<and> list_all hex_byte (take 16 (drop 4 s)) \<and> s ! 20 = CHR ''_''
       \<and> list_all base32_byte (drop 21 s) then Some (take 16 (drop 4 s)) else None)"

text \<open>What the process was started with: whether key authentication is on, the keyed digest, the client address header.\<close>

record svc_options =
  so_deps :: svc_deps
  so_pepper_ok :: bool
  so_digest :: "bytes \<Rightarrow> bytes"
  so_header :: bytes

definition verify_key :: "svc_options \<Rightarrow> svc_config \<Rightarrow> http_request \<Rightarrow> bytes \<Rightarrow> bytes + principal_config" where
  "verify_key opt c r cred =
     (if \<not> so_pepper_ok opt then Inl ''keys_disabled''
      else if \<not> loopback_peer (so_deps opt) r then Inl ''key_not_loopback''
      else if was_forwarded (so_header opt) r then Inl ''key_forwarded''
      else (case key_pattern cred of None \<Rightarrow> Inl ''malformed_credential''
        | Some i \<Rightarrow> (case by_key_id c i of None \<Rightarrow> Inl ''unknown_principal''
          | Some (p, digest) \<Rightarrow> if so_digest opt cred = digest then Inr p else Inl ''bad_key'')))"

section \<open>Tokens\<close>

text \<open>
  A decoded payload: the fields of \<open>idtoken.Payload\<close>, and what its map of claims holds at the names the code asks for
  (\<open>None\<close> where a claim is missing or of another type).
\<close>

record token_payload =
  tp_issuer :: bytes
  tp_audience :: bytes
  tp_expires :: int
  tp_issued :: int
  tp_subject :: bytes
  tp_claim_iss :: "bytes option"
  tp_claim_aud :: "bytes option"
  tp_has_exp :: bool
  tp_has_iat :: bool
  tp_claim_email :: "bytes option"
  tp_claim_sub :: "bytes option"
  tp_verified :: bool

definition audience :: bytes where "audience = ''https://cosift.pilotprotocol.network/v1''"

definition allowed_issuer :: "bytes \<Rightarrow> bool" where
  "allowed_issuer iss = (iss \<in> {''https://accounts.google.com'', ''accounts.google.com''})"

text \<open>\<open>now\<close> in nanoseconds; \<open>now.Unix()\<close> is its whole seconds.\<close>

definition check_claims :: "svc_config \<Rightarrow> token_payload \<Rightarrow> int \<Rightarrow> bytes + principal_config" where
  "check_claims c p now =
     (if or_empty (tp_claim_iss p) \<noteq> tp_issuer p \<or> \<not> allowed_issuer (tp_issuer p) then Inl ''bad_iss''
      else if or_empty (tp_claim_aud p) \<noteq> tp_audience p \<or> tp_audience p \<noteq> audience then Inl ''bad_aud''
      else if \<not> tp_has_exp p \<or> tp_expires p < now div 10 ^ 9 then Inl ''expired''
      else if \<not> tp_has_iat p \<or> tp_issued p < tp_expires p - 3600 then Inl ''bad_lifetime''
      else (case by_sub c (tp_subject p) of None \<Rightarrow> Inl ''unknown_principal''
        | Some pc \<Rightarrow> if or_empty (tp_claim_sub p) \<noteq> tp_subject p \<or> or_empty (tp_claim_email p) \<noteq> pc_email pc then Inl ''unknown_principal''
            else if \<not> tp_verified p then Inl ''email_unverified'' else Inr pc))"

text \<open>
  The libraries: base64, whether a text is a JSON object, the algorithm and key id of a JSON header, whether the claims \<open>iss\<close>
  and \<open>aud\<close> of a JSON payload are strings, the payload of a token, and \<open>Validate\<close>, given what the transport answers it.
\<close>

datatype validation = Validated token_payload | NoCertificates | BadToken

record token_deps =
  td_b64 :: "bytes \<Rightarrow> bytes option"
  td_object :: "bytes \<Rightarrow> bool"
  td_head :: "bytes \<Rightarrow> (bytes \<times> bytes) option"
  td_strings :: "bytes \<Rightarrow> (bool \<times> bool) option"
  td_payload :: "bytes \<Rightarrow> token_payload option"
  td_validate :: "trip_err + bytes \<Rightarrow> bytes \<Rightarrow> bytes \<Rightarrow> validation"

definition check_header :: "token_deps \<Rightarrow> bytes \<Rightarrow> bytes + bytes" where
  "check_header t tok =
     (case split_byte (CHR ''.'') tok of
        [h, p, s] \<Rightarrow>
          (if list_ex (\<lambda>x. td_b64 t x = None \<or> x = []) [h, p, s] then Inl ''malformed_token''
           else (let head = or_empty (td_b64 t h) in
             if \<not> td_object t head \<or> \<not> td_object t (or_empty (td_b64 t p)) then Inl ''malformed_token''
             else (case td_head t head of None \<Rightarrow> Inl ''malformed_token''
               | Some (alg, kid) \<Rightarrow> if alg \<noteq> ''RS256'' \<or> kid = [] then Inl ''bad_alg'' else Inr kid)))
      | _ \<Rightarrow> Inl ''malformed_token'')"

definition payload_type_reason :: "token_deps \<Rightarrow> bytes \<Rightarrow> bytes" where
  "payload_type_reason t tok =
     (case td_b64 t (split_byte (CHR ''.'') tok ! 1) of None \<Rightarrow> ''malformed_token''
      | Some b \<Rightarrow> (case td_strings t b of None \<Rightarrow> ''malformed_token''
        | Some (iss, aud) \<Rightarrow> if \<not> iss then ''bad_iss'' else if \<not> aud then ''bad_aud'' else ''malformed_token''))"

datatype auth_outcome = Authenticated principal_config | AuthFailed bytes | AuthUnavailable

text \<open>
  The part of \<open>verify\<close> that asks the certificates: \<open>clk n\<close> is the n-th reading of the clock of the request, and \<open>mid n\<close> what
  the refreshing loop and other requests do to the cache before its n-th use.
\<close>

datatype vouch = Vouched token_payload | NotVouched bytes | CertsDown

definition vouch_token :: "token_deps \<Rightarrow> (nat \<Rightarrow> int) \<Rightarrow> (nat \<Rightarrow> cert_cache \<Rightarrow> cert_cache) \<Rightarrow> bytes \<Rightarrow> bytes \<Rightarrow> cert_cache
    \<Rightarrow> vouch \<times> cert_cache" where
  "vouch_token t clk mid kid tok k =
     (case cert_usable (clk 1) (mid 1 k) of (False, k) \<Rightarrow> (CertsDown, k)
      | (True, k) \<Rightarrow> (case cert_has_kid (clk 2) kid (mid 2 k) of
          (False, k) \<Rightarrow> (NotVouched ''bad_signature'', request_early (clk 3) (mid 3 k))
        | (True, k) \<Rightarrow> (case round_trip (clk 4) ''GET'' certs_url (mid 4 k) of (answer, k) \<Rightarrow>
            (case td_validate t answer tok audience of NoCertificates \<Rightarrow> CertsDown
               | BadToken \<Rightarrow> NotVouched ''bad_signature'' | Validated p \<Rightarrow> Vouched p, k))))"

definition verify_token :: "token_deps \<Rightarrow> svc_config \<Rightarrow> (nat \<Rightarrow> int) \<Rightarrow> (nat \<Rightarrow> cert_cache \<Rightarrow> cert_cache) \<Rightarrow> bytes \<Rightarrow> cert_cache
    \<Rightarrow> auth_outcome \<times> cert_cache" where
  "verify_token t c clk mid tok k =
     (case check_header t tok of Inl reason \<Rightarrow> (AuthFailed reason, k)
      | Inr kid \<Rightarrow> (case td_payload t tok of None \<Rightarrow> (AuthFailed (payload_type_reason t tok), k)
        | Some pre \<Rightarrow> (case check_claims c pre (clk 0) of Inl reason \<Rightarrow> (AuthFailed reason, k)
          | Inr _ \<Rightarrow> (case vouch_token t clk mid kid tok k of (v, k) \<Rightarrow>
              (case v of CertsDown \<Rightarrow> AuthUnavailable
               | NotVouched reason \<Rightarrow> AuthFailed reason
               | Vouched p \<Rightarrow> (case check_claims c p (clk 5) of Inl reason \<Rightarrow> AuthFailed reason | Inr pc \<Rightarrow> Authenticated pc), k)))))"

section \<open>Authentication\<close>

definition token_byte :: "char \<Rightarrow> bool" where
  "token_byte c = (CHR ''A'' \<le> c \<and> c \<le> CHR ''Z'' \<or> CHR ''a'' \<le> c \<and> c \<le> CHR ''z'' \<or> digit_byte c \<or> c = CHR ''_'' \<or> c = CHR ''-'')"

definition jwt_shape :: "bytes \<Rightarrow> bool" where
  "jwt_shape s = (let segs = split_byte (CHR ''.'') s in length segs = 3 \<and> list_all (\<lambda>x. x \<noteq> [] \<and> list_all token_byte x) segs)"

definition authenticate :: "svc_options \<Rightarrow> token_deps \<Rightarrow> svc_config \<Rightarrow> (nat \<Rightarrow> int) \<Rightarrow> (nat \<Rightarrow> cert_cache \<Rightarrow> cert_cache)
    \<Rightarrow> http_request \<Rightarrow> cert_cache \<Rightarrow> auth_outcome \<times> cert_cache" where
  "authenticate opt t c clk mid r k =
     (case hr_auth r of [] \<Rightarrow> (AuthFailed ''missing_credential'', k)
      | v # w # vs \<Rightarrow> (AuthFailed ''malformed_credential'', k)
      | [v] \<Rightarrow> (case bearer v of None \<Rightarrow> (AuthFailed ''malformed_credential'', k)
        | Some cred \<Rightarrow>
            if has_prefix cred ''csk_''
            then (case verify_key opt c r cred of Inl reason \<Rightarrow> (AuthFailed reason, k) | Inr p \<Rightarrow> (Authenticated p, k))
            else if jwt_shape cred then verify_token t c clk mid cred k
            else (AuthFailed ''unknown_credential'', k)))"

section \<open>The chain of a route\<close>

record svc_listener =
  sl_policy :: svc_policy
  sl_failed :: fail_limiter
  sl_certs :: cert_cache

record svc_route =
  rt_pattern :: bytes
  rt_scopes :: "scope list"
  rt_per_minute :: int
  rt_ungated :: bool

definition unauthenticated :: v1_error where "unauthenticated = v1_err 401 ''unauthenticated''"
definition auth_unavailable :: v1_error where "auth_unavailable = v1_err 503 ''auth_unavailable''"
definition auth_throttled :: v1_error where "auth_throttled = v1_err 429 ''auth_throttled''"
definition rate_limited :: v1_error where "rate_limited = v1_err 429 ''rate_limited''"

definition second_ns :: int where "second_ns = 10 ^ 9"

text \<open>A refusal with its \<open>RetryAfter\<close>, or the call of the handler.\<close>

datatype served = Rejected v1_error int | Handled principal

text \<open>
  \<open>serve_route\<close> is \<open>chain\<close> with \<open>refuse\<close>, \<open>scopeCheck\<close> and \<open>routeCap\<close>. \<open>others n\<close> is what other requests and reloads
  do to the listener before the limiter of the request takes its lock (0) and before that of the route does (1).
\<close>

definition serve_failure :: "svc_options \<Rightarrow> svc_config \<Rightarrow> int \<Rightarrow> http_request \<Rightarrow> svc_listener \<Rightarrow> served \<times> svc_listener" where
  "serve_failure opt c now r s =
     (case charge_failure now (client_key (so_deps opt) (so_header opt) r) (sc_fail_per_minute c) (sc_fail_burst c) (sl_failed s) of
        (((wait, ok), lines), f) \<Rightarrow>
          (if ok then Rejected unauthenticated 0 else Rejected auth_throttled (max wait second_ns), s\<lparr>sl_failed := f\<rparr>))"

definition serve_capped :: "svc_route \<Rightarrow> int \<Rightarrow> principal_config \<Rightarrow> svc_listener \<Rightarrow> served \<times> svc_listener" where
  "serve_capped rt now pc s = (case allow_route now (pc_id pc) (rt_pattern rt) (rt_per_minute rt) (sl_policy s) of
     ((wait, ok), p) \<Rightarrow> (if ok then Handled (pc_principal pc) else Rejected rate_limited (max wait second_ns), s\<lparr>sl_policy := p\<rparr>))"

definition serve_route :: "svc_options \<Rightarrow> token_deps \<Rightarrow> bool \<Rightarrow> svc_route \<Rightarrow> (nat \<Rightarrow> int) \<Rightarrow> (nat \<Rightarrow> cert_cache \<Rightarrow> cert_cache)
    \<Rightarrow> (nat \<Rightarrow> svc_listener \<Rightarrow> svc_listener) \<Rightarrow> http_request \<Rightarrow> svc_listener \<Rightarrow> served \<times> svc_listener" where
  "serve_route opt t ready rt clk mid others r s =
     (case sp_active (sl_policy s) of None \<Rightarrow> (Rejected unauthenticated 0, s)
      | Some c \<Rightarrow> (case authenticate opt t c clk mid r (sl_certs s) of (out, k) \<Rightarrow>
         (let s = s\<lparr>sl_certs := k\<rparr> in
          case out of
            AuthUnavailable \<Rightarrow> (Rejected auth_unavailable (10 * second_ns), s)
          | AuthFailed reason \<Rightarrow> serve_failure opt c (clk 6) r (others 0 s)
          | Authenticated pc \<Rightarrow> (let s = others 0 s in
              case allow_request (clk 6) pc (sl_policy s) of ((wait, ok), p) \<Rightarrow>
                (let s = s\<lparr>sl_policy := p\<rparr> in
                 if \<not> ok then (Rejected rate_limited (max wait second_ns), s)
                 else if \<not> rt_ungated rt \<and> \<not> ready then (Rejected index_unavailable (5 * second_ns), s)
                 else if rt_scopes rt \<noteq> [] \<and> \<not> has_any (pc_principal pc) (rt_scopes rt) then (Rejected (missing_scope (rt_scopes rt)) 0, s)
                 else if rt_per_minute rt \<le> 0 then (Handled (pc_principal pc), s)
                 else serve_capped rt (clk 7) pc (others 1 s))))))"

end
