(* ===== verification/SvcConfigProps.thy ===== *)
theory SvcConfigProps
  imports SvcConfigOk
begin

text \<open>What a validated configuration is, with an instance.\<close>

section \<open>An instance\<close>

definition sample_deps :: svc_deps where
  "sample_deps = \<lparr>sd_split = (\<lambda>s. case index_byte (CHR '':'') s of None \<Rightarrow> None | Some i \<Rightarrow> Some (take i s, drop (i + 1) s)),
     sd_ip = (\<lambda>h. if h = [] then None else Some h), sd_loopback = (\<lambda>h. has_prefix h ''127.''), sd_unspecified = (\<lambda>h. h = ''0.0.0.0''),
     sd_instant = (\<lambda>s. if s = ''2026-01-01T00:00:00Z'' then Some (Some 0) else None)\<rparr>"

definition sample_checks :: svc_checks where
  "sample_checks = \<lparr>ck_pepper_ok = True, ck_digest = (\<lambda>t. t), ck_peer = ''peer'', ck_admin = [], ck_main = ''0.0.0.0:7777''\<rparr>"

definition blank_principal :: raw_principal where
  "blank_principal = \<lparr>rp_id = None, rp_kind = None, rp_sub = None, rp_email = None, rp_keys = None, rp_env = None, rp_scopes = None,
     rp_rpm = None, rp_burst = None, rp_writes_per_hour = None, rp_writes_burst = None, rp_writes_per_day = None, rp_counts_reads = None\<rparr>"

definition sample_raw :: raw_config where
  "sample_raw = \<lparr>rc_schema = Some 1, rc_listen = None, rc_fail = None, rc_frozen = None, rc_golive = None, rc_principals = Some
     [blank_principal\<lparr>rp_id := Some ''site'', rp_kind := Some ''oidc'', rp_sub := Some ''100200300'',
        rp_email := Some ''site-svc@pilot-prod.iam.gserviceaccount.com'', rp_env := Some ''prod'',
        rp_scopes := Some [''articles:read'', ''articles:write''], rp_rpm := Some 60\<rparr>,
      blank_principal\<lparr>rp_id := Some ''desk'', rp_kind := Some ''key'',
        rp_keys := Some [\<lparr>rk_id = Some ''00000000000000aa'', rk_digest = Some (digest_prefix @ replicate 64 (CHR ''0'')), rk_created = Some ''2026-01-31''\<rparr>],
        rp_env := Some ''prod'', rp_scopes := Some [''articles:read_all'', ''articles:moderate''], rp_rpm := Some 30, rp_burst := Some 5\<rparr>]\<rparr>"

definition accepted :: "cfg_err + svc_config \<Rightarrow> svc_config" where
  "accepted v = (case v of Inr c \<Rightarrow> c | Inl x \<Rightarrow> \<lparr>sc_listen = [], sc_fail_per_minute = 0, sc_fail_burst = 0, sc_frozen = True, sc_golive = None, sc_principals = []\<rparr>)"

definition sample_valid :: svc_config where
  "sample_valid = accepted (validate_config sample_deps sample_checks sample_raw)"

lemma sample_validates: "validate_config sample_deps sample_checks sample_raw = Inr sample_valid"
proof -
  have "\<not> isl (validate_config sample_deps sample_checks sample_raw)" by code_simp
  then show ?thesis by (cases "validate_config sample_deps sample_checks sample_raw") (simp_all add: sample_valid_def accepted_def)
qed

section \<open>Validation\<close>

text \<open>The principals of the file, in its order.\<close>

lemma validate_principal_id:
  assumes "validate_principal r = Inr p"
  shows "pc_id p = or_empty (rp_id r)"
  using assms validate_limits_ok(2) by (fastforce simp: validate_principal_def split: option.splits sum.splits prod.splits)

lemma add_principals_ids: "add_principals c i rs ids subs emails keys = Inr ps \<Longrightarrow> map pc_id ps = map (\<lambda>r. or_empty (rp_id r)) rs"
proof (induction rs arbitrary: i ids subs emails keys ps)
  case (Cons r rs)
  then show ?case by (auto split: sum.splits option.splits dest: validate_principal_id)
qed simp



end
