(* ===== verification/SvcAuthProps.thy ===== *)
theory SvcAuthProps
  imports SvcAuth SvcConfigProps
begin

text \<open>Who is authenticated, and what stands between a request and a handler.\<close>

section \<open>Credentials\<close>

text \<open>A key of a principal, presented on the loopback interface by a caller that no proxy forwarded.\<close>

definition presents_key :: "svc_options \<Rightarrow> http_request \<Rightarrow> bytes \<Rightarrow> principal_config \<Rightarrow> bool" where
  "presents_key opt r cred pc = (so_pepper_ok opt \<and> loopback_peer (so_deps opt) r \<and> \<not> was_forwarded (so_header opt) r
     \<and> (\<exists>k \<in> set (pc_keys pc). key_pattern cred = Some (kc_id k) \<and> so_digest opt cred = kc_digest k))"

text \<open>Claims that name an OIDC principal, unexpired and short-lived.\<close>

definition claims_name :: "token_payload \<Rightarrow> int \<Rightarrow> principal_config \<Rightarrow> bool" where
  "claims_name p now pc = (allowed_issuer (tp_issuer p) \<and> or_empty (tp_claim_iss p) = tp_issuer p
     \<and> tp_audience p = audience \<and> or_empty (tp_claim_aud p) = audience
     \<and> tp_has_exp p \<and> now div 10 ^ 9 \<le> tp_expires p \<and> tp_has_iat p \<and> tp_expires p - tp_issued p \<le> 3600
     \<and> pc_kind pc = KindOidc \<and> tp_subject p = pc_sub pc \<and> or_empty (tp_claim_sub p) = pc_sub pc
     \<and> or_empty (tp_claim_email p) = pc_email pc \<and> tp_verified p)"

text \<open>
  A token of the principal: its header names a key of the copy of the certificates in service, its payload claims a
  principal, and the payload that the signature check returns names this one.
\<close>

definition presents_token :: "token_deps \<Rightarrow> svc_config \<Rightarrow> (nat \<Rightarrow> int) \<Rightarrow> (nat \<Rightarrow> cert_cache \<Rightarrow> cert_cache) \<Rightarrow> bytes \<Rightarrow> cert_cache
    \<Rightarrow> principal_config \<Rightarrow> bool" where
  "presents_token t c clk mid cred k pc = (\<exists>kid pre p. check_header t cred = Inr kid \<and> td_payload t cred = Some pre
     \<and> (\<exists>q \<in> set (sc_principals c). claims_name pre (clk 0) q)
     \<and> (let k1 = mid 1 k; k2 = mid 2 (snd (cert_usable (clk 1) k1)); k4 = mid 4 (snd (cert_has_kid (clk 2) kid k2)) in
        fst (cert_usable (clk 1) k1) \<and> fst (cert_has_kid (clk 2) kid k2)
        \<and> td_validate t (fst (round_trip (clk 4) ''GET'' certs_url k4)) cred audience = Validated p)
     \<and> claims_name p (clk 5) pc)"

lemma find_rev_unique:
  assumes "\<And>x y. x \<in> set xs \<Longrightarrow> y \<in> set xs \<Longrightarrow> P x \<Longrightarrow> P y \<Longrightarrow> x = y"
  shows "find P (rev xs) = Some x \<longleftrightarrow> x \<in> set xs \<and> P x"
proof
  assume "find P (rev xs) = Some x"
  then show "x \<in> set xs \<and> P x" by (auto simp: find_Some_iff) (metis length_rev nth_mem set_rev)
next
  assume x: "x \<in> set xs \<and> P x"
  then obtain y where y: "find P (rev xs) = Some y" by (cases "find P (rev xs)") (auto simp: find_None_iff)
  then have "y \<in> set xs \<and> P y" by (auto simp: find_Some_iff) (metis length_rev nth_mem set_rev)
  with x y assms show "find P (rev xs) = Some x" by metis
qed

lemma by_sub_iff:
  assumes "config_ok k c"
  shows "by_sub c s = Some pc \<longleftrightarrow> pc \<in> set (sc_principals c) \<and> pc_kind pc = KindOidc \<and> pc_sub pc = s"
  unfolding by_sub_def
proof (rule find_rev_unique)
  fix x y assume "x \<in> set (sc_principals c)" "y \<in> set (sc_principals c)" "pc_kind x = KindOidc \<and> pc_sub x = s" "pc_kind y = KindOidc \<and> pc_sub y = s"
  moreover have "inj_on pc_sub (set (oidc_principals c))" using assms by (simp add: config_ok_def distinct_map)
  ultimately show "x = y" by (auto simp: oidc_principals_def inj_on_def)
qed

lemma distinct_concat_keys:
  assumes "distinct (map f (concat (map g xs)))" "x \<in> set xs" "y \<in> set xs" "a \<in> set (g x)" "b \<in> set (g y)" "f a = f b"
  shows "x = y \<and> a = b"
  using assms
proof (induction xs)
  case (Cons z xs)
  have d: "distinct (map f (g z))" "f ` set (g z) \<inter> f ` (\<Union>x \<in> set xs. set (g x)) = {}"
    using Cons.prems(1) by (simp_all add: image_UN)
  have inj: "a' = b'" if "a' \<in> set (g z)" "b' \<in> set (g z)" "f a' = f b'" for a' b'
    using d(1) that by (auto simp: distinct_map inj_on_def)
  show ?case
  proof (cases "x = z \<or> y = z")
    case False
    with Cons show ?thesis by simp
  next
    case True
    have "False" if "v = z" "w \<noteq> z" "w \<in> set (z # xs)" "a' \<in> set (g v)" "b' \<in> set (g w)" "f a' = f b'" for v w a' b'
    proof -
      have "f a' \<in> f ` set (g z)" using that(1,4) by simp
      moreover have "f b' \<in> f ` (\<Union>x \<in> set xs. set (g x))" using that(2,3,5) by auto
      ultimately
      show False using d(2) that(6) by auto
    qed
    with True Cons.prems(2-6) have "x = z \<and> y = z" by metis
    with inj Cons.prems(4-6) show ?thesis by blast
  qed
qed simp

lemma by_key_id_iff:
  assumes "config_ok k c"
  shows "by_key_id c i = Some (pc, d) \<longleftrightarrow> pc \<in> set (sc_principals c) \<and> (\<exists>x \<in> set (pc_keys pc). kc_id x = i \<and> kc_digest x = d)"
proof -
  let ?ps = "concat (map (\<lambda>p. map (Pair p) (pc_keys p)) (sc_principals c))"
  have u: "x = y" if "x \<in> set ?ps" "y \<in> set ?ps" "kc_id (snd x) = i" "kc_id (snd y) = i" for x y
  proof -
    have "fst v \<in> set (sc_principals c) \<and> snd v \<in> set (pc_keys (fst v))" if "v \<in> set ?ps" for v
      using that by auto
    moreover have "distinct (map kc_id (concat (map pc_keys (sc_principals c))))"
      using assms unfolding config_ok_def config_keys_def by blast
    ultimately show ?thesis
      using that distinct_concat_keys [of kc_id pc_keys "sc_principals c" "fst x" "fst y" "snd x" "snd y"] by (simp add: prod_eq_iff)
  qed
  have fr: "find (\<lambda>(p, k). kc_id k = i) (rev ?ps) = Some x \<longleftrightarrow> x \<in> set ?ps \<and> (\<lambda>(p, k). kc_id k = i) x" for x
    by (rule find_rev_unique) (rule u; simp only: case_prod_beta)
  have "by_key_id c i = Some (pc, d) \<longleftrightarrow> (\<exists>x. find (\<lambda>(p, k). kc_id k = i) (rev ?ps) = Some x \<and> fst x = pc \<and> kc_digest (snd x) = d)"
    unfolding by_key_id_def by (cases "find (\<lambda>(p, k). kc_id k = i) (rev ?ps)") (simp_all add: case_prod_beta)
  also have "\<dots> \<longleftrightarrow> (\<exists>x. x \<in> set ?ps \<and> kc_id (snd x) = i \<and> fst x = pc \<and> kc_digest (snd x) = d)"
    unfolding fr by (simp only: case_prod_beta conj_assoc)
  also have "\<dots> \<longleftrightarrow> pc \<in> set (sc_principals c) \<and> (\<exists>x \<in> set (pc_keys pc). kc_id x = i \<and> kc_digest x = d)" by force
  finally show ?thesis .
qed

lemma verify_key_iff:
  assumes "config_ok k c"
  shows "verify_key opt c r cred = Inr pc \<longleftrightarrow> pc \<in> set (sc_principals c) \<and> presents_key opt r cred pc"
proof -
  have "verify_key opt c r cred = Inr pc \<longleftrightarrow> so_pepper_ok opt \<and> loopback_peer (so_deps opt) r \<and> \<not> was_forwarded (so_header opt) r
      \<and> (\<exists>i. key_pattern cred = Some i \<and> by_key_id c i = Some (pc, so_digest opt cred))"
    by (auto simp: verify_key_def split: option.splits)
  then show ?thesis by (auto simp: presents_key_def by_key_id_iff [OF assms])
qed

lemma check_claims_iff:
  assumes "config_ok k c"
  shows "check_claims c p now = Inr pc \<longleftrightarrow> pc \<in> set (sc_principals c) \<and> claims_name p now pc"
proof -
  have "check_claims c p now = Inr pc \<longleftrightarrow> \<not> (or_empty (tp_claim_iss p) \<noteq> tp_issuer p \<or> \<not> allowed_issuer (tp_issuer p))
      \<and> \<not> (or_empty (tp_claim_aud p) \<noteq> tp_audience p \<or> tp_audience p \<noteq> audience) \<and> \<not> (\<not> tp_has_exp p \<or> tp_expires p < now div 10 ^ 9)
      \<and> \<not> (\<not> tp_has_iat p \<or> tp_issued p < tp_expires p - 3600) \<and> by_sub c (tp_subject p) = Some pc
      \<and> or_empty (tp_claim_sub p) = tp_subject p \<and> or_empty (tp_claim_email p) = pc_email pc \<and> tp_verified p"
    unfolding check_claims_def by (cases "by_sub c (tp_subject p)") auto
  then show ?thesis unfolding by_sub_iff [OF assms] claims_name_def by (simp add: linorder_not_less) (smt (verit))
qed

lemma vouch_token_iff:
  "fst (vouch_token t clk mid kid cred k) = Vouched p \<longleftrightarrow>
     (let k1 = mid 1 k; k2 = mid 2 (snd (cert_usable (clk 1) k1)); k4 = mid 4 (snd (cert_has_kid (clk 2) kid k2)) in
        fst (cert_usable (clk 1) k1) \<and> fst (cert_has_kid (clk 2) kid k2)
        \<and> td_validate t (fst (round_trip (clk 4) ''GET'' certs_url k4)) cred audience = Validated p)"
  unfolding vouch_token_def Let_def by (simp split: prod.split bool.split validation.split)

lemma verify_token_iff:
  assumes "config_ok k c"
  shows "fst (verify_token t c clk mid cred ch) = Authenticated pc \<longleftrightarrow> pc \<in> set (sc_principals c) \<and> presents_token t c clk mid cred ch pc"
proof -
  have "fst (verify_token t c clk mid cred ch) = Authenticated pc \<longleftrightarrow> (\<exists>kid pre q p. check_header t cred = Inr kid \<and> td_payload t cred = Some pre
     \<and> check_claims c pre (clk 0) = Inr q \<and> fst (vouch_token t clk mid kid cred ch) = Vouched p \<and> check_claims c p (clk 5) = Inr pc)"
    unfolding verify_token_def by (auto split: sum.splits option.splits prod.splits vouch.splits)
  then show ?thesis unfolding check_claims_iff [OF assms] presents_token_def vouch_token_iff by blast
qed

text \<open>The credential of a request: the one \<open>Authorization\<close> value, as a bearer.\<close>

definition bears :: "http_request \<Rightarrow> bytes \<Rightarrow> bool" where
  "bears r cred = (\<exists>v. hr_auth r = [v] \<and> bearer v = Some cred)"

definition authentic :: "svc_options \<Rightarrow> token_deps \<Rightarrow> svc_config \<Rightarrow> (nat \<Rightarrow> int) \<Rightarrow> (nat \<Rightarrow> cert_cache \<Rightarrow> cert_cache) \<Rightarrow> http_request
    \<Rightarrow> cert_cache \<Rightarrow> principal_config \<Rightarrow> bool" where
  "authentic opt t c clk mid r ch pc = (pc \<in> set (sc_principals c) \<and> (\<exists>cred. bears r cred
     \<and> (if has_prefix cred ''csk_'' then presents_key opt r cred pc else jwt_shape cred \<and> presents_token t c clk mid cred ch pc)))"

lemma authenticate_iff:
  assumes "config_ok k c"
  shows "fst (authenticate opt t c clk mid r ch) = Authenticated pc \<longleftrightarrow> authentic opt t c clk mid r ch pc"
proof -
  have "fst (authenticate opt t c clk mid r ch) = Authenticated pc \<longleftrightarrow> (\<exists>cred. bears r cred
     \<and> (if has_prefix cred ''csk_'' then verify_key opt c r cred = Inr pc else jwt_shape cred \<and> fst (verify_token t c clk mid cred ch) = Authenticated pc))"
    by (auto simp: authenticate_def bears_def split: list.splits option.splits sum.splits if_splits)
  also have "\<dots> \<longleftrightarrow> authentic opt t c clk mid r ch pc"
    unfolding verify_key_iff [OF assms] verify_token_iff [OF assms] authentic_def by auto
  finally show ?thesis .
qed

text \<open>C21: Under a validated configuration a request is authenticated as a principal exactly when its one bearer credential is a key
  of that principal, presented directly on the loopback interface, or a token whose verified claims name it; never by a
  token that only decodes, an expired or long-lived one, or a key that came through a proxy.
\<close>

theorem authentication_exact:
  assumes "validate_config d k raw = Inr c"
  shows "fst (authenticate opt t c clk mid r ch) = Authenticated pc \<longleftrightarrow> authentic opt t c clk mid r ch pc"
  by (rule authenticate_iff [OF validate_config_ok [OF assms]])

text \<open>A key of the second principal, presented on the box, and a token of the first.\<close>

definition sample_options :: svc_options where
  "sample_options = \<lparr>so_deps = sample_deps, so_pepper_ok = True, so_digest = (\<lambda>_. replicate 32 (CHR 0x00)), so_header = ''Cf-Connecting-Ip''\<rparr>"

definition sample_payload :: token_payload where
  "sample_payload = \<lparr>tp_issuer = ''accounts.google.com'', tp_audience = audience, tp_expires = 3600, tp_issued = 0, tp_subject = ''100200300'',
     tp_claim_iss = Some ''accounts.google.com'', tp_claim_aud = Some audience, tp_has_exp = True, tp_has_iat = True,
     tp_claim_email = Some ''site-svc@pilot-prod.iam.gserviceaccount.com'', tp_claim_sub = Some ''100200300'', tp_verified = True\<rparr>"

definition sample_tokens :: token_deps where
  "sample_tokens = \<lparr>td_b64 = Some, td_object = (\<lambda>_. True), td_head = (\<lambda>_. Some (''RS256'', ''k1'')), td_strings = (\<lambda>_. Some (True, True)),
     td_payload = (\<lambda>_. Some sample_payload),
     td_validate = (\<lambda>answer tok aud. if answer = Inr ''k1'' \<and> tok = ''h.p.s'' then Validated sample_payload else BadToken)\<rparr>"

definition sample_certs_held :: cert_cache where
  "sample_certs_held = certs_after sample_keys sample_certs new_cert_cache"

definition still_clock :: "nat \<Rightarrow> int" where "still_clock n = 0"
definition unmoved :: "nat \<Rightarrow> 'a \<Rightarrow> 'a" where "unmoved n x = x"

definition local_request :: "bytes \<Rightarrow> http_request" where
  "local_request v = \<lparr>hr_auth = [v], hr_headers = [''Authorization''], hr_forwarded_for = [], hr_remote = ''127.0.0.1:50000''\<rparr>"

definition key_request :: http_request where
  "key_request = local_request (''Bearer csk_00000000000000aa_'' @ replicate 52 (CHR ''A''))"

theorem authentication_exact_witness:
  "authentic sample_options sample_tokens sample_valid still_clock unmoved key_request sample_certs_held (sc_principals sample_valid ! 1)
   \<and> authentic sample_options sample_tokens sample_valid still_clock unmoved (local_request ''Bearer h.p.s'') sample_certs_held (sc_principals sample_valid ! 0)
   \<and> \<not> authentic sample_options sample_tokens sample_valid still_clock unmoved (local_request ''Bearer h.p.x'') sample_certs_held (sc_principals sample_valid ! 0)"
proof (intro conjI)
  show "authentic sample_options sample_tokens sample_valid still_clock unmoved key_request sample_certs_held (sc_principals sample_valid ! 1)"
    unfolding authentication_exact [OF sample_validates, symmetric] by code_simp
  show "authentic sample_options sample_tokens sample_valid still_clock unmoved (local_request ''Bearer h.p.s'') sample_certs_held (sc_principals sample_valid ! 0)"
    unfolding authentication_exact [OF sample_validates, symmetric] by code_simp
  show "\<not> authentic sample_options sample_tokens sample_valid still_clock unmoved (local_request ''Bearer h.p.x'') sample_certs_held (sc_principals sample_valid ! 0)"
    unfolding authentication_exact [OF sample_validates, symmetric] by code_simp
qed

section \<open>The chain\<close>

lemma requests_keep_active: "allow_request now pc p = (x, p') \<Longrightarrow> sp_active p' = sp_active p"
  by (auto simp: allow_request_def Let_def split: prod.splits)


definition sample_route :: svc_route where
  "sample_route = \<lparr>rt_pattern = ''GET /v1/articles/{id}'', rt_scopes = [ArticlesRead, ArticlesReadAll], rt_per_minute = 2, rt_ungated = False\<rparr>"

definition sample_listener :: svc_listener where
  "sample_listener = \<lparr>sl_policy = install sample_valid new_policy, sl_failed = new_fail_limiter, sl_certs = sample_certs_held\<rparr>"

definition serve_sample :: "bool \<Rightarrow> http_request \<Rightarrow> served \<times> svc_listener" where
  "serve_sample ready r = serve_route sample_options sample_tokens ready sample_route still_clock unmoved (\<lambda>_ x. x) r sample_listener"


end
