(* ===== verification/SvcReload.thy ===== *)
theory SvcReload
  imports SvcConfigProps SvcPolicy ArtProps
begin

text \<open>
  The service configuration and the article store together: the configuration that is active while a mutation holds the
  write lock decides whether it commits. \<open>Install\<close> swaps the configuration under the same lock.
\<close>

section \<open>Mutations\<close>

text \<open>A critical section of the write lock, with the scope it is for.\<close>

inductive article_commit :: "art_env \<Rightarrow> deps \<Rightarrow> principal \<Rightarrow> scope \<Rightarrow> art_store \<Rightarrow> art_store \<Rightarrow> bool" for e d p where
  Put: "commit_article e d p i b vecs check s = (out, s') \<Longrightarrow> article_commit e d p ArticlesWrite s s'"
| Stub: "commit_stub e d p i sb s = (rep, s') \<Longrightarrow> article_commit e d p ArticlesStub s s'"
| Delete: "commit_delete_stub e p i s = (rep, s') \<Longrightarrow> article_commit e d p ArticlesStub s s'"
| Moderate: "commit_status e d p i act w reason fresh s = (rep, s') \<Longrightarrow> article_commit e d p ArticlesModerate s s'"
| Purge: "commit_purge e d p n refresh s = (rep, s') \<Longrightarrow> article_commit e d p ArticlesAdmin s s'"

lemma article_commit_active:
  assumes "article_commit e d p need s s'" "s' \<noteq> s"
  shows "\<exists>a. active_locked (as_closed s) (ae_policy e) (as_idx s) p need (need \<in> {ArticlesWrite, ArticlesStub}) = Inr a"
  using assms
  by cases (auto simp: commit_article_def commit_stub_def commit_delete_stub_def commit_status_def commit_purge_def split: sum.splits)

section \<open>The active configuration decides\<close>

text \<open>C20: A mutation of the article store, checked on entry or not, commits only when the configuration active under the write lock holds
  its principal with the scope of the mutation and, for content, does not freeze writes. So a reload takes effect at once: a
  principal it drops or narrows changes nothing any more. Under a validated configuration a principal that changes content
  is an OIDC one that can neither moderate nor purge, one that moderates is a key principal that cannot write, and one that
  purges can do nothing else, and is of the production environment.
\<close>

theorem commits_follow_config:
  assumes "validate_config sd k raw = Inr c" "sp_active q = Some c" "ae_policy e = policy_view now q"
    and "article_commit e d p need s s'" "s' \<noteq> s"
  shows "\<exists>pc \<in> set (sc_principals c). pc_id pc = pr_id p \<and> need \<in> set (pc_scopes pc)
    \<and> (case need of ArticlesModerate \<Rightarrow> pc_kind pc = KindKey \<and> \<not> pc_writer pc
        | ArticlesAdmin \<Rightarrow> pc_scopes pc = [ArticlesAdmin] \<and> pc_env pc = EnvProd
        | _ \<Rightarrow> \<not> sc_frozen c \<and> pc_kind pc = KindOidc \<and> set (pc_scopes pc) \<inter> {ArticlesModerate, ArticlesAdmin} = {})"
proof -
  from article_commit_active [OF assms(4,5)] obtain a where
    a: "active_locked (as_closed s) (ae_policy e) (as_idx s) p need (need \<in> {ArticlesWrite, ArticlesStub}) = Inr a" by blast
  note l = active_locked_Inr [OF a]
  from l(2) obtain pc where b: "by_id c (pr_id p) = Some pc" "a = pc_principal pc"
    by (auto simp: assms(2,3) policy_view_def policy_principal_def)
  then have pc: "pc \<in> set (sc_principals c)" "pc_id pc = pr_id p"
    by (auto simp: by_id_def find_Some_iff) (metis length_rev nth_mem set_rev)
  have n: "need \<in> set (pc_scopes pc)" using l(3) by (simp add: b(2) pr_has_def pc_principal_def)
  have f: "\<not> sc_frozen c" if "need \<in> {ArticlesWrite, ArticlesStub}" using l(5) that by (simp add: assms(2,3) policy_view_def policy_frozen_def)
  have "scopes_ok pc" using validate_config_ok [OF assms(1)] pc(1) by (simp add: config_ok_def principal_ok_def)
  then have sc: "set (pc_scopes pc) \<subseteq> set (allowed_scopes (pc_kind pc))"
    "ArticlesAdmin \<in> set (pc_scopes pc) \<Longrightarrow> pc_scopes pc = [ArticlesAdmin] \<and> pc_env pc = EnvProd" by (simp_all add: scopes_ok_def)
  have nd: "need \<in> {ArticlesWrite, ArticlesStub, ArticlesModerate, ArticlesAdmin}" using assms(4) by cases simp_all
  show ?thesis
    by (rule bexI [OF _ pc(1)]) (use pc(2) n f sc nd in \<open>cases "pc_kind pc"; auto simp: pc_writer_def\<close>)
qed

text \<open>The writer of the sample configuration creates an article; its configuration allows it.\<close>

definition sample_policy :: svc_policy where
  "sample_policy = install sample_valid new_policy"

definition sample_env :: art_env where
  "sample_env = env.extend (calm_env 1) \<lparr>ae_policy = policy_view 0 sample_policy, ae_th = default_thresholds, ae_now = ''t''\<rparr>"

definition sample_site :: principal where
  "sample_site = pc_principal (sc_principals sample_valid ! 0)"

definition sample_created :: art_store where
  "sample_created = snd (commit_article sample_env dep0 sample_site id_a (body_of ''go'' ''text'' [] None) (vecs_of ''go'') None empty_articles)"

theorem commits_follow_config_witness:
  "sample_created \<noteq> empty_articles \<and> (\<exists>pc \<in> set (sc_principals sample_valid). pc_id pc = ''site'' \<and> ArticlesWrite \<in> set (pc_scopes pc))
   \<and> \<not> sc_frozen sample_valid"
proof -
  have "fmlookup (ix_recs (as_idx sample_created)) id_a \<noteq> None" by code_simp
  moreover have "fmlookup (ix_recs (as_idx empty_articles)) id_a = None" by (simp add: empty_articles_def new_index_def)
  ultimately have n: "sample_created \<noteq> empty_articles" by metis
  have c: "article_commit sample_env dep0 sample_site ArticlesWrite empty_articles sample_created"
    unfolding sample_created_def by (rule article_commit.Put [OF surjective_pairing])
  have a: "sp_active sample_policy = Some sample_valid" by (simp add: sample_policy_def install_def activate_def prune_def)
  have v: "ae_policy sample_env = policy_view 0 sample_policy" by (simp add: sample_env_def env.extend_def)
  have i: "pr_id sample_site = ''site''" by code_simp
  show ?thesis using n commits_follow_config [OF sample_validates a v c n] by (auto simp: i)
qed

end
