(* ===== verification/Spec2Isabelle.thy ===== *)
theory Spec2Isabelle
  imports FrontierProps DocProps ArtProps SrvLru SrvLimiter SrvAnswers RobotsProps RobotsCache SvcAuthProps SvcReload
begin

text \<open>
  A verification library for cosift, a search engine in Go: a crawler fills a Pebble key-value store, an index
  and an HTTP server answer queries from it, and an article store keeps generated articles that answer recurring
  questions. The theories follow the code component by component; every definition names the function it
  translates.

  \<^bold>\<open>Foundations.\<close> \<open>Prelude\<close>: Go strings as byte lists and the byte-wise functions of the standard packages.
  \<open>KV\<close>: the Pebble database is not part of the repository. Its documented contract (point writes applied by a
  batch in order and all at once, ranges in byte order, snapshots) is the locale \<open>ordered_kv\<close>, interpreted on
  finite maps. What the environment decides at a call (an I/O error of one read, of an iterator or of a commit,
  cancellation, the clock, random picks) is an argument of the operation.

  \<^bold>\<open>Crawl frontier\<close> (\<open>internal/store/pebble.go\<close>). \<open>FrontierCodec\<close> and \<open>FrontierKeys\<close> hold the packed rows and the keys
  of the primary family and of the two index families; \<open>Frontier\<close> every operation: push, batch push, claim with
  its lanes and polite hosts, completion, failure, recrawl, recovery, sweep, purge, demotion, clearing, counts.
  \<open>FrontierInv\<close> is the representation invariant, stated per URL; \<open>FrontierOps\<close>, \<open>FrontierClaim\<close> and
  \<open>FrontierMaint\<close> prove that each operation keeps it and what it does to the decoded rows. \<open>FrontierSpec\<close> states
  the contract a crawler relies on as the locale \<open>crawl_queue\<close> and interprets it on the model. The properties are
  in \<open>FrontierProps\<close>. The scan of a claim stops after a fixed number of keys and probes, the constants of the
  source, so no fuel is needed there.

  \<^bold>\<open>Document store\<close> (\<open>internal/store/pebble.go\<close>, \<open>content_index.go\<close>). It shares the database and the mutex with the
  frontier. \<open>DocCodec\<close>: keys and packed values. \<open>DocStore\<close>: every write and point read, with \<open>UpsertDocument\<close>, its
  batch form, \<open>IndexDocument\<close>, the one-batch \<open>WriteCrawlResult\<close>, \<open>SoftDeleteDocument\<close>, the counters and the opening
  of a store. \<open>DocRead\<close>: the scans with a callback and the counts per host and lane; \<open>DocSha\<close>: the content hash index
  and the two back-fills. \<open>DocInv\<close> is the invariant of documents, identifiers, terms, postings and their counters;
  \<open>DocIndex\<close>, \<open>DocKeep\<close>, \<open>DocOps\<close>, \<open>DocUpsert\<close>, \<open>DocWrite\<close>, \<open>DocLife\<close> and \<open>DocBatch\<close> prove that each write keeps it,
  fails cleanly, and what it changes; \<open>DocFrame\<close> that no frontier call touches a document row, so that the two
  invariants live side by side. \<open>DocSeq\<close> reorders the writes of \<open>WriteCrawlResult\<close>. \<open>DocRuns\<close> is the transition system
  of all calls, failures and restarts, with the identifiers each URL owns; \<open>DocTrace\<close> carries the invariants along its
  runs. \<open>DocScan\<close>, \<open>DocHits\<close>, \<open>DocContent\<close>, \<open>DocBackfill\<close>, \<open>DocTotal\<close> and \<open>DocEffects\<close> prove what the reads return,
  that calls succeed without faults, and the resumption of the hash back-fill. \<open>DocSample\<close> has a codec and the
  concrete stores of the witnesses; the properties are in \<open>DocProps\<close>. Every loop is over a list of rows, terms or
  documents that is finite when it starts, so no fuel is needed.

  \<^bold>\<open>Article store\<close> (\<open>internal/articles\<close>). The store writes a Pebble batch and then updates an in-memory index that
  a restart loads again from the keys \<open>'R'\<close>. \<open>ArtTypes\<close>: records, their three stored shapes, keys. \<open>ArtIndex\<close>:
  the index and the scan \<open>Rebuild\<close>; \<open>ArtRebuild\<close> proves what the scan loads. \<open>ArtSlug\<close>: slugs; the search
  for a free slug tries the base and its numbered candidates, and a bound of ten plus the number of slugs in use
  is enough, since reserved slugs are fewer than ten (\<open>assign_slug\<close>). \<open>ArtPolicy\<close>: callers, scopes, refusals.
  \<open>ArtPlan\<close>: \<open>planArticle\<close> and \<open>planStub\<close> decide before anything is written. \<open>ArtCommit\<close>: the critical
  sections of the write lock and the two-phase PUT with its retries. \<open>ArtModerate\<close>: moderation, takedown and the
  go-live purge. \<open>ArtCounters\<close>: reader counts. \<open>ArtMatch\<close>: the serving verdict and the public reads.
  \<open>ArtInv\<close> is the invariant of disk and memory together; \<open>ArtMirror\<close> reduces \<open>memory is what a restart would
  load\<close> to one statement per kind of key; \<open>ArtPut\<close>, \<open>ArtTakedown\<close>, \<open>ArtPurge\<close> prove the writers. \<open>ArtSystem\<close>
  composes the critical sections, background flushes and restarts into a transition system, \<open>ArtRuns\<close> its
  runs, with the locale \<open>recoverable\<close> of a memory that is a cache of its disk, interpreted on the store.
  \<open>ArtEffects\<close>, \<open>ArtVersions\<close> and \<open>ArtLife\<close> follow single records through writes and whole runs. The properties
  are in \<open>ArtProps\<close>.

  \<^bold>\<open>Server caches.\<close> \<open>SrvLru\<close> (\<open>internal/server/lru.go\<close>): the LRU cache over list elements and a key map, proved equal
  to a list ordered by recency. \<open>SrvLimiter\<close> (\<open>internal/server/ratelimit.go\<close>): the request limiter, equal to a
  window over the whole past. \<open>SrvAnswers\<close> (\<open>internal/answercache\<close>): the answer cache, whose \<open>Do\<close> is a step
  relation over the phases of any number of threads.

  \<^bold>\<open>Robots rules of the crawler\<close> (\<open>internal/crawler/robots.go\<close>). \<open>CrawlRobots\<close>: the parser as a fold over the lines of a body, the
  matcher of patterns, the choice of a group and of the longest rule, and the cache with its recency list and two
  bounds. \<open>RobotsMatch\<close> proves the matcher, which takes the first occurrence of each segment, equal to wildcard patterns;
  \<open>RobotsProps\<close> the decision, \<open>RobotsCache\<close> a round trip of printed rules and the cache.

  \<^bold>\<open>Service authentication\<close> (\<open>internal/svcauth\<close>). The \<open>/v1\<close> listener in front of the article store. \<open>SvcConfig\<close>: every rule a
  decoded configuration file must pass; \<open>SvcConfigOk\<close> and \<open>SvcConfigProps\<close> what a file that passes satisfies. \<open>SvcPolicy\<close>: the
  active configuration, its tables, the token buckets of requests and routes, the write budgets, and a reload in its two
  halves; \<open>SvcBudget\<close> bounds what a principal is granted, in the locale \<open>metered\<close> of operations paid from a credit, interpreted
  on the requests, the hourly and the daily writes, and in \<open>SvcCerts\<close> on early refreshes. \<open>SvcLimits\<close>: the limiter of failed
  authentications, equal to one that never forgets a client. \<open>SvcCerts\<close>: the certificate cache and its loop. \<open>SvcAuth\<close>:
  credentials, keys, tokens and the chain of checks before a handler, with what other requests do between its steps;
  \<open>SvcAuthProps\<close> who is authenticated and when a handler runs. \<open>SvcReload\<close> joins the configuration and the article store: which
  mutations commit under which configuration. A principal that one reload drops and a later one restores starts
  with full buckets and a fresh day; the bounds therefore speak of windows in which it stays.

  \<^bold>\<open>Conventions.\<close> Go strings are byte lists; \<open>int\<close> and \<open>int64\<close> are unbounded integers where the code cannot reach
  the bounds and carry \<open>is_i64\<close> or a wrap-around (\<open>i64\<close>, \<open>mod\<close>) where it can (versions, ticks, depths, packed
  lengths). A map of the code is a finite map; where the code ranges over one, the fold does not depend on the
  order or the order is an argument. Vector similarities and the tokens of a bucket are exact rationals, not
  floating-point sums. A critical
  section under a mutex is one function on the state.

  \<^bold>\<open>Parameters\<close>: the part of a slug that needs Unicode tables (\<open>dp_full_slug\<close>), SHA-256 (\<open>dp_hash\<close>), the
  normalisation of a vector (\<open>dp_unit\<close>), the vectors an embedder returns, and the result
  of decoding and validating a request body; for documents the gob encoder and decoder (the decoder is assumed to
  invert the encoder, nothing else), the tokenizer, and the host that \<open>url.Parse\<close> finds. For the service: addresses and instants
  (\<open>svc_deps\<close>), the keyed digest, base64, JSON and the signature check of a token (\<open>token_deps\<close>), the decoding of a key
  set; for robots rules the reading of a delay as a decimal number. No other law is assumed of them beyond the ranges a property states.

  \<^bold>\<open>Not modelled\<close>: HTTP decoding and routing, the command line, fetching and HTML parsing, BM25 and HNSW in floating
  point, clients of language models and embedders, and the evaluation harness: input
  and output around services, or arithmetic whose meaning is a quality score. The vector families of the
  Pebble store are blobs behind a slot byte and are not modelled, the SQLite store is statements for a database engine
  outside the repository, and the pure durability effects (fsync, compaction) have no counterpart in the model.
\<close>

end
